(* ===== verification/Prelude.thy ===== *)
theory Prelude
  imports Main "HOL-Library.Word" "HOL-Library.Monad_Syntax"
begin

text \<open>
  Shared vocabulary of the development: the C integer types, the errno constants the code
  returns, the byte-order conversions of \<^verbatim>\<open>headers/bpf_endian.h\<close> for a little-endian target,
  and the generic lemmas on words, lists and the option monad that the components use.

  In every component a value of an option type whose \<^term>\<open>None\<close> is not a C result stands for
  an access the C abstract machine does not allow (a load or store out of bounds); theorems
  that a result is \<open>Some\<close> are therefore memory-safety theorems.
\<close>

unbundle bit_operations_syntax

section \<open>C integer types\<close>

type_synonym u8 = "8 word"
type_synonym u16 = "16 word"
type_synonym u32 = "32 word"
type_synonym u64 = "64 word"

named_theorems c_consts \<open>numeric constants of the C sources\<close>
named_theorems safe_intros \<open>introduction rules for memory safety\<close>

section \<open>Error numbers\<close>

abbreviation (input) ENOENT :: int where "ENOENT \<equiv> 2"
abbreviation (input) E2BIG :: int where "E2BIG \<equiv> 7"
abbreviation (input) ENOMEM :: int where "ENOMEM \<equiv> 12"
abbreviation (input) EBUSY :: int where "EBUSY \<equiv> 16"
abbreviation (input) EEXIST :: int where "EEXIST \<equiv> 17"
abbreviation (input) EINVAL :: int where "EINVAL \<equiv> 22"
abbreviation (input) ERANGE :: int where "ERANGE \<equiv> 34"
abbreviation (input) ENAMETOOLONG :: int where "ENAMETOOLONG \<equiv> 36"
abbreviation (input) EMSGSIZE :: int where "EMSGSIZE \<equiv> 90"
abbreviation (input) ENOTSUP :: int where "ENOTSUP \<equiv> 95"
abbreviation (input) EUCLEAN :: int where "EUCLEAN \<equiv> 117"
abbreviation (input) EOPNOTSUPP :: int where "EOPNOTSUPP \<equiv> 95"

section \<open>Byte order (headers/bpf_endian.h, little-endian branch)\<close>

definition bswap16 :: "u16 \<Rightarrow> u16" where
  "bswap16 x = push_bit 8 x OR drop_bit 8 x"

definition bpf_htons :: "u16 \<Rightarrow> u16" where
  "bpf_htons x = bswap16 x"

definition bpf_ntohs :: "u16 \<Rightarrow> u16" where
  "bpf_ntohs x = bswap16 x"

text \<open>A 16-bit and a 32-bit word from its bytes in memory order, and back.\<close>

definition le16 :: "u8 \<Rightarrow> u8 \<Rightarrow> u16" where
  "le16 b0 b1 = ucast b0 OR push_bit 8 (ucast b1)"

definition le32 :: "u8 \<Rightarrow> u8 \<Rightarrow> u8 \<Rightarrow> u8 \<Rightarrow> u32" where
  "le32 b0 b1 b2 b3 =
     ucast b0 OR push_bit 8 (ucast b1) OR push_bit 16 (ucast b2) OR push_bit 24 (ucast b3)"

definition lo8 :: "u16 \<Rightarrow> u8" where
  "lo8 x = ucast x"

definition hi8 :: "u16 \<Rightarrow> u8" where
  "hi8 x = ucast (drop_bit 8 x)"

lemma bswap16_bswap16 [simp]: "bswap16 (bswap16 x) = x"
  unfolding bswap16_def
  by (rule bit_word_eqI) (auto simp: bit_simps)

lemma bpf_ntohs_htons [simp]: "bpf_ntohs (bpf_htons x) = x"
  by (simp add: bpf_ntohs_def bpf_htons_def)

lemma bpf_htons_ntohs [simp]: "bpf_htons (bpf_ntohs x) = x"
  by (simp add: bpf_ntohs_def bpf_htons_def)

lemma bpf_htons_inj [simp]: "bpf_htons x = bpf_htons y \<longleftrightarrow> x = y"
  by (metis bpf_ntohs_htons)

lemma le16_lo8_hi8 [simp]: "le16 (lo8 x) (hi8 x) = x"
  unfolding le16_def lo8_def hi8_def
  by (rule bit_word_eqI) (auto simp: bit_simps)

lemma lo8_le16 [simp]: "lo8 (le16 a b) = a"
  unfolding le16_def lo8_def
  by (rule bit_word_eqI) (auto simp: bit_simps)

lemma hi8_le16 [simp]: "hi8 (le16 a b) = b"
  unfolding le16_def hi8_def
  by (rule bit_word_eqI) (auto simp: bit_simps dest: bit_imp_le_length)

lemma le16_inj [simp]: "le16 a b = le16 c d \<longleftrightarrow> a = c \<and> b = d"
  by (metis lo8_le16 hi8_le16)

lemma bswap16_le16 [simp]: "bswap16 (le16 a b) = le16 b a"
  unfolding le16_def bswap16_def
  by (rule bit_word_eqI) (auto simp: bit_simps not_less dest: bit_imp_le_length)

lemma bpf_htons_le16: "bpf_htons (le16 a b) = le16 b a"
  by (simp add: bpf_htons_def)

lemma bpf_ntohs_le16: "bpf_ntohs (le16 a b) = le16 b a"
  by (simp add: bpf_ntohs_def)

section \<open>Words and the option monad\<close>

lemma uint_nonneg_u16 [simp]: "uint (x :: u16) \<noteq> - 1"
  using uint_ge_0 [of x] by arith

lemma uint_nonneg_u8 [simp]: "uint (x :: u8) \<noteq> - 1"
  using uint_ge_0 [of x] by arith

lemma bind_Some_iff: "(Option.bind m f = Some y) = (\<exists>x. m = Some x \<and> f x = Some y)"
  by (cases m) auto

lemma unat_and_mask_4: "unat (x AND 15 :: u8) \<le> 15"
proof -
  have "x AND 15 \<le> 15" by (rule word_and_le1)
  then show ?thesis by (simp add: word_le_nat_alt)
qed

lemma unat_lt_256: "unat (x :: u8) < 256"
proof -
  have "unat x < 2 ^ LENGTH(8)" by (rule unsigned_less)
  then show ?thesis by simp
qed

lemma unat_lt_65536: "unat (x :: u16) < 65536"
proof -
  have "unat x < 2 ^ LENGTH(16)" by (rule unsigned_less)
  then show ?thesis by simp
qed

text \<open>A value in the range of a 32-bit \<^verbatim>\<open>int\<close> survives the conversion to it.\<close>

lemma sint_word_of_int_u32:
  "- (2 ^ 31) \<le> k \<Longrightarrow> k < 2 ^ 31 \<Longrightarrow> sint (word_of_int k :: u32) = k"
  by (simp add: sint_sbintrunc' signed_take_bit_int_eq_self)

lemma uint_lt_65536: "uint (x :: u16) < 65536"
proof -
  have "uint x < 2 ^ LENGTH(16)" by (rule unsigned_less)
  then show ?thesis by simp
qed

text \<open>
  A 16-bit length minus a \<^verbatim>\<open>sizeof\<close>, computed in the 64-bit \<^verbatim>\<open>size_t\<close> and converted to a
  32-bit \<^verbatim>\<open>int\<close>, is the mathematical difference.
\<close>

lemma sint_size_diff_u16: "sint (ucast (ucast (y :: u16) - 8 :: u64) :: u32) = uint y - 8"
proof -
  have "(ucast (ucast y - 8 :: u64) :: u32) = ucast (word_of_int (uint y - 8) :: u64)" by simp
  also have "\<dots> = word_of_int (uint y - 8)" by transfer simp
  finally have eq: "(ucast (ucast y - 8 :: u64) :: u32) = word_of_int (uint y - 8)" .
  show ?thesis
    unfolding eq using uint_ge_0 [of y] uint_lt_65536 [of y]
    by (intro sint_word_of_int_u32) simp_all
qed

lemma unat_word_of_int_u32: "0 \<le> k \<Longrightarrow> k < 2 ^ 32 \<Longrightarrow> unat (word_of_int k :: u32) = nat k"
proof -
  assume k: "0 \<le> k" "k < 2 ^ 32"
  have "unat (word_of_int k :: u32) = nat (uint (word_of_int k :: u32))" by simp
  also have "uint (word_of_int k :: u32) = k" using k by (simp add: uint_word_of_int)
  finally show ?thesis .
qed

lemma of_nat_unat_u32: "n < 2 ^ 32 \<Longrightarrow> unat (of_nat n :: u32) = n"
  by (simp add: unsigned_of_nat take_bit_nat_eq_self)

text \<open>The 12 low bits of a 16-bit word are all of it when the 4 high ones are clear.\<close>

lemma and_mask_split: "y AND 0x0fff = y \<longleftrightarrow> y AND 0xF000 = 0" for y :: u16
proof -
  have "(0x0fff OR 0xF000 :: u16) = - 1" by simp
  then have "y AND (0x0fff OR 0xF000) = y" by (simp only:) simp
  then have or: "y = (y AND 0x0fff) OR (y AND 0xF000)"
    by (simp only: bit.conj_disj_distrib)
  have "(0x0fff :: u16) AND 0xF000 = 0" by simp
  then have z: "(y AND 0x0fff) AND 0xF000 = 0" by (simp add: and.assoc)
  show ?thesis using or z by (metis or.right_neutral)
qed

lemma even_le16: "even (uint (le16 a b)) \<longleftrightarrow> even (256 * unat b + unat a)"
proof -
  have "odd (uint (le16 a b)) \<longleftrightarrow> bit (uint (le16 a b)) 0" by (simp only: bit_0)
  also have "\<dots> \<longleftrightarrow> bit a 0" by (simp only: bit_unsigned_iff) (simp add: le16_def bit_simps)
  also have "\<dots> \<longleftrightarrow> bit (unat a) 0" by (simp add: bit_unsigned_iff)
  also have "\<dots> \<longleftrightarrow> odd (unat a)" by (simp only: bit_0)
  finally show ?thesis by simp
qed

section \<open>Reading through a pointer\<close>

text \<open>
  The memory a pointer leads to is the list of what can be read through it; an access past the
  end is \<^term>\<open>None\<close>. 16-bit and 32-bit loads of a byte array are little-endian.
\<close>

definition rd :: "'a list \<Rightarrow> nat \<Rightarrow> 'a option" where
  "rd k i = (if i < length k then Some (k ! i) else None)"

definition rd32 :: "u8 list \<Rightarrow> nat \<Rightarrow> u32 option" where
  "rd32 k i = do {
     b0 \<leftarrow> rd k i; b1 \<leftarrow> rd k (i + 1); b2 \<leftarrow> rd k (i + 2); b3 \<leftarrow> rd k (i + 3);
     Some (le32 b0 b1 b2 b3)
   }"

definition rd16 :: "u8 list \<Rightarrow> nat \<Rightarrow> u16 option" where
  "rd16 k i = do { b0 \<leftarrow> rd k i; b1 \<leftarrow> rd k (i + 1); Some (le16 b0 b1) }"

lemma rd_Some [simp]: "i < length k \<Longrightarrow> rd k i = Some (k ! i)"
  by (simp add: rd_def)

lemma rd_None [simp]: "length k \<le> i \<Longrightarrow> rd k i = None"
  by (simp add: rd_def)

lemma rd_eq_Some_iff: "rd k i = Some x \<longleftrightarrow> i < length k \<and> k ! i = x"
  by (simp add: rd_def)

lemma rd16_Some: "i + 2 \<le> length k \<Longrightarrow> rd16 k i = Some (le16 (k ! i) (k ! (i + 1)))"
  by (simp add: rd16_def)

lemma rd16_None: "length k < i + 2 \<Longrightarrow> rd16 k i = None"
  by (cases "i < length k") (simp_all add: rd16_def)

lemma rd32_Some: "i + 4 \<le> length k \<Longrightarrow>
    rd32 k i = Some (le32 (k ! i) (k ! (i + 1)) (k ! (i + 2)) (k ! (i + 3)))"
  by (simp add: rd32_def)

lemma rd_append: "rd (xs @ ys) (length xs + i) = rd ys i"
  by (simp add: rd_def nth_append)

lemma rd16_append: "rd16 (xs @ ys) (length xs + i) = rd16 ys i"
  by (simp only: rd16_def rd_append add.assoc)

lemma rd32_append: "rd32 (xs @ ys) (length xs + i) = rd32 ys i"
  by (simp only: rd32_def rd_append add.assoc)

text \<open>The bytes of a word in memory order.\<close>

definition word_bytes :: "u32 \<Rightarrow> u8 list" where
  "word_bytes w = [ucast w, ucast (drop_bit 8 w), ucast (drop_bit 16 w), ucast (drop_bit 24 w)]"

lemma length_word_bytes [simp]: "length (word_bytes w) = 4"
  by (simp add: word_bytes_def)

lemma le32_word_bytes:
  "le32 (ucast w) (ucast (drop_bit 8 w)) (ucast (drop_bit 16 w)) (ucast (drop_bit 24 w)) = w"
proof (rule bit_word_eqI)
  fix n assume "n < LENGTH(32)"
  then consider "n < 8" | "8 \<le> n" "n < 16" | "16 \<le> n" "n < 24" | "24 \<le> n" "n < 32"
    by force
  then show "bit (le32 (ucast w) (ucast (drop_bit 8 w)) (ucast (drop_bit 16 w))
      (ucast (drop_bit 24 w))) n = bit w n"
    by cases (auto simp: le32_def bit_simps)
qed

lemma rd32_word_bytes_app: "rd32 (word_bytes x @ ys) 0 = Some x"
  by (simp add: rd32_def rd_def word_bytes_def le32_word_bytes)

definition bytes16 :: "u16 \<Rightarrow> u8 list" where
  "bytes16 w = [lo8 w, hi8 w]"

lemma length_bytes16 [simp]: "length (bytes16 w) = 2"
  by (simp add: bytes16_def)

text \<open>Storing bytes into an array.\<close>

definition wr :: "u8 list \<Rightarrow> nat \<Rightarrow> u8 list \<Rightarrow> u8 list option" where
  "wr b i xs = (if i + length xs \<le> length b then Some (take i b @ xs @ drop (i + length xs) b) else None)"

text \<open>The C string at an offset of a buffer, without its terminator.\<close>

definition str_at :: "u8 list \<Rightarrow> nat \<Rightarrow> u8 list" where
  "str_at data off = takeWhile (\<lambda>c. c \<noteq> 0) (drop off data)"

lemma length_wr: "wr b i xs = Some b' \<Longrightarrow> length b' = length b"
  by (auto simp: wr_def split: if_splits)

lemma wr_append: "length pre = i \<Longrightarrow> length ys = length xs \<Longrightarrow> wr (pre @ ys @ post) i xs = Some (pre @ xs @ post)"
  by (auto simp: wr_def)

lemma rd32_word_at: "length pre = i \<Longrightarrow> rd32 (pre @ word_bytes w @ post) i = Some w"
  using rd32_append [of pre "word_bytes w @ post" 0] rd32_word_bytes_app by simp

text \<open>\<^verbatim>\<open>bswap_32\<close>: the bytes of a word in the opposite order.\<close>

definition bswap32 :: "u32 \<Rightarrow> u32" where
  "bswap32 w = le32 (ucast (drop_bit 24 w)) (ucast (drop_bit 16 w)) (ucast (drop_bit 8 w)) (ucast w)"

lemma word_bytes_le32: "word_bytes (le32 a b c d) = [a, b, c, d]"
proof -
  have "(ucast (le32 a b c d) :: u8) = a" "(ucast (drop_bit 8 (le32 a b c d)) :: u8) = b"
    "(ucast (drop_bit 16 (le32 a b c d)) :: u8) = c" "(ucast (drop_bit 24 (le32 a b c d)) :: u8) = d"
    by (rule bit_word_eqI; auto simp: le32_def bit_simps dest: bit_imp_le_length)+
  then show ?thesis by (simp add: word_bytes_def)
qed

lemma bswap32_bswap32 [simp]: "bswap32 (bswap32 w) = w"
proof -
  have "word_bytes (bswap32 w) = rev (word_bytes w)" for w
    by (simp add: bswap32_def word_bytes_le32) (simp add: word_bytes_def)
  then have "word_bytes (bswap32 (bswap32 w)) = word_bytes w" by simp
  then have "rd32 (word_bytes (bswap32 (bswap32 w)) @ []) 0 = rd32 (word_bytes w @ []) 0" by simp
  then show ?thesis unfolding rd32_word_bytes_app by simp
qed

end
