(* ===== verification/Packet.thy ===== *)
theory Packet
  imports Prelude
begin

text \<open>
  The packet memory the XDP and TC programs work on. \<^verbatim>\<open>struct xdp_md\<close> (and the fields of
  \<^verbatim>\<open>struct __sk_buff\<close> the TC program uses) carries two 32-bit fields \<^verbatim>\<open>data\<close> and \<^verbatim>\<open>data_end\<close>;
  the programs cast them to pointers. A pointer is a \<^typ>\<open>nat\<close>: it starts as a 32-bit value and
  is only advanced by constants and by header lengths of at most 60 bytes, so the 64-bit
  pointer arithmetic of the target never wraps. Loads and stores are checked against
  \<open>[data, data_end)\<close>, which is what the in-kernel verifier enforces: outside they are
  \<^term>\<open>None\<close>.
\<close>

unbundle bit_operations_syntax

section \<open>Context and memory\<close>

record xdp_md =
  mem :: "nat \<Rightarrow> u8"
  data :: u32
  data_end :: u32

definition pdata :: "xdp_md \<Rightarrow> nat" where
  "pdata c = unat (data c)"

definition pend :: "xdp_md \<Rightarrow> nat" where
  "pend c = unat (data_end c)"

definition in_pkt :: "xdp_md \<Rightarrow> nat \<Rightarrow> bool" where
  "in_pkt c a \<longleftrightarrow> pdata c \<le> a \<and> a < pend c"

definition ld8 :: "xdp_md \<Rightarrow> nat \<Rightarrow> u8 option" where
  "ld8 c a = (if in_pkt c a then Some (mem c a) else None)"

definition ld16 :: "xdp_md \<Rightarrow> nat \<Rightarrow> u16 option" where
  "ld16 c a = do { b0 \<leftarrow> ld8 c a; b1 \<leftarrow> ld8 c (a + 1); Some (le16 b0 b1) }"

definition st8 :: "xdp_md \<Rightarrow> nat \<Rightarrow> u8 \<Rightarrow> xdp_md option" where
  "st8 c a v = (if in_pkt c a then Some (c\<lparr>mem := (mem c)(a := v)\<rparr>) else None)"

definition st16 :: "xdp_md \<Rightarrow> nat \<Rightarrow> u16 \<Rightarrow> xdp_md option" where
  "st16 c a v = do { c \<leftarrow> st8 c a (lo8 v); st8 c (a + 1) (hi8 v) }"

text \<open>\<^verbatim>\<open>__builtin_memcpy\<close> from the packet into a local, and from a local into the packet.\<close>

primrec ld_bytes :: "xdp_md \<Rightarrow> nat \<Rightarrow> nat \<Rightarrow> u8 list option" where
  "ld_bytes c a 0 = Some []"
| "ld_bytes c a (Suc n) = do { b \<leftarrow> ld8 c a; bs \<leftarrow> ld_bytes c (Suc a) n; Some (b # bs) }"

primrec st_bytes :: "xdp_md \<Rightarrow> nat \<Rightarrow> u8 list \<Rightarrow> xdp_md option" where
  "st_bytes c a [] = Some c"
| "st_bytes c a (b # bs) = do { c \<leftarrow> st8 c a b; st_bytes c (Suc a) bs }"

text \<open>The bytes of the packet, and the context of a frame placed at a base address.\<close>

definition pkt_bytes :: "xdp_md \<Rightarrow> u8 list" where
  "pkt_bytes c = map (mem c) [pdata c..<pend c]"

definition ctx_of :: "nat \<Rightarrow> u8 list \<Rightarrow> xdp_md" where
  "ctx_of base bs =
     \<lparr>mem = (\<lambda>a. if base \<le> a \<and> a < base + length bs then bs ! (a - base) else 0),
      data = of_nat base, data_end = of_nat (base + length bs)\<rparr>"

section \<open>Facts\<close>

lemma pdata_update [simp]: "pdata (c\<lparr>mem := m\<rparr>) = pdata c"
  by (simp add: pdata_def)

lemma pend_update [simp]: "pend (c\<lparr>mem := m\<rparr>) = pend c"
  by (simp add: pend_def)

lemma pdata_data_update: "pdata (c\<lparr>data := w\<rparr>) = unat w"
  by (simp add: pdata_def)

lemma pend_data_update: "pend (c\<lparr>data := w\<rparr>) = pend c"
  by (simp add: pend_def)

lemma ld8_in [simp]: "pdata c \<le> a \<Longrightarrow> a < pend c \<Longrightarrow> ld8 c a = Some (mem c a)"
  by (simp add: ld8_def in_pkt_def)

lemma ld8_out: "a < pdata c \<or> pend c \<le> a \<Longrightarrow> ld8 c a = None"
  by (auto simp: ld8_def in_pkt_def)

lemma ld16_in [simp]:
  "pdata c \<le> a \<Longrightarrow> a + 1 < pend c \<Longrightarrow> ld16 c a = Some (le16 (mem c a) (mem c (a + 1)))"
  by (simp add: ld16_def)

lemma st8_in [simp]:
  "pdata c \<le> a \<Longrightarrow> a < pend c \<Longrightarrow> st8 c a v = Some (c\<lparr>mem := (mem c)(a := v)\<rparr>)"
  by (simp add: st8_def in_pkt_def)

lemma st16_in [simp]:
  "pdata c \<le> a \<Longrightarrow> a + 1 < pend c \<Longrightarrow>
   st16 c a v = Some (c\<lparr>mem := (mem c)(a := lo8 v, a + 1 := hi8 v)\<rparr>)"
  by (simp add: st16_def)

lemma ld_bytes_in [simp]:
  "pdata c \<le> a \<Longrightarrow> a + n \<le> pend c \<Longrightarrow> ld_bytes c a n = Some (map (mem c) [a..<a + n])"
proof (induction n arbitrary: a)
  case (Suc n)
  then show ?case by (simp add: upt_conv_Cons del: upt_Suc)
qed simp

text \<open>What a run of bytes written from address \<open>a\<close> leaves in memory.\<close>

definition upd_bytes :: "(nat \<Rightarrow> u8) \<Rightarrow> nat \<Rightarrow> u8 list \<Rightarrow> nat \<Rightarrow> u8" where
  "upd_bytes m a bs x = (if a \<le> x \<and> x < a + length bs then bs ! (x - a) else m x)"

lemma upd_bytes_Nil [simp]: "upd_bytes m a [] = m"
  by (rule ext) (auto simp: upd_bytes_def)

lemma upd_bytes_Cons: "upd_bytes (m(a := b)) (Suc a) bs = upd_bytes m a (b # bs)"
  by (rule ext) (auto simp: upd_bytes_def nth_Cons')

lemma st_bytes_in [simp]:
  "pdata c \<le> a \<Longrightarrow> a + length bs \<le> pend c \<Longrightarrow>
   st_bytes c a bs = Some (c\<lparr>mem := upd_bytes (mem c) a bs\<rparr>)"
proof (induction bs arbitrary: a c)
  case (Cons b bs)
  then show ?case by (simp add: upd_bytes_Cons del: fun_upd_apply)
qed simp

lemma ctx_of_pdata: "base < 2 ^ 32 \<Longrightarrow> pdata (ctx_of base bs) = base"
  by (simp add: ctx_of_def pdata_def unat_of_nat)

lemma ctx_of_pend: "base + length bs < 2 ^ 32 \<Longrightarrow> pend (ctx_of base bs) = base + length bs"
  by (simp add: ctx_of_def pend_def unat_of_nat del: of_nat_add)

lemma ctx_of_mem: "i < length bs \<Longrightarrow> mem (ctx_of base bs) (base + i) = bs ! i"
  by (simp add: ctx_of_def)

lemmas ctx_of_simps = ctx_of_pdata ctx_of_pend ctx_of_mem

lemma pkt_bytes_ctx_of:
  assumes "base + length bs < 2 ^ 32"
  shows "pkt_bytes (ctx_of base bs) = bs"
  using assms
  by (auto simp: pkt_bytes_def ctx_of_pdata ctx_of_pend ctx_of_mem intro!: nth_equalityI)

lemma pend_less: "pend c < 2 ^ 32"
proof -
  have "unat (data_end c) < 2 ^ LENGTH(32)" by (rule unsigned_less)
  then show ?thesis by (simp add: pend_def)
qed

end
