(* ===== verification/Parsing.thy ===== *)
theory Parsing
  imports Packet
begin

text \<open>
  The header parsers of \<^verbatim>\<open>common/parsing_helpers.h\<close>. Each takes the packet, the cursor
  position \<^verbatim>\<open>nh->pos\<close> and \<^verbatim>\<open>data_end\<close>, and yields the C return value, the cursor position
  left behind and the pointer written through the \<^verbatim>\<open>struct ...hdr **\<close> argument, if any. The
  contract they share is the locale \<open>header_parser\<close>; each parser interprets it.
\<close>

unbundle bit_operations_syntax

section \<open>Constants and struct layouts\<close>

definition ETH_P_IP :: u16 where [c_consts]: "ETH_P_IP = 0x0800"
definition ETH_P_IPV6 :: u16 where [c_consts]: "ETH_P_IPV6 = 0x86DD"
definition ETH_P_8021Q :: u16 where [c_consts]: "ETH_P_8021Q = 0x8100"
definition ETH_P_8021AD :: u16 where [c_consts]: "ETH_P_8021AD = 0x88A8"
definition VLAN_MAX_DEPTH :: nat where "VLAN_MAX_DEPTH = 2"
definition VLAN_VID_MASK :: u16 where [c_consts]: "VLAN_VID_MASK = 0x0fff"

text \<open>\<^verbatim>\<open>sizeof\<close> of the header structs.\<close>

abbreviation (input) sz_ethhdr :: nat where "sz_ethhdr \<equiv> 14"
abbreviation (input) sz_vlan_hdr :: nat where "sz_vlan_hdr \<equiv> 4"
abbreviation (input) sz_ipv6hdr :: nat where "sz_ipv6hdr \<equiv> 40"
abbreviation (input) sz_iphdr :: nat where "sz_iphdr \<equiv> 20"
abbreviation (input) sz_icmp6hdr :: nat where "sz_icmp6hdr \<equiv> 8"
abbreviation (input) sz_icmphdr :: nat where "sz_icmphdr \<equiv> 8"
abbreviation (input) sz_icmphdr_common :: nat where "sz_icmphdr_common \<equiv> 4"
abbreviation (input) sz_udphdr :: nat where "sz_udphdr \<equiv> 8"
abbreviation (input) sz_tcphdr :: nat where "sz_tcphdr \<equiv> 20"

text \<open>Field reads, at the offsets of the structs (little-endian bit-field layout).\<close>

definition eth_h_proto :: "xdp_md \<Rightarrow> nat \<Rightarrow> u16 option" where
  "eth_h_proto c eth = ld16 c (eth + 12)"

definition vlan_TCI :: "xdp_md \<Rightarrow> nat \<Rightarrow> u16 option" where
  "vlan_TCI c vlh = ld16 c vlh"

definition vlan_encapsulated_proto :: "xdp_md \<Rightarrow> nat \<Rightarrow> u16 option" where
  "vlan_encapsulated_proto c vlh = ld16 c (vlh + 2)"

definition ip_ihl :: "xdp_md \<Rightarrow> nat \<Rightarrow> nat option" where
  "ip_ihl c iph = do { b \<leftarrow> ld8 c iph; Some (unat (b AND 15)) }"

definition ip_protocol :: "xdp_md \<Rightarrow> nat \<Rightarrow> u8 option" where
  "ip_protocol c iph = ld8 c (iph + 9)"

definition tcp_doff :: "xdp_md \<Rightarrow> nat \<Rightarrow> nat option" where
  "tcp_doff c h = do { b \<leftarrow> ld8 c (h + 12); Some (unat (drop_bit 4 b)) }"

section \<open>The parsers\<close>

record parsed =
  pr_ret :: int
  pr_pos :: nat
  pr_hdr :: "nat option"

abbreviation parse_fail :: "nat \<Rightarrow> parsed" where
  "parse_fail p \<equiv> \<lparr>pr_ret = - 1, pr_pos = p, pr_hdr = None\<rparr>"

definition proto_is_vlan :: "u16 \<Rightarrow> bool" where
  "proto_is_vlan h_proto \<longleftrightarrow>
     h_proto = bpf_htons ETH_P_8021Q \<or> h_proto = bpf_htons ETH_P_8021AD"

text \<open>
  The unrolled VLAN loop: \<open>n\<close> iterations are left, \<open>i\<close> is the loop counter. The collected
  identifiers are \<^term>\<open>None\<close> for a NULL \<^verbatim>\<open>vlans\<close> argument, else the array \<^verbatim>\<open>vlans->id\<close>.
\<close>

fun vlan_loop ::
  "xdp_md \<Rightarrow> nat \<Rightarrow> nat \<Rightarrow> nat \<Rightarrow> nat \<Rightarrow> u16 \<Rightarrow> u16 list option \<Rightarrow>
   (u16 \<times> nat \<times> u16 list option) option" where
  "vlan_loop c de 0 i vlh h_proto vlans = Some (h_proto, vlh, vlans)"
| "vlan_loop c de (Suc n) i vlh h_proto vlans =
     (if \<not> proto_is_vlan h_proto then Some (h_proto, vlh, vlans)
      else if vlh + sz_vlan_hdr > de then Some (h_proto, vlh, vlans)
      else do {
        h_proto \<leftarrow> vlan_encapsulated_proto c vlh;
        vlans \<leftarrow> (case vlans of
            None \<Rightarrow> Some None
          | Some ids \<Rightarrow> do {
              tci \<leftarrow> vlan_TCI c vlh;
              if i < length ids then Some (Some (ids[i := bpf_ntohs tci AND VLAN_VID_MASK]))
              else None });
        vlan_loop c de n (Suc i) (vlh + sz_vlan_hdr) h_proto vlans
      })"

definition parse_ethhdr_vlan ::
  "xdp_md \<Rightarrow> nat \<Rightarrow> nat \<Rightarrow> u16 list option \<Rightarrow> (parsed \<times> u16 list option) option" where
  "parse_ethhdr_vlan c p de vlans =
     (if p + sz_ethhdr > de then Some (parse_fail p, vlans)
      else do {
        h_proto \<leftarrow> eth_h_proto c p;
        (h_proto, vlh, vlans) \<leftarrow>
          vlan_loop c de VLAN_MAX_DEPTH 0 (p + sz_ethhdr) h_proto vlans;
        Some (\<lparr>pr_ret = uint h_proto, pr_pos = vlh, pr_hdr = Some p\<rparr>, vlans)
      })"

definition parse_ethhdr :: "xdp_md \<Rightarrow> nat \<Rightarrow> nat \<Rightarrow> parsed option" where
  "parse_ethhdr c p de = map_option fst (parse_ethhdr_vlan c p de None)"

definition parse_ip6hdr :: "xdp_md \<Rightarrow> nat \<Rightarrow> nat \<Rightarrow> parsed option" where
  "parse_ip6hdr c p de =
     (if p + sz_ipv6hdr > de then Some (parse_fail p)
      else do {
        nexthdr \<leftarrow> ld8 c (p + 6);
        Some \<lparr>pr_ret = uint nexthdr, pr_pos = p + sz_ipv6hdr, pr_hdr = Some p\<rparr>
      })"

definition parse_iphdr :: "xdp_md \<Rightarrow> nat \<Rightarrow> nat \<Rightarrow> parsed option" where
  "parse_iphdr c p de =
     (if p + sz_iphdr > de then Some (parse_fail p)
      else do {
        ihl \<leftarrow> ip_ihl c p;
        let hdrsize = ihl * 4;
        if hdrsize < sz_iphdr then Some (parse_fail p)
        else if p + hdrsize > de then Some (parse_fail p)
        else do {
          proto \<leftarrow> ip_protocol c p;
          Some \<lparr>pr_ret = uint proto, pr_pos = p + hdrsize, pr_hdr = Some p\<rparr>
        }
      })"

definition parse_icmp6hdr :: "xdp_md \<Rightarrow> nat \<Rightarrow> nat \<Rightarrow> parsed option" where
  "parse_icmp6hdr c p de =
     (if p + sz_icmp6hdr > de then Some (parse_fail p)
      else do {
        icmp6_type \<leftarrow> ld8 c p;
        Some \<lparr>pr_ret = uint icmp6_type, pr_pos = p + sz_icmp6hdr, pr_hdr = Some p\<rparr>
      })"

definition parse_icmphdr :: "xdp_md \<Rightarrow> nat \<Rightarrow> nat \<Rightarrow> parsed option" where
  "parse_icmphdr c p de =
     (if p + sz_icmphdr > de then Some (parse_fail p)
      else do {
        type \<leftarrow> ld8 c p;
        Some \<lparr>pr_ret = uint type, pr_pos = p + sz_icmphdr, pr_hdr = Some p\<rparr>
      })"

definition parse_icmphdr_common :: "xdp_md \<Rightarrow> nat \<Rightarrow> nat \<Rightarrow> parsed option" where
  "parse_icmphdr_common c p de =
     (if p + sz_icmphdr_common > de then Some (parse_fail p)
      else do {
        type \<leftarrow> ld8 c p;
        Some \<lparr>pr_ret = uint type, pr_pos = p + sz_icmphdr_common, pr_hdr = Some p\<rparr>
      })"

text \<open>
  \<^verbatim>\<open>len = bpf_ntohs(h->len) - sizeof(struct udphdr)\<close> is computed in the unsigned 64-bit
  \<^verbatim>\<open>size_t\<close> and converted to \<^verbatim>\<open>int\<close>.
\<close>

definition udp_payload_len :: "u16 \<Rightarrow> int" where
  "udp_payload_len l = sint (ucast (ucast (bpf_ntohs l) - 8 :: u64) :: u32)"

definition parse_udphdr :: "xdp_md \<Rightarrow> nat \<Rightarrow> nat \<Rightarrow> parsed option" where
  "parse_udphdr c p de =
     (if p + sz_udphdr > de then Some (parse_fail p)
      else do {
        l \<leftarrow> ld16 c (p + 4);
        let len = udp_payload_len l;
        if len < 0
        then Some \<lparr>pr_ret = - 1, pr_pos = p + sz_udphdr, pr_hdr = Some p\<rparr>
        else Some \<lparr>pr_ret = len, pr_pos = p + sz_udphdr, pr_hdr = Some p\<rparr>
      })"

definition parse_tcphdr :: "xdp_md \<Rightarrow> nat \<Rightarrow> nat \<Rightarrow> parsed option" where
  "parse_tcphdr c p de =
     (if p + sz_tcphdr > de then Some (parse_fail p)
      else do {
        doff \<leftarrow> tcp_doff c p;
        let len = doff * 4;
        if len < sz_tcphdr then Some (parse_fail p)
        else if p + len > de then Some (parse_fail p)
        else Some \<lparr>pr_ret = int len, pr_pos = p + len, pr_hdr = Some p\<rparr>
      })"

section \<open>The contract of a parser\<close>

text \<open>
  A parser started at or after \<^verbatim>\<open>data\<close> never reads outside the packet; when it accepts, the
  header lies in the packet and the cursor moves past its fixed part without leaving the
  packet; when it rejects it returns \<open>- 1\<close> and the cursor never moves back, nor out of the
  packet.
\<close>

locale header_parser =
  fixes parse :: "xdp_md \<Rightarrow> nat \<Rightarrow> nat \<Rightarrow> parsed option"
    and hlen :: nat
  assumes total: "pdata c \<le> p \<Longrightarrow> \<exists>r. parse c p (pend c) = Some r"
    and accepts: "pdata c \<le> p \<Longrightarrow> parse c p (pend c) = Some r \<Longrightarrow> pr_ret r \<noteq> - 1 \<Longrightarrow>
      0 \<le> pr_ret r \<and> pr_hdr r = Some p \<and> p + hlen \<le> pr_pos r \<and> pr_pos r \<le> pend c"
    and rejects: "pdata c \<le> p \<Longrightarrow> parse c p (pend c) = Some r \<Longrightarrow> pr_ret r = - 1 \<Longrightarrow>
      p \<le> pr_pos r \<and> (pr_pos r = p \<or> pr_pos r \<le> pend c)"
begin

lemma advances:
  assumes "pdata c \<le> p" and "parse c p (pend c) = Some r"
  shows "p \<le> pr_pos r \<and> pdata c \<le> pr_pos r \<and> (pr_pos r = p \<or> pr_pos r \<le> pend c)"
  using assms accepts [of c p r] rejects [of c p r] by (cases "pr_ret r = - 1") auto

lemma header_readable:
  assumes "pdata c \<le> p" and "parse c p (pend c) = Some r" and "pr_ret r \<noteq> - 1" and "i < hlen"
  shows "ld8 c (p + i) = Some (mem c (p + i))"
  using assms accepts [of c p r] by auto

lemma truncated:
  assumes "pdata c \<le> p" and "pend c < p + hlen" and "parse c p (pend c) = Some r"
  shows "pr_ret r = - 1"
  using assms accepts [of c p r] by force

end

text \<open>Two parsers run one after the other, the second whether or not the first accepted.\<close>

locale header_chain = outer: header_parser parse1 hlen1 + inner: header_parser parse2 hlen2
  for parse1 parse2 :: "xdp_md \<Rightarrow> nat \<Rightarrow> nat \<Rightarrow> parsed option" and hlen1 hlen2 :: nat
begin

lemma chain_total:
  assumes "pdata c \<le> p"
  shows "\<exists>r1 r2. parse1 c p (pend c) = Some r1 \<and> parse2 c (pr_pos r1) (pend c) = Some r2 \<and>
           pdata c \<le> pr_pos r1 \<and> pdata c \<le> pr_pos r2"
proof -
  obtain r1 where r1: "parse1 c p (pend c) = Some r1"
    using outer.total [OF assms] by blast
  have p1: "pdata c \<le> pr_pos r1" using outer.advances [OF assms r1] by simp
  obtain r2 where r2: "parse2 c (pr_pos r1) (pend c) = Some r2"
    using inner.total [OF p1] by blast
  show ?thesis using r1 p1 r2 inner.advances [OF p1 r2] by auto
qed

end

section \<open>Facts about the parsers\<close>

lemma vlan_loop_total:
  assumes "pdata c \<le> vlh" and "\<And>ids. vlans = Some ids \<Longrightarrow> i + n \<le> length ids"
  shows "\<exists>h' q v'. vlan_loop c (pend c) n i vlh h vlans = Some (h', q, v') \<and> vlh \<le> q \<and>
           (q = vlh \<or> q \<le> pend c)"
  using assms
proof (induction n arbitrary: i vlh h vlans)
  case (Suc n)
  show ?case
  proof (cases "proto_is_vlan h \<and> vlh + sz_vlan_hdr \<le> pend c")
    case True
    then have enc: "vlan_encapsulated_proto c vlh = Some (le16 (mem c (vlh + 2)) (mem c (vlh + 3)))"
      and tci: "vlan_TCI c vlh = Some (le16 (mem c vlh) (mem c (vlh + 1)))"
      using Suc.prems(1)
      by (simp_all add: vlan_encapsulated_proto_def vlan_TCI_def numeral_3_eq_3)
    define v2 where "v2 = map_option (\<lambda>ids. ids[i := bpf_ntohs (le16 (mem c vlh) (mem c (vlh + 1)))
      AND VLAN_VID_MASK]) vlans"
    have len: "\<And>ids. v2 = Some ids \<Longrightarrow> Suc i + n \<le> length ids"
      using Suc.prems(2) by (auto simp: v2_def)
    have "\<exists>h' q v'. vlan_loop c (pend c) n (Suc i) (vlh + sz_vlan_hdr)
        (le16 (mem c (vlh + 2)) (mem c (vlh + 3))) v2 = Some (h', q, v') \<and>
        vlh + sz_vlan_hdr \<le> q \<and> (q = vlh + sz_vlan_hdr \<or> q \<le> pend c)"
      by (rule Suc.IH) (use Suc.prems(1) len in auto)
    then show ?thesis
      using True enc tci Suc.prems(2) by (cases vlans) (auto simp: v2_def)
  qed auto
qed simp

lemma parse_ethhdr_total:
  assumes "pdata c \<le> p"
  shows "\<exists>r. parse_ethhdr c p (pend c) = Some r \<and>
    (if p + sz_ethhdr \<le> pend c
     then 0 \<le> pr_ret r \<and> pr_hdr r = Some p \<and> p + sz_ethhdr \<le> pr_pos r \<and> pr_pos r \<le> pend c
     else r = parse_fail p)"
proof (cases "p + sz_ethhdr \<le> pend c")
  case True
  then have "eth_h_proto c p = Some (le16 (mem c (p + 12)) (mem c (p + 12 + 1)))"
    using assms by (simp add: eth_h_proto_def)
  moreover obtain h' q v' where
    "vlan_loop c (pend c) VLAN_MAX_DEPTH 0 (p + sz_ethhdr)
       (le16 (mem c (p + 12)) (mem c (p + 12 + 1))) None = Some (h', q, v')"
    "p + sz_ethhdr \<le> q" "q = p + sz_ethhdr \<or> q \<le> pend c"
    using vlan_loop_total [of c "p + sz_ethhdr" None 0 VLAN_MAX_DEPTH] assms
    by (metis option.distinct(1) trans_le_add1)
  ultimately show ?thesis
    using True by (auto simp: parse_ethhdr_def parse_ethhdr_vlan_def)
qed (simp add: parse_ethhdr_def parse_ethhdr_vlan_def)

lemma udp_payload_len_eq: "udp_payload_len l = uint (bpf_ntohs l) - 8"
  by (simp only: udp_payload_len_def sint_size_diff_u16)

interpretation eth: header_parser parse_ethhdr sz_ethhdr
proof (unfold_locales, goal_cases)
  case (1 c p)
  then show ?case using parse_ethhdr_total by blast
next
  case (2 c p r)
  then show ?case using parse_ethhdr_total [of c p] by (auto split: if_splits)
next
  case (3 c p r)
  then show ?case using parse_ethhdr_total [of c p] by (auto split: if_splits)
qed

interpretation ip6: header_parser parse_ip6hdr sz_ipv6hdr
  by unfold_locales (auto simp: parse_ip6hdr_def split: if_splits)

interpretation ip: header_parser parse_iphdr sz_iphdr
  by unfold_locales
    (auto simp: parse_iphdr_def ip_ihl_def ip_protocol_def Let_def split: if_splits)

interpretation icmp6: header_parser parse_icmp6hdr sz_icmp6hdr
  by unfold_locales (auto simp: parse_icmp6hdr_def split: if_splits)

interpretation icmp: header_parser parse_icmphdr sz_icmphdr
  by unfold_locales (auto simp: parse_icmphdr_def split: if_splits)

interpretation icmp_common: header_parser parse_icmphdr_common sz_icmphdr_common
  by unfold_locales (auto simp: parse_icmphdr_common_def split: if_splits)

interpretation udp: header_parser parse_udphdr sz_udphdr
  by unfold_locales (auto simp: parse_udphdr_def Let_def split: if_splits)

interpretation tcp: header_parser parse_tcphdr sz_tcphdr
  by unfold_locales
    (auto simp: parse_tcphdr_def tcp_doff_def Let_def split: if_splits)

interpretation eth_ip: header_chain parse_ethhdr parse_iphdr sz_ethhdr sz_iphdr
  by unfold_locales

section \<open>Specification: VLAN frames on the wire\<close>

text \<open>
  The wire format the VLAN parser is to invert: addresses, a stack of tags (tag protocol
  identifier and tag control information, both big-endian), the EtherType, the payload.
\<close>

definition be16 :: "u16 \<Rightarrow> u8 list" where
  "be16 x = [hi8 x, lo8 x]"

primrec eth_tail :: "(u16 \<times> u16) list \<Rightarrow> u16 \<Rightarrow> u8 list" where
  "eth_tail [] proto = be16 proto"
| "eth_tail (t # ts) proto = be16 (fst t) @ be16 (snd t) @ eth_tail ts proto"

definition eth_frame :: "u8 list \<Rightarrow> u8 list \<Rightarrow> (u16 \<times> u16) list \<Rightarrow> u16 \<Rightarrow> u8 list \<Rightarrow> u8 list" where
  "eth_frame dst src tags proto payload = dst @ src @ eth_tail tags proto @ payload"

definition tag_vid :: "u16 \<times> u16 \<Rightarrow> u16" where
  "tag_vid t = snd t AND VLAN_VID_MASK"

definition vlan_tpid :: "u16 \<Rightarrow> bool" where
  "vlan_tpid t \<longleftrightarrow> t = ETH_P_8021Q \<or> t = ETH_P_8021AD"

definition bytes_at :: "xdp_md \<Rightarrow> nat \<Rightarrow> u8 list \<Rightarrow> bool" where
  "bytes_at c a bs \<longleftrightarrow>
     pdata c \<le> a \<and> a + length bs \<le> pend c \<and> (\<forall>k < length bs. mem c (a + k) = bs ! k)"

lemma bytes_at_Nil [simp]: "bytes_at c a [] \<longleftrightarrow> pdata c \<le> a \<and> a \<le> pend c"
  by (simp add: bytes_at_def)

lemma bytes_at_Cons [simp]:
  "bytes_at c a (b # bs) \<longleftrightarrow>
     pdata c \<le> a \<and> a < pend c \<and> mem c a = b \<and> bytes_at c (Suc a) bs"
  by (auto simp: bytes_at_def All_less_Suc2)

lemma bytes_at_append [simp]:
  "bytes_at c a (xs @ ys) \<longleftrightarrow> bytes_at c a xs \<and> bytes_at c (a + length xs) ys"
proof (induction xs arbitrary: a)
  case Nil
  then show ?case by (auto simp: bytes_at_def)
next
  case (Cons x xs)
  then show ?case by simp
qed

lemma bytes_at_bounds: "bytes_at c a bs \<Longrightarrow> pdata c \<le> a \<and> a + length bs \<le> pend c"
  by (simp add: bytes_at_def)

lemma length_be16 [simp]: "length (be16 x) = 2"
  by (simp add: be16_def)

lemma length_eth_tail [simp]: "length (eth_tail ts proto) = 2 + 4 * length ts"
  by (induction ts) auto

lemma ld16_be16: "bytes_at c a (be16 x) \<Longrightarrow> ld16 c a = Some (bpf_htons x)"
  by (auto simp: be16_def bpf_htons_def ld16_def ld8_def in_pkt_def
      simp flip: bswap16_le16 [of "lo8 x" "hi8 x"])

lemma ctx_of_bytes_at:
  assumes "base + length bs < 2 ^ 32"
  shows "bytes_at (ctx_of base bs) base bs"
  using assms by (simp add: bytes_at_def ctx_of_simps)

lemma proto_is_vlan_htons: "proto_is_vlan (bpf_htons t) \<longleftrightarrow> vlan_tpid t"
  by (simp add: proto_is_vlan_def vlan_tpid_def)

lemma vlan_loop_frame:
  assumes "bytes_at c a (eth_tail tags proto)"
    and "ld16 c a = Some h"
    and "length tags \<le> n" and "length tags < n \<Longrightarrow> \<not> vlan_tpid proto"
    and "\<forall>t \<in> set tags. vlan_tpid (fst t)"
    and "\<And>ids. vlans = Some ids \<Longrightarrow> i + length tags \<le> length ids"
  shows "vlan_loop c (pend c) n i (a + 2) h vlans =
    Some (bpf_htons proto, a + 2 + 4 * length tags,
      map_option (\<lambda>ids. take i ids @ map tag_vid tags @ drop (i + length tags) ids) vlans)"
  using assms
proof (induction tags arbitrary: a n i h vlans)
  case Nil
  then have "h = bpf_htons proto" by (simp add: ld16_be16)
  with Nil show ?case by (cases n) (auto simp: proto_is_vlan_htons option.map_ident)
next
  case (Cons t ts)
  then obtain m where n: "n = Suc m" by (cases n) auto
  from Cons.prems(1) have at: "bytes_at c a (be16 (fst t))" "bytes_at c (a + 2) (be16 (snd t))"
    "bytes_at c (a + 4) (eth_tail ts proto)"
    by (simp_all add: numeral_eq_Suc)
  have h: "h = bpf_htons (fst t)" using Cons.prems(2) ld16_be16 [OF at(1)] by simp
  have fits: "a + 6 \<le> pend c" using at(3) by (simp add: bytes_at_def)
  then have "ld16 c (a + 4) = Some (le16 (mem c (a + 4)) (mem c (a + 4 + 1)))"
    using at(1) by (simp add: bytes_at_def)
  then obtain h' where h': "ld16 c (a + 4) = Some h'" by blast
  let ?v = "map_option (\<lambda>ids. ids[i := tag_vid t]) vlans"
  have IH: "vlan_loop c (pend c) m (Suc i) (a + 4 + 2) h' ?v =
    Some (bpf_htons proto, a + 4 + 2 + 4 * length ts,
      map_option (\<lambda>ids. take (Suc i) ids @ map tag_vid ts @ drop (Suc i + length ts) ids) ?v)"
    by (rule Cons.IH [OF at(3) h']) (use Cons.prems n in auto)
  have step: "vlan_encapsulated_proto c (a + 2) = Some h'" "vlan_TCI c (a + 2) = Some (bpf_htons (snd t))"
    using h' ld16_be16 [OF at(2)]
    by (simp_all add: vlan_encapsulated_proto_def vlan_TCI_def eval_nat_numeral)
  have "proto_is_vlan h" using Cons.prems(5) h by (simp add: proto_is_vlan_htons)
  then show ?case
    using IH n fits step Cons.prems(6)
    by (cases vlans) (simp_all add: tag_vid_def take_Suc_conv_app_nth algebra_simps)
qed

text \<open>The Ethernet header of a frame on the wire.\<close>

definition wire_frame :: "u8 list \<Rightarrow> u8 list \<Rightarrow> (u16 \<times> u16) list \<Rightarrow> u16 \<Rightarrow> bool" where
  "wire_frame dst src tags proto \<longleftrightarrow>
     length dst = 6 \<and> length src = 6 \<and> (\<forall>t \<in> set tags. vlan_tpid (fst t)) \<and>
     length tags \<le> VLAN_MAX_DEPTH \<and> (length tags < VLAN_MAX_DEPTH \<longrightarrow> \<not> vlan_tpid proto)"

lemma parse_ethhdr_vlan_wire:
  assumes "wire_frame dst src tags proto"
    and at: "bytes_at c base (eth_frame dst src tags proto payload)"
    and "\<And>ids. vlans = Some ids \<Longrightarrow> length ids = VLAN_MAX_DEPTH"
  shows "parse_ethhdr_vlan c base (pend c) vlans =
    Some (\<lparr>pr_ret = uint (bpf_htons proto), pr_pos = base + sz_ethhdr + 4 * length tags,
           pr_hdr = Some base\<rparr>,
          map_option (\<lambda>ids. map tag_vid tags @ drop (length tags) ids) vlans)"
proof -
  have tail: "bytes_at c (base + 12) (eth_tail tags proto)" and de: "base + 14 \<le> pend c"
    using at assms(1) by (auto simp: wire_frame_def eth_frame_def add.assoc dest: bytes_at_bounds)
  then obtain h where h: "eth_h_proto c base = Some h"
    by (simp add: eth_h_proto_def bytes_at_def)
  have "vlan_loop c (pend c) VLAN_MAX_DEPTH 0 (base + 12 + 2) h vlans =
    Some (bpf_htons proto, base + 12 + 2 + 4 * length tags,
      map_option (\<lambda>ids. take 0 ids @ map tag_vid tags @ drop (0 + length tags) ids) vlans)"
    by (rule vlan_loop_frame [OF tail])
      (use h assms in \<open>auto simp: eth_h_proto_def wire_frame_def\<close>)
  then have "vlan_loop c (pend c) VLAN_MAX_DEPTH 0 (base + sz_ethhdr) h vlans =
    Some (bpf_htons proto, base + sz_ethhdr + 4 * length tags,
          map_option (\<lambda>ids. map tag_vid tags @ drop (length tags) ids) vlans)"
    by (simp only: add.assoc [of base] numeral_plus_numeral add_num_simps take_0 append_Nil
        add_0_left)
  then show ?thesis
    using de h by (simp add: parse_ethhdr_vlan_def)
qed

section \<open>Properties\<close>

text \<open>
  C1: every parser of \<^verbatim>\<open>parsing_helpers.h\<close>, started at any cursor position at or after
  \<^verbatim>\<open>data\<close>, runs without an access outside the packet; if it accepts, the header it found
  starts at the cursor and lies in the packet, and the new cursor is behind the header's
  fixed part and still in the packet; if it returns \<open>- 1\<close>, the cursor has not moved
  backwards nor out of the packet.
\<close>

theorem parsers_memory_safe:
  assumes "(parse, n) \<in> set [(parse_ethhdr, sz_ethhdr), (parse_ip6hdr, sz_ipv6hdr),
      (parse_iphdr, sz_iphdr), (parse_icmp6hdr, sz_icmp6hdr), (parse_icmphdr, sz_icmphdr),
      (parse_icmphdr_common, sz_icmphdr_common), (parse_udphdr, sz_udphdr),
      (parse_tcphdr, sz_tcphdr)]"
    and "pdata c \<le> p"
  shows "\<exists>r. parse c p (pend c) = Some r \<and>
     (if pr_ret r = - 1 then p \<le> pr_pos r \<and> (pr_pos r = p \<or> pr_pos r \<le> pend c)
      else 0 \<le> pr_ret r \<and> pr_hdr r = Some p \<and> p + n \<le> pr_pos r \<and> pr_pos r \<le> pend c)"
proof -
  have "header_parser parse n"
    using assms(1) eth.header_parser_axioms ip6.header_parser_axioms ip.header_parser_axioms
      icmp6.header_parser_axioms icmp.header_parser_axioms icmp_common.header_parser_axioms
      udp.header_parser_axioms tcp.header_parser_axioms by auto
  then show ?thesis
    using assms(2) by (metis header_parser.total header_parser.accepts header_parser.rejects)
qed

theorem parsers_memory_safe_witness:
  "\<exists>r. parse_tcphdr (ctx_of 0 (replicate 20 0x50)) 0 (pend (ctx_of 0 (replicate 20 0x50))) = Some r \<and>
     (if pr_ret r = - 1 then 0 \<le> pr_pos r \<and>
        (pr_pos r = 0 \<or> pr_pos r \<le> pend (ctx_of 0 (replicate 20 0x50)))
      else 0 \<le> pr_ret r \<and> pr_hdr r = Some 0 \<and> 0 + 20 \<le> pr_pos r \<and>
        pr_pos r \<le> pend (ctx_of 0 (replicate 20 0x50)))"
  by (rule parsers_memory_safe) (simp_all add: ctx_of_simps)

text \<open>
  C2: parsing inverts the wire format: on a frame with up to \<^verbatim>\<open>VLAN_MAX_DEPTH\<close> VLAN tags (an
  EtherType that is not itself a VLAN tag, unless the maximal depth is reached),
  \<^verbatim>\<open>parse_ethhdr_vlan\<close> returns the encapsulated EtherType in network byte order, leaves the
  cursor behind the last tag, and collects exactly the 12-bit identifiers of the tags, in
  order, leaving the rest of the array as it was. (The comment at the head of
  \<^verbatim>\<open>parsing_helpers.h\<close> promises return values in host byte order; the EtherType is not
  converted, as the comment at the return says.)
\<close>

theorem parse_ethhdr_vlan_frame:
  assumes "wire_frame dst src tags proto" and "length ids = VLAN_MAX_DEPTH"
    and "base + length (eth_frame dst src tags proto payload) < 2 ^ 32"
    and c: "c = ctx_of base (eth_frame dst src tags proto payload)"
  shows "parse_ethhdr_vlan c base (pend c) (Some ids) =
    Some (\<lparr>pr_ret = uint (bpf_htons proto), pr_pos = base + sz_ethhdr + 4 * length tags,
           pr_hdr = Some base\<rparr>,
          Some (map tag_vid tags @ drop (length tags) ids))"
  using parse_ethhdr_vlan_wire [OF assms(1), of c base payload "Some ids"]
    ctx_of_bytes_at [OF assms(3)] assms(2) c by simp

theorem parse_ethhdr_vlan_frame_witness:
  "parse_ethhdr_vlan (ctx_of 64 (eth_frame (replicate 6 1) (replicate 6 2)
       [(0x88A8, 0x6064), (0x8100, 5)] ETH_P_IP [0x45])) 64
     (pend (ctx_of 64 (eth_frame (replicate 6 1) (replicate 6 2)
       [(0x88A8, 0x6064), (0x8100, 5)] ETH_P_IP [0x45]))) (Some [0, 0]) =
   Some (\<lparr>pr_ret = 8, pr_pos = 86, pr_hdr = Some 64\<rparr>, Some [0x64, 5])"
  using parse_ethhdr_vlan_frame [of "replicate 6 1" "replicate 6 2" "[(0x88A8, 0x6064), (0x8100, 5)]"
      ETH_P_IP "[0, 0]" 64 "[0x45]", OF _ _ _ refl]
  by (simp add: wire_frame_def vlan_tpid_def VLAN_MAX_DEPTH_def eth_frame_def tag_vid_def c_consts
      bpf_htons_def bswap16_def)

end
