(* ===== verification/XdpPrograms.thy ===== *)
theory XdpPrograms
  imports Parsing
begin

text \<open>
  The kernel-side programs of the tutorial: \<^verbatim>\<open>01-xdp-pass\<close>, \<^verbatim>\<open>02-xdp-prog-by-name\<close>,
  \<^verbatim>\<open>03-packet-parsing\<close> with the statistics of \<^verbatim>\<open>common/xdp_stats_kern.h\<close>,
  \<^verbatim>\<open>04-packet-counting\<close>, \<^verbatim>\<open>05-tc-hook\<close> (kernel side) and \<^verbatim>\<open>06-packet-filter\<close>.

  A BPF array map is a finite map from its 32-bit index; \<^verbatim>\<open>bpf_map_lookup_elem\<close> is map
  application (a NULL result is \<^term>\<open>None\<close>), and an update through the returned pointer
  replaces the entry. A per-CPU map stands for the instance of the CPU the program runs on.
  The text printed by \<^verbatim>\<open>bpf_printk\<close> is not modelled, the memory reads of its arguments are.
\<close>

unbundle bit_operations_syntax

section \<open>Action codes\<close>

definition XDP_ABORTED :: u32 where [c_consts]: "XDP_ABORTED = 0"
definition XDP_DROP :: u32 where [c_consts]: "XDP_DROP = 1"
definition XDP_PASS :: u32 where [c_consts]: "XDP_PASS = 2"
definition XDP_TX :: u32 where [c_consts]: "XDP_TX = 3"
definition XDP_REDIRECT :: u32 where [c_consts]: "XDP_REDIRECT = 4"
definition XDP_ACTION_MAX :: u32 where [c_consts]: "XDP_ACTION_MAX = XDP_REDIRECT + 1"

definition TC_ACT_UNSPEC :: int where [c_consts]: "TC_ACT_UNSPEC = - 1"
definition TC_ACT_OK :: int where [c_consts]: "TC_ACT_OK = 0"
definition TC_ACT_SHOT :: int where [c_consts]: "TC_ACT_SHOT = 2"

definition IPPROTO_ICMP :: int where [c_consts]: "IPPROTO_ICMP = 1"
definition IPPROTO_TCP :: int where [c_consts]: "IPPROTO_TCP = 6"
definition IPPROTO_UDP :: int where [c_consts]: "IPPROTO_UDP = 17"
definition ICMP_ECHO :: int where [c_consts]: "ICMP_ECHO = 8"

section \<open>BPF array maps\<close>

type_synonym 'v bpf_map = "u32 \<rightharpoonup> 'v"

text \<open>An array map of \<open>n\<close> entries holds every index below \<open>n\<close> from the start, and no other.\<close>

definition array_map :: "u32 \<Rightarrow> 'v bpf_map \<Rightarrow> bool" where
  "array_map n m \<longleftrightarrow> dom m = {k. k < n}"

text \<open>\<^verbatim>\<open>rec = bpf_map_lookup_elem(...); if (rec) rec->rx_packets++\<close>.\<close>

definition bump :: "u32 \<Rightarrow> 'w::len word bpf_map \<Rightarrow> 'w word bpf_map" where
  "bump k m = (case m k of None \<Rightarrow> m | Some v \<Rightarrow> m(k \<mapsto> v + 1))"

definition count_hits :: "u32 set \<Rightarrow> 'w::len word bpf_map \<Rightarrow> 'w word bpf_map" where
  "count_hits K m = (\<lambda>k. map_option (\<lambda>v. if k \<in> K then v + 1 else v) (m k))"

lemma array_map_lookup: "array_map n m \<Longrightarrow> k < n \<Longrightarrow> \<exists>v. m k = Some v"
  unfolding array_map_def by blast

lemma dom_bump [simp]: "dom (bump k m) = dom m"
  by (auto simp: bump_def split: option.splits)

lemma dom_count_hits [simp]: "dom (count_hits K m) = dom m"
  by (auto simp: count_hits_def dom_def)

lemma array_map_bump [simp]: "array_map n (bump k m) = array_map n m"
  by (simp add: array_map_def)

lemma array_map_count_hits [simp]: "array_map n (count_hits K m) = array_map n m"
  by (simp add: array_map_def)

lemma count_hits_empty [simp]: "count_hits {} m = m"
  by (rule ext) (simp add: count_hits_def option.map_ident)

lemma bump_count_hits: "k \<notin> K \<Longrightarrow> bump k (count_hits K m) = count_hits (insert k K) m"
  by (rule ext, cases "m k") (auto simp: bump_def count_hits_def option.map_ident
      intro!: option.map_cong)

lemma bump_eq_count_hits: "bump k m = count_hits {k} m"
  using bump_count_hits [of k "{}" m] by simp

section \<open>01-xdp-pass and 02-xdp-prog-by-name\<close>

definition xdp_prog_simple :: "xdp_md \<Rightarrow> u32" where
  "xdp_prog_simple ctx = XDP_PASS"

definition xdp_pass_func :: "xdp_md \<Rightarrow> u32" where
  "xdp_pass_func ctx = XDP_PASS"

definition xdp_drop_func :: "xdp_md \<Rightarrow> u32" where
  "xdp_drop_func ctx = XDP_DROP"

section \<open>Per-action statistics (common/xdp_stats_kern.h)\<close>

record datarec =
  rx_packets :: u64
  rx_bytes :: u64

definition xdp_stats_record_action ::
  "xdp_md \<Rightarrow> u32 \<Rightarrow> datarec bpf_map \<Rightarrow> u32 \<times> datarec bpf_map" where
  "xdp_stats_record_action ctx action m =
     (if XDP_ACTION_MAX \<le> action then (XDP_ABORTED, m)
      else case m action of
        None \<Rightarrow> (XDP_ABORTED, m)
      | Some rec \<Rightarrow> (action, m(action \<mapsto>
          rec\<lparr>rx_packets := rx_packets rec + 1,
              rx_bytes := rx_bytes rec + ucast (data_end ctx - data ctx)\<rparr>)))"

section \<open>03-packet-parsing\<close>

definition parse_ethhdr_03 :: "xdp_md \<Rightarrow> nat \<Rightarrow> nat \<Rightarrow> parsed option" where
  "parse_ethhdr_03 c p de =
     (if p + sz_ethhdr > de then Some (parse_fail p)
      else do {
        h_proto \<leftarrow> eth_h_proto c p;
        Some \<lparr>pr_ret = uint h_proto, pr_pos = p + sz_ethhdr, pr_hdr = Some p\<rparr>
      })"

definition xdp_parser_func_03 ::
  "xdp_md \<Rightarrow> datarec bpf_map \<Rightarrow> (u32 \<times> datarec bpf_map) option" where
  "xdp_parser_func_03 ctx m = do {
     eth \<leftarrow> parse_ethhdr_03 ctx (pdata ctx) (pend ctx);
     let action = (if pr_ret eth \<noteq> uint (bpf_htons ETH_P_IPV6) then XDP_PASS else XDP_DROP);
     Some (xdp_stats_record_action ctx action m)
   }"

section \<open>04-packet-counting\<close>

definition HDR_VLAN :: u32 where [c_consts]: "HDR_VLAN = 0"
definition HDR_IPV4 :: u32 where [c_consts]: "HDR_IPV4 = 1"
definition HDR_ICMP :: u32 where [c_consts]: "HDR_ICMP = 2"
definition HDR_UDP :: u32 where [c_consts]: "HDR_UDP = 3"
definition HDR_TCP :: u32 where [c_consts]: "HDR_TCP = 4"
definition XDP_HDR_MAP_MAX :: u32 where [c_consts]: "XDP_HDR_MAP_MAX = 5"

fun skip_vlans :: "xdp_md \<Rightarrow> nat \<Rightarrow> nat \<Rightarrow> nat \<Rightarrow> u16 \<Rightarrow> (u16 \<times> nat) option" where
  "skip_vlans c de 0 vlh h_proto = Some (h_proto, vlh)"
| "skip_vlans c de (Suc n) vlh h_proto =
     (if \<not> proto_is_vlan h_proto then Some (h_proto, vlh)
      else if vlh + sz_vlan_hdr > de then Some (h_proto, vlh)
      else do {
        h_proto \<leftarrow> vlan_encapsulated_proto c vlh;
        skip_vlans c de n (vlh + sz_vlan_hdr) h_proto
      })"

definition parse_VLAN :: "xdp_md \<Rightarrow> nat \<Rightarrow> nat \<Rightarrow> parsed option" where
  "parse_VLAN c p de =
     (if p + sz_ethhdr > de then Some (parse_fail p)
      else do {
        h_proto \<leftarrow> eth_h_proto c p;
        (h_proto, vlh) \<leftarrow> skip_vlans c de VLAN_MAX_DEPTH (p + sz_ethhdr) h_proto;
        Some \<lparr>pr_ret = uint h_proto, pr_pos = vlh, pr_hdr = Some p\<rparr>
      })"

definition parse_ipv4hdr :: "xdp_md \<Rightarrow> nat \<Rightarrow> nat \<Rightarrow> parsed option" where
  "parse_ipv4hdr c p de =
     (if p + sz_iphdr > de then Some (parse_fail p)
      else do {
        ihl \<leftarrow> ip_ihl c p;
        let hdrsize = ihl * 4;
        if hdrsize < sz_iphdr then Some (parse_fail p)
        else if p + hdrsize > de then Some (parse_fail p)
        else do {
          proto \<leftarrow> ip_protocol c p;
          Some \<lparr>pr_ret = uint proto, pr_pos = p + hdrsize, pr_hdr = Some p\<rparr>
        }
      })"

definition parse_icmphdr_04 :: "xdp_md \<Rightarrow> nat \<Rightarrow> nat \<Rightarrow> parsed option" where
  "parse_icmphdr_04 c p de =
     (if p + sz_icmphdr > de then Some (parse_fail p)
      else do {
        type \<leftarrow> ld8 c p;
        Some \<lparr>pr_ret = uint type, pr_pos = p + sz_icmphdr, pr_hdr = Some p\<rparr>
      })"

definition parse_udphdr_04 :: "xdp_md \<Rightarrow> nat \<Rightarrow> nat \<Rightarrow> parsed option" where
  "parse_udphdr_04 c p de =
     (if p + sz_udphdr > de then Some (parse_fail p)
      else do {
        l \<leftarrow> ld16 c (p + 4);
        let len = udp_payload_len l;
        if len < 0 then Some (parse_fail p)
        else Some \<lparr>pr_ret = len, pr_pos = p + sz_udphdr, pr_hdr = Some p\<rparr>
      })"

definition parse_tcphdr_04 :: "xdp_md \<Rightarrow> nat \<Rightarrow> nat \<Rightarrow> parsed option" where
  "parse_tcphdr_04 c p de =
     (if p + sz_tcphdr > de then Some (parse_fail p)
      else do {
        doff \<leftarrow> tcp_doff c p;
        let len = doff * 4;
        if len < sz_tcphdr then Some (parse_fail p)
        else if p + len > de then Some (parse_fail p)
        else Some \<lparr>pr_ret = int len, pr_pos = p + len, pr_hdr = Some p\<rparr>
      })"

text \<open>The program from its IPv4 accounting on (the \<^verbatim>\<open>if\<close> and the \<^verbatim>\<open>switch\<close> on the protocol).\<close>

definition count_transport ::
  "xdp_md \<Rightarrow> parsed \<Rightarrow> u64 bpf_map \<Rightarrow> (u32 \<times> u64 bpf_map) option" where
  "count_transport ctx ip m =
     (let nh_type = pr_ret ip;
          m = (if nh_type = IPPROTO_ICMP \<or> nh_type = IPPROTO_UDP \<or> nh_type = IPPROTO_TCP
               then bump HDR_IPV4 m else m)
      in if nh_type = IPPROTO_ICMP then do {
           icmph \<leftarrow> parse_icmphdr_04 ctx (pr_pos ip) (pend ctx);
           if pr_ret icmph \<noteq> ICMP_ECHO then Some (XDP_PASS, m)
           else case m HDR_ICMP of
             None \<Rightarrow> Some (XDP_PASS, m)
           | Some v \<Rightarrow> do {
               let m = m(HDR_ICMP \<mapsto> v + 1);
               icmp \<leftarrow> pr_hdr icmph;
               sequence \<leftarrow> ld16 ctx (icmp + 6);
               let seq_no = uint (bpf_ntohs sequence);
               Some (if seq_no mod 2 = 0 then XDP_DROP else XDP_PASS, m)
             }
         }
         else if nh_type = IPPROTO_UDP then do {
           udp \<leftarrow> parse_udphdr_04 ctx (pr_pos ip) (pend ctx);
           if pr_ret udp = - 1 then Some (XDP_PASS, m) else Some (XDP_PASS, bump HDR_UDP m)
         }
         else if nh_type = IPPROTO_TCP then do {
           tcp \<leftarrow> parse_tcphdr_04 ctx (pr_pos ip) (pend ctx);
           if pr_ret tcp = - 1 then Some (XDP_PASS, m) else Some (XDP_PASS, bump HDR_TCP m)
         }
         else Some (XDP_PASS, m))"

definition xdp_parser_func_04 :: "xdp_md \<Rightarrow> u64 bpf_map \<Rightarrow> (u32 \<times> u64 bpf_map) option" where
  "xdp_parser_func_04 ctx m = do {
     vlan \<leftarrow> parse_VLAN ctx (pdata ctx) (pend ctx);
     m \<leftarrow> (if 0 \<le> pr_ret vlan
          then do {
            eth \<leftarrow> pr_hdr vlan;
            h_proto \<leftarrow> eth_h_proto ctx eth;
            Some (if proto_is_vlan h_proto then bump HDR_VLAN m else m)
          }
          else Some m);
     ip \<leftarrow> parse_ipv4hdr ctx (pr_pos vlan) (pend ctx);
     count_transport ctx ip m
   }"

section \<open>05-tc-hook, kernel side\<close>

definition IP_PKT :: u32 where [c_consts]: "IP_PKT = 0"
definition ICMP_PKT :: u32 where [c_consts]: "ICMP_PKT = 1"
definition UDP_PKT :: u32 where [c_consts]: "UDP_PKT = 2"
definition TCP_PKT :: u32 where [c_consts]: "TCP_PKT = 3"
definition PACKET_COUNTER_MAX :: u32 where [c_consts]: "PACKET_COUNTER_MAX = 4"
definition RET :: int where [c_consts]: "RET = 0"

text \<open>The socket buffer carries the same two packet fields as \<^verbatim>\<open>struct xdp_md\<close>.\<close>

definition count_or_shot ::
  "u32 \<Rightarrow> u32 bpf_map \<Rightarrow> (u32 bpf_map \<Rightarrow> (int \<times> u32 bpf_map) option) \<Rightarrow>
   (int \<times> u32 bpf_map) option" where
  "count_or_shot key m k =
     (case m key of None \<Rightarrow> Some (TC_ACT_SHOT, m) | Some v \<Rightarrow> k (m(key \<mapsto> v + 1)))"

definition parse_pkt :: "xdp_md \<Rightarrow> u32 bpf_map \<Rightarrow> (int \<times> u32 bpf_map) option" where
  "parse_pkt skb m =
     (let data = pdata skb; data_end = pend skb
      in if data < data_end then
        let eth = data in
        if data + sz_ethhdr > data_end then Some (TC_ACT_SHOT, m)
        else do {
          h_proto \<leftarrow> eth_h_proto skb eth;
          if bpf_htons h_proto \<noteq> 0x0800 then Some (TC_ACT_UNSPEC, m)
          else let iph = data + sz_ethhdr in
          if data + sz_ethhdr + sz_iphdr > data_end then Some (TC_ACT_SHOT, m)
          else do {
            saddr \<leftarrow> ld_bytes skb (iph + 12) 4;
            daddr \<leftarrow> ld_bytes skb (iph + 16) 4;
            protocol \<leftarrow> ip_protocol skb iph;
            count_or_shot IP_PKT m (\<lambda>m.
              if protocol = 0x6 then
                let tcph = data + sz_ethhdr + sz_iphdr in
                if data + sz_ethhdr + sz_iphdr + sz_tcphdr > data_end then Some (TC_ACT_SHOT, m)
                else do {
                  source \<leftarrow> ld16 skb tcph;
                  dest \<leftarrow> ld16 skb (tcph + 2);
                  count_or_shot TCP_PKT m (\<lambda>m. Some (RET, m))
                }
              else if protocol = 0x11 then
                let udph = data + sz_ethhdr + sz_iphdr in
                if data + sz_ethhdr + sz_iphdr + sz_udphdr > data_end then Some (TC_ACT_SHOT, m)
                else do {
                  source \<leftarrow> ld16 skb udph;
                  dest \<leftarrow> ld16 skb (udph + 2);
                  count_or_shot UDP_PKT m (\<lambda>m. Some (RET, m))
                }
              else if protocol = 0x01 then
                count_or_shot ICMP_PKT m (\<lambda>m. Some (RET, m))
              else Some (RET, m))
          }
        }
      else Some (RET, m))"

section \<open>06-packet-filter\<close>

fun skip_vlans_06 :: "xdp_md \<Rightarrow> nat \<Rightarrow> nat \<Rightarrow> nat \<Rightarrow> u16 \<Rightarrow> (u16 \<times> nat) option" where
  "skip_vlans_06 c de 0 vlh h_proto = Some (h_proto, vlh)"
| "skip_vlans_06 c de (Suc n) vlh h_proto =
     (if \<not> proto_is_vlan h_proto then Some (h_proto, vlh)
      else if vlh + sz_vlan_hdr > de then Some (h_proto, vlh)
      else do {
        h_proto \<leftarrow> vlan_encapsulated_proto c vlh;
        skip_vlans_06 c de n (vlh + sz_vlan_hdr) h_proto
      })"

definition parse_VLAN_06 :: "xdp_md \<Rightarrow> nat \<Rightarrow> nat \<Rightarrow> parsed option" where
  "parse_VLAN_06 c p de =
     (if p + sz_ethhdr > de then Some (parse_fail p)
      else do {
        h_proto \<leftarrow> eth_h_proto c p;
        (h_proto, vlh) \<leftarrow> skip_vlans_06 c de VLAN_MAX_DEPTH (p + sz_ethhdr) h_proto;
        Some \<lparr>pr_ret = uint h_proto, pr_pos = vlh, pr_hdr = Some p\<rparr>
      })"

definition parse_ipv4hdr_06 :: "xdp_md \<Rightarrow> nat \<Rightarrow> nat \<Rightarrow> parsed option" where
  "parse_ipv4hdr_06 c p de =
     (if p + sz_iphdr > de then Some (parse_fail p)
      else do {
        ihl \<leftarrow> ip_ihl c p;
        let hdrsize = ihl * 4;
        if hdrsize < sz_iphdr then Some (parse_fail p)
        else if p + hdrsize > de then Some (parse_fail p)
        else do {
          proto \<leftarrow> ip_protocol c p;
          Some \<lparr>pr_ret = uint proto, pr_pos = p + hdrsize, pr_hdr = Some p\<rparr>
        }
      })"

definition xdp_parser_func_06 :: "xdp_md \<Rightarrow> u32 option" where
  "xdp_parser_func_06 ctx = do {
     vlan \<leftarrow> parse_VLAN_06 ctx (pdata ctx) (pend ctx);
     ip \<leftarrow> parse_ipv4hdr_06 ctx (pr_pos vlan) (pend ctx);
     Some (if pr_ret ip = IPPROTO_TCP then XDP_DROP else XDP_PASS)
   }"

section \<open>The copies of the parsers\<close>

text \<open>
  Lessons 03, 04 and 06 carry their own copies of the parsers; all but two are the library's.
\<close>

lemma skip_vlans_vlan_loop:
  "vlan_loop c de n i vlh h None = map_option (\<lambda>(h, q). (h, q, None)) (skip_vlans c de n vlh h)"
  by (induction c de n vlh h arbitrary: i rule: skip_vlans.induct)
    (auto simp: Option.map_option_bind comp_def intro!: bind_option_cong)

lemma skip_vlans_06_eq [simp]: "skip_vlans_06 = skip_vlans"
proof (intro ext)
  fix c de n vlh h
  show "skip_vlans_06 c de n vlh h = skip_vlans c de n vlh h"
    by (induction c de n vlh h rule: skip_vlans.induct) (auto intro: bind_option_cong)
qed

lemma parse_VLAN_eq: "parse_VLAN = parse_ethhdr"
  by (intro ext) (auto simp: parse_VLAN_def parse_ethhdr_def parse_ethhdr_vlan_def
      skip_vlans_vlan_loop bind_map_option Option.map_option_bind comp_def split_def
      intro!: bind_option_cong)

lemma parse_VLAN_06_eq: "parse_VLAN_06 = parse_ethhdr"
  unfolding parse_VLAN_eq [symmetric]
  by (intro ext) (simp add: parse_VLAN_06_def parse_VLAN_def)

lemma parse_ipv4hdr_eq: "parse_ipv4hdr = parse_iphdr"
  by (intro ext) (simp add: parse_ipv4hdr_def parse_iphdr_def)

lemma parse_ipv4hdr_06_eq: "parse_ipv4hdr_06 = parse_iphdr"
  by (intro ext) (simp add: parse_ipv4hdr_06_def parse_iphdr_def)

lemma parse_icmphdr_04_eq: "parse_icmphdr_04 = parse_icmphdr"
  by (intro ext) (simp add: parse_icmphdr_04_def parse_icmphdr_def)

lemma parse_tcphdr_04_eq: "parse_tcphdr_04 = parse_tcphdr"
  by (intro ext) (simp add: parse_tcphdr_04_def parse_tcphdr_def)

lemmas parser_copies = parse_VLAN_eq parse_VLAN_06_eq parse_ipv4hdr_eq parse_ipv4hdr_06_eq
  parse_icmphdr_04_eq parse_tcphdr_04_eq

interpretation eth03: header_parser parse_ethhdr_03 sz_ethhdr
  by unfold_locales (auto simp: parse_ethhdr_03_def eth_h_proto_def split: if_splits)

interpretation udp04: header_parser parse_udphdr_04 sz_udphdr
  by unfold_locales (auto simp: parse_udphdr_04_def Let_def split: if_splits)

text \<open>
  The two UDP parsers accept the same datagrams with the same result; on a datagram whose
  length field is below eight only the library's has already moved the cursor.
\<close>

lemma parse_udphdr_04_agrees:
  "map_option pr_ret (parse_udphdr_04 c p de) = map_option pr_ret (parse_udphdr c p de)"
  by (auto simp: parse_udphdr_04_def parse_udphdr_def Let_def Option.map_option_bind comp_def
      intro!: bind_option_cong)

section \<open>Counting programs: one step, a run of packets\<close>

text \<open>
  A counting program handles one packet at a time over a shared array map. Its contract: on
  an array map it never faults, and it adds one to exactly the counters in \<open>hits c\<close>.
\<close>

fun run_packets ::
  "(xdp_md \<Rightarrow> 'w::len word bpf_map \<Rightarrow> ('a \<times> 'w word bpf_map) option) \<Rightarrow> xdp_md list \<Rightarrow>
   'w word bpf_map \<Rightarrow> ('a list \<times> 'w word bpf_map) option" where
  "run_packets step [] m = Some ([], m)"
| "run_packets step (c # cs) m = do {
     (a, m) \<leftarrow> step c m;
     (as, m) \<leftarrow> run_packets step cs m;
     Some (a # as, m)
   }"

locale packet_counter =
  fixes step :: "xdp_md \<Rightarrow> 'w::len word bpf_map \<Rightarrow> ('a \<times> 'w word bpf_map) option"
    and verdict :: "xdp_md \<Rightarrow> 'a" and hits :: "xdp_md \<Rightarrow> u32 set" and size :: u32
  assumes step_counts: "array_map size m \<Longrightarrow> step c m = Some (verdict c, count_hits (hits c) m)"
begin

lemma run_counts:
  assumes "array_map size m"
  shows "\<exists>m'. run_packets step cs m = Some (map verdict cs, m') \<and> array_map size m' \<and>
    (\<forall>k v. m k = Some v \<longrightarrow>
       m' k = Some (v + of_nat (length (filter (\<lambda>c. k \<in> hits c) cs))))"
  using assms
proof (induction cs arbitrary: m)
  case (Cons c cs)
  let ?m = "count_hits (hits c) m"
  have "array_map size ?m" using Cons.prems by simp
  from Cons.IH [OF this] obtain m' where run: "run_packets step cs ?m = Some (map verdict cs, m')"
    and m': "array_map size m'" "\<And>k v. ?m k = Some v \<Longrightarrow>
      m' k = Some (v + of_nat (length (filter (\<lambda>c. k \<in> hits c) cs)))" by blast
  have "m' k = Some (v + of_nat (length (filter (\<lambda>c. k \<in> hits c) (c # cs))))" if "m k = Some v" for k v
    using m'(2) [of k "if k \<in> hits c then v + 1 else v"] that
    by (cases "k \<in> hits c") (simp_all add: count_hits_def add_ac)
  then show ?case
    using run m'(1) step_counts [OF Cons.prems, of c] by auto
qed simp

end

section \<open>What lesson 04 sees in a packet\<close>

text \<open>
  The classification the counters of lesson 04 stand for, in terms of the library parsers:
  whether the frame carries a VLAN tag, and what follows its link-layer header.
\<close>

datatype traffic = Icmp_Echo u16 | Icmp_Other | Udp_Ok | Udp_Bad | Tcp_Ok | Tcp_Bad | No_Transport

definition tagged :: "xdp_md \<Rightarrow> bool" where
  "tagged c \<longleftrightarrow> (\<exists>h. pdata c + sz_ethhdr \<le> pend c \<and> eth_h_proto c (pdata c) = Some h \<and> proto_is_vlan h)"

definition ip_header :: "xdp_md \<Rightarrow> parsed option" where
  "ip_header c = do { eth \<leftarrow> parse_ethhdr c (pdata c) (pend c); parse_iphdr c (pr_pos eth) (pend c) }"

definition traffic_of :: "xdp_md \<Rightarrow> traffic" where
  "traffic_of c =
     (case ip_header c of
        None \<Rightarrow> No_Transport
      | Some ip \<Rightarrow>
          (if pr_ret ip = IPPROTO_ICMP then
             (case parse_icmphdr c (pr_pos ip) (pend c) of
                Some icmp \<Rightarrow>
                  if pr_ret icmp = ICMP_ECHO
                  then Icmp_Echo (bpf_ntohs (the (ld16 c (pr_pos ip + 6)))) else Icmp_Other
              | None \<Rightarrow> Icmp_Other)
           else if pr_ret ip = IPPROTO_UDP then
             (if map_option pr_ret (parse_udphdr c (pr_pos ip) (pend c)) = Some (- 1)
              then Udp_Bad else Udp_Ok)
           else if pr_ret ip = IPPROTO_TCP then
             (if map_option pr_ret (parse_tcphdr c (pr_pos ip) (pend c)) = Some (- 1)
              then Tcp_Bad else Tcp_Ok)
           else No_Transport))"

fun transport_hits :: "traffic \<Rightarrow> u32 set" where
  "transport_hits (Icmp_Echo s) = {HDR_IPV4, HDR_ICMP}"
| "transport_hits Icmp_Other = {HDR_IPV4}"
| "transport_hits Udp_Ok = {HDR_IPV4, HDR_UDP}"
| "transport_hits Udp_Bad = {HDR_IPV4}"
| "transport_hits Tcp_Ok = {HDR_IPV4, HDR_TCP}"
| "transport_hits Tcp_Bad = {HDR_IPV4}"
| "transport_hits No_Transport = {}"

definition hits_04 :: "xdp_md \<Rightarrow> u32 set" where
  "hits_04 c = (if tagged c then {HDR_VLAN} else {}) \<union> transport_hits (traffic_of c)"

definition verdict_04 :: "xdp_md \<Rightarrow> u32" where
  "verdict_04 c = (case traffic_of c of
     Icmp_Echo s \<Rightarrow> if even (uint s) then XDP_DROP else XDP_PASS | _ \<Rightarrow> XDP_PASS)"

lemma bump_twice: "j \<noteq> k \<Longrightarrow> bump j (bump k m) = count_hits {j, k} m"
  by (simp add: bump_count_hits bump_eq_count_hits [of k])

lemma count_hits_union: "K \<inter> L = {} \<Longrightarrow> count_hits K (count_hits L m) = count_hits (K \<union> L) m"
  by (rule ext) (auto simp: count_hits_def option.map_comp comp_def intro!: option.map_cong)

lemma HDR_distinct [simp]:
  "HDR_VLAN \<noteq> HDR_IPV4" "HDR_VLAN \<noteq> HDR_ICMP" "HDR_VLAN \<noteq> HDR_UDP" "HDR_VLAN \<noteq> HDR_TCP"
  "HDR_IPV4 \<noteq> HDR_VLAN" "HDR_ICMP \<noteq> HDR_VLAN" "HDR_UDP \<noteq> HDR_VLAN" "HDR_TCP \<noteq> HDR_VLAN"
  "HDR_IPV4 \<noteq> HDR_ICMP" "HDR_IPV4 \<noteq> HDR_UDP" "HDR_IPV4 \<noteq> HDR_TCP"
  "HDR_ICMP \<noteq> HDR_IPV4" "HDR_UDP \<noteq> HDR_IPV4" "HDR_TCP \<noteq> HDR_IPV4"
  by (simp_all add: c_consts)

lemma vlan_step_04:
  assumes "parse_ethhdr c (pdata c) (pend c) = Some e"
  shows "(if 0 \<le> pr_ret e
      then do { eth \<leftarrow> pr_hdr e; h \<leftarrow> eth_h_proto c eth;
                Some (if proto_is_vlan h then bump HDR_VLAN m else m) }
      else Some m) = Some (count_hits (if tagged c then {HDR_VLAN} else {}) m)"
proof (cases "pdata c + sz_ethhdr \<le> pend c")
  case True
  then obtain h where "eth_h_proto c (pdata c) = Some h" by (simp add: eth_h_proto_def)
  with True parse_ethhdr_total [of c "pdata c"] assms show ?thesis
    by (auto simp: tagged_def bump_eq_count_hits)
next
  case False
  with parse_ethhdr_total [of c "pdata c"] assms show ?thesis by (auto simp: tagged_def)
qed

lemma icmp_echo_header:
  assumes "pdata c \<le> p" and "parse_icmphdr c p (pend c) = Some r" and "pr_ret r = ICMP_ECHO"
  shows "pr_hdr r = Some p" and "ld16 c (p + 6) = Some (le16 (mem c (p + 6)) (mem c (p + 7)))"
  using assms icmp.accepts [of c p r] by (auto simp: c_consts add.commute)

lemma count_transport_counts:
  assumes ih: "ip_header c = Some ip" and pos: "pdata c \<le> pr_pos ip"
    and m: "array_map XDP_HDR_MAP_MAX m"
  shows "count_transport c ip m =
    Some (verdict_04 c, count_hits (transport_hits (traffic_of c)) m)"
proof -
  let ?m = "bump HDR_IPV4 m"
  obtain v where "?m HDR_ICMP = Some v"
    using array_map_lookup [of XDP_HDR_MAP_MAX ?m HDR_ICMP] m by (auto simp: c_consts)
  then have icmp: "?m HDR_ICMP = Some v \<and> ?m(HDR_ICMP \<mapsto> v + 1) = bump HDR_ICMP ?m"
    by (simp add: bump_def [of HDR_ICMP])
  obtain ic where ic: "parse_icmphdr c (pr_pos ip) (pend c) = Some ic" using icmp.total [OF pos] by blast
  obtain ud where ud: "parse_udphdr_04 c (pr_pos ip) (pend c) = Some ud" using udp04.total [OF pos] by blast
  obtain tc where tc: "parse_tcphdr c (pr_pos ip) (pend c) = Some tc" using tcp.total [OF pos] by blast
  have ud': "map_option pr_ret (parse_udphdr c (pr_pos ip) (pend c)) = Some (pr_ret ud)"
    using parse_udphdr_04_agrees [of c "pr_pos ip" "pend c"] ud by simp
  note defs = count_transport_def traffic_of_def verdict_04_def ih Let_def parser_copies
    IPPROTO_ICMP_def IPPROTO_TCP_def IPPROTO_UDP_def bump_twice
  consider "pr_ret ip = 1" "pr_ret ic = ICMP_ECHO" | "pr_ret ip = 1" "pr_ret ic \<noteq> ICMP_ECHO"
    | "pr_ret ip = 17" | "pr_ret ip = 6" | "pr_ret ip \<notin> {1, 17, 6}" by blast
  then show ?thesis
  proof cases
    case 1
    with icmp_echo_header [OF pos ic] ic icmp show ?thesis
      by (simp add: defs insert_commute even_iff_mod_2_eq_zero)
  qed (use ic ud ud' tc in \<open>auto simp: defs bump_eq_count_hits [of HDR_IPV4 m] bump_count_hits insert_commute\<close>)
qed

lemma step_04:
  assumes m: "array_map XDP_HDR_MAP_MAX m"
  shows "xdp_parser_func_04 c m = Some (verdict_04 c, count_hits (hits_04 c) m)"
proof -
  obtain e ip where e: "parse_ethhdr c (pdata c) (pend c) = Some e"
    and ip: "parse_iphdr c (pr_pos e) (pend c) = Some ip" and pos: "pdata c \<le> pr_pos ip"
    using eth_ip.chain_total [of c "pdata c"] by blast
  have ih: "ip_header c = Some ip" by (simp add: ip_header_def e ip)
  let ?V = "if tagged c then {HDR_VLAN} else {}"
  have "transport_hits t \<inter> ?V = {}" for t by (cases t) auto
  moreover have "xdp_parser_func_04 c m = count_transport c ip (count_hits ?V m)"
    unfolding xdp_parser_func_04_def parser_copies e bind.bind_lunit vlan_step_04 [OF e] ip ..
  ultimately show ?thesis
    using count_transport_counts [OF ih pos, of "count_hits ?V m"] m
    by (simp add: hits_04_def count_hits_union Un_commute)
qed

interpretation c04: packet_counter xdp_parser_func_04 verdict_04 hits_04 XDP_HDR_MAP_MAX
  by unfold_locales (rule step_04)

section \<open>What the TC program of lesson 05 sees in a packet\<close>

text \<open>
  Its classification read off the bytes: the length of the packet, the EtherType bytes, and
  the protocol byte of an IP header taken to be 20 bytes long.
\<close>

definition verdict_05 :: "xdp_md \<Rightarrow> int" where
  "verdict_05 c =
     (let b = (\<lambda>i. mem c (pdata c + i)); n = pend c - pdata c
      in if n = 0 then RET
         else if n < 14 then TC_ACT_SHOT
         else if b 12 \<noteq> 0x08 \<or> b 13 \<noteq> 0 then TC_ACT_UNSPEC
         else if n < 34 then TC_ACT_SHOT
         else if b 23 = 6 \<and> n < 54 \<or> b 23 = 17 \<and> n < 42 then TC_ACT_SHOT
         else RET)"

definition hits_05 :: "xdp_md \<Rightarrow> u32 set" where
  "hits_05 c =
     (let b = (\<lambda>i. mem c (pdata c + i)); n = pend c - pdata c
      in if n < 34 \<or> b 12 \<noteq> 0x08 \<or> b 13 \<noteq> 0 then {}
         else {IP_PKT} \<union> (if b 23 = 6 \<and> 54 \<le> n then {TCP_PKT} else {})
                       \<union> (if b 23 = 17 \<and> 42 \<le> n then {UDP_PKT} else {})
                       \<union> (if b 23 = 1 then {ICMP_PKT} else {}))"

lemma count_or_shot_array:
  assumes "array_map n m" and "k < n"
  shows "count_or_shot k m f = f (bump k m)"
  using array_map_lookup [OF assms] by (auto simp: count_or_shot_def bump_def)

lemma PKT_less [simp]:
  "IP_PKT < PACKET_COUNTER_MAX" "ICMP_PKT < PACKET_COUNTER_MAX"
  "UDP_PKT < PACKET_COUNTER_MAX" "TCP_PKT < PACKET_COUNTER_MAX"
  by (simp_all add: c_consts word_less_nat_alt)

lemma PKT_distinct [simp]:
  "TCP_PKT \<noteq> IP_PKT" "UDP_PKT \<noteq> IP_PKT" "ICMP_PKT \<noteq> IP_PKT"
  by (simp_all add: c_consts)

lemma htons_eq_0800: "bpf_htons (le16 a b) = 0x0800 \<longleftrightarrow> a = 0x08 \<and> b = 0"
proof -
  have x: "(0x0800 :: u16) = le16 0 0x08" by (simp add: le16_def)
  show ?thesis unfolding bpf_htons_le16 x le16_inj by auto
qed

lemma step_05:
  assumes m: "array_map PACKET_COUNTER_MAX m"
  shows "parse_pkt c m = Some (verdict_05 c, count_hits (hits_05 c) m)"
proof -
  define n where "n = pend c - pdata c"
  let ?b = "\<lambda>i. mem c (pdata c + i)"
  have m': "array_map PACKET_COUNTER_MAX (bump k m)" for k using m by simp
  show ?thesis
  proof (cases "n < 14")
    case True
    then show ?thesis
      by (auto simp: parse_pkt_def verdict_05_def hits_05_def n_def Let_def)
  next
    case len: False
    then have proto: "eth_h_proto c (pdata c) = Some (le16 (?b 12) (?b 13))"
      by (simp add: eth_h_proto_def n_def add.commute)
    show ?thesis
    proof (cases "n < 34 \<or> \<not> (?b 12 = 0x08 \<and> ?b 13 = 0)")
      case True
      with len show ?thesis
        by (auto simp: parse_pkt_def verdict_05_def hits_05_def proto htons_eq_0800 n_def Let_def)
    next
      case False
      then have "pdata c + 34 \<le> pend c" by (auto simp: n_def)
      then have ld: "ip_protocol c (pdata c + 14) = Some (?b 23)"
        "ld_bytes c (pdata c + 26) 4 \<noteq> None" "ld_bytes c (pdata c + 30) 4 \<noteq> None"
        by (simp_all add: ip_protocol_def add.commute)
      show ?thesis
        using False len ld m m'
        by (auto simp: parse_pkt_def verdict_05_def hits_05_def proto htons_eq_0800 n_def Let_def
            count_or_shot_array bump_eq_count_hits [of IP_PKT m] bump_count_hits insert_commute)
    qed
  qed
qed

interpretation c05: packet_counter parse_pkt verdict_05 hits_05 PACKET_COUNTER_MAX
  by unfold_locales (rule step_05)

section \<open>IPv4 on the wire\<close>

definition ipv4_wire :: "u8 list \<Rightarrow> u8 \<Rightarrow> bool" where
  "ipv4_wire h proto \<longleftrightarrow>
     20 \<le> length h \<and> length h = unat (h ! 0 AND 15) * 4 \<and> h ! 9 = proto"

lemma parse_iphdr_wire:
  assumes "ipv4_wire h proto" and "bytes_at c p h"
  shows "parse_iphdr c p (pend c) =
    Some \<lparr>pr_ret = uint proto, pr_pos = p + length h, pr_hdr = Some p\<rparr>"
proof -
  have *: "pdata c \<le> p" "p + length h \<le> pend c" "mem c p = h ! 0" "mem c (p + 9) = h ! 9"
    using assms by (force simp: ipv4_wire_def bytes_at_def)+
  then show ?thesis
    using assms(1) by (simp add: parse_iphdr_def ip_ihl_def ip_protocol_def ipv4_wire_def Let_def)
qed

lemma ip_header_wire:
  assumes "wire_frame dst src tags proto" and "ipv4_wire h p"
    and at: "bytes_at c (pdata c) (eth_frame dst src tags proto (h @ payload))"
  shows "ip_header c = Some \<lparr>pr_ret = uint p,
      pr_pos = pdata c + sz_ethhdr + 4 * length tags + length h,
      pr_hdr = Some (pdata c + sz_ethhdr + 4 * length tags)\<rparr>"
    and "bytes_at c (pdata c + sz_ethhdr + 4 * length tags + length h) payload"
proof -
  have len: "length dst = 6" "length src = 6" using assms(1) by (simp_all add: wire_frame_def)
  have eth: "parse_ethhdr c (pdata c) (pend c) = Some \<lparr>pr_ret = uint (bpf_htons proto),
      pr_pos = pdata c + sz_ethhdr + 4 * length tags, pr_hdr = Some (pdata c)\<rparr>"
    using parse_ethhdr_vlan_wire [OF assms(1) at, of None] by (simp add: parse_ethhdr_def)
  have l3: "bytes_at c (pdata c + sz_ethhdr + 4 * length tags) h"
    "bytes_at c (pdata c + sz_ethhdr + 4 * length tags + length h) payload"
    using at len by (simp_all add: eth_frame_def add.commute add.left_commute)
  show "ip_header c = Some \<lparr>pr_ret = uint p,
      pr_pos = pdata c + sz_ethhdr + 4 * length tags + length h,
      pr_hdr = Some (pdata c + sz_ethhdr + 4 * length tags)\<rparr>"
    using parse_iphdr_wire [OF assms(2) l3(1)] by (simp add: ip_header_def eth)
  show "bytes_at c (pdata c + sz_ethhdr + 4 * length tags + length h) payload" by (rule l3(2))
qed

lemma xdp_parser_func_06_ip_header:
  "xdp_parser_func_06 c =
     map_option (\<lambda>ip. if pr_ret ip = 6 then XDP_DROP else XDP_PASS) (ip_header c)"
  by (simp add: xdp_parser_func_06_def parser_copies ip_header_def IPPROTO_TCP_def
      map_conv_bind_option comp_def)

lemma tagged_wire:
  assumes "wire_frame dst src tags proto" and "\<not> vlan_tpid proto"
    and at: "bytes_at c (pdata c) (eth_frame dst src tags proto payload)"
  shows "tagged c \<longleftrightarrow> tags \<noteq> []"
proof -
  have len: "length dst = 6" "length src = 6" using assms(1) by (simp_all add: wire_frame_def)
  then have tail: "bytes_at c (pdata c + 12) (eth_tail tags proto)" and fits: "pdata c + 14 \<le> pend c"
    using at by (auto simp: eth_frame_def add.assoc dest: bytes_at_bounds)
  have "ld16 c (pdata c + 12) = Some (bpf_htons (case tags of [] \<Rightarrow> proto | t # _ \<Rightarrow> fst t))"
    using tail by (cases tags) (auto intro: ld16_be16)
  then show ?thesis
    using fits assms(1,2)
    by (auto simp: tagged_def eth_h_proto_def proto_is_vlan_htons wire_frame_def split: list.splits)
qed

lemma traffic_echo_wire:
  assumes "wire_frame dst src tags ETH_P_IP" and "ipv4_wire h 1"
    and at: "bytes_at c (pdata c) (eth_frame dst src tags ETH_P_IP
      (h @ [8, code, ck0, ck1, id0, id1, s0, s1] @ payload))"
  shows "traffic_of c = Icmp_Echo (le16 s1 s0)"
proof -
  note ip = ip_header_wire [OF assms]
  define p where "p = pdata c + sz_ethhdr + 4 * length tags + length h"
  have "bytes_at c p ([8, code, ck0, ck1, id0, id1, s0, s1] @ payload)"
    using ip(2) by (simp only: p_def)
  then have icmp: "parse_icmphdr c p (pend c) =
      Some \<lparr>pr_ret = uint (8 :: u8), pr_pos = p + 8, pr_hdr = Some p\<rparr>"
    and sq: "ld16 c (p + 6) = Some (le16 s0 s1)"
    by (auto simp: parse_icmphdr_def eval_nat_numeral dest: bytes_at_bounds)
  show ?thesis
    using ip(1) icmp sq unfolding traffic_of_def p_def
    by (simp add: c_consts bpf_ntohs_le16)
qed

lemma unat_data_diff:
  assumes "pdata c \<le> pend c"
  shows "ucast (data_end c - data c) = (of_nat (pend c - pdata c) :: u64)"
proof -
  have "data c \<le> data_end c" using assms by (simp add: pdata_def pend_def word_le_nat_alt)
  then have "unat (data_end c - data c) = pend c - pdata c"
    by (simp add: pdata_def pend_def unat_sub)
  then show ?thesis by (metis of_nat_unat)
qed

definition verdict_03 :: "xdp_md \<Rightarrow> u32" where
  "verdict_03 c = (if pdata c + sz_ethhdr \<le> pend c \<and>
      mem c (pdata c + 12) = 0x86 \<and> mem c (pdata c + 13) = 0xDD then XDP_DROP else XDP_PASS)"

lemma htons_ETH_P_IPV6: "bpf_htons ETH_P_IPV6 = le16 0x86 0xDD"
  by (simp add: c_consts bpf_htons_def bswap16_def le16_def)

lemma xdp_parser_func_03_verdict:
  "xdp_parser_func_03 c m = Some (xdp_stats_record_action c (verdict_03 c) m)"
proof (cases "pdata c + sz_ethhdr \<le> pend c")
  case True
  then have "parse_ethhdr_03 c (pdata c) (pend c) =
      Some \<lparr>pr_ret = uint (le16 (mem c (pdata c + 12)) (mem c (pdata c + 13))),
        pr_pos = pdata c + sz_ethhdr, pr_hdr = Some (pdata c)\<rparr>"
    by (simp add: parse_ethhdr_03_def eth_h_proto_def add.commute)
  then show ?thesis
    using True
    by (simp add: xdp_parser_func_03_def verdict_03_def htons_ETH_P_IPV6 flip: word_uint_eq_iff)
next
  case False
  have "- 1 \<noteq> uint (bpf_htons ETH_P_IPV6)" by (rule not_sym) (rule uint_nonneg_u16)
  with False show ?thesis
    by (simp add: xdp_parser_func_03_def parse_ethhdr_03_def verdict_03_def)
qed

section \<open>Properties\<close>

text \<open>
  Lesson 03 drops exactly the frames that hold a whole Ethernet header with EtherType
  IPv6 (bytes 0x86, 0xDD) and passes every other one, never reading outside the packet, and
  it accounts for the verdict it returns: the record of that action gains one packet and the
  length of the packet in bytes, and no other record changes.
\<close>

theorem xdp_parser_03_verdict_and_stats:
  assumes m: "array_map XDP_ACTION_MAX m" and le: "pdata c \<le> pend c"
  shows "\<exists>rec. m (verdict_03 c) = Some rec \<and>
    xdp_parser_func_03 c m = Some (verdict_03 c, m(verdict_03 c \<mapsto>
        rec\<lparr>rx_packets := rx_packets rec + 1,
            rx_bytes := rx_bytes rec + of_nat (pend c - pdata c)\<rparr>))"
proof -
  have v: "verdict_03 c < XDP_ACTION_MAX"
    by (simp add: verdict_03_def c_consts word_less_nat_alt)
  then obtain rec where "m (verdict_03 c) = Some rec" using array_map_lookup [OF m] by blast
  then show ?thesis
    using v by (simp add: xdp_parser_func_03_verdict xdp_stats_record_action_def
        unat_data_diff [OF le] not_le [symmetric])
qed

theorem xdp_parser_03_verdict_and_stats_witness:
  "xdp_parser_func_03 (ctx_of 0 (replicate 12 0 @ [0x86, 0xDD, 0x60]))
     (\<lambda>k. if k < 5 then Some \<lparr>rx_packets = 1, rx_bytes = 10\<rparr> else None) =
   Some (XDP_DROP, (\<lambda>k. if k < 5 then Some \<lparr>rx_packets = 1, rx_bytes = 10\<rparr> else None)
     (XDP_DROP \<mapsto> \<lparr>rx_packets = 2, rx_bytes = 25\<rparr>))"
proof -
  let ?c = "ctx_of 0 (replicate 12 0 @ [0x86, 0xDD, 0x60])"
  let ?m = "\<lambda>k :: u32. if k < 5 then Some \<lparr>rx_packets = 1, rx_bytes = 10\<rparr> else None"
  have "array_map XDP_ACTION_MAX ?m"
    by (simp add: array_map_def dom_def XDP_ACTION_MAX_def XDP_REDIRECT_def)
  moreover have c: "pdata ?c = 0" "pend ?c = 15" by (simp_all add: ctx_of_simps)
  ultimately obtain rec where "?m (verdict_03 ?c) = Some rec"
    "xdp_parser_func_03 ?c ?m = Some (verdict_03 ?c, ?m(verdict_03 ?c \<mapsto>
        rec\<lparr>rx_packets := rx_packets rec + 1, rx_bytes := rx_bytes rec + of_nat (15 - 0)\<rparr>))"
    using xdp_parser_03_verdict_and_stats [of ?m ?c] by auto
  moreover have "mem ?c 12 = 0x86" "mem ?c 13 = 0xDD" by (simp_all add: ctx_of_def nth_append)
  then have "verdict_03 ?c = XDP_DROP" by (simp add: verdict_03_def c)
  moreover have "XDP_DROP < 5" by (simp add: XDP_DROP_def)
  ultimately show ?thesis by auto
qed

text \<open>
  C36: over any sequence of packets, starting from any array map of five counters, lesson 04
  never reads outside a packet, and afterwards each counter has grown (modulo \<open>2\<^sup>6\<^sup>4\<close>) by
  the number of packets that hit it: the VLAN counter by the tagged frames, the IPv4 counter
  by those whose network header names ICMP, UDP or TCP, and the counter of each of these by
  those whose transport header is well-formed (for ICMP: an echo request); the verdicts are
  those of the single packets.
\<close>

theorem packet_counter_04_refines_counts:
  assumes "array_map XDP_HDR_MAP_MAX m"
  shows "\<exists>m'. run_packets xdp_parser_func_04 cs m = Some (map verdict_04 cs, m') \<and>
    array_map XDP_HDR_MAP_MAX m' \<and>
    (\<forall>k v. m k = Some v \<longrightarrow>
       m' k = Some (v + of_nat (length (filter (\<lambda>c. k \<in> hits_04 c) cs))))"
  using assms by (rule c04.run_counts)

lemma transport_hits_le:
  "length (filter (\<lambda>c. HDR_ICMP \<in> hits_04 c) cs) + length (filter (\<lambda>c. HDR_UDP \<in> hits_04 c) cs) +
   length (filter (\<lambda>c. HDR_TCP \<in> hits_04 c) cs) \<le> length (filter (\<lambda>c. HDR_IPV4 \<in> hits_04 c) cs)"
proof (induction cs)
  case (Cons c cs)
  show ?case
    using Cons.IH by (cases "traffic_of c") (auto simp: hits_04_def c_consts)
qed simp

definition zero_counters :: "u32 \<Rightarrow> 'w::len word bpf_map" where
  "zero_counters n = (\<lambda>k. if k < n then Some 0 else None)"

lemma array_map_zero_counters: "array_map n (zero_counters n)"
  by (simp add: array_map_def zero_counters_def dom_def)

theorem packet_counter_04_refines_counts_witness:
  "\<exists>m'. run_packets xdp_parser_func_04 [ctx_of 0 [], ctx_of 0 (replicate 60 0)]
     (zero_counters XDP_HDR_MAP_MAX) =
     Some (map verdict_04 [ctx_of 0 [], ctx_of 0 (replicate 60 0)], m') \<and>
     array_map XDP_HDR_MAP_MAX m'"
  using packet_counter_04_refines_counts [OF array_map_zero_counters] by blast

text \<open>
  The counters of lesson 04 stay consistent: after fewer than \<open>2\<^sup>6\<^sup>4\<close> packets from zeroed
  counters, the ICMP, UDP and TCP counts together do not exceed the IPv4 count, and neither
  that nor the VLAN count exceeds the number of packets.
\<close>

theorem packet_counter_04_consistent:
  assumes few: "length cs < 2 ^ 64"
    and run: "run_packets xdp_parser_func_04 cs (zero_counters XDP_HDR_MAP_MAX) = Some (as, m)"
  shows "\<exists>vlan ipv4 icmp udp tcp. m HDR_VLAN = Some vlan \<and> m HDR_IPV4 = Some ipv4 \<and>
     m HDR_ICMP = Some icmp \<and> m HDR_UDP = Some udp \<and> m HDR_TCP = Some tcp \<and>
     unat icmp + unat udp + unat tcp \<le> unat ipv4 \<and> unat ipv4 \<le> length cs \<and>
     unat vlan \<le> length cs"
proof -
  let ?n = "\<lambda>k. length (filter (\<lambda>c. k \<in> hits_04 c) cs)"
  have le: "?n k \<le> length cs" for k by simp
  have un: "unat (of_nat (?n k) :: u64) = ?n k" for k
    using le_less_trans [OF le [of k] few] by (simp add: unat_of_nat)
  have zero: "zero_counters XDP_HDR_MAP_MAX k = Some (0 :: u64)" if "k < XDP_HDR_MAP_MAX" for k
    using that by (simp add: zero_counters_def)
  have cnt: "m k = Some (of_nat (?n k))" if "k < XDP_HDR_MAP_MAX" for k
    using c04.run_counts [OF array_map_zero_counters, of cs] run zero [OF that] by fastforce
  have "?n HDR_ICMP + ?n HDR_UDP + ?n HDR_TCP \<le> ?n HDR_IPV4"
    by (rule transport_hits_le)
  then show ?thesis
    using cnt [of HDR_VLAN] cnt [of HDR_IPV4] cnt [of HDR_ICMP] cnt [of HDR_UDP] cnt [of HDR_TCP]
    by (auto simp: un c_consts word_less_nat_alt)
qed

theorem packet_counter_04_consistent_witness:
  "\<exists>as m. run_packets xdp_parser_func_04 [ctx_of 0 [], ctx_of 0 (replicate 60 0)]
     (zero_counters XDP_HDR_MAP_MAX) = Some (as, m) \<and>
     (\<exists>ipv4. m HDR_IPV4 = Some ipv4 \<and> unat ipv4 \<le> 2)"
proof -
  let ?cs = "[ctx_of 0 [], ctx_of 0 (replicate 60 0)]"
  obtain as m where run: "run_packets xdp_parser_func_04 ?cs (zero_counters XDP_HDR_MAP_MAX) = Some (as, m)"
    using c04.run_counts [OF array_map_zero_counters] by blast
  have "length ?cs < 2 ^ 64" by simp
  from packet_counter_04_consistent [OF this run] run show ?thesis by auto
qed

text \<open>
  On a well-formed frame with up to two VLAN tags that carries an IPv4 header (options
  included) and an ICMP echo request, lesson 04 drops the packet exactly when the sequence
  number is even, and counts it under IPv4 and ICMP, and under VLAN when it is tagged. (The
  comment in the source says that odd sequence numbers are the ones dropped.)
\<close>

theorem echo_request_dropped_iff_even:
  assumes frame: "wire_frame dst src tags ETH_P_IP" and ip: "ipv4_wire h 1"
    and bs: "bs = eth_frame dst src tags ETH_P_IP (h @ [8, code, ck0, ck1, id0, id1, s0, s1] @ payload)"
    and fits: "base + length bs < 2 ^ 32" and m: "array_map XDP_HDR_MAP_MAX m"
  shows "xdp_parser_func_04 (ctx_of base bs) m =
    Some (if even (256 * unat s0 + unat s1) then XDP_DROP else XDP_PASS,
      count_hits ((if tags = [] then {} else {HDR_VLAN}) \<union> {HDR_IPV4, HDR_ICMP}) m)"
proof -
  let ?c = "ctx_of base bs"
  have "pdata ?c = base" using fits by (simp add: ctx_of_pdata)
  then have at: "bytes_at ?c (pdata ?c) (eth_frame dst src tags ETH_P_IP
      (h @ [8, code, ck0, ck1, id0, id1, s0, s1] @ payload))"
    using ctx_of_bytes_at [OF fits] bs by simp
  have "\<not> vlan_tpid ETH_P_IP" by (simp add: vlan_tpid_def c_consts)
  note tagged = tagged_wire [OF frame this at]
  have "even (uint (le16 s1 s0)) \<longleftrightarrow> even (256 * unat s0 + unat s1)"
    by (rule even_le16)
  then show ?thesis
    unfolding step_04 [OF m] hits_04_def verdict_04_def traffic_echo_wire [OF frame ip at] tagged
    by simp
qed

definition plain_ipv4 :: "u8 \<Rightarrow> u8 list" where
  "plain_ipv4 proto = [0x45, 0, 0, 28, 0, 0, 0, 0, 64, proto, 0, 0, 10, 0, 0, 1, 10, 0, 0, 2]"

lemma length_plain_ipv4: "length (plain_ipv4 proto) = 20"
  by (simp add: plain_ipv4_def)

lemma ipv4_wire_plain: "ipv4_wire (plain_ipv4 proto) proto"
  by (simp add: ipv4_wire_def plain_ipv4_def)

theorem echo_request_dropped_iff_even_witness:
  "xdp_parser_func_04 (ctx_of 0 (eth_frame (replicate 6 1) (replicate 6 2) [(0x8100, 5)] ETH_P_IP
      (plain_ipv4 1 @ [8, 0, 0, 0, 0, 0, 1, 2] @ []))) (zero_counters XDP_HDR_MAP_MAX) =
   Some (XDP_DROP, count_hits {HDR_VLAN, HDR_IPV4, HDR_ICMP} (zero_counters XDP_HDR_MAP_MAX))"
proof -
  have "wire_frame (replicate 6 1) (replicate 6 2) [(0x8100, 5)] ETH_P_IP"
    by (simp add: wire_frame_def vlan_tpid_def VLAN_MAX_DEPTH_def c_consts)
  from echo_request_dropped_iff_even [OF this ipv4_wire_plain refl _ array_map_zero_counters,
      of 0 0 0 0 0 0 1 2 "[]"]
  show ?thesis by (simp add: eth_frame_def plain_ipv4_def insert_commute)
qed

text \<open>
  Over any sequence of packets, starting from an array map of four counters, the TC
  program of lesson 05 never reads outside a packet, returns for each the verdict its bytes
  call for (shoot truncated packets, leave other EtherTypes to the next classifier, accept
  the rest), and each 32-bit counter grows by the number of packets that hit it.
\<close>

theorem packet_counter_05_refines_counts:
  assumes "array_map PACKET_COUNTER_MAX m"
  shows "\<exists>m'. run_packets parse_pkt cs m = Some (map verdict_05 cs, m') \<and>
    array_map PACKET_COUNTER_MAX m' \<and>
    (\<forall>k v. m k = Some v \<longrightarrow>
       m' k = Some (v + of_nat (length (filter (\<lambda>c. k \<in> hits_05 c) cs))))"
  using assms by (rule c05.run_counts)

theorem packet_counter_05_refines_counts_witness:
  "\<exists>m'. run_packets parse_pkt [ctx_of 0 [1, 2, 3], ctx_of 0 []] (zero_counters PACKET_COUNTER_MAX) =
     Some ([TC_ACT_SHOT, RET], m') \<and> array_map PACKET_COUNTER_MAX m'"
proof -
  have "map verdict_05 [ctx_of 0 [1, 2, 3], ctx_of 0 []] = [TC_ACT_SHOT, RET]"
    by (simp add: verdict_05_def ctx_of_simps)
  then show ?thesis
    using packet_counter_05_refines_counts [OF array_map_zero_counters,
        of "[ctx_of 0 [1, 2, 3], ctx_of 0 []]"] by auto
qed

text \<open>
  On a well-formed frame with up to two VLAN tags that carries an IPv4 header, options
  included, the filter of lesson 06 drops the packet exactly when the header's protocol is
  TCP, whatever follows it.
\<close>

theorem filter_06_drops_tcp:
  assumes frame: "wire_frame dst src tags ETH_P_IP" and ip: "ipv4_wire h proto"
    and bs: "bs = eth_frame dst src tags ETH_P_IP (h @ payload)"
    and fits: "base + length bs < 2 ^ 32"
  shows "xdp_parser_func_06 (ctx_of base bs) = Some (if proto = 6 then XDP_DROP else XDP_PASS)"
proof -
  let ?c = "ctx_of base bs"
  have "pdata ?c = base" using fits by (simp add: ctx_of_pdata)
  then have at: "bytes_at ?c (pdata ?c) (eth_frame dst src tags ETH_P_IP (h @ payload))"
    using ctx_of_bytes_at [OF fits] bs by simp
  have "uint proto = 6 \<longleftrightarrow> proto = 6" by (simp add: word_uint_eq_iff)
  then show ?thesis
    using ip_header_wire(1) [OF frame ip at] by (simp add: xdp_parser_func_06_ip_header)
qed

theorem filter_06_drops_tcp_witness:
  "xdp_parser_func_06 (ctx_of 0 (eth_frame (replicate 6 1) (replicate 6 2) [(0x88A8, 1), (0x8100, 5)]
     ETH_P_IP (plain_ipv4 6 @ []))) = Some XDP_DROP"
proof -
  have "wire_frame (replicate 6 1) (replicate 6 2) [(0x88A8, 1), (0x8100, 5)] ETH_P_IP"
    by (simp add: wire_frame_def vlan_tpid_def VLAN_MAX_DEPTH_def c_consts)
  from filter_06_drops_tcp [OF this ipv4_wire_plain refl, of 0 6 "[]"]
  show ?thesis by (simp add: eth_frame_def plain_ipv4_def)
qed

text \<open>
  Neither lesson 04 nor lesson 06 looks at the EtherType before it reads an IPv4 header:
  their decisions are the same for every EtherType that is not a VLAN tag. So a frame of
  another protocol whose bytes happen to parse as an IPv4 header with protocol TCP is dropped
  by the TCP filter and counted as IPv4 traffic.
\<close>

theorem ethertype_is_ignored:
  assumes frame: "wire_frame dst src tags proto" and nv: "\<not> vlan_tpid proto" "\<not> vlan_tpid proto'"
    and fits: "base + length (eth_frame dst src tags proto payload) < 2 ^ 32"
    and h: "ipv4_wire h p" "payload = h @ rest"
  shows "xdp_parser_func_06 (ctx_of base (eth_frame dst src tags proto payload)) =
           xdp_parser_func_06 (ctx_of base (eth_frame dst src tags proto' payload)) \<and>
         (p = 6 \<longrightarrow> xdp_parser_func_06 (ctx_of base (eth_frame dst src tags proto payload)) = Some XDP_DROP) \<and>
         (p = 6 \<longrightarrow> HDR_IPV4 \<in> hits_04 (ctx_of base (eth_frame dst src tags proto payload)))"
proof -
  have frame': "wire_frame dst src tags proto'" using frame nv by (auto simp: wire_frame_def)
  have fits': "base + length (eth_frame dst src tags proto' payload) < 2 ^ 32"
    using fits by (simp add: eth_frame_def)
  have at: "bytes_at (ctx_of base bs) (pdata (ctx_of base bs)) bs" if "base + length bs < 2 ^ 32" for bs
    using ctx_of_bytes_at [OF that] that by (simp add: ctx_of_pdata)
  have ip: "\<exists>q r. ip_header (ctx_of base (eth_frame dst src tags t payload)) =
      Some \<lparr>pr_ret = uint p, pr_pos = q, pr_hdr = r\<rparr>"
    if "wire_frame dst src tags t" "base + length (eth_frame dst src tags t payload) < 2 ^ 32" for t
    using ip_header_wire(1) [OF that(1) h(1), of "ctx_of base (eth_frame dst src tags t payload)" rest]
      at [OF that(2)] h(2) by auto
  have six: "uint p = 6 \<longleftrightarrow> p = 6" by (simp add: word_uint_eq_iff)
  have v: "xdp_parser_func_06 (ctx_of base (eth_frame dst src tags t payload)) =
      Some (if p = 6 then XDP_DROP else XDP_PASS)"
    if "wire_frame dst src tags t" "base + length (eth_frame dst src tags t payload) < 2 ^ 32" for t
    using ip [OF that] six by (auto simp: xdp_parser_func_06_ip_header)
  have "HDR_IPV4 \<in> hits_04 (ctx_of base (eth_frame dst src tags proto payload))" if "p = 6"
    using ip [OF frame fits] that by (auto simp: hits_04_def traffic_of_def c_consts)
  then show ?thesis using v [OF frame fits] v [OF frame' fits'] by simp
qed

theorem ethertype_is_ignored_witness:
  "xdp_parser_func_06 (ctx_of 0 (eth_frame (replicate 6 1) (replicate 6 2) [] ETH_P_IPV6
     (plain_ipv4 6))) = Some XDP_DROP"
proof -
  have "wire_frame (replicate 6 1) (replicate 6 2) [] ETH_P_IPV6"
    "\<not> vlan_tpid ETH_P_IPV6" "\<not> vlan_tpid ETH_P_IP"
    by (simp_all add: wire_frame_def vlan_tpid_def VLAN_MAX_DEPTH_def c_consts)
  from ethertype_is_ignored [OF this _ ipv4_wire_plain, of 0 "plain_ipv4 6" 6 "[]", THEN conjunct2, THEN conjunct1]
  show ?thesis by (simp add: eth_frame_def length_plain_ipv4)
qed

end
