(* ===== verification/Rewrite.thy ===== *)
theory Rewrite
  imports Parsing
begin

text \<open>
  The packet rewriting helpers of \<^verbatim>\<open>common/rewrite_helpers.h\<close>: popping and pushing a VLAN
  tag and swapping addresses. The kernel helper \<^verbatim>\<open>bpf_xdp_adjust_head\<close> is a parameter: it
  takes the context and the signed displacement and yields the error code and the context
  with its new packet pointers.
\<close>

unbundle bit_operations_syntax

section \<open>The operations\<close>

type_synonym adjust_head = "xdp_md \<Rightarrow> int \<Rightarrow> int \<times> xdp_md"

text \<open>
  Its documented behaviour (\<^verbatim>\<open>include/uapi/linux/bpf.h\<close>): on success it returns 0 and moves
  \<^verbatim>\<open>data\<close> by the displacement, keeping the packet bytes it does not cut off where they are;
  on failure it returns a negative error and changes nothing.
\<close>

definition adjust_head_ok :: "adjust_head \<Rightarrow> bool" where
  "adjust_head_ok adj \<longleftrightarrow> (\<forall>c delta. case adj c delta of (err, c') \<Rightarrow>
     (if err = 0
      then int (pdata c') = int (pdata c) + delta \<and> pend c' = pend c \<and>
           (\<forall>a. pdata c \<le> a \<and> pdata c' \<le> a \<and> a < pend c \<longrightarrow> mem c' a = mem c a)
      else err < 0 \<and> c' = c))"

definition vlan_tag_pop :: "adjust_head \<Rightarrow> xdp_md \<Rightarrow> nat \<Rightarrow> (int \<times> xdp_md) option" where
  "vlan_tag_pop adj c eth = do {
     proto \<leftarrow> eth_h_proto c eth;
     if \<not> proto_is_vlan proto then Some (- 1, c)
     else do {
       let vlh = eth + sz_ethhdr;
       if vlh + sz_vlan_hdr > pend c then Some (- 1, c)
       else do {
         tci \<leftarrow> vlan_TCI c vlh;
         let vlid = uint (bpf_ntohs tci);
         h_proto \<leftarrow> vlan_encapsulated_proto c vlh;
         eth_cpy \<leftarrow> ld_bytes c eth sz_ethhdr;
         let (err, c) = adj c (int sz_vlan_hdr);
         if err \<noteq> 0 then Some (- 1, c)
         else do {
           let eth = pdata c;
           if eth + sz_ethhdr > pend c then Some (- 1, c)
           else do {
             c \<leftarrow> st_bytes c eth eth_cpy;
             c \<leftarrow> st16 c (eth + 12) h_proto;
             Some (vlid, c)
           }
         }
       }
     }
   }"

definition vlan_tag_push :: "adjust_head \<Rightarrow> xdp_md \<Rightarrow> nat \<Rightarrow> int \<Rightarrow> (int \<times> xdp_md) option" where
  "vlan_tag_push adj c eth vlid = do {
     eth_cpy \<leftarrow> ld_bytes c eth sz_ethhdr;
     let (err, c) = adj c (0 - int sz_vlan_hdr);
     if err \<noteq> 0 then Some (- 1, c)
     else do {
       let eth = pdata c;
       if eth + sz_ethhdr > pend c then Some (- 1, c)
       else do {
         c \<leftarrow> st_bytes c eth eth_cpy;
         let vlh = eth + sz_ethhdr;
         if vlh + sz_vlan_hdr > pend c then Some (- 1, c)
         else do {
           c \<leftarrow> st16 c vlh (bpf_htons (word_of_int vlid));
           proto \<leftarrow> eth_h_proto c eth;
           c \<leftarrow> st16 c (vlh + 2) proto;
           c \<leftarrow> st16 c (eth + 12) (bpf_htons ETH_P_8021Q);
           Some (0, c)
         }
       }
     }
   }"

text \<open>
  The address swaps: the Ethernet source is at offset 6 and the destination at 0, the IPv6
  source at 8 and destination at 24, the IPv4 source at 12 and destination at 16.
\<close>

definition swap_src_dst_mac :: "xdp_md \<Rightarrow> nat \<Rightarrow> xdp_md option" where
  "swap_src_dst_mac c eth = do {
     h_tmp \<leftarrow> ld_bytes c (eth + 6) 6;
     dst \<leftarrow> ld_bytes c eth 6;
     c \<leftarrow> st_bytes c (eth + 6) dst;
     st_bytes c eth h_tmp
   }"

definition swap_src_dst_ipv6 :: "xdp_md \<Rightarrow> nat \<Rightarrow> xdp_md option" where
  "swap_src_dst_ipv6 c ipv6 = do {
     tmp \<leftarrow> ld_bytes c (ipv6 + 8) 16;
     daddr \<leftarrow> ld_bytes c (ipv6 + 24) 16;
     c \<leftarrow> st_bytes c (ipv6 + 8) daddr;
     st_bytes c (ipv6 + 24) tmp
   }"

definition swap_src_dst_ipv4 :: "xdp_md \<Rightarrow> nat \<Rightarrow> xdp_md option" where
  "swap_src_dst_ipv4 c iphdr = do {
     tmp \<leftarrow> ld_bytes c (iphdr + 12) 4;
     daddr \<leftarrow> ld_bytes c (iphdr + 16) 4;
     c \<leftarrow> st_bytes c (iphdr + 12) daddr;
     st_bytes c (iphdr + 16) tmp
   }"

section \<open>Swapping two disjoint fields\<close>

definition swap_mem :: "nat \<Rightarrow> nat \<Rightarrow> nat \<Rightarrow> (nat \<Rightarrow> u8) \<Rightarrow> nat \<Rightarrow> u8" where
  "swap_mem a b n m x =
     (if a \<le> x \<and> x < a + n then m (b + (x - a))
      else if b \<le> x \<and> x < b + n then m (a + (x - b)) else m x)"

lemma upd_bytes_map:
  "upd_bytes m a (map f [b..<b + n]) x = (if a \<le> x \<and> x < a + n then f (b + (x - a)) else m x)"
proof (cases "a \<le> x \<and> x < a + n")
  case True
  then have "x - a < n" by arith
  with True show ?thesis by (simp add: upd_bytes_def)
qed (auto simp: upd_bytes_def)

lemma swap_mem_eq:
  assumes "a + n \<le> b \<or> b + n \<le> a"
  shows "upd_bytes (upd_bytes m a (map m [b..<b + n])) b (map m [a..<a + n]) = swap_mem a b n m"
proof
  fix x
  show "upd_bytes (upd_bytes m a (map m [b..<b + n])) b (map m [a..<a + n]) x = swap_mem a b n m x"
    using assms unfolding upd_bytes_map swap_mem_def by auto
qed

lemma swap_mem_in:
  assumes "a + n \<le> b \<or> b + n \<le> a" and "k < n"
  shows "swap_mem a b n m (a + k) = m (b + k)" and "swap_mem a b n m (b + k) = m (a + k)"
  using assms by (auto simp: swap_mem_def)

lemma swap_mem_out:
  "x < a \<or> a + n \<le> x \<Longrightarrow> x < b \<or> b + n \<le> x \<Longrightarrow> swap_mem a b n m x = m x"
  by (auto simp: swap_mem_def)

lemma swap_mem_involution:
  assumes "a + n \<le> b \<or> b + n \<le> a"
  shows "swap_mem a b n (swap_mem a b n m) = m"
proof
  fix x
  have at: "swap_mem a b n (swap_mem a b n m) (a + k) = m (a + k)"
    "swap_mem a b n (swap_mem a b n m) (b + k) = m (b + k)" if "k < n" for k
    using that by (simp_all add: swap_mem_in [OF assms])
  show "swap_mem a b n (swap_mem a b n m) x = m x"
  proof (cases "(a \<le> x \<and> x < a + n) \<or> (b \<le> x \<and> x < b + n)")
    case True
    then have "x = a + (x - a) \<and> x - a < n \<or> x = b + (x - b) \<and> x - b < n" by arith
    then show ?thesis using at by metis
  qed (auto simp: swap_mem_out not_less)
qed

text \<open>Two equal-sized fields the code exchanges through a temporary.\<close>

locale field_swap =
  fixes swap :: "xdp_md \<Rightarrow> nat \<Rightarrow> xdp_md option" and a b n hsize :: nat
  assumes fits: "a + n \<le> hsize" "b + n \<le> hsize" and disj: "a + n \<le> b \<or> b + n \<le> a"
    and swaps: "pdata c \<le> h \<Longrightarrow> h + hsize \<le> pend c \<Longrightarrow>
      swap c h = Some (c\<lparr>mem := swap_mem (h + a) (h + b) n (mem c)\<rparr>)"
begin

lemma first_field:
  "pdata c \<le> h \<Longrightarrow> h + hsize \<le> pend c \<Longrightarrow> swap c h = Some c' \<Longrightarrow>
   map (mem c') [h + a..<h + a + n] = map (mem c) [h + b..<h + b + n]"
  using disj by (auto simp: swaps swap_mem_in intro!: nth_equalityI)

lemma second_field:
  "pdata c \<le> h \<Longrightarrow> h + hsize \<le> pend c \<Longrightarrow> swap c h = Some c' \<Longrightarrow>
   map (mem c') [h + b..<h + b + n] = map (mem c) [h + a..<h + a + n]"
  using disj by (auto simp: swaps swap_mem_in intro!: nth_equalityI)

lemma frame:
  "pdata c \<le> h \<Longrightarrow> h + hsize \<le> pend c \<Longrightarrow> swap c h = Some c' \<Longrightarrow>
   x < h + a \<or> h + a + n \<le> x \<Longrightarrow> x < h + b \<or> h + b + n \<le> x \<Longrightarrow> mem c' x = mem c x"
  by (auto simp: swaps swap_mem_out)

lemma involution:
  assumes "pdata c \<le> h" and "h + hsize \<le> pend c"
  shows "do { c' \<leftarrow> swap c h; swap c' h } = Some c"
  using assms disj by (simp add: swaps swap_mem_involution)

end

interpretation mac: field_swap swap_src_dst_mac 6 0 6 sz_ethhdr
  by unfold_locales (simp_all add: swap_src_dst_mac_def flip: swap_mem_eq)

interpretation ipv6: field_swap swap_src_dst_ipv6 8 24 16 sz_ipv6hdr
  by unfold_locales (simp_all add: swap_src_dst_ipv6_def flip: swap_mem_eq)

interpretation ipv4: field_swap swap_src_dst_ipv4 12 16 4 sz_iphdr
  by unfold_locales (simp_all add: swap_src_dst_ipv4_def flip: swap_mem_eq)

section \<open>Pushing and popping\<close>

lemma adjust_head_okD:
  assumes "adjust_head_ok adj" and "adj c delta = (0, c')"
  shows "int (pdata c') = int (pdata c) + delta" and "pend c' = pend c"
    and "pdata c \<le> a \<Longrightarrow> pdata c' \<le> a \<Longrightarrow> a < pend c \<Longrightarrow> mem c' a = mem c a"
  using assms unfolding adjust_head_ok_def
  by (auto dest!: spec [of _ c] spec [of _ delta])

text \<open>
  What a successful push leaves behind: the packet is four bytes longer at the front; the
  addresses have moved down, and the tag sits between them and the old EtherType.
\<close>

lemma vlan_tag_push_effect:
  assumes adj: "adjust_head_ok adj" and fits: "pdata c + sz_ethhdr \<le> pend c"
    and push: "vlan_tag_push adj c (pdata c) vlid = Some (0, c')"
  shows "pdata c' + 4 = pdata c \<and> pend c' = pend c \<and>
    (\<forall>k<12. mem c' (pdata c' + k) = mem c (pdata c + k)) \<and>
    ld16 c' (pdata c' + 12) = Some (bpf_htons ETH_P_8021Q) \<and>
    ld16 c' (pdata c' + 14) = Some (bpf_htons (word_of_int vlid)) \<and>
    (\<forall>a. pdata c' + 16 \<le> a \<and> a < pend c \<longrightarrow> mem c' a = mem c a)"
proof -
  define b where "b = pdata c'"
  obtain err d where e: "adj c (0 - int sz_vlan_hdr) = (err, d)" by fastforce
  have "err = 0" using push fits e by (auto simp: vlan_tag_push_def Let_def split: if_splits)
  with e have e: "adj c (0 - int sz_vlan_hdr) = (0, d)" by simp
  note d = adjust_head_okD [OF adj e]
  have len: "pdata d + 4 = pdata c" "pend d = pend c" using d(1,2) by simp_all
  let ?M = "upd_bytes (mem d) (pdata d) (map (mem c) [pdata c..<pdata c + 14])"
  have c': "c' = d\<lparr>mem := ?M
      (pdata d + 14 := lo8 (bpf_htons (word_of_int vlid)),
       pdata d + 15 := hi8 (bpf_htons (word_of_int vlid)),
       pdata d + 16 := ?M (pdata d + 12), pdata d + 17 := ?M (pdata d + 13),
       pdata d + 12 := lo8 (bpf_htons ETH_P_8021Q), pdata d + 13 := hi8 (bpf_htons ETH_P_8021Q))\<rparr>"
    using push fits e len by (simp add: vlan_tag_push_def Let_def eth_h_proto_def add.commute)
  have b: "b = pdata d" "pdata c = b + 4" using len by (simp_all add: b_def c')
  have M: "?M (b + k) = mem c (b + 4 + k)" if "k < 14" for k
    using that b by (simp add: upd_bytes_def)
  have "\<forall>k<12. mem c' (b + k) = mem c (pdata c + k)"
    using M b by (simp add: c')
  moreover have "mem c' a = mem c a" if a: "b + 16 \<le> a" "a < pend c" for a
  proof -
    consider "a = b + 16" | "a = b + 17" | "b + 18 \<le> a" using a(1) by arith
    then show ?thesis
    proof cases
      case 3
      then have "a \<ge> pdata c" "a \<ge> pdata d" using b by simp_all
      then have "mem d a = mem c a" using d(3) a(2) by simp
      with 3 b show ?thesis by (simp add: c' upd_bytes_def)
    qed (use M [of 12] M [of 13] b in \<open>simp_all add: c' add.commute\<close>)
  qed
  moreover have "ld16 c' (b + 12) = Some (bpf_htons ETH_P_8021Q)"
    "ld16 c' (b + 14) = Some (bpf_htons (word_of_int vlid))"
    using b fits len by (simp_all add: c')
  ultimately show ?thesis using len by (simp add: b_def c')
qed

text \<open>What a successful pop of a tagged frame leaves behind, and what it returns.\<close>

lemma vlan_tag_pop_effect:
  assumes adj: "adjust_head_ok adj" and pop: "vlan_tag_pop adj c (pdata c) = Some (r, c')"
    and r: "r \<noteq> - 1"
  shows "pdata c + 18 \<le> pend c \<and> pdata c' = pdata c + 4 \<and> pend c' = pend c \<and>
    r = uint (bpf_ntohs (le16 (mem c (pdata c + 14)) (mem c (pdata c + 15)))) \<and>
    (\<forall>k<12. mem c' (pdata c' + k) = mem c (pdata c + k)) \<and>
    (\<forall>a. pdata c' + 12 \<le> a \<and> a < pend c \<longrightarrow> mem c' a = mem c a)"
proof -
  define b where "b = pdata c"
  have fits: "b + 18 \<le> pend c"
    using pop r by (auto simp: b_def vlan_tag_pop_def Let_def bind_Some_iff split: if_splits)
  obtain err d where e: "adj c (int sz_vlan_hdr) = (err, d)" by fastforce
  have proto: "eth_h_proto c b = Some (le16 (mem c (b + 12)) (mem c (b + 13)))"
    and tci: "vlan_TCI c (b + 14) = Some (le16 (mem c (b + 14)) (mem c (b + 15)))"
    and enc: "vlan_encapsulated_proto c (b + 14) = Some (le16 (mem c (b + 16)) (mem c (b + 17)))"
    using fits b_def
    by (simp_all add: eth_h_proto_def vlan_TCI_def vlan_encapsulated_proto_def add.commute)
  have "err = 0"
    using pop r e fits proto tci enc
    by (auto simp: b_def vlan_tag_pop_def Let_def split: if_splits)
  with e have e: "adj c (int sz_vlan_hdr) = (0, d)" by simp
  note d = adjust_head_okD [OF adj e]
  have len: "pdata d = b + 4" "pend d = pend c" using d(1,2) b_def by simp_all
  let ?M = "upd_bytes (mem d) (pdata d) (map (mem c) [b..<b + 14])"
  have c': "c' = d\<lparr>mem := ?M(pdata d + 12 := mem c (b + 16), pdata d + 13 := mem c (b + 17))\<rparr>"
    and r_eq: "r = uint (bpf_ntohs (le16 (mem c (b + 14)) (mem c (b + 15))))"
    using pop r e fits proto tci enc len
    by (auto simp: b_def [symmetric] vlan_tag_pop_def Let_def add.commute split: if_splits)
  have "\<forall>k<12. mem c' (b + 4 + k) = mem c (b + k)"
    using len by (simp add: c' upd_bytes_def)
  moreover have "mem c' a = mem c a" if a: "b + 16 \<le> a" "a < pend c" for a
  proof -
    consider "a = b + 16" | "a = b + 17" | "b + 18 \<le> a" using a(1) by arith
    then show ?thesis
    proof cases
      case 3
      then have "mem d a = mem c a" using d(3) a(2) len b_def by simp
      with 3 len show ?thesis by (simp add: c' upd_bytes_def)
    qed (use len in \<open>simp_all add: c'\<close>)
  qed
  ultimately show ?thesis
    using fits len r_eq by (simp add: b_def c')
qed

section \<open>Properties\<close>

text \<open>
  C3: pushing a VLAN tag and popping it again restores the packet: whatever
  \<^verbatim>\<open>bpf_xdp_adjust_head\<close> does within its contract, if \<^verbatim>\<open>vlan_tag_push\<close> with identifier
  \<open>vlid\<close> succeeds at the start of a packet that holds an Ethernet header, and
  \<^verbatim>\<open>vlan_tag_pop\<close> on the result succeeds, then the packet has the bounds and the bytes it
  had before, and the pop returned the low 16 bits of \<open>vlid\<close>.
\<close>

theorem vlan_push_pop:
  assumes adj: "adjust_head_ok adj" and fits: "pdata c + sz_ethhdr \<le> pend c"
    and push: "vlan_tag_push adj c (pdata c) vlid = Some (0, c1)"
    and pop: "vlan_tag_pop adj c1 (pdata c1) = Some (r, c2)" and r: "r \<noteq> - 1"
  shows "pdata c2 = pdata c \<and> pend c2 = pend c \<and> pkt_bytes c2 = pkt_bytes c \<and>
    r = vlid mod 2 ^ 16"
proof -
  note 1 = vlan_tag_push_effect [OF adj fits push]
  note 2 = vlan_tag_pop_effect [OF adj pop r]
  have "le16 (mem c1 (pdata c1 + 14)) (mem c1 (pdata c1 + 15)) = bpf_htons (word_of_int vlid)"
    using 1 2 by (simp add: add.commute)
  then have "r = uint (word_of_int vlid :: u16)" using 2 by simp
  then have "r = vlid mod 2 ^ 16" by (simp add: uint_word_of_int)
  moreover have "mem c2 a = mem c a" if a: "pdata c \<le> a" "a < pend c" for a
  proof (cases "a < pdata c + 12")
    case True
    then obtain k where k: "a = pdata c + k" "k < 12" using a(1) by (metis add_less_cancel_left le_Suc_ex)
    have "mem c2 (pdata c2 + k) = mem c1 (pdata c1 + k)" and "mem c1 (pdata c1 + k) = mem c (pdata c + k)"
      using 1 2 k by blast+
    moreover have "pdata c2 = pdata c" using 1 2 by simp
    ultimately show ?thesis using k by metis
  next
    case False
    then show ?thesis using 1 2 a by simp
  qed
  ultimately show ?thesis
    using 1 2 by (simp add: pkt_bytes_def add.commute)
qed

definition move_head :: adjust_head where
  "move_head c delta =
     (if 0 \<le> int (pdata c) + delta \<and> int (pdata c) + delta \<le> int (pend c)
      then (0, c\<lparr>data := word_of_int (int (pdata c) + delta)\<rparr>) else (- 22, c))"

lemma adjust_head_ok_move_head: "adjust_head_ok move_head"
proof -
  have p: "pdata (c\<lparr>data := word_of_int (int (pdata c) + delta)\<rparr>) = nat (int (pdata c) + delta)"
    if "0 \<le> int (pdata c) + delta" "int (pdata c) + delta \<le> int (pend c)" for c delta
    unfolding pdata_data_update
    using that pend_less [of c] by (intro unat_word_of_int_u32) simp_all
  show ?thesis
    unfolding adjust_head_ok_def move_head_def by (auto simp: p pend_data_update simp del: of_int_add of_int_of_nat_eq)
qed

theorem vlan_push_pop_witness:
  "\<exists>c1 r c2. vlan_tag_push move_head (ctx_of 64 (replicate 60 7)) 64 0x12345 = Some (0, c1) \<and>
     vlan_tag_pop move_head c1 60 = Some (r, c2) \<and> r = 0x2345 \<and>
     pkt_bytes c2 = pkt_bytes (ctx_of 64 (replicate 60 7))"
proof -
  let ?c = "ctx_of 64 (replicate 60 (7 :: u8))"
  have c: "pdata ?c = 64" "pend ?c = 124" by (simp_all add: ctx_of_simps)
  obtain c1 where push: "vlan_tag_push move_head ?c (pdata ?c) 0x12345 = Some (0, c1)"
    by (auto simp: c vlan_tag_push_def move_head_def Let_def eth_h_proto_def pdata_data_update
        pend_data_update)
  note eff = vlan_tag_push_effect [OF adjust_head_ok_move_head _ push]
  have p1: "pdata c1 = 60" "pend c1 = 124" using eff c by simp_all
  have "ld16 c1 (pdata c1 + 12) = Some (bpf_htons ETH_P_8021Q)"
    using eff c by (metis add_le_cancel_left le_numeral_extra(4) numeral_le_iff semiring_norm)
  then have 1: "pdata c1 = 60" "pend c1 = 124" "ld16 c1 72 = Some (bpf_htons ETH_P_8021Q)"
    unfolding p1 by simp_all
  obtain r c2 where pop: "vlan_tag_pop move_head c1 (pdata c1) = Some (r, c2)" and r: "r \<noteq> - 1"
    using 1 by (auto simp: vlan_tag_pop_def move_head_def Let_def eth_h_proto_def vlan_TCI_def
        vlan_encapsulated_proto_def pdata_data_update pend_data_update proto_is_vlan_def)
  show ?thesis
    using vlan_push_pop [OF adjust_head_ok_move_head _ push pop r] push pop c 1 by auto
qed

text \<open>
  The address swaps exchange exactly the two address fields: on a header that lies in the
  packet, each swap succeeds, afterwards the destination field holds the old source and
  conversely, every byte outside the two fields is unchanged, and swapping again restores
  the packet. For MAC, IPv6 and IPv4 addresses alike.
\<close>

theorem swaps_exchange_addresses:
  assumes "(swap, src, dst, n, hsize) \<in> set [(swap_src_dst_mac, 6, 0, 6, sz_ethhdr),
      (swap_src_dst_ipv6, 8, 24, 16, sz_ipv6hdr), (swap_src_dst_ipv4, 12, 16, 4, sz_iphdr)]"
    and "pdata c \<le> h" and "h + hsize \<le> pend c"
  shows "\<exists>c'. swap c h = Some c' \<and> swap c' h = Some c \<and>
    map (mem c') [h + src..<h + src + n] = map (mem c) [h + dst..<h + dst + n] \<and>
    map (mem c') [h + dst..<h + dst + n] = map (mem c) [h + src..<h + src + n] \<and>
    (\<forall>x. x \<notin> {h + src..<h + src + n} \<union> {h + dst..<h + dst + n} \<longrightarrow> mem c' x = mem c x)"
proof -
  have fs: "field_swap swap src dst n hsize"
    using assms(1) mac.field_swap_axioms ipv6.field_swap_axioms ipv4.field_swap_axioms by auto
  note bounds = assms(2,3)
  define c' where "c' = c\<lparr>mem := swap_mem (h + src) (h + dst) n (mem c)\<rparr>"
  have sw: "swap c h = Some c'"
    unfolding c'_def by (rule field_swap.swaps [OF fs bounds])
  moreover have "swap c' h = Some c"
    using field_swap.involution [OF fs bounds] sw by simp
  moreover note field_swap.first_field [OF fs bounds sw] field_swap.second_field [OF fs bounds sw]
  moreover have "mem c' x = mem c x"
    if "x \<notin> {h + src..<h + src + n} \<union> {h + dst..<h + dst + n}" for x
    using that by (intro field_swap.frame [OF fs bounds sw]) auto
  ultimately show ?thesis by blast
qed

theorem swaps_exchange_addresses_witness:
  "\<exists>c'. swap_src_dst_mac (ctx_of 0 [1, 2, 3, 4, 5, 6, 7, 8, 9, 10, 11, 12, 8, 0]) 0 = Some c' \<and>
     map (mem c') [0..<6] = [7, 8, 9, 10, 11, 12]"
proof -
  let ?c = "ctx_of 0 ([1, 2, 3, 4, 5, 6, 7, 8, 9, 10, 11, 12, 8, 0] :: u8 list)"
  have "pdata ?c \<le> 0" "0 + sz_ethhdr \<le> pend ?c" by (simp_all add: ctx_of_simps)
  from swaps_exchange_addresses [OF _ this, of swap_src_dst_mac 6 0 6]
  obtain c' where "swap_src_dst_mac ?c 0 = Some c'"
    and "map (mem c') [0..<6] = map (mem ?c) [6..<12]" by auto
  then show ?thesis by (simp add: ctx_of_def upt_rec)
qed

text \<open>
  The comment on \<^verbatim>\<open>vlan_tag_pop\<close> promises the popped VLAN ID, but what a successful pop
  returns is the whole tag control information: it is the 12-bit identifier exactly when the
  priority and drop-eligible bits are zero.
\<close>

theorem vlan_tag_pop_returns_tci:
  assumes "adjust_head_ok adj" and "vlan_tag_pop adj c (pdata c) = Some (r, c')" and "r \<noteq> - 1"
    and tci: "vlan_TCI c (pdata c + sz_ethhdr) = Some tci"
  shows "r = uint (bpf_ntohs tci) \<and>
    (r = uint (bpf_ntohs tci AND VLAN_VID_MASK) \<longleftrightarrow> bpf_ntohs tci AND 0xF000 = 0)"
proof -
  have r: "r = uint (bpf_ntohs tci)"
    using vlan_tag_pop_effect [OF assms(1-3)] tci by (simp add: vlan_TCI_def add.commute)
  have "bpf_ntohs tci AND VLAN_VID_MASK = bpf_ntohs tci \<longleftrightarrow> bpf_ntohs tci AND 0xF000 = 0"
    unfolding c_consts by (rule and_mask_split)
  then show ?thesis using r by (metis word_uint_eqI)
qed

theorem vlan_tag_pop_returns_tci_witness:
  "\<exists>c'. vlan_tag_pop move_head (ctx_of 0 (replicate 12 1 @ [0x81, 0, 0x60, 0x64, 8, 0])) 0 =
     Some (0x6064, c')"
proof -
  let ?c = "ctx_of 0 (replicate 12 1 @ [0x81, 0, 0x60, 0x64, 8, 0])"
  have c: "pdata ?c = 0" "pend ?c = 18" by (simp_all add: ctx_of_simps)
  have m: "mem ?c 12 = 0x81" "mem ?c 13 = 0" "mem ?c 14 = 0x60" "mem ?c 15 = 0x64"
    by (simp_all add: ctx_of_def nth_append)
  have tci: "vlan_TCI ?c (pdata ?c + sz_ethhdr) = Some (le16 0x60 0x64)"
    by (simp add: vlan_TCI_def c m)
  have proto: "eth_h_proto ?c 0 = Some (bpf_htons ETH_P_8021Q)"
    by (simp add: eth_h_proto_def c m c_consts bpf_htons_def bswap16_def le16_def)
  obtain r c' where pop: "vlan_tag_pop move_head ?c (pdata ?c) = Some (r, c')" and r: "r \<noteq> - 1"
    by (auto simp: c proto vlan_tag_pop_def move_head_def Let_def vlan_TCI_def
        vlan_encapsulated_proto_def pdata_data_update pend_data_update proto_is_vlan_def)
  have "r = uint (bpf_ntohs (le16 0x60 0x64))"
    using vlan_tag_pop_returns_tci [OF adjust_head_ok_move_head pop r tci] by blast
  then show ?thesis using pop c by (simp add: bpf_ntohs_def) (simp add: le16_def)
qed

end
