(* ===== verification/Jhash.thy ===== *)
theory Jhash
  imports Prelude
begin

text \<open>
  The Jenkins hash of \<^verbatim>\<open>headers/jhash.h\<close>. A key is the list of bytes (or 32-bit words) the
  pointer leads to; reading past its end is \<^term>\<open>None\<close>. The word loads of the byte version
  are little-endian.
\<close>

unbundle bit_operations_syntax

section \<open>Mixing\<close>

definition rol32 :: "u32 \<Rightarrow> u32 \<Rightarrow> u32" where
  "rol32 word shift = push_bit (unat shift) word OR drop_bit (unat ((- shift) AND 31)) word"

type_synonym hstate = "u32 \<times> u32 \<times> u32"

definition jhash_mix :: "hstate \<Rightarrow> hstate" where
  "jhash_mix s = (case s of (a, b, c) \<Rightarrow>
     let a = a - c; a = a XOR rol32 c 4; c = c + b;
          b = b - a; b = b XOR rol32 a 6; a = a + c;
          c = c - b; c = c XOR rol32 b 8; b = b + a;
          a = a - c; a = a XOR rol32 c 16; c = c + b;
          b = b - a; b = b XOR rol32 a 19; a = a + c;
          c = c - b; c = c XOR rol32 b 4; b = b + a
      in (a, b, c))"

definition jhash_final :: "hstate \<Rightarrow> hstate" where
  "jhash_final s = (case s of (a, b, c) \<Rightarrow>
     let c = c XOR b; c = c - rol32 b 14;
          a = a XOR c; a = a - rol32 c 11;
          b = b XOR a; b = b - rol32 a 25;
          c = c XOR b; c = c - rol32 b 16;
          a = a XOR c; a = a - rol32 c 4;
          b = b XOR a; b = b - rol32 a 14;
          c = c XOR b; c = c - rol32 b 24
      in (a, b, c))"

definition JHASH_INITVAL :: u32 where "JHASH_INITVAL = 0xdeadbeef"

section \<open>jhash: a sequence of bytes\<close>

text \<open>The \<^verbatim>\<open>while (length > 12)\<close> loop: state, key pointer and remaining length at its exit.\<close>

function jhash_loop :: "hstate \<Rightarrow> u8 list \<Rightarrow> nat \<Rightarrow> (hstate \<times> u8 list \<times> nat) option" where
  "jhash_loop (a, b, c) k len =
     (if 12 < len then do {
        x \<leftarrow> rd32 k 0; y \<leftarrow> rd32 k 4; z \<leftarrow> rd32 k 8;
        jhash_loop (jhash_mix (a + x, b + y, c + z)) (drop 12 k) (len - 12)
      }
      else Some ((a, b, c), k, len))"
  by pat_completeness auto
termination
  by (relation "measure (\<lambda>(s, k, len). len)") auto

text \<open>One label of the falling-through \<^verbatim>\<open>switch\<close>: \<^verbatim>\<open>case n + 1: x += (u32)k[n] << sh;\<close>\<close>

definition add_byte :: "u8 list \<Rightarrow> nat \<Rightarrow> nat \<Rightarrow> nat \<Rightarrow> u32 \<Rightarrow> u32 option" where
  "add_byte k len n sh x =
     (if n < len then do { b \<leftarrow> rd k n; Some (x + push_bit sh (ucast b)) } else Some x)"

definition jhash_tail :: "hstate \<Rightarrow> u8 list \<Rightarrow> nat \<Rightarrow> hstate option" where
  "jhash_tail s k len = (case s of (a, b, c) \<Rightarrow> do {
     c \<leftarrow> add_byte k len 11 24 c; c \<leftarrow> add_byte k len 10 16 c;
     c \<leftarrow> add_byte k len 9 8 c; c \<leftarrow> add_byte k len 8 0 c;
     b \<leftarrow> add_byte k len 7 24 b; b \<leftarrow> add_byte k len 6 16 b;
     b \<leftarrow> add_byte k len 5 8 b; b \<leftarrow> add_byte k len 4 0 b;
     a \<leftarrow> add_byte k len 3 24 a; a \<leftarrow> add_byte k len 2 16 a;
     a \<leftarrow> add_byte k len 1 8 a; a \<leftarrow> add_byte k len 0 0 a;
     Some (if 1 \<le> len then jhash_final (a, b, c) else (a, b, c))
   })"

definition jhash :: "u8 list \<Rightarrow> u32 \<Rightarrow> u32 \<Rightarrow> u32 option" where
  "jhash key key_len initval = do {
     let a = JHASH_INITVAL + key_len + initval;
     (s, k, len) \<leftarrow> jhash_loop (a, a, a) key (unat key_len);
     (a, b, c) \<leftarrow> jhash_tail s k len;
     Some c
   }"

section \<open>jhash2: an array of words\<close>

function jhash2_loop :: "hstate \<Rightarrow> u32 list \<Rightarrow> nat \<Rightarrow> (hstate \<times> u32 list \<times> nat) option" where
  "jhash2_loop (a, b, c) k len =
     (if 3 < len then do {
        x \<leftarrow> rd k 0; y \<leftarrow> rd k 1; z \<leftarrow> rd k 2;
        jhash2_loop (jhash_mix (a + x, b + y, c + z)) (drop 3 k) (len - 3)
      }
      else Some ((a, b, c), k, len))"
  by pat_completeness auto
termination
  by (relation "measure (\<lambda>(s, k, len). len)") auto

definition add_word :: "u32 list \<Rightarrow> nat \<Rightarrow> nat \<Rightarrow> u32 \<Rightarrow> u32 option" where
  "add_word k len n x = (if n < len then do { w \<leftarrow> rd k n; Some (x + w) } else Some x)"

definition jhash2 :: "u32 list \<Rightarrow> u32 \<Rightarrow> u32 \<Rightarrow> u32 option" where
  "jhash2 key key_len initval = do {
     let a = JHASH_INITVAL + push_bit 2 key_len + initval;
     ((a, b, c), k, len) \<leftarrow> jhash2_loop (a, a, a) key (unat key_len);
     c \<leftarrow> add_word k len 2 c;
     b \<leftarrow> add_word k len 1 b;
     a \<leftarrow> add_word k len 0 a;
     let (a, b, c) = (if 1 \<le> len then jhash_final (a, b, c) else (a, b, c));
     Some c
   }"

section \<open>Fixed numbers of words\<close>

definition jhash_nwords :: "u32 \<Rightarrow> u32 \<Rightarrow> u32 \<Rightarrow> u32 \<Rightarrow> u32" where
  "jhash_nwords a b c initval =
     snd (snd (jhash_final (a + initval, b + initval, c + initval)))"

definition jhash_3words :: "u32 \<Rightarrow> u32 \<Rightarrow> u32 \<Rightarrow> u32 \<Rightarrow> u32" where
  "jhash_3words a b c initval = jhash_nwords a b c (initval + JHASH_INITVAL + push_bit 2 3)"

definition jhash_2words :: "u32 \<Rightarrow> u32 \<Rightarrow> u32 \<Rightarrow> u32" where
  "jhash_2words a b initval = jhash_nwords a b 0 (initval + JHASH_INITVAL + push_bit 2 2)"

definition jhash_1word :: "u32 \<Rightarrow> u32 \<Rightarrow> u32" where
  "jhash_1word a initval = jhash_nwords a 0 0 (initval + JHASH_INITVAL + push_bit 2 1)"

declare jhash_loop.simps [simp del] jhash2_loop.simps [simp del]

section \<open>Bytes of a word\<close>

definition key_bytes :: "u32 list \<Rightarrow> u8 list" where
  "key_bytes ws = concat (map word_bytes ws)"

lemma or_eq_plus: "x AND y = 0 \<Longrightarrow> x OR y = x + (y :: u32)"
  using word_plus_and_or [of x y] by simp

lemma le32_sum:
  "le32 b0 b1 b2 b3 =
     push_bit 24 (ucast b3) + push_bit 16 (ucast b2) + push_bit 8 (ucast b1) + ucast b0"
proof -
  have z: "push_bit i (ucast b) AND push_bit j (ucast d) = (0 :: u32)"
    if "i + 8 \<le> j" for i j and b d :: u8
    using that by (intro bit_word_eqI) (auto simp: bit_simps dest: bit_imp_le_length)
  have zs: "ucast b0 AND push_bit 8 (ucast b1) = (0 :: u32)"
    "ucast b0 AND push_bit 16 (ucast b2) = (0 :: u32)" "ucast b0 AND push_bit 24 (ucast b3) = (0 :: u32)"
    using z [of 0 _ b0] by simp_all
  let ?B = "push_bit 8 (ucast b1) :: u32" and ?C = "push_bit 16 (ucast b2) :: u32"
    and ?D = "push_bit 24 (ucast b3) :: u32"
  have "?C OR ?D = ?C + ?D" by (rule or_eq_plus) (simp add: z)
  moreover have "?B OR (?C OR ?D) = ?B + (?C OR ?D)"
    by (rule or_eq_plus) (simp add: z bit.conj_disj_distrib)
  moreover have "ucast b0 OR (?B OR (?C OR ?D)) = ucast b0 + (?B OR (?C OR ?D))"
    by (rule or_eq_plus) (simp add: zs bit.conj_disj_distrib)
  ultimately show ?thesis unfolding le32_def by (simp only: add_ac)
qed

lemma rd32_Cons [simp]: "rd32 (b0 # b1 # b2 # b3 # k) 0 = Some (le32 b0 b1 b2 b3)"
  by (simp add: rd32_def rd_def)

lemma rd32_word_bytes:
  "rd32 (word_bytes x @ k) 0 = Some x"
  "rd32 (word_bytes x @ word_bytes y @ k) 4 = Some y"
  "rd32 (word_bytes x @ word_bytes y @ word_bytes z @ k) 8 = Some z"
  by (simp_all add: rd32_def rd_def word_bytes_def le32_word_bytes)

lemma key_bytes_simps [simp]:
  "key_bytes [] = []" "key_bytes (w # ws) = word_bytes w @ key_bytes ws"
  by (simp_all add: key_bytes_def)

lemma length_key_bytes [simp]: "length (key_bytes ws) = 4 * length ws"
  by (induction ws) auto

section \<open>The byte loop does what the word loop does\<close>

lemma jhash_loop_key_bytes:
  "\<exists>s' ws'. jhash2_loop s ws (length ws) = Some (s', ws', length ws') \<and> length ws' \<le> 3 \<and>
     jhash_loop s (key_bytes ws) (4 * length ws) = Some (s', key_bytes ws', 4 * length ws')"
proof (induction "length ws" arbitrary: s ws rule: less_induct)
  case less
  obtain a b c where s: "s = (a, b, c)" by (cases s)
  show ?case
  proof (cases "3 < length ws")
    case False
    then show ?thesis
      by (simp add: s jhash_loop.simps [of a b c "key_bytes ws"] jhash2_loop.simps [of a b c ws])
  next
    case True
    then obtain x y z vs where ws: "ws = x # y # z # vs"
      by (metis Suc_le_length_iff Suc_lessD less_eq_Suc_le numeral_3_eq_3)
    let ?s = "jhash_mix (a + x, b + y, c + z)"
    have 2: "jhash2_loop s ws (length ws) = jhash2_loop ?s vs (length vs)"
      using True by (simp add: s ws jhash2_loop.simps [of a b c] rd_def)
    have 1: "jhash_loop s (key_bytes ws) (4 * length ws) =
        jhash_loop ?s (key_bytes vs) (4 * length vs)"
      using True by (simp add: s ws jhash_loop.simps [of a b c] rd32_word_bytes)
    show ?thesis
      unfolding 1 2 using less [of vs ?s] ws by simp
  qed
qed

lemma nth_key_bytes: "j < length ws \<Longrightarrow> i < 4 \<Longrightarrow> key_bytes ws ! (4 * j + i) = word_bytes (ws ! j) ! i"
proof (induction ws arbitrary: j)
  case Nil
  then show ?case by simp
next
  case (Cons w ws)
  then show ?case by (cases j) (simp_all add: nth_append)
qed

lemma word_bytes_sum:
  "push_bit 24 (ucast (word_bytes w ! 3)) + push_bit 16 (ucast (word_bytes w ! 2)) +
   push_bit 8 (ucast (word_bytes w ! 1)) + ucast (word_bytes w ! 0) = w"
  using le32_sum [of "ucast w" "ucast (drop_bit 8 w)" "ucast (drop_bit 16 w)" "ucast (drop_bit 24 w)"]
  unfolding le32_word_bytes by (simp add: word_bytes_def numeral_2_eq_2 numeral_3_eq_3)

definition add_word4 :: "u8 list \<Rightarrow> nat \<Rightarrow> nat \<Rightarrow> u32 \<Rightarrow> u32 option" where
  "add_word4 k len j x = do {
     x \<leftarrow> add_byte k len (4 * j + 3) 24 x;
     x \<leftarrow> add_byte k len (4 * j + 2) 16 x;
     x \<leftarrow> add_byte k len (4 * j + 1) 8 x;
     add_byte k len (4 * j) 0 x
   }"

text \<open>Four labels of the byte switch add one word, as one label of the word switch does.\<close>

lemma add_word4_key_bytes:
  "add_word4 (key_bytes ws) (4 * length ws) j x = add_word ws (length ws) j x"
proof (cases "j < length ws")
  case True
  then have i: "4 * j + i < 4 * length ws" if "i < 4" for i using that by linarith
  have b: "add_byte (key_bytes ws) (4 * length ws) (4 * j + i) sh x =
      Some (x + push_bit sh (ucast (word_bytes (ws ! j) ! i)))" if "i < 4" for i sh x
    using i [OF that] that True by (simp add: add_byte_def rd_def nth_key_bytes)
  show ?thesis
    using b [of 0 0] b [of 1] b [of 2] b [of 3] True word_bytes_sum [of "ws ! j"]
    by (simp add: add_word4_def add_word_def rd_def add.assoc)
next
  case False
  then show ?thesis by (simp add: add_word4_def add_word_def add_byte_def)
qed

lemma jhash_tail_add_word4:
  "jhash_tail (a, b, c) k len = do {
     c \<leftarrow> add_word4 k len 2 c; b \<leftarrow> add_word4 k len 1 b; a \<leftarrow> add_word4 k len 0 a;
     Some (if 1 \<le> len then jhash_final (a, b, c) else (a, b, c))
   }"
  by (simp add: jhash_tail_def add_word4_def del: add_2_eq_Suc')

section \<open>Properties\<close>

text \<open>
  C39: the hash of the bytes of an array of words, with its length in bytes, is the hash of the
  array with its length in words (below 2 to the 30th, so that the length in bytes is a
  32-bit number), and neither reads past the end of the key.
\<close>

theorem jhash_bytes_eq_words:
  assumes "length ws < 2 ^ 30"
  shows "\<exists>h. jhash (key_bytes ws) (of_nat (4 * length ws)) iv = Some h \<and>
             jhash2 ws (of_nat (length ws)) iv = Some h"
proof -
  let ?n = "of_nat (length ws) :: u32" and ?m = "of_nat (4 * length ws) :: u32"
  have n: "unat ?n = length ws" and m: "unat ?m = 4 * length ws"
    using assms by (simp_all add: unsigned_of_nat take_bit_nat_eq_self del: of_nat_mult)
  have shift: "push_bit 2 ?n = ?m" by (simp add: push_bit_eq_mult mult.commute)
  let ?a = "JHASH_INITVAL + ?m + iv"
  obtain a b c ws' where
    w: "jhash2_loop (?a, ?a, ?a) ws (length ws) = Some ((a, b, c), ws', length ws')" and
    k: "jhash_loop (?a, ?a, ?a) (key_bytes ws) (4 * length ws) =
        Some ((a, b, c), key_bytes ws', 4 * length ws')"
    using jhash_loop_key_bytes [of "(?a, ?a, ?a)" ws] by auto
  have r: "\<exists>y. add_word ws' (length ws') j x = Some y" for j x by (simp add: add_word_def rd_def)
  obtain c' b' a' where t: "add_word ws' (length ws') 2 c = Some c'"
    "add_word ws' (length ws') 1 b = Some b'" "add_word ws' (length ws') 0 a = Some a'"
    using r by metis
  show ?thesis
    unfolding jhash_def jhash2_def n m shift Let_def w k
    using t by (simp add: jhash_tail_add_word4 add_word4_key_bytes split: prod.split)
qed

lemma jhash_bytes_eq_words_witness:
  "\<exists>h. jhash (key_bytes [1, 2, 3, 4]) 16 5 = Some h \<and> jhash2 [1, 2, 3, 4] 4 5 = Some h"
  using jhash_bytes_eq_words [of "[1, 2, 3, 4]" 5] by simp

text \<open>
  The hashes of one, two and three words are the array hash of an array of that length.
\<close>

theorem jhash_nwords_eq_jhash2:
  "jhash2 [a, b, c] 3 iv = Some (jhash_3words a b c iv) \<and>
   jhash2 [a, b] 2 iv = Some (jhash_2words a b iv) \<and>
   jhash2 [a] 1 iv = Some (jhash_1word a iv)"
proof -
  have u: "unat (3 :: u32) = 3" "unat (2 :: u32) = 2" "unat (1 :: u32) = 1" by simp_all
  have "jhash2 [a, b, c] 3 iv = Some (jhash_3words a b c iv)"
    unfolding jhash2_def u jhash_3words_def jhash_nwords_def
    by (simp add: jhash2_loop.simps add_word_def rd_def split_beta ac_simps)
  moreover have "jhash2 [a, b] 2 iv = Some (jhash_2words a b iv)"
    unfolding jhash2_def u jhash_2words_def jhash_nwords_def
    by (simp add: jhash2_loop.simps add_word_def rd_def split_beta ac_simps Let_def)
  moreover have "jhash2 [a] 1 iv = Some (jhash_1word a iv)"
    unfolding jhash2_def u jhash_1word_def jhash_nwords_def
    by (simp add: jhash2_loop.simps add_word_def rd_def split_beta ac_simps Let_def)
  ultimately show ?thesis by blast
qed

end
