(* ===== verification/Params.thy ===== *)
theory Params
  imports Prelude
begin

text \<open>
  Command line parsing of the user-space programs: \<^verbatim>\<open>common/common_params.c\<close> and the
  \<^verbatim>\<open>struct config\<close> of \<^verbatim>\<open>common/common_defines.h\<close>.

  A C string is its list of characters without the terminating NUL; a character array is the
  list of its characters, NUL included, of the array's size. Copying more than an array holds, reading a string
  behind the end of an array and following a NULL \<^verbatim>\<open>optarg\<close> are \<open>None\<close>. The calls of the C library the
  code makes on files and sockets are parameters: \<^verbatim>\<open>getopt_long\<close> is a function from the option
  table and the arguments to the sequence of its results (each with \<^verbatim>\<open>optarg\<close>, which may be NULL), or \<open>None\<close> when it reads
  past the end of the table, which the code gives it without the terminating entry; and
  \<^verbatim>\<open>if_nametoindex\<close> is a function from names. \<^verbatim>\<open>exit(c)\<close> is a value of the left summand.
\<close>

unbundle bit_operations_syntax

section \<open>C strings and character arrays\<close>

abbreviation (input) NUL :: char where "NUL \<equiv> CHR 0x00"

definition cstr :: "string \<Rightarrow> string" where
  "cstr buf = takeWhile (\<lambda>c. c \<noteq> NUL) buf"

definition terminated :: "string \<Rightarrow> bool" where
  "terminated buf \<longleftrightarrow> NUL \<in> set buf"

text \<open>\<^verbatim>\<open>strncpy(dest, s, n)\<close> into an array of \<open>n\<close> characters: its new contents.\<close>

definition strncpy :: "string \<Rightarrow> nat \<Rightarrow> string" where
  "strncpy s n = take n (s @ replicate n NUL)"

text \<open>The same into an array of any size, and the string that an array holds.\<close>

definition strncpy_to :: "string \<Rightarrow> string \<Rightarrow> nat \<Rightarrow> string option" where
  "strncpy_to dest s n = (if n \<le> length dest then Some (strncpy s n @ drop n dest) else None)"

definition rd_cstr :: "string \<Rightarrow> string option" where
  "rd_cstr buf = (if terminated buf then Some (cstr buf) else None)"

text \<open>
  \<^verbatim>\<open>snprintf(&buf[pos], size, ...)\<close> whose output is \<open>s\<close>; \<open>None\<close> when it writes out of the
  buffer.
\<close>

definition snprintf_at :: "string \<Rightarrow> nat \<Rightarrow> u64 \<Rightarrow> string \<Rightarrow> string option" where
  "snprintf_at buf pos size_arg s =
     (if size_arg = 0 then Some buf
      else let w = take (unat size_arg - 1) s @ [NUL]
            in if pos + length w \<le> length buf
               then Some (take pos buf @ w @ drop (pos + length w) buf) else None)"

lemma length_strncpy [simp]: "length (strncpy s n) = n"
  by (simp add: strncpy_def)

lemma terminated_strncpy:
  assumes "NUL \<notin> set s"
  shows "terminated (strncpy s n) \<longleftrightarrow> length s < n"
proof -
  have "set (take n s) \<subseteq> set s" by (rule set_take_subset)
  then show ?thesis using assms by (auto simp: terminated_def strncpy_def)
qed

lemma strncpy_to_fits [simp]: "length dest = n \<Longrightarrow> strncpy_to dest s n = Some (strncpy s n)"
  by (simp add: strncpy_to_def)

lemma rd_cstr_strncpy: "length s < n \<Longrightarrow> rd_cstr (strncpy s n) = Some (cstr (strncpy s n))"
  by (simp add: rd_cstr_def terminated_def strncpy_def)

lemma cstr_strncpy:
  assumes "NUL \<notin> set s" "length s < n"
  shows "cstr (strncpy s n) = s"
proof -
  obtain k where k: "n - length s = Suc k" using assms by (cases "n - length s") auto
  have "takeWhile (\<lambda>c. c \<noteq> NUL) (s @ replicate (n - length s) NUL) = s"
    using assms(1) by (subst takeWhile_append2) (auto simp: k)
  then show ?thesis using assms(2) by (simp add: cstr_def strncpy_def)
qed

section \<open>Options and configuration\<close>

record coption =
  opt_name :: "string option"
  opt_has_arg :: int
  opt_val :: nat

record option_wrapper =
  wr_option :: coption
  wr_help :: string
  wr_metavar :: "string option"
  wr_required :: bool

datatype name_ptr = Null_name | Ifname_buf | Redirect_ifname_buf

record config =
  xdp_flags :: u32
  ifindex :: u32
  ifname :: name_ptr
  ifname_buf :: string
  redirect_ifindex :: u32
  redirect_ifname :: name_ptr
  redirect_ifname_buf :: string
  do_unload :: bool
  reuse_maps :: bool
  pin_dir :: string
  filename :: string
  progsec :: string
  src_mac :: string
  dest_mac :: string
  xsk_bind_flags :: u16
  xsk_if_queue :: int
  xsk_poll_mode :: bool

definition IF_NAMESIZE :: nat where [c_consts]: "IF_NAMESIZE = 16"
definition EXIT_OK :: int where [c_consts]: "EXIT_OK = 0"
definition EXIT_FAIL :: int where [c_consts]: "EXIT_FAIL = 1"
definition EXIT_FAIL_OPTION :: int where [c_consts]: "EXIT_FAIL_OPTION = 2"
definition EXIT_FAIL_XDP :: int where [c_consts]: "EXIT_FAIL_XDP = 30"
definition EXIT_FAIL_BPF :: int where [c_consts]: "EXIT_FAIL_BPF = 40"

definition XDP_FLAGS_UPDATE_IF_NOEXIST :: u32 where [c_consts]: "XDP_FLAGS_UPDATE_IF_NOEXIST = 1"
definition XDP_FLAGS_SKB_MODE :: u32 where [c_consts]: "XDP_FLAGS_SKB_MODE = 2"
definition XDP_FLAGS_DRV_MODE :: u32 where [c_consts]: "XDP_FLAGS_DRV_MODE = 4"
definition XDP_FLAGS_HW_MODE :: u32 where [c_consts]: "XDP_FLAGS_HW_MODE = 8"
definition XDP_FLAGS_MODES :: u32 where [c_consts]: "XDP_FLAGS_MODES = 14"
definition XDP_COPY :: u16 where [c_consts]: "XDP_COPY = 2"
definition XDP_ZEROCOPY :: u16 where [c_consts]: "XDP_ZEROCOPY = 4"

section \<open>The option table given to getopt\_long\<close>

text \<open>The first loop: the index of the entry without a name; \<open>None\<close> past the array's end.\<close>

fun count_options :: "option_wrapper list \<Rightarrow> nat option" where
  "count_options [] = None"
| "count_options (w # ws) =
     (if opt_name (wr_option w) = None then Some 0 else map_option Suc (count_options ws))"

definition option_wrappers_to_options ::
    "bool \<Rightarrow> option_wrapper list \<Rightarrow> (int + coption list) option" where
  "option_wrappers_to_options malloc_ok wrapper = do {
     num \<leftarrow> count_options wrapper;
     Some (if malloc_ok then Inr (map wr_option (take num wrapper)) else Inl (- 1))
   }"

section \<open>Help text\<close>

definition BUFSIZE :: nat where [c_consts]: "BUFSIZE = 30"

definition print_option :: "option_wrapper \<Rightarrow> string \<Rightarrow> string \<Rightarrow> (string \<times> string) option" where
  "print_option w name buf =
     (let val = opt_val (wr_option w);
          head = (if 64 < val then '' -'' @ [char_of val] @ '','' else ''    '');
          pos = length ('' --'' @ name)
       in do {
         buf \<leftarrow> snprintf_at buf 0 (of_nat BUFSIZE) ('' --'' @ name);
         buf \<leftarrow> (case wr_metavar w of None \<Rightarrow> Some buf
                  | Some m \<Rightarrow> snprintf_at buf pos (of_nat BUFSIZE - of_nat pos) ('' '' @ m));
         Some (head @ cstr buf @ replicate (22 - length (cstr buf)) (CHR '' '') @ ''  '' @
               wr_help w @ [CHR 0x0A], buf)
       })"

fun print_option_list :: "option_wrapper list \<Rightarrow> bool \<Rightarrow> string \<Rightarrow> string option" where
  "print_option_list [] required buf = None"
| "print_option_list (w # ws) required buf =
     (case opt_name (wr_option w) of
        None \<Rightarrow> Some []
      | Some name \<Rightarrow>
          if wr_required w \<noteq> required then print_option_list ws required buf
          else do {
            (line, buf) \<leftarrow> print_option w name buf;
            rest \<leftarrow> print_option_list ws required buf;
            Some (line @ rest)
          })"

definition usage :: "string \<Rightarrow> string \<Rightarrow> option_wrapper list \<Rightarrow> bool \<Rightarrow> string \<Rightarrow> string option" where
  "usage prog_name doc long_options full buf0 =
     (let head = ''Usage: '' @ prog_name @ '' [options]'' @ [CHR 0x0A]
       in if \<not> full
          then Some (head @ ''Use --help (or -h) to see full option list.'' @ [CHR 0x0A])
          else do {
            req \<leftarrow> print_option_list long_options True buf0;
            other \<leftarrow> print_option_list long_options False buf0;
            Some (head @ [CHR 0x0A] @ ''DOCUMENTATION:'' @ [CHR 0x0A] @ '' '' @ doc @ [CHR 0x0A] @
                  ''Required options:'' @ [CHR 0x0A] @ req @ [CHR 0x0A] @
                  ''Other options:'' @ [CHR 0x0A] @ other @ [CHR 0x0A])
          })"

section \<open>Parsing\<close>

text \<open>
  One pass through the body of the loop: the \<^verbatim>\<open>switch\<close> on the result \<open>opt\<close> of
  \<^verbatim>\<open>getopt_long\<close>. The left summand is the jump to \<^verbatim>\<open>error\<close> or \<^verbatim>\<open>default\<close> with the
  value of \<^verbatim>\<open>full_help\<close>; the second component is the global \<^verbatim>\<open>verbose\<close>.
\<close>

definition opt_dev :: "(string \<Rightarrow> u32) \<Rightarrow> string option \<Rightarrow> config \<Rightarrow> config option option" where
  "opt_dev if_nametoindex optarg cfg = do {
     arg \<leftarrow> optarg;
     if IF_NAMESIZE \<le> length arg then Some None
     else do {
       buf \<leftarrow> strncpy_to (ifname_buf cfg) arg IF_NAMESIZE;
       let cfg = cfg\<lparr>ifname := Ifname_buf, ifname_buf := buf\<rparr>;
       name \<leftarrow> rd_cstr buf;
       let cfg = cfg\<lparr>ifindex := if_nametoindex name\<rparr>;
       Some (if ifindex cfg = 0 then None else Some cfg)
     }
   }"

definition opt_redirect_dev :: "(string \<Rightarrow> u32) \<Rightarrow> string option \<Rightarrow> config \<Rightarrow> config option option" where
  "opt_redirect_dev if_nametoindex optarg cfg = do {
     arg \<leftarrow> optarg;
     if IF_NAMESIZE \<le> length arg then Some None
     else do {
       buf \<leftarrow> strncpy_to (redirect_ifname_buf cfg) arg IF_NAMESIZE;
       let cfg = cfg\<lparr>redirect_ifname := Redirect_ifname_buf, redirect_ifname_buf := buf\<rparr>;
       name \<leftarrow> rd_cstr buf;
       let cfg = cfg\<lparr>redirect_ifindex := if_nametoindex name\<rparr>;
       Some (if redirect_ifindex cfg = 0 then None else Some cfg)
     }
   }"

abbreviation (input) code_of :: "char \<Rightarrow> nat" where "code_of c \<equiv> of_char c"

definition set_mode :: "u32 \<Rightarrow> config \<Rightarrow> config" where
  "set_mode m cfg = cfg\<lparr>xdp_flags := (xdp_flags cfg AND NOT XDP_FLAGS_MODES) OR m\<rparr>"

definition force_copy :: "config \<Rightarrow> config" where
  "force_copy cfg = cfg\<lparr>xsk_bind_flags := (xsk_bind_flags cfg AND XDP_ZEROCOPY) OR XDP_COPY\<rparr>"

definition force_zerocopy :: "config \<Rightarrow> config" where
  "force_zerocopy cfg = cfg\<lparr>xsk_bind_flags := (xsk_bind_flags cfg AND XDP_COPY) OR XDP_ZEROCOPY\<rparr>"

definition parse_opt :: "(string \<Rightarrow> u32) \<Rightarrow> (string \<Rightarrow> int) \<Rightarrow> nat \<Rightarrow> string option \<Rightarrow> config \<times> bool \<Rightarrow>
    (bool + config \<times> bool) option" where
  "parse_opt if_nametoindex atoi opt optarg s = (case s of (cfg, verbose) \<Rightarrow>
     let keep = (\<lambda>c. Some (Inr (c, verbose)));
         dev = map_option (\<lambda>r. case r of None \<Rightarrow> Inl False | Some c \<Rightarrow> Inr (c, verbose));
         copy = (\<lambda>dest n. Option.bind optarg (\<lambda>arg. strncpy_to dest arg n))
      in if opt = code_of CHR ''d'' then dev (opt_dev if_nametoindex optarg cfg)
         else if opt = code_of CHR ''r'' then dev (opt_redirect_dev if_nametoindex optarg cfg)
         else if opt = code_of CHR ''A'' then keep (set_mode 0 cfg)
         else if opt = code_of CHR ''S'' then keep (force_copy (set_mode XDP_FLAGS_SKB_MODE cfg))
         else if opt = code_of CHR ''N'' then keep (set_mode XDP_FLAGS_DRV_MODE cfg)
         else if opt = 3 then keep (set_mode XDP_FLAGS_HW_MODE cfg)
         else if opt = code_of CHR ''F''
           then keep (cfg\<lparr>xdp_flags := xdp_flags cfg AND NOT XDP_FLAGS_UPDATE_IF_NOEXIST\<rparr>)
         else if opt = code_of CHR ''M'' then keep (cfg\<lparr>reuse_maps := True\<rparr>)
         else if opt = code_of CHR ''U'' then keep (cfg\<lparr>do_unload := True\<rparr>)
         else if opt = code_of CHR ''p'' then keep (cfg\<lparr>xsk_poll_mode := True\<rparr>)
         else if opt = code_of CHR ''q'' then Some (Inr (cfg, False))
         else if opt = code_of CHR ''Q'' then do { arg \<leftarrow> optarg; keep (cfg\<lparr>xsk_if_queue := atoi arg\<rparr>) }
         else if opt = 1 then do { buf \<leftarrow> copy (filename cfg) 512; keep (cfg\<lparr>filename := buf\<rparr>) }
         else if opt = 2 then do { buf \<leftarrow> copy (progsec cfg) 32; keep (cfg\<lparr>progsec := buf\<rparr>) }
         else if opt = code_of CHR ''L'' then do { buf \<leftarrow> copy (src_mac cfg) 18; keep (cfg\<lparr>src_mac := buf\<rparr>) }
         else if opt = code_of CHR ''R'' then do { buf \<leftarrow> copy (dest_mac cfg) 18; keep (cfg\<lparr>dest_mac := buf\<rparr>) }
         else if opt = code_of CHR ''c'' then keep (force_copy cfg)
         else if opt = code_of CHR ''z'' then keep (force_zerocopy cfg)
         else if opt = code_of CHR ''h'' then Some (Inl True)
         else Some (Inl False))"

fun parse_opts :: "(string \<Rightarrow> u32) \<Rightarrow> (string \<Rightarrow> int) \<Rightarrow> (nat \<times> string option) list \<Rightarrow> config \<times> bool \<Rightarrow>
    (bool + config \<times> bool) option" where
  "parse_opts nti atoi [] s = Some (Inr s)"
| "parse_opts nti atoi ((opt, optarg) # es) s = do {
     r \<leftarrow> parse_opt nti atoi opt optarg s;
     case r of
       Inl full_help \<Rightarrow> Some (Inl full_help)
     | Inr s' \<Rightarrow> parse_opts nti atoi es s'
   }"

record exit_info =
  ex_code :: int
  ex_stdout :: string

definition parse_cmdline_args :: "(string \<Rightarrow> u32) \<Rightarrow> (string \<Rightarrow> int) \<Rightarrow>
    (coption list \<Rightarrow> string list \<Rightarrow> (nat \<times> string option) list option) \<Rightarrow> bool \<Rightarrow> string \<Rightarrow>
    string list \<Rightarrow> option_wrapper list \<Rightarrow> string \<Rightarrow> config \<times> bool \<Rightarrow>
    (exit_info + config \<times> bool) option" where
  "parse_cmdline_args nti atoi getopt_long malloc_ok buf0 argv options_wrapper doc s = do {
     opts \<leftarrow> option_wrappers_to_options malloc_ok options_wrapper;
     (case opts of
        Inl _ \<Rightarrow> Some (Inl \<lparr>ex_code = EXIT_FAIL_OPTION, ex_stdout = []\<rparr>)
      | Inr long_options \<Rightarrow> do {
          es \<leftarrow> getopt_long long_options argv;
          r \<leftarrow> parse_opts nti atoi es s;
          case r of
            Inr s' \<Rightarrow> Some (Inr s')
          | Inl full_help \<Rightarrow> do {
              out \<leftarrow> usage (hd argv) doc options_wrapper full_help buf0;
              Some (Inl \<lparr>ex_code = EXIT_FAIL_OPTION, ex_stdout = out\<rparr>)
            }
        })
   }"

section \<open>The help text\<close>

lemma snprintf_at_fits:
  assumes "pos + unat n \<le> length buf"
  obtains buf' where "snprintf_at buf pos n s = Some buf'" "length buf' = length buf"
proof (cases "n = 0")
  case True
  then show ?thesis using that [of buf] by (simp add: snprintf_at_def)
next
  case False
  then have "0 < unat n" by (simp add: unat_gt_0)
  then have "length (take (unat n - 1) s @ [NUL]) \<le> unat n" by simp
  then show ?thesis
    using False assms that
    by (auto simp: snprintf_at_def Let_def)
qed

lemma snprintf_at_past_end:
  assumes "n \<noteq> 0" "length buf \<le> pos"
  shows "snprintf_at buf pos n s = None"
  using assms by (simp add: snprintf_at_def Let_def)

lemma print_option_overflow_iff_aux:
  assumes "length buf = BUFSIZE" "length name < 2 ^ 31"
  shows "print_option w name buf = None \<longleftrightarrow> wr_metavar w \<noteq> None \<and> 27 < length name"
proof -
  let ?pos = "length ('' --'' @ name)"
  have pos: "?pos = length name + 3" by simp
  have n30: "unat (of_nat BUFSIZE :: u64) = 30" by (simp add: BUFSIZE_def)
  obtain b where b: "snprintf_at buf 0 (of_nat BUFSIZE) ('' --'' @ name) = Some b"
    and lb: "length b = 30"
    using snprintf_at_fits [of 0 "of_nat BUFSIZE" buf] assms n30 by (auto simp: BUFSIZE_def)
  show ?thesis
  proof (cases "wr_metavar w")
    case None
    then show ?thesis by (simp only: print_option_def Let_def b) simp
  next
    case (Some m)
    let ?n = "of_nat BUFSIZE - of_nat ?pos :: u64"
    show ?thesis
    proof (cases "27 < length name")
      case True
      have small: "length name + 3 < 2 ^ LENGTH(64)" using assms(2) by simp
      have "(of_nat 30 :: u64) \<noteq> of_nat (length name + 3)"
        using True small
        by (simp only: word_of_nat_eq_iff) (simp add: take_bit_nat_eq_self)
      then have "?n \<noteq> 0" by (simp add: BUFSIZE_def)
      moreover have "length b \<le> ?pos" using True lb by simp
      ultimately have "snprintf_at b ?pos ?n ('' '' @ m) = None" by (rule snprintf_at_past_end)
      then show ?thesis using True Some
        by (simp only: print_option_def Let_def b option.case) simp
    next
      case False
      have eq: "?n = of_nat (30 - ?pos)" using False by (simp add: BUFSIZE_def of_nat_diff)
      have "unat ?n = 30 - ?pos" unfolding eq by (simp add: unsigned_of_nat take_bit_nat_eq_self del: of_nat_diff)
      then obtain b' where "snprintf_at b ?pos ?n ('' '' @ m) = Some b'"
        using snprintf_at_fits [of ?pos ?n b] lb False by auto
      then show ?thesis using False Some
        by (simp only: print_option_def Let_def b option.case) simp
    qed
  qed
qed

text \<open>
  The buffer of \<^verbatim>\<open>_print_options\<close> is never overrun by an option without a placeholder for
  its argument; with one, it is overrun exactly when the option's name is longer than 27
  characters.
\<close>

theorem print_option_overflow_iff:
  assumes "length buf = BUFSIZE" "length name < 2 ^ 31"
  shows "print_option w name buf = None \<longleftrightarrow> wr_metavar w \<noteq> None \<and> 27 < length name"
  using assms by (rule print_option_overflow_iff_aux)

lemma print_option_overflow_iff_witness:
  "print_option \<lparr>wr_option = \<lparr>opt_name = Some ''dev'', opt_has_arg = 1, opt_val = 100\<rparr>,
     wr_help = [], wr_metavar = Some ''<ifname>'', wr_required = True\<rparr> ''dev'' (replicate 30 NUL)
   \<noteq> None"
  by (simp add: print_option_overflow_iff BUFSIZE_def)

section \<open>Options\<close>

text \<open>
  The copy of the option table handed to \<^verbatim>\<open>getopt_long\<close> has every named option and no
  terminating entry without a name, which is what \<^verbatim>\<open>getopt_long\<close> stops at.
\<close>

theorem option_table_not_terminated:
  assumes "option_wrappers_to_options True wrapper = Some r"
  shows "\<exists>table. r = Inr table \<and> table = map wr_option
           (takeWhile (\<lambda>w. opt_name (wr_option w) \<noteq> None) wrapper) \<and>
         (\<forall>opt \<in> set table. opt_name opt \<noteq> None)"
proof -
  have "count_options ws = Some n \<Longrightarrow>
      take n ws = takeWhile (\<lambda>w. opt_name (wr_option w) \<noteq> None) ws" for ws n
    by (induction ws arbitrary: n) (auto split: if_splits)
  then show ?thesis using assms
    by (auto simp: option_wrappers_to_options_def bind_Some_iff dest: set_takeWhileD)
qed

lemma option_table_not_terminated_witness:
  "\<exists>table. option_wrappers_to_options True
     [\<lparr>wr_option = \<lparr>opt_name = Some ''help'', opt_has_arg = 0, opt_val = 104\<rparr>,
       wr_help = [], wr_metavar = None, wr_required = False\<rparr>,
      \<lparr>wr_option = \<lparr>opt_name = None, opt_has_arg = 0, opt_val = 0\<rparr>,
       wr_help = [], wr_metavar = None, wr_required = False\<rparr>] = Some (Inr table) \<and>
     length table = 1 \<and> (\<forall>opt \<in> set table. opt_name opt \<noteq> None)"
  (is "\<exists>t. ?f = _ \<and> _")
proof -
  obtain r where "?f = Some r" by (simp add: option_wrappers_to_options_def)
  from option_table_not_terminated [OF this] this show ?thesis by auto
qed

section \<open>What the options do to the configuration\<close>

text \<open>The mode an option selects, and the options that reject the command line.\<close>

definition mode_of_opt :: "nat \<Rightarrow> u32 option" where
  "mode_of_opt opt =
     (if opt = code_of CHR ''A'' then Some 0
      else if opt = code_of CHR ''S'' then Some XDP_FLAGS_SKB_MODE
      else if opt = code_of CHR ''N'' then Some XDP_FLAGS_DRV_MODE
      else if opt = 3 then Some XDP_FLAGS_HW_MODE
      else None)"

definition last_mode :: "(nat \<times> string option) list \<Rightarrow> u32 \<Rightarrow> u32" where
  "last_mode es m0 =
     fold (\<lambda>(opt, _) m. case mode_of_opt opt of None \<Rightarrow> m | Some m' \<Rightarrow> m') es m0"

definition known_opts :: "nat set" where
  "known_opts = {1, 2, 3} \<union> set (map of_char ''drASNFMUpqQLRcz'')"

definition rejects :: "(string \<Rightarrow> u32) \<Rightarrow> nat \<times> string option \<Rightarrow> bool" where
  "rejects nti e = (case e of (opt, optarg) \<Rightarrow> opt \<notin> known_opts \<or>
     (opt \<in> {code_of CHR ''d'', code_of CHR ''r''} \<and>
       (IF_NAMESIZE \<le> length (the optarg) \<or> nti (cstr (strncpy (the optarg) IF_NAMESIZE)) = 0)))"

text \<open>The options with an argument have got one, as \<^verbatim>\<open>getopt_long\<close> sees to when the tables say that they need one.\<close>

definition arg_given :: "nat \<times> string option \<Rightarrow> bool" where
  "arg_given e \<longleftrightarrow> (case e of (opt, optarg) \<Rightarrow> opt \<in> {1, 2} \<union> set (map of_char ''drLRQ'') \<longrightarrow> optarg \<noteq> None)"

text \<open>The arrays of the configuration have the sizes \<^verbatim>\<open>common_defines.h\<close> gives them.\<close>

definition sized :: "config \<Rightarrow> bool" where
  "sized cfg \<longleftrightarrow> length (ifname_buf cfg) = 16 \<and> length (redirect_ifname_buf cfg) = 16 \<and> length (pin_dir cfg) = 512 \<and>
     length (filename cfg) = 512 \<and> length (progsec cfg) = 32 \<and> length (src_mac cfg) = 18 \<and> length (dest_mac cfg) = 18"

lemmas config_steps = opt_dev_def opt_redirect_dev_def set_mode_def force_copy_def
  force_zerocopy_def Let_def

lemma parse_opts_ConsE:
  assumes "parse_opts nti atoi ((opt, optarg) # es) s = Some (Inr s')"
  obtains t where "parse_opt nti atoi opt optarg s = Some (Inr t)" "parse_opts nti atoi es t = Some (Inr s')"
proof -
  obtain x where x: "parse_opt nti atoi opt optarg s = Some x" using assms by (auto simp: bind_Some_iff)
  then show thesis using assms that by (cases x) simp_all
qed

lemma flags_of_mode:
  fixes x :: u32
  assumes "m AND XDP_FLAGS_MODES = m"
  shows "((x AND NOT XDP_FLAGS_MODES) OR m) AND XDP_FLAGS_MODES = m"
    and "((x AND NOT XDP_FLAGS_MODES) OR m) AND NOT XDP_FLAGS_MODES = x AND NOT XDP_FLAGS_MODES"
proof -
  have "((x AND NOT XDP_FLAGS_MODES) OR m) AND XDP_FLAGS_MODES = m AND XDP_FLAGS_MODES"
    by (rule bit_word_eqI) (auto simp: bit_simps)
  then show "((x AND NOT XDP_FLAGS_MODES) OR m) AND XDP_FLAGS_MODES = m" using assms by simp
  have "bit m n \<Longrightarrow> bit XDP_FLAGS_MODES n" for n
    by (subst (asm) assms [symmetric]) (simp add: bit_simps)
  then show "((x AND NOT XDP_FLAGS_MODES) OR m) AND NOT XDP_FLAGS_MODES = x AND NOT XDP_FLAGS_MODES"
    by (intro bit_word_eqI) (auto simp: bit_simps)
qed

lemma mode_of_opt_mask: "mode_of_opt opt = Some m \<Longrightarrow> m AND XDP_FLAGS_MODES = m"
  by (auto simp: mode_of_opt_def c_consts split: if_splits)

lemma parse_opt_mode:
  assumes "parse_opt nti atoi opt optarg (cfg, v) = Some (Inr (cfg', v'))"
  shows "xdp_flags cfg' AND XDP_FLAGS_MODES =
    (case mode_of_opt opt of None \<Rightarrow> xdp_flags cfg AND XDP_FLAGS_MODES | Some m \<Rightarrow> m)"
proof (cases "mode_of_opt opt")
  case None
  then show ?thesis using assms
    by (auto simp: parse_opt_def config_steps mode_of_opt_def and.assoc c_consts
        bind_Some_iff split: if_splits option.splits)
next
  case (Some m)
  then have "cfg' = set_mode m cfg \<or> cfg' = force_copy (set_mode m cfg)"
    using assms by (auto simp: parse_opt_def mode_of_opt_def split: if_splits)
  then show ?thesis using Some flags_of_mode(1) [OF mode_of_opt_mask [OF Some]]
    by (auto simp: set_mode_def force_copy_def)
qed

text \<open>
  After the options are parsed the attach mode in the flags is the one of the last mode
  option given (\<^verbatim>\<open>-A\<close>, \<^verbatim>\<open>-S\<close>, \<^verbatim>\<open>-N\<close> or \<^verbatim>\<open>--offload-mode\<close>), or the initial one when
  there was none.
\<close>

theorem last_mode_option_wins:
  assumes "parse_opts nti atoi es s = Some (Inr s')"
  shows "xdp_flags (fst s') AND XDP_FLAGS_MODES =
         last_mode es (xdp_flags (fst s) AND XDP_FLAGS_MODES)"
  using assms
proof (induction es arbitrary: s)
  case Nil
  then show ?case by (simp add: last_mode_def)
next
  case (Cons e es)
  obtain opt optarg where e: "e = (opt, optarg)" by (cases e)
  obtain t where t: "parse_opt nti atoi opt optarg s = Some (Inr t)" "parse_opts nti atoi es t = Some (Inr s')"
    using Cons.prems unfolding e by (rule parse_opts_ConsE)
  obtain c v c' v' where st: "s = (c, v)" "t = (c', v')" by (metis surj_pair)
  have "xdp_flags c' AND XDP_FLAGS_MODES =
      (case mode_of_opt opt of None \<Rightarrow> xdp_flags c AND XDP_FLAGS_MODES | Some m \<Rightarrow> m)"
    using t(1) unfolding st by (rule parse_opt_mode)
  then show ?case using Cons.IH [OF t(2)] st by (simp add: e last_mode_def)
qed

text \<open>A configuration as a static initialiser leaves it, and a name table with one device.\<close>

definition zero_config :: config where
  "zero_config = \<lparr>xdp_flags = 0, ifindex = 0, ifname = Null_name, ifname_buf = replicate 16 NUL,
     redirect_ifindex = 0, redirect_ifname = Null_name, redirect_ifname_buf = replicate 16 NUL,
     do_unload = False, reuse_maps = False, pin_dir = replicate 512 NUL,
     filename = replicate 512 NUL, progsec = replicate 32 NUL, src_mac = replicate 18 NUL,
     dest_mac = replicate 18 NUL, xsk_bind_flags = 0, xsk_if_queue = 0, xsk_poll_mode = False\<rparr>"

definition one_device :: "string \<Rightarrow> u32" where
  "one_device name = (if name = ''eth0'' then 8 else 0)"

lemma last_mode_option_wins_witness:
  "\<exists>s'. parse_opts one_device (\<lambda>_. 0) [(code_of CHR ''S'', None), (3, None), (code_of CHR ''U'', None)]
          (zero_config, True) = Some (Inr s') \<and> xdp_flags (fst s') AND XDP_FLAGS_MODES = XDP_FLAGS_HW_MODE"
  (is "\<exists>s'. ?f = _ \<and> _")
proof -
  obtain s' where s': "?f = Some (Inr s')" by (simp add: parse_opt_def)
  have "xdp_flags (fst s') AND XDP_FLAGS_MODES = XDP_FLAGS_HW_MODE"
    unfolding last_mode_option_wins [OF s'] by (simp add: last_mode_def mode_of_opt_def)
  with s' show ?thesis by blast
qed

lemma parse_opt_outcome:
  assumes "sized (fst s)" "arg_given (opt, optarg)"
  shows "\<exists>r. parse_opt nti atoi opt optarg s = Some r \<and>
    (case r of Inl b \<Rightarrow> rejects nti (opt, optarg) | Inr s' \<Rightarrow> \<not> rejects nti (opt, optarg) \<and> sized (fst s'))"
proof -
  obtain cfg v where s: "s = (cfg, v)" by (cases s)
  note sz = assms(1) [unfolded s fst_conv sized_def]
  have dev: "opt_dev nti (Some a) cfg = Some (if rejects nti (code_of CHR ''d'', Some a) then None
        else Some (cfg\<lparr>ifname := Ifname_buf, ifname_buf := strncpy a 16, ifindex := nti (cstr (strncpy a 16))\<rparr>))"
    "opt_redirect_dev nti (Some a) cfg = Some (if rejects nti (code_of CHR ''r'', Some a) then None
        else Some (cfg\<lparr>redirect_ifname := Redirect_ifname_buf, redirect_ifname_buf := strncpy a 16,
           redirect_ifindex := nti (cstr (strncpy a 16))\<rparr>))" for a
    using sz by (auto simp: opt_dev_def opt_redirect_dev_def rejects_def known_opts_def IF_NAMESIZE_def rd_cstr_strncpy)
  show ?thesis
  proof (cases "opt \<in> {1, 2} \<union> set (map of_char ''drLRQ'')")
    case True
    then obtain a where a: "optarg = Some a" using assms(2) by (auto simp: arg_given_def)
    show ?thesis using True sz dev [of a]
      by (auto simp: parse_opt_def s a sized_def rejects_def known_opts_def)
  next
    case False
    then show ?thesis using sz
      by (auto simp: parse_opt_def s sized_def rejects_def known_opts_def set_mode_def force_copy_def force_zerocopy_def)
  qed
qed

lemma parse_opts_outcome:
  assumes "sized (fst s)" "\<forall>e \<in> set es. arg_given e"
  shows "\<exists>r. parse_opts nti atoi es s = Some r \<and>
    (case r of Inl b \<Rightarrow> \<exists>e \<in> set es. rejects nti e | Inr s' \<Rightarrow> (\<forall>e \<in> set es. \<not> rejects nti e) \<and> sized (fst s'))"
  using assms
proof (induction es arbitrary: s)
  case Nil
  then show ?case by simp
next
  case (Cons e es)
  obtain opt optarg where e: "e = (opt, optarg)" by (cases e)
  obtain r where r: "parse_opt nti atoi opt optarg s = Some r"
    "case r of Inl b \<Rightarrow> rejects nti e | Inr s' \<Rightarrow> \<not> rejects nti e \<and> sized (fst s')"
  proof -
    have "arg_given (opt, optarg)" using Cons.prems(2) e by simp
    from parse_opt_outcome [OF Cons.prems(1) this, where nti = nti and atoi = atoi] show thesis using that e by blast
  qed
  show ?case
  proof (cases r)
    case (Inl b)
    then show ?thesis using r e by simp
  next
    case (Inr t)
    then obtain r' where "parse_opts nti atoi es t = Some r'"
      "case r' of Inl b \<Rightarrow> \<exists>e \<in> set es. rejects nti e | Inr s' \<Rightarrow> (\<forall>e \<in> set es. \<not> rejects nti e) \<and> sized (fst s')"
      using Cons.IH [of t] Cons.prems(2) r(2) by auto
    then show ?thesis using r Inr e by (cases r') auto
  qed
qed

lemma parse_opts_accepts:
  assumes "sized (fst s)" "\<forall>e \<in> set es. arg_given e" "\<forall>e \<in> set es. \<not> rejects nti e"
  shows "\<exists>s'. parse_opts nti atoi es s = Some (Inr s')"
proof -
  obtain r where "parse_opts nti atoi es s = Some r"
    "case r of Inl b \<Rightarrow> \<exists>e \<in> set es. rejects nti e | Inr s' \<Rightarrow> (\<forall>e \<in> set es. \<not> rejects nti e) \<and> sized (fst s')"
    using parse_opts_outcome [OF assms(1,2)] by blast
  then show ?thesis using assms(3) by (cases r) auto
qed

text \<open>
  The parsing loop never copies behind the end of an array, and it gives up exactly when some option before it is unknown, asks for help, or
  names a device whose name has 16 characters or more or is not known; otherwise it consumes
  every option.
\<close>

theorem parse_opts_rejects_iff:
  assumes "sized (fst s)" "\<forall>e \<in> set es. arg_given e"
  shows "(\<exists>b. parse_opts nti atoi es s = Some (Inl b)) \<longleftrightarrow> (\<exists>e \<in> set es. rejects nti e)"
proof -
  obtain r where "parse_opts nti atoi es s = Some r"
    "case r of Inl b \<Rightarrow> \<exists>e \<in> set es. rejects nti e | Inr s' \<Rightarrow> (\<forall>e \<in> set es. \<not> rejects nti e) \<and> sized (fst s')"
    using parse_opts_outcome [OF assms] by blast
  then show ?thesis by (cases r) auto
qed

lemma zero_config_sized: "sized zero_config"
  by (simp add: sized_def zero_config_def)

lemma parse_opts_rejects_iff_witness:
  "\<exists>b. parse_opts one_device (\<lambda>_. 0) [(2, Some ''xdp''), (code_of CHR ''h'', None)] (zero_config, True) = Some (Inl b)"
proof -
  have "\<forall>e \<in> set [(2, Some ''xdp''), (code_of CHR ''h'', None)]. arg_given e" by (simp add: arg_given_def)
  from parse_opts_rejects_iff [of "(zero_config, True)", OF _ this] show ?thesis
    using zero_config_sized by (simp add: rejects_def known_opts_def)
qed

section \<open>Well-formed configurations\<close>

text \<open>
  The arrays have their sizes, and a device name that was set is terminated and is the name of
  the device index stored beside it.
\<close>

definition dev_ok :: "(string \<Rightarrow> u32) \<Rightarrow> string \<Rightarrow> u32 \<Rightarrow> bool" where
  "dev_ok nti buf idx \<longleftrightarrow> terminated buf \<and> idx = nti (cstr buf) \<and> idx \<noteq> 0"

definition config_ok :: "(string \<Rightarrow> u32) \<Rightarrow> config \<Rightarrow> bool" where
  "config_ok nti cfg \<longleftrightarrow>
     sized cfg \<and> ifname cfg \<in> {Null_name, Ifname_buf} \<and>
     redirect_ifname cfg \<in> {Null_name, Redirect_ifname_buf} \<and>
     (ifname cfg = Ifname_buf \<longrightarrow> dev_ok nti (ifname_buf cfg) (ifindex cfg)) \<and>
     (redirect_ifname cfg = Redirect_ifname_buf \<longrightarrow>
        dev_ok nti (redirect_ifname_buf cfg) (redirect_ifindex cfg))"

lemma config_ok_steps:
  assumes "config_ok nti cfg"
  shows "config_ok nti (set_mode m cfg)" "config_ok nti (force_copy cfg)"
    "config_ok nti (force_zerocopy cfg)" "config_ok nti (cfg\<lparr>xdp_flags := x\<rparr>)"
    "config_ok nti (cfg\<lparr>reuse_maps := r\<rparr>)" "config_ok nti (cfg\<lparr>do_unload := r\<rparr>)"
    "config_ok nti (cfg\<lparr>xsk_poll_mode := r\<rparr>)" "config_ok nti (cfg\<lparr>xsk_if_queue := i\<rparr>)"
    "config_ok nti (cfg\<lparr>filename := strncpy a 512\<rparr>)" "config_ok nti (cfg\<lparr>progsec := strncpy a 32\<rparr>)"
    "config_ok nti (cfg\<lparr>src_mac := strncpy a 18\<rparr>)" "config_ok nti (cfg\<lparr>dest_mac := strncpy a 18\<rparr>)"
  using assms by (simp_all add: config_ok_def sized_def set_mode_def force_copy_def force_zerocopy_def)

lemma config_ok_dev:
  assumes "config_ok nti cfg"
  shows "opt_dev nti (Some arg) cfg = Some (Some cfg') \<Longrightarrow> config_ok nti cfg'"
    and "opt_redirect_dev nti (Some arg) cfg = Some (Some cfg') \<Longrightarrow> config_ok nti cfg'"
proof -
  have dev: "dev_ok nti (strncpy arg 16) (nti (cstr (strncpy arg 16)))"
    if "length arg < 16" "nti (cstr (strncpy arg 16)) \<noteq> 0"
    using that by (simp add: dev_ok_def terminated_def strncpy_def)
  show "opt_dev nti (Some arg) cfg = Some (Some cfg') \<Longrightarrow> config_ok nti cfg'"
    using assms dev
    by (clarsimp simp: opt_dev_def Let_def IF_NAMESIZE_def config_ok_def sized_def rd_cstr_strncpy split: if_split_asm)
  show "opt_redirect_dev nti (Some arg) cfg = Some (Some cfg') \<Longrightarrow> config_ok nti cfg'"
    using assms dev
    by (clarsimp simp: opt_redirect_dev_def Let_def IF_NAMESIZE_def config_ok_def sized_def rd_cstr_strncpy split: if_split_asm)
qed

lemma parse_opt_config_ok:
  assumes "parse_opt nti atoi opt optarg (cfg, v) = Some (Inr (cfg', v'))" "config_ok nti cfg"
  shows "config_ok nti cfg'"
proof -
  have dev: "opt_dev nti optarg cfg = Some (Some cfg') \<Longrightarrow> config_ok nti cfg'"
    "opt_redirect_dev nti optarg cfg = Some (Some cfg') \<Longrightarrow> config_ok nti cfg'" for cfg'
    using config_ok_dev [OF assms(2)]
    by (cases optarg; simp add: opt_dev_def opt_redirect_dev_def)+
  have "length (filename cfg) = 512" "length (progsec cfg) = 32" "length (src_mac cfg) = 18" "length (dest_mac cfg) = 18"
    using assms(2) by (simp_all add: config_ok_def sized_def)
  then show ?thesis
    using assms dev unfolding parse_opt_def Let_def prod.case
    by (auto split: if_split_asm option.split_asm simp: config_ok_steps bind_Some_iff)
qed

text \<open>
  From a well-formed configuration, parsing leaves a well-formed
  configuration: the arrays keep their sizes, and a device name that was given is terminated, known, and
  agrees with the device index.
\<close>

theorem parse_opts_config_ok:
  assumes "parse_opts nti atoi es s = Some (Inr s')" "config_ok nti (fst s)"
  shows "config_ok nti (fst s')"
  using assms
proof (induction es arbitrary: s)
  case Nil
  then show ?case by simp
next
  case (Cons e es)
  obtain opt optarg where e: "e = (opt, optarg)" by (cases e)
  obtain t where t: "parse_opt nti atoi opt optarg s = Some (Inr t)" "parse_opts nti atoi es t = Some (Inr s')"
    using Cons.prems(1) unfolding e by (rule parse_opts_ConsE)
  obtain c v c' v' where st: "s = (c, v)" "t = (c', v')" by (metis surj_pair)
  have "config_ok nti c'"
    using parse_opt_config_ok [of nti atoi opt optarg c v c' v'] t(1) Cons.prems(2)
    by (simp add: st e)
  then show ?case using Cons.IH [OF t(2)] by (simp add: st)
qed

lemma parse_opts_config_ok_witness:
  "\<exists>s'. parse_opts one_device (\<lambda>_. 0) [(code_of CHR ''d'', Some ''eth0''), (code_of CHR ''S'', None)]
          (zero_config, True) = Some (Inr s') \<and> config_ok one_device (fst s')"
  (is "\<exists>s'. ?f = _ \<and> _")
proof -
  let ?es = "[(code_of CHR ''d'', Some ''eth0''), (code_of CHR ''S'', None)]"
  have rej: "\<forall>e \<in> set ?es. \<not> rejects one_device e" and arg: "\<forall>e \<in> set ?es. arg_given e"
    by (simp_all add: rejects_def known_opts_def cstr_strncpy IF_NAMESIZE_def one_device_def arg_given_def)
  have "sized (fst (zero_config, True))" by (simp add: zero_config_sized)
  from parse_opts_accepts [OF this arg rej] obtain s' where s': "?f = Some (Inr s')" by blast
  have "config_ok one_device (fst (zero_config, True))"
    using zero_config_sized by (simp add: config_ok_def zero_config_def)
  from parse_opts_config_ok [OF s' this] s' show ?thesis by blast
qed

section \<open>Whole runs\<close>

lemma length_snprintf_at: "snprintf_at buf pos n s = Some b \<Longrightarrow> length b = length buf"
  by (auto simp: snprintf_at_def Let_def split: if_splits)

lemma length_print_option:
  "print_option w name buf = Some (line, b) \<Longrightarrow> length b = length buf"
  by (auto simp: print_option_def Let_def bind_Some_iff split: option.splits
      dest!: length_snprintf_at)

text \<open>A table of options as the programs write it: terminated, with names that fit the buffer.\<close>

definition table_ok :: "option_wrapper list \<Rightarrow> bool" where
  "table_ok ws \<longleftrightarrow> (\<exists>w \<in> set ws. opt_name (wr_option w) = None) \<and>
     (\<forall>w \<in> set ws. case opt_name (wr_option w) of None \<Rightarrow> True | Some n \<Rightarrow> length n \<le> 27)"

lemma print_option_list_safe:
  assumes "table_ok ws" "length buf = BUFSIZE"
  shows "\<exists>out. print_option_list ws required buf = Some out"
  using assms
proof (induction ws arbitrary: buf)
  case Nil
  then show ?case by (simp add: table_ok_def)
next
  case (Cons w ws)
  show ?case
  proof (cases "opt_name (wr_option w)")
    case None
    then show ?thesis by simp
  next
    case (Some n)
    then have n: "length n \<le> 27" and tab: "table_ok ws"
      using Cons.prems(1) by (auto simp: table_ok_def)
    have "length n < 2 ^ 31" using n by simp
    then have "print_option w n buf \<noteq> None"
      using n print_option_overflow_iff_aux [OF Cons.prems(2)] by simp
    then obtain line b where p: "print_option w n buf = Some (line, b)" by auto
    have "\<exists>out. print_option_list ws required b = Some out"
      using Cons.IH [OF tab] length_print_option [OF p] Cons.prems(2) by simp
    moreover have "\<exists>out. print_option_list ws required buf = Some out"
      using Cons.IH [OF tab Cons.prems(2)] .
    ultimately show ?thesis using Some p by auto
  qed
qed

lemma count_options_Some: "table_ok ws \<Longrightarrow> \<exists>n. count_options ws = Some n"
  by (induction ws) (auto simp: table_ok_def)

lemma usage_safe:
  assumes "table_ok ws" "length buf = BUFSIZE"
  shows "\<exists>out. usage prog doc ws full buf = Some out"
  using print_option_list_safe [OF assms, of True] print_option_list_safe [OF assms, of False]
  by (auto simp: usage_def Let_def)

text \<open>
  C40: with an option table that ends with an entry without a name and whose option names have at most 27 characters, and a configuration
  whose arrays have their declared sizes, the parser writes behind the end of neither the arrays of the configuration nor the
  buffer of the help text, and it either fills in the configuration, whose arrays keep their sizes, or exits with status 2;
  it exits exactly when the copy of the table could not be allocated or an option is rejected (unknown, a request for help,
  or a device with a name of 16 characters or more or that is not known). This is what the function itself does: it is
  assumed that \<^verbatim>\<open>getopt_long\<close> gives every option that needs an argument one, and that it does not read past the copy of the
  table, which lacks the terminating entry it asks for (lemma \<open>option_table_not_terminated\<close>).
\<close>

theorem parse_cmdline_args_exits_iff:
  assumes "table_ok ws" "length buf = BUFSIZE" "sized (fst s)"
    and "option_wrappers_to_options True ws = Some (Inr table)"
    and "getopt table argv = Some es" "\<forall>e \<in> set es. arg_given e"
  shows "\<exists>r. parse_cmdline_args nti atoi getopt ok buf argv ws doc s = Some r \<and>
    (case r of
       Inl x \<Rightarrow> ex_code x = 2 \<and> (\<not> ok \<or> (\<exists>e \<in> set es. rejects nti e))
     | Inr s' \<Rightarrow> ok \<and> (\<forall>e \<in> set es. \<not> rejects nti e) \<and> sized (fst s'))"
proof -
  obtain n where n: "count_options ws = Some n" using count_options_Some [OF assms(1)] ..
  then have tab: "table = map wr_option (take n ws)"
    using assms(4) by (simp add: option_wrappers_to_options_def)
  obtain r where r: "parse_opts nti atoi es s = Some r"
    "case r of Inl b \<Rightarrow> \<exists>e \<in> set es. rejects nti e | Inr s' \<Rightarrow> (\<forall>e \<in> set es. \<not> rejects nti e) \<and> sized (fst s')"
    using parse_opts_outcome [OF assms(3,6)] by blast
  show ?thesis
  proof (cases ok)
    case False
    then show ?thesis
      by (simp add: parse_cmdline_args_def option_wrappers_to_options_def n c_consts)
  next
    case True
    show ?thesis
    proof (cases r)
      case (Inl b)
      obtain out where "usage (hd argv) doc ws b buf = Some out"
        using usage_safe [OF assms(1,2), of "hd argv" doc b] by auto
      then show ?thesis using True Inl r assms(5)
        by (simp add: parse_cmdline_args_def option_wrappers_to_options_def n c_consts flip: tab)
    next
      case (Inr s')
      then show ?thesis using True r assms(5)
        by (simp add: parse_cmdline_args_def option_wrappers_to_options_def n flip: tab)
    qed
  qed
qed

text \<open>A \<^verbatim>\<open>getopt_long\<close> for \<^verbatim>\<open>-d\<close> and its argument.\<close>

definition dev_getopt :: "coption list \<Rightarrow> string list \<Rightarrow> (nat \<times> string option) list option" where
  "dev_getopt table argv = Some [(code_of CHR ''d'', Some (hd argv))]"

lemma parse_cmdline_args_exits_iff_witness:
  "let ws = [\<lparr>wr_option = \<lparr>opt_name = Some ''dev'', opt_has_arg = 1, opt_val = 100\<rparr>, wr_help = [],
               wr_metavar = Some ''<ifname>'', wr_required = True\<rparr>,
             \<lparr>wr_option = \<lparr>opt_name = None, opt_has_arg = 0, opt_val = 0\<rparr>, wr_help = [],
               wr_metavar = None, wr_required = False\<rparr>];
       run = parse_cmdline_args one_device (\<lambda>_. 0) dev_getopt True (replicate 30 NUL)
    in (\<exists>s'. run [''eth0''] ws [] (zero_config, True) = Some (Inr s')) \<and>
       (\<exists>x. run [''eth1''] ws [] (zero_config, True) = Some (Inl x) \<and> ex_code x = 2)"
proof -
  define ws where "ws = [\<lparr>wr_option = \<lparr>opt_name = Some ''dev'', opt_has_arg = 1, opt_val = 100\<rparr>,
      wr_help = [], wr_metavar = Some ''<ifname>'', wr_required = True\<rparr>,
    \<lparr>wr_option = \<lparr>opt_name = None, opt_has_arg = 0, opt_val = 0\<rparr>, wr_help = [],
      wr_metavar = None, wr_required = False\<rparr>]"
  have tab: "table_ok ws" by (simp add: ws_def table_ok_def)
  have buf: "length (replicate 30 NUL) = BUFSIZE" by (simp add: BUFSIZE_def)
  have sz: "sized (fst (zero_config, True))" by (simp add: zero_config_sized)
  obtain table where t: "option_wrappers_to_options True ws = Some (Inr table)"
    by (simp add: ws_def option_wrappers_to_options_def)
  have rej: "\<not> rejects one_device (code_of CHR ''d'', Some ''eth0'')"
    "rejects one_device (code_of CHR ''d'', Some ''eth1'')"
    by (simp_all add: rejects_def known_opts_def cstr_strncpy IF_NAMESIZE_def one_device_def)
  have got: "dev_getopt table [a] = Some [(code_of CHR ''d'', Some a)]"
    "\<forall>e \<in> set [(code_of CHR ''d'', Some a)]. arg_given e" for a
    by (simp_all add: dev_getopt_def arg_given_def)
  let ?run = "\<lambda>a. parse_cmdline_args one_device (\<lambda>_. 0) dev_getopt True (replicate 30 NUL) [a] ws [] (zero_config, True)"
  note run = parse_cmdline_args_exits_iff [OF tab buf sz t, where nti = one_device and getopt = dev_getopt and
      atoi = "\<lambda>_. 0" and ok = True and doc = "[]"]
  obtain r0 r1 where r: "?run ''eth0'' = Some r0" "?run ''eth1'' = Some r1"
    using run [OF got [of "''eth0''"]] run [OF got [of "''eth1''"]] by blast
  then show ?thesis
    unfolding Let_def ws_def [symmetric]
    using run [OF got [of "''eth0''"]] run [OF got [of "''eth1''"]] rej by (cases r0; cases r1) simp_all
qed

section \<open>Copy mode and zero-copy mode\<close>

text \<open>
  Asking for copy mode (\<^verbatim>\<open>-c\<close>) after zero-copy mode (\<^verbatim>\<open>-z\<close>), or the other way
  round, leaves both requests set in the bind flags: the second option does not override the
  first, because the code masks with the flag to clear instead of with its complement.
\<close>

theorem copy_and_zerocopy_both_set:
  "(\<exists>cfg. parse_opts nti atoi [(code_of CHR ''z'', None), (code_of CHR ''c'', None)] s =
       Some (Inr (cfg, snd s)) \<and> xsk_bind_flags cfg = XDP_COPY OR XDP_ZEROCOPY) \<and>
   (\<exists>cfg. parse_opts nti atoi [(code_of CHR ''c'', None), (code_of CHR ''z'', None)] s =
       Some (Inr (cfg, snd s)) \<and> xsk_bind_flags cfg = XDP_COPY OR XDP_ZEROCOPY)"
proof -
  have "(x AND 2) AND 4 = (0 :: u16)" for x
  proof -
    have "(2 :: u16) AND 4 = 0" by simp
    then show ?thesis by (simp only: and.assoc and_zero_eq)
  qed
  then have "((x AND XDP_COPY OR XDP_ZEROCOPY) AND XDP_ZEROCOPY) OR XDP_COPY = XDP_COPY OR XDP_ZEROCOPY"
    "((x AND XDP_ZEROCOPY OR XDP_COPY) AND XDP_COPY) OR XDP_ZEROCOPY = XDP_COPY OR XDP_ZEROCOPY" for x
    by (auto simp: c_consts bit_simps intro!: bit_word_eqI)
  then show ?thesis by (cases s) (simp add: parse_opt_def force_copy_def force_zerocopy_def)
qed

end
