(* ===== verification/BpfObject.thy ===== *)
theory BpfObject
  imports Params
begin

text \<open>
  The part of \<^verbatim>\<open>struct bpf_object\<close> of \<^verbatim>\<open>libbpf/src/libbpf.c\<close> (tutorial copy) that the
  loaders use: programs and maps, their iterators, setters and lookups, \<^verbatim>\<open>bpf_map__reuse_fd\<close>
  and \<^verbatim>\<open>bpf_prog_load_xattr\<close>. A pointer into \<^verbatim>\<open>obj->programs\<close> or \<^verbatim>\<open>obj->maps\<close> is its
  index. Every program has a section name (\<^verbatim>\<open>bpf_program__init\<close> fails without one), so
  the NULL test of the lookup by title is always true. Opening and loading an object (ELF parsing and the \<^verbatim>\<open>bpf\<close> system call) are
  parameters.
\<close>

section \<open>Objects\<close>

record bpf_program =
  pg_idx :: int
  section_name :: string
  pg_type :: int
  attach_type :: int
  prog_ifindex :: u32
  log_level :: int
  prog_flags :: u32
  instances :: "int list"

record bpf_map_info =
  mi_name :: string
  mi_type :: u32
  mi_key_size :: u32
  mi_value_size :: u32
  mi_max_entries :: u32
  mi_map_flags :: u32
  mi_btf_key :: u32
  mi_btf_value :: u32

record bpf_obj_map =
  mp_name :: string
  mp_fd :: int
  def_type :: u32
  def_key_size :: u32
  def_value_size :: u32
  def_max_entries :: u32
  def_map_flags :: u32
  btf_key_type_id :: u32
  btf_value_type_id :: u32
  reused :: bool
  map_ifindex :: u32

record bpf_object =
  programs :: "bpf_program list"
  maps :: "bpf_obj_map list"
  text_shndx :: int
  has_pseudo_calls :: bool

definition BPF_MAP_TYPE_PERF_EVENT_ARRAY :: u32 where
  [c_consts]: "BPF_MAP_TYPE_PERF_EVENT_ARRAY = 4"
definition BPF_PROG_TYPE_UNSPEC :: int where [c_consts]: "BPF_PROG_TYPE_UNSPEC = 0"
definition BPF_PROG_TYPE_XDP :: int where [c_consts]: "BPF_PROG_TYPE_XDP = 6"

section \<open>Iterating over programs\<close>

definition is_function_storage :: "bpf_program \<Rightarrow> bpf_object \<Rightarrow> bool" where
  "is_function_storage prog obj \<longleftrightarrow> pg_idx prog = text_shndx obj \<and> has_pseudo_calls obj"

definition program_iter :: "nat option \<Rightarrow> bpf_object \<Rightarrow> bool \<Rightarrow> nat option" where
  "program_iter p obj forward =
     (let nr_programs = length (programs obj)
       in if nr_programs = 0 then None
          else case p of
            None \<Rightarrow> Some (if forward then 0 else nr_programs - 1)
          | Some i \<Rightarrow>
              let idx = int i + (if forward then 1 else - 1)
               in if int nr_programs \<le> idx \<or> idx < 0 then None else Some (nat idx))"

lemma program_iter_less: "program_iter p obj fwd = Some i \<Longrightarrow> i < length (programs obj)"
  by (auto simp: program_iter_def Let_def split: if_splits option.splits)

function program_next :: "nat option \<Rightarrow> bpf_object \<Rightarrow> nat option" where
  "program_next prev obj =
     (case program_iter prev obj True of
        None \<Rightarrow> None
      | Some i \<Rightarrow> if is_function_storage (programs obj ! i) obj
                  then program_next (Some i) obj else Some i)"
  by pat_completeness auto
termination
proof (relation "measure (\<lambda>(p, obj). case p of None \<Rightarrow> Suc (length (programs obj))
                                     | Some i \<Rightarrow> length (programs obj) - i)")
  show "wf (measure (\<lambda>(p, obj :: bpf_object). case p of None \<Rightarrow> Suc (length (programs obj))
                                     | Some i \<Rightarrow> length (programs obj) - i))" by simp
  fix prev obj i
  assume "program_iter prev obj True = Some i"
  then show "((Some i, obj), (prev, obj)) \<in> measure (\<lambda>(p, obj :: bpf_object).
      case p of None \<Rightarrow> Suc (length (programs obj)) | Some i \<Rightarrow> length (programs obj) - i)"
    by (auto simp: program_iter_def Let_def split: option.splits if_splits)
qed

function program_prev :: "nat option \<Rightarrow> bpf_object \<Rightarrow> nat option" where
  "program_prev next_prog obj =
     (case program_iter next_prog obj False of
        None \<Rightarrow> None
      | Some i \<Rightarrow> if is_function_storage (programs obj ! i) obj
                  then program_prev (Some i) obj else Some i)"
  by pat_completeness auto
termination
proof (relation "measure (\<lambda>(p, obj). case p of None \<Rightarrow> Suc (length (programs obj))
                                     | Some i \<Rightarrow> i)")
  show "wf (measure (\<lambda>(p, obj :: bpf_object). case p of None \<Rightarrow> Suc (length (programs obj))
                                     | Some i \<Rightarrow> i))" by simp
  fix next_prog obj i
  assume "program_iter next_prog obj False = Some i"
  then show "((Some i, obj), (next_prog, obj)) \<in> measure (\<lambda>(p, obj :: bpf_object).
      case p of None \<Rightarrow> Suc (length (programs obj)) | Some i \<Rightarrow> i)"
    by (auto simp: program_iter_def Let_def split: option.splits if_splits)
qed

declare program_next.simps [simp del] program_prev.simps [simp del]

lemma program_next_Some:
  "program_next p obj = Some i \<Longrightarrow> i < length (programs obj) \<and>
     \<not> is_function_storage (programs obj ! i) obj \<and> (\<forall>j. p = Some j \<longrightarrow> j < i)"
proof (induction p obj rule: program_next.induct)
  case (1 p obj)
  show ?case
  proof (cases "program_iter p obj True")
    case None
    then show ?thesis using "1.prems" by (simp add: program_next.simps [of p])
  next
    case (Some k)
    then have k: "k < length (programs obj)" "\<forall>j. p = Some j \<longrightarrow> j < k"
      by (auto simp: program_iter_def Let_def split: option.splits if_splits)
    show ?thesis
      using "1.IH" [OF Some] "1.prems" Some k
      by (auto simp: program_next.simps [of p] split: if_splits)
  qed
qed

text \<open>The macro \<^verbatim>\<open>bpf_object__for_each_program\<close>: the programs its body runs for, in order.\<close>

function programs_from :: "nat option \<Rightarrow> bpf_object \<Rightarrow> nat list" where
  "programs_from p obj =
     (case program_next p obj of None \<Rightarrow> [] | Some i \<Rightarrow> i # programs_from (Some i) obj)"
  by pat_completeness auto
termination
proof (relation "measure (\<lambda>(p, obj). case p of None \<Rightarrow> Suc (length (programs obj))
                                     | Some i \<Rightarrow> length (programs obj) - i)")
  show "wf (measure (\<lambda>(p, obj :: bpf_object). case p of None \<Rightarrow> Suc (length (programs obj))
                                     | Some i \<Rightarrow> length (programs obj) - i))" by simp
  fix p obj i
  assume "program_next p obj = Some i"
  then show "((Some i, obj), (p, obj)) \<in> measure (\<lambda>(p, obj :: bpf_object).
      case p of None \<Rightarrow> Suc (length (programs obj)) | Some i \<Rightarrow> length (programs obj) - i)"
    by (auto dest!: program_next_Some split: option.splits)
qed

declare programs_from.simps [simp del]

definition each_program :: "bpf_object \<Rightarrow> nat list" where
  "each_program obj = programs_from None obj"

text \<open>The iterator finds the next program that is not the storage of subprograms.\<close>

abbreviation (input) entry_program :: "bpf_object \<Rightarrow> nat \<Rightarrow> bool" where
  "entry_program obj i \<equiv> \<not> is_function_storage (programs obj ! i) obj"

definition after_prog :: "nat option \<Rightarrow> nat" where
  "after_prog p = (case p of None \<Rightarrow> 0 | Some k \<Rightarrow> Suc k)"

lemma program_iter_forward:
  "program_iter p obj True =
     (if after_prog p < length (programs obj) then Some (after_prog p) else None)"
  by (auto simp: program_iter_def after_prog_def Let_def nat_add_distrib split: option.splits)

lemma program_next_find:
  "program_next p obj = find (entry_program obj) [after_prog p..<length (programs obj)]"
proof (induction p obj rule: program_next.induct)
  case (1 p obj)
  show ?case
  proof (cases "after_prog p < length (programs obj)")
    case False
    then show ?thesis by (simp add: program_next.simps [of p] program_iter_forward)
  next
    case True
    then have it: "program_iter p obj True = Some (after_prog p)"
      by (simp add: program_iter_forward)
    have up: "[after_prog p..<length (programs obj)] =
        after_prog p # [after_prog (Some (after_prog p))..<length (programs obj)]"
      using True by (simp add: upt_conv_Cons after_prog_def)
    show ?thesis
      using "1.IH" [OF it] by (simp add: program_next.simps [of p] it up)
  qed
qed

lemma find_upt_filter:
  "find P [s..<n] = Some i \<Longrightarrow> filter P [s..<n] = i # filter P [Suc i..<n]"
proof (induction "n - s" arbitrary: s)
  case 0
  then show ?case by simp
next
  case (Suc d)
  then have up: "[s..<n] = s # [Suc s..<n]" by (simp add: upt_conv_Cons)
  have "d = n - Suc s" using Suc.hyps(2) by simp
  then show ?case using Suc.hyps(1) [of "Suc s"] Suc.prems unfolding up by (auto split: if_splits)
qed

lemma programs_from_filter:
  "programs_from p obj = filter (entry_program obj) [after_prog p..<length (programs obj)]"
proof (induction p obj rule: programs_from.induct)
  case (1 p obj)
  show ?case
  proof (cases "program_next p obj")
    case None
    then have "\<forall>i \<in> set [after_prog p..<length (programs obj)]. \<not> entry_program obj i"
      by (simp add: program_next_find find_None_iff)
    then show ?thesis using None by (auto simp: programs_from.simps [of p] filter_empty_conv)
  next
    case (Some i)
    then show ?thesis
      using "1.IH" [OF Some] find_upt_filter [OF Some [unfolded program_next_find]]
      by (simp add: programs_from.simps [of p] after_prog_def)
  qed
qed

text \<open>
  The iteration macro runs its body exactly once for every program of the object that is
  not the storage of subprograms, in the order of the object file.
\<close>

theorem each_program_visits_entry_programs:
  "each_program obj =
     filter (\<lambda>i. \<not> is_function_storage (programs obj ! i) obj) [0..<length (programs obj)]"
  by (simp add: each_program_def programs_from_filter after_prog_def)

section \<open>Setters and lookups\<close>

definition update_program :: "(bpf_program \<Rightarrow> bpf_program) \<Rightarrow> nat \<Rightarrow> bpf_object \<Rightarrow> bpf_object" where
  "update_program f i obj = obj\<lparr>programs := (programs obj)[i := f (programs obj ! i)]\<rparr>"

definition program_set_type :: "int \<Rightarrow> bpf_program \<Rightarrow> bpf_program" where
  "program_set_type t prog = prog\<lparr>pg_type := t\<rparr>"

definition program_set_ifindex :: "u32 \<Rightarrow> bpf_program \<Rightarrow> bpf_program" where
  "program_set_ifindex i prog = prog\<lparr>prog_ifindex := i\<rparr>"

definition program_set_expected_attach_type :: "int \<Rightarrow> bpf_program \<Rightarrow> bpf_program" where
  "program_set_expected_attach_type t prog = prog\<lparr>attach_type := t\<rparr>"

definition program_title :: "bpf_program \<Rightarrow> string" where
  "program_title prog = section_name prog"

definition program_nth_fd :: "bpf_program \<Rightarrow> int \<Rightarrow> int" where
  "program_nth_fd prog n =
     (if int (length (instances prog)) \<le> n \<or> n < 0 then - EINVAL
      else let fd = instances prog ! nat n in if fd < 0 then - ENOENT else fd)"

definition program_fd :: "bpf_program \<Rightarrow> int" where
  "program_fd prog = program_nth_fd prog 0"

definition find_program_by_title :: "bpf_object \<Rightarrow> string \<Rightarrow> nat option" where
  "find_program_by_title obj title =
     find (\<lambda>i. section_name (programs obj ! i) = title) (each_program obj)"

definition is_offload_neutral :: "bpf_obj_map \<Rightarrow> bool" where
  "is_offload_neutral m \<longleftrightarrow> def_type m = BPF_MAP_TYPE_PERF_EVENT_ARRAY"

definition map_set_ifindex :: "u32 \<Rightarrow> bpf_obj_map \<Rightarrow> bpf_obj_map" where
  "map_set_ifindex i m = m\<lparr>map_ifindex := i\<rparr>"

text \<open>The loop both loaders run over the maps: give them the device, offload-neutral ones apart.\<close>

definition set_maps_ifindex :: "u32 \<Rightarrow> bpf_object \<Rightarrow> bpf_object" where
  "set_maps_ifindex i obj =
     obj\<lparr>maps := map (\<lambda>m. if \<not> is_offload_neutral m then map_set_ifindex i m else m) (maps obj)\<rparr>"

section \<open>bpf\_map\_\_reuse\_fd\<close>

text \<open>
  The outcomes of the system and library calls it makes: each is the negated \<^verbatim>\<open>errno\<close> of a
  failure or its result. The state is the set of the process's open file descriptors.
\<close>

record reuse_env =
  re_info :: "int + bpf_map_info"
  re_strdup :: "int + unit"
  re_open :: "int + int"
  re_dup3 :: "int + unit"
  re_close :: "int + unit"

definition close_fd :: "int \<Rightarrow> int set \<Rightarrow> int set" where
  "close_fd fd fds = (if fd < 0 then fds else fds - {fd})"

definition map_reuse_fd :: "reuse_env \<Rightarrow> bpf_obj_map \<Rightarrow> int set \<Rightarrow> int \<times> bpf_obj_map \<times> int set" where
  "map_reuse_fd env m fds =
     (case re_info env of Inl err \<Rightarrow> (err, m, fds)
      | Inr info \<Rightarrow>
     (case re_strdup env of Inl err \<Rightarrow> (err, m, fds)
      | Inr _ \<Rightarrow>
     (case re_open env of Inl err \<Rightarrow> (err, m, fds)
      | Inr new_fd \<Rightarrow>
        let fds = insert new_fd fds
         in
     (case re_dup3 env of Inl err \<Rightarrow> let new_fd = - 1 in (err, m, close_fd new_fd fds)
      | Inr _ \<Rightarrow>
        let old = mp_fd m; fds = close_fd old fds; m = m\<lparr>mp_fd := - 1\<rparr>
         in
     (case (if 0 \<le> old then re_close env else Inr ()) of
        Inl err \<Rightarrow> (err, m, close_fd new_fd fds)
      | Inr _ \<Rightarrow>
          (0, m\<lparr>mp_fd := new_fd, mp_name := mi_name info, def_type := mi_type info,
                  def_key_size := mi_key_size info, def_value_size := mi_value_size info,
                  def_max_entries := mi_max_entries info, def_map_flags := mi_map_flags info,
                  btf_key_type_id := mi_btf_key info, btf_value_type_id := mi_btf_value info,
                  reused := True\<rparr>, fds))))))"

text \<open>Errors of the calls are negative numbers, and a new descriptor is not an open one.\<close>

definition reuse_env_ok :: "reuse_env \<Rightarrow> int set \<Rightarrow> bool" where
  "reuse_env_ok env fds \<longleftrightarrow>
     (\<forall>fd \<in> fds. 0 \<le> fd) \<and>
     (\<forall>e. re_info env = Inl e \<longrightarrow> e < 0) \<and> (\<forall>e. re_strdup env = Inl e \<longrightarrow> e < 0) \<and>
     (\<forall>e. re_open env = Inl e \<longrightarrow> e < 0) \<and> (\<forall>e. re_dup3 env = Inl e \<longrightarrow> e < 0) \<and>
     (\<forall>e. re_close env = Inl e \<longrightarrow> e < 0) \<and>
     (\<forall>fd. re_open env = Inr fd \<longrightarrow> 0 \<le> fd \<and> fd \<notin> fds)"

text \<open>
  Reusing a descriptor either succeeds, and then the map holds the new descriptor and the
  definition of the kernel's map while its old descriptor is closed; or it fails with a negative
  error and no new descriptor stays open, unless it was \<^verbatim>\<open>dup3\<close> that failed: that path loses
  the descriptor just opened.
\<close>

theorem map_reuse_fd_outcome:
  assumes "reuse_env_ok env fds" "map_reuse_fd env m fds = (r, m', fds')"
    and "mp_fd m \<in> insert (- 1) fds"
  shows "(r = 0 \<and> (\<exists>info. re_info env = Inr info \<and> def_key_size m' = mi_key_size info \<and>
            def_value_size m' = mi_value_size info \<and> def_max_entries m' = mi_max_entries info \<and>
            def_type m' = mi_type info \<and> mp_name m' = mi_name info) \<and>
            reused m' \<and> mp_fd m' \<in> fds' \<and> fds' = insert (mp_fd m') (fds - {mp_fd m}))
       \<or> (r < 0 \<and> (\<forall>e. re_dup3 env \<noteq> Inl e) \<and> fds' \<subseteq> fds)
       \<or> (r < 0 \<and> (\<exists>e. re_dup3 env = Inl e) \<and>
            (fds' = fds \<or> (\<exists>fd. re_open env = Inr fd \<and> fds' = insert fd fds)))"
proof -
  note run = assms(2) [unfolded map_reuse_fd_def Let_def close_fd_def]
  note ok = assms(1) [unfolded reuse_env_ok_def]
  show ?thesis
  proof (cases "re_info env")
    case (Inl e)
    then show ?thesis using run ok by (cases "re_dup3 env") simp_all
  next
    case info: (Inr info)
    show ?thesis
    proof (cases "re_strdup env")
      case (Inl e)
      then show ?thesis using run ok info by (cases "re_dup3 env") simp_all
    next
      case name: (Inr u)
      show ?thesis
      proof (cases "re_open env")
        case (Inl e)
        then show ?thesis using run ok info name by (cases "re_dup3 env") simp_all
      next
        case fd: (Inr fd)
        then have new: "0 \<le> fd" "fd \<notin> fds" using ok by blast+
        show ?thesis
        proof (cases "re_dup3 env")
          case (Inl e)
          then show ?thesis using run ok info name fd by simp
        next
          case dup: (Inr v)
          show ?thesis
          proof (cases "if 0 \<le> mp_fd m then re_close env else Inr ()")
            case (Inl e)
            then have "re_close env = Inl e" by (simp split: if_splits)
            then have "r < 0" "fds' \<subseteq> fds"
              using run ok info name fd dup new Inl by (auto split: if_splits)
            then show ?thesis using dup by simp
          next
            case (Inr w)
            then have r: "r = 0" and m': "reused m'" "mp_fd m' = fd" "def_type m' = mi_type info"
              "def_key_size m' = mi_key_size info" "def_value_size m' = mi_value_size info"
              "def_max_entries m' = mi_max_entries info" "mp_name m' = mi_name info"
              and fds': "fds' = (if mp_fd m < 0 then insert fd fds else insert fd fds - {mp_fd m})"
              using run info name fd dup by auto
            have "x \<notin> fds" if "x < 0" for x using ok that by force
            then have "fds' = insert fd (fds - {mp_fd m})"
              using fds' new assms(3) by (cases "mp_fd m < 0") auto
            then show ?thesis using r m' info by simp
          qed
        qed
      qed
    qed
  qed
qed

lemma map_reuse_fd_outcome_witness:
  "\<exists>m'. map_reuse_fd \<lparr>re_info = Inr \<lparr>mi_name = ''cnt'', mi_type = 2, mi_key_size = 4,
        mi_value_size = 4, mi_max_entries = 4, mi_map_flags = 0, mi_btf_key = 0, mi_btf_value = 0\<rparr>,
      re_strdup = Inr (), re_open = Inr 7, re_dup3 = Inr (), re_close = Inr ()\<rparr>
      \<lparr>mp_name = ''m'', mp_fd = - 1, def_type = 0, def_key_size = 0, def_value_size = 0,
        def_max_entries = 0, def_map_flags = 0, btf_key_type_id = 0, btf_value_type_id = 0,
        reused = False, map_ifindex = 0\<rparr> {5} = (0, m', insert (mp_fd m') {5}) \<and> def_type m' = 2"
  (is "\<exists>m'. ?f = _ \<and> _")
proof -
  obtain r m' fds where f: "?f = (r, m', fds)" by (cases ?f)
  have "r = 0" using f by (auto simp: map_reuse_fd_def Let_def close_fd_def)
  with map_reuse_fd_outcome [OF _ f] f show ?thesis by (auto simp: reuse_env_ok_def)
qed

section \<open>bpf\_prog\_load\_xattr\<close>

record prog_load_attr =
  at_file :: "string option"
  at_prog_type :: int
  at_attach_type :: int
  at_ifindex :: u32
  at_log_level :: int
  at_prog_flags :: u32

text \<open>
  The body of the loop over the programs for the \<open>i\<close>-th one; \<open>None\<close> is the exit with
  \<^verbatim>\<open>-EINVAL\<close>.
\<close>

definition load_attr_program :: "prog_load_attr \<Rightarrow> nat \<Rightarrow> bpf_object \<Rightarrow> bpf_object option" where
  "load_attr_program attr i obj =
     (let obj = (if at_prog_type attr \<noteq> BPF_PROG_TYPE_UNSPEC
                 then update_program (program_set_expected_attach_type (at_attach_type attr)) i
                        (update_program (program_set_type (at_prog_type attr)) i obj)
                 else obj)
       in if pg_type (programs obj ! i) = BPF_PROG_TYPE_UNSPEC then None
          else Some (update_program
                 (\<lambda>p. p\<lparr>prog_ifindex := at_ifindex attr, log_level := at_log_level attr,
                        prog_flags := at_prog_flags attr\<rparr>) i obj))"

fun load_attr_programs :: "prog_load_attr \<Rightarrow> nat list \<Rightarrow> bpf_object \<Rightarrow> bpf_object option" where
  "load_attr_programs attr [] obj = Some obj"
| "load_attr_programs attr (i # is) obj = do {
     obj \<leftarrow> load_attr_program attr i obj;
     load_attr_programs attr is obj
   }"

definition prog_load_xattr :: "(string \<Rightarrow> bpf_object option) \<Rightarrow> (bpf_object \<Rightarrow> int \<times> bpf_object) \<Rightarrow>
    prog_load_attr option \<Rightarrow> int + bpf_object \<times> int" where
  "prog_load_xattr object_open object_load attr_ptr =
     (case attr_ptr of None \<Rightarrow> Inl (- EINVAL)
      | Some attr \<Rightarrow>
     (case at_file attr of None \<Rightarrow> Inl (- EINVAL)
      | Some file \<Rightarrow>
     (case object_open file of None \<Rightarrow> Inl (- ENOENT)
      | Some obj \<Rightarrow>
     (case load_attr_programs attr (each_program obj) obj of None \<Rightarrow> Inl (- EINVAL)
      | Some obj' \<Rightarrow>
        let first_prog = (case each_program obj of [] \<Rightarrow> None | i # _ \<Rightarrow> Some i);
            obj' = set_maps_ifindex (at_ifindex attr) obj'
         in
     (case first_prog of None \<Rightarrow> Inl (- ENOENT)
      | Some i \<Rightarrow>
        let (err, obj'') = object_load obj'
         in if err \<noteq> 0 then Inl (- EINVAL)
            else Inr (obj'', program_fd (programs obj'' ! i)))))))"

section \<open>What is configured before an object is loaded\<close>

definition configured :: "prog_load_attr \<Rightarrow> bpf_program \<Rightarrow> bpf_program" where
  "configured attr p = p\<lparr>pg_type := at_prog_type attr, attach_type := at_attach_type attr,
     prog_ifindex := at_ifindex attr, log_level := at_log_level attr,
     prog_flags := at_prog_flags attr\<rparr>"

lemma configured_idem [simp]: "configured attr (configured attr p) = configured attr p"
  by (simp add: configured_def)

lemma load_attr_program_configured:
  assumes "at_prog_type attr \<noteq> BPF_PROG_TYPE_UNSPEC" "i < length (programs obj)"
  shows "load_attr_program attr i obj = Some (update_program (configured attr) i obj)"
  using assms
  by (simp add: load_attr_program_def update_program_def configured_def program_set_type_def
      program_set_expected_attach_type_def)

lemma load_attr_programs_configured:
  assumes "at_prog_type attr \<noteq> BPF_PROG_TYPE_UNSPEC"
    and "set is \<subseteq> {..<length (programs obj)}"
  shows "\<exists>ps. load_attr_programs attr is obj = Some (obj\<lparr>programs := ps\<rparr>) \<and>
    length ps = length (programs obj) \<and>
    (\<forall>i < length ps. ps ! i = (if i \<in> set is then configured attr (programs obj ! i)
                                else programs obj ! i))"
  using assms(2)
proof (induction "is" arbitrary: obj)
  case Nil
  show ?case by (rule exI [of _ "programs obj"]) simp
next
  case (Cons i "is")
  let ?obj = "update_program (configured attr) i obj"
  have i: "i < length (programs obj)" using Cons.prems by simp
  have len: "length (programs ?obj) = length (programs obj)" by (simp add: update_program_def)
  obtain ps where ps: "load_attr_programs attr is ?obj = Some (?obj\<lparr>programs := ps\<rparr>)"
    "length ps = length (programs obj)"
    "\<forall>j < length ps. ps ! j = (if j \<in> set is then configured attr (programs ?obj ! j)
                                else programs ?obj ! j)"
    using Cons.IH [of ?obj] Cons.prems len by auto
  have eq: "?obj\<lparr>programs := ps\<rparr> = obj\<lparr>programs := ps\<rparr>" by (simp add: update_program_def)
  have "\<forall>j < length ps. ps ! j = (if j \<in> set (i # is) then configured attr (programs obj ! j)
                                else programs obj ! j)"
    using ps(2,3) i by (auto simp: update_program_def nth_list_update)
  then show ?case
    using ps(1,2) load_attr_program_configured [OF assms(1) i] by (auto simp: eq)
qed

lemma each_program_less: "i \<in> set (each_program obj) \<Longrightarrow> i < length (programs obj)"
  by (simp add: each_program_def programs_from_filter)

text \<open>The object handed to the kernel: entry programs configured, maps bound to the device.\<close>

definition prepared :: "prog_load_attr \<Rightarrow> bpf_object \<Rightarrow> bpf_object \<Rightarrow> bool" where
  "prepared attr obj obj' \<longleftrightarrow>
     length (programs obj') = length (programs obj) \<and>
     (\<forall>i < length (programs obj). programs obj' ! i =
        (if is_function_storage (programs obj ! i) obj then programs obj ! i
         else configured attr (programs obj ! i))) \<and>
     maps obj' = map (\<lambda>m. if is_offload_neutral m then m else m\<lparr>map_ifindex := at_ifindex attr\<rparr>)
                     (maps obj)"

text \<open>
  When loading with an explicit program type succeeds, the object given to the kernel had
  every entry program set to that type, attach type and device, subprogram storage untouched,
  every map that is not offload-neutral bound to the device, and the descriptor returned is the
  one of the first entry program.
\<close>

theorem prog_load_xattr_prepared:
  assumes "prog_load_xattr object_open object_load (Some attr) = Inr (obj, fd)"
    and "at_prog_type attr \<noteq> BPF_PROG_TYPE_UNSPEC"
  shows "\<exists>path o0 o1 i is. at_file attr = Some path \<and> object_open path = Some o0 \<and>
    prepared attr o0 o1 \<and> object_load o1 = (0, obj) \<and> each_program o0 = i # is \<and>
    fd = program_fd (programs obj ! i)"
proof -
  obtain path where path: "at_file attr = Some path"
    using assms(1) by (auto simp: prog_load_xattr_def split: option.splits)
  obtain o0 where o0: "object_open path = Some o0"
    using assms(1) by (auto simp: prog_load_xattr_def path split: option.splits)
  obtain ps where ps: "load_attr_programs attr (each_program o0) o0 = Some (o0\<lparr>programs := ps\<rparr>)"
    "length ps = length (programs o0)"
    "\<forall>i < length ps. ps ! i = (if i \<in> set (each_program o0) then configured attr (programs o0 ! i)
                                else programs o0 ! i)"
    using load_attr_programs_configured [OF assms(2), of "each_program o0" o0] each_program_less
    by blast
  let ?o1 = "set_maps_ifindex (at_ifindex attr) (o0\<lparr>programs := ps\<rparr>)"
  have "\<exists>i is. each_program o0 = i # is \<and> object_load ?o1 = (0, obj) \<and>
      fd = program_fd (programs obj ! i)"
    using assms(1) by (auto simp: prog_load_xattr_def path o0 ps(1) Let_def split: list.splits
        prod.splits if_splits)
  moreover have "prepared attr o0 ?o1"
    using ps(2,3) by (auto simp: prepared_def set_maps_ifindex_def map_set_ifindex_def
        each_program_def programs_from_filter after_prog_def)
  ultimately show ?thesis using path o0 by blast
qed

lemma prog_load_xattr_prepared_witness:
  "let p = \<lparr>pg_idx = 3, section_name = ''xdp_pass'', pg_type = 0, attach_type = 0,
            prog_ifindex = 0, log_level = 0, prog_flags = 0, instances = [5]\<rparr>;
       o0 = \<lparr>programs = [p], maps = [], text_shndx = 1, has_pseudo_calls = False\<rparr>;
       attr = \<lparr>at_file = Some ''x.o'', at_prog_type = 6, at_attach_type = 0, at_ifindex = 8,
               at_log_level = 0, at_prog_flags = 0\<rparr>
    in \<exists>obj. prog_load_xattr (\<lambda>_. Some o0) (\<lambda>o1. (0, o1)) (Some attr) = Inr (obj, 5) \<and>
         prepared attr o0 obj"
proof -
  let ?p = "\<lparr>pg_idx = 3, section_name = ''xdp_pass'', pg_type = 0, attach_type = 0,
            prog_ifindex = 0, log_level = 0, prog_flags = 0, instances = [5]\<rparr>"
  let ?o0 = "\<lparr>programs = [?p], maps = [], text_shndx = 1, has_pseudo_calls = False\<rparr>"
  let ?attr = "\<lparr>at_file = Some ''x.o'', at_prog_type = 6, at_attach_type = 0, at_ifindex = 8,
               at_log_level = 0, at_prog_flags = 0\<rparr>"
  have each: "each_program ?o0 = [0]"
    by (simp add: each_program_def programs_from_filter after_prog_def is_function_storage_def)
  obtain obj where run: "prog_load_xattr (\<lambda>_. Some ?o0) (\<lambda>o1. (0, o1)) (Some ?attr) = Inr (obj, 5)"
    by (simp add: prog_load_xattr_def each load_attr_program_configured update_program_def
        BPF_PROG_TYPE_UNSPEC_def configured_def set_maps_ifindex_def program_fd_def
        program_nth_fd_def)
  from prog_load_xattr_prepared [OF run] have "prepared ?attr ?o0 obj"
    by (simp add: BPF_PROG_TYPE_UNSPEC_def)
  with run show ?thesis unfolding Let_def by blast
qed

end
