(* ===== verification/Nlattr.thy ===== *)
theory Nlattr
  imports Prelude
begin

text \<open>
  Netlink attributes: \<^verbatim>\<open>libbpf/src/nlattr.c\<close> and \<^verbatim>\<open>nlattr.h\<close>. The message is a byte
  array and an attribute is its offset in it; a load outside of the array is \<open>None\<close>.
\<close>

unbundle bit_operations_syntax

section \<open>Attributes in memory\<close>

definition NLA_ALIGN :: "nat \<Rightarrow> nat" where
  "NLA_ALIGN len = (len + 3) div 4 * 4"

definition nla_len_field :: "u8 list \<Rightarrow> nat \<Rightarrow> nat option" where
  "nla_len_field b nla = map_option unat (rd16 b nla)"

definition nla_type :: "u8 list \<Rightarrow> nat \<Rightarrow> nat option" where
  "nla_type b nla = map_option (\<lambda>t. unat (t AND 0x3fff)) (rd16 b (nla + 2))"

definition libbpf_nla_data :: "nat \<Rightarrow> nat" where
  "libbpf_nla_data nla = nla + 4"

definition libbpf_nla_len :: "u8 list \<Rightarrow> nat \<Rightarrow> int option" where
  "libbpf_nla_len b nla = map_option (\<lambda>l. int l - 4) (nla_len_field b nla)"

definition libbpf_nla_getattr_u8 :: "u8 list \<Rightarrow> nat \<Rightarrow> u8 option" where
  "libbpf_nla_getattr_u8 b nla = rd b (libbpf_nla_data nla)"

definition libbpf_nla_getattr_u32 :: "u8 list \<Rightarrow> nat \<Rightarrow> u32 option" where
  "libbpf_nla_getattr_u32 b nla = rd32 b (libbpf_nla_data nla)"

text \<open>
  \<^verbatim>\<open>nla_ok\<close>: the comparison of \<^verbatim>\<open>remaining\<close> with \<^verbatim>\<open>sizeof(*nla)\<close> is made on
  \<^verbatim>\<open>size_t\<close>, so a negative \<^verbatim>\<open>remaining\<close> passes it; the last one is made on \<^verbatim>\<open>int\<close>.
\<close>

definition nla_ok :: "u8 list \<Rightarrow> nat \<Rightarrow> int \<Rightarrow> bool option" where
  "nla_ok b nla remaining =
     (if remaining < 0 \<or> 4 \<le> remaining
      then do { l \<leftarrow> nla_len_field b nla; Some (4 \<le> l \<and> int l \<le> remaining) }
      else Some False)"

text \<open>\<^verbatim>\<open>nla_next\<close>: the next attribute and the bytes that remain from it on.\<close>

definition nla_next :: "u8 list \<Rightarrow> nat \<Rightarrow> int \<Rightarrow> (nat \<times> int) option" where
  "nla_next b nla remaining = do {
     l \<leftarrow> nla_len_field b nla;
     let totlen = NLA_ALIGN l;
     Some (nla + totlen, remaining - int totlen)
   }"

section \<open>Validation\<close>

record nla_policy =
  np_type :: nat
  np_minlen :: nat
  np_maxlen :: nat

definition LIBBPF_NLA_UNSPEC :: nat where [c_consts]: "LIBBPF_NLA_UNSPEC = 0"
definition LIBBPF_NLA_U8 :: nat where [c_consts]: "LIBBPF_NLA_U8 = 1"
definition LIBBPF_NLA_U16 :: nat where [c_consts]: "LIBBPF_NLA_U16 = 2"
definition LIBBPF_NLA_U32 :: nat where [c_consts]: "LIBBPF_NLA_U32 = 3"
definition LIBBPF_NLA_U64 :: nat where [c_consts]: "LIBBPF_NLA_U64 = 4"
definition LIBBPF_NLA_STRING :: nat where [c_consts]: "LIBBPF_NLA_STRING = 5"
definition LIBBPF_NLA_FLAG :: nat where [c_consts]: "LIBBPF_NLA_FLAG = 6"
definition LIBBPF_NLA_TYPE_MAX :: nat where [c_consts]: "LIBBPF_NLA_TYPE_MAX = 8"

definition nla_attr_minlen :: "nat list" where
  "nla_attr_minlen = [0, 1, 2, 4, 8, 1, 0, 0, 0]"

definition validate_nla :: "u8 list \<Rightarrow> nat \<Rightarrow> nat \<Rightarrow> nla_policy list \<Rightarrow> int option" where
  "validate_nla b nla maxtype policy = do {
     type \<leftarrow> nla_type b nla;
     if maxtype < type then Some 0
     else do {
       pt \<leftarrow> rd policy type;
       if LIBBPF_NLA_TYPE_MAX < np_type pt then Some 0
       else do {
         minlen \<leftarrow> (if np_minlen pt \<noteq> 0 then Some (np_minlen pt)
                    else if np_type pt \<noteq> LIBBPF_NLA_UNSPEC then rd nla_attr_minlen (np_type pt)
                    else Some 0);
         len \<leftarrow> libbpf_nla_len b nla;
         if 0 \<le> len \<and> len < int minlen then Some (- 1)
         else if np_maxlen pt \<noteq> 0 \<and> int (np_maxlen pt) < len then Some (- 1)
         else if np_type pt = LIBBPF_NLA_STRING
         then do {
           c \<leftarrow> rd b (nat (int (libbpf_nla_data nla) + len - 1));
           Some (if c \<noteq> 0 then - 1 else 0)
         }
         else Some 0
       }
     }
   }"

section \<open>Parsing a stream of attributes\<close>

lemma nla_next_decreases:
  "nla_ok b nla rem = Some True \<Longrightarrow> nla_next b nla rem = Some (nla', rem') \<Longrightarrow> nat rem' < nat rem"
  by (auto simp: nla_ok_def nla_next_def NLA_ALIGN_def Let_def bind_Some_iff split: if_splits)

text \<open>The loop of \<^verbatim>\<open>libbpf_nla_parse\<close> from attribute \<open>nla\<close> on, \<open>tb\<close> being the index array.\<close>

function nla_parse_loop :: "u8 list \<Rightarrow> nla_policy list option \<Rightarrow> nat \<Rightarrow> nat \<Rightarrow> int \<Rightarrow>
    nat option list \<Rightarrow> (int \<times> nat option list) option" where
  "nla_parse_loop b policy maxtype nla rem tb =
     (case nla_ok b nla rem of
        None \<Rightarrow> None
      | Some ok \<Rightarrow>
          if \<not> ok then Some (0, tb)
          else do {
            type \<leftarrow> nla_type b nla;
            (nla', rem') \<leftarrow> nla_next b nla rem;
            if maxtype < type then nla_parse_loop b policy maxtype nla' rem' tb
            else do {
              err \<leftarrow> (case policy of None \<Rightarrow> Some 0 | Some p \<Rightarrow> validate_nla b nla maxtype p);
              if err < 0 then Some (err, tb)
              else nla_parse_loop b policy maxtype nla' rem' (tb[type := Some nla])
            }
          })"
  by pat_completeness auto

termination
  by (relation "measure (\<lambda>(b, policy, maxtype, nla, rem, tb). nat rem)")
    (auto dest: nla_next_decreases)

declare nla_parse_loop.simps [simp del]

definition libbpf_nla_parse :: "u8 list \<Rightarrow> nat \<Rightarrow> nat \<Rightarrow> int \<Rightarrow> nla_policy list option \<Rightarrow>
    (int \<times> nat option list) option" where
  "libbpf_nla_parse b maxtype head len policy =
     nla_parse_loop b policy maxtype head len (replicate (maxtype + 1) None)"

definition libbpf_nla_parse_nested :: "u8 list \<Rightarrow> nat \<Rightarrow> nat \<Rightarrow> nla_policy list option \<Rightarrow>
    (int \<times> nat option list) option" where
  "libbpf_nla_parse_nested b maxtype nla policy = do {
     len \<leftarrow> libbpf_nla_len b nla;
     libbpf_nla_parse b maxtype (libbpf_nla_data nla) len policy
   }"

section \<open>Memory safety\<close>

text \<open>An attribute whose header and payload lie in the first \<open>e\<close> bytes of the message.\<close>

definition attr_in :: "u8 list \<Rightarrow> nat \<Rightarrow> nat \<Rightarrow> bool" where
  "attr_in b e nla \<longleftrightarrow> e \<le> length b \<and>
     (\<exists>l. nla_len_field b nla = Some l \<and> 4 \<le> l \<and> nla + l \<le> e)"

lemma nla_len_field_Some: "i + 2 \<le> length b \<Longrightarrow> \<exists>l. nla_len_field b i = Some l \<and> l < 65536"
  by (auto simp: nla_len_field_def rd16_Some unat_lt_65536)

lemma nla_type_Some: "i + 4 \<le> length b \<Longrightarrow> \<exists>t. nla_type b i = Some t"
  by (simp add: nla_type_def rd16_Some)

lemma attr_in_type: "attr_in b e nla \<Longrightarrow> \<exists>t. nla_type b nla = Some t"
  by (rule nla_type_Some) (auto simp: attr_in_def)

lemma validate_nla_safe:
  assumes "attr_in b e nla" "maxtype < length policy"
  shows "\<exists>r \<in> {0, - 1}. validate_nla b nla maxtype policy = Some r"
proof -
  obtain l where l: "nla_len_field b nla = Some l" "4 \<le> l" "nla + l \<le> length b"
    using assms(1) unfolding attr_in_def by auto
  obtain t where t: "nla_type b nla = Some t" using attr_in_type [OF assms(1)] ..
  show ?thesis
  proof (cases "maxtype < t \<or> LIBBPF_NLA_TYPE_MAX < np_type (policy ! t)")
    case True
    then show ?thesis using t assms(2) by (auto simp: validate_nla_def)
  next
    case False
    let ?pt = "policy ! t"
    have pt: "rd policy t = Some ?pt" using False assms(2) by simp
    obtain ml where ml: "(if np_minlen ?pt \<noteq> 0 then Some (np_minlen ?pt)
                    else if np_type ?pt \<noteq> LIBBPF_NLA_UNSPEC then rd nla_attr_minlen (np_type ?pt)
                    else Some 0) = Some ml" (is "?m = _")
      using False by (cases "?m") (auto simp: nla_attr_minlen_def c_consts rd_def split: if_splits)
    have pos: "0 < ml" if "np_type ?pt = LIBBPF_NLA_STRING"
      using ml that by (auto simp: c_consts nla_attr_minlen_def split: if_splits)
    show ?thesis
    proof (cases "int l - 4 < int ml")
      case True
      then show ?thesis using False pt l t ml by (simp add: validate_nla_def libbpf_nla_len_def)
    next
      case no: False
      have "nat (int (libbpf_nla_data nla) + (int l - 4) - 1) < length b"
        using l by (simp add: libbpf_nla_data_def)
      then show ?thesis using False pt l t ml no
        by (simp add: validate_nla_def libbpf_nla_len_def)
    qed
  qed
qed

text \<open>The index array of a parsed stream: entries are attributes of their index's type.\<close>

definition tb_ok :: "u8 list \<Rightarrow> nat \<Rightarrow> nat \<Rightarrow> nat \<Rightarrow> nat option list \<Rightarrow> bool" where
  "tb_ok b s e maxtype tb \<longleftrightarrow> length tb = maxtype + 1 \<and>
     (\<forall>t a. t \<le> maxtype \<longrightarrow> tb ! t = Some a \<longrightarrow>
        s \<le> a \<and> attr_in b e a \<and> nla_type b a = Some t)"

lemma tb_ok_empty: "tb_ok b s e maxtype (replicate (maxtype + 1) None)"
  by (simp add: tb_ok_def nth_replicate del: replicate_Suc)

lemma tb_ok_update:
  assumes "tb_ok b s e maxtype tb" "s \<le> a" "attr_in b e a" "nla_type b a = Some t"
  shows "tb_ok b s e maxtype (tb[t := Some a])"
proof -
  have "s \<le> a' \<and> attr_in b e a' \<and> nla_type b a' = Some t'"
    if "t' \<le> maxtype" "tb[t := Some a] ! t' = Some a'" for t' a'
    using assms that by (cases "t' = t") (auto simp: tb_ok_def)
  then show ?thesis using assms(1) by (simp add: tb_ok_def)
qed

lemma NLA_ALIGN_bounds: "x \<le> NLA_ALIGN x" "NLA_ALIGN x < x + 4" "4 dvd NLA_ALIGN x"
  by (auto simp: NLA_ALIGN_def)

lemma nla_parse_loop_safe:
  assumes "0 \<le> rem" "4 dvd rem" "nla + nat rem = e" "e \<le> length b" "s \<le> nla"
    and "\<forall>p. policy = Some p \<longrightarrow> maxtype < length p" "tb_ok b s e maxtype tb"
  shows "\<exists>err tb'. nla_parse_loop b policy maxtype nla rem tb = Some (err, tb') \<and>
    err \<in> {0, - 1} \<and> (policy = None \<longrightarrow> err = 0) \<and> tb_ok b s e maxtype tb'"
  using assms(1,2,3,5,7)
proof (induction "nat rem" arbitrary: nla rem tb rule: less_induct)
  case less
  note step = nla_parse_loop.simps [of b policy maxtype nla rem tb]
  show ?case
  proof (cases "rem < 4")
    case True
    then have "nla_ok b nla rem = Some False" using less.prems(1) by (simp add: nla_ok_def)
    then show ?thesis using less.prems(5) by (simp add: step)
  next
    case False
    then have "nla + 4 \<le> length b" using less.prems(3) assms(4) by linarith
    then obtain l t where l: "nla_len_field b nla = Some l" and t: "nla_type b nla = Some t"
      using nla_len_field_Some [of nla b] nla_type_Some [of nla b] by auto
    show ?thesis
    proof (cases "4 \<le> l \<and> int l \<le> rem")
      case bad: False
      then have "nla_ok b nla rem = Some False" using False l by (auto simp: nla_ok_def)
      then show ?thesis using less.prems(5) by (simp add: step)
    next
      case ok: True
      then have o: "nla_ok b nla rem = Some True" using False l by (simp add: nla_ok_def)
      have "attr_in b e nla" using ok l less.prems(1,3) assms(4) by (auto simp: attr_in_def)
      let ?rem = "rem - int (NLA_ALIGN l)" and ?nla = "nla + NLA_ALIGN l"
      have dv: "4 dvd int (NLA_ALIGN l)" using NLA_ALIGN_bounds(3) [of l] by presburger
      then have rem: "0 \<le> ?rem" "4 dvd ?rem"
        using ok less.prems(2) NLA_ALIGN_bounds(2) [of l] by presburger+
      have nx: "nla_next b nla rem = Some (?nla, ?rem)" by (simp add: nla_next_def l Let_def)
      have dec: "nat ?rem < nat rem" by (rule nla_next_decreases [OF o nx])
      have e: "?nla + nat ?rem = e" using rem(1) less.prems(1,3) by linarith
      have IH: "tb_ok b s e maxtype tb' \<Longrightarrow> \<exists>err tb''. nla_parse_loop b policy maxtype ?nla ?rem tb' =
          Some (err, tb'') \<and> err \<in> {0, - 1} \<and> (policy = None \<longrightarrow> err = 0) \<and>
          tb_ok b s e maxtype tb''" for tb'
        using less.hyps [OF dec rem e] less.prems(4) by simp
      obtain err where err: "(case policy of None \<Rightarrow> Some 0
          | Some p \<Rightarrow> validate_nla b nla maxtype p) = Some err" "err \<in> {0, - 1}"
          "policy = None \<longrightarrow> err = 0"
        using validate_nla_safe [OF \<open>attr_in b e nla\<close>] assms(6) by (cases policy) auto
      show ?thesis
        using IH [OF less.prems(5)] IH [OF tb_ok_update [OF less.prems(5,4) \<open>attr_in b e nla\<close> t]]
          err less.prems(5)
        by (auto simp: step o t nx)
    qed
  qed
qed

text \<open>
  C35: parsing a stream of attributes that lies in the message and whose length is a multiple of
  4 never reads outside of the message, returns 0 or -1 (0 without a policy), and every entry of
  the index array is an attribute of that type lying in the stream.
\<close>

theorem nla_parse_safe:
  assumes "head + len \<le> length b" "4 dvd len"
    and "\<forall>p. policy = Some p \<longrightarrow> maxtype < length p"
  shows "\<exists>err tb. libbpf_nla_parse b maxtype head (int len) policy = Some (err, tb) \<and>
    err \<in> {0, - 1} \<and> (policy = None \<longrightarrow> err = 0) \<and> tb_ok b head (head + len) maxtype tb"
  unfolding libbpf_nla_parse_def
  using assms tb_ok_empty by (intro nla_parse_loop_safe) auto

lemma nla_parse_safe_witness:
  "\<exists>err tb. libbpf_nla_parse [8, 0, 2, 0, 1, 2, 3, 4, 5, 0, 1, 0, 9, 0, 0, 0] 3 0 16 None =
     Some (err, tb) \<and> err = 0 \<and> length tb = 4"
proof -
  have "\<exists>err tb. libbpf_nla_parse [8, 0, 2, 0, 1, 2, 3, 4, 5, 0, 1, 0, 9, 0, 0, 0] 3 0 (int 16) None =
     Some (err, tb) \<and> err \<in> {0, - 1} \<and> ((None :: nla_policy list option) = None \<longrightarrow> err = 0) \<and>
     tb_ok [8, 0, 2, 0, 1, 2, 3, 4, 5, 0, 1, 0, 9, 0, 0, 0] 0 (0 + 16) 3 tb"
    by (rule nla_parse_safe) simp_all
  then show ?thesis by (auto simp: tb_ok_def)
qed

text \<open>
  An attribute whose payload is not padded, at the very end of the message, makes the parser
  read past the message: the remaining length becomes negative, and \<^verbatim>\<open>nla_ok\<close> compares it
  with \<^verbatim>\<open>sizeof\<close> as an unsigned number.
\<close>

theorem nla_parse_overread:
  assumes "nla_len_field b nla = Some l" "4 \<le> l" "nla + l = length b" "\<not> 4 dvd l"
  shows "libbpf_nla_parse b maxtype nla (int l) None = None"
proof -
  have "nla_ok b nla (int l) = Some True" using assms by (simp add: nla_ok_def)
  moreover obtain t where "nla_type b nla = Some t"
    using nla_type_Some [of nla b] assms(2,3) by auto
  moreover have "nla_next b nla (int l) = Some (nla + NLA_ALIGN l, int l - int (NLA_ALIGN l))"
    by (simp add: nla_next_def assms(1) Let_def)
  moreover have "NLA_ALIGN l \<noteq> l" using assms(4) NLA_ALIGN_bounds(3) [of l] by metis
  then have gt: "l < NLA_ALIGN l" using NLA_ALIGN_bounds(1) [of l] by simp
  then have "nla_len_field b (nla + NLA_ALIGN l) = None"
    using assms(3) by (simp add: nla_len_field_def rd16_None)
  then have "nla_ok b (nla + NLA_ALIGN l) (int l - int (NLA_ALIGN l)) = None"
    using gt by (simp add: nla_ok_def)
  ultimately show ?thesis
    by (simp add: libbpf_nla_parse_def nla_parse_loop.simps)
qed

lemma nla_parse_overread_witness: "libbpf_nla_parse [5, 0, 1, 0, 9] 3 0 5 None = None"
  using nla_parse_overread [of "[5, 0, 1, 0, 9]" 0 5 3]
  by (simp add: nla_len_field_def rd16_Some le16_def)

section \<open>What the parser finds in a well-formed stream\<close>

text \<open>The wire format: length, type, payload, padding to a multiple of 4.\<close>

definition nla_bytes :: "u16 \<times> u8 list \<Rightarrow> u8 list" where
  "nla_bytes a = (case a of (t, payload) \<Rightarrow>
     let l = of_nat (length payload + 4) :: u16
      in [lo8 l, hi8 l, lo8 t, hi8 t] @ payload @
         replicate (NLA_ALIGN (length payload) - length payload) 0)"

definition nla_stream :: "(u16 \<times> u8 list) list \<Rightarrow> u8 list" where
  "nla_stream as = concat (map nla_bytes as)"

fun attr_offsets :: "nat \<Rightarrow> (u16 \<times> u8 list) list \<Rightarrow> (nat \<times> nat) list" where
  "attr_offsets nla [] = []"
| "attr_offsets nla (a # as) =
     (unat (fst a AND 0x3fff), nla) # attr_offsets (nla + length (nla_bytes a)) as"

definition attr_fits :: "u16 \<times> u8 list \<Rightarrow> bool" where
  "attr_fits a \<longleftrightarrow> length (snd a) + 4 < 65536"

lemma length_nla_bytes: "length (nla_bytes (t, payload)) = NLA_ALIGN (length payload + 4)"
proof -
  have "(n + 4 + 3) div 4 * 4 = (n + 3) div 4 * 4 + 4" for n :: nat by presburger
  then show ?thesis
    using NLA_ALIGN_bounds(1) [of "length payload"]
    by (simp add: nla_bytes_def Let_def) (simp add: NLA_ALIGN_def)
qed

lemma nla_stream_simps [simp]:
  "nla_stream [] = []" "nla_stream (a # as) = nla_bytes a @ nla_stream as"
  by (simp_all add: nla_stream_def)

lemma nla_bytes_fields:
  assumes "attr_fits (t, payload)"
  shows "nla_len_field (pre @ nla_bytes (t, payload) @ post) (length pre) = Some (length payload + 4)"
    and "nla_type (pre @ nla_bytes (t, payload) @ post) (length pre) = Some (unat (t AND 0x3fff))"
proof -
  let ?l = "of_nat (length payload + 4) :: u16"
  have l: "unat ?l = length payload + 4"
    using assms by (simp add: attr_fits_def unsigned_of_nat take_bit_nat_eq_self del: of_nat_add)
  have 0: "rd16 (pre @ nla_bytes (t, payload) @ post) (length pre + 0) = Some ?l"
    and 2: "rd16 (pre @ nla_bytes (t, payload) @ post) (length pre + 2) = Some t"
    unfolding rd16_append
    by (simp_all add: nla_bytes_def Let_def rd16_Some del: of_nat_add)
  show "nla_len_field (pre @ nla_bytes (t, payload) @ post) (length pre) = Some (length payload + 4)"
    using 0 l by (simp add: nla_len_field_def)
  show "nla_type (pre @ nla_bytes (t, payload) @ post) (length pre) = Some (unat (t AND 0x3fff))"
    using 2 by (simp add: nla_type_def)
qed

lemma nla_parse_loop_stream:
  assumes "list_all attr_fits as" "length tb = maxtype + 1"
  shows "\<exists>tb'. nla_parse_loop (pre @ nla_stream as @ post) None maxtype (length pre)
      (int (length (nla_stream as))) tb = Some (0, tb') \<and>
    length tb' = maxtype + 1 \<and>
    (\<forall>t \<le> maxtype. tb' ! t = (case map_of (rev (attr_offsets (length pre) as)) t of
       None \<Rightarrow> tb ! t | Some a \<Rightarrow> Some a))"
  using assms
proof (induction as arbitrary: pre tb)
  case Nil
  have "nla_ok (pre @ nla_stream [] @ post) (length pre) 0 = Some False" by (simp add: nla_ok_def)
  then show ?case using Nil.prems by (simp add: nla_parse_loop.simps)
next
  case (Cons a as)
  obtain t payload where a: "a = (t, payload)" by (cases a)
  let ?b = "pre @ nla_stream (a # as) @ post" and ?rem = "int (length (nla_stream (a # as)))"
  let ?t = "unat (t AND 0x3fff)" and ?l = "length payload + 4"
  have fits: "attr_fits (t, payload)" using Cons.prems(1) by (simp add: a)
  have b: "?b = pre @ nla_bytes (t, payload) @ nla_stream as @ post" by (simp add: a)
  note fields = nla_bytes_fields [OF fits, of pre "nla_stream as @ post", folded b]
  have len: "length (nla_bytes a) = NLA_ALIGN ?l" by (simp add: a length_nla_bytes)
  have ok: "nla_ok ?b (length pre) ?rem = Some True"
    unfolding nla_ok_def fields using NLA_ALIGN_bounds(1) [of ?l] len by simp
  have nx: "nla_next ?b (length pre) ?rem =
      Some (length (pre @ nla_bytes a), int (length (nla_stream as)))"
    unfolding nla_next_def fields by (simp add: Let_def len)
  have b': "?b = (pre @ nla_bytes a) @ nla_stream as @ post" by simp
  let ?tb = "if ?t \<le> maxtype then tb[?t := Some (length pre)] else tb"
  have run: "nla_parse_loop ?b None maxtype (length pre) ?rem tb =
      nla_parse_loop ((pre @ nla_bytes a) @ nla_stream as @ post) None maxtype
        (length (pre @ nla_bytes a)) (int (length (nla_stream as))) ?tb"
    unfolding nla_parse_loop.simps [of ?b None maxtype "length pre" ?rem tb] ok nx fields b' [symmetric]
    by simp
  have "length ?tb = maxtype + 1" using Cons.prems(2) by simp
  from Cons.IH [OF _ this, of "pre @ nla_bytes a"] Cons.prems(1) obtain tb' where
    tb': "nla_parse_loop ((pre @ nla_bytes a) @ nla_stream as @ post) None maxtype
        (length (pre @ nla_bytes a)) (int (length (nla_stream as))) ?tb = Some (0, tb')"
      "length tb' = maxtype + 1"
      "\<forall>t \<le> maxtype. tb' ! t = (case map_of (rev (attr_offsets (length (pre @ nla_bytes a)) as)) t of
       None \<Rightarrow> ?tb ! t | Some a \<Rightarrow> Some a)" by auto
  have "\<forall>t' \<le> maxtype. tb' ! t' = (case map_of (rev (attr_offsets (length pre) (a # as))) t' of
       None \<Rightarrow> tb ! t' | Some a \<Rightarrow> Some a)"
    using tb'(3) Cons.prems(2)
    by (auto simp: a map_add_def nth_list_update split: option.splits)
  then show ?case using run tb'(1,2) by auto
qed

lemma nla_parse_stream_aux:
  assumes "list_all attr_fits as"
  shows "\<exists>tb. libbpf_nla_parse (pre @ nla_stream as @ post) maxtype (length pre)
      (int (length (nla_stream as))) None = Some (0, tb) \<and> length tb = maxtype + 1 \<and>
    (\<forall>t \<le> maxtype. tb ! t = map_of (rev (attr_offsets (length pre) as)) t)"
proof -
  have "length (replicate (maxtype + 1) None) = maxtype + 1" by simp
  from nla_parse_loop_stream [OF assms this, of pre post] show ?thesis
    by (auto simp: libbpf_nla_parse_def nth_replicate split: option.splits simp del: replicate_Suc)
qed

text \<open>
  C34: a stream of attributes in wire format, anywhere in a message, is parsed without error, and
  the index array has for every type up to the maximum the offset of the last attribute of that
  type, or nothing when there is none.
\<close>

theorem nla_parse_stream:
  assumes "list_all attr_fits as"
  shows "\<exists>tb. libbpf_nla_parse (pre @ nla_stream as @ post) maxtype (length pre)
      (int (length (nla_stream as))) None = Some (0, tb) \<and> length tb = maxtype + 1 \<and>
    (\<forall>t \<le> maxtype. tb ! t = map_of (rev (attr_offsets (length pre) as)) t)"
  using nla_parse_stream_aux [OF assms] .

lemma nla_parse_stream_witness:
  "\<exists>tb. libbpf_nla_parse (nla_stream [(1, [7]), (2, [8, 9]), (1, [5])]) 3 0 24 None = Some (0, tb) \<and>
     tb ! 1 = Some 16 \<and> tb ! 2 = Some 8 \<and> tb ! 3 = None"
  using nla_parse_stream [of "[(1, [7]), (2, [8, 9]), (1, [5])]" "[]" "[]" 3]
  by (auto simp: attr_fits_def length_nla_bytes NLA_ALIGN_def)

definition nla_header :: "u16 \<times> u8 list \<Rightarrow> u8 list" where
  "nla_header a = take 4 (nla_bytes a)"

definition nla_padding :: "u16 \<times> u8 list \<Rightarrow> u8 list" where
  "nla_padding a = replicate (NLA_ALIGN (length (snd a)) - length (snd a)) 0"

lemma nla_bytes_split: "nla_bytes (t, p) = nla_header (t, p) @ p @ nla_padding (t, p)"
  by (simp add: nla_header_def nla_padding_def nla_bytes_def Let_def)

lemma length_nla_header [simp]: "length (nla_header a) = 4"
  by (cases a) (simp add: nla_header_def nla_bytes_def Let_def)

lemma nla_parse_nested_stream:
  assumes "list_all attr_fits as" "attr_fits (t, nla_stream as)"
  shows "\<exists>tb. libbpf_nla_parse_nested (pre @ nla_bytes (t, nla_stream as) @ post) maxtype
      (length pre) None = Some (0, tb) \<and> length tb = maxtype + 1 \<and>
    (\<forall>t \<le> maxtype. tb ! t = map_of (rev (attr_offsets (length pre + 4) as)) t)"
proof -
  let ?h = "nla_header (t, nla_stream as)" and ?p = "nla_padding (t, nla_stream as)"
  have len: "libbpf_nla_len (pre @ nla_bytes (t, nla_stream as) @ post) (length pre) =
      Some (int (length (nla_stream as)))"
    by (simp add: libbpf_nla_len_def nla_bytes_fields [OF assms(2)])
  have b: "pre @ nla_bytes (t, nla_stream as) @ post = (pre @ ?h) @ nla_stream as @ ?p @ post"
    by (simp add: nla_bytes_split)
  show ?thesis
    using nla_parse_stream_aux [OF assms(1), of "pre @ ?h" "?p @ post" maxtype]
    by (simp add: libbpf_nla_parse_nested_def len libbpf_nla_data_def)
      (simp add: b [simplified])
qed

lemma nla_getattr_u32_bytes:
  "libbpf_nla_getattr_u32 (pre @ nla_bytes (t, word_bytes w) @ post) (length pre) = Some w"
proof -
  have "pre @ nla_bytes (t, word_bytes w) @ post =
      (pre @ nla_header (t, word_bytes w)) @ word_bytes w @ nla_padding (t, word_bytes w) @ post"
    by (simp add: nla_bytes_split)
  moreover have "rd32 \<dots> (length (pre @ nla_header (t, word_bytes w)) + 0) = Some w"
    unfolding rd32_append by (rule rd32_word_bytes_app)
  ultimately show ?thesis by (simp add: libbpf_nla_getattr_u32_def libbpf_nla_data_def)
qed

section \<open>Extended error messages\<close>

definition NLM_F_CAPPED :: u16 where [c_consts]: "NLM_F_CAPPED = 0x100"
definition NLM_F_ACK_TLVS :: u16 where [c_consts]: "NLM_F_ACK_TLVS = 0x200"

definition extack_policy :: "nla_policy list" where
  "extack_policy = [\<lparr>np_type = 0, np_minlen = 0, np_maxlen = 0\<rparr>,
     \<lparr>np_type = LIBBPF_NLA_STRING, np_minlen = 0, np_maxlen = 0\<rparr>,
     \<lparr>np_type = LIBBPF_NLA_U32, np_minlen = 0, np_maxlen = 0\<rparr>,
     \<lparr>np_type = 0, np_minlen = 0, np_maxlen = 0\<rparr>]"

text \<open>
  Where \<^verbatim>\<open>libbpf_nla_dump_errormsg\<close> looks for attributes in the message at \<open>nlh\<close>: their
  start and the length it computes for them; \<open>Some None\<close> when the message has none.
\<close>

definition errormsg_attrs :: "u8 list \<Rightarrow> nat \<Rightarrow> (nat \<times> int) option option" where
  "errormsg_attrs b nlh = do {
     flags \<leftarrow> rd16 b (nlh + 6);
     if flags AND NLM_F_ACK_TLVS = 0 then Some None
     else do {
       let err = nlh + 16;
       hlen \<leftarrow> (if flags AND NLM_F_CAPPED = 0
                then do { l \<leftarrow> rd32 b (err + 4); Some (20 + (sint l - 16)) }
                else Some 20);
       len \<leftarrow> rd32 b nlh;
       Some (Some (nat (int err + hlen), sint len - hlen))
     }
   }"

text \<open>The characters \<^verbatim>\<open>%s\<close> prints from an address: up to the first NUL.\<close>

definition read_cstr :: "u8 list \<Rightarrow> nat \<Rightarrow> u8 list option" where
  "read_cstr b i = (if 0 \<in> set (drop i b) then Some (takeWhile (\<lambda>c. c \<noteq> 0) (drop i b)) else None)"

text \<open>The kernel's message it prints; \<open>Some None\<close> when there is none.\<close>

definition libbpf_nla_dump_errormsg :: "u8 list \<Rightarrow> nat \<Rightarrow> u8 list option option" where
  "libbpf_nla_dump_errormsg b nlh = do {
     attrs \<leftarrow> errormsg_attrs b nlh;
     (case attrs of
        None \<Rightarrow> Some None
      | Some (attr, alen) \<Rightarrow> do {
          (err, tb) \<leftarrow> libbpf_nla_parse b 3 attr alen (Some extack_policy);
          if err \<noteq> 0 then Some None
          else (case tb ! 1 of
                  None \<Rightarrow> Some None
                | Some a \<Rightarrow> do { s \<leftarrow> read_cstr b (libbpf_nla_data a); Some (Some s) })
        })
   }"

text \<open>
  The attributes \<^verbatim>\<open>libbpf_nla_dump_errormsg\<close> parses end 16 bytes behind the end of the
  netlink message they belong to: the length is computed from the message's total length
  without taking off the message header.
\<close>

theorem errormsg_attrs_past_message:
  assumes "errormsg_attrs b nlh = Some (Some (attr, alen))" "rd32 b nlh = Some len"
    and "rd32 b (nlh + 20) = Some inner" "0 \<le> sint inner"
  shows "int attr + alen = int nlh + sint len + 16"
  using assms
  by (auto simp: errormsg_attrs_def bind_Some_iff add.commute split: if_splits)

lemma errormsg_attrs_past_message_witness:
  "\<exists>attr alen. errormsg_attrs ([48, 0, 0, 0, 2, 0, 0, 3] @ replicate 40 0) 0 = Some (Some (attr, alen)) \<and>
     int attr + alen = 64"
proof -
  let ?b = "[48, 0, 0, 0, 2, 0, 0, 3] @ replicate 40 0 :: u8 list"
  have l: "rd32 ?b 0 = Some 48" by (simp add: rd32_Some le32_def)
  have i: "rd32 ?b (0 + 20) = Some 0" by (simp add: rd32_Some le32_def nth_append)
  obtain attr alen where "errormsg_attrs ?b 0 = Some (Some (attr, alen))"
    using l by (simp add: errormsg_attrs_def rd16_Some le16_def c_consts)
  from errormsg_attrs_past_message [OF this l i] this show ?thesis by simp
qed

text \<open>A string that validation accepted is terminated inside the attribute.\<close>

lemma validated_string_terminated:
  assumes "validate_nla b nla maxtype policy = Some 0" "attr_in b e nla" "nla_type b nla = Some t"
    and "t \<le> maxtype" "t < length policy" "np_type (policy ! t) = LIBBPF_NLA_STRING"
  shows "\<exists>s. read_cstr b (libbpf_nla_data nla) = Some s \<and>
    libbpf_nla_data nla + length s < e"
proof -
  obtain l where l: "nla_len_field b nla = Some l" "4 \<le> l" "nla + l \<le> e" "e \<le> length b"
    using assms(2) unfolding attr_in_def by auto
  have pt: "rd policy t = Some (policy ! t)" using assms(5) by simp
  have len: "libbpf_nla_len b nla = Some (int l - 4)" by (simp add: libbpf_nla_len_def l)
  have i: "nat (int (libbpf_nla_data nla) + int l - 5) = nla + l - Suc 0"
    unfolding libbpf_nla_data_def using l(2) by linarith
  have "4 < l \<and> b ! nat (int (libbpf_nla_data nla) + int l - 5) = 0"
    using assms(1) unfolding validate_nla_def assms(3) pt len
    using assms(4,6) l
    by (simp add: c_consts nla_attr_minlen_def rd_def split: if_split_asm)
  then have "4 < l \<and> b ! (nla + l - Suc 0) = 0" by (simp only: i)
  then have z: "b ! (nla + l - Suc 0) = 0" "4 < l" by blast+
  let ?d = "drop (nla + 4) b"
  have "nla + 4 + (l - 5) = nla + l - Suc 0" using z(2) by linarith
  then have n: "?d ! (l - 5) = 0" using z l by simp
  have lt: "l - 5 < length ?d" using z l by simp
  have mem: "0 \<in> set ?d" using nth_mem [OF lt] unfolding n .
  have "length (takeWhile (\<lambda>c. c \<noteq> 0) ?d) \<le> l - 5"
  proof (rule ccontr)
    assume "\<not> length (takeWhile (\<lambda>c. c \<noteq> 0) ?d) \<le> l - 5"
    then have less: "l - 5 < length (takeWhile (\<lambda>c. c \<noteq> 0) ?d)" by simp
    have "?d ! (l - 5) \<noteq> 0"
      using set_takeWhileD [OF nth_mem [OF less]] unfolding takeWhile_nth [OF less] by blast
    then show False using n by contradiction
  qed
  then show ?thesis using z(2) l mem by (auto simp: read_cstr_def libbpf_nla_data_def)
qed

end
