(* ===== verification/Netlink.thy ===== *)
theory Netlink
  imports Nlattr Params
begin

text \<open>
  Talking to the kernel's routing socket: \<^verbatim>\<open>libbpf/src/netlink.c\<close> (tutorial copy), the
  provider of the \<open>set_link\<close> and \<open>get_id\<close> operations of the loader.

  The kernel is the sequence of the results of \<^verbatim>\<open>recv\<close>: an error number, or the contents of
  the receive buffer with the length received. A dump callback is a function on its cookie.
\<close>

unbundle bit_operations_syntax

definition NLM_F_MULTI :: u16 where [c_consts]: "NLM_F_MULTI = 2"
definition NLMSG_ERROR :: u16 where [c_consts]: "NLMSG_ERROR = 2"
definition NLMSG_DONE :: u16 where [c_consts]: "NLMSG_DONE = 3"
definition LIBBPF_ERRNO__INTERNAL :: int where [c_consts]: "LIBBPF_ERRNO__INTERNAL = 4004"
definition LIBBPF_ERRNO__WRNGPID :: int where [c_consts]: "LIBBPF_ERRNO__WRNGPID = 4011"
definition LIBBPF_ERRNO__INVSEQ :: int where [c_consts]: "LIBBPF_ERRNO__INVSEQ = 4012"
definition LIBBPF_ERRNO__NLPARSE :: int where [c_consts]: "LIBBPF_ERRNO__NLPARSE = 4013"
definition IFLA_XDP :: nat where [c_consts]: "IFLA_XDP = 43"
definition IFLA_XDP_MAX :: nat where [c_consts]: "IFLA_XDP_MAX = 7"
definition XDP_FLAGS_MASK :: u32 where [c_consts]: "XDP_FLAGS_MASK = 15"

section \<open>Opening the socket\<close>

text \<open>Results of the calls; a left value is a positive \<^verbatim>\<open>errno\<close>.\<close>

record open_env =
  oe_socket :: "int + int"
  oe_bind :: "int + unit"
  oe_getsockname :: "int + u32 \<times> nat"

text \<open>The result, the port identifier stored through the pointer, and whether the socket stays open.\<close>

definition libbpf_netlink_open :: "open_env \<Rightarrow> int \<times> u32 option \<times> bool" where
  "libbpf_netlink_open env =
     (case oe_socket env of Inl e \<Rightarrow> (- e, None, False)
      | Inr sock \<Rightarrow>
     (case oe_bind env of Inl e \<Rightarrow> (- e, None, False)
      | Inr _ \<Rightarrow>
     (case oe_getsockname env of Inl e \<Rightarrow> (- e, None, False)
      | Inr (pid, addrlen) \<Rightarrow>
          if addrlen \<noteq> 12 then (- LIBBPF_ERRNO__INTERNAL, None, False)
          else (sock, Some pid, True))))"

section \<open>Receiving\<close>

definition NLMSG_ALIGN :: "nat \<Rightarrow> nat" where
  "NLMSG_ALIGN len = (len + 3) div 4 * 4"

definition NLMSG_OK :: "u8 list \<Rightarrow> nat \<Rightarrow> int \<Rightarrow> bool option" where
  "NLMSG_OK b nh len =
     (if len < 16 then Some False
      else do { l \<leftarrow> rd32 b nh; Some (16 \<le> unat l \<and> int (unat l) \<le> len) })"

datatype inner = Return int | Drained bool

type_synonym 's callback = "u8 list \<Rightarrow> nat \<Rightarrow> 's \<Rightarrow> (int \<times> 's) option"

lemma NLMSG_OK_decreases:
  "NLMSG_OK b nh len = Some True \<Longrightarrow> rd32 b nh = Some l \<Longrightarrow>
     nat (len - int (NLMSG_ALIGN (unat l))) < nat len"
  by (auto simp: NLMSG_OK_def NLMSG_ALIGN_def split: if_splits)

text \<open>
  The loop over the messages of one buffer; \<open>Drained m\<close> is its normal end with the value of
  \<^verbatim>\<open>multipart\<close>.
\<close>

function recv_msgs :: "'s callback option \<Rightarrow> u32 \<Rightarrow> u32 \<Rightarrow> u8 list \<Rightarrow> nat \<Rightarrow> int \<Rightarrow> bool \<Rightarrow> 's \<Rightarrow>
    (inner \<times> 's) option" where
  "recv_msgs fn nl_pid seq b nh len multipart s =
     (case NLMSG_OK b nh len of
        None \<Rightarrow> None
      | Some ok \<Rightarrow>
        if \<not> ok then Some (Drained multipart, s)
        else do {
          l \<leftarrow> rd32 b nh;
          type \<leftarrow> rd16 b (nh + 4);
          flags \<leftarrow> rd16 b (nh + 6);
          mseq \<leftarrow> rd32 b (nh + 8);
          pid \<leftarrow> rd32 b (nh + 12);
          let nh' = nh + NLMSG_ALIGN (unat l);
          let len' = len - int (NLMSG_ALIGN (unat l));
          let multipart' = (multipart \<or> flags AND NLM_F_MULTI \<noteq> 0);
          if pid \<noteq> nl_pid then Some (Return (- LIBBPF_ERRNO__WRNGPID), s)
          else if mseq \<noteq> seq then Some (Return (- LIBBPF_ERRNO__INVSEQ), s)
          else if type = NLMSG_ERROR
          then do {
            e \<leftarrow> rd32 b (nh + 16);
            if e = 0 then recv_msgs fn nl_pid seq b nh' len' multipart' s
            else do { _ \<leftarrow> libbpf_nla_dump_errormsg b nh; Some (Return (sint e), s) }
          }
          else if type = NLMSG_DONE then Some (Return 0, s)
          else (case fn of
                  None \<Rightarrow> recv_msgs fn nl_pid seq b nh' len' multipart' s
                | Some f \<Rightarrow> do {
                    (ret, s') \<leftarrow> f b nh s;
                    if ret \<noteq> 0 then Some (Return ret, s')
                    else recv_msgs fn nl_pid seq b nh' len' multipart' s'
                  })
        })"
  by pat_completeness auto

termination
  by (relation "measure (\<lambda>(fn, p, q, b, nh, len, m, s). nat len)")
    (auto dest: NLMSG_OK_decreases)

declare recv_msgs.simps [simp del]

text \<open>The outer loop. \<open>Waiting\<close>: the kernel has sent nothing more, \<^verbatim>\<open>recv\<close> blocks.\<close>

datatype recv_result = Finished int | Waiting

fun netlink_recv :: "'s callback option \<Rightarrow> u32 \<Rightarrow> u32 \<Rightarrow> (int + u8 list \<times> nat) list \<Rightarrow> 's \<Rightarrow>
    (recv_result \<times> 's) option" where
  "netlink_recv fn nl_pid seq [] s = Some (Waiting, s)"
| "netlink_recv fn nl_pid seq (Inl e # rs) s = Some (Finished (- e), s)"
| "netlink_recv fn nl_pid seq (Inr (b, len) # rs) s =
     (if len = 0 then Some (Finished 0, s)
      else do {
        (r, s') \<leftarrow> recv_msgs fn nl_pid seq b 0 (int len) False s;
        (case r of
           Return v \<Rightarrow> Some (Finished v, s')
         | Drained multipart \<Rightarrow>
             if multipart then netlink_recv fn nl_pid seq rs s' else Some (Finished 0, s'))
      })"

section \<open>Setting the program of a link\<close>

record link_req =
  nlmsg_len :: nat
  nlmsg_type :: u16
  nlmsg_flags :: u16
  nlmsg_seq :: u32
  nlmsg_pid :: u32
  ifi_family :: u8
  ifi_index :: u32
  attrbuf :: "u8 list"

text \<open>
  The request \<^verbatim>\<open>bpf_set_link_xdp_fd\<close> builds; offsets of attributes are relative to
  \<^verbatim>\<open>attrbuf\<close>, which starts at the aligned end of the 32 bytes of headers.
\<close>

definition set_link_request :: "u32 \<Rightarrow> u32 \<Rightarrow> u32 \<Rightarrow> link_req option" where
  "set_link_request ifidx fd flags = do {
     let nla = 0;
     let b = replicate 64 0;
     b \<leftarrow> wr b (nla + 2) (bytes16 (0x8000 OR of_nat IFLA_XDP));
     b \<leftarrow> wr b nla (bytes16 4);
     l \<leftarrow> nla_len_field b nla;
     let nla_xdp = nla + l;
     b \<leftarrow> wr b (nla_xdp + 2) (bytes16 1);
     b \<leftarrow> wr b nla_xdp (bytes16 8);
     b \<leftarrow> wr b (nla_xdp + 4) (word_bytes fd);
     lx \<leftarrow> nla_len_field b nla_xdp;
     b \<leftarrow> wr b nla (bytes16 (of_nat (l + lx)));
     b \<leftarrow> (if flags \<noteq> 0 then do {
             l \<leftarrow> nla_len_field b nla;
             let nla_xdp = nla + l;
             b \<leftarrow> wr b (nla_xdp + 2) (bytes16 3);
             b \<leftarrow> wr b nla_xdp (bytes16 8);
             b \<leftarrow> wr b (nla_xdp + 4) (word_bytes flags);
             lx \<leftarrow> nla_len_field b nla_xdp;
             wr b nla (bytes16 (of_nat (l + lx)))
           } else Some b);
     l \<leftarrow> nla_len_field b nla;
     Some \<lparr>nlmsg_len = 32 + NLA_ALIGN l, nlmsg_type = 19, nlmsg_flags = 5, nlmsg_seq = 1,
           nlmsg_pid = 0, ifi_family = 0, ifi_index = ifidx, attrbuf = b\<rparr>
   }"

text \<open>
  The kernel has a state of its own, \<open>k\<close>: \<open>send\<close> hands it the request and gives the state after
  the request, or an error number, and \<open>replies\<close> are the messages waiting on the socket then.
\<close>

definition bpf_set_link_xdp_fd :: "open_env \<Rightarrow> ('k \<Rightarrow> link_req \<Rightarrow> int + 'k) \<Rightarrow>
    ('k \<Rightarrow> (int + u8 list \<times> nat) list) \<Rightarrow> 'k \<Rightarrow> u32 \<Rightarrow> u32 \<Rightarrow> u32 \<Rightarrow> (recv_result \<times> 'k) option" where
  "bpf_set_link_xdp_fd env send replies k ifidx fd flags =
     (case libbpf_netlink_open env of
        (sock, None, _) \<Rightarrow> Some (Finished sock, k)
      | (sock, Some nl_pid, _) \<Rightarrow>
          if sock < 0 then Some (Finished sock, k)
          else do {
            req \<leftarrow> set_link_request ifidx fd flags;
            (case send k req of
               Inl e \<Rightarrow> Some (Finished (- e), k)
             | Inr k \<Rightarrow> do {
                 (ret, _) \<leftarrow> netlink_recv None nl_pid 1 (replies k) ();
                 Some (ret, k)
               })
          })"

section \<open>Asking for the program of a link\<close>

record xdp_link_info =
  prog_id :: u32
  drv_prog_id :: u32
  hw_prog_id :: u32
  skb_prog_id :: u32
  attach_mode :: u8

record xdp_id_md =
  md_ifindex :: u32
  md_flags :: u32
  md_info :: xdp_link_info

type_synonym 's dump_fn = "u8 list \<Rightarrow> nat \<Rightarrow> nat option list \<Rightarrow> 's \<Rightarrow> (int \<times> 's) option"

text \<open>\<^verbatim>\<open>__dump_link_nlmsg\<close>, with 53 link attributes (\<^verbatim>\<open>IFLA_MAX\<close>).\<close>

definition IFLA_MAX :: nat where [c_consts]: "IFLA_MAX = 53"

definition dump_link_nlmsg :: "'s dump_fn \<Rightarrow> 's callback" where
  "dump_link_nlmsg fn b nlh s = do {
     l \<leftarrow> rd32 b nlh;
     let ifi = nlh + 16;
     (err, tb) \<leftarrow> libbpf_nla_parse b IFLA_MAX (ifi + 16) (sint l - 32) None;
     if err \<noteq> 0 then Some (- LIBBPF_ERRNO__NLPARSE, s) else fn b ifi tb s
   }"

definition get_attr32 :: "u8 list \<Rightarrow> nat option \<Rightarrow> u32 \<Rightarrow> u32 option" where
  "get_attr32 b a old = (case a of None \<Rightarrow> Some old | Some nla \<Rightarrow> libbpf_nla_getattr_u32 b nla)"

definition get_xdp_info :: "xdp_id_md dump_fn" where
  "get_xdp_info b ifinfo tb md = do {
     idx \<leftarrow> rd32 b (ifinfo + 4);
     if md_ifindex md \<noteq> 0 \<and> md_ifindex md \<noteq> idx then Some (0, md)
     else (case tb ! IFLA_XDP of
        None \<Rightarrow> Some (0, md)
      | Some nla \<Rightarrow> do {
          (ret, xdp_tb) \<leftarrow> libbpf_nla_parse_nested b IFLA_XDP_MAX nla None;
          if ret \<noteq> 0 then Some (ret, md)
          else (case xdp_tb ! 2 of
             None \<Rightarrow> Some (0, md)
           | Some att \<Rightarrow> do {
               mode \<leftarrow> libbpf_nla_getattr_u8 b att;
               let info = (md_info md)\<lparr>attach_mode := mode\<rparr>;
               if mode = 0 then Some (0, md\<lparr>md_info := info\<rparr>)
               else do {
                 p \<leftarrow> get_attr32 b (xdp_tb ! 4) (prog_id info);
                 k \<leftarrow> get_attr32 b (xdp_tb ! 6) (skb_prog_id info);
                 d \<leftarrow> get_attr32 b (xdp_tb ! 5) (drv_prog_id info);
                 h \<leftarrow> get_attr32 b (xdp_tb ! 7) (hw_prog_id info);
                 Some (0, md\<lparr>md_info := info\<lparr>prog_id := p, skb_prog_id := k,
                                             drv_prog_id := d, hw_prog_id := h\<rparr>\<rparr>)
               }
             })
        })
   }"

text \<open>
  \<^verbatim>\<open>bpf_get_link_xdp_info\<close> for a buffer of the size of \<^verbatim>\<open>struct xdp_link_info\<close>, with
  \<open>nl_get_link\<close> for \<^verbatim>\<open>libbpf_nl_get_link\<close>; the sequence number is the time.
\<close>

definition nl_get_link :: "(u32 \<Rightarrow> int + unit) \<Rightarrow> u32 \<Rightarrow> (int + u8 list \<times> nat) list \<Rightarrow> u32 \<Rightarrow>
    's dump_fn \<Rightarrow> 's \<Rightarrow> (recv_result \<times> 's) option" where
  "nl_get_link send seq replies nl_pid fn s =
     (case send seq of
        Inl e \<Rightarrow> Some (Finished (- e), s)
      | Inr _ \<Rightarrow> netlink_recv (Some (dump_link_nlmsg fn)) nl_pid seq replies s)"

definition no_info :: xdp_link_info where
  "no_info = \<lparr>prog_id = 0, drv_prog_id = 0, hw_prog_id = 0, skb_prog_id = 0, attach_mode = 0\<rparr>"

definition mode_flags_bad :: "u32 \<Rightarrow> bool" where
  "mode_flags_bad flags \<longleftrightarrow>
     (let flags = flags AND (XDP_FLAGS_SKB_MODE OR XDP_FLAGS_DRV_MODE OR XDP_FLAGS_HW_MODE);
          mask = flags - 1
       in flags \<noteq> 0 \<and> flags AND mask \<noteq> 0)"

definition bpf_get_link_xdp_info :: "open_env \<Rightarrow> (u32 \<Rightarrow> int + unit) \<Rightarrow> u32 \<Rightarrow>
    (int + u8 list \<times> nat) list \<Rightarrow> u32 \<Rightarrow> u32 \<Rightarrow> (recv_result \<times> xdp_link_info option) option" where
  "bpf_get_link_xdp_info env send time replies ifidx flags =
     (if flags AND NOT XDP_FLAGS_MASK \<noteq> 0 then Some (Finished (- EINVAL), None)
      else if mode_flags_bad flags then Some (Finished (- EINVAL), None)
      else case libbpf_netlink_open env of
        (sock, None, _) \<Rightarrow> Some (Finished sock, None)
      | (sock, Some nl_pid, _) \<Rightarrow>
          if sock < 0 then Some (Finished sock, None)
          else do {
            let md = \<lparr>md_ifindex = ifidx, md_flags = flags AND XDP_FLAGS_MODES, md_info = no_info\<rparr>;
            (r, md') \<leftarrow> nl_get_link send time replies nl_pid get_xdp_info md;
            Some (r, if r = Finished 0 then Some (md_info md') else None)
          })"

definition XDP_ATTACHED_MULTI :: u8 where [c_consts]: "XDP_ATTACHED_MULTI = 4"

definition get_xdp_id :: "xdp_link_info \<Rightarrow> u32 \<Rightarrow> u32" where
  "get_xdp_id info flags =
     (if attach_mode info \<noteq> XDP_ATTACHED_MULTI then prog_id info
      else if flags AND XDP_FLAGS_DRV_MODE \<noteq> 0 then drv_prog_id info
      else if flags AND XDP_FLAGS_HW_MODE \<noteq> 0 then hw_prog_id info
      else if flags AND XDP_FLAGS_SKB_MODE \<noteq> 0 then skb_prog_id info
      else 0)"

definition bpf_get_link_xdp_id :: "open_env \<Rightarrow> (u32 \<Rightarrow> int + unit) \<Rightarrow> u32 \<Rightarrow>
    (int + u8 list \<times> nat) list \<Rightarrow> u32 \<Rightarrow> u32 \<Rightarrow> (recv_result \<times> u32 option) option" where
  "bpf_get_link_xdp_id env send time replies ifidx flags = do {
     (r, info) \<leftarrow> bpf_get_link_xdp_info env send time replies ifidx flags;
     Some (r, map_option (\<lambda>i. get_xdp_id i flags) info)
   }"

section \<open>The request decodes to what was asked for\<close>

definition xdp_payload :: "u32 \<Rightarrow> u32 \<Rightarrow> (u16 \<times> u8 list) list" where
  "xdp_payload fd flags =
     (1, word_bytes fd) # (if flags = 0 then [] else [(3, word_bytes flags)])"

definition xdp_attrs :: "u32 \<Rightarrow> u32 \<Rightarrow> (u16 \<times> u8 list) list" where
  "xdp_attrs fd flags = [(0x8000 OR of_nat IFLA_XDP, nla_stream (xdp_payload fd flags))]"

lemma zeros_64: "replicate 64 (0 :: u8) =
    [0, 0, 0, 0, 0, 0, 0, 0, 0, 0, 0, 0, 0, 0, 0, 0, 0, 0, 0, 0] @ replicate 44 0"
  by (simp add: numeral_eq_Suc)

lemma zeros_52: "replicate 52 (0 :: u8) = [0, 0, 0, 0, 0, 0, 0, 0] @ replicate 44 0"
  by (simp add: numeral_eq_Suc)

lemma le16_small: "le16 4 0 = 4" "le16 8 0 = 8" "le16 12 0 = 12" "le16 20 0 = 20"
  by (simp_all add: le16_def)

lemma length_xdp_attrs: "length (nla_stream (xdp_attrs fd flags)) = (if flags = 0 then 12 else 20)"
  by (simp add: xdp_attrs_def xdp_payload_def length_nla_bytes NLA_ALIGN_def)

lemma set_link_request_eq:
  "set_link_request ifidx fd flags = Some
     \<lparr>nlmsg_len = 32 + length (nla_stream (xdp_attrs fd flags)), nlmsg_type = 19, nlmsg_flags = 5,
      nlmsg_seq = 1, nlmsg_pid = 0, ifi_family = 0, ifi_index = ifidx,
      attrbuf = nla_stream (xdp_attrs fd flags) @
        replicate (if flags = 0 then 52 else 44) 0\<rparr>"
  unfolding length_xdp_attrs
  by (simp only: set_link_request_def zeros_64 Let_def)
    (simp add: wr_def bytes16_def word_bytes_def c_consts nla_len_field_def rd16_def le16_small
      NLA_ALIGN_def lo8_def hi8_def nla_bytes_def xdp_attrs_def xdp_payload_def zeros_52
      del: replicate_Suc)

lemma set_link_request_decodes_aux:
  "\<exists>r tb xdp xtb.
     set_link_request ifidx fd flags = Some r \<and> nlmsg_len r \<le> 96 \<and> ifi_index r = ifidx \<and>
     libbpf_nla_parse (attrbuf r) IFLA_MAX 0 (int (nlmsg_len r - 32)) None = Some (0, tb) \<and>
     (\<forall>t \<le> IFLA_MAX. tb ! t = (if t = IFLA_XDP then Some xdp else None)) \<and>
     libbpf_nla_parse_nested (attrbuf r) IFLA_XDP_MAX xdp None = Some (0, xtb) \<and>
     (\<exists>a. xtb ! 1 = Some a \<and> libbpf_nla_getattr_u32 (attrbuf r) a = Some fd) \<and>
     (if flags = 0 then xtb ! 3 = None
      else \<exists>a. xtb ! 3 = Some a \<and> libbpf_nla_getattr_u32 (attrbuf r) a = Some flags)"
proof -
  let ?t = "0x8000 OR of_nat IFLA_XDP :: u16"
  let ?z = "replicate (if flags = 0 then 52 else 44) 0 :: u8 list"
  let ?pl = "nla_stream (xdp_payload fd flags)"
  let ?b = "nla_bytes (?t, ?pl) @ ?z"
  let ?h = "nla_header (?t, ?pl)" and ?pad = "nla_padding (?t, ?pl) @ ?z"
  have t: "unat (?t AND 0x3fff) = IFLA_XDP" by (simp add: c_consts)
  have lp: "length ?pl = (if flags = 0 then 8 else 16)"
    by (simp add: xdp_payload_def length_nla_bytes NLA_ALIGN_def)
  have fits: "list_all attr_fits (xdp_payload fd flags)" "attr_fits (?t, ?pl)"
    unfolding attr_fits_def snd_conv lp by (simp_all add: xdp_payload_def)
  have stream: "nla_stream (xdp_attrs fd flags) = nla_bytes (?t, ?pl)"
    by (simp add: xdp_attrs_def)
  obtain tb where tb: "libbpf_nla_parse ?b IFLA_MAX 0 (int (length (nla_bytes (?t, ?pl)))) None = Some (0, tb)"
    "\<forall>t \<le> IFLA_MAX. tb ! t = (if t = IFLA_XDP then Some 0 else None)"
    using nla_parse_stream_aux [of "[(?t, ?pl)]" "[]" ?z IFLA_MAX] fits(2) t by auto
  obtain xtb where xtb: "libbpf_nla_parse_nested ?b IFLA_XDP_MAX 0 None = Some (0, xtb)"
    "\<forall>t \<le> IFLA_XDP_MAX. xtb ! t = map_of (rev (attr_offsets 4 (xdp_payload fd flags))) t"
    using nla_parse_nested_stream [OF fits, of "[]" ?z IFLA_XDP_MAX] by auto
  have b1: "?b = ?h @ nla_bytes (1, word_bytes fd) @
      nla_stream (if flags = 0 then [] else [(3, word_bytes flags)]) @ ?pad"
    by (simp add: nla_bytes_split [of ?t] xdp_payload_def)
  have fd: "libbpf_nla_getattr_u32 ?b 4 = Some fd"
    using nla_getattr_u32_bytes [of ?h 1 fd] unfolding b1 by simp
  have fl: "libbpf_nla_getattr_u32 ?b 12 = Some flags" if "flags \<noteq> 0"
  proof -
    have "?b = (?h @ nla_bytes (1, word_bytes fd)) @ nla_bytes (3, word_bytes flags) @ ?pad"
      using that unfolding b1 by simp
    moreover have "length (?h @ nla_bytes (1, word_bytes fd)) = 12"
      by (simp add: length_nla_bytes NLA_ALIGN_def)
    ultimately show ?thesis
      using nla_getattr_u32_bytes [of "?h @ nla_bytes (1, word_bytes fd)" 3 flags ?pad] by metis
  qed
  have x1: "xtb ! 1 = Some 4" and x3: "xtb ! 3 = (if flags = 0 then None else Some 12)"
    using xtb(2) by (auto simp: xdp_payload_def length_nla_bytes NLA_ALIGN_def c_consts)
  show ?thesis
    using tb xtb(1) fd fl x1 x3 length_xdp_attrs [of fd flags, unfolded stream]
    by (auto simp: set_link_request_eq length_xdp_attrs stream)
qed

text \<open>
  C33: the request built to set the program of a link fits the request buffer, carries the device,
  and libbpf's own attribute parser finds in it exactly the nested XDP attribute with the
  descriptor and, when they are not 0, the flags it was built from.
\<close>

theorem set_link_request_decodes:
  "\<exists>r tb xdp xtb.
     set_link_request ifidx fd flags = Some r \<and> nlmsg_len r \<le> 96 \<and> ifi_index r = ifidx \<and>
     libbpf_nla_parse (attrbuf r) IFLA_MAX 0 (int (nlmsg_len r - 32)) None = Some (0, tb) \<and>
     (\<forall>t \<le> IFLA_MAX. tb ! t = (if t = IFLA_XDP then Some xdp else None)) \<and>
     libbpf_nla_parse_nested (attrbuf r) IFLA_XDP_MAX xdp None = Some (0, xtb) \<and>
     (\<exists>a. xtb ! 1 = Some a \<and> libbpf_nla_getattr_u32 (attrbuf r) a = Some fd) \<and>
     (if flags = 0 then xtb ! 3 = None
      else \<exists>a. xtb ! 3 = Some a \<and> libbpf_nla_getattr_u32 (attrbuf r) a = Some flags)"
  by (rule set_link_request_decodes_aux)

lemma set_link_request_decodes_witness:
  "\<exists>r xdp xtb a. set_link_request 3 7 2 = Some r \<and> ifi_index r = 3 \<and>
     libbpf_nla_parse_nested (attrbuf r) IFLA_XDP_MAX xdp None = Some (0, xtb) \<and>
     xtb ! 3 = Some a \<and> libbpf_nla_getattr_u32 (attrbuf r) a = Some 2"
  using set_link_request_decodes [of 3 7 2] by fastforce

text \<open>
  Asking for the program of a link is refused with \<^verbatim>\<open>-EINVAL\<close> before any system call
  exactly when the flags have a bit outside of the known ones or name more than one mode.
\<close>

theorem mode_flags_bad_iff:
  "mode_flags_bad flags \<longleftrightarrow>
     \<not> flags AND XDP_FLAGS_MODES \<in> {0, XDP_FLAGS_SKB_MODE, XDP_FLAGS_DRV_MODE, XDP_FLAGS_HW_MODE}"
proof -
  let ?y = "flags AND 14"
  have "?y \<le> 14" by (rule word_and_le1)
  then have "unat ?y \<le> 14" by (simp add: word_le_nat_alt)
  then have "unat ?y \<in> set [0..<15]" by simp
  then have "unat ?y \<in> {0, 1, 2, 3, 4, 5, 6, 7, 8, 9, 10, 11, 12, 13, 14}"
    by (simp add: upt_rec numeral_eq_Suc)
  then have "?y \<in> {0, 1, 2, 3, 4, 5, 6, 7, 8, 9, 10, 11, 12, 13, 14}"
    by (auto dest!: arg_cong [where f = "of_nat :: nat \<Rightarrow> u32"])
  moreover have "?y AND 14 = ?y" by (simp add: and.assoc)
  moreover have "?y \<noteq> 1"
  proof
    assume h: "?y = 1"
    have "(14 :: u32) AND 1 = 0" by simp
    then have "?y AND 1 = 0" by (simp only: and.assoc and_zero_eq)
    then show False unfolding h by simp
  qed
  ultimately show ?thesis unfolding mode_flags_bad_def Let_def
    by (auto simp: c_consts)
qed

section \<open>Acknowledgements\<close>

lemma rd32_at: "length p = k \<Longrightarrow> rd32 (p @ word_bytes x @ q) k = Some x"
  using rd32_append [of p "word_bytes x @ q" 0] by (simp add: rd32_word_bytes_app)

lemma rd16_at: "length p = k \<Longrightarrow> rd16 (p @ bytes16 x @ q) k = Some x"
  using rd16_append [of p "bytes16 x @ q" 0] by (simp add: rd16_def rd_def bytes16_def)

text \<open>
  The kernel's answer to a request: an error message with code \<open>e\<close> (0 acknowledges) and the
  request, or its header alone, behind it. Without extended attributes.
\<close>

definition ack_msg :: "u32 \<Rightarrow> u32 \<Rightarrow> u32 \<Rightarrow> u8 list \<Rightarrow> u8 list" where
  "ack_msg pid seq e orig =
     word_bytes (of_nat (20 + length orig)) @ bytes16 NLMSG_ERROR @ bytes16 0 @ word_bytes seq @
     word_bytes pid @ word_bytes e @ orig"

lemma ack_msg_fields:
  "rd32 (ack_msg pid seq e orig) 0 = Some (of_nat (20 + length orig))"
  "rd16 (ack_msg pid seq e orig) 4 = Some NLMSG_ERROR"
  "rd16 (ack_msg pid seq e orig) 6 = Some 0" "rd32 (ack_msg pid seq e orig) 8 = Some seq"
  "rd32 (ack_msg pid seq e orig) 12 = Some pid" "rd32 (ack_msg pid seq e orig) 16 = Some e"
proof -
  let ?a = "word_bytes (of_nat (20 + length orig) :: u32)" and ?b = "bytes16 NLMSG_ERROR" and ?c = "bytes16 0"
  let ?s = "word_bytes seq" and ?p = "word_bytes pid"
  show "rd32 (ack_msg pid seq e orig) 0 = Some (of_nat (20 + length orig))"
    using rd32_at [of "[]" 0] unfolding ack_msg_def by simp
  show "rd16 (ack_msg pid seq e orig) 4 = Some NLMSG_ERROR"
    using rd16_at [of ?a 4] unfolding ack_msg_def by simp
  show "rd16 (ack_msg pid seq e orig) 6 = Some 0"
    using rd16_at [of "?a @ ?b" 6] unfolding ack_msg_def by simp
  show "rd32 (ack_msg pid seq e orig) 8 = Some seq"
    using rd32_at [of "?a @ ?b @ ?c" 8] unfolding ack_msg_def by simp
  show "rd32 (ack_msg pid seq e orig) 12 = Some pid"
    using rd32_at [of "?a @ ?b @ ?c @ ?s" 12] unfolding ack_msg_def by simp
  show "rd32 (ack_msg pid seq e orig) 16 = Some e"
    using rd32_at [of "?a @ ?b @ ?c @ ?s @ ?p" 16] unfolding ack_msg_def by simp
qed

text \<open>
  The receive buffer has 4096 bytes. A message of another process or of another request ends
  the loop with an error before its code is looked at.
\<close>

lemma recv_msgs_ack:
  assumes "length orig \<le> 4076"
  shows "recv_msgs fn pid seq (ack_msg pid' seq' e orig) 0 (int (20 + length orig)) False s =
     Some (if pid' \<noteq> pid then Return (- LIBBPF_ERRNO__WRNGPID)
           else if seq' \<noteq> seq then Return (- LIBBPF_ERRNO__INVSEQ)
           else if e = 0 then Drained False else Return (sint e), s)"
proof -
  let ?b = "ack_msg pid' seq' e orig" and ?l = "of_nat (20 + length orig) :: u32"
  have l: "unat ?l = 20 + length orig" using assms by (simp add: unat_of_nat take_bit_nat_eq_self del: of_nat_add)
  have le_u: "uint ?l \<le> int (20 + length orig)" using l unfolding uint_nat by linarith
  have ok: "NLMSG_OK ?b 0 (int (20 + length orig)) = Some True"
    unfolding NLMSG_OK_def ack_msg_fields
    by (simp add: l le_u del: of_nat_add)
  have stop: "recv_msgs fn pid seq b n len False s = Some (Drained False, s)" if "len < 16" for b n len
    using that by (simp add: recv_msgs.simps NLMSG_OK_def)
  have rest: "int (20 + length orig) - int (NLMSG_ALIGN (unat ?l)) < 16"
    unfolding l NLMSG_ALIGN_def by simp
  have noattr: "libbpf_nla_dump_errormsg (ack_msg p q c orig) 0 = Some None" for p q c
    by (simp add: libbpf_nla_dump_errormsg_def errormsg_attrs_def ack_msg_fields)
  show ?thesis
    unfolding recv_msgs.simps [of fn pid seq ?b 0] ok
    by (simp add: ack_msg_fields noattr stop [OF rest] Let_def del: of_nat_add)
qed

text \<open>
  Setting the program of a link returns the code of the kernel's acknowledgement, 0 or the
  negative error, when the socket opens, the request is sent and the acknowledgement of this
  request comes back.
\<close>

theorem set_link_returns_ack:
  assumes "libbpf_netlink_open env = (sock, Some pid, True)" "0 \<le> sock" "length orig \<le> 4076"
    and "\<forall>req. set_link_request ifidx fd flags = Some req \<longrightarrow> send k req = Inr k'"
    and "replies k' = Inr (ack_msg pid 1 e orig, 20 + length orig) # rs"
  shows "bpf_set_link_xdp_fd env send replies k ifidx fd flags = Some (Finished (sint e), k')"
  using assms
  by (simp add: bpf_set_link_xdp_fd_def set_link_request_eq recv_msgs_ack del: of_nat_add)

lemma set_link_returns_ack_witness:
  "bpf_set_link_xdp_fd \<lparr>oe_socket = Inr 3, oe_bind = Inr (), oe_getsockname = Inr (77, 12)\<rparr>
     (\<lambda>_ _. Inr 2) (\<lambda>_. [Inr (ack_msg 77 1 (- 17) (replicate 16 0), 36)]) (0 :: int) 8 5 2 =
     Some (Finished (- 17), 2)"
  using set_link_returns_ack [of "\<lparr>oe_socket = Inr 3, oe_bind = Inr (), oe_getsockname = Inr (77, 12)\<rparr>"
      3 77 "replicate 16 0" 8 5 2 "\<lambda>_ _. Inr 2" 0 2 "\<lambda>_. [Inr (ack_msg 77 1 (- 17) (replicate 16 0), 36)]" "- 17" "[]"]
  by (simp add: libbpf_netlink_open_def)

text \<open>
  The request is handled before its answer is read: when reading fails, or an answer of another
  process or request comes first, the caller gets an error although the kernel has changed.
\<close>

theorem set_link_error_after_change:
  assumes "libbpf_netlink_open env = (sock, Some pid, True)" "0 \<le> sock"
    and "\<forall>req. set_link_request ifidx fd flags = Some req \<longrightarrow> send k req = Inr k'"
    and "replies k' = Inl err # rs"
  shows "bpf_set_link_xdp_fd env send replies k ifidx fd flags = Some (Finished (- err), k')"
  using assms by (simp add: bpf_set_link_xdp_fd_def set_link_request_eq)

lemma set_link_error_after_change_witness:
  "bpf_set_link_xdp_fd \<lparr>oe_socket = Inr 3, oe_bind = Inr (), oe_getsockname = Inr (77, 12)\<rparr>
     (\<lambda>_ _. Inr 2) (\<lambda>_. [Inl 105]) (0 :: int) 8 5 2 = Some (Finished (- 105), 2)"
  using set_link_error_after_change [of "\<lparr>oe_socket = Inr 3, oe_bind = Inr (), oe_getsockname = Inr (77, 12)\<rparr>"
      3 77 8 5 2 "\<lambda>_ _. Inr 2" 0 2 "\<lambda>_. [Inl 105]" 105 "[]"]
  by (simp add: libbpf_netlink_open_def)

end
