(* ===== verification/LinkKernel.thy ===== *)
theory LinkKernel
  imports Netlink
begin

text \<open>
  The contract between the loader and the routing socket: what \<^verbatim>\<open>xdp_link_attach\<close> may rely
  on when it calls \<^verbatim>\<open>bpf_set_link_xdp_fd\<close> (\<open>set_link_ok\<close>), and the proof that the function of
  \<^verbatim>\<open>libbpf/src/netlink.c\<close> keeps it. The kernel behind the socket is a parameter \<open>rtnl\<close>
  with its documented behaviour in \<open>rtnl_ok\<close>; the environment gives, call by call, the results
  of the system calls and the answer that is waiting on the socket.
\<close>

unbundle bit_operations_syntax

section \<open>The contract\<close>

type_synonym 'k set_link = "'k \<Rightarrow> u32 \<Rightarrow> int \<Rightarrow> u32 \<Rightarrow> int \<times> 'k"

type_synonym 'k attached = "'k \<Rightarrow> u32 \<Rightarrow> u32 \<Rightarrow> int option"

text \<open>
  \<open>attached k ifidx mode\<close> is the program in a device's slot for a mode. A call puts the program
  there or, with descriptor -1, empties the slot; it has no effect on other devices. Result 0
  says that this was done. A negative result does not say that nothing was done: the request
  is handled before its answer is read.
\<close>

definition request_done :: "'k attached \<Rightarrow> 'k \<Rightarrow> u32 \<Rightarrow> int \<Rightarrow> u32 \<Rightarrow> bool" where
  "request_done attached k i fd fl \<longleftrightarrow>
     attached k i (fl AND XDP_FLAGS_MODES) = (if fd < 0 then None else Some fd)"

definition set_link_ok :: "'k set_link \<Rightarrow> 'k attached \<Rightarrow> bool" where
  "set_link_ok set_link attached \<longleftrightarrow> (\<forall>k i fd fl r k'.
     set_link k i fd fl = (r, k') \<and> fd \<in> {- 1 ..< 2 ^ 31} \<longrightarrow>
     r \<le> 0 \<and> (\<forall>j m. j \<noteq> i \<longrightarrow> attached k' j m = attached k j m) \<and>
     (r = 0 \<longrightarrow> request_done attached k' i fd fl) \<and>
     (r < 0 \<longrightarrow> attached k' = attached k \<or> request_done attached k' i fd fl))"

lemma set_link_okD:
  assumes "set_link_ok set_link attached" "set_link k i fd fl = (r, k')" "fd \<in> {- 1 ..< 2 ^ 31}"
  shows "r \<le> 0" "j \<noteq> i \<Longrightarrow> attached k' j m = attached k j m"
    "r = 0 \<Longrightarrow> request_done attached k' i fd fl"
    "attached k' = attached k \<or> request_done attached k' i fd fl"
proof -
  have all: "r \<le> 0 \<and> (\<forall>j m. j \<noteq> i \<longrightarrow> attached k' j m = attached k j m) \<and>
     (r = 0 \<longrightarrow> request_done attached k' i fd fl) \<and>
     (r < 0 \<longrightarrow> attached k' = attached k \<or> request_done attached k' i fd fl)"
    using assms unfolding set_link_ok_def by blast
  then show "r \<le> 0" "j \<noteq> i \<Longrightarrow> attached k' j m = attached k j m"
    "r = 0 \<Longrightarrow> request_done attached k' i fd fl" by blast+
  show "attached k' = attached k \<or> request_done attached k' i fd fl"
    using all by (cases "r = 0") auto
qed

section \<open>The kernel's side of the request\<close>

text \<open>What the kernel reads from a request: device, descriptor and flags.\<close>

definition decode_link_req :: "link_req \<Rightarrow> (u32 \<times> u32 \<times> u32) option" where
  "decode_link_req req = do {
     (err, tb) \<leftarrow> libbpf_nla_parse (attrbuf req) IFLA_MAX 0 (int (nlmsg_len req - 32)) None;
     if err \<noteq> 0 then None
     else do {
       xdp \<leftarrow> tb ! IFLA_XDP;
       (err, xtb) \<leftarrow> libbpf_nla_parse_nested (attrbuf req) IFLA_XDP_MAX xdp None;
       if err \<noteq> 0 then None
       else do {
         a \<leftarrow> xtb ! 1;
         fd \<leftarrow> libbpf_nla_getattr_u32 (attrbuf req) a;
         fl \<leftarrow> (case xtb ! 3 of None \<Rightarrow> Some 0 | Some a \<Rightarrow> libbpf_nla_getattr_u32 (attrbuf req) a);
         Some (ifi_index req, fd, fl)
       }
     }
   }"

lemma decode_set_link_request:
  "\<exists>r. set_link_request i fd fl = Some r \<and> decode_link_req r = Some (i, fd, fl)"
proof -
  from set_link_request_decodes_aux [of i fd fl] obtain r tb xdp xtb where r:
    "set_link_request i fd fl = Some r" "ifi_index r = i"
    "libbpf_nla_parse (attrbuf r) IFLA_MAX 0 (int (nlmsg_len r - 32)) None = Some (0, tb)"
    "tb ! IFLA_XDP = Some xdp"
    "libbpf_nla_parse_nested (attrbuf r) IFLA_XDP_MAX xdp None = Some (0, xtb)"
    "\<exists>a. xtb ! 1 = Some a \<and> libbpf_nla_getattr_u32 (attrbuf r) a = Some fd"
    "if fl = 0 then xtb ! 3 = None
      else \<exists>a. xtb ! 3 = Some a \<and> libbpf_nla_getattr_u32 (attrbuf r) a = Some fl"
    by (auto simp: c_consts)
  then show ?thesis by (auto simp: decode_link_req_def split: if_splits)
qed

text \<open>
  The documented behaviour of the kernel: the code of its answer is 0 or a negative error
  number, an error changes nothing, success puts the program into the slot or, for a negative
  descriptor, empties it, and other devices are not affected.
\<close>

definition rtnl_ok :: "('k \<Rightarrow> link_req \<Rightarrow> int \<times> 'k) \<Rightarrow> 'k attached \<Rightarrow> bool" where
  "rtnl_ok rtnl attached \<longleftrightarrow> (\<forall>k req i fd fl code k'.
     decode_link_req req = Some (i, fd, fl) \<and> rtnl k req = (code, k') \<longrightarrow>
     - 4095 \<le> code \<and> code \<le> 0 \<and> (\<forall>j m. j \<noteq> i \<longrightarrow> attached k' j m = attached k j m) \<and>
     (code < 0 \<longrightarrow> k' = k) \<and> (code = 0 \<longrightarrow> request_done attached k' i (sint fd) fl))"

text \<open>
  The results of the calls made by one call of \<^verbatim>\<open>bpf_set_link_xdp_fd\<close>; a left value or a
  failure of \<^verbatim>\<open>send\<close> is an error number. The message that is received carries the code of the
  kernel's answer, but may be addressed to another process or belong to another request.
\<close>

record link_env =
  le_open :: open_env
  le_send :: "int option"
  le_reply :: "int + u32 \<times> u32 \<times> u8 list"

definition errnos :: "link_env \<Rightarrow> int set" where
  "errnos e = set_option (le_send e) \<union> projl ` ({le_reply e} \<inter> range Inl) \<union>
     projl ` ({oe_socket (le_open e)} \<inter> range Inl) \<union> projl ` ({oe_bind (le_open e)} \<inter> range Inl) \<union>
     projl ` ({oe_getsockname (le_open e)} \<inter> range Inl)"

definition env_ok :: "link_env \<Rightarrow> bool" where
  "env_ok e \<longleftrightarrow> (\<forall>x \<in> errnos e. 0 < x) \<and>
     (\<forall>p s orig. le_reply e = Inr (p, s, orig) \<longrightarrow> length orig \<le> 4076)"

definition answers :: "link_env \<Rightarrow> 'k \<times> int \<Rightarrow> (int + u8 list \<times> nat) list" where
  "answers e = (\<lambda>(k, code). case le_reply e of
     Inl err \<Rightarrow> [Inl err]
   | Inr (pid, seq, orig) \<Rightarrow> [Inr (ack_msg pid seq (word_of_int code) orig, 20 + length orig)])"

definition sends :: "link_env \<Rightarrow> ('k \<Rightarrow> link_req \<Rightarrow> int \<times> 'k) \<Rightarrow> 'k \<times> int \<Rightarrow> link_req \<Rightarrow> int + 'k \<times> int" where
  "sends e rtnl = (\<lambda>(k, _) req. case le_send e of
     Some err \<Rightarrow> Inl err
   | None \<Rightarrow> let (code, k') = rtnl k req in Inr (k', code))"

text \<open>\<^verbatim>\<open>bpf_set_link_xdp_fd\<close> on such a kernel, in its \<open>n\<close>-th call.\<close>

definition netlink_call :: "link_env \<Rightarrow> ('k \<Rightarrow> link_req \<Rightarrow> int \<times> 'k) \<Rightarrow> 'k \<Rightarrow> u32 \<Rightarrow> int \<Rightarrow> u32 \<Rightarrow>
    (recv_result \<times> 'k \<times> int) option" where
  "netlink_call e rtnl k i fd fl =
     bpf_set_link_xdp_fd (le_open e) (sends e rtnl) (answers e) (k, 0) i (word_of_int fd) fl"

definition netlink_set_link :: "(nat \<Rightarrow> link_env) \<Rightarrow> ('k \<Rightarrow> link_req \<Rightarrow> int \<times> 'k) \<Rightarrow>
    ('k \<times> nat) set_link" where
  "netlink_set_link env rtnl = (\<lambda>(k, n) i fd fl.
     case netlink_call (env n) rtnl k i fd fl of
       Some (Finished r, k', _) \<Rightarrow> (r, k', Suc n)
     | _ \<Rightarrow> (- EINVAL, k, Suc n))"

lemma netlink_open_cases:
  assumes "env_ok e" "libbpf_netlink_open (le_open e) = (sock, pid, open)"
  shows "(pid = None \<and> sock < 0) \<or> (\<exists>p. pid = Some p)"
  using assms
  by (auto simp: libbpf_netlink_open_def env_ok_def errnos_def c_consts split: sum.splits if_splits)

lemma sint_code:
  assumes "- 4095 \<le> code" "code \<le> 0"
  shows "sint (word_of_int code :: u32) = code" "(word_of_int code :: u32) = 0 \<longleftrightarrow> code = 0"
proof -
  show s: "sint (word_of_int code :: u32) = code"
    using assms by (intro sint_word_of_int_u32) simp_all
  show "(word_of_int code :: u32) = 0 \<longleftrightarrow> code = 0"
  proof
    assume "(word_of_int code :: u32) = 0"
    then show "code = 0" using s by simp
  qed simp
qed

lemma sint_fd:
  assumes "fd \<in> {- 1 ..< 2 ^ 31}"
  shows "sint (word_of_int fd :: u32) = fd"
  using assms by (intro sint_word_of_int_u32) simp_all

text \<open>
  Every call ends: with an error and the kernel as it was, or after the kernel has handled the
  request, and then with the code of its answer or with an error of the socket.
\<close>

lemma netlink_call_cases:
  assumes "env_ok e" "rtnl_ok rtnl attached" "fd \<in> {- 1 ..< 2 ^ 31}"
  obtains (unsent) r where "r < 0" "netlink_call e rtnl k i fd fl = Some (Finished r, k, 0)"
  | (handled) req code k' r where "decode_link_req req = Some (i, word_of_int fd, fl)"
      "rtnl k req = (code, k')" "r = code \<or> r < 0"
      "netlink_call e rtnl k i fd fl = Some (Finished r, k', code)"
proof -
  obtain sock pid op where o: "libbpf_netlink_open (le_open e) = (sock, pid, op)"
    by (metis surj_pair)
  obtain req where req: "set_link_request i (word_of_int fd) fl = Some req"
    "decode_link_req req = Some (i, word_of_int fd, fl)"
    using decode_set_link_request by blast
  obtain code k' where rt: "rtnl k req = (code, k')" by (metis surj_pair)
  have code: "- 4095 \<le> code" "code \<le> 0"
    using assms(2) req(2) rt unfolding rtnl_ok_def by blast+
  note run = netlink_call_def bpf_set_link_xdp_fd_def o
  from netlink_open_cases [OF assms(1) o] consider "pid = None" "sock < 0" | p where "pid = Some p"
    by blast
  then show thesis
  proof cases
    case 1
    then show thesis using unsent [of sock] by (simp add: run)
  next
    case p: 2
    show thesis
    proof (cases "sock < 0")
      case True
      then show thesis using unsent [of sock] p by (simp add: run)
    next
      case sock: False
      show thesis
      proof (cases "le_send e")
        case (Some err)
        then have "0 < err" using assms(1) by (simp add: env_ok_def errnos_def)
        then show thesis using unsent [of "- err"] p sock Some by (simp add: run req(1) sends_def)
      next
        case None
        have sent: "sends e rtnl (k, 0) req = Inr (k', code)" by (simp add: sends_def None rt)
        show thesis
        proof (cases "le_reply e")
          case (Inl err)
          then have "0 < err" using assms(1) by (auto simp: env_ok_def errnos_def)
          then show thesis using handled [OF req(2) rt, of "- err"] p sock Inl
            by (simp add: run req(1) sent answers_def)
        next
          case (Inr m)
          obtain mp ms orig where m: "m = (mp, ms, orig)" by (cases m)
          have len: "length orig \<le> 4076" using assms(1) Inr m unfolding env_ok_def by blast
          let ?r = "if mp \<noteq> p then - LIBBPF_ERRNO__WRNGPID
              else if ms \<noteq> 1 then - LIBBPF_ERRNO__INVSEQ else code"
          have r: "?r = code \<or> ?r < 0" by (simp add: c_consts)
          have "netlink_call e rtnl k i fd fl = Some (Finished ?r, k', code)"
            using p sock Inr m
            by (simp add: run req(1) sent answers_def recv_msgs_ack [OF len] sint_code [OF code]
                del: of_nat_add)
          from handled [OF req(2) rt r this] show thesis .
        qed
      qed
    qed
  qed
qed

text \<open>
  \<^verbatim>\<open>bpf_set_link_xdp_fd\<close> keeps the contract on every kernel that behaves as documented and in
  every environment.
\<close>

theorem netlink_set_link_ok:
  assumes "\<And>n. env_ok (env n)" "rtnl_ok rtnl attached"
  shows "set_link_ok (netlink_set_link env rtnl) (\<lambda>(k, n). attached k)"
  unfolding set_link_ok_def
proof (intro allI impI)
  fix s i fd fl r s'
  assume run: "netlink_set_link env rtnl s i fd fl = (r, s') \<and> fd \<in> {- 1 ..< 2 ^ 31}"
  then have fd: "fd \<in> {- 1 ..< 2 ^ 31}" by blast
  obtain k n where s: "s = (k, n)" by (cases s)
  obtain k' n' where s': "s' = (k', n')" by (cases s')
  let ?A = "\<lambda>(k, n :: nat). attached k"
  show "r \<le> 0 \<and> (\<forall>j m. j \<noteq> i \<longrightarrow> ?A s' j m = ?A s j m) \<and>
     (r = 0 \<longrightarrow> request_done ?A s' i fd fl) \<and>
     (r < 0 \<longrightarrow> ?A s' = ?A s \<or> request_done ?A s' i fd fl)"
  proof (cases rule: netlink_call_cases [OF assms(1) [of n] assms(2) fd, of k i fl])
    case (1 r1)
    then have "r = r1" "k' = k" using run by (simp_all add: netlink_set_link_def s s')
    then show ?thesis using 1(1) by (simp add: s s')
  next
    case (2 req code k1 r1)
    then have k': "r = r1" "k' = k1" using run by (simp_all add: netlink_set_link_def s s')
    have law: "code \<le> 0" "\<forall>j m. j \<noteq> i \<longrightarrow> attached k' j m = attached k j m"
      "code < 0 \<longrightarrow> k' = k" "code = 0 \<longrightarrow> request_done attached k' i fd fl"
      using assms(2) 2(1,2) unfolding rtnl_ok_def k' by (metis sint_fd [OF fd])+
    have "request_done ?A s' i fd fl = request_done attached k' i fd fl"
      by (simp add: request_done_def s')
    then show ?thesis using law 2(3) by (cases "code = 0") (auto simp: s s' k')
  qed
qed

section \<open>A kernel with one slot per device\<close>

type_synonym slots = "u32 \<Rightarrow> (u32 \<times> int) option"

definition slot_set :: "slots set_link" where
  "slot_set k i fd flags =
     (let m = flags AND XDP_FLAGS_MODES; new = (if fd < 0 then None else Some (m, fd))
       in case k i of None \<Rightarrow> (0, k(i := new))
          | Some (m', _) \<Rightarrow>
              if m' \<noteq> m then (- EEXIST, k)
              else if 0 \<le> fd \<and> flags AND XDP_FLAGS_UPDATE_IF_NOEXIST \<noteq> 0 then (- EBUSY, k)
              else (0, k(i := new)))"

definition slot_view :: "slots attached" where
  "slot_view k i m = (case k i of Some (m', fd) \<Rightarrow> if m' = m then Some fd else None | None \<Rightarrow> None)"

definition slot_rtnl :: "slots \<Rightarrow> link_req \<Rightarrow> int \<times> slots" where
  "slot_rtnl k req = (case decode_link_req req of
     None \<Rightarrow> (- EINVAL, k)
   | Some (i, fd, fl) \<Rightarrow> slot_set k i (sint fd) fl)"

lemma slot_rtnl_ok: "rtnl_ok slot_rtnl slot_view"
  by (auto simp: rtnl_ok_def slot_rtnl_def slot_set_def slot_view_def request_done_def Let_def
      c_consts split: option.splits if_splits)

text \<open>The socket of process 77; the \<open>lost\<close>-th answer cannot be read.\<close>

definition socket_77 :: "nat option \<Rightarrow> nat \<Rightarrow> link_env" where
  "socket_77 lost n = \<lparr>le_open = \<lparr>oe_socket = Inr 3, oe_bind = Inr (), oe_getsockname = Inr (77, 12)\<rparr>,
     le_send = None, le_reply = (if lost = Some n then Inl 105 else Inr (77, 1, replicate 16 0))\<rparr>"

lemma socket_77_ok: "env_ok (socket_77 lost n)"
  by (auto simp: env_ok_def errnos_def socket_77_def split: if_splits)

definition slot_link :: "nat option \<Rightarrow> (slots \<times> nat) set_link" where
  "slot_link lost = netlink_set_link (socket_77 lost) slot_rtnl"

lemma slot_link_ok: "set_link_ok (slot_link lost) (\<lambda>(k, n). slot_view k)"
  unfolding slot_link_def by (rule netlink_set_link_ok [OF socket_77_ok slot_rtnl_ok])

lemma slot_set_code: "fst (slot_set k i fd fl) \<in> {0, - EEXIST, - EBUSY}"
  by (auto simp: slot_set_def Let_def split: option.splits)

lemma slot_link_eq:
  assumes "fd \<in> {- 1 ..< 2 ^ 31}"
  shows "slot_link lost (k, n) i fd fl =
     (let (code, k') = slot_set k i fd fl in (if lost = Some n then - 105 else code, k', Suc n))"
proof -
  obtain req where req: "set_link_request i (word_of_int fd) fl = Some req"
    "decode_link_req req = Some (i, word_of_int fd, fl)"
    using decode_set_link_request by blast
  obtain code k' where s: "slot_set k i fd fl = (code, k')" by (metis surj_pair)
  have rt: "slot_rtnl k req = (code, k')" by (simp add: slot_rtnl_def req(2) sint_fd [OF assms] s)
  have "code \<in> {0, - EEXIST, - EBUSY}" using slot_set_code [of k i fd fl] s by simp
  then have code: "- 4095 \<le> code" "code \<le> 0" by (auto simp: c_consts)
  have ack: "recv_msgs None 77 1 (ack_msg 77 1 (word_of_int code) (replicate 16 0)) 0 36 False () =
      Some (if code = 0 then Drained False else Return code, ())"
    using recv_msgs_ack [of "replicate 16 0" None 77 1 77 1 "word_of_int code" "()"] sint_code [OF code]
    by simp
  show ?thesis
    by (simp add: slot_link_def netlink_set_link_def netlink_call_def bpf_set_link_xdp_fd_def
        libbpf_netlink_open_def socket_77_def req(1) sends_def rt s answers_def ack
        del: replicate_Suc)
qed

text \<open>
  The contract cannot be strengthened to \<open>an error changes nothing\<close>: with its answer lost, a call
  that replaces the program of a device ends with an error.
\<close>

theorem set_link_lost_answer:
  "\<exists>s'. slot_link (Some 0) (\<lambda>_. None, 0) 8 5 XDP_FLAGS_SKB_MODE = (- 105, s') \<and>
     slot_view (fst s') 8 XDP_FLAGS_SKB_MODE = Some 5"
  by (simp add: slot_link_eq slot_set_def slot_view_def c_consts)

end
