(* ===== verification/Loader.thy ===== *)
theory Loader
  imports BpfObject LinkKernel
begin

text \<open>
  Loading and attaching XDP programs from user space: \<^verbatim>\<open>common/common_user_bpf_xdp.c\<close> and
  \<^verbatim>\<open>common/common_libbpf.c\<close>.

  The kernel is a state of arbitrary type and the calls that reach it are parameters:
  \<open>set_link\<close> (\<^verbatim>\<open>bpf_set_link_xdp_fd\<close>), \<open>get_id\<close> (\<^verbatim>\<open>bpf_get_link_xdp_id\<close>), \<open>obj_get\<close>
  (\<^verbatim>\<open>bpf_obj_get\<close>), \<open>object_open\<close> and \<open>object_load\<close>. The contract of the first is
  \<open>set_link_ok\<close>, which \<^theory_text>\<open>LinkKernel\<close> proves of the function of \<^verbatim>\<open>netlink.c\<close>; the witnesses use
  that function on a kernel with one slot per device. Messages to the terminal are not modelled,
  the hint of \<^verbatim>\<open>xdp_link_attach\<close> apart.
\<close>

unbundle bit_operations_syntax

section \<open>Attaching and detaching\<close>

datatype attach_hint = No_hint | Hint_use_force | Hint_no_native

definition hint_of_errno :: "int \<Rightarrow> attach_hint" where
  "hint_of_errno e =
     (if e = EBUSY \<or> e = EEXIST then Hint_use_force
      else if e = EOPNOTSUPP then Hint_no_native else No_hint)"

definition xdp_link_attach ::
    "'k set_link \<Rightarrow> 'k \<Rightarrow> u32 \<Rightarrow> u32 \<Rightarrow> int \<Rightarrow> int \<times> attach_hint \<times> 'k" where
  "xdp_link_attach set_link k ifidx flags prog_fd =
     (let (err, k) = set_link k ifidx prog_fd flags;
          (err, k) =
            (if err = - EEXIST \<and> flags AND XDP_FLAGS_UPDATE_IF_NOEXIST = 0
             then let old_flags = flags;
                      flags = flags AND NOT XDP_FLAGS_MODES;
                      flags = flags OR (if old_flags AND XDP_FLAGS_SKB_MODE \<noteq> 0
                                        then XDP_FLAGS_DRV_MODE else XDP_FLAGS_SKB_MODE);
                      (err, k) = set_link k ifidx (- 1) flags
                   in if err = 0 then set_link k ifidx prog_fd old_flags else (err, k)
             else (err, k))
       in if err < 0 then (EXIT_FAIL_XDP, hint_of_errno (- err), k) else (EXIT_OK, No_hint, k))"

definition xdp_link_detach :: "'k set_link \<Rightarrow> ('k \<Rightarrow> u32 \<Rightarrow> u32 \<Rightarrow> int \<times> u32) \<Rightarrow>
    'k \<Rightarrow> u32 \<Rightarrow> u32 \<Rightarrow> u32 \<Rightarrow> int \<times> 'k" where
  "xdp_link_detach set_link get_id k ifidx flags expected_prog_id =
     (let (err, curr_prog_id) = get_id k ifidx flags
       in if err \<noteq> 0 then (EXIT_FAIL_XDP, k)
          else if curr_prog_id = 0 then (EXIT_OK, k)
          else if expected_prog_id \<noteq> 0 \<and> curr_prog_id \<noteq> expected_prog_id then (EXIT_FAIL, k)
          else let (err, k) = set_link k ifidx (- 1) flags
                in if err < 0 then (EXIT_FAIL_XDP, k) else (EXIT_OK, k))"

text \<open>Program identifiers are never 0: the identifier 0 means that the slot is empty.\<close>

definition get_id_ok :: "('k \<Rightarrow> u32 \<Rightarrow> u32 \<Rightarrow> int \<times> u32) \<Rightarrow> 'k attached \<Rightarrow> bool" where
  "get_id_ok get_id attached \<longleftrightarrow>
     (\<forall>k i fl. get_id k i fl = (0, 0) \<longrightarrow> attached k i (fl AND XDP_FLAGS_MODES) = None)"

definition opposite_mode :: "u32 \<Rightarrow> u32" where
  "opposite_mode flags =
     (if flags AND XDP_FLAGS_SKB_MODE \<noteq> 0 then XDP_FLAGS_DRV_MODE else XDP_FLAGS_SKB_MODE)"

lemma opposite_mode_bits:
  "((flags AND NOT XDP_FLAGS_MODES) OR opposite_mode flags) AND XDP_FLAGS_MODES =
    opposite_mode flags"
  by (rule flags_of_mode(1)) (simp add: opposite_mode_def c_consts)

lemma xdp_link_attach_outcome_aux:
  assumes "set_link_ok set_link attached" "0 \<le> fd" "fd < 2 ^ 31"
    and "xdp_link_attach set_link k i flags fd = (r, hint, k')"
  shows "r \<in> {EXIT_OK, EXIT_FAIL_XDP} \<and>
    (r = EXIT_OK \<longrightarrow> attached k' i (flags AND XDP_FLAGS_MODES) = Some fd) \<and>
    (r \<noteq> EXIT_OK \<longrightarrow> attached k' = attached k \<or> attached k' i (flags AND XDP_FLAGS_MODES) = Some fd \<or>
       (flags AND XDP_FLAGS_UPDATE_IF_NOEXIST = 0 \<and> attached k' i (opposite_mode flags) = None)) \<and>
    (\<forall>j m. j \<noteq> i \<longrightarrow> attached k' j m = attached k j m)"
proof -
  have fd: "fd \<in> {- 1 ..< 2 ^ 31}" and nofd: "(- 1 :: int) \<in> {- 1 ..< 2 ^ 31}"
    using assms(2,3) by simp_all
  have put: "request_done attached x i fd flags \<longleftrightarrow> attached x i (flags AND XDP_FLAGS_MODES) = Some fd" for x
    using assms(2) by (simp add: request_done_def)
  obtain e1 k1 where 1: "set_link k i fd flags = (e1, k1)" by (cases "set_link k i fd flags")
  note first = set_link_okD [OF assms(1) 1 fd, unfolded put]
  show ?thesis
  proof (cases "e1 = - EEXIST \<and> flags AND XDP_FLAGS_UPDATE_IF_NOEXIST = 0")
    case False
    then have "(r, k') = (if e1 < 0 then (EXIT_FAIL_XDP, k1) else (EXIT_OK, k1))"
      using assms(4) by (auto simp: xdp_link_attach_def 1 Let_def split: if_splits)
    then show ?thesis using first by (auto simp: c_consts split: if_splits)
  next
    case True
    let ?fl = "(flags AND NOT XDP_FLAGS_MODES) OR opposite_mode flags"
    obtain e2 k2 where 2: "set_link k1 i (- 1) ?fl = (e2, k2)" by (cases "set_link k1 i (- 1) ?fl")
    have gone: "request_done attached x i (- 1) ?fl \<longleftrightarrow> attached x i (opposite_mode flags) = None" for x
      by (simp add: request_done_def opposite_mode_bits)
    note second = set_link_okD [OF assms(1) 2 nofd, unfolded gone]
    obtain e3 k3 where 3: "set_link k2 i fd flags = (e3, k3)" by (cases "set_link k2 i fd flags")
    note third = set_link_okD [OF assms(1) 3 fd, unfolded put]
    have run: "(r, k') = (if e2 \<noteq> 0 then (EXIT_FAIL_XDP, k2)
        else if e3 < 0 then (EXIT_FAIL_XDP, k3) else (EXIT_OK, k3))"
      using assms(4) True second(1) 2 3
      by (auto simp: xdp_link_attach_def 1 Let_def opposite_mode_def split: if_splits)
    have frame: "\<forall>j m. j \<noteq> i \<longrightarrow> attached k2 j m = attached k j m"
      "\<forall>j m. j \<noteq> i \<longrightarrow> attached k3 j m = attached k j m"
      using first(2) second(2) third(2) by simp_all
    show ?thesis
    proof (cases "e2 = 0")
      case False
      then have "r = EXIT_FAIL_XDP" "k' = k2" using run by simp_all
      then show ?thesis using first(4) second(4) frame(1) True by (auto simp: c_consts)
    next
      case e2: True
      have "attached k2 i (opposite_mode flags) = None" by (rule second(3) [OF e2])
      then have lost: "attached k3 i (opposite_mode flags) = None \<or>
          attached k3 i (flags AND XDP_FLAGS_MODES) = Some fd"
        using third(4) by auto
      have "k' = k3" "r = (if e3 < 0 then EXIT_FAIL_XDP else EXIT_OK)"
        using run e2 by (auto split: if_splits)
      then show ?thesis using lost third(1,3) frame(2) True by (auto simp: c_consts split: if_splits)
    qed
  qed
qed

text \<open>
  C38: attaching a descriptor that fits a C \<^verbatim>\<open>int\<close> answers with status 0 or 30. On 0 the
  program is in the slot of the requested mode. On 30 one of three things holds: every slot is as it
  was; or the program is in the slot all the same, its acknowledgement having been lost (the
  request is handled before its answer is read, so an error does not mean that nothing
  happened); or replacing was allowed, and the slot of the opposite mode is empty now. Other
  devices are never affected. This rests on the contract \<open>set_link_ok\<close>, which is proved of
  \<^verbatim>\<open>bpf_set_link_xdp_fd\<close> for every kernel with the documented behaviour (theorem
  \<open>netlink_set_link_ok\<close>).
\<close>

theorem xdp_link_attach_outcome:
  assumes "set_link_ok set_link attached" "0 \<le> fd" "fd < 2 ^ 31"
    and "xdp_link_attach set_link k i flags fd = (r, hint, k')"
  shows "r \<in> {EXIT_OK, EXIT_FAIL_XDP} \<and>
    (r = EXIT_OK \<longrightarrow> attached k' i (flags AND XDP_FLAGS_MODES) = Some fd) \<and>
    (r \<noteq> EXIT_OK \<longrightarrow> attached k' = attached k \<or> attached k' i (flags AND XDP_FLAGS_MODES) = Some fd \<or>
       (flags AND XDP_FLAGS_UPDATE_IF_NOEXIST = 0 \<and> attached k' i (opposite_mode flags) = None)) \<and>
    (\<forall>j m. j \<noteq> i \<longrightarrow> attached k' j m = attached k j m)"
  using assms by (rule xdp_link_attach_outcome_aux)

text \<open>
  The witness replaces a program of the other mode through the routing socket: the first request is
  refused, the second empties the slot, the third is accepted.
\<close>

lemma xdp_link_attach_outcome_witness:
  "\<exists>k'. xdp_link_attach (slot_link None) (\<lambda>_. Some (XDP_FLAGS_DRV_MODE, 4), 0) 8 XDP_FLAGS_SKB_MODE 5 =
     (EXIT_OK, No_hint, k') \<and> slot_view (fst k') 8 XDP_FLAGS_SKB_MODE = Some 5"
  (is "\<exists>k'. ?f = _ \<and> _")
proof -
  obtain r h k' where f: "?f = (r, h, k')" by (cases ?f)
  have r: "r = EXIT_OK" "h = No_hint"
    using f by (auto simp: xdp_link_attach_def slot_link_eq slot_set_def Let_def c_consts)
  from xdp_link_attach_outcome [OF slot_link_ok _ _ f]
  have "slot_view (fst k') 8 XDP_FLAGS_SKB_MODE = Some 5"
    by (simp add: r c_consts case_prod_beta)
  with f r show ?thesis by simp
qed

definition slot_id :: "slots \<Rightarrow> u32 \<Rightarrow> u32 \<Rightarrow> int \<times> u32" where
  "slot_id k i flags = (0, case k i of None \<Rightarrow> 0
     | Some (m, fd) \<Rightarrow> if m = flags AND XDP_FLAGS_MODES then 100 else 0)"

lemma slot_id_ok: "get_id_ok (\<lambda>(k, n). slot_id k) (\<lambda>(k, n). slot_view k)"
  by (auto simp: get_id_ok_def slot_id_def slot_view_def split: option.splits if_splits)

text \<open>
  Detaching never removes a program whose identifier is not the expected one (when one was
  expected): the only call that changes the kernel is made for a matching, non-zero identifier;
  status 0 means that the slot is empty afterwards; and after a failure the slots are as they were,
  or the slot is empty and the answer that says so was lost.
\<close>

theorem xdp_link_detach_outcome:
  assumes "set_link_ok set_link attached" "get_id_ok get_id attached"
    and "xdp_link_detach set_link get_id k i flags expected = (r, k')"
  shows "(r = EXIT_OK \<longrightarrow> attached k' i (flags AND XDP_FLAGS_MODES) = None) \<and>
    (r \<noteq> EXIT_OK \<longrightarrow> attached k' = attached k \<or> attached k' i (flags AND XDP_FLAGS_MODES) = None) \<and>
    (k' \<noteq> k \<longrightarrow> (\<exists>pid. get_id k i flags = (0, pid) \<and> pid \<noteq> 0 \<and>
                    (expected = 0 \<or> pid = expected)))"
proof -
  obtain e pid where g: "get_id k i flags = (e, pid)" by (cases "get_id k i flags")
  obtain e2 k2 where 2: "set_link k i (- 1) flags = (e2, k2)" by (cases "set_link k i (- 1) flags")
  have put: "request_done attached x i (- 1) flags \<longleftrightarrow> attached x i (flags AND XDP_FLAGS_MODES) = None" for x
    by (simp add: request_done_def)
  have "(- 1 :: int) \<in> {- 1 ..< 2 ^ 31}" by simp
  note call = set_link_okD [OF assms(1) 2 this, unfolded put]
  show ?thesis
  proof (cases "e = 0 \<and> pid = 0")
    case True
    then have "attached k i (flags AND XDP_FLAGS_MODES) = None"
      using assms(2) g unfolding get_id_ok_def by blast
    then show ?thesis using assms(3) True g by (simp add: xdp_link_detach_def)
  next
    case False
    then show ?thesis
      using assms(3) g call(1,3,4) 2
      by (auto simp: xdp_link_detach_def c_consts split: if_splits)
  qed
qed

lemma xdp_link_detach_outcome_witness:
  "\<exists>k'. xdp_link_detach (slot_link None) (\<lambda>(k, n). slot_id k) (\<lambda>_. Some (XDP_FLAGS_DRV_MODE, 4), 0) 8 XDP_FLAGS_DRV_MODE 7 =
     (EXIT_FAIL, k') \<and> k' = (\<lambda>_. Some (XDP_FLAGS_DRV_MODE, 4), 0)"
  (is "\<exists>k'. ?f = _ \<and> _")
proof -
  obtain r k' where f: "?f = (r, k')" by (cases ?f)
  have r: "r = EXIT_FAIL" using f by (simp add: xdp_link_detach_def slot_id_def c_consts)
  with xdp_link_detach_outcome [OF slot_link_ok slot_id_ok f] f show ?thesis
    by (simp add: c_consts slot_id_def)
qed

section \<open>Opening objects and reusing pinned maps\<close>

definition PATH_MAX :: nat where [c_consts]: "PATH_MAX = 4096"

definition load_bpf_object_file :: "(string \<Rightarrow> bpf_object option) \<Rightarrow>
    (bpf_object \<Rightarrow> int \<times> bpf_object) \<Rightarrow> string \<Rightarrow> u32 \<Rightarrow> bpf_object option" where
  "load_bpf_object_file object_open object_load path ifidx =
     (case prog_load_xattr object_open object_load
             (Some \<lparr>at_file = Some path, at_prog_type = BPF_PROG_TYPE_XDP, at_attach_type = 0,
                    at_ifindex = ifidx, at_log_level = 0, at_prog_flags = 0\<rparr>) of
        Inl err \<Rightarrow> None
      | Inr (obj, first_prog_fd) \<Rightarrow> Some obj)"

definition open_bpf_object :: "(string \<Rightarrow> bpf_object option) \<Rightarrow> string \<Rightarrow> u32 \<Rightarrow> bpf_object option" where
  "open_bpf_object object_open path ifidx =
     (case object_open path of
        None \<Rightarrow> None
      | Some obj \<Rightarrow>
          let obj' = fold (\<lambda>i ob. update_program (program_set_ifindex ifidx) i
                                  (update_program (program_set_type BPF_PROG_TYPE_XDP) i ob))
                          (each_program obj) obj;
              obj' = set_maps_ifindex ifidx obj'
           in if each_program obj = [] then None else Some obj')"

text \<open>\<^verbatim>\<open>snprintf(buf, PATH_MAX, "%s/%s", dir, name)\<close>: what would be written, and the buffer.\<close>

definition pin_path :: "string \<Rightarrow> string \<Rightarrow> string" where
  "pin_path dir name = dir @ ''/'' @ name"

definition path_buf :: "string \<Rightarrow> string" where
  "path_buf s = take (PATH_MAX - 1) s"

text \<open>The loop of \<^verbatim>\<open>reuse_maps\<close>: its result and the maps it leaves.\<close>

fun reuse_maps_loop :: "(string \<Rightarrow> int) \<Rightarrow> (bpf_obj_map \<Rightarrow> int \<Rightarrow> int \<times> bpf_obj_map) \<Rightarrow>
    string \<Rightarrow> bpf_obj_map list \<Rightarrow> int \<times> bpf_obj_map list" where
  "reuse_maps_loop obj_get reuse_fd path [] = (0, [])"
| "reuse_maps_loop obj_get reuse_fd path (m # ms) =
     (let s = pin_path path (mp_name m)
       in if PATH_MAX \<le> length s then (- ENAMETOOLONG, m # ms)
          else let pinned_map_fd = obj_get (path_buf s)
                in if pinned_map_fd < 0 then (pinned_map_fd, m # ms)
                   else let (err, m) = reuse_fd m pinned_map_fd
                         in if err \<noteq> 0 then (err, m # ms)
                            else let (r, ms) = reuse_maps_loop obj_get reuse_fd path ms
                                  in (r, m # ms))"

definition reuse_pinned_maps :: "(string \<Rightarrow> int) \<Rightarrow> (bpf_obj_map \<Rightarrow> int \<Rightarrow> int \<times> bpf_obj_map) \<Rightarrow>
    bpf_object option \<Rightarrow> string option \<Rightarrow> int \<times> bpf_object option" where
  "reuse_pinned_maps obj_get reuse_fd obj_ptr path_ptr =
     (case obj_ptr of None \<Rightarrow> (- ENOENT, None)
      | Some obj \<Rightarrow>
     (case path_ptr of None \<Rightarrow> (- EINVAL, Some obj)
      | Some path \<Rightarrow>
          let (r, ms) = reuse_maps_loop obj_get reuse_fd path (maps obj)
           in (r, Some (obj\<lparr>maps := ms\<rparr>))))"

definition load_bpf_object_file_reuse_maps :: "(string \<Rightarrow> bpf_object option) \<Rightarrow>
    (bpf_object \<Rightarrow> int \<times> bpf_object) \<Rightarrow> (string \<Rightarrow> int) \<Rightarrow>
    (bpf_obj_map \<Rightarrow> int \<Rightarrow> int \<times> bpf_obj_map) \<Rightarrow> string \<Rightarrow> u32 \<Rightarrow> string \<Rightarrow> bpf_object option" where
  "load_bpf_object_file_reuse_maps object_open object_load obj_get reuse_fd path ifidx dir =
     (case open_bpf_object object_open path ifidx of
        None \<Rightarrow> None
      | Some obj \<Rightarrow>
          let (err, obj') = reuse_pinned_maps obj_get reuse_fd (Some obj) (Some dir)
           in if err \<noteq> 0 then None
              else case obj' of None \<Rightarrow> None
                   | Some obj \<Rightarrow> let (err, obj) = object_load obj in if err \<noteq> 0 then None else Some obj)"

section \<open>load\_bpf\_and\_xdp\_attach\<close>

text \<open>
  The left summand is \<^verbatim>\<open>exit(code)\<close>; \<open>None\<close> is an access outside of a character array of the
  configuration.
\<close>

definition load_bpf_and_xdp_attach :: "(string \<Rightarrow> bpf_object option) \<Rightarrow>
    (bpf_object \<Rightarrow> int \<times> bpf_object) \<Rightarrow> (string \<Rightarrow> int) \<Rightarrow>
    (bpf_obj_map \<Rightarrow> int \<Rightarrow> int \<times> bpf_obj_map) \<Rightarrow> 'k set_link \<Rightarrow> 'k \<Rightarrow> config \<Rightarrow>
    ((int + bpf_object \<times> config) \<times> 'k) option" where
  "load_bpf_and_xdp_attach object_open object_load obj_get reuse_fd set_link k cfg = do {
     let offload_ifindex = (if xdp_flags cfg AND XDP_FLAGS_HW_MODE \<noteq> 0 then ifindex cfg else 0);
     file \<leftarrow> rd_cstr (filename cfg);
     bpf_obj \<leftarrow> (if reuse_maps cfg
                 then do {
                   dir \<leftarrow> rd_cstr (pin_dir cfg);
                   Some (load_bpf_object_file_reuse_maps object_open object_load obj_get reuse_fd
                           file offload_ifindex dir)
                 }
                 else Some (load_bpf_object_file object_open object_load file offload_ifindex));
     (case bpf_obj of
        None \<Rightarrow> Some (Inl EXIT_FAIL_BPF, k)
      | Some obj \<Rightarrow> do {
          bpf_prog \<leftarrow> (case progsec cfg of
                          [] \<Rightarrow> None
                        | c # _ \<Rightarrow>
                            if c \<noteq> NUL
                            then do { sec \<leftarrow> rd_cstr (progsec cfg); Some (find_program_by_title obj sec) }
                            else Some (program_next None obj));
          (case bpf_prog of
             None \<Rightarrow> Some (Inl EXIT_FAIL_BPF, k)
           | Some i \<Rightarrow> do {
               let prog = programs obj ! i;
               sec \<leftarrow> strncpy_to (progsec cfg) (program_title prog) 32;
               let cfg = cfg\<lparr>progsec := sec\<rparr>;
               let prog_fd = program_fd prog;
               if prog_fd \<le> 0 then Some (Inl EXIT_FAIL_BPF, k)
               else let (err, _, k) = xdp_link_attach set_link k (ifindex cfg) (xdp_flags cfg) prog_fd
                     in Some (if err \<noteq> 0 then (Inl err, k) else (Inr (obj, cfg), k))
             })
        })
   }"

lemma find_split:
  "find P xs = Some x \<Longrightarrow> \<exists>before after. xs = before @ x # after \<and> P x \<and> (\<forall>y \<in> set before. \<not> P y)"
proof (induction xs)
  case (Cons y ys)
  show ?case
  proof (cases "P y")
    case True
    then show ?thesis using Cons.prems by (intro exI [of _ "[]"] exI [of _ ys]) simp
  next
    case False
    then obtain before after where "ys = before @ x # after" "P x" "\<forall>y \<in> set before. \<not> P y"
      using Cons by auto
    then show ?thesis using False by (intro exI [of _ "y # before"] exI [of _ after]) simp
  qed
qed simp

lemma program_next_None: "program_next None obj = Some i \<Longrightarrow> \<exists>is. each_program obj = i # is"
  by (simp add: each_program_def programs_from.simps [of None])

text \<open>
  \<open>selects obj sec before i\<close>: \<open>i\<close> is the first entry program of section \<open>sec\<close>, or the first one
  of the object when \<open>sec\<close> is empty; the entry programs in front of it are \<open>before\<close>.
\<close>

definition selects :: "bpf_object \<Rightarrow> string \<Rightarrow> nat list \<Rightarrow> nat \<Rightarrow> bool" where
  "selects obj sec before i \<longleftrightarrow> (\<exists>after. each_program obj = before @ i # after) \<and>
     (if sec = [] then before = []
      else section_name (programs obj ! i) = sec \<and>
        (\<forall>j \<in> set before. section_name (programs obj ! j) \<noteq> sec))"

lemma selects_title: "find_program_by_title obj sec = Some i \<Longrightarrow> sec \<noteq> [] \<Longrightarrow> \<exists>before. selects obj sec before i"
  unfolding find_program_by_title_def selects_def by (drule find_split) auto

lemma selects_next: "program_next None obj = Some i \<Longrightarrow> selects obj [] [] i"
  by (drule program_next_None) (simp add: selects_def)

text \<open>Descriptors are C \<^verbatim>\<open>int\<close>s: what loading stores into an object fits 31 bits.\<close>

definition loads_int_fds :: "(bpf_object \<Rightarrow> int \<times> bpf_object) \<Rightarrow> bool" where
  "loads_int_fds object_load \<longleftrightarrow> (\<forall>obj obj'. object_load obj = (0, obj') \<longrightarrow>
     (\<forall>p \<in> set (programs obj'). \<forall>fd \<in> set (instances p). fd < 2 ^ 31))"

lemma program_fd_int:
  assumes "\<forall>p \<in> set (programs obj). \<forall>fd \<in> set (instances p). fd < 2 ^ 31" "i \<in> set (each_program obj)"
  shows "program_fd (programs obj ! i) < 2 ^ 31"
proof -
  have "programs obj ! i \<in> set (programs obj)" using each_program_less [OF assms(2)] by simp
  then show ?thesis
    using assms(1) by (auto simp: program_fd_def program_nth_fd_def c_consts Let_def)
qed

lemma loaded_by_object_load:
  "load_bpf_object_file object_open object_load p idx = Some obj \<Longrightarrow> \<exists>o1. object_load o1 = (0, obj)"
  "load_bpf_object_file_reuse_maps object_open object_load obj_get reuse_fd p idx dir = Some obj \<Longrightarrow>
     \<exists>o1. object_load o1 = (0, obj)"
  by (auto simp: load_bpf_object_file_def prog_load_xattr_def load_bpf_object_file_reuse_maps_def Let_def
      split: option.splits list.splits sum.splits prod.splits if_splits)

lemma sec_upd: "progsec (cfg\<lparr>progsec := x\<rparr>) = x"
  by simp

text \<open>
  C37: for a configuration whose arrays have the sizes of \<^verbatim>\<open>struct config\<close> and hold terminated
  strings, loading and attaching accesses nothing outside of them. Either it returns the object, and
  then the program in the slot of the requested mode of the configured device is the first
  entry program of the section asked for (the first of the object, when no section was) and the
  configuration records its section; or it exits with status 40 and the kernel as it was; or it
  exits with status 30, after an attempt to attach that left the slots as they were, or whose
  acknowledgement was lost, or that removed the program of the opposite mode. Other devices are
  never affected. It rests on the contract of \<^verbatim>\<open>bpf_set_link_xdp_fd\<close>, and on descriptors that
  fit a C \<^verbatim>\<open>int\<close>.
\<close>

theorem load_bpf_and_xdp_attach_outcome:
  assumes "set_link_ok set_link attached" "loads_int_fds object_load" "sized cfg"
    and "terminated (filename cfg)" "terminated (pin_dir cfg)" "terminated (progsec cfg)"
  shows "\<exists>r k'. load_bpf_and_xdp_attach object_open object_load obj_get reuse_fd set_link k cfg = Some (r, k') \<and>
    (\<forall>j m. j \<noteq> ifindex cfg \<longrightarrow> attached k' j m = attached k j m) \<and>
    (case r of
       Inl code \<Rightarrow> (code = EXIT_FAIL_BPF \<and> k' = k) \<or>
         (code = EXIT_FAIL_XDP \<and>
           (attached k' = attached k \<or>
            (\<exists>fd > 0. attached k' (ifindex cfg) (xdp_flags cfg AND XDP_FLAGS_MODES) = Some fd) \<or>
            (xdp_flags cfg AND XDP_FLAGS_UPDATE_IF_NOEXIST = 0 \<and>
             attached k' (ifindex cfg) (opposite_mode (xdp_flags cfg)) = None)))
     | Inr (obj, cfg') \<Rightarrow> \<exists>before i. selects obj (cstr (progsec cfg)) before i \<and>
         progsec cfg' = strncpy (section_name (programs obj ! i)) 32 \<and>
         0 < program_fd (programs obj ! i) \<and>
         attached k' (ifindex cfg) (xdp_flags cfg AND XDP_FLAGS_MODES) =
           Some (program_fd (programs obj ! i)))"
  (is "\<exists>r k'. ?run = _ \<and> ?rest r k'")
proof -
  let ?off = "if xdp_flags cfg AND XDP_FLAGS_HW_MODE \<noteq> 0 then ifindex cfg else 0"
  define obj_r where "obj_r = (if reuse_maps cfg
         then load_bpf_object_file_reuse_maps object_open object_load obj_get reuse_fd
                (cstr (filename cfg)) ?off (cstr (pin_dir cfg))
         else load_bpf_object_file object_open object_load (cstr (filename cfg)) ?off)"
  have exits: "EXIT_FAIL_XDP \<noteq> EXIT_OK" by (simp add: c_consts)
  obtain c cs where sec: "progsec cfg = c # cs" "c \<noteq> NUL \<longleftrightarrow> cstr (progsec cfg) \<noteq> []"
    using assms(3) by (cases "progsec cfg") (auto simp: sized_def cstr_def)
  define sel where "sel obj = (if cstr (progsec cfg) \<noteq> [] then find_program_by_title obj (cstr (progsec cfg))
                else program_next None obj)" for obj
  have run: "?run = (case obj_r of None \<Rightarrow> Some (Inl EXIT_FAIL_BPF, k) | Some obj \<Rightarrow>
      (case sel obj of None \<Rightarrow> Some (Inl EXIT_FAIL_BPF, k) | Some i \<Rightarrow>
        let fd = program_fd (programs obj ! i)
         in if fd \<le> 0 then Some (Inl EXIT_FAIL_BPF, k)
            else let (err, _, k) = xdp_link_attach set_link k (ifindex cfg) (xdp_flags cfg) fd
                  in Some (if err \<noteq> 0 then (Inl err, k)
                     else (Inr (obj, cfg\<lparr>progsec := strncpy (section_name (programs obj ! i)) 32\<rparr>), k))))"
  proof -
    have rd: "rd_cstr (filename cfg) = Some (cstr (filename cfg))"
      "rd_cstr (pin_dir cfg) = Some (cstr (pin_dir cfg))" "rd_cstr (c # cs) = Some (cstr (c # cs))"
      using assms(4-6) by (simp_all add: rd_cstr_def sec(1))
    have cp: "strncpy_to (c # cs) t 32 = Some (strncpy t 32)" for t
      using assms(3) by (simp add: sized_def sec(1))
    have upd: "ifindex (cfg\<lparr>progsec := x\<rparr>) = ifindex cfg"
      "xdp_flags (cfg\<lparr>progsec := x\<rparr>) = xdp_flags cfg" for x by simp_all
    have loaded: "(if reuse_maps cfg
        then do {
          dir \<leftarrow> rd_cstr (pin_dir cfg);
          Some (load_bpf_object_file_reuse_maps object_open object_load obj_get reuse_fd
                  (cstr (filename cfg)) ?off dir)
        }
        else Some (load_bpf_object_file object_open object_load (cstr (filename cfg)) ?off)) = Some obj_r"
      by (simp add: obj_r_def rd)
    have pick: "(if c \<noteq> NUL then do { sec \<leftarrow> rd_cstr (c # cs); Some (find_program_by_title obj sec) }
        else Some (program_next None obj)) = Some (sel obj)" for obj
      using sec(2) by (simp add: sel_def rd sec(1))
    show ?thesis
      unfolding load_bpf_and_xdp_attach_def Let_def rd(1) Option.bind.bind_lunit loaded
      by (simp only: sec(1) list.case pick Option.bind.bind_lunit cp program_title_def upd)
  qed
  show ?thesis
  proof (cases obj_r)
    case None
    then show ?thesis using run by (simp add: c_consts)
  next
    case obj: (Some obj)
    have int_fds: "\<forall>p \<in> set (programs obj). \<forall>fd \<in> set (instances p). fd < 2 ^ 31"
      using loaded_by_object_load obj assms(2) unfolding obj_r_def loads_int_fds_def
      by (metis (no_types, lifting))
    show ?thesis
    proof (cases "sel obj")
      case None
      then show ?thesis using run obj by (simp add: c_consts)
    next
      case (Some i)
      then obtain before where sel_i: "selects obj (cstr (progsec cfg)) before i"
        using selects_title selects_next unfolding sel_def by (metis (full_types))
      let ?fd = "program_fd (programs obj ! i)"
      have "i \<in> set (each_program obj)" using sel_i by (auto simp: selects_def)
      then have fd: "?fd < 2 ^ 31" by (rule program_fd_int [OF int_fds])
      obtain e h k2 where att: "xdp_link_attach set_link k (ifindex cfg) (xdp_flags cfg) ?fd = (e, h, k2)"
        by (metis surj_pair)
      show ?thesis
      proof (cases "?fd \<le> 0")
        case True
        then show ?thesis using run obj Some by (simp add: c_consts)
      next
        case False
        then have "0 \<le> ?fd" "0 < ?fd" by simp_all
        note att_ok = xdp_link_attach_outcome_aux [OF assms(1) this(1) fd att]
        have e: "e = EXIT_OK \<or> e = EXIT_FAIL_XDP" using att_ok by blast
        have ok: "e = EXIT_OK \<Longrightarrow> ?rest (Inr (obj, cfg\<lparr>progsec := strncpy (section_name (programs obj ! i)) 32\<rparr>)) k2"
          using att_ok sel_i \<open>0 < ?fd\<close> sec_upd [where cfg = cfg] unfolding sum.case prod.case by blast
        have bad: "e = EXIT_FAIL_XDP \<Longrightarrow> ?rest (Inl e) k2"
          using att_ok \<open>0 < ?fd\<close> exits unfolding sum.case by blast
        have res: "?run = Some (if e = EXIT_OK then Inr (obj, cfg\<lparr>progsec := strncpy (section_name (programs obj ! i)) 32\<rparr>)
            else Inl e, k2)"
          using False by (simp add: run obj Some att c_consts)
        show ?thesis
        proof (cases "e = EXIT_OK")
          case True
          show ?thesis by (rule exI, rule exI, rule conjI [OF res [unfolded if_P [OF True]] ok [OF True]])
        next
          case fail: False
          have xdp: "e = EXIT_FAIL_XDP" using e fail by blast
          show ?thesis by (rule exI, rule exI, rule conjI [OF res [unfolded if_not_P [OF fail]] bad [OF xdp]])
        qed
      qed
    qed
  qed
qed

text \<open>An object with one program, and a kernel that gives every program descriptor 5.\<close>

definition pass_object :: bpf_object where
  "pass_object = \<lparr>programs = [\<lparr>pg_idx = 3, section_name = ''xdp_pass'', pg_type = 0,
     attach_type = 0, prog_ifindex = 0, log_level = 0, prog_flags = 0, instances = []\<rparr>],
     maps = [], text_shndx = 1, has_pseudo_calls = False\<rparr>"

lemma each_program_pass_object: "each_program pass_object = [0]"
  by (simp add: each_program_def programs_from_filter after_prog_def is_function_storage_def
      pass_object_def)

definition load_as_5 :: "bpf_object \<Rightarrow> int \<times> bpf_object" where
  "load_as_5 obj = (0, obj\<lparr>programs := map (\<lambda>p. p\<lparr>instances := [5]\<rparr>) (programs obj)\<rparr>)"

lemma load_as_5_int_fds: "loads_int_fds load_as_5"
  by (auto simp: loads_int_fds_def load_as_5_def)

definition loaded_pass :: "prog_load_attr \<Rightarrow> bpf_object" where
  "loaded_pass attr =
     snd (load_as_5 (set_maps_ifindex (at_ifindex attr) (update_program (configured attr) 0 pass_object)))"

lemma loaded_pass_simps:
  "each_program (loaded_pass attr) = [0]"
  "section_name (programs (loaded_pass attr) ! 0) = ''xdp_pass''"
  "program_fd (programs (loaded_pass attr) ! 0) = 5"
  by (simp_all add: loaded_pass_def load_as_5_def pass_object_def update_program_def configured_def
      set_maps_ifindex_def program_fd_def program_nth_fd_def each_program_def programs_from_filter
      after_prog_def is_function_storage_def)

lemma load_pass_object:
  "\<exists>attr. load_bpf_object_file (\<lambda>_. Some pass_object) load_as_5 p idx =
     Some (loaded_pass attr)"
proof -
  let ?attr = "\<lparr>at_file = Some p, at_prog_type = BPF_PROG_TYPE_XDP, at_attach_type = 0,
                    at_ifindex = idx, at_log_level = 0, at_prog_flags = 0\<rparr>"
  have "0 < length (programs pass_object)" by (simp add: pass_object_def)
  then have "load_attr_programs ?attr [0] pass_object =
      Some (update_program (configured ?attr) 0 pass_object)"
    by (simp add: load_attr_program_configured c_consts)
  then have "load_bpf_object_file (\<lambda>_. Some pass_object) load_as_5 p idx =
     Some (loaded_pass ?attr)"
    unfolding load_bpf_object_file_def prog_load_xattr_def
    by (simp add: each_program_pass_object loaded_pass_def load_as_5_def del: load_attr_programs.simps)
  then show ?thesis ..
qed

lemma load_bpf_and_xdp_attach_outcome_witness:
  "\<exists>obj cfg' k'. load_bpf_and_xdp_attach (\<lambda>_. Some pass_object) load_as_5 (\<lambda>_. - 2) (\<lambda>m fd. (0, m))
      (slot_link None) (\<lambda>_. None, 0) (zero_config\<lparr>xdp_flags := XDP_FLAGS_DRV_MODE, ifindex := 8\<rparr>) =
      Some (Inr (obj, cfg'), k') \<and> slot_view (fst k') 8 XDP_FLAGS_DRV_MODE = Some 5"
  (is "\<exists>obj cfg' k'. ?f = _ \<and> _")
proof -
  let ?cfg = "zero_config\<lparr>xdp_flags := XDP_FLAGS_DRV_MODE, ifindex := 8\<rparr>"
  obtain attr where ld: "load_bpf_object_file (\<lambda>_. Some pass_object) load_as_5
      (cstr (filename zero_config)) 0 = Some (loaded_pass attr)"
    using load_pass_object by blast
  have nxt: "program_next None (loaded_pass attr) = Some 0"
    using loaded_pass_simps(1) [of attr]
    by (auto simp: each_program_def programs_from.simps [of None] split: option.splits)
  have "sized ?cfg" "terminated (filename ?cfg)" "terminated (pin_dir ?cfg)" "terminated (progsec ?cfg)"
    by (simp_all add: zero_config_def sized_def terminated_def)
  note out = load_bpf_and_xdp_attach_outcome [OF slot_link_ok load_as_5_int_fds this]
  have sec: "cstr (progsec zero_config) = []" and fl: "xdp_flags ?cfg AND XDP_FLAGS_HW_MODE = 0"
    and rm: "\<not> reuse_maps zero_config"
    by (simp_all add: zero_config_def cstr_def c_consts)
  have cfg: "progsec zero_config = NUL # replicate 31 NUL" "rd_cstr (filename zero_config) = Some (cstr (filename zero_config))"
    by (simp_all add: zero_config_def rd_cstr_def terminated_def flip: replicate_Suc)
  have "\<exists>cfg' k'. ?f = Some (Inr (loaded_pass attr, cfg'), k')"
    unfolding load_bpf_and_xdp_attach_def Let_def fl
    by (simp add: rm ld nxt loaded_pass_simps cfg)
      (simp add: strncpy_to_def xdp_link_attach_def slot_link_eq slot_set_def Let_def c_consts)
  then obtain cfg' k' where f: "?f = Some (Inr (loaded_pass attr, cfg'), k')" by blast
  from out [of "\<lambda>_. Some pass_object" "\<lambda>_. - 2" "\<lambda>m fd. (0, m)" None "(\<lambda>_. None, 0)"]
  show ?thesis unfolding f
    by (auto simp: loaded_pass_simps selects_def sec c_consts case_prod_beta)
qed

text \<open>
  Reusing the pinned maps of an object stops at the first map that cannot be reused; status
  0 means that every map was given the descriptor pinned under the directory and its own name,
  and in every case no map behind the failing one was touched.
\<close>

theorem reuse_maps_loop_outcome:
  assumes "reuse_maps_loop obj_get reuse_fd dir ms = (r, ms')"
  shows "length ms' = length ms \<and>
    (\<exists>n \<le> length ms. drop (Suc n) ms' = drop (Suc n) ms \<and> (r = 0 \<longrightarrow> n = length ms) \<and>
      (\<forall>i < n. length (pin_path dir (mp_name (ms ! i))) < PATH_MAX \<and>
         0 \<le> obj_get (pin_path dir (mp_name (ms ! i))) \<and>
         reuse_fd (ms ! i) (obj_get (pin_path dir (mp_name (ms ! i)))) = (0, ms' ! i)))"
  using assms
proof (induction ms arbitrary: r ms')
  case Nil
  then show ?case by simp
next
  case (Cons m ms)
  let ?s = "pin_path dir (mp_name m)"
  show ?case
  proof (cases "PATH_MAX \<le> length ?s \<or> obj_get ?s < 0 \<or> fst (reuse_fd m (obj_get ?s)) \<noteq> 0")
    case True
    then have "\<exists>m'. ms' = m' # ms" "r \<noteq> 0 "
      using Cons.prems
      by (auto simp: Let_def path_buf_def c_consts split: if_splits prod.splits)
    then show ?thesis by (intro conjI exI [of _ 0]) auto
  next
    case False
    then obtain m' where m': "reuse_fd m (obj_get ?s) = (0, m')"
      by (cases "reuse_fd m (obj_get ?s)") auto
    have buf: "path_buf ?s = ?s" using False by (simp add: path_buf_def c_consts)
    obtain ms1 where ms1: "reuse_maps_loop obj_get reuse_fd dir ms = (r, ms1)" "ms' = m' # ms1"
      using Cons.prems False m' by (auto simp: Let_def buf split: prod.splits)
    from Cons.IH [OF ms1(1)] obtain n where n: "length ms1 = length ms" "n \<le> length ms"
      "drop (Suc n) ms1 = drop (Suc n) ms" "r = 0 \<longrightarrow> n = length ms"
      "\<forall>i < n. length (pin_path dir (mp_name (ms ! i))) < PATH_MAX \<and>
         0 \<le> obj_get (pin_path dir (mp_name (ms ! i))) \<and>
         reuse_fd (ms ! i) (obj_get (pin_path dir (mp_name (ms ! i)))) = (0, ms1 ! i)"
      by blast
    show ?thesis
      using n False m' by (intro conjI exI [of _ "Suc n"]) (auto simp: ms1(2) nth_Cons split: nat.split)
  qed
qed

definition plain_map :: "string \<Rightarrow> bpf_obj_map" where
  "plain_map name = \<lparr>mp_name = name, mp_fd = - 1, def_type = 0, def_key_size = 0,
     def_value_size = 0, def_max_entries = 0, def_map_flags = 0, btf_key_type_id = 0,
     btf_value_type_id = 0, reused = False, map_ifindex = 0\<rparr>"

lemma reuse_maps_loop_outcome_witness:
  "\<exists>ms'. reuse_maps_loop (\<lambda>p. if p = ''/sys/fs/bpf/a'' then 6 else - 2)
      (\<lambda>m fd. (0, m\<lparr>mp_fd := fd\<rparr>)) ''/sys/fs/bpf'' [plain_map ''a'', plain_map ''b''] = (- 2, ms') \<and>
      length ms' = 2"
  (is "\<exists>ms'. ?f = _ \<and> _")
proof -
  obtain r ms' where f: "?f = (r, ms')" by (cases ?f)
  have "r = - 2" using f by (auto simp: plain_map_def pin_path_def path_buf_def c_consts)
  with reuse_maps_loop_outcome [OF f] f show ?thesis by auto
qed

section \<open>Maps opened by name\<close>

definition check_map_fd_info :: "bpf_map_info \<Rightarrow> bpf_map_info \<Rightarrow> int" where
  "check_map_fd_info info ex =
     (if mi_key_size ex \<noteq> 0 \<and> mi_key_size ex \<noteq> mi_key_size info then EXIT_FAIL
      else if mi_value_size ex \<noteq> 0 \<and> mi_value_size ex \<noteq> mi_value_size info then EXIT_FAIL
      else if mi_max_entries ex \<noteq> 0 \<and> mi_max_entries ex \<noteq> mi_max_entries info then EXIT_FAIL
      else if mi_type ex \<noteq> 0 \<and> mi_type ex \<noteq> mi_type info then EXIT_FAIL
      else 0)"

text \<open>\<open>want_info\<close> says whether the caller passed a buffer; the second result is what it gets.\<close>

definition open_bpf_map_file :: "(string \<Rightarrow> int) \<Rightarrow> (int \<Rightarrow> int \<times> bpf_map_info) \<Rightarrow>
    string \<Rightarrow> string \<Rightarrow> bool \<Rightarrow> int \<times> bpf_map_info option" where
  "open_bpf_map_file obj_get get_info dir mapname want_info =
     (let buf = path_buf (pin_path dir mapname);
          fd = obj_get buf
       in if fd < 0 then (fd, None)
          else if want_info
          then let (err, info) = get_info fd
                in if err \<noteq> 0 then (EXIT_FAIL_BPF, None) else (fd, Some info)
          else (fd, None))"

text \<open>
  A map whose pin path has 4096 characters or more is refused with \<^verbatim>\<open>-ENAMETOOLONG\<close> by
  the loader, while opening it by name silently opens the path cut off after 4095 characters.
\<close>

theorem long_pin_paths:
  assumes "PATH_MAX \<le> length (pin_path dir (mp_name m))"
  shows "fst (reuse_maps_loop obj_get reuse_fd dir (m # ms)) = - ENAMETOOLONG \<and>
    fst (open_bpf_map_file obj_get get_info dir (mp_name m) False) =
      obj_get (take 4095 (pin_path dir (mp_name m)))"
  using assms by (simp add: open_bpf_map_file_def path_buf_def c_consts Let_def)

definition zero_info :: bpf_map_info where
  "zero_info = \<lparr>mi_name = [], mi_type = 0, mi_key_size = 0, mi_value_size = 0,
     mi_max_entries = 0, mi_map_flags = 0, mi_btf_key = 0, mi_btf_value = 0\<rparr>"

lemma long_pin_paths_witness:
  "fst (open_bpf_map_file (\<lambda>p. int (length p)) (\<lambda>_. (0, zero_info)) ''/sys/fs/bpf''
      (mp_name (plain_map (replicate 5000 (CHR ''x'')))) False) = 4095"
  using long_pin_paths [where dir = "''/sys/fs/bpf''" and
      m = "plain_map (replicate 5000 (CHR ''x''))" and obj_get = "\<lambda>p. int (length p)"]
  by (simp add: pin_path_def plain_map_def c_consts)

text \<open>
  When the kernel refuses to describe a map that was opened, the result of opening it by name
  is the exit status 40, a non-negative number like every descriptor a successful call returns;
  only a map that could not be opened gives a negative result.
\<close>

theorem open_bpf_map_file_result:
  "fst (open_bpf_map_file obj_get get_info dir name want) =
     (let fd = obj_get (path_buf (pin_path dir name))
       in if 0 \<le> fd \<and> want \<and> fst (get_info fd) \<noteq> 0 then 40 else fd)"
  by (auto simp: open_bpf_map_file_def Let_def c_consts split: prod.splits)

text \<open>
  Checking a map's description succeeds exactly when every expected field that is not 0
  agrees, and fails with status 1 otherwise.
\<close>

theorem check_map_fd_info_iff:
  "check_map_fd_info info ex \<in> {0, 1} \<and>
   (check_map_fd_info info ex = 0 \<longleftrightarrow>
      (\<forall>f \<in> {mi_key_size, mi_value_size, mi_max_entries, mi_type}. f ex \<in> {0, f info}))"
  by (auto simp: check_map_fd_info_def c_consts)

definition xdp_action_names :: "string list" where
  "xdp_action_names = [''XDP_ABORTED'', ''XDP_DROP'', ''XDP_PASS'', ''XDP_TX'', ''XDP_REDIRECT'',
     ''XDP_UNKNOWN'']"

definition action2str :: "u32 \<Rightarrow> string option" where
  "action2str action = (if action < 6 then Some (xdp_action_names ! unat action) else None)"

end
