(* ===== verification/PinnedMaps.thy ===== *)
theory PinnedMaps
  imports Loader
begin

text \<open>
  \<^verbatim>\<open>bpf_prog_load_xattr_maps\<close> of \<^verbatim>\<open>common/common_libbpf.c\<close>: loading an object whose maps
  may come from pinned files. \<open>reuse_fd\<close> and \<open>pin\<close> stand for \<^verbatim>\<open>bpf_map__reuse_fd\<close> (see
  \<open>map_reuse_fd\<close>) and \<^verbatim>\<open>bpf_map__pin\<close>. A result of \<open>None\<close> is undefined behaviour: reading
  through a null or freed pointer.
\<close>

record pinned_map =
  pin_name :: string
  pin_filename :: string
  pin_fd :: int

record load_attr_maps =
  am_file :: "string option"
  am_prog_type :: int
  am_attach_type :: int
  am_ifindex :: u32
  am_pinned :: "pinned_map list"

text \<open>
  The inner loop of the first pass over the maps. \<open>mapname\<close> was read before the loop and points
  into the map, so it dangles (\<open>freed\<close>) once a descriptor was reused for the map.
\<close>

fun open_pins :: "(string \<Rightarrow> int) \<Rightarrow> (bpf_obj_map \<Rightarrow> int \<Rightarrow> int \<times> bpf_obj_map) \<Rightarrow>
    string \<Rightarrow> bool \<Rightarrow> bpf_obj_map \<Rightarrow> pinned_map list \<Rightarrow> (bpf_obj_map \<times> pinned_map list) option" where
  "open_pins obj_get reuse_fd mapname freed m [] = Some (m, [])"
| "open_pins obj_get reuse_fd mapname freed m (p # ps) =
     (if freed then None
      else let fd = obj_get (pin_filename p)
            in if mapname = pin_name p \<and> 0 < fd
               then let (r, m') = reuse_fd m fd
                     in do { (m', ps') \<leftarrow> open_pins obj_get reuse_fd mapname (r = 0) m' ps;
                             Some (m', p\<lparr>pin_fd := fd\<rparr> # ps') }
               else do { (m', ps') \<leftarrow> open_pins obj_get reuse_fd mapname False m ps;
                         Some (m', p # ps') })"

fun open_pins_maps :: "(string \<Rightarrow> int) \<Rightarrow> (bpf_obj_map \<Rightarrow> int \<Rightarrow> int \<times> bpf_obj_map) \<Rightarrow>
    u32 \<Rightarrow> bpf_obj_map list \<Rightarrow> pinned_map list \<Rightarrow> (bpf_obj_map list \<times> pinned_map list) option" where
  "open_pins_maps obj_get reuse_fd idx [] ps = Some ([], ps)"
| "open_pins_maps obj_get reuse_fd idx (m # ms) ps = do {
     let mapname = mp_name m;
     let m = (if is_offload_neutral m then m else map_set_ifindex idx m);
     (m, ps) \<leftarrow> open_pins obj_get reuse_fd mapname False m ps;
     (ms, ps) \<leftarrow> open_pins_maps obj_get reuse_fd idx ms ps;
     Some (m # ms, ps)
   }"

text \<open>The second pass: pin the maps that were not taken from a file.\<close>

definition pin_one :: "(bpf_obj_map \<Rightarrow> string \<Rightarrow> int) \<Rightarrow> bpf_obj_map \<Rightarrow> pinned_map \<Rightarrow> pinned_map" where
  "pin_one pin m p =
     (if mp_name m \<noteq> pin_name p then p
      else if pin_fd p \<noteq> - 1 then p
      else if pin m (pin_filename p) \<noteq> 0 then p
      else p\<lparr>pin_fd := mp_fd m\<rparr>)"

definition pin_maps :: "(bpf_obj_map \<Rightarrow> string \<Rightarrow> int) \<Rightarrow> bpf_obj_map list \<Rightarrow> pinned_map list \<Rightarrow> pinned_map list" where
  "pin_maps pin ms ps = fold (\<lambda>m ps. map (pin_one pin m) ps) ms ps"

definition configure_programs :: "int \<Rightarrow> int \<Rightarrow> u32 \<Rightarrow> bpf_object \<Rightarrow> bpf_object" where
  "configure_programs ptype atype idx obj =
     fold (\<lambda>i ob. update_program (program_set_expected_attach_type atype) i
                    (update_program (program_set_type ptype) i
                      (update_program (program_set_ifindex idx) i ob)))
          (each_program obj) obj"

definition prog_load_xattr_maps :: "(string \<Rightarrow> bpf_object option) \<Rightarrow>
    (bpf_object \<Rightarrow> int \<times> bpf_object) \<Rightarrow> (string \<Rightarrow> int) \<Rightarrow>
    (bpf_obj_map \<Rightarrow> int \<Rightarrow> int \<times> bpf_obj_map) \<Rightarrow> (bpf_obj_map \<Rightarrow> string \<Rightarrow> int) \<Rightarrow>
    load_attr_maps option \<Rightarrow> (int + bpf_object \<times> int \<times> pinned_map list) option" where
  "prog_load_xattr_maps object_open object_load obj_get reuse_fd pin attr_ptr = do {
     attr \<leftarrow> attr_ptr;
     (case am_file attr of
        None \<Rightarrow> Some (Inl (- EINVAL))
      | Some path \<Rightarrow>
     (case object_open path of
        None \<Rightarrow> Some (Inl (- ENOENT))
      | Some obj \<Rightarrow>
        let first_prog = (case each_program obj of [] \<Rightarrow> None | i # _ \<Rightarrow> Some i);
            obj1 = configure_programs (am_prog_type attr) (am_attach_type attr) (am_ifindex attr) obj;
            pins = map (\<lambda>p. p\<lparr>pin_fd := - 1\<rparr>) (am_pinned attr)
         in do {
           (ms, pins) \<leftarrow> open_pins_maps obj_get reuse_fd (am_ifindex attr) (maps obj1) pins;
           (case first_prog of
              None \<Rightarrow> Some (Inl (- ENOENT))
            | Some i \<Rightarrow>
                let (err, obj2) = object_load (obj1\<lparr>maps := ms\<rparr>)
                 in if err \<noteq> 0 then Some (Inl (- EINVAL))
                    else Some (Inr (obj2, program_fd (programs obj2 ! i), pin_maps pin (maps obj2) pins)))
         }))
   }"

section \<open>Which pins are used\<close>

text \<open>How many entries of the pin list match a map's name and can be opened.\<close>

definition usable :: "(string \<Rightarrow> int) \<Rightarrow> string \<Rightarrow> pinned_map \<Rightarrow> bool" where
  "usable obj_get name p \<longleftrightarrow> pin_name p = name \<and> 0 < obj_get (pin_filename p)"

text \<open>
  When a map has a usable pin, reusing its descriptor succeeds, and any other pin is listed
  after it, the loader goes on to compare the name it has just freed: the first pass has no
  defined result. With the usable pin listed last it is defined, and records the pinned
  descriptor.
\<close>

theorem reused_map_name_dangles:
  assumes "usable obj_get (mp_name m) p" "list_all (\<lambda>q. \<not> usable obj_get (mp_name m) q) before"
    and "fst (reuse_fd (if is_offload_neutral m then m else map_set_ifindex idx m)
                (obj_get (pin_filename p))) = 0"
  shows "(open_pins_maps obj_get reuse_fd idx [m] (before @ p # after) = None \<longleftrightarrow> after \<noteq> []) \<and>
    (\<exists>m'. open_pins_maps obj_get reuse_fd idx [m] (before @ [p]) =
           Some ([m'], before @ [p\<lparr>pin_fd := obj_get (pin_filename p)\<rparr>]))"
proof -
  define m1 where "m1 = (if is_offload_neutral m then m else map_set_ifindex idx m)"
  obtain m' where m': "reuse_fd m1 (obj_get (pin_filename p)) = (0, m')"
    using assms(3) unfolding m1_def by (metis prod.collapse)
  have hit: "open_pins obj_get reuse_fd (mp_name m) False m1 (before @ p # qs) =
      (if qs = [] then Some (m', before @ [p\<lparr>pin_fd := obj_get (pin_filename p)\<rparr>]) else None)" for qs
    using assms(2)
  proof (induction before)
    case Nil
    then show ?case using assms(1) m' by (cases qs) (auto simp: usable_def Let_def)
  next
    case (Cons q before)
    then show ?case by (auto simp: usable_def Let_def)
  qed
  have run: "open_pins_maps obj_get reuse_fd idx [m] ps =
      Option.bind (open_pins obj_get reuse_fd (mp_name m) False m1 ps) (\<lambda>(m, ps). Some ([m], ps))" for ps
    by (simp add: Let_def m1_def)
  show ?thesis unfolding run by (simp add: hit)
qed

lemma reused_map_name_dangles_witness:
  "open_pins_maps (\<lambda>_. 6) (\<lambda>m fd. (0, m\<lparr>mp_fd := fd\<rparr>)) 0 [plain_map ''a'']
     [\<lparr>pin_name = ''a'', pin_filename = ''/sys/fs/bpf/a'', pin_fd = - 1\<rparr>,
      \<lparr>pin_name = ''b'', pin_filename = ''/sys/fs/bpf/b'', pin_fd = - 1\<rparr>] = None"
  using reused_map_name_dangles [where m = "plain_map ''a''" and obj_get = "\<lambda>_. 6" and before = "[]"
      and p = "\<lparr>pin_name = ''a'', pin_filename = ''/sys/fs/bpf/a'', pin_fd = - 1\<rparr>" and idx = 0
      and after = "[\<lparr>pin_name = ''b'', pin_filename = ''/sys/fs/bpf/b'', pin_fd = - 1\<rparr>]"
      and reuse_fd = "\<lambda>m fd. (0, m\<lparr>mp_fd := fd\<rparr>)"]
  by (simp add: usable_def plain_map_def)

section \<open>What the recorded descriptors mean\<close>

definition from_file :: "(string \<Rightarrow> int) \<Rightarrow> pinned_map \<Rightarrow> bool" where
  "from_file obj_get p \<longleftrightarrow> 0 < pin_fd p \<and> pin_fd p = obj_get (pin_filename p)"

definition from_map :: "(bpf_obj_map \<Rightarrow> string \<Rightarrow> int) \<Rightarrow> bpf_obj_map list \<Rightarrow> pinned_map \<Rightarrow> bool" where
  "from_map pin ms p \<longleftrightarrow>
     (\<exists>m \<in> set ms. mp_name m = pin_name p \<and> pin_fd p = mp_fd m \<and> pin m (pin_filename p) = 0)"

lemma open_pins_from_file:
  assumes "open_pins obj_get reuse_fd name freed m ps = Some (m', ps')"
    and "\<forall>p \<in> set ps. pin_fd p = - 1 \<or> from_file obj_get p"
  shows "\<forall>p \<in> set ps'. pin_fd p = - 1 \<or> from_file obj_get p"
  using assms
proof (induction ps arbitrary: freed m m' ps')
  case Nil
  then show ?case by simp
next
  case (Cons p ps)
  from Cons.prems obtain q freed1 m1 qs where
    q: "q = p \<or> (0 < obj_get (pin_filename p) \<and> q = p\<lparr>pin_fd := obj_get (pin_filename p)\<rparr>)"
    "ps' = q # qs" "open_pins obj_get reuse_fd name freed1 m1 ps = Some (m', qs)"
    by (auto simp: Let_def bind_Some_iff split: if_splits prod.splits)
  have "\<forall>p \<in> set qs. pin_fd p = - 1 \<or> from_file obj_get p"
    using Cons.IH [OF q(3)] Cons.prems(2) by simp
  then show ?case using q(1,2) Cons.prems(2) by (auto simp: from_file_def)
qed

lemma open_pins_maps_from_file:
  assumes "open_pins_maps obj_get reuse_fd idx ms ps = Some (ms', ps')"
    and "\<forall>p \<in> set ps. pin_fd p = - 1 \<or> from_file obj_get p"
  shows "\<forall>p \<in> set ps'. pin_fd p = - 1 \<or> from_file obj_get p"
  using assms
proof (induction ms arbitrary: ps ms')
  case Nil
  then show ?case by simp
next
  case (Cons m ms)
  from Cons.prems(1) obtain m0 m1 ps1 ms1 where
    1: "open_pins obj_get reuse_fd (mp_name m) False m0 ps = Some (m1, ps1)"
    and 2: "open_pins_maps obj_get reuse_fd idx ms ps1 = Some (ms1, ps')"
    by (auto simp: Let_def bind_Some_iff)
  show ?case using Cons.IH [OF 2] open_pins_from_file [OF 1] Cons.prems(2) by blast
qed

lemma pin_maps_from:
  assumes "set ms \<subseteq> set all_ms"
    and "\<forall>p \<in> set ps. pin_fd p = - 1 \<or> from_file obj_get p \<or> from_map pin all_ms p"
  shows "\<forall>p \<in> set (pin_maps pin ms ps).
    pin_fd p = - 1 \<or> from_file obj_get p \<or> from_map pin all_ms p"
  using assms
proof (induction ms arbitrary: ps)
  case Nil
  then show ?case by (simp add: pin_maps_def)
next
  case (Cons m ms)
  have "from_map pin all_ms (p\<lparr>pin_fd := mp_fd m\<rparr>)"
    if "mp_name m = pin_name p" "pin m (pin_filename p) = 0" for p
    using that Cons.prems(1) by (auto simp: from_map_def)
  then have "\<forall>p \<in> set (map (pin_one pin m) ps).
      pin_fd p = - 1 \<or> from_file obj_get p \<or> from_map pin all_ms p"
    using Cons.prems(2) by (auto simp: pin_one_def)
  then show ?case using Cons.IH [of "map (pin_one pin m) ps"] Cons.prems(1)
    by (simp add: pin_maps_def)
qed

text \<open>
  After a successful load every pin entry either is marked as not seen, or holds the
  descriptor its file opened to, or holds the descriptor of a loaded map of its name that was
  pinned to its file.
\<close>

theorem pinned_fds_meaning:
  assumes "prog_load_xattr_maps object_open object_load obj_get reuse_fd pin (Some attr) =
    Some (Inr (obj, fd, pins))"
  shows "\<forall>p \<in> set pins. pin_fd p = - 1 \<or> from_file obj_get p \<or> from_map pin (maps obj) p"
proof -
  let ?ps0 = "map (\<lambda>p. p\<lparr>pin_fd := - 1\<rparr>) (am_pinned attr)"
  obtain path obj0 ms ps1 where
    op: "open_pins_maps obj_get reuse_fd (am_ifindex attr) (maps (configure_programs
          (am_prog_type attr) (am_attach_type attr) (am_ifindex attr) obj0)) ?ps0 = Some (ms, ps1)"
    and pins: "pins = pin_maps pin (maps obj) ps1"
    using assms
    by (auto simp: prog_load_xattr_maps_def Let_def bind_Some_iff split_beta
        split: option.split_asm if_split_asm list.split_asm)
  have "\<forall>p \<in> set ps1. pin_fd p = - 1 \<or> from_file obj_get p"
    by (rule open_pins_maps_from_file [OF op]) auto
  then show ?thesis unfolding pins by (intro pin_maps_from) auto
qed

lemma pinned_fds_meaning_witness:
  "\<exists>obj fd p. prog_load_xattr_maps (\<lambda>_. Some (pass_object\<lparr>maps := [plain_map ''a'']\<rparr>))
      (\<lambda>ob. (0, ob)) (\<lambda>_. - 2) (\<lambda>m fd. (0, m)) (\<lambda>_ _. 0)
      (Some \<lparr>am_file = Some ''x.o'', am_prog_type = 6, am_attach_type = 0, am_ifindex = 0,
             am_pinned = [\<lparr>pin_name = ''b'', pin_filename = ''/b'', pin_fd = 0\<rparr>]\<rparr>) =
      Some (Inr (obj, fd, [p])) \<and> pin_fd p = - 1"
  (is "\<exists>obj fd p. ?f = _ \<and> _")
proof -
  have each: "each_program (pass_object\<lparr>maps := [plain_map ''a'']\<rparr>) = [0]"
    by (simp add: each_program_def programs_from_filter after_prog_def is_function_storage_def
        pass_object_def)
  have "\<exists>obj fd. ?f = Some (Inr (obj, fd, [\<lparr>pin_name = ''b'', pin_filename = ''/b'', pin_fd = - 1\<rparr>]))"
    unfolding prog_load_xattr_maps_def configure_programs_def
    by (simp add: each update_program_def)
      (simp add: Let_def plain_map_def pin_maps_def pin_one_def is_offload_neutral_def
        map_set_ifindex_def c_consts)
  then obtain obj fd where
    f: "?f = Some (Inr (obj, fd, [\<lparr>pin_name = ''b'', pin_filename = ''/b'', pin_fd = - 1\<rparr>]))" by blast
  from pinned_fds_meaning [OF f] f show ?thesis by (auto simp: from_file_def)
qed

end
