(* ===== verification/GrowArray.thy ===== *)
theory GrowArray
  imports Prelude
begin

text \<open>
  Growing memory of \<^verbatim>\<open>libbpf/src/btf.c\<close>: \<^verbatim>\<open>libbpf_add_mem\<close> and \<^verbatim>\<open>libbpf_ensure_mem\<close>, on which
  string sets, type tables and the linker's sections are built.

  A dynamically allocated region is the list of all the elements it has room for, so the
  capacity is the length of the list. Counts are natural numbers: the elements are allocated
  memory, so their number is far below \<open>2\<^sup>6\<^sup>4\<close>. Whether \<^verbatim>\<open>realloc\<close> succeeds is an argument. The
  pointer the C function returns is the position \<open>cur_cnt\<close> of the region.
\<close>

definition libbpf_add_mem :: "bool \<Rightarrow> 'a \<Rightarrow> 'a list \<Rightarrow> nat \<Rightarrow> nat \<Rightarrow> nat \<Rightarrow> 'a list option" where
  "libbpf_add_mem realloc_ok zero data cur_cnt max_cnt add_cnt =
     (let cap_cnt = length data
       in if cur_cnt + add_cnt \<le> cap_cnt then Some data
          else if cur_cnt + add_cnt > max_cnt then None
          else let new_cnt = cap_cnt;
                   new_cnt = new_cnt + new_cnt div 4;
                   new_cnt = (if new_cnt < 16 then 16 else new_cnt);
                   new_cnt = (if new_cnt > max_cnt then max_cnt else new_cnt);
                   new_cnt = (if new_cnt < cur_cnt + add_cnt then cur_cnt + add_cnt else new_cnt)
                in if \<not> realloc_ok then None
                   else Some (data @ replicate (new_cnt - cap_cnt) zero))"

definition SIZE_MAX :: nat where [c_consts]: "SIZE_MAX = 2 ^ 64 - 1"

definition libbpf_ensure_mem :: "bool \<Rightarrow> 'a \<Rightarrow> 'a list \<Rightarrow> nat \<Rightarrow> int \<times> 'a list" where
  "libbpf_ensure_mem realloc_ok zero data need_cnt =
     (if need_cnt \<le> length data then (0, data)
      else case libbpf_add_mem realloc_ok zero data (length data) SIZE_MAX (need_cnt - length data) of
             None \<Rightarrow> (- ENOMEM, data)
           | Some data' \<Rightarrow> (0, data'))"

text \<open>What a client relies on: the room it asked for, and the old elements in place.\<close>

lemma libbpf_add_mem_Some:
  assumes "libbpf_add_mem r z data cur lim add = Some data'"
  shows "cur + add \<le> length data'" "length data \<le> length data'" "take (length data) data' = data"
  using assms by (auto simp: libbpf_add_mem_def Let_def split: if_splits)

lemma libbpf_add_mem_None:
  "libbpf_add_mem r z data cur lim add = None \<longleftrightarrow>
     length data < cur + add \<and> (lim < cur + add \<or> \<not> r)"
  by (auto simp: libbpf_add_mem_def Let_def)

lemma libbpf_add_mem_take:
  "libbpf_add_mem r z data cur lim add = Some data' \<Longrightarrow> n \<le> length data \<Longrightarrow> take n data' = take n data"
  using libbpf_add_mem_Some(3) by (metis min.absorb1 take_take)

text \<open>
  Memory grows on demand: the call fails exactly when the elements do not fit and either
  the limit forbids them or the reallocation fails; otherwise there is room for them, the old
  elements are in place and new ones are zero. A region that grows does so by a quarter (or to
  16 elements) unless the limit is nearer, and never beyond the limit.
\<close>

theorem libbpf_add_mem_grows:
  assumes "length data \<le> lim"
  shows "case libbpf_add_mem r z data cur lim add of
      None \<Rightarrow> length data < cur + add \<and> (lim < cur + add \<or> \<not> r)
    | Some data' \<Rightarrow> \<exists>n. data' = data @ replicate n z \<and> cur + add \<le> length data' \<and>
        length data' \<le> lim \<and>
        (n \<noteq> 0 \<longrightarrow> length data' = lim \<or> 16 \<le> length data' \<and> 5 * length data div 4 \<le> length data')"
proof (cases "libbpf_add_mem r z data cur lim add")
  case None
  then show ?thesis using libbpf_add_mem_None [of r z data cur lim add] by simp
next
  case (Some data')
  show ?thesis
  proof (cases "cur + add \<le> length data")
    case True
    then have "data' = data @ replicate 0 z" using Some by (simp add: libbpf_add_mem_def)
    then show ?thesis using Some True assms by auto
  next
    case False
    define a where "a = (if length data + length data div 4 < 16 then 16
                         else length data + length data div 4)"
    define b where "b = (if lim < a then lim else a)"
    define c where "c = (if b < cur + add then cur + add else b)"
    have d: "data' = data @ replicate (c - length data) z" and le: "cur + add \<le> lim"
      using Some False by (auto simp: libbpf_add_mem_def Let_def a_def b_def c_def split: if_splits)
    have "c \<le> lim" "cur + add \<le> c" "length data < c" "c = lim \<or> a \<le> c"
      using le False by (auto simp: b_def c_def)
    moreover have "16 \<le> a" "5 * length data div 4 \<le> a" by (auto simp: a_def)
    ultimately show ?thesis using Some d by auto
  qed
qed

lemma libbpf_add_mem_grows_witness:
  "case libbpf_add_mem True 0 [1, 2, 3 :: nat] 3 100 2 of
      None \<Rightarrow> False
    | Some data' \<Rightarrow> \<exists>n. data' = [1, 2, 3] @ replicate n 0 \<and> 5 \<le> length data'"
  using libbpf_add_mem_grows [where r = True and z = "0 :: nat" and data = "[1, 2, 3]" and lim = 100 and cur = 3 and add = 2]
  by (auto simp: libbpf_add_mem_def)

end
