(* ===== verification/Hashmap.thy ===== *)
theory Hashmap
  imports Prelude "HOL-Library.Multiset"
begin

text \<open>
  The generic hash map of libbpf: \<^verbatim>\<open>libbpf/src/hashmap.c\<close> and \<^verbatim>\<open>hashmap.h\<close>.

  A bucket's chain of entries is a list, first entry first, and \<^verbatim>\<open>buckets\<close> the list of the
  chains (empty for the NULL pointer of an empty map). Keys and values are of arbitrary types;
  the hash and comparison functions are fields, as in C. An allocation that can fail is a
  boolean argument. Sizes are natural numbers: every entry and bucket is allocated memory, so
  the \<^verbatim>\<open>size_t\<close> counters cannot wrap.
\<close>

unbundle bit_operations_syntax

section \<open>Hashing\<close>

definition hash_bits :: "u64 \<Rightarrow> nat \<Rightarrow> nat" where
  "hash_bits h bits =
     (if bits = 0 then 0 else unat (drop_bit (64 - bits) (h * 11400714819323198485)))"

text \<open>The hash of a C string; its characters are signed, as on the x86 targets of the code.\<close>

definition str_hash :: "8 word list \<Rightarrow> u64" where
  "str_hash s = fold (\<lambda>c h. h * 31 + scast c) s 0"

lemma hash_bits_less: "bits \<le> 64 \<Longrightarrow> hash_bits h bits < 2 ^ bits"
proof (cases "bits = 0")
  case False
  assume b: "bits \<le> 64"
  let ?x = "h * 11400714819323198485"
  have "unat ?x < 2 ^ LENGTH(64)" by (rule unsigned_less)
  then have lt: "unat ?x < 2 ^ 64" by simp
  then have "unat ?x < 2 ^ bits * 2 ^ (64 - bits)" using b by (simp flip: power_add)
  then have "unat ?x div 2 ^ (64 - bits) < 2 ^ bits" by (simp add: less_mult_imp_div_less)
  moreover have "hash_bits h bits = unat ?x div 2 ^ (64 - bits)"
    using False by (simp only: hash_bits_def unsigned_drop_bit_eq) (simp add: drop_bit_eq_div take_bit_nat_eq_self [OF lt])
  ultimately show ?thesis by simp
qed (simp add: hash_bits_def)

section \<open>The map\<close>

record ('k, 'v) hashmap =
  hash_fn :: "'k \<Rightarrow> u64"
  equal_fn :: "'k \<Rightarrow> 'k \<Rightarrow> bool"
  buckets :: "('k \<times> 'v) list list"
  cap :: nat
  cap_bits :: nat
  sz :: nat

datatype strategy = HASHMAP_ADD | HASHMAP_SET | HASHMAP_UPDATE | HASHMAP_APPEND

definition HASHMAP_MIN_CAP_BITS :: nat where [c_consts]: "HASHMAP_MIN_CAP_BITS = 2"

definition hashmap_init :: "('k \<Rightarrow> u64) \<Rightarrow> ('k \<Rightarrow> 'k \<Rightarrow> bool) \<Rightarrow> ('k, 'v) hashmap" where
  "hashmap_init hf ef =
     \<lparr>hash_fn = hf, equal_fn = ef, buckets = [], cap = 0, cap_bits = 0, sz = 0\<rparr>"

definition hashmap_new :: "bool \<Rightarrow> ('k \<Rightarrow> u64) \<Rightarrow> ('k \<Rightarrow> 'k \<Rightarrow> bool) \<Rightarrow> int + ('k, 'v) hashmap" where
  "hashmap_new malloc_ok hf ef = (if malloc_ok then Inr (hashmap_init hf ef) else Inl (- ENOMEM))"

definition hashmap_clear :: "('k, 'v) hashmap \<Rightarrow> ('k, 'v) hashmap" where
  "hashmap_clear m = m\<lparr>buckets := [], cap := 0, cap_bits := 0, sz := 0\<rparr>"

definition hashmap_size :: "('k, 'v) hashmap \<Rightarrow> nat" where
  "hashmap_size m = sz m"

definition hashmap_capacity :: "('k, 'v) hashmap \<Rightarrow> nat" where
  "hashmap_capacity m = cap m"

text \<open>The entries in the order of \<^verbatim>\<open>hashmap__for_each_entry\<close>.\<close>

definition entries :: "('k, 'v) hashmap \<Rightarrow> ('k \<times> 'v) list" where
  "entries m = concat (buckets m)"

definition hashmap_add_entry :: "nat \<Rightarrow> 'k \<times> 'v \<Rightarrow> ('k \<times> 'v) list list \<Rightarrow> ('k \<times> 'v) list list" where
  "hashmap_add_entry h e bs = bs[h := e # bs ! h]"

definition hashmap_needs_to_grow :: "('k, 'v) hashmap \<Rightarrow> bool" where
  "hashmap_needs_to_grow m \<longleftrightarrow> cap m = 0 \<or> cap m < (sz m + 1) * 4 div 3"

definition hashmap_grow :: "bool \<Rightarrow> ('k, 'v) hashmap \<Rightarrow> int \<times> ('k, 'v) hashmap" where
  "hashmap_grow calloc_ok m =
     (let new_cap_bits = cap_bits m + 1;
          new_cap_bits = (if new_cap_bits < HASHMAP_MIN_CAP_BITS then HASHMAP_MIN_CAP_BITS
                          else new_cap_bits);
          new_cap = 2 ^ new_cap_bits
       in if \<not> calloc_ok then (- ENOMEM, m)
          else let new_buckets =
                 fold (\<lambda>e bs. hashmap_add_entry (hash_bits (hash_fn m (fst e)) new_cap_bits) e bs)
                      (entries m) (replicate new_cap [])
                in (0, m\<lparr>cap := new_cap, cap_bits := new_cap_bits, buckets := new_buckets\<rparr>))"

text \<open>The position of the first entry of a chain with an equal key.\<close>

fun chain_pos :: "('k \<Rightarrow> 'k \<Rightarrow> bool) \<Rightarrow> 'k \<Rightarrow> ('k \<times> 'v) list \<Rightarrow> nat option" where
  "chain_pos eq key [] = None"
| "chain_pos eq key (e # es) =
     (if eq (fst e) key then Some 0 else map_option Suc (chain_pos eq key es))"

definition hashmap_find_entry :: "('k, 'v) hashmap \<Rightarrow> 'k \<Rightarrow> nat \<Rightarrow> nat option" where
  "hashmap_find_entry m key h =
     (if buckets m = [] then None else chain_pos (equal_fn m) key (buckets m ! h))"

text \<open>
  The result code, what \<^verbatim>\<open>old_key\<close> and \<^verbatim>\<open>old_value\<close> are set to, and the map. The two
  booleans say whether the allocations of the buckets and of the entry succeed.
\<close>

definition hashmap_insert :: "bool \<Rightarrow> bool \<Rightarrow> ('k, 'v) hashmap \<Rightarrow> 'k \<Rightarrow> 'v \<Rightarrow> strategy \<Rightarrow>
    int \<times> ('k \<times> 'v) option \<times> ('k, 'v) hashmap" where
  "hashmap_insert calloc_ok malloc_ok m key val strategy =
     (let h = hash_bits (hash_fn m key) (cap_bits m);
          found = (if strategy \<noteq> HASHMAP_APPEND then hashmap_find_entry m key h else None);
          old = (case found of None \<Rightarrow> None | Some i \<Rightarrow> Some (buckets m ! h ! i))
       in case (found, strategy) of
            (Some i, HASHMAP_SET) \<Rightarrow>
              (0, old, m\<lparr>buckets := (buckets m)[h := (buckets m ! h)[i := (key, val)]]\<rparr>)
          | (Some i, HASHMAP_UPDATE) \<Rightarrow>
              (0, old, m\<lparr>buckets := (buckets m)[h := (buckets m ! h)[i := (key, val)]]\<rparr>)
          | (Some i, HASHMAP_ADD) \<Rightarrow> (- EEXIST, old, m)
          | (_, HASHMAP_UPDATE) \<Rightarrow> (- ENOENT, old, m)
          | _ \<Rightarrow>
              let (err, m) = (if hashmap_needs_to_grow m then hashmap_grow calloc_ok m else (0, m))
               in if err \<noteq> 0 then (err, old, m)
                  else let h = hash_bits (hash_fn m key) (cap_bits m)
                        in if \<not> malloc_ok then (- ENOMEM, old, m)
                           else (0, old, m\<lparr>buckets := hashmap_add_entry h (key, val) (buckets m),
                                           sz := sz m + 1\<rparr>))"

definition hashmap_find :: "('k, 'v) hashmap \<Rightarrow> 'k \<Rightarrow> 'v option" where
  "hashmap_find m key =
     (let h = hash_bits (hash_fn m key) (cap_bits m)
       in case hashmap_find_entry m key h of
            None \<Rightarrow> None | Some i \<Rightarrow> Some (snd (buckets m ! h ! i)))"

definition hashmap_delete :: "('k, 'v) hashmap \<Rightarrow> 'k \<Rightarrow> ('k \<times> 'v) option \<times> ('k, 'v) hashmap" where
  "hashmap_delete m key =
     (let h = hash_bits (hash_fn m key) (cap_bits m)
       in case hashmap_find_entry m key h of
            None \<Rightarrow> (None, m)
          | Some i \<Rightarrow>
              let chain = buckets m ! h
               in (Some (chain ! i),
                   m\<lparr>buckets := (buckets m)[h := take i chain @ drop (Suc i) chain],
                     sz := sz m - 1\<rparr>))"

text \<open>The entries \<^verbatim>\<open>hashmap__for_each_key_entry\<close> visits.\<close>

definition key_entries :: "('k, 'v) hashmap \<Rightarrow> 'k \<Rightarrow> ('k \<times> 'v) list" where
  "key_entries m key =
     (if buckets m = [] then []
      else filter (\<lambda>e. equal_fn m (fst e) key)
             (buckets m ! hash_bits (hash_fn m key) (cap_bits m)))"

section \<open>Invariant\<close>

definition hm_ok :: "('k, 'v) hashmap \<Rightarrow> bool" where
  "hm_ok m \<longleftrightarrow>
     length (buckets m) = cap m \<and> sz m = length (entries m) \<and>
     (if cap m = 0 then cap_bits m = 0
      else 2 \<le> cap_bits m \<and> cap_bits m \<le> 64 \<and> cap m = 2 ^ cap_bits m) \<and>
     (\<forall>b < cap m. \<forall>e \<in> set (buckets m ! b). hash_bits (hash_fn m (fst e)) (cap_bits m) = b)"

text \<open>At most one entry for every key, and at most three quarters as many entries as buckets.\<close>

definition hm_unique :: "('k, 'v) hashmap \<Rightarrow> bool" where
  "hm_unique m \<longleftrightarrow> (\<forall>k. length (filter (\<lambda>e. equal_fn m (fst e) k) (entries m)) \<le> 1)"

definition hm_load :: "('k, 'v) hashmap \<Rightarrow> bool" where
  "hm_load m \<longleftrightarrow> 4 * sz m \<le> 3 * cap m"

section \<open>Lists of chains\<close>

lemma find_filter: "find P xs = (case filter P xs of [] \<Rightarrow> None | x # _ \<Rightarrow> Some x)"
  by (induction xs) auto

lemma find_mset_cong:
  assumes "mset xs = mset ys" "length (filter P xs) \<le> 1"
  shows "find P xs = find P ys"
proof -
  have eq: "mset (filter P xs) = mset (filter P ys)" using assms(1) by simp
  then have "length (filter P ys) \<le> 1" using assms(2) by (metis size_mset)
  then have "filter P xs = filter P ys"
    using eq assms(2) by (cases "filter P xs"; cases "filter P ys") auto
  then show ?thesis by (simp add: find_filter)
qed

lemma chain_pos_find: "find (\<lambda>e. eq (fst e) k) es = map_option ((!) es) (chain_pos eq k es)"
  by (induction es) (auto simp: option.map_comp comp_def)

lemma chain_pos_Some: "chain_pos eq k es = Some i \<Longrightarrow> i < length es \<and> eq (fst (es ! i)) k"
  by (induction es arbitrary: i) (auto split: if_splits)

lemma mset_concat_update:
  "h < length bs \<Longrightarrow> mset (concat (bs[h := c])) + mset (bs ! h) = mset (concat bs) + mset c"
proof (induction bs arbitrary: h)
  case Nil
  then show ?case by simp
next
  case (Cons b bs)
  show ?case
  proof (cases h)
    case 0
    then show ?thesis by simp
  next
    case (Suc j)
    then have "mset (concat (bs[j := c])) + mset (bs ! j) = mset (concat bs) + mset c"
      using Cons by simp
    then show ?thesis using Suc by (simp add: union_commute union_lcomm)
  qed
qed

lemma filter_concat_none:
  "\<forall>b < length bs. filter P (bs ! b) = [] \<Longrightarrow> filter P (concat bs) = []"
proof (induction bs)
  case (Cons c bs)
  have 1: "filter P (bs ! b) = []" if "b < length bs" for b
    using Cons.prems [rule_format, of "Suc b"] that by simp
  have 0: "filter P c = []" using Cons.prems [rule_format, of 0] by simp
  have "filter P (concat bs) = []" using 1 by (intro Cons.IH) blast
  then show ?case using 0 by simp
qed simp

lemma filter_concat_one:
  "h < length bs \<Longrightarrow> \<forall>b < length bs. b \<noteq> h \<longrightarrow> filter P (bs ! b) = [] \<Longrightarrow>
     filter P (concat bs) = filter P (bs ! h)"
proof (induction bs arbitrary: h)
  case (Cons c bs)
  show ?case
  proof (cases h)
    case 0
    then have "filter P (bs ! b) = []" if "b < length bs" for b
      using Cons.prems(2) [rule_format, of "Suc b"] that by simp
    then have "filter P (concat bs) = []" by (intro filter_concat_none) blast
    then show ?thesis using 0 by simp
  next
    case (Suc j)
    then have "filter P c = []" using Cons.prems(2) [rule_format, of 0] by simp
    moreover have "filter P (bs ! b) = []" if "b < length bs" "b \<noteq> j" for b
      using Cons.prems(2) [rule_format, of "Suc b"] Suc that by simp
    then have "filter P (concat bs) = filter P (bs ! j)"
      using Cons.prems(1) Suc by (intro Cons.IH) auto
    ultimately show ?thesis using Suc by simp
  qed
qed simp

lemma single_of_member: "x \<in># M \<Longrightarrow> size M \<le> 1 \<Longrightarrow> M = {#x#}"
  by (auto dest!: multi_member_split)

lemma length_hashmap_add_entry [simp]: "length (hashmap_add_entry h e bs) = length bs"
  by (simp add: hashmap_add_entry_def)

lemma mset_hashmap_add_entry:
  "h < length bs \<Longrightarrow> mset (concat (hashmap_add_entry h e bs)) = add_mset e (mset (concat bs))"
  using mset_concat_update [of h bs "e # bs ! h"] by (simp add: hashmap_add_entry_def)

lemma rehash_nth:
  "b < length bs \<Longrightarrow> fold (\<lambda>e. hashmap_add_entry (f e) e) es bs ! b =
     rev (filter (\<lambda>e. f e = b) es) @ bs ! b"
  by (induction es arbitrary: bs) (auto simp: hashmap_add_entry_def nth_list_update)

lemma length_rehash [simp]: "length (fold (\<lambda>e. hashmap_add_entry (f e) e) es bs) = length bs"
  by (induction es arbitrary: bs) auto

lemma mset_rehash:
  "\<forall>e \<in> set es. f e < length bs \<Longrightarrow>
     mset (concat (fold (\<lambda>e. hashmap_add_entry (f e) e) es bs)) = mset es + mset (concat bs)"
  by (induction es arbitrary: bs) (simp_all add: mset_hashmap_add_entry)

lemma concat_replicate_Nil [simp]: "concat (replicate n []) = []"
  by (induction n) auto

section \<open>Growing\<close>

lemma hashmap_grow_fields:
  assumes "hashmap_grow c m = (r, m')"
  shows "hash_fn m' = hash_fn m" "equal_fn m' = equal_fn m" "sz m' = sz m"
    "r \<in> {0, - ENOMEM}" "r \<noteq> 0 \<Longrightarrow> m' = m" "r = 0 \<longleftrightarrow> c"
  using assms by (auto simp: hashmap_grow_def Let_def split: if_splits)

lemma hashmap_grow_ok:
  assumes "hashmap_grow c m = (0, m')" "hm_ok m" "cap_bits m < 64"
  shows "hm_ok m'" "mset (entries m') = mset (entries m)" "2 * cap m \<le> cap m'" "4 \<le> cap m'"
proof -
  define nb where "nb = (if cap_bits m + 1 < 2 then 2 else cap_bits m + 1)"
  let ?f = "\<lambda>e. hash_bits (hash_fn m (fst e)) nb"
  let ?bs = "fold (\<lambda>e. hashmap_add_entry (?f e) e) (entries m) (replicate (2 ^ nb) [])"
  have c: c using assms(1) by (auto simp: hashmap_grow_def Let_def split: if_splits)
  have m': "m' = m\<lparr>cap := 2 ^ nb, cap_bits := nb, buckets := ?bs\<rparr>"
    using assms(1) c unfolding hashmap_grow_def HASHMAP_MIN_CAP_BITS_def Let_def nb_def [symmetric]
    by simp
  have nb: "2 \<le> nb" "nb \<le> 64" using assms(3) by (auto simp: nb_def)
  have lt: "\<forall>e \<in> set (entries m). ?f e < length (replicate (2 ^ nb) [])"
    using nb(2) by (simp add: hash_bits_less)
  have ms: "mset (concat ?bs) = mset (entries m)"
    using mset_rehash [OF lt] by simp
  then show "mset (entries m') = mset (entries m)" by (simp add: entries_def m')
  have "length (concat ?bs) = length (entries m)" using ms by (rule mset_eq_length)
  moreover have "sz m = length (entries m)" using assms(2) by (simp add: hm_ok_def)
  moreover have "?f e = b" if "b < 2 ^ nb" "e \<in> set (?bs ! b)" for b e
    using that by (simp add: rehash_nth)
  ultimately show "hm_ok m'"
    using nb by (simp add: hm_ok_def m' entries_def)
  have two: "4 \<le> (2 :: nat) ^ nb" using power_increasing [OF nb(1), of "2 :: nat"] by simp
  then show "4 \<le> cap m'" by (simp add: m')
  show "2 * cap m \<le> cap m'"
  proof (cases "cap m = 0")
    case False
    then have "cap m = 2 ^ cap_bits m" "2 \<le> cap_bits m"
      using assms(2) by (auto simp: hm_ok_def)
    then show ?thesis by (simp add: m' nb_def)
  qed simp
qed

section \<open>The interface of keys\<close>

text \<open>What the map needs of its two functions: equal keys have equal hashes.\<close>

locale hash_contract =
  fixes hash :: "'k \<Rightarrow> u64" and eq :: "'k \<Rightarrow> 'k \<Rightarrow> bool"
  assumes eq_refl: "eq x x"
    and eq_sym: "eq x y \<Longrightarrow> eq y x"
    and eq_trans: "eq x y \<Longrightarrow> eq y z \<Longrightarrow> eq x z"
    and eq_hash: "eq x y \<Longrightarrow> hash x = hash y"
begin

lemma eq_cong: "eq x y \<Longrightarrow> eq x z \<longleftrightarrow> eq y z"
  using eq_sym eq_trans by blast

lemma find_in_bucket:
  assumes "hm_ok m" "hash_fn m = hash" "equal_fn m = eq"
  shows "hashmap_find m k = map_option snd (find (\<lambda>e. eq (fst e) k) (entries m))"
    and "filter (\<lambda>e. eq (fst e) k) (entries m) = key_entries m k"
proof -
  let ?P = "\<lambda>e :: 'k \<times> 'v. eq (fst e) k" and ?h = "hash_bits (hash k) (cap_bits m)"
  have F: "filter ?P (entries m) = key_entries m k"
  proof (cases "cap m = 0")
    case True
    then show ?thesis using assms(1) by (simp add: hm_ok_def entries_def key_entries_def)
  next
    case False
    then have h: "?h < cap m" and len: "length (buckets m) = cap m"
      using assms(1) hash_bits_less by (auto simp: hm_ok_def)
    have other: "\<forall>b < length (buckets m). b \<noteq> ?h \<longrightarrow> filter ?P (buckets m ! b) = []"
    proof (intro allI impI)
      fix b assume b: "b < length (buckets m)" "b \<noteq> ?h"
      have "\<not> eq (fst e) k" if "e \<in> set (buckets m ! b)" for e
      proof
        assume "eq (fst e) k"
        then have "hash (fst e) = hash k" by (rule eq_hash)
        moreover have "hash_bits (hash (fst e)) (cap_bits m) = b"
          using assms(1) that b(1) len by (simp add: hm_ok_def assms(2))
        ultimately show False using b(2) by simp
      qed
      then show "filter ?P (buckets m ! b) = []" by (simp add: filter_empty_conv)
    qed
    have "filter ?P (concat (buckets m)) = filter ?P (buckets m ! ?h)"
      using h len other by (intro filter_concat_one) simp_all
    then show ?thesis
      using False len assms(2,3) by (auto simp: entries_def key_entries_def)
  qed
  then show "filter ?P (entries m) = key_entries m k" .
  have "hashmap_find m k = map_option snd (find ?P (if buckets m = [] then [] else buckets m ! ?h))"
    by (auto simp: hashmap_find_def hashmap_find_entry_def chain_pos_find assms Let_def
        option.map_comp comp_def split: option.split)
  then show "hashmap_find m k = map_option snd (find ?P (entries m))"
    unfolding find_filter F by (simp add: key_entries_def assms)
qed

end

section \<open>How each operation changes the bag of entries\<close>

abbreviation (input) bag :: "('k, 'v) hashmap \<Rightarrow> ('k \<times> 'v) multiset" where
  "bag m \<equiv> mset (entries m)"

lemma hm_ok_bucket:
  assumes "hm_ok m" "buckets m \<noteq> []"
  shows "hash_bits (hash_fn m k) (cap_bits m) < length (buckets m)"
  using assms hash_bits_less [of "cap_bits m"] by (auto simp: hm_ok_def split: if_splits)

lemma hm_ok_set_bucket:
  assumes "hm_ok m" "h < length (buckets m)" "n = length (entries (m\<lparr>buckets := (buckets m)[h := c]\<rparr>))"
    and "\<forall>e \<in> set c. hash_bits (hash_fn m (fst e)) (cap_bits m) = h"
  shows "hm_ok (m\<lparr>buckets := (buckets m)[h := c], sz := n\<rparr>)"
proof -
  have "hash_bits (hash_fn m (fst e)) (cap_bits m) = b"
    if "b < cap m" "e \<in> set ((buckets m)[h := c] ! b)" for b e
    using assms that by (cases "b = h") (auto simp: hm_ok_def)
  then show ?thesis using assms(1,3) by (auto simp: hm_ok_def entries_def)
qed

lemma hashmap_find_entry_Some:
  assumes "hashmap_find_entry m key h = Some i"
  shows "buckets m \<noteq> []" "i < length (buckets m ! h)" "equal_fn m (fst (buckets m ! h ! i)) key"
  using assms chain_pos_Some [of "equal_fn m" key "buckets m ! h" i]
  by (auto simp: hashmap_find_entry_def split: if_splits)

lemma mset_remove_nth:
  "i < length xs \<Longrightarrow> add_mset (xs ! i) (mset (take i xs @ drop (Suc i) xs)) = mset xs"
  by (subst (3) id_take_nth_drop [of i xs]) simp_all

lemma bag_set_bucket:
  assumes "h < length (buckets m)"
  shows "bag (m\<lparr>buckets := (buckets m)[h := c]\<rparr>) + mset (buckets m ! h) = bag m + mset c"
  using mset_concat_update [OF assms] by (simp add: entries_def)

text \<open>Storing into an existing entry, at position \<open>i\<close> of the key's bucket.\<close>

definition replace_entry :: "('k, 'v) hashmap \<Rightarrow> nat \<Rightarrow> nat \<Rightarrow> 'k \<times> 'v \<Rightarrow> ('k, 'v) hashmap" where
  "replace_entry m h i e = m\<lparr>buckets := (buckets m)[h := (buckets m ! h)[i := e]]\<rparr>"

lemma bag_replace_entry:
  assumes "h < length (buckets m)" "i < length (buckets m ! h)"
  shows "add_mset (buckets m ! h ! i) (bag (replace_entry m h i e)) = add_mset e (bag m)"
proof -
  let ?c = "(buckets m ! h)[i := e]" and ?X = "mset (buckets m ! h)" and ?o = "buckets m ! h ! i"
  let ?B = "bag (replace_entry m h i e)"
  have c: "add_mset ?o (mset ?c) = add_mset e ?X"
    using assms(2) by (simp add: mset_update)
  have "add_mset ?o ?B + ?X = add_mset ?o (?B + ?X)" by simp
  also have "?B + ?X = bag m + mset ?c"
    using bag_set_bucket [OF assms(1)] unfolding replace_entry_def .
  also have "add_mset ?o (bag m + mset ?c) = bag m + add_mset ?o (mset ?c)" by simp
  also have "\<dots> = add_mset e (bag m) + ?X" unfolding c by simp
  finally show ?thesis by simp
qed

text \<open>Adding an entry, after the map was made to have room for it.\<close>

definition add_entry :: "('k, 'v) hashmap \<Rightarrow> 'k \<times> 'v \<Rightarrow> ('k, 'v) hashmap" where
  "add_entry m e = m\<lparr>buckets := hashmap_add_entry (hash_bits (hash_fn m (fst e)) (cap_bits m)) e (buckets m),
     sz := sz m + 1\<rparr>"

lemma add_entry_ok:
  assumes "hm_ok m" "cap m \<noteq> 0"
  shows "hm_ok (add_entry m e)" "bag (add_entry m e) = add_mset e (bag m)"
proof -
  let ?h = "hash_bits (hash_fn m (fst e)) (cap_bits m)"
  have h: "?h < length (buckets m)" using assms by (intro hm_ok_bucket) (auto simp: hm_ok_def)
  show b: "bag (add_entry m e) = add_mset e (bag m)"
    using mset_hashmap_add_entry [OF h, of e] by (simp add: add_entry_def entries_def)
  have n: "sz m + 1 = length (entries (m\<lparr>buckets := (buckets m)[?h := e # buckets m ! ?h]\<rparr>))"
    using arg_cong [OF b, of size] assms(1)
    by (simp add: add_entry_def hashmap_add_entry_def entries_def hm_ok_def)
  show "hm_ok (add_entry m e)"
    unfolding add_entry_def hashmap_add_entry_def
    using assms(1) h by (intro hm_ok_set_bucket [OF assms(1) h n]) (auto simp: hm_ok_def)
qed

lemma add_entry_fields [simp]:
  "hash_fn (add_entry m e) = hash_fn m" "equal_fn (add_entry m e) = equal_fn m"
  "cap (add_entry m e) = cap m" "sz (add_entry m e) = sz m + 1"
  by (simp_all add: add_entry_def)

text \<open>The growing step of an insertion.\<close>

definition make_room :: "bool \<Rightarrow> ('k, 'v) hashmap \<Rightarrow> int \<times> ('k, 'v) hashmap" where
  "make_room c m = (if hashmap_needs_to_grow m then hashmap_grow c m else (0, m))"

lemma make_room_ok:
  assumes "make_room c m = (0, m1)" "hm_ok m" "cap_bits m < 64"
  shows "hm_ok m1" "bag m1 = bag m" "hash_fn m1 = hash_fn m" "equal_fn m1 = equal_fn m"
    "cap m1 \<noteq> 0" "sz m1 = sz m" "hm_load m \<Longrightarrow> 4 * (sz m1 + 1) \<le> 3 * cap m1"
proof -
  show "hash_fn m1 = hash_fn m" "equal_fn m1 = equal_fn m" "sz m1 = sz m"
    using assms(1) hashmap_grow_fields [of c m 0 m1] by (auto simp: make_room_def split: if_splits)
  have grown: "hm_ok m1 \<and> bag m1 = bag m \<and> cap m1 \<noteq> 0 \<and> (hm_load m \<longrightarrow> 4 * (sz m1 + 1) \<le> 3 * cap m1)"
    if "hashmap_needs_to_grow m"
  proof -
    have g: "hashmap_grow c m = (0, m1)" using assms(1) that by (simp add: make_room_def)
    note ok = hashmap_grow_ok [OF g assms(2,3)]
    have "sz m1 = sz m" by (rule hashmap_grow_fields [OF g])
    then show ?thesis using ok by (auto simp: hm_load_def)
  qed
  have kept: "cap m \<noteq> 0 \<and> 4 * (sz m + 1) \<le> 3 * cap m + 2 \<and> m1 = m" if "\<not> hashmap_needs_to_grow m"
    using that assms(1) by (auto simp: make_room_def hashmap_needs_to_grow_def)
  have "cap m = 0 \<or> 4 dvd cap m"
  proof (cases "cap m = 0")
    case False
    then have "cap m = 2 ^ cap_bits m" "2 \<le> cap_bits m" using assms(2) by (auto simp: hm_ok_def)
    then show ?thesis using le_imp_power_dvd [of 2 "cap_bits m" "2 :: nat"] by simp
  qed simp
  then have "4 * (sz m + 1) \<le> 3 * cap m" if "4 * (sz m + 1) \<le> 3 * cap m + 2" "cap m \<noteq> 0"
    using that by presburger
  then show "hm_load m \<Longrightarrow> 4 * (sz m1 + 1) \<le> 3 * cap m1"
    using grown kept by (cases "hashmap_needs_to_grow m") auto
  show "hm_ok m1" "bag m1 = bag m" "cap m1 \<noteq> 0"
    using grown kept assms(2) by (cases "hashmap_needs_to_grow m"; simp)+
qed

section \<open>The branches of an insertion\<close>

abbreviation (input) slot :: "('k, 'v) hashmap \<Rightarrow> 'k \<Rightarrow> nat" where
  "slot m key \<equiv> hash_bits (hash_fn m key) (cap_bits m)"

definition found_entry :: "('k, 'v) hashmap \<Rightarrow> 'k \<Rightarrow> strategy \<Rightarrow> nat option" where
  "found_entry m key st =
     (if st \<noteq> HASHMAP_APPEND then hashmap_find_entry m key (slot m key) else None)"

lemma hashmap_insert_Some:
  "found_entry m key st = Some i \<Longrightarrow> hashmap_insert c a m key v st =
     (if st = HASHMAP_ADD then (- EEXIST, Some (buckets m ! slot m key ! i), m)
      else (0, Some (buckets m ! slot m key ! i), replace_entry m (slot m key) i (key, v)))"
  unfolding found_entry_def
  by (cases st) (simp_all add: hashmap_insert_def replace_entry_def Let_def)

lemma hashmap_insert_None:
  assumes "found_entry m key st = None"
  shows "hashmap_insert c a m key v st =
     (if st = HASHMAP_UPDATE then (- ENOENT, None, m)
      else case make_room c m of (e, m1) \<Rightarrow>
        if e \<noteq> 0 then (e, None, m1) else if \<not> a then (- ENOMEM, None, m1)
        else (0, None, add_entry m1 (key, v)))"
  using assms unfolding found_entry_def hashmap_insert_def Let_def make_room_def add_entry_def
  by (cases st) (simp_all cong: if_cong)

lemma hashmap_insert_cases:
  assumes "hashmap_insert c a m key v st = (r, old, m')"
  obtains
    (replaced) i where "st \<in> {HASHMAP_SET, HASHMAP_UPDATE}"
      "hashmap_find_entry m key (slot m key) = Some i" "r = 0"
      "old = Some (buckets m ! slot m key ! i)" "m' = replace_entry m (slot m key) i (key, v)"
  | (present) i where "st = HASHMAP_ADD" "hashmap_find_entry m key (slot m key) = Some i"
      "r = - EEXIST" "old = Some (buckets m ! slot m key ! i)" "m' = m"
  | (missing) "st = HASHMAP_UPDATE" "hashmap_find_entry m key (slot m key) = None"
      "r = - ENOENT" "old = None" "m' = m"
  | (no_memory) "st \<noteq> HASHMAP_UPDATE"
      "st = HASHMAP_APPEND \<or> hashmap_find_entry m key (slot m key) = None"
      "r = - ENOMEM" "old = None" "m' = m \<or> make_room c m = (0, m')" "\<not> (c \<and> a)"
  | (added) m1 where "st \<noteq> HASHMAP_UPDATE"
      "st = HASHMAP_APPEND \<or> hashmap_find_entry m key (slot m key) = None"
      "make_room c m = (0, m1)" "a" "r = 0" "old = None" "m' = add_entry m1 (key, v)"
proof (cases "found_entry m key st")
  case (Some i)
  then have f: "hashmap_find_entry m key (slot m key) = Some i" "st \<noteq> HASHMAP_APPEND"
    by (auto simp: found_entry_def split: if_splits)
  show thesis
  proof (cases "st = HASHMAP_ADD")
    case True
    then show thesis using assms f hashmap_insert_Some [OF Some, of c a v] by (intro present) auto
  next
    case False
    then have "st \<in> {HASHMAP_SET, HASHMAP_UPDATE}" using f(2) by (cases st) auto
    then show thesis using assms f hashmap_insert_Some [OF Some, of c a v] False
      by (intro replaced) auto
  qed
next
  case None
  then have f: "st = HASHMAP_APPEND \<or> hashmap_find_entry m key (slot m key) = None"
    by (simp add: found_entry_def split: if_splits)
  show thesis
  proof (cases "st = HASHMAP_UPDATE")
    case True
    then show thesis using assms f hashmap_insert_None [OF None, of c a v] by (intro missing) auto
  next
    case False
    obtain e m1 where room: "make_room c m = (e, m1)" by (cases "make_room c m")
    have run: "(r, old, m') = (if e \<noteq> 0 then (e, None, m1) else if \<not> a then (- ENOMEM, None, m1)
         else (0, None, add_entry m1 (key, v)))"
      using hashmap_insert_None [OF None, of c a v] assms False room by simp
    have e: "e \<in> {0, - ENOMEM}" "e \<noteq> 0 \<Longrightarrow> m1 = m \<and> \<not> c"
      using room hashmap_grow_fields [of c m e m1] by (auto simp: make_room_def split: if_splits)
    show thesis
    proof (cases "e = 0 \<and> a")
      case True
      then show thesis using added [OF False f] room run by simp
    next
      case bad: False
      then have "r = - ENOMEM" "old = None" "m' = m \<or> make_room c m = (0, m')" "\<not> (c \<and> a)"
        using run e room by (auto split: if_splits)
      then show thesis using no_memory [OF False f] by simp
    qed
  qed
qed

context hash_contract
begin

lemma keyed_filters:
  fixes o' e :: "'k \<times> 'v"
  assumes "eq (fst o') (fst e)"
  shows "eq (fst o') k \<longleftrightarrow> eq (fst e) k"
  using assms eq_cong by blast

text \<open>Lookups only depend on the bag of entries when keys are unique.\<close>

lemma find_of_bag:
  assumes "hm_ok m" "hash_fn m = hash" "equal_fn m = eq"
  shows "filter_mset (\<lambda>e. eq (fst e) k) (bag m) = {#} \<Longrightarrow> hashmap_find m k = None"
    and "filter_mset (\<lambda>e. eq (fst e) k) (bag m) = {#e#} \<Longrightarrow> hashmap_find m k = Some (snd e)"
proof -
  let ?xs = "filter (\<lambda>e. eq (fst e) k) (entries m)"
  have f: "hashmap_find m k = map_option snd (case ?xs of [] \<Rightarrow> None | x # _ \<Rightarrow> Some x)"
    unfolding find_in_bucket(1) [OF assms] find_filter ..
  have ms: "filter_mset (\<lambda>e. eq (fst e) k) (bag m) = mset ?xs" by simp
  show "hashmap_find m k = None" if "filter_mset (\<lambda>e. eq (fst e) k) (bag m) = {#}"
  proof -
    have "?xs = []" using that unfolding ms by (simp only: mset_zero_iff)
    then show ?thesis using f by simp
  qed
  show "hashmap_find m k = Some (snd e)" if "filter_mset (\<lambda>e. eq (fst e) k) (bag m) = {#e#}"
  proof -
    have "?xs = [e]" using that unfolding ms by (simp only: mset_single_iff)
    then show ?thesis using f by simp
  qed
qed

lemma unique_bag:
  assumes "equal_fn m = eq"
  shows "hm_unique m \<longleftrightarrow> (\<forall>k. size (filter_mset (\<lambda>e. eq (fst e) k) (bag m)) \<le> 1)"
  by (simp add: hm_unique_def assms flip: mset_filter)

lemma find_None_bag:
  assumes "hm_ok m" "hash_fn m = hash" "equal_fn m = eq"
  shows "hashmap_find m k = None \<longleftrightarrow> filter_mset (\<lambda>e. eq (fst e) k) (bag m) = {#}"
  unfolding find_in_bucket(1) [OF assms] find_filter
  by (simp flip: mset_filter split: list.split)

lemma find_bag_cong:
  assumes "hm_ok m" "hash_fn m = hash" "equal_fn m = eq"
    and "hm_ok m'" "hash_fn m' = hash" "equal_fn m' = eq" "hm_unique m"
    and "filter_mset (\<lambda>e. eq (fst e) k) (bag m') = filter_mset (\<lambda>e. eq (fst e) k) (bag m)"
  shows "hashmap_find m' k = hashmap_find m k"
proof -
  have "size (filter_mset (\<lambda>e. eq (fst e) k) (bag m)) \<le> 1"
    using assms(7) unique_bag [OF assms(3)] by blast
  then consider "filter_mset (\<lambda>e. eq (fst e) k) (bag m) = {#}"
    | e where "filter_mset (\<lambda>e. eq (fst e) k) (bag m) = {#e#}"
    by (metis One_nat_def le_Suc_eq le_zero_eq size_1_singleton_mset size_eq_0_iff_empty)
  then show ?thesis
    using find_of_bag [OF assms(1-3), of k] find_of_bag [OF assms(4-6), of k] assms(8)
    by cases auto
qed

end

context hash_contract
begin

text \<open>Everything about replacing and adding that the theorems below combine.\<close>

lemma replace_entry_ok:
  fixes v :: 'v and m :: "('k, 'v) hashmap"
  assumes "hm_ok m" "hash_fn m = hash" "equal_fn m = eq"
    and "hashmap_find_entry m key (slot m key) = Some i"
    and o'_def: "o' = buckets m ! slot m key ! i"
    and m'_def: "m' = replace_entry m (slot m key) i (key, v)"
  shows "hm_ok m'" "eq (fst o') key" "add_mset o' (bag m') = add_mset (key, v) (bag m)"
    "o' \<in># bag m" "hash_fn m' = hash" "equal_fn m' = eq" "sz m' = sz m" "cap m' = cap m"
proof -
  note f = hashmap_find_entry_Some [OF assms(4)]
  have h: "slot m key < length (buckets m)" by (rule hm_ok_bucket [OF assms(1) f(1)])
  show b: "add_mset o' (bag m') = add_mset (key, v) (bag m)"
    unfolding o'_def m'_def by (rule bag_replace_entry [OF h f(2)])
  show eq: "eq (fst o') key" using f(3) assms(3) by (simp add: o'_def)
  show "o' \<in># bag m" using h f(2) by (auto simp: o'_def entries_def intro!: nth_mem)
  show "hash_fn m' = hash" "equal_fn m' = eq" "sz m' = sz m" "cap m' = cap m"
    using assms(2,3) by (simp_all add: m'_def replace_entry_def)
  let ?c = "(buckets m ! slot m key)[i := (key, v)]"
  have n: "sz m = length (entries (m\<lparr>buckets := (buckets m)[slot m key := ?c]\<rparr>))"
    using arg_cong [OF b, of size] assms(1) by (simp add: hm_ok_def m'_def replace_entry_def)
  have "hash_bits (hash_fn m (fst e)) (cap_bits m) = slot m key" if "e \<in> set ?c" for e
  proof -
    have "e = (key, v) \<or> e \<in> set (buckets m ! slot m key)"
      using that set_update_subset_insert by fastforce
    then show ?thesis using assms(1) h by (auto simp: hm_ok_def)
  qed
  then have "hm_ok (m\<lparr>buckets := (buckets m)[slot m key := ?c], sz := sz m\<rparr>)"
    by (intro hm_ok_set_bucket [OF assms(1) h n]) blast
  then show "hm_ok m'" by (simp add: m'_def replace_entry_def)
qed

lemma find_entry_None_iff:
  assumes "hm_ok m" "hash_fn m = hash" "equal_fn m = eq"
  shows "hashmap_find_entry m key (slot m key) = None \<longleftrightarrow> hashmap_find m key = None"
  by (simp add: hashmap_find_def Let_def split: option.split)

lemma insert_invariant:
  assumes "hm_ok m" "hash_fn m = hash" "equal_fn m = eq" "cap_bits m < 64"
    and "hashmap_insert c a m key v st = (r, old, m')"
  shows "hm_ok m'" "hash_fn m' = hash" "equal_fn m' = eq"
    "hm_load m \<Longrightarrow> hm_load m'" "hm_unique m \<Longrightarrow> st \<noteq> HASHMAP_APPEND \<Longrightarrow> hm_unique m'"
proof -
  have all: "hm_ok m' \<and> hash_fn m' = hash \<and> equal_fn m' = eq \<and> (hm_load m \<longrightarrow> hm_load m') \<and>
      (hm_unique m \<longrightarrow> st \<noteq> HASHMAP_APPEND \<longrightarrow> hm_unique m')"
    using assms(5)
  proof (cases rule: hashmap_insert_cases)
    case (replaced i)
    note R = replace_entry_ok [OF assms(1-3) replaced(2) refl replaced(5)]
    have "size (filter_mset (\<lambda>e. eq (fst e) k) (bag m')) = size (filter_mset (\<lambda>e. eq (fst e) k) (bag m))" for k
    proof -
      have "size (filter_mset (\<lambda>e. eq (fst e) k) (add_mset (buckets m ! slot m key ! i) (bag m'))) =
          size (filter_mset (\<lambda>e. eq (fst e) k) (add_mset (key, v) (bag m)))"
        unfolding R(3) ..
      moreover have "eq (fst (buckets m ! slot m key ! i)) k \<longleftrightarrow> eq key k"
        using R(2) eq_cong by blast
      ultimately show ?thesis by (simp split: if_splits)
    qed
    then show ?thesis
      using R unique_bag [OF assms(3)] unique_bag [OF R(6)] by (simp add: hm_load_def)
  next
    case (present i)
    then show ?thesis using assms by simp
  next
    case missing
    then show ?thesis using assms by simp
  next
    case no_memory
    have "hm_unique m \<longrightarrow> hm_unique m'" if "bag m' = bag m" "equal_fn m' = eq"
      using that unique_bag [OF assms(3)] unique_bag [OF that(2)] by simp
    then show ?thesis
      using no_memory(5) assms(1-3) make_room_ok [OF _ assms(1,4), of c m'] hm_load_def [of m']
      by auto
  next
    case (added m1)
    note M = make_room_ok [OF added(3) assms(1,4)]
    have eqf: "equal_fn m' = eq" using M(4) assms(3) added(7) by simp
    have b: "bag m' = add_mset (key, v) (bag m)"
      unfolding added(7) add_entry_ok(2) [OF M(1,5)] M(2) ..
    have "hm_unique m'" if "hm_unique m" "st \<noteq> HASHMAP_APPEND"
    proof -
      have none: "filter_mset (\<lambda>e. eq (fst e) key) (bag m) = {#}"
        using added(2) that(2) find_entry_None_iff [OF assms(1-3)] find_None_bag [OF assms(1-3)]
        by blast
      have "size (filter_mset (\<lambda>e. eq (fst e) k) (bag m')) \<le> 1" for k
      proof (cases "eq key k")
        case True
        then have "filter_mset (\<lambda>e. eq (fst e) k) (bag m) = filter_mset (\<lambda>e. eq (fst e) key) (bag m)"
          using eq_trans eq_sym by (intro filter_mset_cong) blast+
        then show ?thesis using True none b by simp
      next
        case False
        then show ?thesis using that(1) unique_bag [OF assms(3)] b by simp
      qed
      then show ?thesis using unique_bag [OF eqf] by blast
    qed
    then show ?thesis
      using add_entry_ok(1) [OF M(1,5)] M assms(2,3) added(7) by (auto simp: hm_load_def)
  qed
  show "hm_ok m'" "hash_fn m' = hash" "equal_fn m' = eq"
    "hm_load m \<Longrightarrow> hm_load m'" "hm_unique m \<Longrightarrow> st \<noteq> HASHMAP_APPEND \<Longrightarrow> hm_unique m'"
    using all by blast+
qed

end

context hash_contract
begin

lemma find_replaced_or_added:
  assumes "hm_ok m" "hash_fn m = hash" "equal_fn m = eq" "hm_unique m"
    and "hm_ok m'" "hash_fn m' = hash" "equal_fn m' = eq"
    and "(\<exists>o'. eq (fst o') key \<and> o' \<in># bag m \<and> add_mset o' (bag m') = add_mset (key, v) (bag m)) \<or>
         (bag m' = add_mset (key, v) (bag m) \<and> hashmap_find m key = None)"
  shows "hashmap_find m' k = (if eq key k then Some v else hashmap_find m k)"
proof -
  let ?F = "\<lambda>k M. filter_mset (\<lambda>e :: 'k \<times> 'v. eq (fst e) k) M"
  have u: "size (?F k (bag m)) \<le> 1" using assms(4) unique_bag [OF assms(3)] by blast
  show ?thesis
    using assms(8)
  proof
    assume "\<exists>o'. eq (fst o') key \<and> o' \<in># bag m \<and> add_mset o' (bag m') = add_mset (key, v) (bag m)"
    then obtain o' where o': "eq (fst o') key" "o' \<in># bag m"
      "add_mset o' (bag m') = add_mset (key, v) (bag m)" by blast
    have F: "?F k (add_mset o' (bag m')) = ?F k (add_mset (key, v) (bag m))" unfolding o'(3) ..
    have ok: "eq (fst o') k \<longleftrightarrow> eq key k" using o'(1) eq_cong by blast
    show ?thesis
    proof (cases "eq key k")
      case True
      have "o' \<in># ?F k (bag m)" using o'(2) ok True by simp
      then have "?F k (bag m) = {#o'#}"
        using u by (rule single_of_member)
      then have "?F k (bag m') = {#(key, v)#}" using F ok True by (simp add: add_mset_commute)
      then show ?thesis using find_of_bag(2) [OF assms(5-7), of k "(key, v)"] True by simp
    next
      case False
      then have "?F k (bag m') = ?F k (bag m)" using F ok by simp
      then show ?thesis using find_bag_cong [OF assms(1-3,5-7,4)] False by simp
    qed
  next
    assume add: "bag m' = add_mset (key, v) (bag m) \<and> hashmap_find m key = None"
    show ?thesis
    proof (cases "eq key k")
      case True
      have "?F key (bag m) = {#}" using add find_None_bag [OF assms(1-3)] by blast
      moreover have "?F k (bag m) = ?F key (bag m)"
        using True eq_trans eq_sym by (intro filter_mset_cong) blast+
      ultimately have "?F k (bag m') = {#(key, v)#}" using add True by simp
      then show ?thesis using find_of_bag(2) [OF assms(5-7), of k "(key, v)"] True by simp
    next
      case False
      then have "?F k (bag m') = ?F k (bag m)" using add by simp
      then show ?thesis using find_bag_cong [OF assms(1-3,5-7,4)] False by simp
    qed
  qed
qed

end

text \<open>The result code of an insertion, from what a lookup says and the two allocations.\<close>

definition insert_code :: "strategy \<Rightarrow> bool \<Rightarrow> bool \<Rightarrow> int" where
  "insert_code st present mem_ok =
     (if st = HASHMAP_ADD \<and> present then - EEXIST
      else if st = HASHMAP_UPDATE \<and> \<not> present then - ENOENT
      else if st \<noteq> HASHMAP_APPEND \<and> present then 0
      else if mem_ok then 0 else - ENOMEM)"

context hash_contract
begin

text \<open>An added entry is in front of all others with its key.\<close>

lemma added_found:
  fixes m1 :: "('k, 'v) hashmap"
  assumes "buckets m1 \<noteq> []" "hm_ok m1" "hash_fn m1 = hash" "equal_fn m1 = eq" "eq key k"
  shows "hashmap_find (add_entry m1 (key, v)) k = Some v"
proof -
  let ?m = "add_entry m1 (key, v)" and ?h = "slot m1 key"
  have h: "?h < length (buckets m1)" by (rule hm_ok_bucket [OF assms(2,1)])
  have "slot ?m k = ?h" using eq_hash [OF assms(5)] assms(3) by (simp add: add_entry_def)
  moreover have "buckets ?m ! ?h = (key, v) # buckets m1 ! ?h"
    using h by (simp add: add_entry_def hashmap_add_entry_def)
  moreover have "buckets ?m \<noteq> []" "equal_fn ?m = eq"
    using assms(1,4) by (simp_all add: add_entry_def hashmap_add_entry_def)
  ultimately show ?thesis using assms(5) by (simp add: hashmap_find_def hashmap_find_entry_def)
qed

lemma insert_lookup:
  assumes "hm_ok m" "hash_fn m = hash" "equal_fn m = eq" "hm_unique m" "cap_bits m < 64"
    and "hashmap_insert c a m key v st = (r, old, m')"
  shows "hashmap_find m' k = (if r = 0 \<and> eq key k then Some v else hashmap_find m k)"
    and "map_option snd old = (if st = HASHMAP_APPEND then None else hashmap_find m key)"
    and "\<exists>ok. (c \<and> a \<longrightarrow> ok) \<and> r = insert_code st (hashmap_find m key \<noteq> None) ok"
proof -
  note inv = insert_invariant [OF assms(1-3,5,6)]
  note none = find_entry_None_iff [OF assms(1-3), of key]
  have some: "hashmap_find m key = Some (snd (buckets m ! slot m key ! i))"
    if "hashmap_find_entry m key (slot m key) = Some i" for i
    using that by (simp add: hashmap_find_def)
  have "hashmap_find m' k = (if r = 0 \<and> eq key k then Some v else hashmap_find m k) \<and>
      map_option snd old = (if st = HASHMAP_APPEND then None else hashmap_find m key) \<and>
      (\<exists>ok. (c \<and> a \<longrightarrow> ok) \<and> r = insert_code st (hashmap_find m key \<noteq> None) ok)"
    using assms(6)
  proof (cases rule: hashmap_insert_cases)
    case (replaced i)
    note R = replace_entry_ok [OF assms(1-3) replaced(2) refl replaced(5)]
    have "hashmap_find m' k = (if eq key k then Some v else hashmap_find m k)"
      using R(2-4) by (intro find_replaced_or_added [OF assms(1-4) inv(1-3)]) blast
    moreover have "st \<noteq> HASHMAP_ADD" "st \<noteq> HASHMAP_APPEND" using replaced(1) by auto
    ultimately show ?thesis
      using replaced some [OF replaced(2)] by (auto simp: insert_code_def intro!: exI [of _ True])
  next
    case (present i)
    then show ?thesis using some [OF present(2)] by (auto simp: insert_code_def)
  next
    case missing
    then show ?thesis using none by (auto simp: insert_code_def)
  next
    case no_memory
    have nf: "st = HASHMAP_APPEND \<or> hashmap_find m key = None" using no_memory(2) none by (elim disjE) simp_all
    have "bag m' = bag m"
      using no_memory(5) make_room_ok(2) [OF _ assms(1,5), of c m'] by blast
    then have "hashmap_find m' k = hashmap_find m k"
      by (intro find_bag_cong [OF assms(1-3) inv(1-3) assms(4)]) simp
    then show ?thesis using no_memory nf
      by (auto simp: insert_code_def intro!: exI [of _ False])
  next
    case (added m1)
    have nf: "st = HASHMAP_APPEND \<or> hashmap_find m key = None" using added(2) none by (elim disjE) simp_all
    note M = make_room_ok [OF added(3) assms(1,5)]
    have "hashmap_find m' k = (if eq key k then Some v else hashmap_find m k)"
    proof (cases "eq key k")
      case True
      have "buckets m1 \<noteq> []" using M(1,5) by (auto simp: hm_ok_def)
      then show ?thesis using added_found [OF _ M(1) _ _ True] M(3,4) assms(2,3) added(7) True by simp
    next
      case False
      have "bag m' = add_mset (key, v) (bag m)"
        unfolding added(7) add_entry_ok(2) [OF M(1,5)] M(2) ..
      then show ?thesis using find_bag_cong [OF assms(1-3) inv(1-3) assms(4)] False by simp
    qed
    then show ?thesis using added nf
      by (auto simp: insert_code_def intro!: exI [of _ True])
  qed
  then show "hashmap_find m' k = (if r = 0 \<and> eq key k then Some v else hashmap_find m k)"
    and "map_option snd old = (if st = HASHMAP_APPEND then None else hashmap_find m key)"
    and "\<exists>ok. (c \<and> a \<longrightarrow> ok) \<and> r = insert_code st (hashmap_find m key \<noteq> None) ok"
    by blast+
qed

lemma delete_lookup:
  assumes "hm_ok m" "hash_fn m = hash" "equal_fn m = eq" "hm_unique m"
    and "hashmap_delete m key = (old, m')"
  shows "hm_ok m'" "hm_unique m'" "map_option snd old = hashmap_find m key"
    "hashmap_find m' k = (if eq key k then None else hashmap_find m k)"
proof -
  let ?F = "\<lambda>k M. filter_mset (\<lambda>e :: 'k \<times> 'v. eq (fst e) k) M"
  have "hm_ok m' \<and> hm_unique m' \<and> map_option snd old = hashmap_find m key \<and>
      hashmap_find m' k = (if eq key k then None else hashmap_find m k)"
  proof (cases "hashmap_find_entry m key (slot m key)")
    case None
    have m': "m' = m" "old = None" using assms(5) None by (simp_all add: hashmap_delete_def Let_def)
    have nf: "hashmap_find m key = None" using None find_entry_None_iff [OF assms(1-3)] by blast
    have "hashmap_find m k = None" if "eq key k"
    proof -
      have "?F k (bag m) = ?F key (bag m)"
        using that eq_trans eq_sym by (intro filter_mset_cong) blast+
      then show ?thesis using nf unfolding find_None_bag [OF assms(1-3)] by (simp only:)
    qed
    then show ?thesis using m' nf assms by auto
  next
    case (Some i)
    let ?b = "buckets m ! slot m key" and ?o = "buckets m ! slot m key ! i"
    let ?c = "take i ?b @ drop (Suc i) ?b"
    note f = hashmap_find_entry_Some [OF Some]
    have h: "slot m key < length (buckets m)" by (rule hm_ok_bucket [OF assms(1) f(1)])
    have m': "m' = m\<lparr>buckets := (buckets m)[slot m key := ?c], sz := sz m - 1\<rparr>"
      and old: "old = Some ?o"
      using assms(5) Some by (auto simp: hashmap_delete_def Let_def)
    have c: "add_mset ?o (mset ?c) = mset ?b" using f(2) by (rule mset_remove_nth)
    have "bag m' + mset ?b = bag m + mset ?c"
      using bag_set_bucket [OF h, of ?c] by (simp add: m' entries_def)
    then have b: "add_mset ?o (bag m') = bag m" unfolding c [symmetric] by simp
    have n: "sz m - 1 = length (entries (m\<lparr>buckets := (buckets m)[slot m key := ?c]\<rparr>))"
      using arg_cong [OF b, of size] assms(1) by (simp add: hm_ok_def m' entries_def)
    have "hash_bits (hash_fn m (fst e)) (cap_bits m) = slot m key" if "e \<in> set ?c" for e
    proof -
      have "e \<in> set ?b" using that by (auto dest: in_set_takeD in_set_dropD)
      then show ?thesis using assms(1) h by (auto simp: hm_ok_def)
    qed
    then have ok: "hm_ok m'"
      unfolding m' by (intro hm_ok_set_bucket [OF assms(1) h n]) blast
    have fn: "hash_fn m' = hash" "equal_fn m' = eq" using assms(2,3) by (simp_all add: m')
    have eqo: "eq (fst ?o) key" using f(3) assms(3) by simp
    have size_F: "size (?F k (bag m')) + (if eq (fst ?o) k then 1 else 0) \<le> 1" for k
    proof -
      have "size (?F k (add_mset ?o (bag m'))) \<le> 1"
        using assms(4) unique_bag [OF assms(3)] unfolding b by blast
      then show ?thesis by (cases "eq (fst ?o) k") simp_all
    qed
    then have u: "hm_unique m'" using unique_bag [OF fn(2)] by (meson add_leD1)
    have "hashmap_find m' k = (if eq key k then None else hashmap_find m k)"
    proof (cases "eq key k")
      case True
      then have "size (?F k (bag m')) = 0" using size_F [of k] eq_trans [OF eqo True] by simp
      then show ?thesis using True find_of_bag(1) [OF ok fn] by simp
    next
      case False
      then have "\<not> eq (fst ?o) k" using eqo eq_sym eq_trans by blast
      then have "?F k (bag m') = ?F k (bag m)" by (simp flip: b)
      then show ?thesis using find_bag_cong [OF assms(1-3) ok fn assms(4)] False by simp
    qed
    then show ?thesis using ok u old Some by (simp add: hashmap_find_def)
  qed
  then show "hm_ok m'" "hm_unique m'" "map_option snd old = hashmap_find m key"
    "hashmap_find m' k = (if eq key k then None else hashmap_find m k)"
    by blast+
qed

end

text \<open>A table that only grew on demand is not much larger than its entries need.\<close>

definition hm_tight :: "('k, 'v) hashmap \<Rightarrow> bool" where
  "hm_tight m \<longleftrightarrow> 3 * cap m \<le> 8 * sz m + 12"

lemma make_room_tight:
  assumes "make_room c m = (0, m1)" "hm_ok m" "hm_tight m"
  shows "hm_tight m1"
proof (cases "hashmap_needs_to_grow m")
  case True
  then have g: "hashmap_grow c m = (0, m1)" using assms(1) by (simp add: make_room_def)
  have full: "cap m = 0 \<or> 3 * cap m < 4 * (sz m + 1)"
    using True by (auto simp: hashmap_needs_to_grow_def)
  have "cap m1 = (if cap m = 0 then 4 else 2 * cap m)" "sz m1 = sz m"
    using g assms(2)
    by (auto simp: hashmap_grow_def hm_ok_def HASHMAP_MIN_CAP_BITS_def Let_def split: if_splits)
  then show ?thesis using full by (auto simp: hm_tight_def split: if_splits)
next
  case False
  then show ?thesis using assms by (simp add: make_room_def)
qed

lemma insert_tight:
  assumes "hashmap_insert c a m key v st = (r, old, m')" "hm_ok m" "hm_tight m"
  shows "hm_tight m'"
  using assms(1)
proof (cases rule: hashmap_insert_cases)
  case no_memory
  then show ?thesis using assms(3) make_room_tight [OF _ assms(2,3)] by blast
next
  case (added m1)
  then show ?thesis using make_room_tight [OF added(3) assms(2,3)] by (simp add: hm_tight_def)
qed (use assms in \<open>simp_all add: hm_tight_def replace_entry_def\<close>)

context hash_contract
begin

text \<open>Adding only: what becomes of the bag of entries, case by case.\<close>

lemma insert_only:
  assumes "hm_ok m" "hash_fn m = hash" "equal_fn m = eq" "cap_bits m < 64"
    and "hashmap_insert c a m key v HASHMAP_ADD = (r, old, m')"
  obtains
    (present) e where "r = - EEXIST" "old = Some e" "e \<in># bag m" "eq (fst e) key" "m' = m"
  | (no_memory) "r = - ENOMEM" "bag m' = bag m" "\<not> (c \<and> a)"
      "filter_mset (\<lambda>e. eq (fst e) key) (bag m) = {#}"
  | (added) "r = 0" "bag m' = add_mset (key, v) (bag m)"
      "filter_mset (\<lambda>e. eq (fst e) key) (bag m) = {#}"
  using assms(5)
proof (cases rule: hashmap_insert_cases)
  case (present i)
  note R = replace_entry_ok [where v = v, OF assms(1-3) present(2) refl refl]
  show thesis using that(1) [OF present(3,4) R(4,2) present(5)] .
next
  case no_memory
  have "bag m' = bag m" using no_memory(5) make_room_ok(2) [OF _ assms(1,4)] by blast
  moreover have "hashmap_find_entry m key (slot m key) = None" using no_memory(2) by simp
  ultimately show thesis
    using that(2) [OF no_memory(3) _ no_memory(6)] find_entry_None_iff [OF assms(1-3)]
      find_None_bag [OF assms(1-3)] by simp
next
  case (added m1)
  note M = make_room_ok [OF added(3) assms(1,4)]
  have "bag m' = add_mset (key, v) (bag m)"
    unfolding added(7) add_entry_ok(2) [OF M(1,5)] M(2) ..
  moreover have "hashmap_find_entry m key (slot m key) = None" using added(2) by simp
  ultimately show thesis
    using that(3) [OF added(5)] find_entry_None_iff [OF assms(1-3)]
      find_None_bag [OF assms(1-3)] by simp
qed auto

end

context hash_contract
begin

lemma find_key_entries:
  assumes "hm_ok m" "hash_fn m = hash" "equal_fn m = eq"
  shows "hashmap_find m k = (case key_entries m k of [] \<Rightarrow> None | e # _ \<Rightarrow> Some (snd e))"
  unfolding find_in_bucket(1) [OF assms] find_filter find_in_bucket(2) [OF assms]
  by (simp split: list.split)

lemma key_entries_grow:
  assumes "hm_ok m" "hash_fn m = hash" "equal_fn m = eq" "cap_bits m < 64"
    and "hashmap_grow c m = (0, m')"
  shows "key_entries m' k = rev (key_entries m k)"
proof -
  let ?P = "\<lambda>e :: 'k \<times> 'v. eq (fst e) k"
  define nb where "nb = (if cap_bits m + 1 < 2 then 2 else cap_bits m + 1)"
  let ?f = "\<lambda>e :: 'k \<times> 'v. hash_bits (hash (fst e)) nb" and ?h = "hash_bits (hash k) nb"
  have c: c using assms(5) by (auto simp: hashmap_grow_def Let_def split: if_splits)
  have m': "m' = m\<lparr>cap := 2 ^ nb, cap_bits := nb, buckets :=
      fold (\<lambda>e. hashmap_add_entry (?f e) e) (entries m) (replicate (2 ^ nb) [])\<rparr>"
    using assms(5) c assms(2)
    unfolding hashmap_grow_def HASHMAP_MIN_CAP_BITS_def Let_def nb_def [symmetric] by simp
  have "nb \<le> 64" using assms(4) by (simp add: nb_def)
  then have h: "?h < 2 ^ nb" by (rule hash_bits_less)
  have "filter ?P (filter (\<lambda>e. ?f e = ?h) (entries m)) = filter ?P (entries m)"
    using eq_hash by (auto simp: conj_commute intro!: filter_cong)
  then have "filter ?P (buckets m' ! ?h) = rev (filter ?P (entries m))"
    using h by (simp add: m' rehash_nth rev_filter flip: rev_filter)
  moreover have "buckets m' \<noteq> []" using h length_rehash by (auto simp: m' simp flip: length_0_conv)
  ultimately show ?thesis
    using find_in_bucket(2) [OF assms(1-3), of k] assms(2,3)
    unfolding key_entries_def [of m'] by (simp add: m')
qed

end

section \<open>Properties\<close>

interpretation strings: hash_contract str_hash "(=)"
  by unfold_locales auto

text \<open>A small map of strings: ``b'' is in bucket 2 and ``a'' in bucket 3.\<close>

definition words_map :: "(8 word list \<times> nat) list \<Rightarrow> (8 word list, nat) hashmap" where
  "words_map as = \<lparr>hash_fn = str_hash, equal_fn = (=), buckets = [[], [], [([98], 3)], as],
     cap = 4, cap_bits = 2, sz = 1 + length as\<rparr>"

lemma hash_a: "hash_bits (str_hash [97]) 2 = 3" and hash_b: "hash_bits (str_hash [98]) 2 = 2"
  by code_simp+

lemma all_less_4: "(\<forall>b < 4. P b) \<longleftrightarrow> P 0 \<and> P 1 \<and> P 2 \<and> P (3 :: nat)"
  by (auto simp: less_Suc_eq numeral_eq_Suc)

lemma words_map_ok: "\<forall>e \<in> set as. fst e = [97] \<Longrightarrow> hm_ok (words_map as)"
  by (simp add: hm_ok_def words_map_def entries_def all_less_4 hash_a hash_b)

lemma words_map_unique: "hm_unique (words_map [([97], v)])"
  by (simp add: hm_unique_def words_map_def entries_def)

lemma words_map_contract: "hash_contract (hash_fn (words_map as)) (equal_fn (words_map as))"
  using strings.hash_contract_axioms by (simp add: words_map_def)

text \<open>
  C5: inserting keeps the map well formed (every entry in the bucket of its hash, the counters
  right), keeps it at most three quarters full, and, for the strategies other than append, keeps
  every key unique; even when an allocation fails.
\<close>

theorem hashmap_insert_invariant:
  assumes "hash_contract (hash_fn m) (equal_fn m)" "hm_ok m" "hm_load m" "cap_bits m < 64"
    and "hashmap_insert c a m key v st = (r, old, m')"
  shows "hm_ok m' \<and> hm_load m' \<and> (hm_unique m \<and> st \<noteq> HASHMAP_APPEND \<longrightarrow> hm_unique m')"
  using hash_contract.insert_invariant [OF assms(1,2) refl refl assms(4,5)] assms(3) by blast

lemma hashmap_insert_invariant_witness:
  "\<exists>r old m'. hashmap_insert True True (words_map [([97], 1)]) [99] 9 HASHMAP_ADD = (r, old, m') \<and>
     hm_ok m' \<and> hm_unique m'"
proof -
  obtain r old m' where
    run: "hashmap_insert True True (words_map [([97], 1)]) [99] 9 HASHMAP_ADD = (r, old, m')"
    by (metis surj_pair)
  have "hm_ok (words_map [([97], 1)])" by (rule words_map_ok) simp
  moreover have "hm_load (words_map [([97], 1)])" "cap_bits (words_map [([97], 1)]) < 64"
    by (simp_all add: hm_load_def words_map_def)
  ultimately have "hm_ok m' \<and> hm_unique m'"
    using hashmap_insert_invariant [OF words_map_contract _ _ _ run] words_map_unique by blast
  with run show ?thesis by blast
qed

text \<open>
  C4: on a well-formed map with unique keys and fewer than \<open>2\<^sup>6\<^sup>4\<close> buckets, whose equality is an equivalence that
  its hash function respects, an insertion with any of the four strategies behaves like an update of a finite map: a lookup
  after a successful insertion gives the new value for the key and what it gave before for every
  other key, a failed one changes no lookup. The old value reported is the one a lookup gave, for
  all strategies but HASHMAP_APPEND, which never reports one. The result code is -EEXIST exactly for adding a
  present key, -ENOENT exactly for updating an absent one, and -ENOMEM only when an allocation fails.
\<close>

theorem hashmap_insert_refines:
  assumes "hash_contract (hash_fn m) (equal_fn m)" "hm_ok m" "hm_unique m" "cap_bits m < 64"
    and "hashmap_insert c a m key v st = (r, old, m')"
  shows "hashmap_find m' k = (if r = 0 \<and> equal_fn m key k then Some v else hashmap_find m k) \<and>
    map_option snd old = (if st = HASHMAP_APPEND then None else hashmap_find m key) \<and>
    (\<exists>ok. (c \<and> a \<longrightarrow> ok) \<and> r = insert_code st (hashmap_find m key \<noteq> None) ok)"
  using hash_contract.insert_lookup [OF assms(1,2) refl refl assms(3,4,5)] by blast

lemma hashmap_insert_refines_witness:
  "\<exists>r old m'. hashmap_insert True True (words_map [([97], 1)]) [97] 9 HASHMAP_SET = (r, old, m') \<and>
     hashmap_find m' [97] = (if r = 0 then Some 9 else Some 1)"
proof -
  obtain r old m' where
    run: "hashmap_insert True True (words_map [([97], 1)]) [97] 9 HASHMAP_SET = (r, old, m')"
    by (metis surj_pair)
  have ok: "hm_ok (words_map [([97], 1)])" by (rule words_map_ok) simp
  have bits: "cap_bits (words_map [([97], 1)]) < 64" by (simp add: words_map_def)
  have "hashmap_find (words_map [([97], 1)]) [97] = Some 1"
    by (simp add: hashmap_find_def hashmap_find_entry_def words_map_def hash_a)
  then have "hashmap_find m' [97] = (if r = 0 then Some 9 else Some 1)"
    using hashmap_insert_refines [OF words_map_contract ok words_map_unique bits run, of "[97]"]
    by (simp add: words_map_def)
  with run show ?thesis by blast
qed

text \<open>
  C6: on a map with unique keys a deletion reports the value a lookup gave, makes the key absent,
  leaves every other lookup as it was, and keeps the map well formed with unique keys.
\<close>

theorem hashmap_delete_refines:
  assumes "hash_contract (hash_fn m) (equal_fn m)" "hm_ok m" "hm_unique m"
    and "hashmap_delete m key = (old, m')"
  shows "hm_ok m' \<and> hm_unique m' \<and> map_option snd old = hashmap_find m key \<and>
    hashmap_find m' k = (if equal_fn m key k then None else hashmap_find m k)"
  using hash_contract.delete_lookup [OF assms(1,2) refl refl assms(3,4)] by blast

lemma hashmap_delete_refines_witness:
  "\<exists>old m'. hashmap_delete (words_map [([97], 1)]) [98] = (old, m') \<and>
     hashmap_find m' [98] = None \<and> hm_ok m'"
proof -
  obtain old m' where run: "hashmap_delete (words_map [([97], 1)]) [98] = (old, m')"
    by (metis surj_pair)
  have ok: "hm_ok (words_map [([97], 1)])" by (rule words_map_ok) simp
  have "hashmap_find m' [98] = None \<and> hm_ok m'"
    using hashmap_delete_refines [OF words_map_contract ok words_map_unique run, of "[98]"]
    by (simp add: words_map_def)
  with run show ?thesis by blast
qed

text \<open>
  When several values were appended under one key, growing the table reverses their order:
  a lookup gives the most recently inserted value before the table grows and the oldest one
  after.
\<close>

theorem hashmap_grow_reverses:
  assumes "hash_contract (hash_fn m) (equal_fn m)" "hm_ok m" "cap_bits m < 64"
    and "hashmap_grow c m = (0, m')"
  shows "key_entries m' k = rev (key_entries m k) \<and>
    (key_entries m k \<noteq> [] \<longrightarrow>
       hashmap_find m k = Some (snd (hd (key_entries m k))) \<and>
       hashmap_find m' k = Some (snd (last (key_entries m k))))"
proof -
  have r: "key_entries m' k = rev (key_entries m k)"
    by (rule hash_contract.key_entries_grow [OF assms(1,2) refl refl assms(3,4)])
  have ok: "hm_ok m'" "hash_fn m' = hash_fn m" "equal_fn m' = equal_fn m"
    using hashmap_grow_ok [OF assms(4,2,3)] hashmap_grow_fields [OF assms(4)] by blast+
  have "hd (rev xs) = last xs" for xs :: "('a \<times> 'b) list" by (simp add: hd_rev)
  then show ?thesis
    using r hash_contract.find_key_entries [OF assms(1,2) refl refl, of k]
      hash_contract.find_key_entries [OF assms(1) ok, of k]
    by (auto simp: neq_Nil_conv split: list.splits)
qed

lemma hashmap_grow_reverses_witness:
  "\<exists>m'. hashmap_grow True (words_map [([97], 2), ([97], 1)]) = (0, m') \<and>
     hashmap_find (words_map [([97], 2), ([97], 1)]) [97] = Some 2 \<and>
     hashmap_find m' [97] = Some 1"
proof -
  let ?m = "words_map [([97], 2), ([97], 1)]"
  obtain m' where run: "hashmap_grow True ?m = (0, m')" by (simp add: hashmap_grow_def Let_def)
  have ok: "hm_ok ?m" by (rule words_map_ok) simp
  have bits: "cap_bits ?m < 64" by (simp add: words_map_def)
  have "key_entries ?m [97] = [([97], 2), ([97], 1)]"
    by (simp add: key_entries_def words_map_def hash_a)
  then show ?thesis using hashmap_grow_reverses [OF words_map_contract ok bits run, of "[97]"] run
    by simp
qed

end
