(* ===== verification/Strset.thy ===== *)
theory Strset
  imports GrowArray Hashmap
begin

text \<open>
  String sets: \<^verbatim>\<open>libbpf/src/strset.c\<close>. A set keeps NUL-terminated strings one after the other in
  a growing buffer, and a hash map from offsets to offsets finds the offset of a string: the
  map's functions get the set as context and hash and compare the strings at the offsets.
  To look up a string from outside, it is first written behind the used part of the buffer.

  The buffer is the list of all the bytes it has room for. A write outside of it and a search
  for a terminator that runs off its end are \<open>None\<close>. Arguments named \<open>_ok\<close>, and the function
  \<open>allocs\<close> for the entries made from initial data, say which allocations succeed.
\<close>

section \<open>The set and its operations\<close>

record strset =
  strs_data :: "u8 list"
  strs_data_len :: nat
  strs_data_max_len :: nat
  strs_hash :: "(nat, nat) hashmap"

definition strset_hash_fn :: "u8 list \<Rightarrow> nat \<Rightarrow> u64" where
  "strset_hash_fn data key = str_hash (str_at data key)"

definition strset_equal_fn :: "u8 list \<Rightarrow> nat \<Rightarrow> nat \<Rightarrow> bool" where
  "strset_equal_fn data key1 key2 \<longleftrightarrow> str_at data key1 = str_at data key2"

text \<open>The map as its operations see it: its functions read the buffer the context has now.\<close>

definition with_ctx :: "u8 list \<Rightarrow> (nat, nat) hashmap \<Rightarrow> (nat, nat) hashmap" where
  "with_ctx data h = h\<lparr>hash_fn := strset_hash_fn data, equal_fn := strset_equal_fn data\<rparr>"

text \<open>A \<^verbatim>\<open>long\<close> offset returned as an \<^verbatim>\<open>int\<close>.\<close>

definition long_to_int :: "nat \<Rightarrow> int" where
  "long_to_int n = sint (of_nat n :: u32)"

text \<open>The loop of \<^verbatim>\<open>strset__new\<close> over the strings of the initial data.\<close>

function strset_index ::
  "(nat \<Rightarrow> bool \<times> bool) \<Rightarrow> u8 list \<Rightarrow> nat \<Rightarrow> (nat, nat) hashmap \<Rightarrow> (int + (nat, nat) hashmap) option" where
  "strset_index allocs data off h =
     (if off < length data then
        if 0 \<notin> set (drop off data) then None
        else let (err, _, h) = hashmap_insert (fst (allocs off)) (snd (allocs off))
                                 (with_ctx data h) off off HASHMAP_ADD;
                 next = off + length (str_at data off) + 1
              in if err = - EEXIST then strset_index allocs data next h
                 else if err \<noteq> 0 then Some (Inl err)
                 else strset_index allocs data next h
      else Some (Inr h))"
  by pat_completeness auto

termination
  by (relation "measure (\<lambda>(allocs, data, off, h). length data - off)") auto

declare strset_index.simps [simp del]

definition strset_new :: "bool \<Rightarrow> bool \<Rightarrow> bool \<Rightarrow> (nat \<Rightarrow> bool \<times> bool) \<Rightarrow> nat \<Rightarrow> u8 list option \<Rightarrow>
    (int + strset) option" where
  "strset_new calloc_ok hash_ok malloc_ok allocs max_data_sz init_data =
     (if \<not> calloc_ok then Some (Inl (- ENOMEM))
      else case hashmap_new hash_ok (strset_hash_fn []) (strset_equal_fn []) of
             Inl _ \<Rightarrow> Some (Inl (- ENOMEM))
           | Inr hash \<Rightarrow>
               (case init_data of
                  None \<Rightarrow> Some (Inr \<lparr>strs_data = [], strs_data_len = 0,
                                     strs_data_max_len = max_data_sz, strs_hash = hash\<rparr>)
                | Some data \<Rightarrow>
                    if \<not> malloc_ok then Some (Inl (- ENOMEM))
                    else do {
                      r \<leftarrow> strset_index allocs data 0 hash;
                      Some (case r of
                              Inl err \<Rightarrow> Inl err
                            | Inr hash \<Rightarrow>
                                Inr \<lparr>strs_data = data, strs_data_len = length data,
                                     strs_data_max_len = max_data_sz, strs_hash = hash\<rparr>)
                    }))"

definition strset_data_size :: "strset \<Rightarrow> nat" where
  "strset_data_size ss = strs_data_len ss"

definition strset_add_str_mem :: "bool \<Rightarrow> strset \<Rightarrow> nat \<Rightarrow> strset option" where
  "strset_add_str_mem realloc_ok ss add_sz = do {
     data \<leftarrow> libbpf_add_mem realloc_ok 0 (strs_data ss) (strs_data_len ss)
               (strs_data_max_len ss) add_sz;
     Some (ss\<lparr>strs_data := data\<rparr>)
   }"

text \<open>The strings searched for and added are given without their terminator.\<close>

definition strset_find_str :: "bool \<Rightarrow> strset \<Rightarrow> u8 list \<Rightarrow> (int \<times> strset) option" where
  "strset_find_str realloc_ok ss s =
     (case strset_add_str_mem realloc_ok ss (length s + 1) of
        None \<Rightarrow> Some (- ENOMEM, ss)
      | Some ss \<Rightarrow> do {
          let new_off = strs_data_len ss;
          data \<leftarrow> wr (strs_data ss) new_off (s @ [0]);
          let ss = ss\<lparr>strs_data := data\<rparr>;
          case hashmap_find (with_ctx data (strs_hash ss)) new_off of
            Some old_off \<Rightarrow> Some (long_to_int old_off, ss)
          | None \<Rightarrow> Some (- ENOENT, ss)
        })"

definition strset_add_str :: "bool \<Rightarrow> bool \<Rightarrow> bool \<Rightarrow> strset \<Rightarrow> u8 list \<Rightarrow> (int \<times> strset) option" where
  "strset_add_str realloc_ok calloc_ok malloc_ok ss s =
     (case strset_add_str_mem realloc_ok ss (length s + 1) of
        None \<Rightarrow> Some (- ENOMEM, ss)
      | Some ss \<Rightarrow> do {
          let new_off = strs_data_len ss;
          data \<leftarrow> wr (strs_data ss) new_off (s @ [0]);
          let (err, old, h) = hashmap_insert calloc_ok malloc_ok (with_ctx data (strs_hash ss))
                                new_off new_off HASHMAP_ADD;
          let ss = ss\<lparr>strs_data := data, strs_hash := h\<rparr>;
          if err = - EEXIST then Some (long_to_int (fst (the old)), ss)
          else if err \<noteq> 0 then Some (err, ss)
          else Some (long_to_int new_off,
                     ss\<lparr>strs_data_len := strs_data_len ss + (length s + 1)\<rparr>)
        })"

section \<open>The list of strings a set stands for\<close>

definition str_bytes :: "u8 list list \<Rightarrow> u8 list" where
  "str_bytes L = concat (map (\<lambda>x. x @ [0]) L)"

text \<open>The offset of the first occurrence, or of the end when there is none.\<close>

fun string_offset :: "u8 list list \<Rightarrow> u8 list \<Rightarrow> nat" where
  "string_offset [] x = 0"
| "string_offset (y # ys) x = (if y = x then 0 else length y + 1 + string_offset ys x)"

definition offset_entry :: "u8 list list \<Rightarrow> u8 list \<Rightarrow> nat \<times> nat" where
  "offset_entry L x = (string_offset L x, string_offset L x)"

text \<open>
  A set stands for a list of strings when its buffer starts with their bytes and the map has
  exactly one entry for each different string: the offset of its first occurrence.
\<close>

definition strset_rep :: "strset \<Rightarrow> u8 list list \<Rightarrow> bool" where
  "strset_rep s L \<longleftrightarrow>
     (\<forall>x \<in> set L. 0 \<notin> set x) \<and>
     strs_data_len s = length (str_bytes L) \<and> strs_data_len s \<le> length (strs_data s) \<and>
     take (strs_data_len s) (strs_data s) = str_bytes L \<and>
     hm_ok (with_ctx (strs_data s) (strs_hash s)) \<and> hm_tight (strs_hash s) \<and>
     mset (entries (strs_hash s)) = mset (map (offset_entry L) (remdups L))"

lemma str_bytes_simps [simp]:
  "str_bytes [] = []" "str_bytes (x # L) = x @ 0 # str_bytes L"
  "str_bytes (L @ M) = str_bytes L @ str_bytes M"
  by (simp_all add: str_bytes_def)

lemma string_offset_absent: "x \<notin> set L \<Longrightarrow> string_offset L x = length (str_bytes L)"
  by (induction L) auto

lemma string_offset_append:
  "string_offset (L @ M) x =
     (if x \<in> set L then string_offset L x else length (str_bytes L) + string_offset M x)"
  by (induction L) auto

lemma string_offset_le: "string_offset L x \<le> length (str_bytes L)"
  by (induction L) auto

lemma string_offset_inj:
  "x \<in> set L \<Longrightarrow> y \<in> set L \<Longrightarrow> string_offset L x = string_offset L y \<longleftrightarrow> x = y"
  by (induction L) auto

lemma str_at_prefix: "0 \<notin> set x \<Longrightarrow> str_at (x @ 0 # rest) 0 = x"
  unfolding str_at_def by (subst drop_0, subst takeWhile_append2) auto

lemma str_at_bytes:
  assumes "x \<in> set L" "\<forall>x \<in> set L. 0 \<notin> set x"
  shows "str_at (str_bytes L @ rest) (string_offset L x) = x"
  using assms
proof (induction L)
  case (Cons y L)
  show ?case
  proof (cases "y = x")
    case True
    then show ?thesis using Cons.prems(2) str_at_prefix by simp
  next
    case False
    then have "str_at (str_bytes L @ rest) (string_offset L x) = x" using Cons by simp
    then show ?thesis using False by (simp add: str_at_def)
  qed
qed simp

lemma str_at_take:
  assumes "take (length (str_bytes L)) data = str_bytes L" "x \<in> set L" "\<forall>x \<in> set L. 0 \<notin> set x"
  shows "str_at data (string_offset L x) = x"
proof -
  have "data = str_bytes L @ drop (length (str_bytes L)) data"
    using assms(1) by (metis append_take_drop_id)
  then show ?thesis using str_at_bytes [OF assms(2,3)] by metis
qed

lemma str_at_end:
  assumes "take (length (str_bytes (L @ [x]))) data = str_bytes (L @ [x])" "0 \<notin> set x"
  shows "str_at data (length (str_bytes L)) = x"
proof -
  have "data = str_bytes (L @ [x]) @ drop (length (str_bytes (L @ [x]))) data"
    using append_take_drop_id [of "length (str_bytes (L @ [x]))" data, symmetric] unfolding assms(1) .
  also have "\<dots> = str_bytes L @ (x @ 0 # drop (length (str_bytes (L @ [x]))) data)" by simp
  finally have "drop (length (str_bytes L)) data = x @ 0 # drop (length (str_bytes (L @ [x]))) data"
    by (metis append_eq_conv_conj)
  then show ?thesis using str_at_prefix [OF assms(2)] by (simp add: str_at_def)
qed

lemma distinct_filter_eq: "filter (\<lambda>x. x = y) (remdups xs) = (if y \<in> set xs then [y] else [])"
  by (induction xs) (auto simp: filter_empty_conv)

section \<open>The map of a set\<close>

interpretation offsets: hash_contract "strset_hash_fn data" "strset_equal_fn data" for data
  by unfold_locales (auto simp: strset_hash_fn_def strset_equal_fn_def)

lemma with_ctx_fields [simp]:
  "hash_fn (with_ctx data h) = strset_hash_fn data"
  "equal_fn (with_ctx data h) = strset_equal_fn data"
  "entries (with_ctx data h) = entries h" "cap_bits (with_ctx data h) = cap_bits h"
  "with_ctx data (with_ctx data' h) = with_ctx data h"
  by (simp_all add: with_ctx_def entries_def)

lemma with_ctx_id:
  "hash_fn h = strset_hash_fn data \<Longrightarrow> equal_fn h = strset_equal_fn data \<Longrightarrow> with_ctx data h = h"
  by (cases h) (simp add: with_ctx_def)

text \<open>The map only depends on the strings at the offsets it holds.\<close>

lemma hm_ok_with_ctx:
  assumes "hm_ok (with_ctx data h)" "\<forall>e \<in> set (entries h). str_at data' (fst e) = str_at data (fst e)"
  shows "hm_ok (with_ctx data' h)"
proof -
  have "e \<in> set (entries h)" if "b < length (buckets h)" "e \<in> set (buckets h ! b)" for b e
    using that by (auto simp: entries_def)
  then have "strset_hash_fn data' (fst e) = strset_hash_fn data (fst e)"
    if "b < length (buckets h)" "e \<in> set (buckets h ! b)" for b e
    using assms(2) that by (simp add: strset_hash_fn_def)
  then show ?thesis using assms(1) by (auto simp: hm_ok_def with_ctx_def entries_def)
qed

lemma equal_offset_entries:
  assumes "take (length (str_bytes L)) data = str_bytes L" "\<forall>x \<in> set L. 0 \<notin> set x"
  shows "filter_mset (\<lambda>e. strset_equal_fn data (fst e) k) (mset (map (offset_entry L) (remdups L))) =
    (if str_at data k \<in> set L then {#offset_entry L (str_at data k)#} else {#})"
proof -
  have "filter (\<lambda>x. str_at data (string_offset L x) = str_at data k) (remdups L) =
      filter (\<lambda>x. x = str_at data k) (remdups L)"
    using str_at_take [OF assms(1) _ assms(2)] by (intro filter_cong) auto
  then have "filter (\<lambda>e. strset_equal_fn data (fst e) k) (map (offset_entry L) (remdups L)) =
      map (offset_entry L) (if str_at data k \<in> set L then [str_at data k] else [])"
    by (simp add: filter_map comp_def strset_equal_fn_def offset_entry_def distinct_filter_eq)
  then show ?thesis unfolding mset_filter [symmetric] by simp
qed

text \<open>A set whose strings are still in place in a new buffer.\<close>

lemma strset_rep_buffer:
  assumes "strset_rep s L" "take (strs_data_len s) data = str_bytes L"
    and "strs_data_len s \<le> length data"
  shows "hm_ok (with_ctx data (strs_hash s))" "strset_rep (s\<lparr>strs_data := data\<rparr>) L"
proof -
  have L: "\<forall>x \<in> set L. 0 \<notin> set x" "strs_data_len s = length (str_bytes L)"
    "take (strs_data_len s) (strs_data s) = str_bytes L"
    "hm_ok (with_ctx (strs_data s) (strs_hash s))"
    and entries: "mset (entries (strs_hash s)) = mset (map (offset_entry L) (remdups L))"
    using assms(1) unfolding strset_rep_def by blast+
  have "set_mset (mset (entries (strs_hash s))) = set_mset (mset (map (offset_entry L) (remdups L)))"
    unfolding entries ..
  then have "set (entries (strs_hash s)) = offset_entry L ` set L" by simp
  moreover have "str_at data (string_offset L x) = str_at (strs_data s) (string_offset L x)"
    if "x \<in> set L" for x
    using str_at_take [OF assms(2) [unfolded L(2)] that L(1)] str_at_take [OF L(3) [unfolded L(2)] that L(1)]
    by simp
  ultimately have "\<forall>e \<in> set (entries (strs_hash s)).
      str_at data (fst e) = str_at (strs_data s) (fst e)"
    by (simp add: offset_entry_def)
  then show ok: "hm_ok (with_ctx data (strs_hash s))" by (rule hm_ok_with_ctx [OF L(4)])
  show "strset_rep (s\<lparr>strs_data := data\<rparr>) L"
    using assms(1) assms(2,3) L ok entries unfolding strset_rep_def by simp
qed

lemma strset_add_str_mem_write:
  assumes "strset_rep s L" "strset_add_str_mem r s (length x + 1) = Some s1"
  obtains data where "s1 = s\<lparr>strs_data := strs_data s1\<rparr>"
    "wr (strs_data s1) (strs_data_len s) (x @ [0]) = Some data"
    "take (length (str_bytes (L @ [x]))) data = str_bytes (L @ [x])"
    "length (str_bytes (L @ [x])) \<le> length data"
proof -
  have L: "strs_data_len s = length (str_bytes L)" "strs_data_len s \<le> length (strs_data s)"
    "take (strs_data_len s) (strs_data s) = str_bytes L"
    using assms(1) by (auto simp: strset_rep_def)
  obtain d where d: "libbpf_add_mem r 0 (strs_data s) (strs_data_len s) (strs_data_max_len s)
      (length x + 1) = Some d" and s1: "s1 = s\<lparr>strs_data := d\<rparr>"
    using assms(2) by (auto simp: strset_add_str_mem_def bind_Some_iff)
  have "take (strs_data_len s) d = str_bytes L"
    using libbpf_add_mem_take [OF d L(2)] L(3) by simp
  moreover have "strs_data_len s + (length x + 1) \<le> length d" by (rule libbpf_add_mem_Some(1) [OF d])
  ultimately show thesis
    using s1 L(1)
    by (intro that [of "take (strs_data_len s) d @ (x @ [0]) @ drop (strs_data_len s + (length x + 1)) d"])
      (simp_all add: wr_def)
qed

lemma strset_add_str_mem_None:
  assumes "strset_rep s L"
  shows "strset_add_str_mem r s n = None \<longleftrightarrow> length (strs_data s) < strs_data_len s + n \<and>
    (strs_data_max_len s < strs_data_len s + n \<or> \<not> r)"
  unfolding strset_add_str_mem_def by (auto simp: bind_eq_None_conv libbpf_add_mem_None)

text \<open>The string \<open>x\<close> written behind the used part of the buffer.\<close>

lemma written_buffer:
  assumes "strset_rep s L" "take (length (str_bytes (L @ [x]))) data = str_bytes (L @ [x])"
    and "length (str_bytes (L @ [x])) \<le> length data" "0 \<notin> set x"
  shows "strset_rep (s\<lparr>strs_data := data\<rparr>) L" "hm_ok (with_ctx data (strs_hash s))"
    and "filter_mset (\<lambda>e. strset_equal_fn data (fst e) (strs_data_len s)) (mset (entries (strs_hash s))) =
      (if x \<in> set L then {#offset_entry L x#} else {#})"
proof -
  have L: "strs_data_len s = length (str_bytes L)" "\<forall>x \<in> set L. 0 \<notin> set x"
    and entries: "mset (entries (strs_hash s)) = mset (map (offset_entry L) (remdups L))"
    using assms(1) unfolding strset_rep_def by blast+
  have "take (length (str_bytes L)) (take (length (str_bytes (L @ [x]))) data) = str_bytes L"
    unfolding assms(2) by simp
  then have T: "take (strs_data_len s) data = str_bytes L" by (simp add: L(1) min_def)
  have le: "strs_data_len s \<le> length data" using assms(3) L(1) by simp
  show "hm_ok (with_ctx data (strs_hash s))" "strset_rep (s\<lparr>strs_data := data\<rparr>) L"
    by (rule strset_rep_buffer [OF assms(1) T le])+
  have "str_at data (strs_data_len s) = x"
    unfolding L(1) by (rule str_at_end [OF assms(2,4)])
  then show "filter_mset (\<lambda>e. strset_equal_fn data (fst e) (strs_data_len s)) (mset (entries (strs_hash s))) =
      (if x \<in> set L then {#offset_entry L x#} else {#})"
    unfolding entries equal_offset_entries [OF T [unfolded L(1)] L(2)] by simp
qed

lemma remdups_snoc: "remdups (L @ [x]) = (if x \<in> set L then remdups (L @ [x]) else remdups L @ [x])"
  by (induction L) auto

lemma offset_entries_snoc:
  assumes "x \<notin> set L"
  shows "mset (map (offset_entry (L @ [x])) (remdups (L @ [x]))) =
    add_mset (length (str_bytes L), length (str_bytes L)) (mset (map (offset_entry L) (remdups L)))"
proof -
  have "map (offset_entry (L @ [x])) (remdups L) = map (offset_entry L) (remdups L)"
    by (simp add: offset_entry_def string_offset_append)
  moreover have "offset_entry (L @ [x]) x = (length (str_bytes L), length (str_bytes L))"
    using assms by (simp add: offset_entry_def string_offset_append)
  moreover have "remdups (L @ [x]) = remdups L @ [x]" using assms remdups_snoc by metis
  ultimately show ?thesis by (simp only: map_append mset_append) simp
qed

lemma long_to_int_small: "n < 2 ^ 31 \<Longrightarrow> long_to_int n = int n"
  using sint_word_of_int_u32 [of "int n"] by (simp add: long_to_int_def)

lemma offset_to_int:
  "length (str_bytes L) < 2 ^ 31 \<Longrightarrow> long_to_int (string_offset L x) = int (string_offset L x)"
  using string_offset_le [of L x] by (intro long_to_int_small) simp

text \<open>Adding \<open>x\<close> to the map of a set, at the offset where \<open>x\<close> was written.\<close>

lemma strset_cap_bits:
  assumes "hm_ok (with_ctx data h)" "hm_tight h" "mset (entries h) = mset (map (offset_entry L) (remdups L))"
    and "length (str_bytes L) < 2 ^ 31"
  shows "cap_bits h < 64"
proof (cases "cap h = 0")
  case True
  then show ?thesis using assms(1) by (auto simp: hm_ok_def with_ctx_def)
next
  case False
  have "length L \<le> length (str_bytes L)" by (induction L) auto
  moreover have "sz h = length (remdups L)"
    using assms(1) mset_eq_length [OF assms(3)] by (simp add: hm_ok_def with_ctx_def entries_def)
  ultimately have "sz h < 2 ^ 31" using assms(4) length_remdups_leq [of L] by linarith
  moreover have "cap h = 2 ^ cap_bits h" using assms(1) False by (auto simp: hm_ok_def with_ctx_def)
  ultimately have "(2 :: nat) ^ cap_bits h < 2 ^ 64" using assms(2) by (simp add: hm_tight_def)
  then show ?thesis by (rule power_less_imp_less_exp [rotated]) simp
qed

lemma offset_entries_duplicate:
  assumes "x \<in> set L"
  shows "mset (map (offset_entry (L @ [x])) (remdups (L @ [x]))) = mset (map (offset_entry L) (remdups L))"
proof -
  have "mset (remdups (L @ [x])) = mset (remdups L)"
    using assms mset_set_set [OF distinct_remdups, of "L @ [x]"] mset_set_set [OF distinct_remdups, of L]
    by (simp add: insert_absorb)
  then have "mset (map (offset_entry (L @ [x])) (remdups (L @ [x]))) = mset (map (offset_entry (L @ [x])) (remdups L))"
    by (simp only: mset_map)
  also have "map (offset_entry (L @ [x])) (remdups L) = map (offset_entry L) (remdups L)"
    by (simp add: offset_entry_def string_offset_append)
  finally show ?thesis .
qed

lemma add_offset:
  assumes T: "take (length (str_bytes (L @ [x]))) data = str_bytes (L @ [x])" "\<forall>y \<in> set (L @ [x]). 0 \<notin> set y"
    and h: "hm_ok (with_ctx data h)" "hm_tight h"
      "mset (entries h) = mset (map (offset_entry L) (remdups L))"
    and small: "length (str_bytes L) < 2 ^ 31"
    and ins: "hashmap_insert c a (with_ctx data h) (length (str_bytes L)) (length (str_bytes L))
      HASHMAP_ADD = (r, old, h')"
  shows "hm_ok (with_ctx data h') \<and> hm_tight h' \<and>
    mset (entries h') = (if r = 0 then mset (map (offset_entry (L @ [x])) (remdups (L @ [x])))
                         else mset (map (offset_entry L) (remdups L))) \<and>
    (x \<in> set L \<longrightarrow> r = - EEXIST \<and> map_option fst old = Some (string_offset L x)) \<and>
    (x \<notin> set L \<longrightarrow> r = 0 \<or> r = - ENOMEM \<and> \<not> (c \<and> a))"
proof -
  let ?m = "with_ctx data h" and ?k = "length (str_bytes L)"
  have cb: "cap_bits ?m < 64" using strset_cap_bits [OF h small] by simp
  have tight: "hm_tight ?m" using h(2) by (simp add: hm_tight_def with_ctx_def)
  note inv = offsets.insert_invariant [OF h(1) with_ctx_fields(1,2) cb ins]
  have h': "hm_ok (with_ctx data h')" "hm_tight h'"
    using inv(1) with_ctx_id [OF inv(2,3)] insert_tight [OF ins h(1) tight] by simp_all
  have "take ?k (take (length (str_bytes (L @ [x]))) data) = str_bytes L"
    unfolding T(1) by simp
  then have TL: "take ?k data = str_bytes L" by (simp add: min_def)
  have "str_at data ?k = x" using T by (intro str_at_end) auto
  then have F: "filter_mset (\<lambda>e. strset_equal_fn data (fst e) ?k) (mset (entries ?m)) =
      (if x \<in> set L then {#offset_entry L x#} else {#})"
    using equal_offset_entries [OF TL, of ?k] T(2) h(3) by simp
  from h(1) with_ctx_fields(1,2) cb ins show ?thesis
  proof (cases rule: offsets.insert_only)
    case (present e)
    then have "e \<in># filter_mset (\<lambda>e. strset_equal_fn data (fst e) ?k) (mset (entries ?m))" by simp
    then have "x \<in> set L" "e = offset_entry L x" unfolding F by (auto split: if_splits)
    then show ?thesis using present h' h(3) by (simp add: offset_entry_def)
  next
    case no_memory
    have "x \<notin> set L" using no_memory(4) unfolding F by (auto split: if_splits)
    then show ?thesis using no_memory h' h(3) by simp
  next
    case added
    have "x \<notin> set L" using added(3) unfolding F by (auto split: if_splits)
    then show ?thesis using added h' h(3) offset_entries_snoc by simp
  qed
qed

section \<open>Properties\<close>

text \<open>
  Looking up a string in a set that stands for a list of strings gives the offset of the
  string's first occurrence, or \<^verbatim>\<open>-ENOENT\<close> when it is not there, and leaves the set standing for
  the same list; the only other outcome is \<^verbatim>\<open>-ENOMEM\<close>, when the string does not fit and the
  buffer cannot grow. The lookup never writes outside of the buffer.
\<close>

theorem strset_find_str_result:
  assumes "strset_rep s L" "0 \<notin> set x" "length (str_bytes L) < 2 ^ 31"
  shows "\<exists>r s'. strset_find_str m s x = Some (r, s') \<and> strset_rep s' L \<and>
    (r = (if x \<in> set L then int (string_offset L x) else - ENOENT) \<or>
     r = - ENOMEM \<and> length (strs_data s) < strs_data_len s + (length x + 1) \<and>
       (strs_data_max_len s < strs_data_len s + (length x + 1) \<or> \<not> m))"
proof (cases "strset_add_str_mem m s (length x + 1)")
  case None
  then have "strset_find_str m s x = Some (- ENOMEM, s)"
    unfolding strset_find_str_def None by simp
  then show ?thesis using None assms(1) strset_add_str_mem_None [OF assms(1)] by blast
next
  case (Some s1)
  obtain data where w: "s1 = s\<lparr>strs_data := strs_data s1\<rparr>"
    "wr (strs_data s1) (strs_data_len s) (x @ [0]) = Some data"
    "take (length (str_bytes (L @ [x]))) data = str_bytes (L @ [x])"
    "length (str_bytes (L @ [x])) \<le> length data"
    using strset_add_str_mem_write [OF assms(1) Some] .
  note B = written_buffer [OF assms(1) w(3,4) assms(2)]
  have eqs: "strs_data_len s1 = strs_data_len s" "strs_hash s1 = strs_hash s"
    "s1\<lparr>strs_data := data\<rparr> = s\<lparr>strs_data := data\<rparr>"
    using w(1) by (metis strset.select_convs strset.surjective strset.update_convs(1))+
  have "hashmap_find (with_ctx data (strs_hash s)) (strs_data_len s) =
      (if x \<in> set L then Some (string_offset L x) else None)"
    using offsets.find_of_bag [of "with_ctx data (strs_hash s)" data "strs_data_len s"] B
    by (simp add: offset_entry_def)
  then have "strset_find_str m s x = Some
      (if x \<in> set L then int (string_offset L x) else - ENOENT, s\<lparr>strs_data := data\<rparr>)"
    unfolding strset_find_str_def Some using w(2) eqs offset_to_int [OF assms(3)] by (simp add: Let_def)
  then show ?thesis using B(1) by blast
qed


text \<open>How adding a string ends.\<close>

lemma strset_add_str_outcome:
  assumes "strset_rep s L" "0 \<notin> set x" "length (str_bytes L) < 2 ^ 31"
  shows "\<exists>r s'. strset_add_str m c a s x = Some (r, s') \<and>
    (r = int (string_offset L x) \<and> strset_rep s' (if x \<in> set L then L else L @ [x]) \<or>
     r = - ENOMEM \<and> strset_rep s' L \<and>
       (strs_data_max_len s < length (str_bytes (L @ [x])) \<or> \<not> (m \<and> c \<and> a)))"
proof (cases "strset_add_str_mem m s (length x + 1)")
  case None
  then have "strset_add_str m c a s x = Some (- ENOMEM, s)"
    unfolding strset_add_str_def None by simp
  moreover have "strs_data_len s = length (str_bytes L)" using assms(1) by (simp add: strset_rep_def)
  ultimately show ?thesis
    using None assms(1) strset_add_str_mem_None [OF assms(1), of m "length x + 1"] by simp blast
next
  case (Some s1)
  obtain data where w: "s1 = s\<lparr>strs_data := strs_data s1\<rparr>"
    "wr (strs_data s1) (strs_data_len s) (x @ [0]) = Some data"
    "take (length (str_bytes (L @ [x]))) data = str_bytes (L @ [x])"
    "length (str_bytes (L @ [x])) \<le> length data"
    using strset_add_str_mem_write [OF assms(1) Some] .
  have len: "strs_data_len s = length (str_bytes L)" and zf: "\<forall>y \<in> set (L @ [x]). 0 \<notin> set y"
    and h: "hm_tight (strs_hash s)"
      "mset (entries (strs_hash s)) = mset (map (offset_entry L) (remdups L))"
    using assms(1,2) unfolding strset_rep_def by auto
  note B = written_buffer [OF assms(1) w(3,4) assms(2)]
  have s1: "strs_data_len s1 = strs_data_len s" "strs_hash s1 = strs_hash s"
    "s1\<lparr>strs_data := d, strs_hash := h\<rparr> = s\<lparr>strs_data := d, strs_hash := h\<rparr>" for d h
    using w(1) by (metis strset.select_convs strset.surjective strset.update_convs(1,4))+
  obtain r old h' where ins: "hashmap_insert c a (with_ctx data (strs_hash s)) (strs_data_len s)
      (strs_data_len s) HASHMAP_ADD = (r, old, h')" by (metis prod_cases3)
  note A = add_offset [OF w(3) zf B(2) h assms(3) ins [unfolded len]]
  define s2 where "s2 = s\<lparr>strs_data := data, strs_hash := h'\<rparr>"
  have run: "strset_add_str m c a s x =
      (if r = - EEXIST then Some (long_to_int (fst (the old)), s2)
       else if r \<noteq> 0 then Some (r, s2)
       else Some (long_to_int (length (str_bytes L)),
                  s2\<lparr>strs_data_len := length (str_bytes L) + (length x + 1)\<rparr>))"
    unfolding strset_add_str_def Some using w(2) ins len s1 by (simp add: Let_def s2_def)
  have keep: "strset_rep s2 L" if "r \<noteq> 0"
    using A B(1) that unfolding strset_rep_def s2_def by (simp add: len)
  have grow: "strset_rep (s2\<lparr>strs_data_len := length (str_bytes L) + (length x + 1)\<rparr>) (L @ [x])" if "r = 0"
    using A w(3,4) zf that unfolding strset_rep_def s2_def by simp
  consider "x \<in> set L" "r = - EEXIST" | "x \<notin> set L" "r = 0"
    | "x \<notin> set L" "r = - ENOMEM" "\<not> (c \<and> a)" using A by blast
  then show ?thesis
  proof cases
    case 1
    then have "fst (the old) = string_offset L x" using A by (cases old) auto
    then show ?thesis using run keep 1 offset_to_int [OF assms(3)] by simp
  next
    case 2
    then show ?thesis
      using run grow string_offset_absent [of x L] long_to_int_small [OF assms(3)] by simp
  next
    case 3
    then show ?thesis using run keep by simp
  qed
qed

text \<open>
  C7: adding a string to a set that stands for a list of strings returns the offset of the
  string and makes the set stand for the list with the string at its end, or for the same list
  when the string was in it; the only other outcome is \<^verbatim>\<open>-ENOMEM\<close>, with the same list, when an
  allocation fails or the size limit is reached. The string is never written outside of the
  buffer. (The first string of an empty set has the offset 0, although the comment promises a
  positive one.)
\<close>

theorem strset_add_str_refines:
  assumes "strset_rep s L" "0 \<notin> set x" "length (str_bytes L) < 2 ^ 31"
  shows "\<exists>r s'. strset_add_str m c a s x = Some (r, s') \<and>
    (r = int (string_offset L x) \<and> strset_rep s' (if x \<in> set L then L else L @ [x]) \<or>
     r = - ENOMEM \<and> strset_rep s' L \<and>
       (strs_data_max_len s < length (str_bytes (L @ [x])) \<or> \<not> (m \<and> c \<and> a)))"
  using assms by (rule strset_add_str_outcome)

text \<open>The loop over the initial data, from the strings \<open>L\<close> it has seen on.\<close>

definition indexed :: "(nat \<Rightarrow> bool \<times> bool) \<Rightarrow> u8 list \<Rightarrow> u8 list list \<Rightarrow> int + (nat, nat) hashmap \<Rightarrow> bool" where
  "indexed allocs data L res =
    (case res of
       Inl err \<Rightarrow> err = - ENOMEM \<and> (\<exists>off. allocs off \<noteq> (True, True))
     | Inr h \<Rightarrow> hm_ok (with_ctx data h) \<and> hm_tight h \<and>
         mset (entries h) = mset (map (offset_entry L) (remdups L)))"

lemma strset_index_strings:
  assumes "data = str_bytes (L @ M)" "\<forall>y \<in> set (L @ M). 0 \<notin> set y" "length data < 2 ^ 31"
    and "hm_ok (with_ctx data h)" "hm_tight h"
    and "mset (entries h) = mset (map (offset_entry L) (remdups L))"
  shows "\<exists>res. strset_index allocs data (length (str_bytes L)) h = Some res \<and> indexed allocs data (L @ M) res"
  using assms
proof (induction M arbitrary: L h)
  case Nil
  then show ?case by (subst strset_index.simps) (simp add: indexed_def)
next
  case (Cons x M)
  let ?k = "length (str_bytes L)"
  have T: "take (length (str_bytes (L @ [x]))) data = str_bytes (L @ [x])"
    "\<forall>y \<in> set (L @ [x]). 0 \<notin> set y" "?k < 2 ^ 31" "?k < length data" "0 \<in> set (drop ?k data)"
    using Cons.prems(1-3) by auto
  have str: "str_at data ?k = x" using T(1,2) by (intro str_at_end) auto
  obtain r old h1 where ins: "hashmap_insert (fst (allocs ?k)) (snd (allocs ?k)) (with_ctx data h) ?k ?k
      HASHMAP_ADD = (r, old, h1)" by (metis prod_cases3)
  note A = add_offset [OF T(1,2) Cons.prems(4-6) T(3) ins]
  have next': "?k + length x + 1 = length (str_bytes (L @ [x]))" by simp
  have step: "strset_index allocs data ?k h =
      (if r = - EEXIST \<or> r = 0 then strset_index allocs data (length (str_bytes (L @ [x]))) h1
       else Some (Inl r))"
    by (subst strset_index.simps) (simp add: ins T(4,5) str next')
  show ?case
  proof (cases "r = - EEXIST \<or> r = 0")
    case True
    have "mset (entries h1) = mset (map (offset_entry (L @ [x])) (remdups (L @ [x])))"
      using A True offset_entries_duplicate [of x L] by (cases "x \<in> set L") auto
    then have "\<exists>res. strset_index allocs data (length (str_bytes (L @ [x]))) h1 = Some res \<and>
        indexed allocs data ((L @ [x]) @ M) res"
      using A Cons.prems(1-3) by (intro Cons.IH) simp_all
    then show ?thesis using step True by (simp only: append.assoc append_Cons append_Nil if_True)
  next
    case False
    then have "r = - ENOMEM" "\<not> (fst (allocs ?k) \<and> snd (allocs ?k))" using A by auto
    then have "allocs ?k \<noteq> (True, True)" by auto
    then show ?thesis using step False \<open>r = - ENOMEM\<close> by (auto simp: indexed_def)
  qed
qed

text \<open>
  A set created from the bytes of NUL-terminated strings stands for exactly these strings,
  repetitions included, and an empty set for no strings; the initial data is never read beyond
  its end, and the only error is \<^verbatim>\<open>-ENOMEM\<close>, when an allocation fails.
\<close>

theorem strset_new_rep:
  assumes "\<forall>x \<in> set L. 0 \<notin> set x" "length (str_bytes L) < 2 ^ 31"
    and "init = Some (str_bytes L) \<or> init = None \<and> L = []"
  shows "\<exists>res. strset_new c h m allocs max_sz init = Some res \<and>
    (case res of
       Inl err \<Rightarrow> err = - ENOMEM \<and> \<not> (c \<and> h \<and> m \<and> (\<forall>off. allocs off = (True, True)))
     | Inr s \<Rightarrow> strset_rep s L \<and> strs_data_max_len s = max_sz)"
proof -
  let ?h = "hashmap_init (strset_hash_fn []) (strset_equal_fn []) :: (nat, nat) hashmap"
  have empty: "hm_ok (with_ctx data ?h)" "hm_tight ?h" "entries ?h = []" for data
    by (simp_all add: hm_ok_def with_ctx_def hashmap_init_def entries_def hm_tight_def)
  show ?thesis
  proof (cases "c \<and> h \<and> (init = None \<or> m)")
    case False
    then show ?thesis using assms(3) by (auto simp: strset_new_def hashmap_new_def)
  next
    case ok: True
    show ?thesis
    proof (cases init)
      case None
      then show ?thesis
        using ok assms(3) empty by (simp add: strset_new_def hashmap_new_def strset_rep_def)
    next
      case (Some data)
      then have data: "data = str_bytes L" using assms(3) by simp
      obtain res where res: "strset_index allocs data 0 ?h = Some res"
        and post: "indexed allocs data L res"
        using strset_index_strings [of data "[]" L ?h allocs] empty assms(1,2) data by auto
      have run: "strset_new c h m allocs max_sz init = Some (case res of
           Inl err \<Rightarrow> Inl err
         | Inr hash \<Rightarrow> Inr \<lparr>strs_data = data, strs_data_len = length data,
                           strs_data_max_len = max_sz, strs_hash = hash\<rparr>)"
        using ok Some res by (simp add: strset_new_def hashmap_new_def)
      show ?thesis
      proof (cases res)
        case (Inl err)
        then show ?thesis using run post by (auto simp: indexed_def)
      next
        case (Inr h')
        then show ?thesis using run post data assms(1) by (simp add: strset_rep_def indexed_def)
      qed
    qed
  qed
qed

section \<open>Examples\<close>

definition two_words :: "u8 list list" where
  "two_words = [[], [97, 98]]"

lemma strset_new_rep_witness:
  "\<exists>s. strset_new True True True (\<lambda>_. (True, True)) 100 (Some (str_bytes two_words)) = Some (Inr s) \<and>
     strset_rep s two_words"
proof -
  obtain res where "strset_new True True True (\<lambda>_. (True, True)) 100 (Some (str_bytes two_words)) = Some res"
    "case res of
       Inl err \<Rightarrow> err = - ENOMEM \<and> \<not> (True \<and> True \<and> True \<and> (\<forall>off. (\<lambda>_ :: nat. (True, True)) off = (True, True)))
     | Inr s \<Rightarrow> strset_rep s two_words \<and> strs_data_max_len s = 100"
    using strset_new_rep [of two_words "Some (str_bytes two_words)" True True True "\<lambda>_. (True, True)" 100]
    by (auto simp: two_words_def)
  then show ?thesis by (cases res) auto
qed

text \<open>An empty set, as \<^verbatim>\<open>strset__new\<close> makes it without initial data.\<close>

definition empty_strset :: strset where
  "empty_strset = \<lparr>strs_data = [], strs_data_len = 0, strs_data_max_len = 100,
     strs_hash = hashmap_init (strset_hash_fn []) (strset_equal_fn [])\<rparr>"

lemma empty_strset_rep: "strset_rep empty_strset []"
  by (simp add: strset_rep_def empty_strset_def hm_ok_def with_ctx_def hashmap_init_def
      entries_def hm_tight_def)

lemma strset_find_str_result_witness:
  "\<exists>s'. strset_find_str True empty_strset [97] = Some (- ENOENT, s') \<and> strset_rep s' []"
  using strset_find_str_result [OF empty_strset_rep, of "[97]" True]
  by (auto simp: empty_strset_def)

lemma strset_add_str_refines_witness:
  "\<exists>s'. strset_add_str True True True empty_strset [97] = Some (0, s') \<and> strset_rep s' [[97]]"
  using strset_add_str_refines [OF empty_strset_rep, of "[97]" True True True]
  by (auto simp: empty_strset_def)

end
