(* ===== verification/Btf.thy ===== *)
theory Btf
  imports GrowArray
begin

text \<open>
  BTF type information: the types of \<^verbatim>\<open>include/uapi/linux/btf.h\<close>, the accessors of \<^verbatim>\<open>btf.h\<close>
  and the queries of \<^verbatim>\<open>btf.c\<close> that the relocation code uses.

  A \<^verbatim>\<open>struct btf_type\<close> is a record of its three header words and the list of the words that
  follow it in memory and belong to it (members, enumerators, array description and so on), so
  that an access to a member that the type does not have is \<open>None\<close>. A \<^verbatim>\<open>struct btf\<close> is its own
  types, its string section and, for split BTF, the BTF it is based on. A pointer that C code
  tests against NULL is an option inside of the option for undefined behaviour.
\<close>

section \<open>Types\<close>

record btf_type =
  name_off :: u32
  info :: u32
  size_type :: u32
  extra :: "u32 list"

definition BTF_KIND_UNKN :: nat where [c_consts]: "BTF_KIND_UNKN = 0"
definition BTF_KIND_INT :: nat where [c_consts]: "BTF_KIND_INT = 1"
definition BTF_KIND_PTR :: nat where [c_consts]: "BTF_KIND_PTR = 2"
definition BTF_KIND_ARRAY :: nat where [c_consts]: "BTF_KIND_ARRAY = 3"
definition BTF_KIND_STRUCT :: nat where [c_consts]: "BTF_KIND_STRUCT = 4"
definition BTF_KIND_UNION :: nat where [c_consts]: "BTF_KIND_UNION = 5"
definition BTF_KIND_ENUM :: nat where [c_consts]: "BTF_KIND_ENUM = 6"
definition BTF_KIND_FWD :: nat where [c_consts]: "BTF_KIND_FWD = 7"
definition BTF_KIND_TYPEDEF :: nat where [c_consts]: "BTF_KIND_TYPEDEF = 8"
definition BTF_KIND_VOLATILE :: nat where [c_consts]: "BTF_KIND_VOLATILE = 9"
definition BTF_KIND_CONST :: nat where [c_consts]: "BTF_KIND_CONST = 10"
definition BTF_KIND_RESTRICT :: nat where [c_consts]: "BTF_KIND_RESTRICT = 11"
definition BTF_KIND_FUNC :: nat where [c_consts]: "BTF_KIND_FUNC = 12"
definition BTF_KIND_FUNC_PROTO :: nat where [c_consts]: "BTF_KIND_FUNC_PROTO = 13"
definition BTF_KIND_VAR :: nat where [c_consts]: "BTF_KIND_VAR = 14"
definition BTF_KIND_DATASEC :: nat where [c_consts]: "BTF_KIND_DATASEC = 15"
definition BTF_KIND_FLOAT :: nat where [c_consts]: "BTF_KIND_FLOAT = 16"
definition BTF_KIND_DECL_TAG :: nat where [c_consts]: "BTF_KIND_DECL_TAG = 17"
definition BTF_KIND_TYPE_TAG :: nat where [c_consts]: "BTF_KIND_TYPE_TAG = 18"

definition btf_kind :: "btf_type \<Rightarrow> nat" where
  "btf_kind t = unat (drop_bit 24 (info t) AND 0x1f)"

definition btf_vlen :: "btf_type \<Rightarrow> nat" where
  "btf_vlen t = unat (info t AND 0xffff)"

definition btf_kflag :: "btf_type \<Rightarrow> bool" where
  "btf_kflag t \<longleftrightarrow> drop_bit 31 (info t) \<noteq> 0"

definition btf_is_int :: "btf_type \<Rightarrow> bool" where "btf_is_int t \<longleftrightarrow> btf_kind t = BTF_KIND_INT"
definition btf_is_ptr :: "btf_type \<Rightarrow> bool" where "btf_is_ptr t \<longleftrightarrow> btf_kind t = BTF_KIND_PTR"
definition btf_is_array :: "btf_type \<Rightarrow> bool" where "btf_is_array t \<longleftrightarrow> btf_kind t = BTF_KIND_ARRAY"
definition btf_is_enum :: "btf_type \<Rightarrow> bool" where "btf_is_enum t \<longleftrightarrow> btf_kind t = BTF_KIND_ENUM"
definition btf_is_fwd :: "btf_type \<Rightarrow> bool" where "btf_is_fwd t \<longleftrightarrow> btf_kind t = BTF_KIND_FWD"
definition btf_is_typedef :: "btf_type \<Rightarrow> bool" where "btf_is_typedef t \<longleftrightarrow> btf_kind t = BTF_KIND_TYPEDEF"
definition btf_is_var :: "btf_type \<Rightarrow> bool" where "btf_is_var t \<longleftrightarrow> btf_kind t = BTF_KIND_VAR"

definition btf_is_composite :: "btf_type \<Rightarrow> bool" where
  "btf_is_composite t \<longleftrightarrow> btf_kind t = BTF_KIND_STRUCT \<or> btf_kind t = BTF_KIND_UNION"

definition btf_is_mod :: "btf_type \<Rightarrow> bool" where
  "btf_is_mod t \<longleftrightarrow> btf_kind t = BTF_KIND_VOLATILE \<or> btf_kind t = BTF_KIND_CONST \<or>
     btf_kind t = BTF_KIND_RESTRICT \<or> btf_kind t = BTF_KIND_TYPE_TAG"

text \<open>The words behind the header: an integer's description, array, members, enumerators.\<close>

definition BTF_INT_SIGNED :: u32 where [c_consts]: "BTF_INT_SIGNED = 1"

definition btf_int_encoding :: "btf_type \<Rightarrow> u32 option" where
  "btf_int_encoding t = do { v \<leftarrow> rd (extra t) 0; Some (drop_bit 24 (v AND 0x0f000000)) }"

definition btf_int_offset :: "btf_type \<Rightarrow> u32 option" where
  "btf_int_offset t = do { v \<leftarrow> rd (extra t) 0; Some (drop_bit 16 (v AND 0x00ff0000)) }"

definition array_type :: "btf_type \<Rightarrow> u32 option" where "array_type t = rd (extra t) 0"
definition array_nelems :: "btf_type \<Rightarrow> u32 option" where "array_nelems t = rd (extra t) 2"

definition member_name_off :: "btf_type \<Rightarrow> nat \<Rightarrow> u32 option" where
  "member_name_off t i = rd (extra t) (3 * i)"
definition member_type :: "btf_type \<Rightarrow> nat \<Rightarrow> u32 option" where
  "member_type t i = rd (extra t) (3 * i + 1)"
definition member_offset :: "btf_type \<Rightarrow> nat \<Rightarrow> u32 option" where
  "member_offset t i = rd (extra t) (3 * i + 2)"

definition enum_name_off :: "btf_type \<Rightarrow> nat \<Rightarrow> u32 option" where
  "enum_name_off t i = rd (extra t) (2 * i)"
definition enum_val :: "btf_type \<Rightarrow> nat \<Rightarrow> u32 option" where
  "enum_val t i = rd (extra t) (2 * i + 1)"

definition param_type :: "btf_type \<Rightarrow> nat \<Rightarrow> u32 option" where
  "param_type t i = rd (extra t) (2 * i + 1)"

definition btf_member_bit_offset :: "btf_type \<Rightarrow> nat \<Rightarrow> u32 option" where
  "btf_member_bit_offset t member_idx = do {
     off \<leftarrow> member_offset t member_idx;
     Some (if btf_kflag t then off AND 0xffffff else off)
   }"

definition btf_member_bitfield_size :: "btf_type \<Rightarrow> nat \<Rightarrow> u32 option" where
  "btf_member_bitfield_size t member_idx = do {
     off \<leftarrow> member_offset t member_idx;
     Some (if btf_kflag t then drop_bit 24 off else 0)
   }"

text \<open>The bytes a type takes, header included.\<close>

definition btf_type_size :: "btf_type \<Rightarrow> int" where
  "btf_type_size t =
     (let base_size = 12; vlen = int (btf_vlen t); k = btf_kind t
       in if k \<in> {BTF_KIND_FWD, BTF_KIND_CONST, BTF_KIND_VOLATILE, BTF_KIND_RESTRICT, BTF_KIND_PTR,
                   BTF_KIND_TYPEDEF, BTF_KIND_FUNC, BTF_KIND_FLOAT, BTF_KIND_TYPE_TAG} then base_size
          else if k = BTF_KIND_INT then base_size + 4
          else if k = BTF_KIND_ENUM then base_size + vlen * 8
          else if k = BTF_KIND_ARRAY then base_size + 12
          else if k \<in> {BTF_KIND_STRUCT, BTF_KIND_UNION} then base_size + vlen * 12
          else if k = BTF_KIND_FUNC_PROTO then base_size + vlen * 8
          else if k = BTF_KIND_VAR then base_size + 4
          else if k = BTF_KIND_DATASEC then base_size + vlen * 12
          else if k = BTF_KIND_DECL_TAG then base_size + 4
          else - EINVAL)"

section \<open>BTF objects\<close>

datatype btf = Btf (base_btf: "btf option") (start_id: nat) (btf_types: "btf_type list")
  (start_str_off: nat) (btf_strs: "u8 list") (ptr_sz: int)

definition btf_void :: btf_type where
  "btf_void = \<lparr>name_off = 0, info = 0, size_type = 0, extra = []\<rparr>"

definition btf_type_cnt :: "btf \<Rightarrow> nat" where
  "btf_type_cnt btf = start_id btf + length (btf_types btf)"

fun btf_type_by_id :: "btf \<Rightarrow> nat \<Rightarrow> btf_type option" where
  "btf_type_by_id (Btf base start types so strs ps) type_id =
     (if type_id = 0 then Some btf_void
      else if type_id < start then
        (case base of None \<Rightarrow> None | Some b \<Rightarrow> btf_type_by_id b type_id)
      else rd types (type_id - start))"

text \<open>\<^verbatim>\<open>btf__type_by_id\<close>: the inner \<open>None\<close> is the NULL it returns for an unknown identifier.\<close>

definition type_by_id :: "btf \<Rightarrow> nat \<Rightarrow> btf_type option option" where
  "type_by_id btf type_id =
     (if type_id \<ge> btf_type_cnt btf then Some None
      else do { t \<leftarrow> btf_type_by_id btf type_id; Some (Some t) })"

text \<open>A load through such a pointer.\<close>

definition type_at :: "btf \<Rightarrow> nat \<Rightarrow> btf_type option" where
  "type_at btf type_id = do { p \<leftarrow> type_by_id btf type_id; p }"

text \<open>
  \<^verbatim>\<open>btf__str_by_offset\<close>; a string without a terminator in its section would be read beyond the
  section's end.
\<close>

fun str_by_offset :: "btf \<Rightarrow> nat \<Rightarrow> u8 list option option" where
  "str_by_offset (Btf base start types so strs ps) offset =
     (if offset < so then
        (case base of None \<Rightarrow> None | Some b \<Rightarrow> str_by_offset b offset)
      else if offset - so < length strs then
        (if 0 \<in> set (drop (offset - so) strs) then Some (Some (str_at strs (offset - so))) else None)
      else Some None)"

definition btf_name_by_offset :: "btf \<Rightarrow> nat \<Rightarrow> u8 list option option" where
  "btf_name_by_offset btf offset = str_by_offset btf offset"

section \<open>Queries\<close>

text \<open>A string literal of the C code.\<close>

definition lit :: "string \<Rightarrow> u8 list" where
  "lit s = map of_char s"

fun find_long :: "btf \<Rightarrow> nat list \<Rightarrow> int option" where
  "find_long btf [] = Some (- 1)"
| "find_long btf (i # is) = do {
     t \<leftarrow> type_at btf i;
     if \<not> btf_is_int t then find_long btf is
     else do {
       name \<leftarrow> btf_name_by_offset btf (unat (name_off t));
       case name of
         None \<Rightarrow> find_long btf is
       | Some s \<Rightarrow>
           if (s = lit ''long int'' \<or> s = lit ''long unsigned int'') \<and>
              (size_type t = 4 \<or> size_type t = 8)
           then Some (uint (size_type t)) else find_long btf is
     }
   }"

definition determine_ptr_size :: "btf \<Rightarrow> int option" where
  "determine_ptr_size btf =
     (case base_btf btf of
        Some b \<Rightarrow> if ptr_sz b > 0 then Some (ptr_sz b) else find_long btf [1..<btf_type_cnt btf]
      | None \<Rightarrow> find_long btf [1..<btf_type_cnt btf])"

text \<open>
  The pointer size; \<^verbatim>\<open>ptr_sz\<close> is 0 until it has been determined. It is 8 on the 64-bit hosts
  modelled when the types do not tell. The code keeps what it has determined in \<^verbatim>\<open>ptr_sz\<close>; here it
  is determined anew, with the same result while the types stay as they are.
\<close>

definition btf_ptr_sz :: "btf \<Rightarrow> int option" where
  "btf_ptr_sz btf = do {
     p \<leftarrow> (if ptr_sz btf = 0 then determine_ptr_size btf else Some (ptr_sz btf));
     Some (if p < 0 then 8 else p)
   }"

definition MAX_RESOLVE_DEPTH :: nat where [c_consts]: "MAX_RESOLVE_DEPTH = 32"
definition UINT32_MAX :: nat where [c_consts]: "UINT32_MAX = 2 ^ 32 - 1"

definition finish_size :: "nat \<Rightarrow> int \<Rightarrow> int" where
  "finish_size nelems bytes =
     (if bytes < 0 then - EINVAL
      else if nelems \<noteq> 0 \<and> bytes > int (UINT32_MAX div nelems) then - E2BIG
      else int nelems * bytes)"

text \<open>The loop of \<^verbatim>\<open>btf__resolve_size\<close>, with the rounds it has left.\<close>

fun resolve_size_loop :: "btf \<Rightarrow> nat \<Rightarrow> btf_type option \<Rightarrow> nat \<Rightarrow> int option" where
  "resolve_size_loop btf 0 p nelems = Some (finish_size nelems (- 1))"
| "resolve_size_loop btf (Suc n) p nelems =
     (case p of
        None \<Rightarrow> Some (finish_size nelems (- 1))
      | Some t \<Rightarrow>
          let k = btf_kind t
           in if k = BTF_KIND_UNKN \<or> btf_is_fwd t then Some (finish_size nelems (- 1))
              else if k \<in> {BTF_KIND_INT, BTF_KIND_STRUCT, BTF_KIND_UNION, BTF_KIND_ENUM,
                           BTF_KIND_DATASEC, BTF_KIND_FLOAT}
              then Some (finish_size nelems (uint (size_type t)))
              else if k = BTF_KIND_PTR
              then do { bytes \<leftarrow> btf_ptr_sz btf; Some (finish_size nelems bytes) }
              else if k \<in> {BTF_KIND_TYPEDEF, BTF_KIND_VOLATILE, BTF_KIND_CONST, BTF_KIND_RESTRICT,
                           BTF_KIND_VAR, BTF_KIND_DECL_TAG, BTF_KIND_TYPE_TAG}
              then do {
                p \<leftarrow> type_by_id btf (unat (size_type t));
                resolve_size_loop btf n p nelems
              }
              else if k = BTF_KIND_ARRAY
              then do {
                a \<leftarrow> array_nelems t;
                if nelems \<noteq> 0 \<and> unat a > UINT32_MAX div nelems then Some (- E2BIG)
                else do {
                  e \<leftarrow> array_type t;
                  p \<leftarrow> type_by_id btf (unat e);
                  resolve_size_loop btf n p (nelems * unat a)
                }
              }
              else Some (- EINVAL))"

definition resolve_size :: "btf \<Rightarrow> nat \<Rightarrow> int option" where
  "resolve_size btf type_id = do {
     p \<leftarrow> type_by_id btf type_id;
     resolve_size_loop btf MAX_RESOLVE_DEPTH p 1
   }"

text \<open>\<^verbatim>\<open>btf__resolve_type\<close>; the loop with the rounds it has left.\<close>

fun resolve_type_loop :: "btf \<Rightarrow> nat \<Rightarrow> nat \<Rightarrow> btf_type option \<Rightarrow> int option" where
  "resolve_type_loop btf 0 type_id p = Some (- EINVAL)"
| "resolve_type_loop btf (Suc n) type_id p =
     (case p of
        None \<Rightarrow> Some (- EINVAL)
      | Some t \<Rightarrow>
          if btf_kind t = BTF_KIND_UNKN \<or> btf_is_fwd t then Some (- EINVAL)
          else if btf_is_mod t \<or> btf_is_typedef t \<or> btf_is_var t
          then do {
            p \<leftarrow> type_by_id btf (unat (size_type t));
            resolve_type_loop btf n (unat (size_type t)) p
          }
          else Some (int type_id))"

definition resolve_type :: "btf \<Rightarrow> nat \<Rightarrow> int option" where
  "resolve_type btf type_id = do {
     p \<leftarrow> type_by_id btf type_id;
     resolve_type_loop btf MAX_RESOLVE_DEPTH type_id p
   }"

text \<open>
  \<^verbatim>\<open>skip_mods_and_typedefs\<close> (\<^verbatim>\<open>libbpf.c\<close>): the type behind modifiers and typedefs, and its
  identifier. It may not return, and it follows the NULL of an unknown identifier.
\<close>

partial_function (option) skip_mods_and_typedefs :: "btf \<Rightarrow> nat \<Rightarrow> (btf_type \<times> nat) option" where
  "skip_mods_and_typedefs btf type_id = do {
     t \<leftarrow> type_at btf type_id;
     if btf_is_mod t \<or> btf_is_typedef t then skip_mods_and_typedefs btf (unat (size_type t))
     else Some (t, type_id)
   }"

text \<open>\<^verbatim>\<open>btf__find_by_name\<close> and \<^verbatim>\<open>btf_find_by_name_kind\<close>: the loops over the identifiers.\<close>

fun find_name :: "btf \<Rightarrow> (btf_type \<Rightarrow> bool) \<Rightarrow> u8 list \<Rightarrow> nat list \<Rightarrow> int option" where
  "find_name btf ok type_name [] = Some (- ENOENT)"
| "find_name btf ok type_name (i # is) = do {
     t \<leftarrow> type_at btf i;
     if \<not> ok t then find_name btf ok type_name is
     else do {
       name \<leftarrow> btf_name_by_offset btf (unat (name_off t));
       if name = Some type_name then Some (int i) else find_name btf ok type_name is
     }
   }"

definition btf_find_by_name :: "btf \<Rightarrow> u8 list \<Rightarrow> int option" where
  "btf_find_by_name btf type_name =
     (if type_name = lit ''void'' then Some 0
      else find_name btf (\<lambda>t. True) type_name [1..<btf_type_cnt btf])"

definition btf_find_by_name_kind :: "btf \<Rightarrow> nat \<Rightarrow> u8 list \<Rightarrow> nat \<Rightarrow> int option" where
  "btf_find_by_name_kind btf start type_name kind =
     (if kind = BTF_KIND_UNKN \<or> type_name = lit ''void'' then Some 0
      else find_name btf (\<lambda>t. btf_kind t = kind) type_name [start..<btf_type_cnt btf])"

section \<open>Well-formed BTF\<close>

text \<open>
  What \<^verbatim>\<open>btf_new\<close> makes sure of: identifiers and string offsets continue those of the base,
  every type has the words its kind and \<^verbatim>\<open>vlen\<close> call for, and string sections end with NUL.
\<close>

definition type_ok :: "btf_type \<Rightarrow> bool" where
  "type_ok t \<longleftrightarrow> btf_type_size t = 12 + 4 * int (length (extra t))"

definition str_end :: "btf \<Rightarrow> nat" where
  "str_end btf = start_str_off btf + length (btf_strs btf)"

fun btf_ok :: "btf \<Rightarrow> bool" where
  "btf_ok (Btf base start types so strs ps) \<longleftrightarrow>
     (case base of None \<Rightarrow> start = 1 \<and> so = 0
      | Some b \<Rightarrow> btf_ok b \<and> start = btf_type_cnt b \<and> so = str_end b) \<and>
     list_all type_ok types \<and> (strs = [] \<or> last strs = 0)"

lemma btf_kind_less: "btf_kind t < 32"
proof -
  have "drop_bit 24 (info t) AND 0x1f = take_bit 5 (drop_bit 24 (info t))"
    using take_bit_eq_mask [of 5 "drop_bit 24 (info t)"] by (simp add: mask_eq_exp_minus_1)
  then have "btf_kind t = take_bit 5 (unat (drop_bit 24 (info t)))"
    by (simp add: btf_kind_def unsigned_take_bit_eq)
  then show ?thesis by (simp add: take_bit_nat_less_exp [of 5, simplified])
qed

lemma btf_ok_start: "btf_ok btf \<Longrightarrow> 0 < start_id btf"
  by (induction btf rule: btf_ok.induct) (auto simp: btf_type_cnt_def split: option.splits)

lemma type_by_id_ok:
  "btf_ok btf \<Longrightarrow> type_id < btf_type_cnt btf \<Longrightarrow>
     \<exists>t. btf_type_by_id btf type_id = Some t \<and> (type_id \<noteq> 0 \<longrightarrow> type_ok t)"
proof (induction btf arbitrary: type_id rule: btf_ok.induct)
  case (1 base start types so strs ps)
  consider "type_id = 0" | "0 < type_id" "type_id < start" | "0 < type_id" "start \<le> type_id" by linarith
  then show ?case
  proof cases
    case 2
    then obtain b where b: "base = Some b" using 1(2) by (auto split: option.splits)
    then have "\<exists>t. btf_type_by_id b type_id = Some t \<and> (type_id \<noteq> 0 \<longrightarrow> type_ok t)"
      using 1(1) [OF b, of type_id] 1(2) 2 b by simp
    then show ?thesis using 2 b by simp
  next
    case 3
    then have "type_id - start < length types" using 1(3) by (simp add: btf_type_cnt_def)
    then show ?thesis using 1(2) 3 by (auto simp: list_all_length)
  qed simp
qed

lemma type_at_ok:
  assumes "btf_ok btf" "type_id < btf_type_cnt btf"
  obtains t where "type_at btf type_id = Some t" "type_id \<noteq> 0 \<Longrightarrow> type_ok t"
  using type_by_id_ok [OF assms] assms(2) by (auto simp: type_at_def type_by_id_def bind_Some_iff)

lemma type_at_unknown: "btf_type_cnt btf \<le> type_id \<Longrightarrow> type_at btf type_id = None"
  by (simp add: type_at_def type_by_id_def)

lemma str_by_offset_ok:
  "btf_ok btf \<Longrightarrow> \<exists>s. str_by_offset btf offset = Some s \<and> (s = None \<longleftrightarrow> str_end btf \<le> offset) \<and>
     (\<forall>x. s = Some x \<longrightarrow> 0 \<notin> set x)"
proof (induction btf rule: btf_ok.induct)
  case (1 base start types so strs ps)
  consider (base) "offset < so" | (own) "so \<le> offset" "offset < so + length strs"
    | (none) "so + length strs \<le> offset"
    by linarith
  then show ?case
  proof cases
    case base
    then obtain b where b: "base = Some b" using 1(2) by (auto split: option.splits)
    then obtain s where "str_by_offset b offset = Some s" "s = None \<longleftrightarrow> str_end b \<le> offset"
      "\<forall>x. s = Some x \<longrightarrow> 0 \<notin> set x" using 1(1) [OF b] 1(2) by auto
    moreover have "offset < str_end b" using base b 1(2) by simp
    ultimately show ?thesis using base b by (simp add: str_end_def)
  next
    case own
    then have "0 \<in> set (drop (offset - so) strs)"
      using 1(2) last_in_set [of "drop (offset - so) strs"] by (auto simp: last_drop)
    then show ?thesis using own by (auto simp: str_end_def str_at_def dest: set_takeWhileD)
  next
    case none
    then show ?thesis by (auto simp: str_end_def)
  qed
qed

section \<open>Sizes\<close>

text \<open>
  \<open>sized btf t b n\<close>: a type occupies \<open>b\<close> bytes, found through \<open>n\<close> modifiers, typedefs and arrays.
\<close>

inductive sized :: "btf \<Rightarrow> btf_type \<Rightarrow> nat \<Rightarrow> nat \<Rightarrow> bool" for btf where
  leaf: "btf_kind t \<in> {BTF_KIND_INT, BTF_KIND_STRUCT, BTF_KIND_UNION, BTF_KIND_ENUM,
            BTF_KIND_DATASEC, BTF_KIND_FLOAT} \<Longrightarrow> sized btf t (unat (size_type t)) 0"
| pointer: "btf_kind t = BTF_KIND_PTR \<Longrightarrow> btf_ptr_sz btf = Some (int b) \<Longrightarrow> sized btf t b 0"
| modifier: "btf_kind t \<in> {BTF_KIND_TYPEDEF, BTF_KIND_VOLATILE, BTF_KIND_CONST, BTF_KIND_RESTRICT,
            BTF_KIND_VAR, BTF_KIND_DECL_TAG, BTF_KIND_TYPE_TAG} \<Longrightarrow>
          type_at btf (unat (size_type t)) = Some t' \<Longrightarrow> sized btf t' b n \<Longrightarrow> sized btf t b (Suc n)"
| elements: "btf_kind t = BTF_KIND_ARRAY \<Longrightarrow> array_nelems t = Some a \<Longrightarrow> array_type t = Some e \<Longrightarrow>
          type_at btf (unat e) = Some t' \<Longrightarrow> sized btf t' b n \<Longrightarrow> sized btf t (unat a * b) (Suc n)"

inductive_simps sized_0: "sized btf t b 0"
inductive_simps sized_Suc: "sized btf t b (Suc n)"

lemma kind_cases:
  obtains "btf_kind t = BTF_KIND_UNKN \<or> btf_is_fwd t"
    | "btf_kind t \<in> {BTF_KIND_INT, BTF_KIND_STRUCT, BTF_KIND_UNION, BTF_KIND_ENUM,
            BTF_KIND_DATASEC, BTF_KIND_FLOAT}"
    | "btf_kind t = BTF_KIND_PTR"
    | "btf_kind t \<in> {BTF_KIND_TYPEDEF, BTF_KIND_VOLATILE, BTF_KIND_CONST, BTF_KIND_RESTRICT,
            BTF_KIND_VAR, BTF_KIND_DECL_TAG, BTF_KIND_TYPE_TAG}"
    | "btf_kind t = BTF_KIND_ARRAY"
    | "btf_kind t = BTF_KIND_FUNC \<or> btf_kind t = BTF_KIND_FUNC_PROTO \<or> 18 < btf_kind t"
proof -
  have "btf_kind t \<le> 18 \<or> 18 < btf_kind t" by linarith
  then show thesis
    using that unfolding btf_is_fwd_def c_consts by (simp add: le_Suc_eq numeral_eq_Suc) blast
qed

lemma type_by_id_Some: "type_by_id btf i = Some (Some t) \<longleftrightarrow> type_at btf i = Some t"
  by (auto simp: type_at_def bind_Some_iff)

lemma btf_ptr_sz_nonneg: "btf_ptr_sz btf = Some p \<Longrightarrow> 0 \<le> p"
  by (auto simp: btf_ptr_sz_def bind_Some_iff split: if_splits)

lemma finish_size_nonneg:
  assumes "finish_size nelems b = r" "0 < r"
  shows "0 \<le> b" "r = int nelems * b" "r \<le> int UINT32_MAX"
proof -
  show b: "0 \<le> b" and r: "r = int nelems * b" using assms by (auto simp: finish_size_def split: if_splits)
  have "b \<le> int (UINT32_MAX div nelems)" using assms by (auto simp: finish_size_def split: if_splits)
  then have "int nelems * b \<le> int nelems * int (UINT32_MAX div nelems)" by (intro mult_left_mono) auto
  also have "\<dots> \<le> int UINT32_MAX" by (simp flip: of_nat_mult)
  finally show "r \<le> int UINT32_MAX" using r by simp
qed

lemma finish_size_fits:
  assumes "nelems * b \<le> UINT32_MAX"
  shows "finish_size nelems (int b) = int (nelems * b)"
proof (cases "nelems = 0")
  case False
  then have "b \<le> UINT32_MAX div nelems"
    using assms by (simp add: less_eq_div_iff_mult_less_eq mult.commute)
  then show ?thesis by (simp add: finish_size_def)
qed (simp add: finish_size_def)

lemmas kind_consts = BTF_KIND_UNKN_def BTF_KIND_INT_def BTF_KIND_PTR_def BTF_KIND_ARRAY_def
  BTF_KIND_STRUCT_def BTF_KIND_UNION_def BTF_KIND_ENUM_def BTF_KIND_FWD_def BTF_KIND_TYPEDEF_def
  BTF_KIND_VOLATILE_def BTF_KIND_CONST_def BTF_KIND_RESTRICT_def BTF_KIND_FUNC_def
  BTF_KIND_FUNC_PROTO_def BTF_KIND_VAR_def BTF_KIND_DATASEC_def BTF_KIND_FLOAT_def
  BTF_KIND_DECL_TAG_def BTF_KIND_TYPE_TAG_def

text \<open>One round of the loop, by the kind of the type.\<close>

lemma resolve_size_step:
  shows "btf_kind t \<in> {BTF_KIND_INT, BTF_KIND_STRUCT, BTF_KIND_UNION, BTF_KIND_ENUM,
      BTF_KIND_DATASEC, BTF_KIND_FLOAT} \<Longrightarrow>
      resolve_size_loop btf (Suc m) (Some t) nelems = Some (finish_size nelems (uint (size_type t)))"
    and "btf_kind t = BTF_KIND_PTR \<Longrightarrow> resolve_size_loop btf (Suc m) (Some t) nelems =
      do { b \<leftarrow> btf_ptr_sz btf; Some (finish_size nelems b) }"
    and "btf_kind t \<in> {BTF_KIND_TYPEDEF, BTF_KIND_VOLATILE, BTF_KIND_CONST, BTF_KIND_RESTRICT,
      BTF_KIND_VAR, BTF_KIND_DECL_TAG, BTF_KIND_TYPE_TAG} \<Longrightarrow>
      resolve_size_loop btf (Suc m) (Some t) nelems =
      do { p \<leftarrow> type_by_id btf (unat (size_type t)); resolve_size_loop btf m p nelems }"
    and "btf_kind t = BTF_KIND_ARRAY \<Longrightarrow> resolve_size_loop btf (Suc m) (Some t) nelems = do {
      a \<leftarrow> array_nelems t;
      if nelems \<noteq> 0 \<and> unat a > UINT32_MAX div nelems then Some (- E2BIG)
      else do { e \<leftarrow> array_type t; p \<leftarrow> type_by_id btf (unat e);
                resolve_size_loop btf m p (nelems * unat a) } }"
    and "btf_kind t = BTF_KIND_UNKN \<or> btf_is_fwd t \<or> btf_kind t = BTF_KIND_FUNC \<or>
      btf_kind t = BTF_KIND_FUNC_PROTO \<or> 18 < btf_kind t \<Longrightarrow>
      resolve_size_loop btf (Suc m) (Some t) nelems = Some (- EINVAL)"
  by (auto simp: kind_consts btf_is_fwd_def finish_size_def Let_def)

declare resolve_size_loop.simps(2) [simp del]

lemma resolve_size_NULL: "resolve_size_loop btf m None nelems = Some (- EINVAL)"
  by (cases m) (simp_all add: finish_size_def resolve_size_loop.simps(2))

lemma resolve_size_loop_sound:
  "resolve_size_loop btf m p nelems = Some r \<Longrightarrow> 0 < r \<Longrightarrow>
     \<exists>t b n. p = Some t \<and> sized btf t b n \<and> n < m \<and> r = int (nelems * b) \<and> r \<le> int UINT32_MAX"
proof (induction m arbitrary: p nelems)
  case 0
  then show ?case by (simp add: finish_size_def)
next
  case (Suc m)
  obtain t where p: "p = Some t" using Suc.prems by (cases p) (auto simp: resolve_size_NULL)
  show ?case
  proof (cases rule: kind_cases [of t])
    case 2
    then have r: "finish_size nelems (uint (size_type t)) = r"
      using Suc.prems(1) resolve_size_step(1) [OF 2, of btf m nelems] p by simp
    have "r = int (nelems * unat (size_type t))" "r \<le> int UINT32_MAX"
      using finish_size_nonneg [OF r Suc.prems(2)] by simp_all
    then show ?thesis using leaf [OF 2, of btf] p by blast
  next
    case 3
    obtain b where b: "btf_ptr_sz btf = Some b" "finish_size nelems b = r"
      using Suc.prems(1) resolve_size_step(2) [OF 3, of btf m nelems] p by (auto simp: bind_Some_iff)
    then have "btf_ptr_sz btf = Some (int (nat b))" using btf_ptr_sz_nonneg by auto
    then have "sized btf t (nat b) 0" using 3 by (intro pointer)
    then show ?thesis
      using finish_size_nonneg [OF b(2) Suc.prems(2)] p by (intro exI conjI) auto
  next
    case 4
    obtain p' where p': "type_by_id btf (unat (size_type t)) = Some p'"
      "resolve_size_loop btf m p' nelems = Some r"
      using Suc.prems(1) resolve_size_step(3) [OF 4, of btf m nelems] p by (auto simp: bind_Some_iff)
    obtain t' b n where t': "p' = Some t'" "sized btf t' b n" "n < m" "r = int (nelems * b)"
      "r \<le> int UINT32_MAX"
      using Suc.IH [OF p'(2) Suc.prems(2)] by blast
    have "sized btf t b (Suc n)"
      using p'(1) t'(1) type_by_id_Some by (intro modifier [OF 4 _ t'(2)]) simp
    then show ?thesis using t'(3-5) p by blast
  next
    case 5
    obtain a e p' where p': "array_nelems t = Some a" "array_type t = Some e"
      "type_by_id btf (unat e) = Some p'" "resolve_size_loop btf m p' (nelems * unat a) = Some r"
      using Suc.prems resolve_size_step(4) [OF 5, of btf m nelems] p
      by (auto simp: bind_Some_iff split: if_splits)
    obtain t' b n where t': "p' = Some t'" "sized btf t' b n" "n < m"
      "r = int (nelems * unat a * b)" "r \<le> int UINT32_MAX"
      using Suc.IH [OF p'(4) Suc.prems(2)] by blast
    have "sized btf t (unat a * b) (Suc n)"
      using p'(3) t'(1) type_by_id_Some by (intro elements [OF 5 p'(1,2) _ t'(2)]) simp
    then show ?thesis using t'(3-5) p by (metis Suc_less_eq mult.assoc)
  next
    case 1
    then show ?thesis using Suc.prems p resolve_size_step(5) [of t btf m nelems] by auto
  next
    case 6
    then show ?thesis using Suc.prems p resolve_size_step(5) [of t btf m nelems] by auto
  qed
qed

lemma resolve_size_loop_complete:
  "sized btf t b n \<Longrightarrow> n < m \<Longrightarrow> 0 < nelems * b \<Longrightarrow> nelems * b \<le> UINT32_MAX \<Longrightarrow>
     resolve_size_loop btf m (Some t) nelems = Some (int (nelems * b))"
proof (induction arbitrary: m nelems rule: sized.induct)
  case (leaf t)
  then obtain m' where "m = Suc m'" by (cases m) auto
  then show ?case
    using resolve_size_step(1) [OF leaf(1)] finish_size_fits [OF leaf(4)] by simp
next
  case (pointer t b)
  then obtain m' where "m = Suc m'" by (cases m) auto
  then show ?case
    using resolve_size_step(2) [OF pointer(1)] pointer(2) finish_size_fits [OF pointer(5)] by simp
next
  case (modifier t t' b n)
  then obtain m' where m: "m = Suc m'" "n < m'" by (cases m) auto
  then show ?case
    using resolve_size_step(3) [OF modifier(1)] modifier(2) modifier.IH [OF m(2)] modifier.prems
    by (simp add: type_by_id_Some [symmetric])
next
  case (elements t a e t' b n)
  then obtain m' where m: "m = Suc m'" "n < m'" by (cases m) auto
  have "0 < b" using elements.prems(2) by simp
  then have "nelems * unat a * 1 \<le> nelems * unat a * b" by (intro mult_le_mono2) simp
  then have "nelems * unat a \<le> UINT32_MAX"
    using elements.prems(3) unfolding mult.assoc [symmetric] by linarith
  then have "unat a \<le> UINT32_MAX div nelems" "nelems \<noteq> 0"
    using elements.prems(2,3) by (simp_all add: less_eq_div_iff_mult_less_eq mult.commute mult.assoc)
  then show ?case
    using resolve_size_step(4) [OF elements(1)] elements(2-4) elements.IH [OF m(2), of "nelems * unat a"]
      elements.prems m(1)
    by (simp add: type_by_id_Some [symmetric] mult.assoc)
qed

text \<open>
  C32: the size of a type is the one its structure says: the loop answers a positive size
  exactly when the type is an integer, struct, union, enum, section, float or pointer of that
  size, or is reached from one through fewer than 32 modifiers, typedefs and arrays, array
  lengths multiplied; and only when the size fits into 32 bits.
\<close>

theorem resolve_size_iff:
  assumes "0 < b"
  shows "resolve_size btf type_id = Some (int b) \<longleftrightarrow>
    b \<le> UINT32_MAX \<and> (\<exists>t n. type_at btf type_id = Some t \<and> sized btf t b n \<and> n < MAX_RESOLVE_DEPTH)"
proof
  assume "resolve_size btf type_id = Some (int b)"
  then obtain p where p: "type_by_id btf type_id = Some p"
    "resolve_size_loop btf MAX_RESOLVE_DEPTH p 1 = Some (int b)"
    by (auto simp: resolve_size_def bind_Some_iff)
  then show "b \<le> UINT32_MAX \<and>
      (\<exists>t n. type_at btf type_id = Some t \<and> sized btf t b n \<and> n < MAX_RESOLVE_DEPTH)"
    using resolve_size_loop_sound [OF p(2)] assms p(1) type_by_id_Some by auto
next
  assume R: "b \<le> UINT32_MAX \<and>
      (\<exists>t n. type_at btf type_id = Some t \<and> sized btf t b n \<and> n < MAX_RESOLVE_DEPTH)"
  then obtain t n where t: "type_at btf type_id = Some t" "sized btf t b n" "n < MAX_RESOLVE_DEPTH"
    by blast
  then show "resolve_size btf type_id = Some (int b)"
    using resolve_size_loop_complete [OF t(2,3), of 1] R assms
    by (simp add: resolve_size_def type_by_id_Some [symmetric])
qed

lemma resolve_size_leaf:
  assumes "type_at btf i = Some t"
    and "btf_kind t \<in> {BTF_KIND_INT, BTF_KIND_STRUCT, BTF_KIND_UNION, BTF_KIND_ENUM,
      BTF_KIND_DATASEC, BTF_KIND_FLOAT}"
  shows "resolve_size btf i = Some (uint (size_type t))"
proof -
  have "unat (size_type t) < 2 ^ LENGTH(32)" by (rule unsigned_less)
  then have "1 * unat (size_type t) \<le> UINT32_MAX" by (simp add: UINT32_MAX_def)
  then have "finish_size 1 (uint (size_type t)) = uint (size_type t)"
    using finish_size_fits [of 1 "unat (size_type t)"] by simp
  then show ?thesis
    using assms resolve_size_step(1) [OF assms(2), of btf 31 1]
    by (simp add: resolve_size_def type_by_id_Some [symmetric] MAX_RESOLVE_DEPTH_def)
qed

section \<open>Modifiers and typedefs\<close>

text \<open>
  Chains of modifiers and typedefs end: each refers to a known type of smaller rank. (C types
  cannot be built otherwise; \<^verbatim>\<open>btf_new\<close> does not check it.)
\<close>

definition mods_ranked :: "(nat \<Rightarrow> nat) \<Rightarrow> btf \<Rightarrow> bool" where
  "mods_ranked rank btf \<longleftrightarrow>
     (\<forall>i t. type_at btf i = Some t \<and> (btf_is_mod t \<or> btf_is_typedef t) \<longrightarrow>
        unat (size_type t) < btf_type_cnt btf \<and> rank (unat (size_type t)) < rank i)"

lemma skip_mods_Some:
  assumes "btf_ok btf" "mods_ranked rank btf" "i < btf_type_cnt btf"
  shows "\<exists>t j. skip_mods_and_typedefs btf i = Some (t, j) \<and> type_at btf j = Some t \<and>
    j < btf_type_cnt btf \<and> \<not> btf_is_mod t \<and> \<not> btf_is_typedef t"
  using assms(3)
proof (induction "rank i" arbitrary: i rule: less_induct)
  case less
  obtain t where t: "type_at btf i = Some t" using type_at_ok [OF assms(1) less.prems] by blast
  show ?case
  proof (cases "btf_is_mod t \<or> btf_is_typedef t")
    case True
    then have "unat (size_type t) < btf_type_cnt btf" "rank (unat (size_type t)) < rank i"
      using assms(2) t unfolding mods_ranked_def by blast+
    then show ?thesis
      using less.hyps [of "unat (size_type t)"] True t by (simp add: skip_mods_and_typedefs.simps [of btf i])
  next
    case False
    then show ?thesis using t less.prems by (simp add: skip_mods_and_typedefs.simps [of btf i])
  qed
qed

lemma skip_mods_result:
  "skip_mods_and_typedefs btf i = Some (t, j) \<Longrightarrow> type_at btf j = Some t \<and> \<not> btf_is_mod t \<and> \<not> btf_is_typedef t"
proof -
  assume run: "skip_mods_and_typedefs btf i = Some (t, j)"
  have "case (t, j) of (t, j) \<Rightarrow> type_at btf j = Some t \<and> \<not> btf_is_mod t \<and> \<not> btf_is_typedef t"
  proof (rule skip_mods_and_typedefs.raw_induct [OF _ run])
    fix f b i r
    assume "\<And>b i r. f b i = Some r \<Longrightarrow>
        (case r of (t, j) \<Rightarrow> type_at b j = Some t \<and> \<not> btf_is_mod t \<and> \<not> btf_is_typedef t)"
      and "(do { t \<leftarrow> type_at b i;
               if btf_is_mod t \<or> btf_is_typedef t then f b (unat (size_type t)) else Some (t, i) }) = Some r"
    then show "case r of (t, j) \<Rightarrow> type_at b j = Some t \<and> \<not> btf_is_mod t \<and> \<not> btf_is_typedef t"
      by (auto simp: bind_Some_iff split: if_splits)
  qed
  then show ?thesis by simp
qed

text \<open>
  On well-formed BTF whose modifiers and typedefs are not cyclic, skipping them ends, at a
  type that is neither, for every known identifier; but for an unknown one it loads through a
  NULL pointer, so that the test for NULL its callers make comes too late.
\<close>

theorem skip_mods_and_typedefs_total:
  assumes "btf_ok btf" "mods_ranked rank btf"
  shows "(skip_mods_and_typedefs btf i \<noteq> None \<longleftrightarrow> i < btf_type_cnt btf) \<and>
    (\<forall>t j. skip_mods_and_typedefs btf i = Some (t, j) \<longrightarrow>
       type_at btf j = Some t \<and> \<not> btf_is_mod t \<and> \<not> btf_is_typedef t)"
proof -
  have "skip_mods_and_typedefs btf i = None" if "btf_type_cnt btf \<le> i"
    using type_at_unknown [OF that] by (simp add: skip_mods_and_typedefs.simps [of btf i])
  then have "skip_mods_and_typedefs btf i \<noteq> None \<longleftrightarrow> i < btf_type_cnt btf"
    using skip_mods_Some [OF assms, of i] by (cases "i < btf_type_cnt btf") auto
  then show ?thesis using skip_mods_result by blast
qed

section \<open>No access outside of a type\<close>

lemma extra_length:
  assumes "type_ok t"
  shows "btf_is_array t \<Longrightarrow> length (extra t) = 3"
    and "btf_is_composite t \<Longrightarrow> length (extra t) = 3 * btf_vlen t"
    and "btf_is_enum t \<Longrightarrow> length (extra t) = 2 * btf_vlen t"
    and "btf_is_int t \<Longrightarrow> length (extra t) = 1"
  using assms
  by (auto simp: type_ok_def btf_type_size_def Let_def kind_consts btf_is_array_def btf_is_composite_def
      btf_is_enum_def btf_is_int_def split: if_splits)

lemma btf_void_kind [simp]:
  "\<not> btf_is_array btf_void" "\<not> btf_is_composite btf_void" "\<not> btf_is_enum btf_void" "\<not> btf_is_int btf_void"
  by (simp_all add: btf_void_def btf_is_array_def btf_is_composite_def btf_is_enum_def btf_is_int_def
      btf_kind_def kind_consts)

lemma type_at_cases:
  assumes "btf_ok btf" "type_at btf i = Some t"
  shows "i < btf_type_cnt btf" "t = btf_void \<or> type_ok t"
proof -
  show "i < btf_type_cnt btf" using assms(2) type_at_unknown [of btf i] by (cases "i < btf_type_cnt btf") auto
  then show "t = btf_void \<or> type_ok t"
    using type_by_id_ok [OF assms(1), of i] assms(2)
    by (cases "i = 0"; cases btf) (auto simp: type_at_def type_by_id_def bind_Some_iff)
qed

lemma array_fields:
  assumes "type_ok t" "btf_is_array t"
  shows "array_type t = Some (extra t ! 0)" "array_nelems t = Some (extra t ! 2)"
  using extra_length(1) [OF assms] by (simp_all add: array_type_def array_nelems_def)

lemma member_fields:
  assumes "type_ok t" "btf_is_composite t" "i < btf_vlen t"
  shows "\<exists>off m n. btf_member_bit_offset t i = Some off \<and> member_type t i = Some m \<and> member_name_off t i = Some n"
  using extra_length(2) [OF assms(1,2)] assms(3)
  by (simp add: btf_member_bit_offset_def member_offset_def member_type_def member_name_off_def)

lemma find_long_total:
  assumes "btf_ok btf" "\<forall>i \<in> set is. i < btf_type_cnt btf"
  shows "\<exists>r. find_long btf is = Some r"
  using assms(2)
proof (induction "is")
  case (Cons i "is")
  obtain t where "type_at btf i = Some t" using type_at_ok [OF assms(1), of i] Cons.prems by auto
  moreover obtain s where "btf_name_by_offset btf (unat (name_off t)) = Some s"
    using str_by_offset_ok [OF assms(1)] by (auto simp: btf_name_by_offset_def)
  moreover obtain r where "find_long btf is = Some r" using Cons by auto
  ultimately show ?case by (auto split: option.split)
qed simp

lemma btf_ptr_sz_total: "btf_ok btf \<Longrightarrow> \<exists>p. btf_ptr_sz btf = Some p"
  using find_long_total [of btf "[1..<btf_type_cnt btf]"]
  by (auto simp: btf_ptr_sz_def determine_ptr_size_def split: option.split)

lemma type_by_id_total: "btf_ok btf \<Longrightarrow> \<exists>p. type_by_id btf i = Some p"
  using type_by_id_ok [of btf i] by (cases "i < btf_type_cnt btf") (auto simp: type_by_id_def)

lemma resolve_size_loop_total:
  assumes "btf_ok btf" "\<forall>t. p = Some t \<longrightarrow> t = btf_void \<or> type_ok t"
  shows "\<exists>r. resolve_size_loop btf m p nelems = Some r"
  using assms(2)
proof (induction m arbitrary: p nelems)
  case (Suc m)
  have next_ok: "\<exists>r. (do { p \<leftarrow> type_by_id btf i; resolve_size_loop btf m p k }) = Some r" for i k
  proof -
    obtain p where p: "type_by_id btf i = Some p" using type_by_id_total [OF assms(1)] by blast
    then have "\<forall>t. p = Some t \<longrightarrow> t = btf_void \<or> type_ok t"
      using type_at_cases(2) [OF assms(1), of i] by (auto simp: type_by_id_Some)
    then show ?thesis using Suc.IH p by simp
  qed
  show ?case
  proof (cases p)
    case None
    then show ?thesis by (simp add: resolve_size_NULL)
  next
    case (Some t)
    show ?thesis
    proof (cases rule: kind_cases [of t])
      case 5
      then have "btf_is_array t" by (simp add: btf_is_array_def)
      moreover have "type_ok t" using Suc.prems Some \<open>btf_is_array t\<close> by auto
      ultimately show ?thesis
        using resolve_size_step(4) [OF 5] Some array_fields [of t] next_ok by simp
    qed (use Some next_ok btf_ptr_sz_total [OF assms(1)] resolve_size_step [of t btf m nelems] in auto)
  qed
qed simp

lemma resolve_size_total: "btf_ok btf \<Longrightarrow> \<exists>r. resolve_size btf i = Some r"
proof -
  assume ok: "btf_ok btf"
  obtain p where p: "type_by_id btf i = Some p" using type_by_id_total [OF ok] by blast
  then have "\<forall>t. p = Some t \<longrightarrow> t = btf_void \<or> type_ok t"
    using type_at_cases(2) [OF ok, of i] by (auto simp: type_by_id_Some)
  then show ?thesis using resolve_size_loop_total [OF ok] p by (simp add: resolve_size_def)
qed

lemma resolve_size_errors:
  assumes "resolve_size btf i = Some r" "r < 0"
  shows "r = - EINVAL \<or> r = - E2BIG"
proof -
  have fin: "finish_size n b = - EINVAL \<or> finish_size n b = - E2BIG \<or> 0 \<le> finish_size n b" for n b
    by (auto simp: finish_size_def)
  have loop: "r = - EINVAL \<or> r = - E2BIG \<or> 0 \<le> r" if "resolve_size_loop btf m p n = Some r" for m p n
    using that
  proof (induction m arbitrary: p n)
    case (Suc m)
    show ?case
    proof (cases p)
      case None
      then show ?thesis using Suc.prems by (simp add: resolve_size_NULL)
    next
      case (Some t)
      show ?thesis
      proof (cases rule: kind_cases [of t])
        case 4
        then show ?thesis
          using Suc resolve_size_step(3) [OF 4] Some by (auto simp: bind_Some_iff)
      next
        case 5
        then show ?thesis
          using Suc resolve_size_step(4) [OF 5] Some by (auto simp: bind_Some_iff split: if_splits)
      qed (use Suc.prems Some fin resolve_size_step [of t btf m n] in \<open>auto simp: bind_Some_iff\<close>)
    qed
  qed (use fin in \<open>auto\<close>)
  obtain p where "resolve_size_loop btf MAX_RESOLVE_DEPTH p 1 = Some r"
    using assms(1) by (auto simp: resolve_size_def bind_Some_iff)
  from loop [OF this] show ?thesis using assms(2) by auto
qed

text \<open>Members and array elements refer to known types.\<close>

definition refs_ok :: "btf \<Rightarrow> bool" where
  "refs_ok btf \<longleftrightarrow>
     (\<forall>i t. type_at btf i = Some t \<longrightarrow>
        (btf_is_composite t \<longrightarrow> (\<forall>k < btf_vlen t. \<forall>m. member_type t k = Some m \<longrightarrow> unat m < btf_type_cnt btf)) \<and>
        (btf_is_array t \<longrightarrow> (\<forall>e. array_type t = Some e \<longrightarrow> unat e < btf_type_cnt btf)))"

section \<open>An example\<close>

definition mk_type :: "u32 \<Rightarrow> nat \<Rightarrow> nat \<Rightarrow> u32 \<Rightarrow> u32 list \<Rightarrow> btf_type" where
  "mk_type name k vlen sz ex =
     \<lparr>name_off = name, info = of_nat (2 ^ 24 * k + vlen), size_type = sz, extra = ex\<rparr>"

text \<open>\<^verbatim>\<open>typedef int t; struct s { int a; t b[3]; };\<close>\<close>

definition sample_btf :: btf where
  "sample_btf = Btf None 1
     [mk_type 1 1 0 4 [0x01000020], mk_type 5 8 0 1 [], mk_type 0 3 0 0 [2, 1, 3],
      mk_type 7 4 2 16 [9, 1, 0, 11, 3, 32]]
     0 ((lit ''_int_t_s_a_b_'')[0 := 0, 4 := 0, 6 := 0, 8 := 0, 10 := 0, 12 := 0]) 8"

lemmas sample_simps = sample_btf_def btf_type_cnt_def type_at_def type_by_id_def rd_def mk_type_def
  btf_kind_def btf_vlen_def btf_kflag_def

lemma sample_btf_ok: "btf_ok sample_btf"
  by (simp add: sample_btf_def type_ok_def btf_type_size_def kind_consts btf_kind_def btf_vlen_def
      mk_type_def lit_def)

lemma sample_type_at:
  "type_at sample_btf 1 = Some (mk_type 1 1 0 4 [0x01000020])"
  "type_at sample_btf 2 = Some (mk_type 5 8 0 1 [])"
  "type_at sample_btf 3 = Some (mk_type 0 3 0 0 [2, 1, 3])"
  "type_at sample_btf 4 = Some (mk_type 7 4 2 16 [9, 1, 0, 11, 3, 32])"
  by (simp_all add: sample_btf_def btf_type_cnt_def type_at_def type_by_id_def rd_def)

lemma sample_type_cases:
  assumes "type_at sample_btf i = Some t"
  obtains "t = btf_void" | "t = mk_type 1 1 0 4 [0x01000020]" | "t = mk_type 5 8 0 1 []"
    | "t = mk_type 0 3 0 0 [2, 1, 3]" | "t = mk_type 7 4 2 16 [9, 1, 0, 11, 3, 32]"
proof -
  have "i < 5" using assms
    by (auto simp: sample_btf_def btf_type_cnt_def type_at_def type_by_id_def split: if_splits)
  then consider "i = 0" | "i = 1" | "i = 2" | "i = 3" | "i = 4" by linarith
  then show thesis
    using assms that
    by cases (auto simp: sample_type_at sample_type_at(1) [unfolded One_nat_def],
        simp add: type_at_def type_by_id_def sample_btf_def btf_type_cnt_def)
qed

lemma refs_ok_sample: "refs_ok sample_btf"
  unfolding refs_ok_def
proof (intro allI impI)
  fix i t
  have c: "btf_type_cnt sample_btf = 5" by (simp add: sample_btf_def btf_type_cnt_def)
  assume "type_at sample_btf i = Some t"
  then show "(btf_is_composite t \<longrightarrow> (\<forall>k < btf_vlen t. \<forall>m. member_type t k = Some m \<longrightarrow>
        unat m < btf_type_cnt sample_btf)) \<and>
      (btf_is_array t \<longrightarrow> (\<forall>e. array_type t = Some e \<longrightarrow> unat e < btf_type_cnt sample_btf))"
    unfolding c
    by (cases rule: sample_type_cases)
      (auto simp: mk_type_def btf_kind_def btf_vlen_def btf_is_composite_def btf_is_array_def kind_consts
        btf_void_def member_type_def array_type_def rd_def less_2_cases_iff)
qed

lemma sample_size: "resolve_size sample_btf 1 = Some 4" "resolve_size sample_btf 4 = Some 16"
  using resolve_size_leaf [OF sample_type_at(1)] resolve_size_leaf [OF sample_type_at(4)]
  by (simp_all add: mk_type_def btf_kind_def kind_consts)

lemma sample_skip:
  "skip_mods_and_typedefs sample_btf 1 = Some (mk_type 1 1 0 4 [0x01000020], 1)"
  "skip_mods_and_typedefs sample_btf 2 = Some (mk_type 1 1 0 4 [0x01000020], 1)"
  "skip_mods_and_typedefs sample_btf 3 = Some (mk_type 0 3 0 0 [2, 1, 3], 3)"
  "skip_mods_and_typedefs sample_btf 4 = Some (mk_type 7 4 2 16 [9, 1, 0, 11, 3, 32], 4)"
  by (simp_all add: skip_mods_and_typedefs.simps [of sample_btf] sample_type_at
      sample_type_at(1) [unfolded One_nat_def] mk_type_def btf_is_mod_def btf_is_typedef_def
      btf_kind_def kind_consts)

lemma sample_names:
  "btf_name_by_offset sample_btf 9 = Some (Some (lit ''a''))"
  "btf_name_by_offset sample_btf 11 = Some (Some (lit ''b''))"
  by (simp_all add: btf_name_by_offset_def sample_btf_def lit_def str_at_def)

lemma mods_ranked_sample: "mods_ranked id sample_btf"
  unfolding mods_ranked_def
proof (intro allI impI)
  fix i t
  assume t: "type_at sample_btf i = Some t \<and> (btf_is_mod t \<or> btf_is_typedef t)"
  then have "i < 5"
    by (auto simp: sample_btf_def btf_type_cnt_def type_at_def type_by_id_def split: if_splits)
  then consider "i = 0" | "i = 1" | "i = 2" | "i = 3" | "i = 4" by linarith
  then show "unat (size_type t) < btf_type_cnt sample_btf \<and> id (unat (size_type t)) < id i"
    using t
    by cases (auto simp: sample_btf_def btf_type_cnt_def type_at_def type_by_id_def rd_def mk_type_def
        btf_kind_def btf_is_mod_def btf_is_typedef_def kind_consts btf_void_def)
qed

lemma skip_mods_and_typedefs_total_witness:
  "\<exists>t j. skip_mods_and_typedefs sample_btf 2 = Some (t, j) \<and> \<not> btf_is_typedef t"
  using skip_mods_and_typedefs_total [OF sample_btf_ok mods_ranked_sample, of 2]
  by (auto simp: sample_btf_def btf_type_cnt_def)

lemma resolve_size_iff_witness: "resolve_size sample_btf 3 = Some 12"
proof -
  have "sized sample_btf (mk_type 1 1 0 4 [0x01000020]) 4 0"
    by (simp add: sized_0 mk_type_def btf_kind_def kind_consts)
  then have "sized sample_btf (mk_type 5 8 0 1 []) 4 (Suc 0)"
    using sample_type_at(1)
    by (intro modifier) (simp_all add: mk_type_def btf_kind_def kind_consts)
  then have "sized sample_btf (mk_type 0 3 0 0 [2, 1, 3]) (unat (3 :: u32) * 4) (Suc (Suc 0))"
    using sample_type_at(2)
    by (intro elements [where e = 2])
      (simp_all add: mk_type_def btf_kind_def kind_consts array_nelems_def array_type_def rd_def)
  then show ?thesis
    using resolve_size_iff [of 12 sample_btf 3] sample_type_at(3) by (auto simp: c_consts)
qed

end
