(* ===== verification/CoreSpec.thy ===== *)
theory CoreSpec
  imports Btf
begin

text \<open>
  Field specifications of CO-RE relocations: the first half of \<^verbatim>\<open>libbpf/src/relo_core.c\<close>, with the
  name comparison and the candidate search of \<^verbatim>\<open>libbpf.c\<close>. A specification is an access path
  into a type: parsed from the string the compiler recorded (\<^verbatim>\<open>0:1:2\<close>), checked against the
  local types, and matched by name against the types of the target.

  The arrays \<^verbatim>\<open>spec\<close> and \<^verbatim>\<open>raw_spec\<close> of a specification are the lists of the entries in use, so
  their lengths are \<^verbatim>\<open>len\<close> and \<^verbatim>\<open>raw_len\<close>; an entry beyond the 64 that there is room for is
  undefined behaviour. In \<^verbatim>\<open>bpf_core_spec_match\<close> the pointer \<^verbatim>\<open>targ_acc\<close> moves with the loop, and
  the entry it points to is always the one behind the entries in use.
\<close>

section \<open>Names and flavors\<close>

definition underscore :: u8 where "underscore = 95"

text \<open>Whether a triple underscore of a flavor starts behind position \<open>i\<close> of a name.\<close>

definition is_flavor_sep :: "u8 list \<Rightarrow> nat \<Rightarrow> bool" where
  "is_flavor_sep s i \<longleftrightarrow> s ! i \<noteq> underscore \<and>
     s ! (i + 1) = underscore \<and> s ! (i + 2) = underscore \<and> s ! (i + 3) = underscore \<and>
     s ! (i + 4) \<noteq> underscore"

fun essential_len_from :: "u8 list \<Rightarrow> nat \<Rightarrow> nat" where
  "essential_len_from name 0 = length name"
| "essential_len_from name (Suc i) =
     (if is_flavor_sep name i then i + 1 else essential_len_from name i)"

definition essential_name_len :: "u8 list \<Rightarrow> nat" where
  "essential_name_len name = essential_len_from name (length name - 4)"

definition same_essential_name :: "u8 list \<Rightarrow> u8 list \<Rightarrow> bool" where
  "same_essential_name local_name targ_name \<longleftrightarrow>
     essential_name_len local_name = essential_name_len targ_name \<and>
     take (essential_name_len local_name) local_name = take (essential_name_len local_name) targ_name"

section \<open>Specifications\<close>

datatype relo_kind = BPF_CORE_FIELD_BYTE_OFFSET | BPF_CORE_FIELD_BYTE_SIZE | BPF_CORE_FIELD_EXISTS
  | BPF_CORE_FIELD_SIGNED | BPF_CORE_FIELD_LSHIFT_U64 | BPF_CORE_FIELD_RSHIFT_U64
  | BPF_CORE_TYPE_ID_LOCAL | BPF_CORE_TYPE_ID_TARGET | BPF_CORE_TYPE_EXISTS | BPF_CORE_TYPE_SIZE
  | BPF_CORE_ENUMVAL_EXISTS | BPF_CORE_ENUMVAL_VALUE | Other_relo_kind nat

definition is_field_based :: "relo_kind \<Rightarrow> bool" where
  "is_field_based kind \<longleftrightarrow> kind \<in> {BPF_CORE_FIELD_BYTE_OFFSET, BPF_CORE_FIELD_BYTE_SIZE,
     BPF_CORE_FIELD_EXISTS, BPF_CORE_FIELD_SIGNED, BPF_CORE_FIELD_LSHIFT_U64,
     BPF_CORE_FIELD_RSHIFT_U64}"

definition is_type_based :: "relo_kind \<Rightarrow> bool" where
  "is_type_based kind \<longleftrightarrow> kind \<in> {BPF_CORE_TYPE_ID_LOCAL, BPF_CORE_TYPE_ID_TARGET,
     BPF_CORE_TYPE_EXISTS, BPF_CORE_TYPE_SIZE}"

definition is_enumval_based :: "relo_kind \<Rightarrow> bool" where
  "is_enumval_based kind \<longleftrightarrow> kind \<in> {BPF_CORE_ENUMVAL_EXISTS, BPF_CORE_ENUMVAL_VALUE}"

definition BPF_CORE_SPEC_MAX_LEN :: nat where [c_consts]: "BPF_CORE_SPEC_MAX_LEN = 64"

record accessor =
  acc_type_id :: nat
  acc_idx :: u32
  acc_name :: "u8 list option"

record core_spec =
  spec_btf :: btf
  accessors :: "accessor list"
  root_type_id :: nat
  spec_kind :: relo_kind
  raw_spec :: "int list"
  bit_offset :: u32

definition push_acc :: "accessor \<Rightarrow> core_spec \<Rightarrow> core_spec option" where
  "push_acc a s = (if length (accessors s) < BPF_CORE_SPEC_MAX_LEN
                   then Some (s\<lparr>accessors := accessors s @ [a]\<rparr>) else None)"

definition is_flex_arr :: "btf \<Rightarrow> accessor \<Rightarrow> u32 \<Rightarrow> bool option" where
  "is_flex_arr btf acc nelems =
     (if acc_name acc = None \<or> nelems > 0 then Some False
      else do {
        t \<leftarrow> btf_type_by_id btf (acc_type_id acc);
        Some (acc_idx acc = of_nat (btf_vlen t) - 1)
      })"

subsection \<open>The access string\<close>

text \<open>
  \<^verbatim>\<open>sscanf\<close> with the format \<^verbatim>\<open>%d%n\<close>: white space, a sign and digits. The outer \<open>None\<close> is a number
  that an \<^verbatim>\<open>int\<close> cannot hold (undefined in C), the inner one a failed conversion.
\<close>

definition is_space :: "u8 \<Rightarrow> bool" where "is_space c \<longleftrightarrow> c = 32 \<or> 9 \<le> c \<and> c \<le> 13"
definition is_digit :: "u8 \<Rightarrow> bool" where "is_digit c \<longleftrightarrow> 48 \<le> c \<and> c \<le> 57"

definition digits_value :: "u8 list \<Rightarrow> int" where
  "digits_value ds = foldl (\<lambda>v d. 10 * v + (uint d - 48)) 0 ds"

definition scan_sign :: "u8 list \<Rightarrow> bool \<times> u8 list" where
  "scan_sign s = (case s of [] \<Rightarrow> (False, [])
     | c # cs \<Rightarrow> if c = 45 then (True, cs) else if c = 43 then (False, cs) else (False, c # cs))"

definition scan_int :: "u8 list \<Rightarrow> (int \<times> u8 list) option option" where
  "scan_int s =
     (let (neg, s) = scan_sign (dropWhile is_space s);
          ds = takeWhile is_digit s;
          v = (if neg then - digits_value ds else digits_value ds)
       in if ds = [] then Some None
          else if - (2 ^ 31) \<le> v \<and> v < 2 ^ 31 then Some (Some (v, dropWhile is_digit s))
          else None)"

lemma scan_sign_le: "length (snd (scan_sign s)) \<le> length s"
  by (cases s) (auto simp: scan_sign_def)

lemma scan_int_shorter:
  assumes "scan_int s = Some (Some (v, rest))"
  shows "length rest < length s"
proof -
  obtain neg u where u: "scan_sign (dropWhile is_space s) = (neg, u)" by fastforce
  have r: "rest = dropWhile is_digit u" "takeWhile is_digit u \<noteq> []"
    using assms unfolding scan_int_def u Let_def by (auto split: if_splits)
  have "length u \<le> length (dropWhile is_space s)"
    using scan_sign_le [of "dropWhile is_space s"] u by simp
  moreover have "length (dropWhile is_space s) \<le> length s" by (rule length_dropWhile_le)
  moreover have "length u = length (takeWhile is_digit u) + length rest"
    unfolding r(1) by (simp flip: length_append)
  then have "length rest < length u" using r(2) by simp
  ultimately show ?thesis by linarith
qed

text \<open>The loop that turns the access string into \<^verbatim>\<open>raw_spec\<close>.\<close>

function parse_raw :: "u8 list \<Rightarrow> int list \<Rightarrow> (int + int list) option" where
  "parse_raw spec_str raw =
     (if spec_str = [] then Some (Inr raw)
      else do {
        r \<leftarrow> scan_int (if hd spec_str = 58 then tl spec_str else spec_str);
        case r of
          None \<Rightarrow> Some (Inl (- EINVAL))
        | Some (access_idx, rest) \<Rightarrow>
            if length raw = BPF_CORE_SPEC_MAX_LEN then Some (Inl (- E2BIG))
            else parse_raw rest (raw @ [access_idx])
      })"
  by pat_completeness auto

termination
proof (relation "measure (\<lambda>(s, raw). length s)", goal_cases)
  case (2 spec_str raw r p idx rest)
  then have "length rest < length (if hd spec_str = 58 then tl spec_str else spec_str)"
    by (intro scan_int_shorter) auto
  then show ?case by (auto split: if_splits)
qed simp

declare parse_raw.simps [simp del]

text \<open>The format \<^verbatim>\<open>bpf_core_dump_spec\<close> prints \<^verbatim>\<open>raw_spec\<close> in.\<close>

fun decimal :: "nat \<Rightarrow> u8 list" where
  "decimal n = (if n < 10 then [48 + of_nat n] else decimal (n div 10) @ [48 + of_nat (n mod 10)])"

declare decimal.simps [simp del]

definition print_int :: "int \<Rightarrow> u8 list" where
  "print_int i = (if i < 0 then 45 # decimal (nat (- i)) else decimal (nat i))"

fun dump_raw_spec :: "int list \<Rightarrow> u8 list" where
  "dump_raw_spec [] = []"
| "dump_raw_spec [i] = print_int i"
| "dump_raw_spec (i # is) = print_int i @ 58 # dump_raw_spec is"

subsection \<open>Parsing a specification\<close>

text \<open>An index as an offset into an array: a negative one is out of bounds.\<close>

definition index :: "int \<Rightarrow> nat option" where
  "index i = (if i < 0 then None else Some (nat i))"

text \<open>
  The loop of \<^verbatim>\<open>bpf_core_parse_spec\<close> over the indices behind the first one. A negative result of
  \<^verbatim>\<open>btf__resolve_size\<close> is returned as the error. The offset of an array element is computed
  without a bound and then truncated to the 32 bits of \<^verbatim>\<open>bit_offset\<close>; the code multiplies in 64 bits,
  which gives the same 32 bits.
\<close>

fun parse_accessors :: "btf \<Rightarrow> nat \<Rightarrow> int list \<Rightarrow> core_spec \<Rightarrow> (int + core_spec) option" where
  "parse_accessors btf type_id [] spec = Some (Inr spec)"
| "parse_accessors btf type_id (access_idx # raw) spec = do {
     (t, tid) \<leftarrow> skip_mods_and_typedefs btf type_id;
     if btf_is_composite t then
       if access_idx \<ge> int (btf_vlen t) then Some (Inl (- EINVAL))
       else do {
         i \<leftarrow> index access_idx;
         off \<leftarrow> btf_member_bit_offset t i;
         let spec = spec\<lparr>bit_offset := bit_offset spec + off\<rparr>;
         name_off \<leftarrow> member_name_off t i;
         m_type \<leftarrow> member_type t i;
         if name_off \<noteq> 0 then do {
           name \<leftarrow> btf_name_by_offset btf (unat name_off);
           if name = None \<or> name = Some [] then Some (Inl (- EINVAL))
           else do {
             spec \<leftarrow> push_acc \<lparr>acc_type_id = tid, acc_idx = word_of_int access_idx, acc_name = name\<rparr> spec;
             parse_accessors btf (unat m_type) raw spec
           }
         }
         else parse_accessors btf (unat m_type) raw spec
       }
     else if btf_is_array t then do {
       e \<leftarrow> array_type t;
       nelems \<leftarrow> array_nelems t;
       (_, eid) \<leftarrow> skip_mods_and_typedefs btf (unat e);
       acc \<leftarrow> (if accessors spec = [] then None else Some (last (accessors spec)));
       flex \<leftarrow> is_flex_arr btf acc nelems;
       if \<not> flex \<and> (word_of_int access_idx :: u32) \<ge> nelems then Some (Inl (- EINVAL))
       else do {
         spec \<leftarrow> push_acc \<lparr>acc_type_id = eid, acc_idx = word_of_int access_idx, acc_name = None\<rparr> spec;
         sz \<leftarrow> resolve_size btf eid;
         if sz < 0 then Some (Inl sz)
         else parse_accessors btf eid raw
                (spec\<lparr>bit_offset := bit_offset spec + word_of_int (access_idx * sz * 8)\<rparr>)
       }
     }
     else Some (Inl (- EINVAL))
   }"

definition parse_spec :: "btf \<Rightarrow> nat \<Rightarrow> u8 list \<Rightarrow> relo_kind \<Rightarrow> (int + core_spec) option" where
  "parse_spec btf type_id spec_str relo_kind =
     (if spec_str = [] \<or> hd spec_str = 58 then Some (Inl (- EINVAL))
      else let spec = \<lparr>spec_btf = btf, accessors = [], root_type_id = type_id,
                       spec_kind = relo_kind, raw_spec = [], bit_offset = 0\<rparr>
       in if is_type_based relo_kind
          then Some (if spec_str \<noteq> [48] then Inl (- EINVAL) else Inr spec)
          else do {
            r \<leftarrow> parse_raw spec_str [];
            case r of
              Inl err \<Rightarrow> Some (Inl err)
            | Inr [] \<Rightarrow> Some (Inl (- EINVAL))
            | Inr (access_idx # raw) \<Rightarrow> do {
                let spec = spec\<lparr>raw_spec := access_idx # raw\<rparr>;
                (t, tid) \<leftarrow> skip_mods_and_typedefs btf type_id;
                if is_enumval_based relo_kind then
                  if \<not> btf_is_enum t \<or> raw \<noteq> [] \<or> access_idx \<ge> int (btf_vlen t)
                  then Some (Inl (- EINVAL))
                  else do {
                    i \<leftarrow> index access_idx;
                    off \<leftarrow> enum_name_off t i;
                    name \<leftarrow> btf_name_by_offset btf (unat off);
                    spec \<leftarrow> push_acc \<lparr>acc_type_id = tid, acc_idx = word_of_int access_idx,
                                      acc_name = name\<rparr> spec;
                    Some (Inr spec)
                  }
                else do {
                  spec \<leftarrow> push_acc \<lparr>acc_type_id = tid, acc_idx = word_of_int access_idx,
                                    acc_name = None\<rparr> spec;
                  if \<not> is_field_based relo_kind then Some (Inl (- EINVAL))
                  else do {
                    sz \<leftarrow> resolve_size btf tid;
                    if sz < 0 then Some (Inl sz)
                    else parse_accessors btf tid raw
                           (spec\<lparr>bit_offset := word_of_int (access_idx * sz * 8)\<rparr>)
                  }
                }
              }
          })"

section \<open>Compatibility of types\<close>

text \<open>\<^verbatim>\<open>bpf_core_fields_are_compat\<close>; a string operation on a NULL name is undefined.\<close>

partial_function (option) fields_are_compat :: "btf \<Rightarrow> nat \<Rightarrow> btf \<Rightarrow> nat \<Rightarrow> int option" where
  "fields_are_compat local_btf local_id targ_btf targ_id = do {
     (lt, _) \<leftarrow> skip_mods_and_typedefs local_btf local_id;
     (tt, _) \<leftarrow> skip_mods_and_typedefs targ_btf targ_id;
     if btf_is_composite lt \<and> btf_is_composite tt then Some 1
     else if btf_kind lt \<noteq> btf_kind tt then Some 0
     else if btf_kind lt = BTF_KIND_PTR \<or> btf_kind lt = BTF_KIND_FLOAT then Some 1
     else if btf_kind lt = BTF_KIND_FWD \<or> btf_kind lt = BTF_KIND_ENUM then do {
       ln \<leftarrow> btf_name_by_offset local_btf (unat (name_off lt));
       tn \<leftarrow> btf_name_by_offset targ_btf (unat (name_off tt));
       ln \<leftarrow> ln;
       tn \<leftarrow> tn;
       Some (if essential_name_len ln = 0 \<or> essential_name_len tn = 0 \<or> same_essential_name ln tn
             then 1 else 0)
     }
     else if btf_kind lt = BTF_KIND_INT then do {
       lo \<leftarrow> btf_int_offset lt;
       to \<leftarrow> btf_int_offset tt;
       Some (if lo = 0 \<and> to = 0 then 1 else 0)
     }
     else if btf_kind lt = BTF_KIND_ARRAY then do {
       le \<leftarrow> array_type lt;
       te \<leftarrow> array_type tt;
       fields_are_compat local_btf (unat le) targ_btf (unat te)
     }
     else Some 0
   }"

text \<open>
  \<^verbatim>\<open>bpf_core_types_are_compat\<close>. Its depth is limited along pointers and arrays only, a function
  type starts again with a depth of 32 for each parameter; \<open>fuel\<close> bounds the nesting of calls,
  and running out of it is \<open>None\<close>.
\<close>

fun params_are_compat :: "(nat \<Rightarrow> nat \<Rightarrow> int option) \<Rightarrow> btf \<Rightarrow> btf_type \<Rightarrow> btf \<Rightarrow> btf_type \<Rightarrow>
    nat list \<Rightarrow> int option" where
  "params_are_compat chk local_btf lt targ_btf tt [] = Some 1"
| "params_are_compat chk local_btf lt targ_btf tt (i # is) = do {
     lp \<leftarrow> param_type lt i;
     tp \<leftarrow> param_type tt i;
     (_, local_id) \<leftarrow> skip_mods_and_typedefs local_btf (unat lp);
     (_, targ_id) \<leftarrow> skip_mods_and_typedefs targ_btf (unat tp);
     err \<leftarrow> chk local_id targ_id;
     if err \<le> 0 then Some err else params_are_compat chk local_btf lt targ_btf tt is
   }"

definition same_kind_first :: "(nat \<Rightarrow> nat \<Rightarrow> int option) \<Rightarrow> btf \<Rightarrow> nat \<Rightarrow> btf \<Rightarrow> nat \<Rightarrow> int option" where
  "same_kind_first chk local_btf local_id targ_btf targ_id = do {
     lt \<leftarrow> type_at local_btf local_id;
     tt \<leftarrow> type_at targ_btf targ_id;
     if btf_kind lt \<noteq> btf_kind tt then Some 0 else chk local_id targ_id
   }"

primrec types_are_compat :: "nat \<Rightarrow> nat \<Rightarrow> btf \<Rightarrow> btf \<Rightarrow> nat \<Rightarrow> nat \<Rightarrow> int option" where
  "types_are_compat 0 depth local_btf targ_btf local_id targ_id = None"
| "types_are_compat (Suc fuel) depth local_btf targ_btf local_id targ_id =
     (if depth = 0 then Some (- EINVAL)
      else do {
        (lt, _) \<leftarrow> skip_mods_and_typedefs local_btf local_id;
        (tt, _) \<leftarrow> skip_mods_and_typedefs targ_btf targ_id;
        if btf_kind lt \<noteq> btf_kind tt then Some 0
        else if btf_kind lt \<in> {BTF_KIND_UNKN, BTF_KIND_STRUCT, BTF_KIND_UNION, BTF_KIND_ENUM,
                              BTF_KIND_FWD} then Some 1
        else if btf_kind lt = BTF_KIND_INT then do {
          lo \<leftarrow> btf_int_offset lt;
          to \<leftarrow> btf_int_offset tt;
          Some (if lo = 0 \<and> to = 0 then 1 else 0)
        }
        else if btf_kind lt = BTF_KIND_PTR
        then types_are_compat fuel (depth - 1) local_btf targ_btf (unat (size_type lt))
               (unat (size_type tt))
        else if btf_kind lt = BTF_KIND_ARRAY then do {
          le \<leftarrow> array_type lt;
          te \<leftarrow> array_type tt;
          types_are_compat fuel (depth - 1) local_btf targ_btf (unat le) (unat te)
        }
        else if btf_kind lt = BTF_KIND_FUNC_PROTO then
          if btf_vlen lt \<noteq> btf_vlen tt then Some 0
          else do {
            err \<leftarrow> params_are_compat
                    (\<lambda>l t. same_kind_first (types_are_compat fuel 32 local_btf targ_btf)
                             local_btf l targ_btf t)
                    local_btf lt targ_btf tt [0..<btf_vlen lt];
            if err \<le> 0 then Some err
            else do {
              (_, local_id) \<leftarrow> skip_mods_and_typedefs local_btf (unat (size_type lt));
              (_, targ_id) \<leftarrow> skip_mods_and_typedefs targ_btf (unat (size_type tt));
              types_are_compat fuel (depth - 1) local_btf targ_btf local_id targ_id
            }
          }
        else Some 0
      })"

definition core_types_are_compat :: "nat \<Rightarrow> btf \<Rightarrow> nat \<Rightarrow> btf \<Rightarrow> nat \<Rightarrow> int option" where
  "core_types_are_compat fuel local_btf local_id targ_btf targ_id =
     same_kind_first (types_are_compat fuel 32 local_btf targ_btf) local_btf local_id targ_btf targ_id"

section \<open>Matching a specification\<close>

text \<open>
  The loop of \<^verbatim>\<open>bpf_core_match_member\<close> over the members of a target type; \<open>go\<close> is the recursive
  call for a member without a name, and the last argument what \<^verbatim>\<open>next_targ_id\<close> points to.
\<close>

fun match_members :: "(nat \<Rightarrow> core_spec \<Rightarrow> nat \<Rightarrow> (int \<times> core_spec \<times> nat) option) \<Rightarrow> btf \<Rightarrow>
    u8 list option \<Rightarrow> nat \<Rightarrow> btf \<Rightarrow> nat \<Rightarrow> btf_type \<Rightarrow> nat list \<Rightarrow> core_spec \<Rightarrow> nat \<Rightarrow>
    (int \<times> core_spec \<times> nat) option" where
  "match_members go local_btf local_name local_type targ_btf targ_id t [] spec nxt = Some (0, spec, nxt)"
| "match_members go local_btf local_name local_type targ_btf targ_id t (i # is) spec nxt = do {
     off \<leftarrow> btf_member_bit_offset t i;
     if length (raw_spec spec) = BPF_CORE_SPEC_MAX_LEN then Some (- E2BIG, spec, nxt)
     else do {
       let spec = spec\<lparr>bit_offset := bit_offset spec + off, raw_spec := raw_spec spec @ [int i]\<rparr>;
       name_off \<leftarrow> member_name_off t i;
       m_type \<leftarrow> member_type t i;
       targ_name \<leftarrow> btf_name_by_offset targ_btf (unat name_off);
       if targ_name = None \<or> targ_name = Some [] then do {
         (found, spec, nxt) \<leftarrow> go (unat m_type) spec nxt;
         if found \<noteq> 0 then Some (found, spec, nxt)
         else match_members go local_btf local_name local_type targ_btf targ_id t is
                (spec\<lparr>bit_offset := bit_offset spec - off, raw_spec := butlast (raw_spec spec)\<rparr>) nxt
       }
       else do {
         name \<leftarrow> local_name;
         if targ_name = Some name then do {
           spec \<leftarrow> push_acc \<lparr>acc_type_id = targ_id, acc_idx = of_nat i, acc_name = targ_name\<rparr> spec;
           found \<leftarrow> fields_are_compat local_btf local_type targ_btf (unat m_type);
           Some (found, if found = 0 then spec\<lparr>accessors := butlast (accessors spec)\<rparr> else spec,
                 unat m_type)
         }
         else match_members go local_btf local_name local_type targ_btf targ_id t is
                (spec\<lparr>bit_offset := bit_offset spec - off, raw_spec := butlast (raw_spec spec)\<rparr>) nxt
       }
     }
   }"

text \<open>
  \<^verbatim>\<open>bpf_core_match_member\<close>. The code bounds the nesting itself, by the length of the target's
  access path; so 65 levels of \<open>fuel\<close> are always enough.
\<close>

primrec match_member :: "nat \<Rightarrow> btf \<Rightarrow> accessor \<Rightarrow> btf \<Rightarrow> nat \<Rightarrow> core_spec \<Rightarrow> nat \<Rightarrow>
    (int \<times> core_spec \<times> nat) option" where
  "match_member 0 local_btf local_acc targ_btf targ_id spec nxt = None"
| "match_member (Suc fuel) local_btf local_acc targ_btf targ_id spec nxt = do {
     (t, tid) \<leftarrow> skip_mods_and_typedefs targ_btf targ_id;
     if \<not> btf_is_composite t then Some (0, spec, nxt)
     else do {
       lt \<leftarrow> btf_type_by_id local_btf (acc_type_id local_acc);
       name_off \<leftarrow> member_name_off lt (unat (acc_idx local_acc));
       m_type \<leftarrow> member_type lt (unat (acc_idx local_acc));
       local_name \<leftarrow> btf_name_by_offset local_btf (unat name_off);
       match_members (match_member fuel local_btf local_acc targ_btf) local_btf local_name
         (unat m_type) targ_btf tid t [0..<btf_vlen t] spec nxt
     }
   }"

text \<open>The array part of one round of \<^verbatim>\<open>bpf_core_spec_match\<close>: the element type, or 0 for no match.\<close>

definition match_element :: "accessor \<Rightarrow> btf \<Rightarrow> nat \<Rightarrow> btf_type \<Rightarrow> nat \<Rightarrow> core_spec \<Rightarrow> nat option option" where
  "match_element local_acc targ_btf i t tid spec =
     (if i = 0 then Some (Some tid)
      else if \<not> btf_is_array t then Some None
      else do {
        e \<leftarrow> array_type t;
        nelems \<leftarrow> array_nelems t;
        prev \<leftarrow> rd (accessors spec) (i - 1);
        flex \<leftarrow> is_flex_arr targ_btf prev nelems;
        if \<not> flex \<and> acc_idx local_acc \<ge> nelems then Some None
        else do {
          (_, eid) \<leftarrow> skip_mods_and_typedefs targ_btf (unat e);
          Some (Some eid)
        }
      })"

text \<open>A \<^verbatim>\<open>__s64\<close> size stored in an \<^verbatim>\<open>int\<close>.\<close>

definition s64_to_int :: "int \<Rightarrow> int" where
  "s64_to_int n = sint (word_of_int n :: u32)"

fun match_accessors :: "btf \<Rightarrow> btf \<Rightarrow> accessor list \<Rightarrow> nat \<Rightarrow> nat \<Rightarrow> core_spec \<Rightarrow> (int \<times> core_spec) option" where
  "match_accessors local_btf targ_btf [] i targ_id spec = Some (1, spec)"
| "match_accessors local_btf targ_btf (local_acc # accs) i targ_id spec = do {
     (t, tid) \<leftarrow> skip_mods_and_typedefs targ_btf targ_id;
     if acc_name local_acc \<noteq> None then do {
       (matched, spec, nxt) \<leftarrow>
         match_member (BPF_CORE_SPEC_MAX_LEN + 1) local_btf local_acc targ_btf tid spec tid;
       if matched \<le> 0 then Some (matched, spec)
       else match_accessors local_btf targ_btf accs (i + 1) nxt spec
     }
     else do {
       r \<leftarrow> match_element local_acc targ_btf i t tid spec;
       case r of
         None \<Rightarrow> Some (0, spec)
       | Some eid \<Rightarrow>
           if length (raw_spec spec) = BPF_CORE_SPEC_MAX_LEN then Some (- E2BIG, spec)
           else do {
             spec \<leftarrow> push_acc \<lparr>acc_type_id = eid, acc_idx = acc_idx local_acc, acc_name = None\<rparr> spec;
             let spec = spec\<lparr>raw_spec := raw_spec spec @ [sint (acc_idx local_acc)]\<rparr>;
             sz64 \<leftarrow> resolve_size targ_btf eid;
             let sz = s64_to_int sz64;
             if sz < 0 then Some (sz, spec)
             else match_accessors local_btf targ_btf accs (i + 1) eid
                    (spec\<lparr>bit_offset := bit_offset spec + acc_idx local_acc * word_of_int sz * 8\<rparr>)
           }
     }
   }"

text \<open>The loop over the enumerators of the target: the first of the same essential name.\<close>

fun match_enumerator :: "btf \<Rightarrow> u8 list \<Rightarrow> btf_type \<Rightarrow> nat list \<Rightarrow> (nat \<times> u8 list) option option" where
  "match_enumerator targ_btf local_name t [] = Some None"
| "match_enumerator targ_btf local_name t (i # is) = do {
     off \<leftarrow> enum_name_off t i;
     name \<leftarrow> btf_name_by_offset targ_btf (unat off);
     targ_name \<leftarrow> name;
     if same_essential_name local_name targ_name then Some (Some (i, targ_name))
     else match_enumerator targ_btf local_name t is
   }"

definition spec_match :: "nat \<Rightarrow> core_spec \<Rightarrow> btf \<Rightarrow> nat \<Rightarrow> (int \<times> core_spec) option" where
  "spec_match fuel local_spec targ_btf targ_id =
     (let spec = \<lparr>spec_btf = targ_btf, accessors = [], root_type_id = targ_id,
                  spec_kind = spec_kind local_spec, raw_spec = [], bit_offset = 0\<rparr>
       in if is_type_based (spec_kind local_spec)
          then do {
            r \<leftarrow> core_types_are_compat fuel (spec_btf local_spec) (root_type_id local_spec) targ_btf targ_id;
            Some (r, spec)
          }
          else if is_enumval_based (spec_kind local_spec)
          then do {
            (t, tid) \<leftarrow> skip_mods_and_typedefs targ_btf targ_id;
            if \<not> btf_is_enum t then Some (0, spec)
            else do {
              acc \<leftarrow> rd (accessors local_spec) 0;
              local_name \<leftarrow> acc_name acc;
              m \<leftarrow> match_enumerator targ_btf local_name t [0..<btf_vlen t];
              case m of
                None \<Rightarrow> Some (0, spec)
              | Some (i, targ_name) \<Rightarrow> do {
                  spec \<leftarrow> push_acc \<lparr>acc_type_id = tid, acc_idx = of_nat i, acc_name = Some targ_name\<rparr> spec;
                  Some (1, spec\<lparr>raw_spec := [int i]\<rparr>)
                }
            }
          }
          else if \<not> is_field_based (spec_kind local_spec) then Some (- EINVAL, spec)
          else match_accessors (spec_btf local_spec) targ_btf (accessors local_spec) 0 targ_id spec)"

section \<open>Candidates\<close>

text \<open>
  \<^verbatim>\<open>bpf_core_add_cands\<close>: the types of a target, from an identifier on, of the same kind and
  essential name. \<open>allocs\<close> says which growths of the list succeed.
\<close>

fun add_cands :: "(nat \<Rightarrow> bool) \<Rightarrow> btf_type \<Rightarrow> u8 list \<Rightarrow> btf \<Rightarrow> nat list \<Rightarrow> (btf \<times> nat) list \<Rightarrow>
    (int \<times> (btf \<times> nat) list) option" where
  "add_cands allocs local_t local_name targ_btf [] cands = Some (0, cands)"
| "add_cands allocs local_t local_name targ_btf (i # is) cands = do {
     t \<leftarrow> type_at targ_btf i;
     if btf_kind t \<noteq> btf_kind local_t then add_cands allocs local_t local_name targ_btf is cands
     else do {
       name \<leftarrow> btf_name_by_offset targ_btf (unat (name_off t));
       case name of
         None \<Rightarrow> add_cands allocs local_t local_name targ_btf is cands
       | Some targ_name \<Rightarrow>
           if targ_name = [] \<or> \<not> same_essential_name local_name targ_name
           then add_cands allocs local_t local_name targ_btf is cands
           else if \<not> allocs (length cands) then Some (- ENOMEM, cands)
           else add_cands allocs local_t local_name targ_btf is (cands @ [(targ_btf, i)])
     }
   }"

text \<open>
  \<^verbatim>\<open>bpf_core_find_cands\<close>: in the kernel's BTF first (or the one given instead of it), and only
  when it has none in the modules' BTF; \<open>modules\<close> is what \<^verbatim>\<open>load_module_btfs\<close> leaves, or its error.
\<close>

fun module_cands :: "(nat \<Rightarrow> bool) \<Rightarrow> btf_type \<Rightarrow> u8 list \<Rightarrow> nat \<Rightarrow> btf list \<Rightarrow> (btf \<times> nat) list \<Rightarrow>
    (int + (btf \<times> nat) list) option" where
  "module_cands allocs local_t local_name start [] cands = Some (Inr cands)"
| "module_cands allocs local_t local_name start (m # ms) cands = do {
     (err, cands) \<leftarrow> add_cands allocs local_t local_name m [start..<btf_type_cnt m] cands;
     if err \<noteq> 0 then Some (Inl err) else module_cands allocs local_t local_name start ms cands
   }"

definition find_cands :: "bool \<Rightarrow> (nat \<Rightarrow> bool) \<Rightarrow> btf \<Rightarrow> btf option \<Rightarrow> int + btf list \<Rightarrow> btf \<Rightarrow> nat \<Rightarrow>
    (int + (btf \<times> nat) list) option" where
  "find_cands calloc_ok allocs vmlinux override modules local_btf local_type_id = do {
     p \<leftarrow> type_by_id local_btf local_type_id;
     case p of
       None \<Rightarrow> Some (Inl (- EINVAL))
     | Some local_t \<Rightarrow> do {
         name \<leftarrow> btf_name_by_offset local_btf (unat (name_off local_t));
         case name of
           None \<Rightarrow> Some (Inl (- EINVAL))
         | Some local_name \<Rightarrow>
             if local_name = [] then Some (Inl (- EINVAL))
             else if \<not> calloc_ok then Some (Inl (- ENOMEM))
             else do {
               let main_btf = (case override of Some b \<Rightarrow> b | None \<Rightarrow> vmlinux);
               (err, cands) \<leftarrow> add_cands allocs local_t local_name main_btf [1..<btf_type_cnt main_btf] [];
               if err \<noteq> 0 then Some (Inl err)
               else if cands \<noteq> [] \<or> override \<noteq> None then Some (Inr cands)
               else case modules of
                 Inl err \<Rightarrow> Some (Inl err)
               | Inr ms \<Rightarrow> module_cands allocs local_t local_name (btf_type_cnt vmlinux) ms cands
             }
       }
   }"

section \<open>Flavors\<close>

lemma essential_len_from_sep:
  "is_flavor_sep name j \<Longrightarrow> j < n \<Longrightarrow> \<forall>i. j < i \<and> i < n \<longrightarrow> \<not> is_flavor_sep name i \<Longrightarrow>
     essential_len_from name n = j + 1"
proof (induction n)
  case (Suc n)
  then show ?case by (cases "j = n") auto
qed simp

lemma essential_len_from_none:
  "\<forall>i < n. \<not> is_flavor_sep name i \<Longrightarrow> essential_len_from name n = length name"
  by (induction n) auto

text \<open>
  A name without a flavor: no three underscores between other characters. \<open>no_flavor\<close> looks at
  the places where the code looks.
\<close>

definition no_flavor :: "u8 list \<Rightarrow> bool" where
  "no_flavor s \<longleftrightarrow> (\<forall>i. i + 5 \<le> length s \<longrightarrow> \<not> is_flavor_sep s i)"

definition flavored :: "u8 list \<Rightarrow> u8 list \<Rightarrow> u8 list" where
  "flavored name flavor = name @ replicate 3 underscore @ flavor"

text \<open>
  The essential part of a name with a flavor is the name without it, whatever flavor
  follows the last triple underscore; so all flavors of a name are candidates for each other.
\<close>

theorem essential_name_of_flavor:
  assumes "name \<noteq> []" "last name \<noteq> underscore" "flavor \<noteq> []" "hd flavor \<noteq> underscore"
    and "no_flavor flavor"
  shows "essential_name_len (flavored name flavor) = length name \<and>
    (no_flavor name \<longrightarrow> same_essential_name name (flavored name flavor))"
proof -
  let ?s = "flavored name flavor" and ?j = "length name - 1"
  have len: "length ?s = length name + 3 + length flavor" by (simp add: flavored_def)
  have at: "?s ! (length name + 3 + i) = flavor ! i" for i
    by (simp add: flavored_def nth_append)
  have "?s ! ?j = last name" using assms(1) by (simp add: flavored_def nth_append last_conv_nth)
  moreover have "?s ! (length name + k) = underscore" if "k < 3" for k
    using that by (simp add: flavored_def nth_append)
  note u = this [of 0] this [of 1] this [of 2]
  moreover have "?s ! (length name + 3) = hd flavor" using at [of 0] assms(3) by (simp add: hd_conv_nth)
  moreover have "?j + 1 = length name + 0" "?j + 2 = length name + 1" "?j + 3 = length name + 2"
    "?j + 4 = length name + 3" using assms(1) by (cases name; simp)+
  ultimately have sep: "is_flavor_sep ?s ?j"
    using assms(2,4) by (simp add: is_flavor_sep_def add.commute [of 3])
  have later: "\<not> is_flavor_sep ?s i" if i: "?j < i" "i < length ?s - 4" for i
  proof (cases "i < length name + 3")
    case True
    moreover have "length name \<le> i" using i(1) by linarith
    ultimately have "?s ! i = underscore"
      by (simp add: flavored_def nth_append less_diff_conv2 add.commute)
    then show ?thesis by (simp add: is_flavor_sep_def)
  next
    case False
    then obtain k where k: "i = length name + 3 + k" by (metis le_add_diff_inverse not_less)
    have "is_flavor_sep ?s i = is_flavor_sep flavor k"
      unfolding is_flavor_sep_def k using at [of k] at [of "k + 1"] at [of "k + 2"] at [of "k + 3"] at [of "k + 4"]
      by (simp add: add.assoc)
    moreover have "k + 5 \<le> length flavor" using i(2) k len by simp
    ultimately show ?thesis using assms(5) by (simp add: no_flavor_def)
  qed
  have "?j < length ?s - 4" using assms(1,3) len by (cases flavor; cases name) auto
  then have e: "essential_name_len ?s = length name"
    using essential_len_from_sep [OF sep] later assms(1) by (simp add: essential_name_len_def)
  have "essential_name_len name = length name" if "no_flavor name"
    using that by (simp add: essential_name_len_def no_flavor_def essential_len_from_none)
  then show ?thesis using e by (simp add: same_essential_name_def flavored_def)
qed

lemma essential_name_of_flavor_witness:
  "essential_name_len (flavored (lit ''task'') (lit ''v2'')) = 4"
  using essential_name_of_flavor [of "lit ''task''" "lit ''v2''"]
  by (auto simp: lit_def underscore_def no_flavor_def)

section \<open>Access strings\<close>

lemma decimal_digits:
  "decimal n \<noteq> [] \<and> (\<forall>d \<in> set (decimal n). is_digit d) \<and> digits_value (decimal n) = int n"
proof (induction n rule: decimal.induct)
  case (1 n)
  have d: "is_digit (48 + of_nat k) \<and> uint (48 + of_nat k :: u8) = 48 + int k" if "k < 10" for k
  proof -
    have "k = 0 \<or> k = 1 \<or> k = 2 \<or> k = 3 \<or> k = 4 \<or> k = 5 \<or> k = 6 \<or> k = 7 \<or> k = 8 \<or> k = 9"
      using that by auto
    then show ?thesis by (elim disjE) (simp_all add: is_digit_def)
  qed
  show ?case
  proof (cases "n < 10")
    case True
    then show ?thesis using d [of n] by (simp add: decimal.simps [of n] digits_value_def)
  next
    case False
    have "int n = 10 * int (n div 10) + int (n mod 10)" by presburger
    then show ?thesis
      using 1 False d [of "n mod 10"] by (simp add: decimal.simps [of n] digits_value_def)
  qed
qed

lemma digit_bounds: "is_digit c \<Longrightarrow> c \<noteq> 45 \<and> c \<noteq> 43 \<and> \<not> is_space c \<and> c \<noteq> 58"
  by (auto simp: is_digit_def is_space_def word_le_nat_alt)

lemma scan_int_print:
  assumes "- (2 ^ 31) \<le> i" "i < 2 ^ 31" "rest = [] \<or> \<not> is_digit (hd rest)"
  shows "scan_int (print_int i @ rest) = Some (Some (i, rest))"
proof -
  let ?ds = "decimal (nat \<bar>i\<bar>)"
  note D = decimal_digits [of "nat \<bar>i\<bar>"]
  then have hd: "is_digit (hd ?ds)" "?ds \<noteq> []" by auto
  have tw: "takeWhile is_digit (?ds @ rest) = ?ds" "dropWhile is_digit (?ds @ rest) = rest"
    using D assms(3) by (auto simp: takeWhile_append dropWhile_append takeWhile_eq_Nil_iff dropWhile_eq_self_iff)
  have sp: "dropWhile is_space (print_int i @ rest) = print_int i @ rest"
    using digit_bounds [OF hd(1)] hd(2)
    by (auto simp: print_int_def dropWhile_eq_self_iff is_space_def word_le_nat_alt)
  have sg: "scan_sign (print_int i @ rest) = (i < 0, ?ds @ rest)"
  proof (cases "i < 0")
    case False
    then have "print_int i = ?ds" by (simp add: print_int_def)
    then show ?thesis using digit_bounds [OF hd(1)] hd(2) False by (cases ?ds) (auto simp: scan_sign_def)
  qed (simp add: print_int_def scan_sign_def)
  show ?thesis
    using D assms(1,2) unfolding scan_int_def sp sg Let_def split tw by auto
qed

text \<open>
  Reading an access string gives back the indices it was printed from, for any list of at
  most 64 numbers an \<^verbatim>\<open>int\<close> can hold.
\<close>

theorem parse_raw_dump:
  assumes "length is \<le> BPF_CORE_SPEC_MAX_LEN" "\<forall>i \<in> set is. - (2 ^ 31) \<le> i \<and> i < 2 ^ 31"
  shows "parse_raw (dump_raw_spec is) [] = Some (Inr is)"
proof -
  have nd: "\<not> is_digit 58" by (simp add: is_digit_def word_le_nat_alt)
  have ne: "print_int i \<noteq> [] \<and> hd (print_int i) \<noteq> 58" for i
    using decimal_digits [of "nat i"] digit_bounds [of "hd (decimal (nat i))"] by (auto simp: print_int_def)
  have step: "parse_raw (sep @ print_int i @ rest) raw =
      (if length raw = BPF_CORE_SPEC_MAX_LEN then Some (Inl (- E2BIG)) else parse_raw rest (raw @ [i]))"
    if "- (2 ^ 31) \<le> i" "i < 2 ^ 31" "rest = [] \<or> hd rest = 58" "sep = [] \<or> sep = [58]" for sep i rest raw
  proof -
    have "(if hd (sep @ print_int i @ rest) = 58 then tl (sep @ print_int i @ rest)
        else sep @ print_int i @ rest) = print_int i @ rest"
      using that(4) ne by auto
    then show ?thesis
      using scan_int_print [of i rest] that ne nd
      by (subst parse_raw.simps) auto
  qed
  have all: "parse_raw (if js = [] then [] else sep @ dump_raw_spec js) raw = Some (Inr (raw @ js))"
    if "length raw + length js \<le> BPF_CORE_SPEC_MAX_LEN" "sep = [] \<or> sep = [58]"
      "\<forall>i \<in> set js. - (2 ^ 31) \<le> i \<and> i < 2 ^ 31" for raw js sep
    using that
  proof (induction js arbitrary: raw sep rule: dump_raw_spec.induct)
    case 1
    then show ?case by (simp add: parse_raw.simps [of "[]"])
  next
    case (2 i)
    then show ?case
      using step [of i "[]" sep raw] by (simp add: parse_raw.simps [of "[]"])
  next
    case (3 i j js)
    have "parse_raw (58 # dump_raw_spec (j # js)) (raw @ [i]) = Some (Inr ((raw @ [i]) @ j # js))"
      using 3(1) [of "raw @ [i]" "[58]"] 3(2,4) by simp
    then show ?case
      using step [of i "58 # dump_raw_spec (j # js)" sep raw] 3(2-4) by simp
  qed
  show ?thesis using all [of "[]" "is" "[]"] assms by (cases "is") auto
qed

lemma parse_raw_dump_witness: "parse_raw (dump_raw_spec [0, 1, 12]) [] = Some (Inr [0, 1, 12])"
  using parse_raw_dump [of "[0, 1, 12]"] by (simp add: c_consts)

end
