(* ===== verification/CorePath.thy ===== *)
theory CorePath
  imports CoreSpec
begin

text \<open>
  What the specifications of \<^verbatim>\<open>CoreSpec\<close> mean. An access path is a list of indices into nested
  structs, unions and arrays; \<open>path\<close> says where it leads and how many bits it adds. Parsing a
  specification computes the offset of its path in the local type, and matching it finds a path
  with the same names in the target type and computes the offset of that one.
\<close>

section \<open>Access paths\<close>

inductive path :: "btf \<Rightarrow> nat \<Rightarrow> int list \<Rightarrow> u32 \<Rightarrow> nat \<Rightarrow> bool" for btf where
  here: "path btf i [] 0 i"
| member: "skip_mods_and_typedefs btf i = Some (t, j) \<Longrightarrow> btf_is_composite t \<Longrightarrow> k < btf_vlen t \<Longrightarrow>
     btf_member_bit_offset t k = Some off \<Longrightarrow> member_type t k = Some m \<Longrightarrow>
     path btf (unat m) ks rest fin \<Longrightarrow> path btf i (int k # ks) (off + rest) fin"
| element: "skip_mods_and_typedefs btf i = Some (t, j) \<Longrightarrow> btf_is_array t \<Longrightarrow>
     array_type t = Some e \<Longrightarrow> skip_mods_and_typedefs btf (unat e) = Some (u, eid) \<Longrightarrow>
     resolve_size btf eid = Some sz \<Longrightarrow> 0 \<le> sz \<Longrightarrow>
     path btf eid ks rest fin \<Longrightarrow> path btf i (k # ks) (word_of_int (k * sz * 8) + rest) fin"

text \<open>The whole of an access string: its first index counts objects of the root type.\<close>

definition rooted_path :: "btf \<Rightarrow> nat \<Rightarrow> int list \<Rightarrow> u32 \<Rightarrow> bool" where
  "rooted_path btf type_id raw off \<longleftrightarrow>
     (\<exists>k ks t tid sz rest fin. raw = k # ks \<and> skip_mods_and_typedefs btf type_id = Some (t, tid) \<and>
        resolve_size btf tid = Some sz \<and> 0 \<le> sz \<and> path btf tid ks rest fin \<and>
        off = word_of_int (k * sz * 8) + rest)"

lemma path_append:
  "path btf i ks off mid \<Longrightarrow> path btf mid ls off' fin \<Longrightarrow> path btf i (ks @ ls) (off + off') fin"
proof (induction arbitrary: ls off' fin rule: path.induct)
  case (here i)
  then show ?case by simp
next
  case (member i t j k off m ks rest fin')
  show ?case
    using path.member [OF member(1-5) member.IH [OF member.prems]] by (simp add: add.assoc)
next
  case (element i t j e u eid sz ks rest fin' k)
  show ?case
    using path.element [OF element(1-6) element.IH [OF element.prems], of k] by (simp add: add.assoc)
qed

lemma skip_again: "skip_mods_and_typedefs btf i = Some (t, j) \<Longrightarrow> skip_mods_and_typedefs btf j = Some (t, j)"
  using skip_mods_result [of btf i t j] by (simp add: skip_mods_and_typedefs.simps [of btf j])

lemma path_skip:
  assumes "path btf j ks off fin" "skip_mods_and_typedefs btf i = Some (t, j)" "ks \<noteq> []"
  shows "path btf i ks off fin"
  using assms(1)
proof cases
  case here
  then show ?thesis using assms(3) by simp
next
  case (member t' j' k off m ks' rest)
  then show ?thesis using skip_again [OF assms(2)] assms(2) by (auto intro: path.member)
next
  case (element t' j' e u eid sz ks' rest k)
  then have "skip_mods_and_typedefs btf i = Some (t', j)" using skip_again [OF assms(2)] assms(2) by simp
  from path.element [OF this element(4-9)] show ?thesis unfolding element(1,2) .
qed

section \<open>The offset of a parsed specification\<close>

lemma bit_offset_push_acc:
  "push_acc a s = Some s' \<Longrightarrow> bit_offset s' = bit_offset s \<and> raw_spec s' = raw_spec s \<and>
     accessors s' = accessors s @ [a]"
  by (auto simp: push_acc_def split: if_splits)

lemma parse_accessors_path:
  "parse_accessors btf i raw spec = Some (Inr spec') \<Longrightarrow>
     \<exists>off fin. path btf i raw off fin \<and> bit_offset spec' = bit_offset spec + off \<and>
       raw_spec spec' = raw_spec spec"
proof (induction raw arbitrary: i spec)
  case Nil
  then show ?case using path.here [of btf i] by auto
next
  case (Cons idx raw)
  obtain t tid where t: "skip_mods_and_typedefs btf i = Some (t, tid)"
    using Cons.prems by (auto simp: bind_Some_iff)
  show ?case
  proof (cases "btf_is_composite t")
    case True
    have "0 \<le> idx" "idx < int (btf_vlen t)"
      using Cons.prems t True by (auto simp: bind_Some_iff index_def split: if_splits)
    then obtain k0 where k0: "idx = int k0" "k0 < btf_vlen t" by (metis nonneg_int_cases of_nat_less_iff)
    then obtain k off noff m where k: "idx = int k" "k < btf_vlen t"
      "btf_member_bit_offset t k = Some off" "member_name_off t k = Some noff" "member_type t k = Some m"
      using Cons.prems t True by (auto simp: bind_Some_iff index_def Let_def)
    let ?s = "spec\<lparr>bit_offset := bit_offset spec + off\<rparr>"
    obtain s where s: "bit_offset s = bit_offset spec + off" "raw_spec s = raw_spec spec"
      "parse_accessors btf (unat m) raw s = Some (Inr spec')"
    proof (cases "noff = 0")
      case zero: True
      then have "parse_accessors btf (unat m) raw ?s = Some (Inr spec')"
        using Cons.prems t True k by (simp add: index_def)
      then show thesis using that [of ?s] by simp
    next
      case named: False
      obtain a s where "push_acc a ?s = Some s" "parse_accessors btf (unat m) raw s = Some (Inr spec')"
        using Cons.prems t True k named by (auto simp: bind_Some_iff index_def Let_def split: if_splits)
      then show thesis using bit_offset_push_acc that [of s] by fastforce
    qed
    obtain off' fin where o': "path btf (unat m) raw off' fin"
      "bit_offset spec' = bit_offset spec + (off + off')" "raw_spec spec' = raw_spec spec"
      using Cons.IH [OF s(3)] s(1,2) by (auto simp: add.assoc)
    then show ?thesis using path.member [OF t True k(2,3,5) o'(1)] k(1) by blast
  next
    case False
    then have arr: "btf_is_array t" using Cons.prems t by (auto split: if_splits)
    obtain e u eid a s sz where E: "array_type t = Some e"
      "skip_mods_and_typedefs btf (unat e) = Some (u, eid)" "push_acc a spec = Some s"
      "resolve_size btf eid = Some sz" "0 \<le> sz"
      "parse_accessors btf eid raw (s\<lparr>bit_offset := bit_offset s + word_of_int (idx * sz * 8)\<rparr>) =
         Some (Inr spec')"
      using Cons.prems t False arr by (auto simp: bind_Some_iff split: if_splits)
    obtain off' fin where o': "path btf eid raw off' fin"
      "bit_offset spec' = bit_offset spec + (word_of_int (idx * sz * 8) + off')"
      "raw_spec spec' = raw_spec spec"
      using Cons.IH [OF E(6)] bit_offset_push_acc [OF E(3)] by (auto simp: add.assoc)
    then show ?thesis using path.element [OF t arr E(1,2,4,5) o'(1)] by blast
  qed
qed

lemma parse_raw_first:
  assumes "parse_raw s raw0 = Some (Inr raw)" "length raw0 \<le> BPF_CORE_SPEC_MAX_LEN"
  shows "length raw \<le> BPF_CORE_SPEC_MAX_LEN"
  using assms
proof (induction s raw0 rule: parse_raw.induct)
  case (1 s raw0)
  show ?case
  proof (cases "s = []")
    case True
    then show ?thesis using "1.prems" by (simp add: parse_raw.simps [of "[]"])
  next
    case False
    obtain idx rest where r: "scan_int (if hd s = 58 then tl s else s) = Some (Some (idx, rest))"
      "length raw0 \<noteq> BPF_CORE_SPEC_MAX_LEN" "parse_raw rest (raw0 @ [idx]) = Some (Inr raw)"
      using "1.prems" False
      by (auto simp: parse_raw.simps [of s] bind_Some_iff split: option.splits if_splits)
    show ?thesis using "1.IH" [OF False r(1) refl refl r(2,3)] r(2) "1.prems"(2) by simp
  qed
qed

text \<open>
  C26: a field specification that parses stands for the access path of its string: the path leads
  through the local types, every member index is below the number of members, and the offset
  computed on the way is the sum of the member offsets and of the index times the size of each
  array element, from the first index on, which counts whole objects.
\<close>

theorem parse_spec_path:
  assumes "parse_spec btf type_id spec_str kind = Some (Inr spec)" "is_field_based kind"
  shows "parse_raw spec_str [] = Some (Inr (raw_spec spec)) \<and> length (raw_spec spec) \<le> 64 \<and>
    rooted_path btf type_id (raw_spec spec) (bit_offset spec)"
proof -
  have kind: "\<not> is_type_based kind" "\<not> is_enumval_based kind"
    using assms(2) by (auto simp: is_field_based_def is_type_based_def is_enumval_based_def)
  have str: "spec_str \<noteq> []" "hd spec_str \<noteq> 58" using assms(1) by (auto simp: parse_spec_def split: if_splits)
  obtain r where r: "parse_raw spec_str [] = Some r"
    using assms(1) kind str by (auto simp: parse_spec_def bind_Some_iff Let_def)
  obtain k ks where raw: "r = Inr (k # ks)"
    using assms(1) kind str r by (auto simp: parse_spec_def Let_def split: sum.splits list.splits)
  obtain t tid a s sz where S: "skip_mods_and_typedefs btf type_id = Some (t, tid)"
    "push_acc a \<lparr>spec_btf = btf, accessors = [], root_type_id = type_id, spec_kind = kind,
       raw_spec = k # ks, bit_offset = 0\<rparr> = Some s"
    "resolve_size btf tid = Some sz" "0 \<le> sz"
    "parse_accessors btf tid ks (s\<lparr>bit_offset := word_of_int (k * sz * 8)\<rparr>) = Some (Inr spec)"
    using assms(1,2) kind str r raw by (auto simp: parse_spec_def Let_def bind_Some_iff split: if_splits)
  obtain off fin where "path btf tid ks off fin" "bit_offset spec = word_of_int (k * sz * 8) + off"
    "raw_spec spec = k # ks"
    using parse_accessors_path [OF S(5)] bit_offset_push_acc [OF S(2)] by auto
  then show ?thesis
    using S(1,3,4) r raw parse_raw_first [of spec_str "[]" "k # ks"]
    by (auto simp: rooted_path_def BPF_CORE_SPEC_MAX_LEN_def)
qed

section \<open>Parsing a specification is safe\<close>

lemma skip_known:
  assumes "btf_ok btf" "mods_ranked rank btf" "i < btf_type_cnt btf"
  obtains t j where "skip_mods_and_typedefs btf i = Some (t, j)" "j < btf_type_cnt btf"
    "type_at btf j = Some t" "t = btf_void \<or> type_ok t"
  using skip_mods_Some [OF assms] type_at_cases(2) [OF assms(1)] by blast

lemma is_flex_arr_total:
  "btf_ok btf \<Longrightarrow> acc_type_id a < btf_type_cnt btf \<Longrightarrow> \<exists>b. is_flex_arr btf a n = Some b"
  using type_by_id_ok [of btf "acc_type_id a"] by (auto simp: is_flex_arr_def)

lemma parse_accessors_safe:
  assumes "btf_ok btf" "mods_ranked rank btf" "refs_ok btf"
    and "i < btf_type_cnt btf" "\<forall>k \<in> set raw. 0 \<le> k"
    and "accessors spec \<noteq> []" "\<forall>a \<in> set (accessors spec). acc_type_id a < btf_type_cnt btf"
    and "length (accessors spec) + length raw \<le> BPF_CORE_SPEC_MAX_LEN"
  shows "\<exists>r. parse_accessors btf i raw spec = Some r"
  using assms(4-)
proof (induction raw arbitrary: i spec)
  case (Cons idx raw)
  obtain t tid where t: "skip_mods_and_typedefs btf i = Some (t, tid)" "tid < btf_type_cnt btf"
    "type_at btf tid = Some t" "t = btf_void \<or> type_ok t"
    using skip_known [OF assms(1,2) Cons.prems(1)] .
  note refs = assms(3) [unfolded refs_ok_def, rule_format, OF t(3)]
  have push: "push_acc a s = Some (s\<lparr>accessors := accessors s @ [a]\<rparr>)"
    if "accessors s = accessors spec" for a s
    using Cons.prems(5) that by (simp add: push_acc_def)
  show ?case
  proof (cases "btf_is_composite t")
    case comp: True
    show ?thesis
    proof (cases "idx < int (btf_vlen t)")
      case True
      then have k: "nat idx < btf_vlen t" using Cons.prems(2) by auto
      obtain off m n where f: "btf_member_bit_offset t (nat idx) = Some off"
        "member_type t (nat idx) = Some m" "member_name_off t (nat idx) = Some n"
        using member_fields [of t "nat idx"] comp t(4) k by auto
      have m: "unat m < btf_type_cnt btf" using refs comp k f(2) by blast
      obtain s where name: "btf_name_by_offset btf (unat n) = Some s"
        using str_by_offset_ok [OF assms(1)] by (auto simp: btf_name_by_offset_def)
      have IH: "\<exists>r. parse_accessors btf (unat m) raw s = Some r"
        if "accessors s = accessors spec \<or> (\<exists>a. acc_type_id a = tid \<and> accessors s = accessors spec @ [a])" for s
        using that m t(2) Cons.prems by (intro Cons.IH) auto
      show ?thesis
        using t(1) comp True f name Cons.prems(2) IH
        by (auto simp: index_def Let_def push)
    qed (use t(1) comp in simp)
  next
    case False
    show ?thesis
    proof (cases "btf_is_array t")
      case arr: True
      then have ok: "type_ok t" using t(4) by auto
      have "unat (extra t ! 0) < btf_type_cnt btf" using refs arr array_fields(1) [OF ok arr] by blast
      then obtain u eid where e: "skip_mods_and_typedefs btf (unat (extra t ! 0)) = Some (u, eid)"
        "eid < btf_type_cnt btf" using skip_known [OF assms(1,2)] by blast
      have "acc_type_id (last (accessors spec)) < btf_type_cnt btf" using Cons.prems(3,4) by simp
      then obtain b where b: "is_flex_arr btf (last (accessors spec)) (extra t ! 2) = Some b"
        using is_flex_arr_total [OF assms(1)] by blast
      obtain sz where sz: "resolve_size btf eid = Some sz" using resolve_size_total [OF assms(1)] by blast
      have IH: "\<exists>r. parse_accessors btf eid raw s = Some r"
        if "\<exists>a. acc_type_id a = eid \<and> accessors s = accessors spec @ [a]" for s
        using that e(2) Cons.prems by (intro Cons.IH) auto
      show ?thesis
        using t(1) False arr array_fields [OF ok arr] e(1) b sz Cons.prems(3) IH by (auto simp: push)
    qed (use t(1) False in simp)
  qed
qed simp

text \<open>
  On well-formed BTF, parsing the specification of any relocation kind for any known type
  has a defined result, a specification or a negative error, whenever the numbers of its string
  are not negative. With a negative member index it does not: the index is compared as a signed
  number with the number of members, passes the test, and is used to address the members.
\<close>

theorem parse_spec_safe:
  assumes "btf_ok btf" "mods_ranked rank btf" "refs_ok btf" "type_id < btf_type_cnt btf"
    and "parse_raw spec_str [] = Some (Inr raw)"
  shows "((\<forall>k \<in> set raw. 0 \<le> k) \<longrightarrow> (\<exists>r. parse_spec btf type_id spec_str kind = Some r)) \<and>
    (is_field_based kind \<and> spec_str \<noteq> [] \<and> hd spec_str \<noteq> 58 \<and> raw = k # j # ks \<and> j < 0 \<and>
       skip_mods_and_typedefs btf type_id = Some (t, tid) \<and> btf_is_composite t \<longrightarrow>
       parse_spec btf type_id spec_str kind = None)"
proof (intro conjI impI)
  obtain t tid where t: "skip_mods_and_typedefs btf type_id = Some (t, tid)" "tid < btf_type_cnt btf"
    "type_at btf tid = Some t" "t = btf_void \<or> type_ok t"
    using skip_known [OF assms(1,2,4)] .
  assume nonneg: "\<forall>k \<in> set raw. 0 \<le> k"
  have len: "length raw \<le> BPF_CORE_SPEC_MAX_LEN" using parse_raw_first [OF assms(5)] by simp
  show "\<exists>r. parse_spec btf type_id spec_str kind = Some r"
  proof (cases raw)
    case Nil
    then show ?thesis using assms(5) by (auto simp: parse_spec_def Let_def)
  next
    case (Cons k ks)
    obtain sz where sz: "resolve_size btf tid = Some sz" using resolve_size_total [OF assms(1)] by blast
    have names: "\<exists>s. btf_name_by_offset btf x = Some s" for x
      using str_by_offset_ok [OF assms(1)] by (auto simp: btf_name_by_offset_def)
    have enum: "\<exists>x s. enum_name_off t (nat k) = Some x \<and> btf_name_by_offset btf (unat x) = Some s"
      if "btf_is_enum t" "k < int (btf_vlen t)"
      using that t(4) extra_length(3) [of t] nonneg Cons names by (auto simp: enum_name_off_def)
    have run: "\<exists>r. parse_accessors btf tid ks
        \<lparr>spec_btf = btf, accessors = [a], root_type_id = type_id, spec_kind = kind,
           raw_spec = k # ks, bit_offset = x\<rparr> = Some r" if "acc_type_id a = tid" for a x
      using that t(2) nonneg Cons len by (intro parse_accessors_safe [OF assms(1-3)]) auto
    show ?thesis
      using assms(5) t(1) sz enum run Cons nonneg
      by (auto simp: parse_spec_def Let_def push_acc_def index_def BPF_CORE_SPEC_MAX_LEN_def
          not_le dest!: spec [of _ k])
  qed
next
  assume A: "is_field_based kind \<and> spec_str \<noteq> [] \<and> hd spec_str \<noteq> 58 \<and> raw = k # j # ks \<and> j < 0 \<and>
       skip_mods_and_typedefs btf type_id = Some (t, tid) \<and> btf_is_composite t"
  then have t: "skip_mods_and_typedefs btf type_id = Some (t, tid)" "btf_is_composite t" by blast+
  have "resolve_size btf tid = Some (uint (size_type t))"
    using skip_mods_result [OF t(1)] t(2) by (intro resolve_size_leaf) (auto simp: btf_is_composite_def)
  moreover have "parse_accessors btf tid (j # ks) spec = None" for spec
    using A skip_again [OF t(1)] by (simp add: index_def)
  ultimately show "parse_spec btf type_id spec_str kind = None"
    using A assms(5)
    by (auto simp: parse_spec_def Let_def is_field_based_def is_type_based_def is_enumval_based_def
        push_acc_def BPF_CORE_SPEC_MAX_LEN_def simp del: parse_accessors.simps)
qed

section \<open>The path a match finds\<close>

text \<open>
  \<open>named btf i n\<close>: a composite type has a member called \<open>n\<close>, its own or one of an anonymous
  member's type, as C looks members up.
\<close>

definition member_name :: "btf \<Rightarrow> btf_type \<Rightarrow> nat \<Rightarrow> u8 list option" where
  "member_name btf t k =
     (case member_name_off t k of None \<Rightarrow> None
      | Some off \<Rightarrow> (case btf_name_by_offset btf (unat off) of
                      Some (Some n) \<Rightarrow> if n = [] then None else Some n | _ \<Rightarrow> None))"

inductive named :: "btf \<Rightarrow> nat \<Rightarrow> u8 list \<Rightarrow> bool" for btf where
  own: "skip_mods_and_typedefs btf i = Some (t, j) \<Longrightarrow> btf_is_composite t \<Longrightarrow> k < btf_vlen t \<Longrightarrow>
     member_name btf t k = Some n \<Longrightarrow> named btf i n"
| inner: "skip_mods_and_typedefs btf i = Some (t, j) \<Longrightarrow> btf_is_composite t \<Longrightarrow> k < btf_vlen t \<Longrightarrow>
     member_name btf t k = None \<Longrightarrow> member_type t k = Some m \<Longrightarrow> named btf (unat m) n \<Longrightarrow> named btf i n"

text \<open>Whether the \<open>k\<close>-th member of a type provides the name \<open>n\<close>.\<close>

definition provides :: "btf \<Rightarrow> btf_type \<Rightarrow> nat \<Rightarrow> u8 list \<Rightarrow> bool" where
  "provides btf t k n \<longleftrightarrow> member_name btf t k = Some n \<or>
     member_name btf t k = None \<and> (\<exists>m. member_type t k = Some m \<and> named btf (unat m) n)"

text \<open>As in C, no two members of a type provide the same name.\<close>

definition unique_names :: "btf \<Rightarrow> bool" where
  "unique_names btf \<longleftrightarrow> (\<forall>i t n k l. type_at btf i = Some t \<and> btf_is_composite t \<and>
     k < btf_vlen t \<and> l < btf_vlen t \<and> provides btf t k n \<and> provides btf t l n \<longrightarrow> k = l)"

lemma provides_named:
  "skip_mods_and_typedefs btf i = Some (t, j) \<Longrightarrow> btf_is_composite t \<Longrightarrow> k < btf_vlen t \<Longrightarrow>
     provides btf t k n \<Longrightarrow> named btf i n"
  by (auto simp: provides_def intro: named.intros)

text \<open>
  A path together with the accessors recorded for it: one for every named member, with the type
  the member is found in, its index and its name, none for members without a name, and one for
  every array access, with the type of the element and the index.
\<close>

inductive spec_path :: "btf \<Rightarrow> nat \<Rightarrow> accessor list \<Rightarrow> int list \<Rightarrow> u32 \<Rightarrow> nat \<Rightarrow> bool" for btf where
  here: "spec_path btf i [] [] 0 i"
| anonymous: "skip_mods_and_typedefs btf i = Some (t, j) \<Longrightarrow> btf_is_composite t \<Longrightarrow> k < btf_vlen t \<Longrightarrow>
     btf_member_bit_offset t k = Some off \<Longrightarrow> member_type t k = Some m \<Longrightarrow> member_name btf t k = None \<Longrightarrow>
     spec_path btf (unat m) accs ks rest fin \<Longrightarrow> spec_path btf i accs (int k # ks) (off + rest) fin"
| member: "skip_mods_and_typedefs btf i = Some (t, j) \<Longrightarrow> btf_is_composite t \<Longrightarrow> k < btf_vlen t \<Longrightarrow>
     btf_member_bit_offset t k = Some off \<Longrightarrow> member_type t k = Some m \<Longrightarrow> member_name btf t k = Some n \<Longrightarrow>
     spec_path btf (unat m) accs ks rest fin \<Longrightarrow>
     spec_path btf i (\<lparr>acc_type_id = j, acc_idx = of_nat k, acc_name = Some n\<rparr> # accs) (int k # ks) (off + rest) fin"
| element: "skip_mods_and_typedefs btf i = Some (t, j) \<Longrightarrow> btf_is_array t \<Longrightarrow>
     array_type t = Some e \<Longrightarrow> skip_mods_and_typedefs btf (unat e) = Some (u, eid) \<Longrightarrow>
     resolve_size btf eid = Some sz \<Longrightarrow> 0 \<le> sz \<Longrightarrow> spec_path btf eid accs ks rest fin \<Longrightarrow>
     spec_path btf i (\<lparr>acc_type_id = eid, acc_idx = idx, acc_name = None\<rparr> # accs) (sint idx # ks)
       (word_of_int (sint idx * sz * 8) + rest) fin"

text \<open>The same from the root, where the first accessor counts objects of the root type.\<close>

definition rooted_spec :: "btf \<Rightarrow> nat \<Rightarrow> accessor list \<Rightarrow> int list \<Rightarrow> u32 \<Rightarrow> bool" where
  "rooted_spec btf type_id accs raw off \<longleftrightarrow>
     (\<exists>idx accs' ks t tid sz rest fin. accs = \<lparr>acc_type_id = tid, acc_idx = idx, acc_name = None\<rparr> # accs' \<and>
        raw = sint idx # ks \<and> skip_mods_and_typedefs btf type_id = Some (t, tid) \<and>
        resolve_size btf tid = Some sz \<and> 0 \<le> sz \<and> spec_path btf tid accs' ks rest fin \<and>
        off = word_of_int (sint idx * sz * 8) + rest)"

lemma spec_path_path: "spec_path btf i accs ks off fin \<Longrightarrow> path btf i ks off fin"
  by (induction rule: spec_path.induct) (rule path.intros; assumption)+

lemma rooted_spec_path: "rooted_spec btf i accs raw off \<Longrightarrow> rooted_path btf i raw off"
  unfolding rooted_spec_def rooted_path_def by (blast dest: spec_path_path)

lemma spec_path_append:
  "spec_path btf i as ks off mid \<Longrightarrow> spec_path btf mid bs ls off' fin \<Longrightarrow>
     spec_path btf i (as @ bs) (ks @ ls) (off + off') fin"
proof (induction arbitrary: bs ls off' fin rule: spec_path.induct)
  case (here i)
  then show ?case by simp
next
  case (anonymous i t j k off m accs ks rest fin')
  show ?case
    using spec_path.anonymous [OF anonymous(1-6) anonymous.IH [OF anonymous.prems]] by (simp add: add.assoc)
next
  case (member i t j k off m n accs ks rest fin')
  show ?case
    using spec_path.member [OF member(1-6) member.IH [OF member.prems]] by (simp add: add.assoc)
next
  case (element i t j e u eid sz accs ks rest fin' idx)
  show ?case
    using spec_path.element [OF element(1-6) element.IH [OF element.prems], of idx] by (simp add: add.assoc)
qed

lemma spec_path_skip:
  assumes "spec_path btf j accs ks off fin" "skip_mods_and_typedefs btf i = Some (t, j)" "ks \<noteq> []"
  shows "spec_path btf i accs ks off fin"
  using assms(1)
proof cases
  case here
  then show ?thesis using assms(3) by simp
next
  case (anonymous t' j' k off m ks' rest)
  then show ?thesis using skip_again [OF assms(2)] assms(2) by (auto intro: spec_path.anonymous)
next
  case (member t' j' k off m n accs' ks' rest)
  then have "skip_mods_and_typedefs btf i = Some (t', j')" using skip_again [OF assms(2)] assms(2) by simp
  from spec_path.member [OF this member(5-10)] show ?thesis unfolding member(1-3) .
next
  case (element t' j' e u eid sz accs' ks' rest idx)
  then have "skip_mods_and_typedefs btf i = Some (t', j)" using skip_again [OF assms(2)] assms(2) by simp
  from spec_path.element [OF this element(5-10)] show ?thesis unfolding element(1-3) .
qed

text \<open>The member of an accessor of the target has a type that the local member's type is compatible with.\<close>

definition target_compat :: "btf \<Rightarrow> nat \<Rightarrow> btf \<Rightarrow> accessor \<Rightarrow> bool" where
  "target_compat lb lm tb a \<longleftrightarrow>
     (\<exists>t m r. btf_type_by_id tb (acc_type_id a) = Some t \<and> member_type t (unat (acc_idx a)) = Some m \<and>
        fields_are_compat lb lm tb (unat m) = Some r \<and> 0 < r)"

text \<open>An accessor of the target stands for the same as one of the local specification.\<close>

definition accs_match :: "btf \<Rightarrow> btf \<Rightarrow> accessor \<Rightarrow> accessor \<Rightarrow> bool" where
  "accs_match lb tb la ta \<longleftrightarrow> acc_name ta = acc_name la \<and>
     (if acc_name la = None then acc_idx ta = acc_idx la
      else \<exists>lt lm. btf_type_by_id lb (acc_type_id la) = Some lt \<and> member_type lt (unat (acc_idx la)) = Some lm \<and>
             target_compat lb (unat lm) tb ta)"

text \<open>
  What a search that started in state \<open>s\<close> leaves: nothing changed when it found nothing, unless
  it gave up on a member of the name looked for; and a path from type \<open>i\<close> when it found one.
\<close>

definition same_target :: "core_spec \<Rightarrow> core_spec \<Rightarrow> bool" where
  "same_target s s' \<longleftrightarrow> accessors s' = accessors s \<and> raw_spec s' = raw_spec s \<and> bit_offset s' = bit_offset s"

definition found_path :: "(accessor \<Rightarrow> bool) \<Rightarrow> btf \<Rightarrow> nat \<Rightarrow> u8 list \<Rightarrow> core_spec \<Rightarrow> core_spec \<Rightarrow> nat \<Rightarrow> bool" where
  "found_path ok btf i n s s' nxt \<longleftrightarrow>
     (\<exists>ks off a. ks \<noteq> [] \<and> spec_path btf i [a] ks off nxt \<and> raw_spec s' = raw_spec s @ ks \<and>
        bit_offset s' = bit_offset s + off \<and> accessors s' = accessors s @ [a] \<and> acc_name a = Some n \<and> ok a)"

definition search_ok :: "(accessor \<Rightarrow> bool) \<Rightarrow> btf \<Rightarrow> nat \<Rightarrow> u8 list \<Rightarrow> core_spec \<Rightarrow> int \<times> core_spec \<times> nat \<Rightarrow> bool" where
  "search_ok ok btf i n s res = (case res of (r, s', nxt) \<Rightarrow>
     (r = 0 \<longrightarrow> same_target s s' \<or> named btf i n) \<and>
     (0 < r \<longrightarrow> found_path ok btf i n s s' nxt \<and> named btf i n))"

lemma found_path_member:
  assumes "skip_mods_and_typedefs btf i = Some (t, j)" "btf_is_composite t" "k < btf_vlen t"
    and "btf_member_bit_offset t k = Some off" "member_type t k = Some m"
    and "member_name btf t k = None" "found_path ok btf (unat m) n (s\<lparr>bit_offset := bit_offset s + off, raw_spec := raw_spec s @ [int k]\<rparr>) s' nxt"
  shows "found_path ok btf i n s s' nxt"
proof -
  obtain ks off' a where p: "spec_path btf (unat m) [a] ks off' nxt" "raw_spec s' = raw_spec s @ int k # ks"
    "bit_offset s' = bit_offset s + (off + off')" "accessors s' = accessors s @ [a]" "acc_name a = Some n" "ok a"
    using assms(7) by (auto simp: found_path_def add.assoc)
  have "spec_path btf i [a] (int k # ks) (off + off') nxt"
    by (rule spec_path.anonymous [OF assms(1-6) p(1)])
  then show ?thesis using p(2-6) unfolding found_path_def by blast
qed

lemma btf_vlen_less: "btf_vlen t < 2 ^ 16"
proof -
  have "unat (info t AND 0xffff) \<le> unat (0xffff :: u32)" by (intro word_le_nat_alt [THEN iffD1] word_and_le1)
  then show ?thesis by (simp add: btf_vlen_def)
qed

lemma type_at_by_id: "type_at btf i = Some t \<Longrightarrow> btf_type_by_id btf i = Some t"
  by (auto simp: type_at_def type_by_id_def bind_Some_iff split: if_splits)

lemma match_members_ok:
  assumes t: "skip_mods_and_typedefs tb i = Some (t, j)" "btf_is_composite t" "unique_names tb"
    and go: "\<And>m s nxt res. go m s nxt = Some res \<Longrightarrow> search_ok ok tb m n s res"
    and name: "local_name = Some n"
    and compat: "\<And>a. target_compat lb lt tb a \<Longrightarrow> ok a"
    and run: "match_members go lb local_name lt tb j t is s nxt = Some (r, s', nxt')"
    and "set is \<subseteq> {..<btf_vlen t}" "distinct is"
    and start: "same_target s0 s \<or> (\<exists>k < btf_vlen t. k \<notin> set is \<and> provides tb t k n)"
  shows "search_ok ok tb i n s0 (r, s', nxt')"
  using run assms(8-)
proof (induction "is" arbitrary: s nxt)
  case Nil
  then show ?case using provides_named [OF t(1,2)] by (auto simp: search_ok_def)
next
  case (Cons k ks)
  have k: "k < btf_vlen t" using Cons.prems(2) by simp
  obtain off where off: "btf_member_bit_offset t k = Some off"
    using Cons.prems(1) by (auto simp: bind_Some_iff)
  let ?s = "s\<lparr>bit_offset := bit_offset s + off, raw_spec := raw_spec s @ [int k]\<rparr>"
  let ?undo = "\<lambda>s. s\<lparr>bit_offset := bit_offset s - off, raw_spec := butlast (raw_spec s)\<rparr>"
  show ?case
  proof (cases "length (raw_spec s) = BPF_CORE_SPEC_MAX_LEN")
    case True
    then show ?thesis using Cons.prems(1) off by (auto simp: search_ok_def)
  next
    case room: False
    obtain noff m nm where m: "member_name_off t k = Some noff" "member_type t k = Some m"
      "btf_name_by_offset tb (unat noff) = Some nm"
      using Cons.prems(1) off room by (auto simp: bind_Some_iff Let_def)
    have dead: "\<exists>l < btf_vlen t. l \<notin> set ks \<and> provides tb t l n"
      if "provides tb t k n" using that k Cons.prems(3) by auto
    have later: "\<exists>l < btf_vlen t. l \<notin> set ks \<and> provides tb t l n"
      if "\<exists>l < btf_vlen t. l \<notin> set (k # ks) \<and> provides tb t l n" using that by auto
    have mine: "same_target s0 s" if "provides tb t k n"
      using Cons.prems(4) that t(3) k t(1,2) skip_mods_result [OF t(1)]
      unfolding unique_names_def by (metis list.set_intros(1))
    show ?thesis
    proof (cases "nm = None \<or> nm = Some []")
      case True
      then have anon: "member_name tb t k = None" using m by (auto simp: member_name_def)
      obtain r1 s1 nxt1 where g: "go (unat m) ?s nxt = Some (r1, s1, nxt1)"
        "(if r1 \<noteq> 0 then Some (r1, s1, nxt1)
          else match_members go lb local_name lt tb j t ks (?undo s1) nxt1) = Some (r, s', nxt')"
        using Cons.prems(1) off room m True by (auto simp: bind_Some_iff Let_def)
      note G = go [OF g(1)]
      have prov: "provides tb t k n" if "named tb (unat m) n"
        using that anon m(2) by (auto simp: provides_def)
      show ?thesis
      proof (cases "r1 = 0")
        case False
        then have e: "r = r1" "s' = s1" "nxt' = nxt1" using g(2) by auto
        show ?thesis
        proof (cases "0 < r1")
          case True
          then have f: "found_path ok tb (unat m) n ?s s1 nxt1" "named tb (unat m) n"
            using G by (auto simp: search_ok_def)
          have "found_path ok tb i n s s1 nxt1"
            by (rule found_path_member [OF t(1,2) k off m(2) anon f(1)])
          moreover have "same_target s0 s" by (rule mine [OF prov [OF f(2)]])
          ultimately have "found_path ok tb i n s0 s1 nxt1" by (simp add: found_path_def same_target_def)
          then show ?thesis
            using e True provides_named [OF t(1,2) k prov [OF f(2)]] by (simp add: search_ok_def)
        qed (use e False in \<open>simp add: search_ok_def\<close>)
      next
        case zero: True
        then have rest: "match_members go lb local_name lt tb j t ks (?undo s1) nxt1 = Some (r, s', nxt')"
          using g(2) by simp
        have "same_target ?s s1 \<or> named tb (unat m) n" using G zero by (simp add: search_ok_def)
        then have "same_target s0 (?undo s1) \<or> (\<exists>l < btf_vlen t. l \<notin> set ks \<and> provides tb t l n)"
          using Cons.prems(4) later dead prov by (auto simp: same_target_def)
        then show ?thesis using Cons.prems(2,3) by (intro Cons.IH [OF rest]) auto
      qed
    next
      case False
      then have own: "member_name tb t k = nm" using m by (cases nm) (simp_all add: member_name_def)
      show ?thesis
      proof (cases "nm = Some n")
        case True
        then have prov: "provides tb t k n" using own by (simp add: provides_def)
        let ?a = "\<lparr>acc_type_id = j, acc_idx = of_nat k, acc_name = nm\<rparr> :: accessor"
        obtain s1 where c: "fields_are_compat lb lt tb (unat m) = Some r" and p: "push_acc \<lparr>acc_type_id = j, acc_idx = of_nat k, acc_name = nm\<rparr> ?s = Some s1"
          "s' = (if r = 0 then s1\<lparr>accessors := butlast (accessors s1)\<rparr> else s1)" "nxt' = unat m"
          using Cons.prems(1) off room m False True name by (auto simp: bind_Some_iff Let_def)
        have n: "named tb i n" by (rule provides_named [OF t(1,2) k prov])
        show ?thesis
        proof (cases "0 < r")
          case False
          then show ?thesis using n by (simp add: search_ok_def)
        next
          case pos: True
          have "unat (of_nat k :: u32) = k"
            using k btf_vlen_less [of t] by (simp add: unat_of_nat take_bit_nat_eq_self)
          moreover have "btf_type_by_id tb j = Some t" using skip_mods_result [OF t(1)] type_at_by_id by blast
          ultimately have ok: "ok ?a" using c pos m(2) by (intro compat) (simp add: target_compat_def)
          have "spec_path tb i [?a] [int k] (off + 0) (unat m)"
            unfolding True by (rule spec_path.member [OF t(1,2) k off m(2) _ spec_path.here]) (simp add: own True)
          then have "found_path ok tb i n s s1 (unat m)"
            using bit_offset_push_acc [OF p(1)] True ok unfolding found_path_def by fastforce
          then have "found_path ok tb i n s0 s1 (unat m)"
            using mine [OF prov] by (simp add: found_path_def same_target_def)
          then show ?thesis using n p pos by (simp add: search_ok_def)
        qed
      next
        case other: False
        have rest: "match_members go lb local_name lt tb j t ks (?undo ?s) nxt = Some (r, s', nxt')"
          using Cons.prems(1) off room m False other name by (auto simp: bind_Some_iff Let_def)
        have "\<not> provides tb t k n" using own False other by (auto simp: provides_def)
        then have "same_target s0 (?undo ?s) \<or> (\<exists>l < btf_vlen t. l \<notin> set ks \<and> provides tb t l n)"
          using Cons.prems(4) later by (auto simp: same_target_def)
        then show ?thesis using Cons.prems(2,3) by (intro Cons.IH [OF rest]) auto
      qed
    qed
  qed
qed

lemma match_member_ok:
  assumes "unique_names tb" "btf_type_by_id lb (acc_type_id la) = Some lt"
    and "member_name_off lt (unat (acc_idx la)) = Some noff"
    and "btf_name_by_offset lb (unat noff) = Some (Some n)"
    and "member_type lt (unat (acc_idx la)) = Some lm"
    and "match_member fuel lb la tb i s nxt = Some res"
  shows "search_ok (target_compat lb (unat lm) tb) tb i n s res"
  using assms(6)
proof (induction fuel arbitrary: i s nxt res)
  case (Suc fuel)
  obtain t j where t: "skip_mods_and_typedefs tb i = Some (t, j)"
    using Suc.prems by (auto simp: bind_Some_iff)
  show ?case
  proof (cases "btf_is_composite t")
    case True
    have "match_members (match_member fuel lb la tb) lb (Some n) (unat lm) tb j t [0..<btf_vlen t] s nxt = Some res"
      using Suc.prems t True assms(2-5) by (auto simp: bind_Some_iff)
    moreover obtain r s' nxt' where "res = (r, s', nxt')" by (cases res)
    ultimately show ?thesis
      using match_members_ok [OF t True assms(1) Suc.IH refl, where s0 = s and s = s and lt = "unat lm" and lb = lb]
      by (auto simp: same_target_def atLeast0LessThan)
  next
    case False
    then show ?thesis using Suc.prems t by (auto simp: search_ok_def same_target_def)
  qed
qed simp

text \<open>The names of a local specification are those of the members it points to.\<close>

definition local_names_ok :: "btf \<Rightarrow> accessor list \<Rightarrow> bool" where
  "local_names_ok lb accs \<longleftrightarrow> (\<forall>a \<in> set accs. \<forall>n. acc_name a = Some n \<longrightarrow>
     (\<exists>lt noff. btf_type_by_id lb (acc_type_id a) = Some lt \<and>
        member_name_off lt (unat (acc_idx a)) = Some noff \<and> member_type lt (unat (acc_idx a)) \<noteq> None \<and>
        btf_name_by_offset lb (unat noff) = Some (Some n)))"

lemma s64_to_int_word: "word_of_int (s64_to_int n) = (word_of_int n :: u32)"
  by (simp add: s64_to_int_def)

text \<open>The rounds of the match behind the first accessor: a path from the type reached so far.\<close>

lemma match_accessors_path:
  assumes "unique_names tb" "local_names_ok lb accs" "0 < i"
    and "match_accessors lb tb accs i targ_id s = Some (1, s')"
  shows "\<exists>ks off fin as. spec_path tb targ_id as ks off fin \<and> raw_spec s' = raw_spec s @ ks \<and>
    bit_offset s' = bit_offset s + off \<and> accessors s' = accessors s @ as \<and> list_all2 (accs_match lb tb) accs as"
  using assms(2-4)
proof (induction accs arbitrary: i targ_id s)
  case Nil
  then show ?case using spec_path.here [of tb targ_id] by auto
next
  case (Cons la accs)
  obtain t tid where t: "skip_mods_and_typedefs tb targ_id = Some (t, tid)"
    using Cons.prems by (auto simp: bind_Some_iff)
  have names: "local_names_ok lb accs" using Cons.prems(1) by (auto simp: local_names_ok_def)
  show ?case
  proof (cases "acc_name la")
    case (Some n)
    obtain matched s1 nxt where m: "match_member (BPF_CORE_SPEC_MAX_LEN + 1) lb la tb tid s tid =
        Some (matched, s1, nxt)" "0 < matched" "match_accessors lb tb accs (i + 1) nxt s1 = Some (1, s')"
      using Cons.prems(3) t Some by (auto simp: bind_Some_iff simp del: match_member.simps split: if_splits)
    obtain lt noff lm where l: "btf_type_by_id lb (acc_type_id la) = Some lt"
      "member_name_off lt (unat (acc_idx la)) = Some noff"
      "btf_name_by_offset lb (unat noff) = Some (Some n)" "member_type lt (unat (acc_idx la)) = Some lm"
      using Cons.prems(1) Some by (auto simp: local_names_ok_def)
    from match_member_ok [OF assms(1) l m(1)] m(2)
    have "found_path (target_compat lb (unat lm) tb) tb tid n s s1 nxt" by (simp add: search_ok_def)
    then obtain ks off a where p: "ks \<noteq> []" "spec_path tb tid [a] ks off nxt" "raw_spec s1 = raw_spec s @ ks"
      "bit_offset s1 = bit_offset s + off" "accessors s1 = accessors s @ [a]" "acc_name a = Some n"
      "target_compat lb (unat lm) tb a"
      by (auto simp: found_path_def)
    obtain ls off' fin as where q: "spec_path tb nxt as ls off' fin" "raw_spec s' = raw_spec s1 @ ls"
      "bit_offset s' = bit_offset s1 + off'" "accessors s' = accessors s1 @ as" "list_all2 (accs_match lb tb) accs as"
      using Cons.IH [OF names _ m(3)] by auto
    have "spec_path tb targ_id (a # as) (ks @ ls) (off + off') fin"
      using spec_path_append [OF spec_path_skip [OF p(2) t p(1)] q(1)] by simp
    moreover have "accs_match lb tb la a" using l(1,4) p(6,7) Some by (simp add: accs_match_def)
    ultimately show ?thesis using p(3-5) q(2-5)
      by (intro exI [of _ "ks @ ls"] exI [of _ "off + off'"] exI [of _ fin] exI [of _ "a # as"]) (simp add: add.assoc)
  next
    case None
    have i: "i \<noteq> 0" using Cons.prems(2) by simp
    obtain eid where E0: "match_element la tb i t tid s = Some (Some eid)"
      using Cons.prems(3) t None by (auto simp: bind_Some_iff split: option.splits)
    then have arr: "btf_is_array t" using i by (auto simp: match_element_def split: if_splits)
    obtain e u where E: "array_type t = Some e" "skip_mods_and_typedefs tb (unat e) = Some (u, eid)"
      using E0 arr i by (auto simp: match_element_def bind_Some_iff split: if_splits)
    let ?a = "\<lparr>acc_type_id = eid, acc_idx = acc_idx la, acc_name = None\<rparr> :: accessor"
    obtain s1 sz where R: "push_acc ?a s = Some s1" "resolve_size tb eid = Some sz"
      "0 \<le> s64_to_int sz"
      "match_accessors lb tb accs (i + 1) eid (s1\<lparr>raw_spec := raw_spec s1 @ [sint (acc_idx la)],
         bit_offset := bit_offset s1 + acc_idx la * word_of_int (s64_to_int sz) * 8\<rparr>) = Some (1, s')"
      using Cons.prems(3) t None E0 by (auto simp: bind_Some_iff Let_def split: if_splits)
    have sz: "0 \<le> sz" using R(3) resolve_size_errors [OF R(2)] by (force simp: s64_to_int_def)
    obtain ls off' fin as where q: "spec_path tb eid as ls off' fin" "raw_spec s' = raw_spec s @ sint (acc_idx la) # ls"
      "bit_offset s' = bit_offset s + (acc_idx la * word_of_int sz * 8 + off')"
      "accessors s' = accessors s @ ?a # as" "list_all2 (accs_match lb tb) accs as"
      using Cons.IH [OF names _ R(4)] bit_offset_push_acc [OF R(1)]
      by (auto simp: s64_to_int_word add.assoc)
    have "spec_path tb targ_id (?a # as) (sint (acc_idx la) # ls)
        (word_of_int (sint (acc_idx la) * sz * 8) + off') fin"
      by (rule spec_path.element [OF t arr E R(2) sz q(1)])
    moreover have "(word_of_int (sint (acc_idx la) * sz * 8) :: u32) = acc_idx la * word_of_int sz * 8"
      by simp
    moreover have "accs_match lb tb la ?a" using None by (simp add: accs_match_def)
    ultimately show ?thesis using q(2-5)
      by (intro exI [of _ "sint (acc_idx la) # ls"] exI [of _ "acc_idx la * word_of_int sz * 8 + off'"]
          exI [of _ fin] exI [of _ "?a # as"]) simp
  qed
qed

lemma parse_accessors_names:
  "parse_accessors btf i raw spec = Some (Inr spec') \<Longrightarrow>
     \<exists>accs. accessors spec' = accessors spec @ accs \<and> local_names_ok btf accs \<and>
       spec_btf spec' = spec_btf spec \<and> spec_kind spec' = spec_kind spec"
proof (induction raw arbitrary: i spec)
  case Nil
  then show ?case by (auto simp: local_names_ok_def)
next
  case (Cons idx raw)
  obtain t tid where t: "skip_mods_and_typedefs btf i = Some (t, tid)"
    using Cons.prems by (auto simp: bind_Some_iff)
  have grow: ?case
    if "parse_accessors btf j raw s = Some (Inr spec')" "accessors s = accessors spec @ new"
      "local_names_ok btf new" "spec_btf s = spec_btf spec" "spec_kind s = spec_kind spec" for j s new
  proof -
    note T = that
    obtain accs where "accessors spec' = accessors s @ accs" "local_names_ok btf accs"
      "spec_btf spec' = spec_btf s" "spec_kind spec' = spec_kind s"
      using Cons.IH [OF T(1)] by blast
    then show ?thesis
      using T(2-) by (intro exI [of _ "new @ accs"]) (auto simp: local_names_ok_def)
  qed
  show ?case
  proof (cases "btf_is_composite t")
    case True
    have "0 \<le> idx" "idx < int (btf_vlen t)"
      using Cons.prems t True by (auto simp: bind_Some_iff index_def split: if_splits)
    then obtain k where k0: "idx = int k" "k < btf_vlen t" by (metis nonneg_int_cases of_nat_less_iff)
    then obtain off noff m where k: "btf_member_bit_offset t k = Some off"
      "member_name_off t k = Some noff" "member_type t k = Some m"
      using Cons.prems t True by (auto simp: bind_Some_iff index_def Let_def)
    have u: "unat (word_of_int (int k) :: u32) = k"
      using k0(2) btf_vlen_less [of t] by (simp add: unat_of_nat take_bit_nat_eq_self)
    let ?s = "spec\<lparr>bit_offset := bit_offset spec + off\<rparr>"
    show ?thesis
    proof (cases "noff = 0")
      case zero: True
      then have "parse_accessors btf (unat m) raw ?s = Some (Inr spec')"
        using Cons.prems t True k k0 by (simp add: index_def)
      then show ?thesis by (rule grow [where new = "[]"]) (simp_all add: local_names_ok_def)
    next
      case named: False
      obtain name s where p: "btf_name_by_offset btf (unat noff) = Some name"
        "push_acc \<lparr>acc_type_id = tid, acc_idx = word_of_int idx, acc_name = name\<rparr> ?s = Some s"
        "parse_accessors btf (unat m) raw s = Some (Inr spec')"
        using Cons.prems t True k k0 named by (auto simp: bind_Some_iff index_def Let_def split: if_splits)
      have "local_names_ok btf [\<lparr>acc_type_id = tid, acc_idx = word_of_int idx, acc_name = name\<rparr>]"
        using skip_mods_result [OF t] type_at_by_id [of btf tid t] k(2,3) p(1) u k0(1)
        by (simp add: local_names_ok_def)
      from grow [OF p(3) _ this] show ?thesis
        using p(2) by (auto simp: push_acc_def split: if_splits)
    qed
  next
    case False
    then have arr: "btf_is_array t" using Cons.prems t by (auto split: if_splits)
    obtain eid a s x where "push_acc a spec = Some s" "acc_name a = None"
      "parse_accessors btf eid raw (s\<lparr>bit_offset := x\<rparr>) = Some (Inr spec')"
      using Cons.prems t False arr by (auto simp: bind_Some_iff split: if_splits)
    then show ?thesis
      by (intro grow [where new = "[a]" and s = "s\<lparr>bit_offset := x\<rparr>"])
        (auto simp: push_acc_def local_names_ok_def split: if_splits)
  qed
qed

lemma parse_spec_names:
  assumes "parse_spec btf type_id spec_str kind = Some (Inr spec)" "is_field_based kind"
  shows "\<exists>a accs. accessors spec = a # accs \<and> acc_name a = None \<and> local_names_ok btf accs \<and>
    spec_btf spec = btf \<and> spec_kind spec = kind"
proof -
  have kind: "\<not> is_type_based kind" "\<not> is_enumval_based kind"
    using assms(2) by (auto simp: is_field_based_def is_type_based_def is_enumval_based_def)
  have str: "spec_str \<noteq> []" "hd spec_str \<noteq> 58" using assms(1) by (auto simp: parse_spec_def split: if_splits)
  obtain r where r: "parse_raw spec_str [] = Some r"
    using assms(1) kind str by (auto simp: parse_spec_def bind_Some_iff Let_def)
  obtain k ks where raw: "r = Inr (k # ks)"
    using assms(1) kind str r by (auto simp: parse_spec_def Let_def split: sum.splits list.splits)
  obtain tid a s x where "push_acc a \<lparr>spec_btf = btf, accessors = [], root_type_id = type_id,
       spec_kind = kind, raw_spec = k # ks, bit_offset = 0\<rparr> = Some s" "acc_name a = None"
    "parse_accessors btf tid ks (s\<lparr>bit_offset := x\<rparr>) = Some (Inr spec)"
    using assms(1,2) kind str r raw by (auto simp: parse_spec_def Let_def bind_Some_iff split: if_splits)
  then show ?thesis
    using parse_accessors_names [of btf tid ks "s\<lparr>bit_offset := x\<rparr>" spec]
    by (auto simp: push_acc_def split: if_splits)
qed

text \<open>
  C19: when a parsed field specification matches a target type, the target specification stands
  for an access path from that type: its offset is the sum along the path, and its accessors are
  those of the path, one for every named member, with the type the member is found in, its index
  there and its name, one for every array access, with the type of the element and the index, and
  none for unnamed members. They stand for the accessors of the local specification one by one and in their
  order: a member has the same name as the local one and a type that the local
  member's type is compatible with, an array access the same index. (Provided that, as in C, no two
  members of a target type provide the same name: a member of the right name and the wrong type
  in an anonymous struct makes the search forget to take its offset back.)
\<close>

theorem spec_match_path:
  assumes "parse_spec local_btf local_id spec_str kind = Some (Inr local_spec)" "is_field_based kind"
    and "unique_names targ_btf"
    and "spec_match fuel local_spec targ_btf targ_id = Some (1, targ_spec)"
  shows "rooted_spec targ_btf targ_id (accessors targ_spec) (raw_spec targ_spec) (bit_offset targ_spec) \<and>
    list_all2 (accs_match local_btf targ_btf) (accessors local_spec) (accessors targ_spec)"
proof -
  obtain a accs where L: "accessors local_spec = a # accs" "acc_name a = None"
    "local_names_ok local_btf accs" "spec_btf local_spec = local_btf" "spec_kind local_spec = kind"
    using parse_spec_names [OF assms(1,2)] by blast
  have kind: "\<not> is_type_based kind" "\<not> is_enumval_based kind"
    using assms(2) by (auto simp: is_field_based_def is_type_based_def is_enumval_based_def)
  let ?s = "\<lparr>spec_btf = targ_btf, accessors = [], root_type_id = targ_id, spec_kind = kind,
    raw_spec = [], bit_offset = 0\<rparr>"
  let ?b = "\<lambda>tid. \<lparr>acc_type_id = tid, acc_idx = acc_idx a, acc_name = None\<rparr> :: accessor"
  have "match_accessors local_btf targ_btf (a # accs) 0 targ_id ?s = Some (1, targ_spec)"
    using assms(2,4) L kind by (simp add: spec_match_def Let_def del: match_accessors.simps)
  then obtain t tid s1 sz where R: "skip_mods_and_typedefs targ_btf targ_id = Some (t, tid)"
    "push_acc (?b tid) ?s = Some s1" "resolve_size targ_btf tid = Some sz" "0 \<le> s64_to_int sz"
    "match_accessors local_btf targ_btf accs (0 + 1) tid (s1\<lparr>raw_spec := raw_spec s1 @ [sint (acc_idx a)],
       bit_offset := bit_offset s1 + acc_idx a * word_of_int (s64_to_int sz) * 8\<rparr>) = Some (1, targ_spec)"
    using L(2) by (auto simp: bind_Some_iff match_element_def Let_def split: if_splits)
  have sz: "0 \<le> sz" using R(4) resolve_size_errors [OF R(3)] by (force simp: s64_to_int_def)
  obtain ks off fin as where p: "spec_path targ_btf tid as ks off fin" "raw_spec targ_spec = sint (acc_idx a) # ks"
    "bit_offset targ_spec = acc_idx a * word_of_int sz * 8 + off" "accessors targ_spec = ?b tid # as"
    "list_all2 (accs_match local_btf targ_btf) accs as"
    using match_accessors_path [OF assms(3) L(3) _ R(5)] bit_offset_push_acc [OF R(2)]
    by (auto simp: s64_to_int_word)
  have "bit_offset targ_spec = word_of_int (sint (acc_idx a) * sz * 8) + off" using p(3) by simp
  then have "rooted_spec targ_btf targ_id (accessors targ_spec) (raw_spec targ_spec) (bit_offset targ_spec)"
    using R(1,3) sz p(1,2,4) unfolding rooted_spec_def by blast
  then show ?thesis using p(4,5) L(1,2) by (simp add: accs_match_def)
qed

section \<open>Witnesses\<close>

definition sample_spec :: core_spec where
  "sample_spec = \<lparr>spec_btf = sample_btf,
     accessors = [\<lparr>acc_type_id = 4, acc_idx = 0, acc_name = None\<rparr>,
       \<lparr>acc_type_id = 4, acc_idx = 1, acc_name = Some (lit ''b'')\<rparr>,
       \<lparr>acc_type_id = 1, acc_idx = 2, acc_name = None\<rparr>],
     root_type_id = 4, spec_kind = BPF_CORE_FIELD_BYTE_OFFSET, raw_spec = [0, 1, 2], bit_offset = 96\<rparr>"

lemma sample_raw: "parse_raw [48, 58, 49, 58, 50] [] = Some (Inr [0, 1, 2])"
  by (simp add: parse_raw.simps scan_int_def scan_sign_def is_space_def is_digit_def digits_value_def
      word_le_nat_alt c_consts)

lemma sample_parse:
  "parse_spec sample_btf 4 [48, 58, 49, 58, 50] BPF_CORE_FIELD_BYTE_OFFSET = Some (Inr sample_spec)"
  by (simp add: parse_spec_def is_type_based_def is_enumval_based_def is_field_based_def sample_raw
     sample_skip sample_skip(1) [unfolded One_nat_def] sample_size sample_size(1) [unfolded One_nat_def]
     push_acc_def c_consts index_def is_flex_arr_def sample_names sample_spec_def
     mk_type_def btf_is_composite_def btf_is_array_def btf_kind_def kind_consts btf_vlen_def 
     btf_member_bit_offset_def member_offset_def member_name_off_def member_type_def array_type_def array_nelems_def
     btf_kflag_def rd_def Let_def lit_def)

lemma parse_spec_path_witness:
  "rooted_path sample_btf 4 [0, 1, 2] 96"
  using parse_spec_path [OF sample_parse] by (simp add: is_field_based_def sample_spec_def)

lemma parse_spec_safe_witness:
  "\<exists>r. parse_spec sample_btf 4 [48, 58, 49, 58, 50] BPF_CORE_FIELD_EXISTS = Some r"
  using parse_spec_safe [OF sample_btf_ok mods_ranked_sample refs_ok_sample _ sample_raw, of 4]
  by (simp add: sample_btf_def btf_type_cnt_def)

lemma unique_names_sample: "unique_names sample_btf"
proof -
  have *: "k = l" if "type_at sample_btf i = Some t" "btf_is_composite t"
     "k < btf_vlen t" "l < btf_vlen t" "provides sample_btf t k n" "provides sample_btf t l n" for i t k l n
     using that(1)
  proof (cases rule: sample_type_cases)
    case 5
    then have "member_name sample_btf t 0 = Some (lit ''a'')" "member_name sample_btf t 1 = Some (lit ''b'')" "btf_vlen t = 2"
      by (simp_all add: member_name_def member_name_off_def rd_def mk_type_def sample_names btf_vlen_def lit_def)
    then show ?thesis
      using that(3-6) by (auto simp: provides_def less_2_cases_iff lit_def)
  qed (use that in \<open>auto simp: btf_is_composite_def btf_void_def mk_type_def btf_kind_def kind_consts\<close>)
  then show ?thesis unfolding unique_names_def by blast
qed


lemma sample_fields_compat: "fields_are_compat sample_btf 3 sample_btf 3 = Some 1"
  by (simp add: fields_are_compat.simps [of sample_btf] sample_skip sample_skip(1) [unfolded One_nat_def]
     mk_type_def btf_is_composite_def btf_kind_def kind_consts array_type_def btf_int_offset_def rd_def)

lemma sample_match_member:
  "match_member (BPF_CORE_SPEC_MAX_LEN + 1) sample_btf \<lparr>acc_type_id = 4, acc_idx = 1, acc_name = Some (lit ''b'')\<rparr>
     sample_btf 4 (sample_spec\<lparr>accessors := take 1 (accessors sample_spec), raw_spec := [0], bit_offset := 0\<rparr>) 4 =
   Some (1, sample_spec\<lparr>accessors := take 2 (accessors sample_spec), raw_spec := [0, 1], bit_offset := 32\<rparr>, 3)"
proof -
  have D: "BPF_CORE_SPEC_MAX_LEN + 1 = Suc 64" by (simp add: BPF_CORE_SPEC_MAX_LEN_def)
  have v: "btf_vlen (mk_type 7 4 2 16 [9, 1, 0, 11, 3, 32]) = 2" by (simp add: mk_type_def btf_vlen_def)
  have c: "btf_is_composite (mk_type 7 4 2 16 [9, 1, 0, 11, 3, 32])" 
    by (simp add: mk_type_def btf_is_composite_def btf_kind_def kind_consts)
  have l: "[0..<2] = [0, 1]" by (simp add: upt_rec)
  show ?thesis
    unfolding D match_member.simps
    by (simp add: sample_skip v c l type_at_by_id [OF sample_type_at(4)])
     (simp add: mk_type_def member_name_off_def member_type_def rd_def sample_names Let_def
       btf_member_bit_offset_def member_offset_def btf_kflag_def BPF_CORE_SPEC_MAX_LEN_def sample_spec_def
       push_acc_def sample_fields_compat lit_def)
qed

lemma sample_match: "spec_match 0 sample_spec sample_btf 4 = Some (1, sample_spec)"
proof -
  have "is_flex_arr sample_btf a 3 = Some False" for a by (simp add: is_flex_arr_def)
  then show ?thesis
    using sample_match_member
  by (simp add: spec_match_def sample_spec_def is_type_based_def is_enumval_based_def is_field_based_def
     match_element_def s64_to_int_def push_acc_def sample_skip sample_skip(1) [unfolded One_nat_def] sample_size sample_size(1) [unfolded One_nat_def]
      Let_def BPF_CORE_SPEC_MAX_LEN_def del: match_member.simps)
    (simp add: mk_type_def btf_is_array_def btf_kind_def kind_consts array_type_def array_nelems_def rd_def sample_skip
       sample_skip(1) [unfolded One_nat_def] sample_size sample_size(1) [unfolded One_nat_def])
qed

lemma spec_match_path_witness:
  "rooted_spec sample_btf 4 (accessors sample_spec) [0, 1, 2] 96 \<and>
     list_all2 (accs_match sample_btf sample_btf) (accessors sample_spec) (accessors sample_spec)"
  using spec_match_path [OF sample_parse _ unique_names_sample sample_match]
  by (simp add: is_field_based_def sample_spec_def)
end
