(* ===== verification/CoreRelo.thy ===== *)
theory CoreRelo
  imports CoreSpec
begin

text \<open>
  The second half of \<^verbatim>\<open>libbpf/src/relo_core.c\<close>: the value a relocation puts into an instruction,
  computed from the specification it resolves to, and the patching of the instruction.

  An instruction is a record of its fields; \<open>i_off\<close> and \<open>i_imm\<close> hold the bits of the signed fields.
  A pointer to an instruction is the list of the instructions from it on. The code is that of a
  little-endian host.
\<close>

unbundle bit_operations_syntax

section \<open>Instructions\<close>

record bpf_insn =
  i_code :: u8
  dst_reg :: "4 word"
  src_reg :: "4 word"
  i_off :: u16
  i_imm :: u32

definition BPF_LD :: u8 where [c_consts]: "BPF_LD = 0x00"
definition BPF_LDX :: u8 where [c_consts]: "BPF_LDX = 0x01"
definition BPF_ST :: u8 where [c_consts]: "BPF_ST = 0x02"
definition BPF_STX :: u8 where [c_consts]: "BPF_STX = 0x03"
definition BPF_ALU :: u8 where [c_consts]: "BPF_ALU = 0x04"
definition BPF_JMP :: u8 where [c_consts]: "BPF_JMP = 0x05"
definition BPF_ALU64 :: u8 where [c_consts]: "BPF_ALU64 = 0x07"
definition BPF_W :: u8 where [c_consts]: "BPF_W = 0x00"
definition BPF_H :: u8 where [c_consts]: "BPF_H = 0x08"
definition BPF_B :: u8 where [c_consts]: "BPF_B = 0x10"
definition BPF_DW :: u8 where [c_consts]: "BPF_DW = 0x18"
definition BPF_IMM :: u8 where [c_consts]: "BPF_IMM = 0x00"
definition BPF_K :: u8 where [c_consts]: "BPF_K = 0x00"
definition BPF_CALL :: u8 where [c_consts]: "BPF_CALL = 0x80"

definition BPF_CLASS :: "u8 \<Rightarrow> u8" where "BPF_CLASS c = c AND 0x07"
definition BPF_SIZE :: "u8 \<Rightarrow> u8" where "BPF_SIZE c = c AND 0x18"
definition BPF_MODE :: "u8 \<Rightarrow> u8" where "BPF_MODE c = c AND 0xe0"
definition BPF_SRC :: "u8 \<Rightarrow> u8" where "BPF_SRC c = c AND 0x08"

definition is_ldimm64_insn :: "bpf_insn \<Rightarrow> bool" where
  "is_ldimm64_insn insn \<longleftrightarrow> i_code insn = BPF_LD OR BPF_IMM OR BPF_DW"

definition insn_bpf_size_to_bytes :: "bpf_insn \<Rightarrow> int" where
  "insn_bpf_size_to_bytes insn =
     (let s = BPF_SIZE (i_code insn)
       in if s = BPF_DW then 8 else if s = BPF_W then 4 else if s = BPF_H then 2
          else if s = BPF_B then 1 else - 1)"

definition insn_bytes_to_bpf_size :: "u32 \<Rightarrow> int" where
  "insn_bytes_to_bpf_size sz =
     (if sz = 8 then uint BPF_DW else if sz = 4 then uint BPF_W else if sz = 2 then uint BPF_H
      else if sz = 1 then uint BPF_B else - 1)"

section \<open>Values\<close>

text \<open>
  What \<^verbatim>\<open>bpf_core_calc_field_relo\<close> writes through its pointers; what it does not write keeps the
  value that \<^verbatim>\<open>bpf_core_calc_relo\<close> has given it before, 0 or true.
\<close>

record field_relo =
  f_val :: u32
  f_sz :: u32
  f_type :: nat
  f_validate :: bool

text \<open>The loop that widens the load of a bitfield until it contains all of it.\<close>

function bitfield_window :: "u32 \<Rightarrow> u32 \<Rightarrow> u32 \<Rightarrow> u32 \<Rightarrow> (int + u32 \<times> u32) option" where
  "bitfield_window bit_off bit_sz byte_sz byte_off =
     (if bit_off + bit_sz - byte_off * 8 > byte_sz * 8 then
        if byte_sz \<ge> 8 then Some (Inl (- E2BIG))
        else if byte_sz = 0 then None
        else bitfield_window bit_off bit_sz (byte_sz * 2) (bit_off div 8 div (byte_sz * 2) * (byte_sz * 2))
      else Some (Inr (byte_sz, byte_off)))"
  by pat_completeness auto

termination
proof (relation "measure (\<lambda>(bit_off, bit_sz, byte_sz, byte_off). 8 - unat byte_sz)", goal_cases)
  case (2 bit_off bit_sz byte_sz byte_off)
  then have "unat byte_sz < 8" "unat byte_sz \<noteq> 0" by (simp_all add: word_le_nat_alt unat_eq_0 not_le)
  then have "unat byte_sz < unat (byte_sz * 2)" by (simp add: unat_word_ariths)
  then show ?case using \<open>unat byte_sz < 8\<close> by simp
qed simp

declare bitfield_window.simps [simp del]

text \<open>The part for a named member \<open>acc\<close> of type \<open>t\<close>.\<close>

definition calc_member_relo :: "relo_kind \<Rightarrow> core_spec \<Rightarrow> accessor \<Rightarrow> btf_type \<Rightarrow> (int + field_relo) option" where
  "calc_member_relo kind spec acc t = do {
     m_type \<leftarrow> member_type t (unat (acc_idx acc));
     (mt, field_type_id) \<leftarrow> skip_mods_and_typedefs (spec_btf spec) (unat m_type);
     let bit_off = bit_offset spec;
     member_bit_sz \<leftarrow> btf_member_bitfield_size t (unat (acc_idx acc));
     let bitfield = member_bit_sz > 0;
     w \<leftarrow> (if bitfield then
             if size_type mt = 0 then None
             else bitfield_window bit_off member_bit_sz (size_type mt)
                    (bit_off div 8 div size_type mt * size_type mt)
           else do {
             sz \<leftarrow> resolve_size (spec_btf spec) field_type_id;
             Some (if sz < 0 then Inl (- EINVAL) else Inr (word_of_int sz, bit_off div 8))
           });
     case w of
       Inl err \<Rightarrow> Some (Inl err)
     | Inr (byte_sz, byte_off) \<Rightarrow>
         let bit_sz = (if bitfield then member_bit_sz else byte_sz * 8);
             result = \<lparr>f_val = 0, f_sz = 0, f_type = 0, f_validate = \<not> bitfield\<rparr>
          in case kind of
               BPF_CORE_FIELD_BYTE_OFFSET \<Rightarrow>
                 Some (Inr (if bitfield then result\<lparr>f_val := byte_off\<rparr>
                            else result\<lparr>f_val := byte_off, f_sz := byte_sz, f_type := field_type_id\<rparr>))
             | BPF_CORE_FIELD_BYTE_SIZE \<Rightarrow> Some (Inr (result\<lparr>f_val := byte_sz\<rparr>))
             | BPF_CORE_FIELD_SIGNED \<Rightarrow> do {
                 sg \<leftarrow> (if btf_is_enum mt then Some True
                        else do { enc \<leftarrow> btf_int_encoding mt; Some (enc AND BTF_INT_SIGNED \<noteq> 0) });
                 Some (Inr (result\<lparr>f_val := if sg then 1 else 0, f_validate := True\<rparr>))
               }
             | BPF_CORE_FIELD_LSHIFT_U64 \<Rightarrow>
                 Some (Inr (result\<lparr>f_val := 64 - (bit_off + bit_sz - byte_off * 8)\<rparr>))
             | BPF_CORE_FIELD_RSHIFT_U64 \<Rightarrow>
                 Some (Inr (result\<lparr>f_val := 64 - bit_sz, f_validate := True\<rparr>))
             | _ \<Rightarrow> Some (Inl (- EOPNOTSUPP))
   }"

definition calc_field_relo :: "relo_kind \<Rightarrow> core_spec option \<Rightarrow> (int + field_relo) option" where
  "calc_field_relo kind spec_p =
     (let result = \<lparr>f_val = 0, f_sz = 0, f_type = 0, f_validate = True\<rparr>
       in if kind = BPF_CORE_FIELD_EXISTS
          then Some (Inr (result\<lparr>f_val := if spec_p \<noteq> None then 1 else 0\<rparr>))
          else case spec_p of
            None \<Rightarrow> Some (Inl (- EUCLEAN))
          | Some spec \<Rightarrow> do {
              acc \<leftarrow> (if accessors spec = [] then None else Some (last (accessors spec)));
              t \<leftarrow> btf_type_by_id (spec_btf spec) (acc_type_id acc);
              if acc_name acc = None then
                if kind = BPF_CORE_FIELD_BYTE_OFFSET then do {
                  sz \<leftarrow> resolve_size (spec_btf spec) (acc_type_id acc);
                  Some (if sz < 0 then Inl (- EINVAL)
                        else Inr (result\<lparr>f_val := bit_offset spec div 8, f_sz := word_of_int sz,
                                         f_type := acc_type_id acc\<rparr>))
                }
                else if kind = BPF_CORE_FIELD_BYTE_SIZE then do {
                  sz \<leftarrow> resolve_size (spec_btf spec) (acc_type_id acc);
                  Some (if sz < 0 then Inl (- EINVAL) else Inr (result\<lparr>f_val := word_of_int sz\<rparr>))
                }
                else Some (Inl (- EINVAL))
              else calc_member_relo kind spec acc t
            })"

text \<open>The other two kinds of relocations: a value, and whether to validate it.\<close>

definition calc_type_relo :: "relo_kind \<Rightarrow> core_spec option \<Rightarrow> (int + u32 \<times> bool) option" where
  "calc_type_relo kind spec_p =
     (case spec_p of
        None \<Rightarrow> Some (Inr (0, True))
      | Some spec \<Rightarrow>
          (case kind of
             BPF_CORE_TYPE_ID_TARGET \<Rightarrow> Some (Inr (of_nat (root_type_id spec), False))
           | BPF_CORE_TYPE_EXISTS \<Rightarrow> Some (Inr (1, True))
           | BPF_CORE_TYPE_SIZE \<Rightarrow> do {
               sz \<leftarrow> resolve_size (spec_btf spec) (root_type_id spec);
               Some (if sz < 0 then Inl (- EINVAL) else Inr (word_of_int sz, True))
             }
           | _ \<Rightarrow> Some (Inl (- EOPNOTSUPP))))"

definition calc_enumval_relo :: "relo_kind \<Rightarrow> core_spec option \<Rightarrow> (int + u32) option" where
  "calc_enumval_relo kind spec_p =
     (case kind of
        BPF_CORE_ENUMVAL_EXISTS \<Rightarrow> Some (Inr (if spec_p \<noteq> None then 1 else 0))
      | BPF_CORE_ENUMVAL_VALUE \<Rightarrow>
          (case spec_p of
             None \<Rightarrow> Some (Inl (- EUCLEAN))
           | Some spec \<Rightarrow> do {
               acc \<leftarrow> rd (accessors spec) 0;
               t \<leftarrow> btf_type_by_id (spec_btf spec) (acc_type_id acc);
               v \<leftarrow> enum_val t (unat (acc_idx acc));
               Some (Inr v)
             })
      | _ \<Rightarrow> Some (Inl (- EOPNOTSUPP)))"

record relo_res =
  orig_val :: u32
  new_val :: u32
  poison :: bool
  validate :: bool
  fail_memsz_adjust :: bool
  orig_sz :: u32
  orig_type_id :: nat
  new_sz :: u32
  new_type_id :: nat

definition relo_res_init :: relo_res where
  "relo_res_init = \<lparr>orig_val = 0, new_val = 0, poison = False, validate = True,
     fail_memsz_adjust = False, orig_sz = 0, orig_type_id = 0, new_sz = 0, new_type_id = 0\<rparr>"

text \<open>The end of \<^verbatim>\<open>bpf_core_calc_relo\<close>, for an error.\<close>

definition relo_done :: "int \<Rightarrow> relo_res \<Rightarrow> int + relo_res" where
  "relo_done err res = (if err = - EUCLEAN then Inr (res\<lparr>poison := True\<rparr>) else Inl err)"

text \<open>Whether the size of a load or store may be changed along with that of the field.\<close>

definition memsz_adjustable :: "btf_type \<Rightarrow> btf_type \<Rightarrow> bool option" where
  "memsz_adjustable orig_t new_t =
     (if btf_is_ptr orig_t \<and> btf_is_ptr new_t then Some True
      else if btf_is_int orig_t \<and> btf_is_int new_t then do {
        enc \<leftarrow> btf_int_encoding orig_t;
        if enc = BTF_INT_SIGNED then Some False
        else do { enc \<leftarrow> btf_int_encoding new_t; Some (enc \<noteq> BTF_INT_SIGNED) }
      }
      else Some False)"

definition calc_relo :: "relo_kind \<Rightarrow> core_spec \<Rightarrow> core_spec option \<Rightarrow> (int + relo_res) option" where
  "calc_relo kind local_spec targ_spec =
     (let res = relo_res_init
       in if is_field_based kind then do {
            l \<leftarrow> calc_field_relo kind (Some local_spec);
            case l of
              Inl err \<Rightarrow> Some (relo_done err res)
            | Inr lf \<Rightarrow> do {
                let res = res\<lparr>orig_val := f_val lf, orig_sz := f_sz lf, orig_type_id := f_type lf,
                              validate := f_validate lf\<rparr>;
                r \<leftarrow> calc_field_relo kind targ_spec;
                case r of
                  Inl err \<Rightarrow> Some (relo_done err res)
                | Inr tf \<Rightarrow>
                    let res = res\<lparr>new_val := f_val tf, new_sz := f_sz tf, new_type_id := f_type tf\<rparr>
                     in if orig_sz res \<noteq> new_sz res then do {
                          ts \<leftarrow> targ_spec;
                          orig_t \<leftarrow> btf_type_by_id (spec_btf local_spec) (orig_type_id res);
                          new_t \<leftarrow> btf_type_by_id (spec_btf ts) (new_type_id res);
                          ok \<leftarrow> memsz_adjustable orig_t new_t;
                          Some (Inr (if ok then res else res\<lparr>fail_memsz_adjust := True\<rparr>))
                        }
                        else Some (Inr res)
              }
          }
          else if is_type_based kind then do {
            l \<leftarrow> calc_type_relo kind (Some local_spec);
            case l of
              Inl err \<Rightarrow> Some (relo_done err res)
            | Inr (v, val) \<Rightarrow> do {
                let res = res\<lparr>orig_val := v, validate := val\<rparr>;
                r \<leftarrow> calc_type_relo kind targ_spec;
                case r of
                  Inl err \<Rightarrow> Some (relo_done err res)
                | Inr (v, _) \<Rightarrow> Some (Inr (res\<lparr>new_val := v\<rparr>))
              }
          }
          else if is_enumval_based kind then do {
            l \<leftarrow> calc_enumval_relo kind (Some local_spec);
            case l of
              Inl err \<Rightarrow> Some (relo_done err res)
            | Inr v \<Rightarrow> do {
                let res = res\<lparr>orig_val := v\<rparr>;
                r \<leftarrow> calc_enumval_relo kind targ_spec;
                case r of
                  Inl err \<Rightarrow> Some (relo_done err res)
                | Inr v \<Rightarrow> Some (Inr (res\<lparr>new_val := v\<rparr>))
              }
          }
          else Some (relo_done (- EOPNOTSUPP) res))"

section \<open>Patching\<close>

definition poison_insn :: bpf_insn where
  "poison_insn = \<lparr>i_code = BPF_JMP OR BPF_CALL, dst_reg = 0, src_reg = 0, i_off = 0, i_imm = 195896080\<rparr>"

text \<open>An instruction is stored behind a pointer.\<close>

definition st_insn :: "bpf_insn list \<Rightarrow> nat \<Rightarrow> bpf_insn \<Rightarrow> bpf_insn list option" where
  "st_insn insns i insn = (if i < length insns then Some (insns[i := insn]) else None)"

definition poison_insns :: "bpf_insn list \<Rightarrow> (int \<times> bpf_insn list) option" where
  "poison_insns insns = do {
     insn \<leftarrow> rd insns 0;
     insns \<leftarrow> (if is_ldimm64_insn insn then st_insn insns 1 poison_insn else Some insns);
     insns \<leftarrow> st_insn insns 0 poison_insn;
     Some (0, insns)
   }"

definition patch_mem :: "bpf_insn list \<Rightarrow> bpf_insn \<Rightarrow> relo_res \<Rightarrow> (int \<times> bpf_insn list) option" where
  "patch_mem insns insn res =
     (if validate res \<and> scast (i_off insn) \<noteq> orig_val res then Some (- EINVAL, insns)
      else if new_val res > 32767 then Some (- ERANGE, insns)
      else if fail_memsz_adjust res then poison_insns insns
      else do {
        let insn = insn\<lparr>i_off := ucast (new_val res)\<rparr>;
        insns \<leftarrow> st_insn insns 0 insn;
        if new_sz res \<noteq> orig_sz res then
          if word_of_int (insn_bpf_size_to_bytes insn) \<noteq> orig_sz res then Some (- EINVAL, insns)
          else let insn_bpf_sz = insn_bytes_to_bpf_size (new_sz res)
            in if insn_bpf_sz < 0 then Some (- EINVAL, insns)
               else do {
                 insns \<leftarrow> st_insn insns 0
                   (insn\<lparr>i_code := BPF_MODE (i_code insn) OR word_of_int insn_bpf_sz OR BPF_CLASS (i_code insn)\<rparr>);
                 Some (0, insns)
               }
        else Some (0, insns)
      })"

definition patch_ldimm64 :: "bpf_insn list \<Rightarrow> bpf_insn \<Rightarrow> relo_res \<Rightarrow> (int \<times> bpf_insn list) option" where
  "patch_ldimm64 insns insn res =
     (if \<not> is_ldimm64_insn insn \<or> src_reg insn \<noteq> 0 \<or> i_off insn \<noteq> 0 then Some (- EINVAL, insns)
      else do {
        hi \<leftarrow> rd insns 1;
        if i_code hi \<noteq> 0 \<or> dst_reg hi \<noteq> 0 \<or> src_reg hi \<noteq> 0 \<or> i_off hi \<noteq> 0 then Some (- EINVAL, insns)
        else do {
          let imm64 = (scast (i_imm insn) + push_bit 32 (scast (i_imm hi)) :: u64);
          if validate res \<and> imm64 \<noteq> ucast (orig_val res) then Some (- EINVAL, insns)
          else do {
            insns \<leftarrow> st_insn insns 0 (insn\<lparr>i_imm := new_val res\<rparr>);
            insns \<leftarrow> st_insn insns 1 (hi\<lparr>i_imm := 0\<rparr>);
            Some (0, insns)
          }
        }
      })"

definition patch_insn :: "bpf_insn list \<Rightarrow> relo_res \<Rightarrow> (int \<times> bpf_insn list) option" where
  "patch_insn insns res = do {
     insn \<leftarrow> rd insns 0;
     if poison res then poison_insns insns
     else let class = BPF_CLASS (i_code insn)
       in if class = BPF_ALU \<or> class = BPF_ALU64 then
            if BPF_SRC (i_code insn) \<noteq> BPF_K then Some (- EINVAL, insns)
            else if validate res \<and> i_imm insn \<noteq> orig_val res then Some (- EINVAL, insns)
            else do {
              insns \<leftarrow> st_insn insns 0 (insn\<lparr>i_imm := new_val res\<rparr>);
              Some (0, insns)
            }
          else if class = BPF_LDX \<or> class = BPF_ST \<or> class = BPF_STX then patch_mem insns insn res
          else if class = BPF_LD then patch_ldimm64 insns insn res
          else Some (- EINVAL, insns)
   }"

section \<open>Reading a bitfield\<close>

fun le_nat :: "u8 list \<Rightarrow> nat" where
  "le_nat [] = 0"
| "le_nat (b # bs) = unat b + 256 * le_nat bs"

lemma le_nat_drop: "le_nat (drop k bs) = le_nat bs div 256 ^ k"
proof (induction k arbitrary: bs)
  case (Suc k)
  show ?case
  proof (cases bs)
    case (Cons b cs)
    have "(unat b + 256 * le_nat cs) div 256 = le_nat cs" using unat_lt_256 [of b] by simp
    then show ?thesis using Suc Cons by (simp add: div_mult2_eq)
  qed simp
qed simp

lemma le_nat_take: "le_nat (take n bs) = le_nat bs mod 256 ^ n"
proof (induction n arbitrary: bs)
  case (Suc n)
  show ?case
  proof (cases bs)
    case (Cons b cs)
    have "(unat b + 256 * le_nat cs) mod (256 * 256 ^ n) = unat b + 256 * (le_nat cs mod 256 ^ n)"
      using unat_lt_256 [of b] by (simp add: mod_mult2_eq)
    then show ?thesis using Suc Cons by simp
  qed simp
qed simp

definition load :: "u8 list \<Rightarrow> nat \<Rightarrow> nat \<Rightarrow> u64" where
  "load mem off sz = of_nat (le_nat (take sz (drop off mem)))"

definition field_value :: "u8 list \<Rightarrow> nat \<Rightarrow> nat \<Rightarrow> nat" where
  "field_value mem bit_off bit_sz = (le_nat mem div 2 ^ bit_off) mod 2 ^ bit_sz"

lemma shifts_extract:
  assumes "8 * off \<le> bo" "bo + bs \<le> 8 * (off + sz)" "sz \<le> 8"
  shows "drop_bit (64 - bs) (push_bit (64 - (bo + bs - 8 * off)) (load mem off sz)) =
    of_nat (field_value mem bo bs)"
proof -
  have "le_nat (take sz (drop off mem)) = take_bit (8 * sz) (drop_bit (8 * off) (le_nat mem))"
    by (simp add: le_nat_take le_nat_drop take_bit_eq_mod drop_bit_eq_div power_mult)
  moreover have "field_value mem bo bs = take_bit bs (drop_bit bo (le_nat mem))"
    by (simp add: field_value_def take_bit_eq_mod drop_bit_eq_div)
  ultimately show ?thesis
    unfolding load_def using assms
    by (intro bit_word_eqI) (auto simp: bit_simps add.commute)
qed

definition window_fits :: "nat \<Rightarrow> nat \<Rightarrow> nat \<Rightarrow> bool" where
  "window_fits bo bs sz \<longleftrightarrow> bo + bs \<le> 8 * (bo div 8 div sz * sz + sz)"

lemma aligned_offset:
  fixes bo sz :: u32
  assumes "0 < unat sz"
  shows "unat (bo div 8 div sz * sz) = unat bo div 8 div unat sz * unat sz"
    "8 * (unat bo div 8 div unat sz * unat sz) \<le> unat bo"
proof -
  have le: "unat bo div 8 div unat sz * unat sz \<le> unat bo div 8" by simp
  then show "8 * (unat bo div 8 div unat sz * unat sz) \<le> unat bo" by linarith
  have "unat bo < 2 ^ LENGTH(32)" by (rule unsigned_less)
  then have "unat bo < 2 ^ 32" by simp
  then have "unat bo div 8 div unat sz * unat sz < 2 ^ 32" using le by linarith
  then show "unat (bo div 8 div sz * sz) = unat bo div 8 div unat sz * unat sz"
    by (simp add: unat_word_ariths(2) unat_div)
qed

lemma window_test:
  fixes bo bs sz :: u32
  assumes "unat bo + unat bs < 2 ^ 32" "0 < unat sz" "unat sz \<le> 8"
  defines "d \<equiv> bo div 8 div sz * sz"
  shows "unat (bo + bs - d * 8) = unat bo + unat bs - 8 * unat d"
    and "bo + bs - d * 8 > sz * 8 \<longleftrightarrow> \<not> window_fits (unat bo) (unat bs) (unat sz)"
proof -
  note a = aligned_offset [OF assms(2), of bo, folded d_def]
  have d8: "unat (d * 8) = 8 * unat d"
    using a assms(1) by (simp add: unat_word_ariths(2) mult.commute)
  have s: "unat (bo + bs) = unat bo + unat bs" using assms(1) by (simp add: unat_word_ariths(1))
  have "d * 8 \<le> bo + bs" unfolding word_le_nat_alt d8 s using a by simp
  then show r: "unat (bo + bs - d * 8) = unat bo + unat bs - 8 * unat d"
    by (simp add: unat_sub s d8)
  have "unat (sz * 8) = 8 * unat sz" using assms(3) by (simp add: unat_word_ariths(2))
  then show "bo + bs - d * 8 > sz * 8 \<longleftrightarrow> \<not> window_fits (unat bo) (unat bs) (unat sz)"
    unfolding word_less_nat_alt r window_fits_def a(1) [symmetric] by auto
qed

text \<open>The smallest aligned load of 1, 2, 4 or 8 bytes, but at least \<open>lo\<close>, that contains the field.\<close>

definition smallest_window :: "u32 \<Rightarrow> u32 \<Rightarrow> nat \<Rightarrow> int + u32 \<times> u32 \<Rightarrow> bool" where
  "smallest_window bo bs lo r = (case r of
      Inl err \<Rightarrow> err = - E2BIG \<and> (\<forall>s \<in> {1, 2, 4, 8}. lo \<le> s \<longrightarrow> \<not> window_fits (unat bo) (unat bs) s)
    | Inr (s, d) \<Rightarrow> unat s \<in> {1, 2, 4, 8} \<and> lo \<le> unat s \<and> d = bo div 8 div s * s \<and>
        window_fits (unat bo) (unat bs) (unat s) \<and>
        (\<forall>s' \<in> {1, 2, 4, 8}. lo \<le> s' \<and> s' < unat s \<longrightarrow> \<not> window_fits (unat bo) (unat bs) s'))"

lemma smallest_window_double:
  assumes "smallest_window bo bs (2 * lo) r" "lo \<in> {1, 2, 4}" "\<not> window_fits (unat bo) (unat bs) lo"
  shows "smallest_window bo bs lo r"
proof -
  have none: "\<not> window_fits (unat bo) (unat bs) s"
    if "s \<in> {1, 2, 4, 8}" "lo \<le> s" "2 * lo \<le> s \<Longrightarrow> \<not> window_fits (unat bo) (unat bs) s" for s
  proof -
    have "s = lo \<or> 2 * lo \<le> s" using that(1,2) assms(2) by auto
    then show ?thesis using that(3) assms(3) by blast
  qed
  show ?thesis
  proof (cases r)
    case (Inl err)
    have "err = - E2BIG"
      "\<And>s. s \<in> {1, 2, 4, 8} \<Longrightarrow> 2 * lo \<le> s \<Longrightarrow> \<not> window_fits (unat bo) (unat bs) s"
      using assms(1) [unfolded smallest_window_def Inl sum.case] by blast+
    then show ?thesis unfolding smallest_window_def Inl sum.case using none by blast
  next
    case (Inr w)
    obtain s d where w: "w = (s, d)" by (cases w)
    have A: "unat s \<in> {1, 2, 4, 8}" "2 * lo \<le> unat s" "d = bo div 8 div s * s"
      "window_fits (unat bo) (unat bs) (unat s)"
      "\<And>s'. s' \<in> {1, 2, 4, 8} \<Longrightarrow> 2 * lo \<le> s' \<Longrightarrow> s' < unat s \<Longrightarrow> \<not> window_fits (unat bo) (unat bs) s'"
      using assms(1) [unfolded smallest_window_def Inr w sum.case prod.case] by blast+
    have "lo \<le> unat s" using A(2) by linarith
    then show ?thesis
      unfolding smallest_window_def Inr w sum.case prod.case using A none by blast
  qed
qed

text \<open>It is what the loop finds.\<close>

lemma bitfield_window_result:
  assumes "unat bo + unat bs < 2 ^ 32" "unat sz \<in> {1, 2, 4, 8}"
    and "bitfield_window bo bs sz (bo div 8 div sz * sz) = Some r"
  shows "smallest_window bo bs (unat sz) r"
proof -
  have "bitfield_window bo bs sz off = Some r \<Longrightarrow> off = bo div 8 div sz * sz \<Longrightarrow> unat sz \<in> {1, 2, 4, 8} \<Longrightarrow>
      unat bo + unat bs < 2 ^ 32 \<Longrightarrow> ?thesis" for off
  proof (induction bo bs sz off rule: bitfield_window.induct)
    case (1 bo bs sz off)
    have sz: "0 < unat sz" "unat sz \<le> 8" "sz \<noteq> 0" using "1.prems"(3) by auto
    note T = window_test(2) [OF "1.prems"(4) sz(1,2), folded "1.prems"(2)]
    show ?case
    proof (cases "window_fits (unat bo) (unat bs) (unat sz)")
      case True
      then have "r = Inr (sz, off)"
        using "1.prems"(1) T by (simp add: bitfield_window.simps [of bo bs sz off])
      then show ?thesis using True "1.prems"(2,3) by (auto simp: smallest_window_def)
    next
      case False
      then have big: "bo + bs - off * 8 > sz * 8" using T by simp
      show ?thesis
      proof (cases "sz \<ge> 8")
        case True
        then have "unat sz = 8" using sz(2) by (simp add: word_le_nat_alt)
        moreover have "r = Inl (- E2BIG)"
          using "1.prems"(1) big True by (simp add: bitfield_window.simps [of bo bs sz off])
        ultimately show ?thesis using False by (auto simp: smallest_window_def)
      next
        case small: False
        then have s: "unat sz \<in> {1, 2, 4}" "unat (sz * 2) = 2 * unat sz"
          using "1.prems"(3) by (auto simp: word_le_nat_alt unat_word_ariths(2))
        have "bitfield_window bo bs (sz * 2) (bo div 8 div (sz * 2) * (sz * 2)) = Some r"
          using "1.prems"(1) big small sz(3) by (simp add: bitfield_window.simps [of bo bs sz off])
        from "1.IH" [OF big small sz(3) this refl] s "1.prems"(4)
        have "smallest_window bo bs (2 * unat sz) r" by auto
        then show ?thesis using smallest_window_double False s(1) by blast
      qed
    qed
  qed
  then show ?thesis using assms by blast
qed
lemma bitfield_window_total: "sz \<noteq> 0 \<Longrightarrow> \<exists>r. bitfield_window bo bs sz off = Some r"
proof (induction bo bs sz off rule: bitfield_window.induct)
  case (1 bo bs sz off)
  have "sz * 2 \<noteq> 0" if "\<not> 8 \<le> sz"
  proof -
    have "unat (sz * 2) = 2 * unat sz" using that by (simp add: word_le_nat_alt unat_word_ariths(2))
    then show ?thesis using "1.prems" by (metis mult_eq_0_iff unat_eq_0 zero_neq_numeral)
  qed
  then show ?case using "1.IH" "1.prems" by (simp add: bitfield_window.simps [of bo bs sz off])
qed

lemma window_width:
  fixes o8 sz bo bs :: nat
  shows "bo + bs \<le> 8 * (o8 + sz) \<Longrightarrow> sz \<le> 8 \<Longrightarrow> bo + bs - 8 * o8 \<le> 64"
    and "bo + bs \<le> 8 * (o8 + sz) \<Longrightarrow> sz \<le> 8 \<Longrightarrow> 8 * o8 \<le> bo \<Longrightarrow> bs \<le> 64"
  by presburger+

text \<open>A specification whose last accessor is a bitfield: its width, and the size of its declared type.\<close>

definition bitfield_member :: "core_spec \<Rightarrow> u32 \<Rightarrow> u32 \<Rightarrow> bool" where
  "bitfield_member spec bit_sz sz \<longleftrightarrow>
     (\<exists>t m mt ft. let acc = last (accessors spec); i = unat (acc_idx acc) in
        accessors spec \<noteq> [] \<and> acc_name acc \<noteq> None \<and>
        btf_type_by_id (spec_btf spec) (acc_type_id acc) = Some t \<and> member_type t i = Some m \<and>
        skip_mods_and_typedefs (spec_btf spec) (unat m) = Some (mt, ft) \<and>
        btf_member_bitfield_size t i = Some bit_sz \<and> size_type mt = sz \<and> bit_sz > 0)"

abbreviation bitfield_kinds :: "relo_kind set" where
  "bitfield_kinds \<equiv> {BPF_CORE_FIELD_BYTE_OFFSET, BPF_CORE_FIELD_BYTE_SIZE, BPF_CORE_FIELD_LSHIFT_U64,
     BPF_CORE_FIELD_RSHIFT_U64}"

lemma calc_bitfield_relo:
  assumes "bitfield_member spec bit_sz sz" "sz \<noteq> 0"
    and "bitfield_window (bit_offset spec) bit_sz sz (bit_offset spec div 8 div sz * sz) = Some w"
  shows "kind \<in> bitfield_kinds \<Longrightarrow> w = Inl err \<Longrightarrow> calc_field_relo kind (Some spec) = Some (Inl err)"
    and "w = Inr (lsz, off) \<Longrightarrow> calc_field_relo BPF_CORE_FIELD_BYTE_OFFSET (Some spec) =
      Some (Inr \<lparr>f_val = off, f_sz = 0, f_type = 0, f_validate = False\<rparr>)"
    and "w = Inr (lsz, off) \<Longrightarrow> calc_field_relo BPF_CORE_FIELD_BYTE_SIZE (Some spec) =
      Some (Inr \<lparr>f_val = lsz, f_sz = 0, f_type = 0, f_validate = False\<rparr>)"
    and "w = Inr (lsz, off) \<Longrightarrow> calc_field_relo BPF_CORE_FIELD_LSHIFT_U64 (Some spec) =
      Some (Inr \<lparr>f_val = 64 - (bit_offset spec + bit_sz - off * 8), f_sz = 0, f_type = 0, f_validate = False\<rparr>)"
    and "w = Inr (lsz, off) \<Longrightarrow> calc_field_relo BPF_CORE_FIELD_RSHIFT_U64 (Some spec) =
      Some (Inr \<lparr>f_val = 64 - bit_sz, f_sz = 0, f_type = 0, f_validate = True\<rparr>)"
  using assms
  by (auto simp: bitfield_member_def calc_field_relo_def calc_member_relo_def Let_def)

text \<open>
  A bitfield of a 16-byte type is accepted all the same: the byte size given for it is one that no
  instruction can load.
\<close>

lemma wide_bitfield_accepted:
  assumes "bitfield_member spec bit_sz 16" "bit_offset spec = 0" "bit_sz \<le> 128"
  shows "calc_field_relo BPF_CORE_FIELD_BYTE_SIZE (Some spec) =
    Some (Inr \<lparr>f_val = 16, f_sz = 0, f_type = 0, f_validate = False\<rparr>)"
proof -
  have "bitfield_window (bit_offset spec) bit_sz 16 (bit_offset spec div 8 div 16 * 16) = Some (Inr (16, 0))"
    using assms(2,3) by (simp add: bitfield_window.simps not_less)
  from calc_bitfield_relo(3) [OF assms(1) _ this refl] show ?thesis by simp
qed

text \<open>
  C23: the four values of the relocation of a bitfield belong together, for a field whose declared type has
  the size 1, 2, 4 or 8 (with a 16-byte type the code answers with a load that no instruction can do, lemma
  \<open>wide_bitfield_accepted\<close>) and that lies within the first 512 MiB of its root: when some aligned load of 1, 2,
  4 or 8 bytes, not smaller than the declared type, contains the field, then loading the byte
  size at the byte offset, shifting left and then right by the two shifts gives the field's
  bits and nothing else, whatever the memory holds; and when no such load contains it, every one
  of the four relocations is refused.
\<close>

theorem bitfield_relo_reads_field:
  assumes "bitfield_member spec bit_sz sz" "unat sz \<in> {1, 2, 4, 8}"
    and "unat (bit_offset spec) + unat bit_sz < 2 ^ 32"
  shows "if \<exists>s \<in> {1, 2, 4, 8}. unat sz \<le> s \<and> window_fits (unat (bit_offset spec)) (unat bit_sz) s
    then \<exists>off lsz l r.
      calc_field_relo BPF_CORE_FIELD_BYTE_OFFSET (Some spec) =
        Some (Inr \<lparr>f_val = off, f_sz = 0, f_type = 0, f_validate = False\<rparr>) \<and>
      calc_field_relo BPF_CORE_FIELD_BYTE_SIZE (Some spec) =
        Some (Inr \<lparr>f_val = lsz, f_sz = 0, f_type = 0, f_validate = False\<rparr>) \<and>
      calc_field_relo BPF_CORE_FIELD_LSHIFT_U64 (Some spec) =
        Some (Inr \<lparr>f_val = l, f_sz = 0, f_type = 0, f_validate = False\<rparr>) \<and>
      calc_field_relo BPF_CORE_FIELD_RSHIFT_U64 (Some spec) =
        Some (Inr \<lparr>f_val = r, f_sz = 0, f_type = 0, f_validate = True\<rparr>) \<and>
      unat lsz \<in> {1, 2, 4, 8} \<and> unat off mod unat lsz = 0 \<and>
      (\<forall>mem. drop_bit (unat r) (push_bit (unat l) (load mem (unat off) (unat lsz))) =
         of_nat (field_value mem (unat (bit_offset spec)) (unat bit_sz)))
    else \<forall>kind \<in> bitfield_kinds. calc_field_relo kind (Some spec) = Some (Inl (- E2BIG))"
proof -
  let ?bo = "bit_offset spec"
  have sz: "sz \<noteq> 0" using assms(2) by auto
  obtain w where run: "bitfield_window ?bo bit_sz sz (?bo div 8 div sz * sz) = Some w"
    using bitfield_window_total [OF sz] by blast
  note W = bitfield_window_result [OF assms(3,2) run]
  note C = calc_bitfield_relo [OF assms(1) sz run]
  show ?thesis
  proof (cases w)
    case (Inl err)
    then have "err = - E2BIG"
      "\<not> (\<exists>s \<in> {1, 2, 4, 8}. unat sz \<le> s \<and> window_fits (unat ?bo) (unat bit_sz) s)"
      using W by (auto simp: smallest_window_def)
    then show ?thesis using C(1) Inl by simp
  next
    case (Inr p)
    obtain lsz off where p: "p = (lsz, off)" by (cases p)
    have S: "unat lsz \<in> {1, 2, 4, 8}" "unat sz \<le> unat lsz" "off = ?bo div 8 div lsz * lsz"
      "window_fits (unat ?bo) (unat bit_sz) (unat lsz)"
      using W [unfolded smallest_window_def Inr p sum.case prod.case] by blast+
    then have lsz: "0 < unat lsz" "unat lsz \<le> 8" by auto
    have off: "unat off = unat ?bo div 8 div unat lsz * unat lsz" "8 * unat off \<le> unat ?bo"
      unfolding S(3) using aligned_offset [OF lsz(1), of ?bo] by simp_all
    have fits: "unat ?bo + unat bit_sz \<le> 8 * (unat off + unat lsz)"
      using S(4) off(1) by (simp add: window_fits_def)
    have e: "unat (?bo + bit_sz - off * 8) = unat ?bo + unat bit_sz - 8 * unat off"
      using window_test(1) [OF assms(3) lsz, folded S(3)] .
    let ?l = "64 - (?bo + bit_sz - off * 8)" and ?r = "64 - bit_sz"
    have "unat (?bo + bit_sz - off * 8) \<le> 64" unfolding e by (rule window_width(1) [OF fits lsz(2)])
    moreover have "unat bit_sz \<le> 64" by (rule window_width(2) [OF fits lsz(2) off(2)])
    ultimately have "unat ?l = 64 - (unat ?bo + unat bit_sz - 8 * unat off)" "unat ?r = 64 - unat bit_sz"
      by (simp_all add: unat_sub word_le_nat_alt e)
    then have "drop_bit (unat ?r) (push_bit (unat ?l) (load mem (unat off) (unat lsz))) =
        of_nat (field_value mem (unat ?bo) (unat bit_sz))" for mem
      using shifts_extract [OF off(2) fits lsz(2)] by simp
    moreover have "\<exists>s \<in> {1, 2, 4, 8}. unat sz \<le> s \<and> window_fits (unat ?bo) (unat bit_sz) s"
      using S(1,2,4) by blast
    moreover have "unat off mod unat lsz = 0" by (simp add: off(1))
    ultimately show ?thesis using C(2-5) Inr p S(1) by (simp del: insert_iff)
  qed
qed

section \<open>Relocations against the local types and without a target\<close>

lemmas relo_kind_defs = is_field_based_def is_type_based_def is_enumval_based_def

text \<open>The kinds that ask whether something exists, or for its type: 0 when it does not.\<close>

definition zero_when_missing :: "relo_kind \<Rightarrow> bool" where
  "zero_when_missing kind \<longleftrightarrow> kind \<in> {BPF_CORE_FIELD_EXISTS, BPF_CORE_TYPE_ID_TARGET, BPF_CORE_TYPE_EXISTS,
     BPF_CORE_TYPE_SIZE, BPF_CORE_ENUMVAL_EXISTS}"

lemma bitfield_window_error: "bitfield_window bo bs sz off = Some (Inl e) \<Longrightarrow> e = - E2BIG"
proof (induction bo bs sz off rule: bitfield_window.induct)
  case (1 bo bs sz off)
  then show ?case by (simp add: bitfield_window.simps [of bo bs sz off] split: if_splits)
qed

lemma calc_member_relo_error:
  assumes "calc_member_relo kind spec acc t = Some (Inl e)"
  shows "e \<in> {- EINVAL, - E2BIG, - EOPNOTSUPP}"
proof -
  have last: "e \<in> {- EINVAL, - E2BIG, - EOPNOTSUPP}"
    if "(case w of Inl err \<Rightarrow> Some (Inl err) | Inr (byte_sz, byte_off) \<Rightarrow> f byte_sz byte_off) = Some (Inl e)"
      "\<And>err. w = Inl err \<Longrightarrow> err \<in> {- EINVAL, - E2BIG}"
      "\<And>byte_sz byte_off. f byte_sz byte_off = Some (Inl e) \<Longrightarrow> e = - EOPNOTSUPP"
    for w :: "int + u32 \<times> u32" and f :: "u32 \<Rightarrow> u32 \<Rightarrow> (int + field_relo) option"
    using that by (auto split: sum.split_asm)
  show ?thesis
    using assms unfolding calc_member_relo_def Let_def bind_Some_iff split_paired_Ex split
    by (elim exE conjE, elim last)
      (auto split: relo_kind.split_asm if_split_asm dest: bitfield_window_error simp: bind_Some_iff)
qed

lemma calc_field_relo_error:
  assumes "calc_field_relo kind (Some s) = Some (Inl e)"
  shows "e \<in> {- EINVAL, - E2BIG, - EOPNOTSUPP}"
  using assms calc_member_relo_error [of kind s]
  by (auto simp: calc_field_relo_def Let_def bind_Some_iff split: if_split_asm)

lemma calc_type_relo_error: "calc_type_relo kind (Some s) = Some (Inl e) \<Longrightarrow> e \<in> {- EINVAL, - EOPNOTSUPP}"
  by (auto simp: calc_type_relo_def bind_Some_iff split: if_splits relo_kind.splits)

lemma calc_enumval_relo_error: "calc_enumval_relo kind (Some s) = Some (Inl e) \<Longrightarrow> e = - EOPNOTSUPP"
  by (auto simp: calc_enumval_relo_def bind_Some_iff split: if_splits relo_kind.splits)

lemmas calc_relo_unfold = calc_relo_def Let_def relo_done_def relo_res_init_def

lemma calc_relo_self:
  assumes "calc_relo kind s (Some s) = Some (Inr res)"
  shows "orig_val res = new_val res \<and> orig_sz res = new_sz res \<and> \<not> poison res \<and> \<not> fail_memsz_adjust res"
proof -
  consider "is_field_based kind" | "\<not> is_field_based kind" "is_type_based kind"
    | "\<not> is_field_based kind" "\<not> is_type_based kind" "is_enumval_based kind"
    using assms by (fastforce simp: calc_relo_unfold)
  then show ?thesis
  proof cases
    case 1
    then obtain l where "calc_field_relo kind (Some s) = Some l"
      using assms by (auto simp: calc_relo_unfold bind_Some_iff)
    then show ?thesis
      using assms 1 calc_field_relo_error [of kind s] by (cases l) (auto simp: calc_relo_unfold split: if_splits)
  next
    case 2
    then obtain l where "calc_type_relo kind (Some s) = Some l"
      using assms by (auto simp: calc_relo_unfold bind_Some_iff)
    then show ?thesis
      using assms 2 calc_type_relo_error [of kind s] by (cases l) (auto simp: calc_relo_unfold split: if_splits)
  next
    case 3
    then obtain l where "calc_enumval_relo kind (Some s) = Some l"
      using assms by (auto simp: calc_relo_unfold bind_Some_iff)
    then show ?thesis
      using assms 3 calc_enumval_relo_error [of kind s] by (cases l) (auto simp: calc_relo_unfold split: if_splits)
  qed
qed

lemma relo_step_error:
  assumes "Option.bind m (case_sum (\<lambda>e. Some (relo_done e r)) f) = Some (Inl err)"
    and "\<And>e. m = Some (Inl e) \<Longrightarrow> e < 0"
    and "\<And>x. f x = Some (Inl err) \<Longrightarrow> err < 0"
  shows "err < 0"
proof -
  obtain l where l: "m = Some l" using assms(1) by (auto simp: bind_Some_iff)
  show ?thesis
  proof (cases l)
    case (Inl e)
    then show ?thesis using assms(1) assms(2) [of e] l by (auto simp: relo_done_def split: if_split_asm)
  next
    case (Inr x)
    then show ?thesis using assms(1) assms(3) [of x] l by simp
  qed
qed

lemma relo_errors_negative:
  shows "calc_field_relo kind p = Some (Inl e) \<Longrightarrow> e < 0"
    and "calc_type_relo kind p = Some (Inl e) \<Longrightarrow> e < 0"
    and "calc_enumval_relo kind p = Some (Inl e) \<Longrightarrow> e < 0"
proof -
  have none: "calc_field_relo kind None = Some (Inl e) \<Longrightarrow> e = - EUCLEAN"
    "calc_type_relo kind None \<noteq> Some (Inl e)"
    "calc_enumval_relo kind None = Some (Inl e) \<Longrightarrow> e \<in> {- EUCLEAN, - EOPNOTSUPP}"
    by (auto simp: calc_field_relo_def calc_type_relo_def calc_enumval_relo_def Let_def
        split: if_split_asm relo_kind.split_asm)
  show "e < 0" if "calc_field_relo kind p = Some (Inl e)"
    using that none(1) calc_field_relo_error [of kind _ e] by (cases p) fastforce+
  show "e < 0" if "calc_type_relo kind p = Some (Inl e)"
    using that none(2) calc_type_relo_error [of kind _ e] by (cases p) fastforce+
  show "e < 0" if "calc_enumval_relo kind p = Some (Inl e)"
    using that none(3) calc_enumval_relo_error [of kind _ e] by (cases p) fastforce+
qed

lemma calc_relo_error:
  assumes "calc_relo kind s p = Some (Inl err)"
  shows "err < 0"
proof -
  consider "is_field_based kind" | "\<not> is_field_based kind" "is_type_based kind"
    | "\<not> is_field_based kind" "\<not> is_type_based kind" "is_enumval_based kind"
    | "\<not> is_field_based kind" "\<not> is_type_based kind" "\<not> is_enumval_based kind" by blast
  then show ?thesis
  proof cases
    case 1
    then show ?thesis
      using assms unfolding calc_relo_def Let_def
      by simp (erule relo_step_error, erule relo_errors_negative(1), erule relo_step_error,
          erule relo_errors_negative(1), auto simp: bind_Some_iff split: if_split_asm)
  next
    case 2
    then show ?thesis
      using assms unfolding calc_relo_def Let_def
      by (auto elim!: relo_step_error dest: relo_errors_negative)
  next
    case 3
    then show ?thesis
      using assms unfolding calc_relo_def Let_def
      by (auto elim!: relo_step_error dest: relo_errors_negative)
  next
    case 4
    then show ?thesis using assms by (auto simp: calc_relo_def Let_def relo_done_def)
  qed
qed

text \<open>
  C24: what a relocation does when the target has nothing that matches: it fails only when it
  would fail against the local types themselves; the relocations that ask for existence, for a
  type's identifier or for its size answer 0, and every other one marks the instruction to be
  made invalid.
\<close>

theorem calc_relo_missing_target:
  "calc_relo kind s None =
     (case calc_relo kind s (Some s) of
        None \<Rightarrow> None
      | Some (Inl err) \<Rightarrow> Some (Inl err)
      | Some (Inr res) \<Rightarrow>
          Some (Inr (res\<lparr>new_val := 0, new_sz := 0, new_type_id := 0, poison := \<not> zero_when_missing kind\<rparr>)))"
proof -
  consider "is_field_based kind" | "\<not> is_field_based kind" "is_type_based kind"
    | "\<not> is_field_based kind" "\<not> is_type_based kind" "is_enumval_based kind"
    | "\<not> is_field_based kind" "\<not> is_type_based kind" "\<not> is_enumval_based kind" by blast
  then show ?thesis
  proof cases
    case 1
    have "calc_field_relo kind None =
        Some (if kind = BPF_CORE_FIELD_EXISTS then Inr \<lparr>f_val = 0, f_sz = 0, f_type = 0, f_validate = True\<rparr>
              else Inl (- EUCLEAN))"
      "zero_when_missing kind \<longleftrightarrow> kind = BPF_CORE_FIELD_EXISTS"
      using 1 by (auto simp: calc_field_relo_def zero_when_missing_def is_field_based_def)
    moreover have "calc_field_relo BPF_CORE_FIELD_EXISTS (Some s) =
        Some (Inr \<lparr>f_val = 1, f_sz = 0, f_type = 0, f_validate = True\<rparr>)"
      by (simp add: calc_field_relo_def)
    ultimately show ?thesis
      using 1 calc_field_relo_error [of kind s]
      by (cases "calc_field_relo kind (Some s)"; cases "the (calc_field_relo kind (Some s))")
        (auto simp: calc_relo_unfold)
  next
    case 2
    have "calc_type_relo kind None = Some (Inr (0, True))" by (simp add: calc_type_relo_def)
    moreover have "zero_when_missing kind" if "calc_type_relo kind (Some s) = Some (Inr r)" for r
      using that by (auto simp: calc_type_relo_def zero_when_missing_def split: relo_kind.splits)
    ultimately show ?thesis
      using 2 calc_type_relo_error [of kind s]
      by (cases "calc_type_relo kind (Some s)"; cases "the (calc_type_relo kind (Some s))")
        (auto simp: calc_relo_unfold)
  next
    case 3
    then have "kind = BPF_CORE_ENUMVAL_EXISTS \<or> kind = BPF_CORE_ENUMVAL_VALUE"
      by (simp add: is_enumval_based_def)
    then have "calc_enumval_relo kind None =
        Some (if kind = BPF_CORE_ENUMVAL_EXISTS then Inr 0 else Inl (- EUCLEAN))"
      "zero_when_missing kind \<longleftrightarrow> kind = BPF_CORE_ENUMVAL_EXISTS"
      by (auto simp: calc_enumval_relo_def zero_when_missing_def)
    then show ?thesis
      using 3 calc_enumval_relo_error [of kind s]
      by (cases "calc_enumval_relo kind (Some s)"; cases "the (calc_enumval_relo kind (Some s))")
        (auto simp: calc_relo_unfold)
  qed (simp add: calc_relo_unfold)
qed

section \<open>What patching does\<close>




lemma bit_bounded: "unat w < 2 ^ k \<Longrightarrow> bit w n \<Longrightarrow> n < k" for w :: "'a::len word"
proof (rule ccontr)
  assume "unat w < 2 ^ k" "bit w n" "\<not> n < k"
  then have "take_bit k (unat w) = unat w" by (simp add: take_bit_nat_eq_self)
  then have "\<not> bit (unat w) n" using \<open>\<not> n < k\<close> by (metis bit_take_bit_iff)
  then show False using \<open>bit w n\<close> by (simp add: bit_unsigned_iff)
qed


lemma ucast_scast_off: "(ucast (scast x :: u32) :: u16) = x" for x :: u16
  by (rule bit_word_eqI) (auto simp: bit_simps)

lemma scast_nonneg: 
  fixes v :: u32
  assumes "v < 2 ^ 31"
  shows "(scast v :: u64) = ucast v"
proof -
  have "unat v < 2 ^ 31" using assms by (simp add: word_less_nat_alt)
  note b = bit_bounded [OF this]
  show ?thesis by (rule bit_word_eqI) (auto simp: bit_simps min_def dest: b split: if_split_asm)
qed

lemma ldimm64_value:
  fixes lo hi v :: u32
  assumes "(scast lo + push_bit 32 (scast hi) :: u64) = ucast v"
  shows "lo = v" "v < 2 ^ 31 \<Longrightarrow> hi = 0"
proof -
  have int: "take_bit 32 (take_bit 64 a + take_bit 64 b) = take_bit 32 (a + b)" for a b :: int
    using take_bit_add [of 32 "take_bit 64 a" "take_bit 64 b"] by (simp add: take_bit_take_bit take_bit_add)
  have add: "(ucast (a + b) :: u32) = ucast a + ucast b" for a b :: u64
    by transfer (simp add: int)
  have "(ucast (push_bit 32 (scast hi) :: u64) :: u32) = 0" "(ucast (scast lo :: u64) :: u32) = lo"
    "(ucast (ucast v :: u64) :: u32) = v"
    by (rule bit_word_eqI; auto simp: bit_simps)+
  then show lo: "lo = v" using add [of "scast lo" "push_bit 32 (scast hi)"] assms by simp
  assume "v < 2 ^ 31"
  then have z: "push_bit 32 (scast hi :: u64) = 0" using assms lo scast_nonneg by simp
  show "hi = 0"
  proof (rule bit_word_eqI)
    fix n assume "n < LENGTH(32)"
    then have "bit (push_bit 32 (scast hi :: u64)) (n + 32) = bit hi n" by (auto simp: bit_simps)
    then show "bit hi n = bit 0 n" using z by simp
  qed
qed







text \<open>
  Relocating an instruction against the types the program was compiled with changes nothing,
  whatever the kind of the relocation, when the instruction is checked and accepted (and is not
  a 64-bit load of a value of 2^31 or more).
\<close>

theorem relo_against_itself:
  assumes "calc_relo kind s (Some s) = Some (Inr res)" "validate res"
    and "patch_insn (insn # rest) res = Some (0, insns')"
    and "is_ldimm64_insn insn \<longrightarrow> orig_val res < 2 ^ 31"
  shows "insns' = insn # rest"
proof -
  note S = calc_relo_self [OF assms(1)]
  have off: "insn\<lparr>i_off := ucast (orig_val res)\<rparr> = insn" if "scast (i_off insn) = orig_val res"
    using ucast_scast_off [of "i_off insn"] that by simp
  show ?thesis
  proof (cases "BPF_CLASS (i_code insn) = BPF_LD")
    case True
    then have "patch_ldimm64 (insn # rest) insn res = Some (0, insns')"
      using assms(3) S by (simp add: patch_insn_def Let_def c_consts)
    then obtain hi rest' where "rest = hi # rest'" "is_ldimm64_insn insn"
      "(scast (i_imm insn) + push_bit 32 (scast (i_imm hi)) :: u64) = ucast (orig_val res)"
      "insns' = insn\<lparr>i_imm := new_val res\<rparr> # hi\<lparr>i_imm := 0\<rparr> # rest'"
      using assms(2) by (cases rest) (auto simp: patch_ldimm64_def st_insn_def Let_def split: if_splits)
    moreover from this have "i_imm insn = orig_val res" "i_imm hi = 0"
      using ldimm64_value [of "i_imm insn" "i_imm hi" "orig_val res"] assms(4) by simp_all
    ultimately show ?thesis using S by simp
  next
    case False
    then show ?thesis
      using assms(2,3) S off
      by (auto simp: patch_insn_def patch_mem_def Let_def st_insn_def c_consts split: if_splits)
  qed
qed

text \<open>
  A 64-bit load of exactly the expected value is accepted by the check only when the value
  is below 2^31: the immediate is sign-extended before it is compared, the expected value is not.
\<close>

theorem ldimm64_check_sign_extends:
  assumes "is_ldimm64_insn lo" "src_reg lo = 0" "i_off lo = 0" "i_imm lo = orig_val res"
    and "hi = \<lparr>i_code = 0, dst_reg = 0, src_reg = 0, i_off = 0, i_imm = 0\<rparr>"
    and "validate res" "\<not> poison res"
  shows "patch_insn (lo # hi # rest) res =
    Some (if orig_val res < 2 ^ 31 then (0, lo\<lparr>i_imm := new_val res\<rparr> # hi # rest)
          else (- EINVAL, lo # hi # rest))"
proof -
  have "(scast (orig_val res) :: u64) \<noteq> ucast (orig_val res)" if "\<not> orig_val res < 2 ^ 31"
  proof -
    have "unat (orig_val res) < 2 ^ LENGTH(32)" by (rule unsigned_less)
    moreover have "2 ^ 31 \<le> unat (orig_val res)" using that by (simp add: word_less_nat_alt not_less)
    ultimately have "unat (orig_val res) div 2 ^ 31 = 1" by (simp add: div_nat_eqI)
    then have "bit (unat (orig_val res)) 31" by (simp add: bit_iff_odd)
    then have "bit (orig_val res) 31" by (simp add: bit_unsigned_iff)
    then have "bit (scast (orig_val res) :: u64) 32" "\<not> bit (ucast (orig_val res) :: u64) 32"
      using bit_imp_le_length [of "orig_val res" 32] by (auto simp: bit_simps)
    then show ?thesis by metis
  qed
  then show ?thesis
    using assms by (auto simp: patch_insn_def patch_ldimm64_def Let_def st_insn_def is_ldimm64_insn_def
      BPF_CLASS_def c_consts scast_nonneg)
qed

section \<open>Witnesses\<close>

text \<open>\<^verbatim>\<open>struct f { int a : 5; int b : 7; };\<close> and the specification of its member \<^verbatim>\<open>b\<close>.\<close>

definition bitfield_btf :: btf where
  "bitfield_btf = Btf None 1
     [mk_type 1 1 0 4 [0x01000020],
      \<lparr>name_off = 5, info = 0x84000002, size_type = 4, extra = [7, 1, 0x05000000, 9, 1, 0x07000005]\<rparr>]
     0 ((lit ''_int_f_a_b_'')[0 := 0, 4 := 0, 6 := 0, 8 := 0, 10 := 0]) 8"

definition bitfield_spec :: core_spec where
  "bitfield_spec = \<lparr>spec_btf = bitfield_btf,
     accessors = [\<lparr>acc_type_id = 2, acc_idx = 0, acc_name = None\<rparr>,
       \<lparr>acc_type_id = 2, acc_idx = 1, acc_name = Some (lit ''b'')\<rparr>],
     root_type_id = 2, spec_kind = BPF_CORE_FIELD_BYTE_OFFSET, raw_spec = [0, 1], bit_offset = 5\<rparr>"

lemma bitfield_spec_member: "bitfield_member bitfield_spec 7 4"
proof -
  have "type_at bitfield_btf (Suc 0) = Some (mk_type 1 1 0 4 [0x01000020])"
    by (simp add: type_at_def type_by_id_def btf_type_cnt_def bitfield_btf_def)
  then have "skip_mods_and_typedefs bitfield_btf (Suc 0) = Some (mk_type 1 1 0 4 [0x01000020], Suc 0)"
    by (simp add: skip_mods_and_typedefs.simps [of bitfield_btf] mk_type_def btf_is_mod_def
        btf_is_typedef_def btf_kind_def kind_consts)
  then show ?thesis
    by (simp add: bitfield_member_def bitfield_spec_def Let_def member_type_def btf_member_bitfield_size_def
        member_offset_def btf_kflag_def)
      (simp add: bitfield_btf_def btf_kflag_def mk_type_def)
qed

lemma bitfield_relo_reads_field_witness:
  "\<exists>l. calc_field_relo BPF_CORE_FIELD_LSHIFT_U64 (Some bitfield_spec) =
     Some (Inr \<lparr>f_val = l, f_sz = 0, f_type = 0, f_validate = False\<rparr>)"
  using bitfield_relo_reads_field [OF bitfield_spec_member]
  by (auto simp: bitfield_spec_def window_fits_def)

definition mov_insn :: "u32 \<Rightarrow> bpf_insn" where
  "mov_insn v = \<lparr>i_code = 0xb7, dst_reg = 1, src_reg = 0, i_off = 0, i_imm = v\<rparr>"


lemma relo_against_itself_witness:
  "\<exists>insns'. patch_insn [mov_insn 1] (relo_res_init\<lparr>orig_val := 1, new_val := 1\<rparr>) = Some (0, insns') \<and>
     insns' = [mov_insn 1]"
proof -
  let ?res = "relo_res_init\<lparr>orig_val := 1, new_val := 1\<rparr>"
  have calc: "calc_relo BPF_CORE_TYPE_EXISTS bitfield_spec (Some bitfield_spec) = Some (Inr ?res)"
    by (simp add: calc_relo_unfold relo_kind_defs calc_type_relo_def)
  obtain insns' where run: "patch_insn [mov_insn 1] ?res = Some (0, insns')"
    by (simp add: patch_insn_def mov_insn_def relo_res_init_def BPF_CLASS_def BPF_SRC_def st_insn_def c_consts)
  have "validate ?res" "is_ldimm64_insn (mov_insn 1) \<longrightarrow> orig_val ?res < 2 ^ 31"
    by (simp_all add: relo_res_init_def is_ldimm64_insn_def mov_insn_def c_consts)
  from relo_against_itself [OF calc this(1) run this(2)] show ?thesis using run by blast
qed

lemma ldimm64_check_sign_extends_witness:
  "patch_insn [\<lparr>i_code = 0x18, dst_reg = 1, src_reg = 0, i_off = 0, i_imm = 0xFFFFFFFF\<rparr>,
       \<lparr>i_code = 0, dst_reg = 0, src_reg = 0, i_off = 0, i_imm = 0\<rparr>]
     (relo_res_init\<lparr>orig_val := 0xFFFFFFFF, new_val := 1\<rparr>) =
   Some (- EINVAL, [\<lparr>i_code = 0x18, dst_reg = 1, src_reg = 0, i_off = 0, i_imm = 0xFFFFFFFF\<rparr>,
       \<lparr>i_code = 0, dst_reg = 0, src_reg = 0, i_off = 0, i_imm = 0\<rparr>])"
  using ldimm64_check_sign_extends [of "\<lparr>i_code = 0x18, dst_reg = 1, src_reg = 0, i_off = 0, i_imm = 0xFFFFFFFF\<rparr>"
    "relo_res_init\<lparr>orig_val := 0xFFFFFFFF, new_val := 1\<rparr>" _ "[]"]
  by (simp add: is_ldimm64_insn_def relo_res_init_def c_consts word_less_nat_alt)

end
