(* ===== verification/CoreApply.thy ===== *)
theory CoreApply
  imports CoreRelo
begin

text \<open>
  The top of \<^verbatim>\<open>libbpf/src/relo_core.c\<close>: \<^verbatim>\<open>bpf_core_apply_relo_insn\<close> matches a relocation against
  every candidate type, keeps the candidates that match, insists that they agree, and patches
  the instruction. The specification texts it prints are modelled because computing them reads
  the types.
\<close>

section \<open>Printing a specification\<close>

definition kind_str :: "nat \<Rightarrow> u8 list" where
  "kind_str k = lit
     (if k = BTF_KIND_UNKN then ''void'' else if k = BTF_KIND_INT then ''int''
      else if k = BTF_KIND_PTR then ''ptr'' else if k = BTF_KIND_ARRAY then ''array''
      else if k = BTF_KIND_STRUCT then ''struct'' else if k = BTF_KIND_UNION then ''union''
      else if k = BTF_KIND_ENUM then ''enum'' else if k = BTF_KIND_FWD then ''fwd''
      else if k = BTF_KIND_TYPEDEF then ''typedef'' else if k = BTF_KIND_VOLATILE then ''volatile''
      else if k = BTF_KIND_CONST then ''const'' else if k = BTF_KIND_RESTRICT then ''restrict''
      else if k = BTF_KIND_FUNC then ''func'' else if k = BTF_KIND_FUNC_PROTO then ''func_proto''
      else if k = BTF_KIND_VAR then ''var'' else if k = BTF_KIND_DATASEC then ''datasec''
      else if k = BTF_KIND_FLOAT then ''float'' else if k = BTF_KIND_DECL_TAG then ''decl_tag''
      else if k = BTF_KIND_TYPE_TAG then ''type_tag'' else ''unknown'')"

definition btf_kind_str :: "btf_type \<Rightarrow> u8 list" where
  "btf_kind_str t = kind_str (btf_kind t)"

fun dump_accessors :: "nat \<Rightarrow> accessor list \<Rightarrow> u8 list" where
  "dump_accessors i [] = []"
| "dump_accessors i (a # as) =
     (case acc_name a of
        Some n \<Rightarrow> lit ''.'' @ n
      | None \<Rightarrow> if i > 0 \<or> acc_idx a > 0 then lit ''['' @ decimal (unat (acc_idx a)) @ lit '']'' else [])
     @ dump_accessors (i + 1) as"

text \<open>A NULL printed as a string is undefined; so is reading an enumerator the type does not have.\<close>

definition dump_spec :: "core_spec \<Rightarrow> u8 list option" where
  "dump_spec spec = do {
     t \<leftarrow> btf_type_by_id (spec_btf spec) (root_type_id spec);
     s \<leftarrow> btf_name_by_offset (spec_btf spec) (unat (name_off t));
     let text = lit ''['' @ decimal (root_type_id spec) @ lit ''] '' @ btf_kind_str t @ lit '' '' @
                (if s = None \<or> s = Some [] then lit ''<anon>'' else the s);
     if is_type_based (spec_kind spec) then Some text
     else if is_enumval_based (spec_kind spec) then do {
       (t, _) \<leftarrow> skip_mods_and_typedefs (spec_btf spec) (root_type_id spec);
       i \<leftarrow> index (case raw_spec spec of [] \<Rightarrow> 0 | k # _ \<Rightarrow> k);
       off \<leftarrow> enum_name_off t i;
       s \<leftarrow> btf_name_by_offset (spec_btf spec) (unat off);
       v \<leftarrow> enum_val t i;
       s \<leftarrow> s;
       Some (text @ lit ''::'' @ s @ lit '' = '' @ decimal (unat v))
     }
     else if is_field_based (spec_kind spec) then
       Some (text @ dump_accessors 0 (accessors spec) @ lit '' ('' @ dump_raw_spec (raw_spec spec) @
             lit '' @ offset '' @ decimal (unat (bit_offset spec) div 8) @
             (if bit_offset spec mod 8 \<noteq> 0 then lit ''.'' @ decimal (unat (bit_offset spec) mod 8) else []) @
             lit '')'')
     else Some text
   }"

section \<open>Candidates\<close>

text \<open>
  The loop of \<^verbatim>\<open>bpf_core_apply_relo_insn\<close>: the array of candidates, compacted in place, the number
  of those kept, and the result and specification of the first (\<^verbatim>\<open>targ_res\<close> and \<^verbatim>\<open>targ_spec\<close>,
  defined when \<open>j\<close> is not 0). On the left, the error and the array as it is left behind.
\<close>

type_synonym cands = "(btf \<times> nat) list"

fun cand_loop :: "nat \<Rightarrow> relo_kind \<Rightarrow> core_spec \<Rightarrow> nat list \<Rightarrow> cands \<Rightarrow> nat \<Rightarrow> (relo_res \<times> core_spec) option \<Rightarrow>
    (int \<times> cands + cands \<times> nat \<times> (relo_res \<times> core_spec) option) option" where
  "cand_loop fuel kind local_spec [] cands j targ = Some (Inr (cands, j, targ))"
| "cand_loop fuel kind local_spec (i # is) cands j targ = do {
     c \<leftarrow> rd cands i;
     (err, cand_spec) \<leftarrow> spec_match fuel local_spec (fst c) (snd c);
     _ \<leftarrow> dump_spec cand_spec;
     if err < 0 then Some (Inl (err, cands))
     else if err = 0 then cand_loop fuel kind local_spec is cands j targ
     else do {
       r \<leftarrow> calc_relo kind local_spec (Some cand_spec);
       case r of
         Inl err \<Rightarrow> Some (Inl (err, cands))
       | Inr cand_res \<Rightarrow>
           if j = 0 then
             cand_loop fuel kind local_spec is (cands[j := c]) (j + 1) (Some (cand_res, cand_spec))
           else do {
             (targ_res, targ_spec) \<leftarrow> targ;
             if bit_offset cand_spec \<noteq> bit_offset targ_spec then Some (Inl (- EINVAL, cands))
             else if poison cand_res \<noteq> poison targ_res \<or> new_val cand_res \<noteq> new_val targ_res
             then Some (Inl (- EINVAL, cands))
             else cand_loop fuel kind local_spec is (cands[j := c]) (j + 1) targ
           }
     }
   }"

record core_relo =
  cr_insn_off :: u32
  cr_type_id :: nat
  cr_access_str_off :: u32
  cr_kind :: relo_kind

definition finish_relo :: "bpf_insn list \<Rightarrow> relo_res \<Rightarrow> cands \<Rightarrow> (int \<times> bpf_insn list \<times> cands) option" where
  "finish_relo insns res cands = do {
     (err, insns) \<leftarrow> patch_insn insns res;
     Some (if err \<noteq> 0 then - EINVAL else 0, insns, cands)
   }"

text \<open>The part behind the local specification: the candidates, and the instruction.\<close>

definition apply_resolved :: "nat \<Rightarrow> bpf_insn list \<Rightarrow> relo_kind \<Rightarrow> core_spec \<Rightarrow> cands \<Rightarrow>
    (int \<times> bpf_insn list \<times> cands) option" where
  "apply_resolved fuel insns kind local_spec cands = do {
     r \<leftarrow> cand_loop fuel kind local_spec [0..<length cands] cands 0 None;
     case r of
       Inl (err, cands) \<Rightarrow> Some (err, insns, cands)
     | Inr (cands, j, targ) \<Rightarrow>
         let cands = (if j > 0 then take j cands else cands)
          in if j = 0 then do {
               r \<leftarrow> calc_relo kind local_spec None;
               case r of
                 Inl err \<Rightarrow> Some (err, insns, cands)
               | Inr res \<Rightarrow> finish_relo insns res cands
             }
             else do {
               (res, _) \<leftarrow> targ;
               finish_relo insns res cands
             }
   }"

text \<open>
  \<^verbatim>\<open>bpf_core_apply_relo_insn\<close>: the result, the instructions from the relocated one on, and the list
  of candidates, which the function prunes. The second test of the access string is the code's;
  it can never be true.
\<close>

definition apply_relo_insn :: "nat \<Rightarrow> bpf_insn list \<Rightarrow> core_relo \<Rightarrow> btf \<Rightarrow> cands \<Rightarrow>
    (int \<times> bpf_insn list \<times> cands) option" where
  "apply_relo_insn fuel insns relo local_btf cands = do {
     local_type \<leftarrow> btf_type_by_id local_btf (cr_type_id relo);
     local_name \<leftarrow> btf_name_by_offset local_btf (unat (name_off local_type));
     if local_name = None then Some (- EINVAL, insns, cands)
     else do {
       spec_str \<leftarrow> btf_name_by_offset local_btf (unat (cr_access_str_off relo));
       if spec_str = None \<or> spec_str = Some [] then Some (- EINVAL, insns, cands)
       else do {
         parsed \<leftarrow> parse_spec local_btf (cr_type_id relo) (the spec_str) (cr_kind relo);
         case parsed of
           Inl err \<Rightarrow> Some (- EINVAL, insns, cands)
         | Inr local_spec \<Rightarrow> do {
             _ \<leftarrow> dump_spec local_spec;
             if cr_kind relo = BPF_CORE_TYPE_ID_LOCAL then
               finish_relo insns
                 (relo_res_init\<lparr>validate := False, orig_val := of_nat (root_type_id local_spec),
                    new_val := of_nat (root_type_id local_spec)\<rparr>) cands
             else if spec_str = Some [] then Some (- EOPNOTSUPP, insns, cands)
             else apply_resolved fuel insns (cr_kind relo) local_spec cands
           }
       }
     }
   }"

section \<open>Which candidates are kept\<close>

definition cand_matches :: "nat \<Rightarrow> core_spec \<Rightarrow> btf \<times> nat \<Rightarrow> bool" where
  "cand_matches fuel local_spec c = (\<exists>err s. spec_match fuel local_spec (fst c) (snd c) = Some (err, s) \<and> 0 < err)"

text \<open>A candidate that resolves to a given offset and decision.\<close>

definition cand_gives :: "nat \<Rightarrow> relo_kind \<Rightarrow> core_spec \<Rightarrow> relo_res \<times> core_spec \<Rightarrow> btf \<times> nat \<Rightarrow> bool" where
  "cand_gives fuel kind local_spec t c = (\<exists>err s r. spec_match fuel local_spec (fst c) (snd c) = Some (err, s) \<and>
     0 < err \<and> calc_relo kind local_spec (Some s) = Some (Inr r) \<and>
     bit_offset s = bit_offset (snd t) \<and> poison r = poison (fst t) \<and> new_val r = new_val (fst t))"

text \<open>The candidate that the result is taken from.\<close>

definition cand_result :: "nat \<Rightarrow> relo_kind \<Rightarrow> core_spec \<Rightarrow> relo_res \<times> core_spec \<Rightarrow> btf \<times> nat \<Rightarrow> bool" where
  "cand_result fuel kind local_spec t c = (\<exists>err. spec_match fuel local_spec (fst c) (snd c) = Some (err, snd t) \<and>
     0 < err \<and> calc_relo kind local_spec (Some (snd t)) = Some (Inr (fst t)))"

text \<open>
  After the rounds for the first \<open>i\<close> candidates of the original list \<open>orig\<close>: the first \<open>j\<close> entries
  are the matching ones among them, the rest of the array is as it was.
\<close>

definition loop_inv :: "nat \<Rightarrow> relo_kind \<Rightarrow> core_spec \<Rightarrow> cands \<Rightarrow> nat \<Rightarrow> cands \<Rightarrow> nat \<Rightarrow>
    (relo_res \<times> core_spec) option \<Rightarrow> bool" where
  "loop_inv fuel kind local_spec orig i cands j targ \<longleftrightarrow>
     j \<le> i \<and> length cands = length orig \<and> drop i cands = drop i orig \<and>
     take j cands = filter (cand_matches fuel local_spec) (take i orig) \<and>
     (j = 0 \<longleftrightarrow> targ = None) \<and> (j = 0 \<longrightarrow> cands = orig) \<and>
     (\<forall>t. targ = Some t \<longrightarrow> cand_result fuel kind local_spec t (hd (take j cands)) \<and>
        (\<forall>c \<in> set (take j cands). cand_gives fuel kind local_spec t c))"

lemma loop_inv_skip:
  assumes "loop_inv fuel kind local_spec orig i cands j targ" "i < length orig"
    and "\<not> cand_matches fuel local_spec (cands ! i)"
  shows "loop_inv fuel kind local_spec orig (Suc i) cands j targ"
proof -
  have d: "drop i cands = drop i orig" using assms(1) by (simp add: loop_inv_def)
  then have "cands ! i = orig ! i"
    using assms(1,2) by (metis hd_drop_conv_nth loop_inv_def)
  moreover have "drop (Suc i) cands = drop (Suc i) orig"
    using d by (simp add: drop_Suc flip: tl_drop) 
  ultimately show ?thesis
    using assms by (clarsimp simp: loop_inv_def take_Suc_conv_app_nth)
qed

lemma loop_inv_keep:
  assumes "loop_inv fuel kind local_spec orig i cands j targ" "i < length orig"
    and "cand_matches fuel local_spec (cands ! i)" "cand_gives fuel kind local_spec t (cands ! i)"
    and "j \<noteq> 0 \<Longrightarrow> targ = Some t" "j = 0 \<Longrightarrow> cand_result fuel kind local_spec t (cands ! i)"
  shows "loop_inv fuel kind local_spec orig (Suc i) (cands[j := cands ! i]) (j + 1) (Some t)"
proof -
  have I: "j \<le> i" "length cands = length orig" "drop i cands = drop i orig"
    "take j cands = filter (cand_matches fuel local_spec) (take i orig)"
    "j = 0 \<longleftrightarrow> targ = None" "\<forall>t. targ = Some t \<longrightarrow> (\<forall>c \<in> set (take j cands). cand_gives fuel kind local_spec t c)"
    "\<forall>t. targ = Some t \<longrightarrow> cand_result fuel kind local_spec t (hd (take j cands))"
    using assms(1) by (simp_all add: loop_inv_def del: split_paired_All) metis
  have c: "cands ! i = orig ! i" using I(2,3) assms(2) by (metis hd_drop_conv_nth)
  have j: "j < length cands" using I(1,2) assms(2) by simp
  have "drop (Suc i) cands = drop (Suc i) orig" using I(3) by (simp add: drop_Suc flip: tl_drop)
  then have "drop (Suc i) (cands[j := cands ! i]) = drop (Suc i) orig"
    using I(1) by (subst drop_update_cancel) simp_all
  moreover have t: "take (j + 1) (cands[j := cands ! i]) = take j cands @ [cands ! i]"
    using j by (simp add: take_Suc_conv_app_nth)
  moreover have "\<forall>c \<in> set (take j cands). cand_gives fuel kind local_spec t c"
    using I(6) assms(5) by (cases "j = 0") auto
  moreover have "cand_result fuel kind local_spec t (hd (take j cands @ [cands ! i]))"
    using I(7) assms(5,6) j by (cases "j = 0") (auto simp: hd_append)
  ultimately show ?thesis
    using I(1,2,4) assms(2-4) c by (simp add: loop_inv_def take_Suc_conv_app_nth)
qed

lemma cand_loop_inv:
  assumes "loop_inv fuel kind local_spec orig i cands j targ" "i \<le> length orig"
    and "cand_loop fuel kind local_spec [i..<length orig] cands j targ = Some (Inr (cands', j', targ'))"
  shows "loop_inv fuel kind local_spec orig (length orig) cands' j' targ'"
  using assms
proof (induction "length orig - i" arbitrary: i cands j targ)
  case 0
  then show ?case by simp
next
  case (Suc n)
  have i: "i < length orig" "[i..<length orig] = i # [Suc i..<length orig]"
    using Suc.hyps(2) by (simp_all add: upt_rec)
  have c: "rd cands i = Some (cands ! i)" using Suc.prems(1) i(1) by (simp add: loop_inv_def)
  have next_ok: ?case
    if "loop_inv fuel kind local_spec orig (Suc i) cands1 j1 targ1"
      "cand_loop fuel kind local_spec [Suc i..<length orig] cands1 j1 targ1 = Some (Inr (cands', j', targ'))"
    for cands1 j1 targ1
    using Suc.hyps(1) [of "Suc i"] Suc.hyps(2) i(1) that by simp
  obtain err s dump where m: "spec_match fuel local_spec (fst (cands ! i)) (snd (cands ! i)) = Some (err, s)"
    "dump_spec s = Some dump" "0 \<le> err"
    using Suc.prems(3) c unfolding i(2) by (auto simp: bind_Some_iff split: if_splits)
  show ?case
  proof (cases "err = 0")
    case True
    then have "cand_loop fuel kind local_spec [Suc i..<length orig] cands j targ = Some (Inr (cands', j', targ'))"
      using Suc.prems(3) c m unfolding i(2) by simp
    moreover have "\<not> cand_matches fuel local_spec (cands ! i)" using m(1) True by (simp add: cand_matches_def)
    ultimately show ?thesis using next_ok loop_inv_skip [OF Suc.prems(1) i(1)] by blast
  next
    case False
    obtain r0 where r0: "calc_relo kind local_spec (Some s) = Some r0"
      using Suc.prems(3) c m False unfolding i(2) by (auto simp: bind_Some_iff)
    then obtain res where r: "calc_relo kind local_spec (Some s) = Some (Inr res)"
      using Suc.prems(3) c m False unfolding i(2) by (cases r0) auto
    have M: "cand_matches fuel local_spec (cands ! i)" using m False by (simp add: cand_matches_def)
    show ?thesis
    proof (cases "j = 0")
      case True
      have "cand_gives fuel kind local_spec (res, s) (cands ! i)"
        and "cand_result fuel kind local_spec (res, s) (cands ! i)"
        using m r False unfolding cand_gives_def cand_result_def by auto
      from loop_inv_keep [OF Suc.prems(1) i(1) M this(1) _ this(2)] True show ?thesis
        using Suc.prems(3) c m r False unfolding i(2) by (intro next_ok) simp_all
    next
      case j: False
      obtain t where t: "targ = Some t" using Suc.prems(1) j by (auto simp: loop_inv_def)
      have "cand_gives fuel kind local_spec t (cands ! i)"
        and "cand_loop fuel kind local_spec [Suc i..<length orig] (cands[j := cands ! i]) (j + 1) targ =
          Some (Inr (cands', j', targ'))"
        using Suc.prems(3) c m r False j t unfolding i(2) cand_gives_def
        by (auto simp: split_beta split: if_splits)
      with loop_inv_keep [OF Suc.prems(1) i(1) M this(1)] t j show ?thesis by (intro next_ok) simp_all
    qed
  qed
qed

lemma cand_loop_error:
  "cand_loop fuel kind local_spec is cands j targ = Some (Inl (err, cs)) \<Longrightarrow> err < 0"
proof (induction "is" arbitrary: cands j targ)
  case (Cons i "is")
  obtain c e s r where R: "rd cands i = Some c" "spec_match fuel local_spec (fst c) (snd c) = Some (e, s)"
    "dump_spec s = Some r"
    using Cons.prems by (auto simp: bind_Some_iff)
  show ?case
  proof (cases "0 < e")
    case True
    obtain x where x: "calc_relo kind local_spec (Some s) = Some x"
      using Cons.prems R True by (auto simp: bind_Some_iff)
    show ?thesis
    proof (cases x)
      case (Inl err')
      then show ?thesis using Cons.prems R True x calc_relo_error by auto
    next
      case (Inr res)
      then show ?thesis
        using Cons R True x by (cases targ) (auto split: if_split_asm)
    qed
  next
    case False
    then show ?thesis using Cons R by (cases "e = 0") auto
  qed
qed simp

lemma finish_relo_0:
  "finish_relo insns res cands = Some (0, insns', cands') \<longleftrightarrow>
     patch_insn insns res = Some (0, insns') \<and> cands' = cands"
  by (auto simp: finish_relo_def bind_Some_iff split: if_splits)

text \<open>The result for a relocation that asks for the local type.\<close>

definition local_res :: "core_spec \<Rightarrow> relo_res" where
  "local_res local_spec = relo_res_init\<lparr>validate := False, orig_val := of_nat (root_type_id local_spec),
     new_val := of_nat (root_type_id local_spec)\<rparr>"

lemma apply_relo_insn_parsed:
  assumes "apply_relo_insn fuel insns relo local_btf cands = Some (0, insns', cands')"
  shows "\<exists>spec_str local_spec. btf_name_by_offset local_btf (unat (cr_access_str_off relo)) = Some (Some spec_str) \<and>
    parse_spec local_btf (cr_type_id relo) spec_str (cr_kind relo) = Some (Inr local_spec) \<and>
    (if cr_kind relo = BPF_CORE_TYPE_ID_LOCAL
     then cands' = cands \<and> patch_insn insns (local_res local_spec) = Some (0, insns')
     else apply_resolved fuel insns (cr_kind relo) local_spec cands = Some (0, insns', cands'))"
proof -
  obtain t name str where T: "btf_type_by_id local_btf (cr_type_id relo) = Some t"
    "btf_name_by_offset local_btf (unat (name_off t)) = Some (Some name)"
    "btf_name_by_offset local_btf (unat (cr_access_str_off relo)) = Some (Some str)" "str \<noteq> []"
    using assms(1) by (auto simp: apply_relo_insn_def bind_Some_iff split: if_split_asm)
  then obtain parsed where P: "parse_spec local_btf (cr_type_id relo) str (cr_kind relo) = Some parsed"
    using assms(1) by (auto simp: apply_relo_insn_def bind_Some_iff)
  then obtain local_spec where L: "parsed = Inr local_spec"
    using assms(1) T by (cases parsed) (auto simp: apply_relo_insn_def)
  then have "if cr_kind relo = BPF_CORE_TYPE_ID_LOCAL
     then finish_relo insns (local_res local_spec) cands = Some (0, insns', cands')
     else apply_resolved fuel insns (cr_kind relo) local_spec cands = Some (0, insns', cands')"
    using assms T P by (auto simp: apply_relo_insn_def bind_Some_iff local_res_def)
  then show ?thesis using P L T(3) by (intro exI [of _ str] exI [of _ local_spec]) (auto simp: finish_relo_0)
qed

text \<open>
  C20: a relocation that succeeds is unambiguous. Its own access string parses to a local
  specification. For a relocation that asks for the local type identifier, the instruction gets
  the one of that specification and the candidates stay as they are. For every other kind: when
  some candidates match, exactly these are
  kept, in their order, all of them resolve to the same bit offset and the same value, and the
  instruction is patched with the result of the first, which has that value. When none matches the list stays as it is, and the instruction is
  patched as the kind of relocation demands for a missing target.
\<close>

theorem apply_relo_insn_unambiguous:
  assumes "apply_relo_insn fuel insns relo local_btf cands = Some (0, insns', cands')"
  shows "\<exists>spec_str local_spec res.
    btf_name_by_offset local_btf (unat (cr_access_str_off relo)) = Some (Some spec_str) \<and>
    parse_spec local_btf (cr_type_id relo) spec_str (cr_kind relo) = Some (Inr local_spec) \<and>
    patch_insn insns res = Some (0, insns') \<and>
    (if cr_kind relo = BPF_CORE_TYPE_ID_LOCAL then cands' = cands \<and> res = local_res local_spec
     else if \<exists>c \<in> set cands. cand_matches fuel local_spec c
     then cands' = filter (cand_matches fuel local_spec) cands \<and>
       (\<exists>targ_spec. cand_result fuel (cr_kind relo) local_spec (res, targ_spec) (hd cands') \<and>
          (\<forall>c \<in> set cands'. cand_gives fuel (cr_kind relo) local_spec (res, targ_spec) c))
     else cands' = cands \<and> calc_relo (cr_kind relo) local_spec None = Some (Inr res))"
proof (cases "cr_kind relo = BPF_CORE_TYPE_ID_LOCAL")
  case True
  with apply_relo_insn_parsed [OF assms] show ?thesis by auto
next
  case other: False
  obtain spec_str local_spec where P: "apply_resolved fuel insns (cr_kind relo) local_spec cands = Some (0, insns', cands')"
    "parse_spec local_btf (cr_type_id relo) spec_str (cr_kind relo) = Some (Inr local_spec)"
    "btf_name_by_offset local_btf (unat (cr_access_str_off relo)) = Some (Some spec_str)"
    using apply_relo_insn_parsed [OF assms] other by auto
  let ?match = "cand_matches fuel local_spec"
  obtain r where r: "cand_loop fuel (cr_kind relo) local_spec [0..<length cands] cands 0 None = Some r"
    using P(1) by (auto simp: apply_resolved_def bind_Some_iff)
  then obtain cs j targ where r': "r = Inr (cs, j, targ)"
    using P(1) cand_loop_error [of fuel "cr_kind relo" local_spec "[0..<length cands]" cands 0 None]
    by (cases r) (auto simp: apply_resolved_def)
  have "loop_inv fuel (cr_kind relo) local_spec cands 0 cands 0 None" by (simp add: loop_inv_def)
  from cand_loop_inv [OF this _ r [unfolded r']]
  have I: "take j cs = filter ?match cands" "length cs = length cands" "j \<le> length cands"
    "j = 0 \<longleftrightarrow> targ = None" "j = 0 \<longrightarrow> cs = cands"
    "\<forall>t. targ = Some t \<longrightarrow> cand_result fuel (cr_kind relo) local_spec t (hd (take j cs)) \<and>
       (\<forall>c \<in> set (take j cs). cand_gives fuel (cr_kind relo) local_spec t c)"
    by (simp_all add: loop_inv_def del: split_paired_All) metis
  show ?thesis
  proof (cases "j = 0")
    case True
    then have none: "\<not> (\<exists>c \<in> set cands. ?match c)" using I(1) by (metis filter_empty_conv take0)
    obtain x where x: "calc_relo (cr_kind relo) local_spec None = Some x"
      using P(1) r r' True by (auto simp: apply_resolved_def bind_Some_iff)
    show ?thesis
    proof (cases x)
      case (Inl err)
      then show ?thesis using P(1) r r' True x calc_relo_error [of "cr_kind relo" local_spec None err]
        by (auto simp: apply_resolved_def)
    next
      case (Inr res)
      then have "patch_insn insns res = Some (0, insns')" "cands' = cands"
        using P(1) r r' True x I(5) by (auto simp: apply_resolved_def finish_relo_0)
      then show ?thesis
        using none P(2,3) x Inr other
        by (intro exI [of _ spec_str] exI [of _ local_spec] exI [of _ res]) simp
    qed
  next
    case False
    then obtain res targ_spec where t: "targ = Some (res, targ_spec)" using I(4) by auto
    then have "patch_insn insns res = Some (0, insns')" "cands' = filter ?match cands"
      using P(1) r r' False I(1) by (auto simp: apply_resolved_def finish_relo_0)
    moreover have "take j cs \<noteq> []" using False I(2,3) by auto
    then have "\<exists>c \<in> set cands. ?match c" unfolding I(1) by (simp add: filter_empty_conv)
    ultimately show ?thesis using P(2,3) I(1,6) t other
      by (intro exI [of _ spec_str] exI [of _ local_spec] exI [of _ res]) auto
  qed
qed

section \<open>A witness\<close>

text \<open>A target with two \<^verbatim>\<open>struct s\<close> and an enum; the string \<^verbatim>\<open>0\<close> at offset 3.\<close>

definition relo_btf :: btf where
  "relo_btf = Btf None 1 [mk_type 1 4 0 4 [], mk_type 1 4 0 8 [], mk_type 1 6 0 4 []] 0 [0, 115, 0, 48, 0] 8"

definition type_exists_relo :: core_relo where
  "type_exists_relo = \<lparr>cr_insn_off = 0, cr_type_id = 1, cr_access_str_off = 3, cr_kind = BPF_CORE_TYPE_EXISTS\<rparr>"

lemma relo_btf_types:
  "btf_type_by_id relo_btf 1 = Some (mk_type 1 4 0 4 [])" "btf_type_by_id relo_btf 2 = Some (mk_type 1 4 0 8 [])"
  "btf_type_by_id relo_btf 3 = Some (mk_type 1 6 0 4 [])"
  "btf_name_by_offset relo_btf 1 = Some (Some [115])" "btf_name_by_offset relo_btf 3 = Some (Some [48])"
  "btf_type_cnt relo_btf = 4"
  by (simp_all add: relo_btf_def btf_name_by_offset_def str_at_def btf_type_cnt_def)

lemma relo_btf_match:
  assumes "i \<in> {1, 2, 3}" "root_type_id s = 1" "spec_kind s = BPF_CORE_TYPE_EXISTS" "spec_btf s = relo_btf"
  shows "spec_match 1 s relo_btf i = Some (if i = 3 then 0 else 1, \<lparr>spec_btf = relo_btf, accessors = [],
    root_type_id = i, spec_kind = BPF_CORE_TYPE_EXISTS, raw_spec = [], bit_offset = 0\<rparr>)"
proof -
  have k: "btf_kind (mk_type 1 4 0 sz []) = 4" "btf_kind (mk_type 1 6 0 sz []) = 6" for sz
    by (simp_all add: mk_type_def btf_kind_def)
  then have "skip_mods_and_typedefs relo_btf i = Some (t, i)" if "i \<in> {1, 2}" "btf_type_by_id relo_btf i = Some t" for i t
    using that by (subst skip_mods_and_typedefs.simps)
      (auto simp: type_at_def type_by_id_def relo_btf_types relo_btf_types(1) [unfolded One_nat_def] btf_is_mod_def btf_is_typedef_def kind_consts)
  then show ?thesis
    using assms k
    by (auto simp: spec_match_def Let_def is_type_based_def core_types_are_compat_def same_kind_first_def
       type_at_def type_by_id_def relo_btf_types relo_btf_types(1) [unfolded One_nat_def] kind_consts)
qed

lemma relo_btf_dump:
  assumes "i \<in> {1, 2, 3}"
  shows "\<exists>s. dump_spec \<lparr>spec_btf = relo_btf, accessors = [], root_type_id = i,
    spec_kind = BPF_CORE_TYPE_EXISTS, raw_spec = [], bit_offset = 0\<rparr> = Some s"
  using assms
  by (auto simp: dump_spec_def relo_btf_types relo_btf_types(1,4) [unfolded One_nat_def] is_type_based_def mk_type_def Let_def)

lemma relo_btf_run:
  "apply_relo_insn 1 [mov_insn 1] type_exists_relo relo_btf [(relo_btf, 3), (relo_btf, 1), (relo_btf, 2)] =
     Some (0, [mov_insn 1], [(relo_btf, 1), (relo_btf, 2)])"
  "apply_relo_insn 1 [mov_insn 1] type_exists_relo relo_btf [(relo_btf, 1), (relo_btf, 2)] =
     Some (0, [mov_insn 1], [(relo_btf, 1), (relo_btf, 2)])"
proof -
  let ?s = "\<lambda>i. \<lparr>spec_btf = relo_btf, accessors = [], root_type_id = i, spec_kind = BPF_CORE_TYPE_EXISTS,
    raw_spec = [], bit_offset = 0\<rparr>"
  let ?res = "relo_res_init\<lparr>orig_val := 1, new_val := 1\<rparr>"
  have calc: "calc_relo BPF_CORE_TYPE_EXISTS (?s 1) (Some (?s i)) = Some (Inr ?res)" for i
    by (simp add: calc_relo_unfold relo_kind_defs calc_type_relo_def)
  have m: "spec_match 1 (?s 1) relo_btf i = Some (if i = 3 then 0 else 1, ?s i)" if "i \<in> {1, 2, 3}" for i
    using that by (rule relo_btf_match) simp_all
  obtain d where d: "dump_spec (?s i) = Some (d i)" if "i \<in> {1, 2, 3}" for i
    using relo_btf_dump by metis
  note steps = m [of 1] m [of 2] m [of 3] d [of 1] d [of 2] d [of 3] calc [of 1] calc [of 2]
  have loops: "cand_loop 1 BPF_CORE_TYPE_EXISTS (?s 1) [0, Suc 0, Suc (Suc 0)]
      [(relo_btf, 3), (relo_btf, 1), (relo_btf, 2)] 0 None =
        Some (Inr ([(relo_btf, 1), (relo_btf, 2), (relo_btf, 2)], 2, Some (?res, ?s 1)))"
    "cand_loop 1 BPF_CORE_TYPE_EXISTS (?s 1) [0, Suc 0] [(relo_btf, 1), (relo_btf, 2)] 0 None =
        Some (Inr ([(relo_btf, 1), (relo_btf, 2)], 2, Some (?res, ?s 1)))"
    using steps by simp_all
  have parse: "parse_spec relo_btf 1 [48] BPF_CORE_TYPE_EXISTS = Some (Inr (?s 1))"
    by (simp add: parse_spec_def is_type_based_def)
  have patch: "patch_insn [mov_insn 1] ?res = Some (0, [mov_insn 1])"
    by (simp add: patch_insn_def mov_insn_def relo_res_init_def BPF_CLASS_def BPF_SRC_def st_insn_def c_consts)
  note eval = apply_relo_insn_def type_exists_relo_def relo_btf_types relo_btf_types(1,4) [unfolded One_nat_def]
    apply_resolved_def finish_relo_def mk_type_def
  show "apply_relo_insn 1 [mov_insn 1] type_exists_relo relo_btf [(relo_btf, 3), (relo_btf, 1), (relo_btf, 2)] =
      Some (0, [mov_insn 1], [(relo_btf, 1), (relo_btf, 2)])"
    using loops(1) parse patch d [of 1] by (simp add: eval del: cand_loop.simps)
  show "apply_relo_insn 1 [mov_insn 1] type_exists_relo relo_btf [(relo_btf, 1), (relo_btf, 2)] =
      Some (0, [mov_insn 1], [(relo_btf, 1), (relo_btf, 2)])"
    using loops(2) parse patch d [of 1] by (simp add: eval del: cand_loop.simps)
qed

lemma apply_relo_insn_unambiguous_witness:
  "\<exists>local_spec. parse_spec relo_btf 1 [48] BPF_CORE_TYPE_EXISTS = Some (Inr local_spec) \<and>
     filter (cand_matches 1 local_spec) [(relo_btf, 3), (relo_btf, 1), (relo_btf, 2)] = [(relo_btf, 1), (relo_btf, 2)]"
  using apply_relo_insn_unambiguous [OF relo_btf_run(1)]
  by (auto simp: type_exists_relo_def relo_btf_types split: if_split_asm)

end
