(* ===== verification/CoreObject.thy ===== *)
theory CoreObject
  imports CoreApply Hashmap
begin

text \<open>
  CO-RE relocation of a whole object, \<^verbatim>\<open>libbpf/src/libbpf.c\<close>: finding the program an instruction of
  a section belongs to, the cache of candidate lists (a hash map from type identifiers), and
  \<^verbatim>\<open>bpf_object__relocate_core\<close>.

  A pointer to a program is its index. The values of the cache are pointers to candidate lists,
  which relocations change; so the lists are a store and the map has positions in it. Offsets
  and counts of instructions are natural numbers; they are below \<open>2\<^sup>3\<^sup>1\<close>, so that the code's mix of
  \<^verbatim>\<open>int\<close> and \<^verbatim>\<open>size_t\<close> only matters for the sign, which is written out.
\<close>

section \<open>Programs by section and instruction\<close>

record core_prog =
  p_sec_name :: "u8 list"
  p_sec_idx :: nat
  p_sec_insn_off :: nat
  p_sec_insn_cnt :: nat
  p_insns :: "bpf_insn list"
  p_load :: bool
  p_core_relos :: "(core_relo \<times> nat) list"

definition prog_contains_insn :: "core_prog \<Rightarrow> nat \<Rightarrow> bool" where
  "prog_contains_insn prog insn_idx \<longleftrightarrow>
     p_sec_insn_off prog \<le> insn_idx \<and> insn_idx < p_sec_insn_off prog + p_sec_insn_cnt prog"

text \<open>The order the programs of an object are sorted by: \<^verbatim>\<open>cmp_progs\<close>.\<close>

definition cmp_progs :: "core_prog \<Rightarrow> core_prog \<Rightarrow> int" where
  "cmp_progs a b =
     (if p_sec_idx a \<noteq> p_sec_idx b then (if p_sec_idx a < p_sec_idx b then - 1 else 1)
      else if p_sec_insn_off a < p_sec_insn_off b then - 1 else 1)"

definition not_behind :: "core_prog \<Rightarrow> nat \<Rightarrow> nat \<Rightarrow> bool" where
  "not_behind prog sec_idx insn_idx \<longleftrightarrow>
     p_sec_idx prog < sec_idx \<or> p_sec_idx prog = sec_idx \<and> p_sec_insn_off prog \<le> insn_idx"

text \<open>The loop of \<^verbatim>\<open>find_prog_by_sec_insn\<close>, and the position it ends at.\<close>

function find_prog_loop :: "core_prog list \<Rightarrow> nat \<Rightarrow> nat \<Rightarrow> nat \<Rightarrow> nat \<Rightarrow> nat option" where
  "find_prog_loop progs sec_idx insn_idx l r =
     (if l < r then
        let m = l + (r - l + 1) div 2
         in do {
              prog \<leftarrow> rd progs m;
              if not_behind prog sec_idx insn_idx
              then find_prog_loop progs sec_idx insn_idx m r
              else find_prog_loop progs sec_idx insn_idx l (m - 1)
            }
      else Some l)"
  by pat_completeness auto

termination
  by (relation "measure (\<lambda>(progs, sec_idx, insn_idx, l, r). r - l)") (auto simp: Let_def)

declare find_prog_loop.simps [simp del]

text \<open>The inner \<open>None\<close> is the NULL returned when no program has the instruction.\<close>

definition find_prog_by_sec_insn :: "core_prog list \<Rightarrow> nat \<Rightarrow> nat \<Rightarrow> nat option option" where
  "find_prog_by_sec_insn progs sec_idx insn_idx = do {
     l \<leftarrow> find_prog_loop progs sec_idx insn_idx 0 (length progs - 1);
     prog \<leftarrow> rd progs l;
     Some (if p_sec_idx prog = sec_idx \<and> prog_contains_insn prog insn_idx then Some l else None)
   }"

section \<open>The cache of candidates\<close>

definition bpf_core_hash_fn :: "nat \<Rightarrow> u64" where "bpf_core_hash_fn k = of_nat k"
definition bpf_core_equal_fn :: "nat \<Rightarrow> nat \<Rightarrow> bool" where "bpf_core_equal_fn k1 k2 \<longleftrightarrow> k1 = k2"

text \<open>
  What the object and its surroundings give: whether a loader program is generated, the BTF of
  the kernel, the one given instead of it, that of the modules, and which allocations succeed.
\<close>

record core_env =
  ce_gen_loader :: bool
  ce_vmlinux :: btf
  ce_override :: "btf option"
  ce_modules :: "int + btf list"
  ce_list_ok :: bool
  ce_grow_ok :: "nat \<Rightarrow> bool"
  ce_buckets_ok :: bool
  ce_entry_ok :: bool
  ce_record_ok :: bool

record relo_state =
  rs_cache :: "(nat, nat) hashmap"
  rs_lists :: "cands list"

definition env_cands :: "core_env \<Rightarrow> btf \<Rightarrow> nat \<Rightarrow> (int + cands) option" where
  "env_cands env local_btf local_id =
     find_cands (ce_list_ok env) (ce_grow_ok env) (ce_vmlinux env) (ce_override env) (ce_modules env)
       local_btf local_id"

definition record_relo_core :: "bool \<Rightarrow> core_prog \<Rightarrow> core_relo \<Rightarrow> nat \<Rightarrow> int \<times> core_prog" where
  "record_relo_core alloc_ok prog relo insn_idx =
     (if \<not> alloc_ok then (- ENOMEM, prog)
      else (0, prog\<lparr>p_core_relos := p_core_relos prog @ [(relo, insn_idx)]\<rparr>))"

text \<open>
  The list of candidates for a relocation: none for one against the local types, the cached one,
  or a new one that is put into the cache. On the left the error.
\<close>

definition get_cands :: "core_env \<Rightarrow> core_relo \<Rightarrow> btf \<Rightarrow> relo_state \<Rightarrow> (int + nat option \<times> relo_state) option" where
  "get_cands env relo local_btf st =
     (if cr_kind relo = BPF_CORE_TYPE_ID_LOCAL then Some (Inr (None, st))
      else case hashmap_find (rs_cache st) (cr_type_id relo) of
        Some h \<Rightarrow> Some (Inr (Some h, st))
      | None \<Rightarrow> do {
          r \<leftarrow> env_cands env local_btf (cr_type_id relo);
          case r of
            Inl err \<Rightarrow> Some (Inl err)
          | Inr cs \<Rightarrow>
              let h = length (rs_lists st);
                  (err, _, cache) = hashmap_insert (ce_buckets_ok env) (ce_entry_ok env) (rs_cache st)
                                      (cr_type_id relo) h HASHMAP_SET
               in if err \<noteq> 0 then Some (Inl err)
                  else Some (Inr (Some h, \<lparr>rs_cache = cache, rs_lists = rs_lists st @ [cs]\<rparr>))
        })"

definition bpf_core_apply_relo :: "nat \<Rightarrow> core_env \<Rightarrow> core_prog \<Rightarrow> core_relo \<Rightarrow> btf \<Rightarrow> relo_state \<Rightarrow>
    (int \<times> core_prog \<times> relo_state) option" where
  "bpf_core_apply_relo fuel env prog relo local_btf st =
     (if unat (cr_insn_off relo) mod 8 \<noteq> 0 then Some (- EINVAL, prog, st)
      else let insn_idx = int (unat (cr_insn_off relo) div 8) - int (p_sec_insn_off prog)
       in if insn_idx < 0 \<or> insn_idx \<ge> int (length (p_insns prog)) then Some (- EINVAL, prog, st)
          else do {
            p \<leftarrow> type_by_id local_btf (cr_type_id relo);
            case p of
              None \<Rightarrow> Some (- EINVAL, prog, st)
            | Some local_type \<Rightarrow> do {
                local_name \<leftarrow> btf_name_by_offset local_btf (unat (name_off local_type));
                if local_name = None then Some (- EINVAL, prog, st)
                else if ce_gen_loader env then do {
                  _ \<leftarrow> btf_name_by_offset local_btf (unat (cr_access_str_off relo));
                  let (err, prog) = record_relo_core (ce_record_ok env) prog relo (nat insn_idx);
                  Some (err, prog, st)
                }
                else do {
                  r \<leftarrow> get_cands env relo local_btf st;
                  case r of
                    Inl err \<Rightarrow> Some (err, prog, st)
                  | Inr (h, st) \<Rightarrow> do {
                      cs \<leftarrow> (case h of None \<Rightarrow> Some [] | Some h \<Rightarrow> rd (rs_lists st) h);
                      (err, insns, cs) \<leftarrow> apply_relo_insn fuel (drop (nat insn_idx) (p_insns prog)) relo
                                            local_btf cs;
                      Some (err, prog\<lparr>p_insns := take (nat insn_idx) (p_insns prog) @ insns\<rparr>,
                            case h of None \<Rightarrow> st
                            | Some h \<Rightarrow> st\<lparr>rs_lists := (rs_lists st)[h := cs]\<rparr>)
                    }
                }
              }
          })"

section \<open>All relocations of an object\<close>

text \<open>
  The relocations of one section: each in the program that has its instruction, if it is going
  to be loaded.
\<close>

fun relocate_recs :: "nat \<Rightarrow> core_env \<Rightarrow> btf \<Rightarrow> nat \<Rightarrow> core_relo list \<Rightarrow> core_prog list \<Rightarrow> relo_state \<Rightarrow>
    (int \<times> core_prog list \<times> relo_state) option" where
  "relocate_recs fuel env local_btf sec_idx [] progs st = Some (0, progs, st)"
| "relocate_recs fuel env local_btf sec_idx (relo # recs) progs st = do {
     p \<leftarrow> find_prog_by_sec_insn progs sec_idx (unat (cr_insn_off relo) div 8);
     case p of
       None \<Rightarrow> Some (- EINVAL, progs, st)
     | Some i \<Rightarrow>
         if \<not> p_load (progs ! i) then relocate_recs fuel env local_btf sec_idx recs progs st
         else do {
           (err, prog, st) \<leftarrow> bpf_core_apply_relo fuel env (progs ! i) relo local_btf st;
           if err \<noteq> 0 then Some (err, progs[i := prog], st)
           else relocate_recs fuel env local_btf sec_idx recs (progs[i := prog]) st
         }
   }"

text \<open>
  The program the section's name leads to: the first of that name, and the last one of the object
  when there is none; NULL only when there are no programs.
\<close>

fun section_prog :: "u8 list \<Rightarrow> nat \<Rightarrow> core_prog list \<Rightarrow> nat option \<Rightarrow> nat option" where
  "section_prog sec_name i [] prog = prog"
| "section_prog sec_name i (p # ps) prog =
     (if p_sec_name p = sec_name then Some i else section_prog sec_name (i + 1) ps (Some i))"

fun relocate_secs :: "nat \<Rightarrow> core_env \<Rightarrow> btf \<Rightarrow> (nat \<times> core_relo list) list \<Rightarrow> core_prog list \<Rightarrow> relo_state \<Rightarrow>
    (int \<times> core_prog list \<times> relo_state) option" where
  "relocate_secs fuel env local_btf [] progs st = Some (0, progs, st)"
| "relocate_secs fuel env local_btf ((sec_name_off, recs) # secs) progs st = do {
     sec_name \<leftarrow> btf_name_by_offset local_btf sec_name_off;
     if sec_name = None \<or> sec_name = Some [] then Some (- EINVAL, progs, st)
     else case section_prog (the sec_name) 0 progs None of
       None \<Rightarrow> Some (- ENOENT, progs, st)
     | Some i \<Rightarrow> do {
         (err, progs, st) \<leftarrow> relocate_recs fuel env local_btf (p_sec_idx (progs ! i)) recs progs st;
         if err \<noteq> 0 then Some (err, progs, st) else relocate_secs fuel env local_btf secs progs st
       }
   }"

text \<open>
  \<^verbatim>\<open>bpf_object__relocate_core\<close>: the result and the programs. \<open>targ\<close> is the result of parsing the
  file given as the target, if any, \<open>map_ok\<close> whether the cache can be allocated. The cache is
  freed at the end; so is the target's BTF.
\<close>

definition relocate_core :: "nat \<Rightarrow> core_env \<Rightarrow> bool \<Rightarrow> (int + btf) option \<Rightarrow> btf \<Rightarrow>
    (nat \<times> core_relo list) list \<Rightarrow> core_prog list \<Rightarrow> (int \<times> core_prog list) option" where
  "relocate_core fuel env map_ok targ local_btf secs progs =
     (if secs = [] then Some (0, progs)
      else case targ of
        Some (Inl err) \<Rightarrow> Some (err, progs)
      | _ \<Rightarrow>
          let env = env\<lparr>ce_override := (case targ of Some (Inr b) \<Rightarrow> Some b | _ \<Rightarrow> None)\<rparr>
           in case hashmap_new map_ok bpf_core_hash_fn bpf_core_equal_fn of
                Inl err \<Rightarrow> Some (err, progs)
              | Inr cache \<Rightarrow> do {
                  (err, progs, _) \<leftarrow> relocate_secs fuel env local_btf secs progs
                                       \<lparr>rs_cache = cache, rs_lists = []\<rparr>;
                  Some (err, progs)
                })"

text \<open>A section name no program has leads to the last program, not to an error.\<close>

lemma section_prog_unknown:
  "\<forall>p \<in> set ps. p_sec_name p \<noteq> name \<Longrightarrow> ps \<noteq> [] \<Longrightarrow> section_prog name i ps prog = Some (i + length ps - 1)"
proof (induction ps arbitrary: i prog)
  case (Cons p ps)
  then show ?case by (cases "ps = []") auto
qed simp

lemma section_prog_None: "section_prog name i ps prog = None \<longleftrightarrow> ps = [] \<and> prog = None"
  by (induction ps arbitrary: i prog) auto

section \<open>The search finds the program\<close>

text \<open>Programs in order, those of one section one behind the other.\<close>

definition prog_before :: "core_prog \<Rightarrow> core_prog \<Rightarrow> bool" where
  "prog_before a b \<longleftrightarrow> p_sec_idx a < p_sec_idx b \<or>
     p_sec_idx a = p_sec_idx b \<and> p_sec_insn_off a + p_sec_insn_cnt a \<le> p_sec_insn_off b"

lemma prog_before_cmp: "prog_before a b \<Longrightarrow> 0 < p_sec_insn_cnt a \<Longrightarrow> cmp_progs a b = - 1"
  by (auto simp: prog_before_def cmp_progs_def)

lemma not_behind_before: "prog_before a b \<Longrightarrow> not_behind b s k \<Longrightarrow> not_behind a s k"
  by (auto simp: prog_before_def not_behind_def)

lemma find_prog_loop_result:
  assumes "sorted_wrt prog_before progs" "l \<le> r" "r < length progs"
    and "l = 0 \<or> not_behind (progs ! l) s k" "\<forall>i. r < i \<and> i < length progs \<longrightarrow> \<not> not_behind (progs ! i) s k"
  shows "\<exists>m. find_prog_loop progs s k l r = Some m \<and> m < length progs \<and>
    (m = 0 \<or> not_behind (progs ! m) s k) \<and> (\<forall>i. m < i \<and> i < length progs \<longrightarrow> \<not> not_behind (progs ! i) s k)"
  using assms
proof (induction progs s k l r rule: find_prog_loop.induct)
  case (1 progs s k l r)
  show ?case
  proof (cases "l < r")
    case False
    then have "find_prog_loop progs s k l r = Some l" by (simp add: find_prog_loop.simps [of progs s k l r])
    then show ?thesis using "1.prems" False by auto
  next
    case True
    define m where "m = l + (r - l + 1) div 2"
    have m: "l < m" "m \<le> r" "rd progs m = Some (progs ! m)" using True "1.prems"(3) by (auto simp: m_def)
    show ?thesis
    proof (cases "not_behind (progs ! m) s k")
      case nb: True
      then have "find_prog_loop progs s k l r = find_prog_loop progs s k m r"
        using True m(3) by (simp add: find_prog_loop.simps [of progs s k l r] m_def Let_def)
      then show ?thesis using "1.IH"(1) [OF True m_def m(3) nb] "1.prems" m nb by simp
    next
      case nb: False
      then have "find_prog_loop progs s k l r = find_prog_loop progs s k l (m - 1)"
        using True m(3) by (simp add: find_prog_loop.simps [of progs s k l r] m_def Let_def)
      moreover have "\<not> not_behind (progs ! i) s k" if "m - 1 < i" "i < length progs" for i
      proof (cases "i = m")
        case False
        then have "prog_before (progs ! m) (progs ! i)"
          using that m(1) by (intro sorted_wrt_nth_less [OF "1.prems"(1)]) auto
        then show ?thesis using nb not_behind_before by blast
      qed (use nb in simp)
      ultimately show ?thesis using "1.IH"(2) [OF True m_def m(3) nb] "1.prems" m by simp
    qed
  qed
qed

lemma find_prog_by_sec_insn_result:
  assumes "sorted_wrt prog_before progs" "progs \<noteq> []"
  shows "\<exists>r. find_prog_by_sec_insn progs s k = Some r \<and>
    (\<forall>i. r = Some i \<longleftrightarrow> i < length progs \<and> p_sec_idx (progs ! i) = s \<and> prog_contains_insn (progs ! i) k)"
proof -
  let ?r = "length progs - 1"
  have r: "?r < length progs" using assms(2) by (cases progs) auto
  then have "\<forall>i. ?r < i \<and> i < length progs \<longrightarrow> \<not> not_behind (progs ! i) s k" by (intro allI impI) linarith
  from find_prog_loop_result [OF assms(1) le0 r disjI1 [OF refl] this]
  obtain m where m: "find_prog_loop progs s k 0 ?r = Some m" "m < length progs"
    "m = 0 \<or> not_behind (progs ! m) s k" "\<forall>i. m < i \<and> i < length progs \<longrightarrow> \<not> not_behind (progs ! i) s k"
    by blast
  let ?has = "\<lambda>i. i < length progs \<and> p_sec_idx (progs ! i) = s \<and> prog_contains_insn (progs ! i) k"
  have only: "i = m" if "?has i" for i
  proof (rule ccontr)
    assume "i \<noteq> m"
    have "not_behind (progs ! i) s k" using that by (simp add: not_behind_def prog_contains_insn_def)
    moreover have "\<not> (m < i \<and> i < length progs) \<or> \<not> not_behind (progs ! i) s k" using m(4) by simp
    ultimately have "i < m" using that \<open>i \<noteq> m\<close> by linarith
    then have "prog_before (progs ! i) (progs ! m)" by (rule sorted_wrt_nth_less [OF assms(1) _ m(2)])
    moreover have "not_behind (progs ! m) s k" using m(3) gr_implies_not0 [OF \<open>i < m\<close>] by blast
    moreover have "p_sec_idx (progs ! i) = s" "k < p_sec_insn_off (progs ! i) + p_sec_insn_cnt (progs ! i)"
      using that by (simp_all add: prog_contains_insn_def)
    ultimately show False unfolding not_behind_def prog_before_def by linarith
  qed
  have found: "find_prog_by_sec_insn progs s k = Some (if ?has m then Some m else None)"
    using m(1,2) by (simp add: find_prog_by_sec_insn_def)
  show ?thesis
  proof (cases "?has m")
    case True
    have "Some m = Some i \<longleftrightarrow> ?has i" for i
    proof
      assume "?has i"
      from only [OF this] show "Some m = Some i" by simp
    qed (use True in simp)
    then show ?thesis using found True by simp
  next
    case False
    have "\<not> ?has i" for i
    proof
      assume "?has i"
      from only [OF this] this False show False by simp
    qed
    then show ?thesis using found False by simp
  qed
qed

text \<open>
  C25: on programs in the order of \<^verbatim>\<open>cmp_progs\<close> whose ranges of instructions do not overlap, the binary
  search finds the program that has the given instruction of the given section, and answers
  NULL exactly when no program has it; but for an object without any program it reads through
  the NULL pointer that the array of programs then is, instead of answering NULL.
\<close>

theorem find_prog_by_sec_insn_correct:
  assumes "sorted_wrt prog_before progs"
  shows "if progs = [] then find_prog_by_sec_insn progs s k = None
    else \<exists>r. find_prog_by_sec_insn progs s k = Some r \<and>
      (\<forall>i. r = Some i \<longleftrightarrow> i < length progs \<and> p_sec_idx (progs ! i) = s \<and> prog_contains_insn (progs ! i) k)"
proof (cases "progs = []")
  case True
  then show ?thesis by (simp add: find_prog_by_sec_insn_def find_prog_loop.simps)
next
  case False
  from find_prog_by_sec_insn_result [OF assms this, of s k] show ?thesis using False by simp
qed

section \<open>What a relocation leaves alone\<close>

definition same_rest :: "bpf_insn list \<Rightarrow> bpf_insn list \<Rightarrow> bool" where
  "same_rest xs ys \<longleftrightarrow> length ys = length xs \<and> drop 2 ys = drop 2 xs"

lemma st_insn_rest: "st_insn xs i x = Some ys \<Longrightarrow> i < 2 \<Longrightarrow> same_rest xs ys"
  by (auto simp: st_insn_def same_rest_def split: if_splits)

lemma st_insn_twice:
  "st_insn xs i x = Some zs \<Longrightarrow> st_insn zs j y = Some ys \<Longrightarrow> i < 2 \<Longrightarrow> j < 2 \<Longrightarrow> same_rest xs ys"
  using st_insn_rest [of xs i x zs] st_insn_rest [of zs j y ys] by (simp add: same_rest_def)

lemma same_rest_refl: "same_rest xs xs"
  by (simp add: same_rest_def)

lemma poison_insns_rest: "poison_insns xs = Some (err, ys) \<Longrightarrow> same_rest xs ys"
  by (auto simp: poison_insns_def bind_Some_iff intro: st_insn_rest st_insn_twice split: if_split_asm)

lemma patch_mem_rest: "patch_mem xs insn res = Some (err, ys) \<Longrightarrow> same_rest xs ys"
  unfolding patch_mem_def Let_def
  by (auto simp: bind_Some_iff same_rest_refl intro: st_insn_rest st_insn_twice poison_insns_rest split: if_split_asm)

lemma patch_ldimm64_rest: "patch_ldimm64 xs insn res = Some (err, ys) \<Longrightarrow> same_rest xs ys"
  unfolding patch_ldimm64_def Let_def
  by (auto simp: bind_Some_iff same_rest_refl intro: st_insn_rest st_insn_twice split: if_split_asm)

lemma patch_insn_rest: "patch_insn xs res = Some (err, ys) \<Longrightarrow> same_rest xs ys"
  unfolding patch_insn_def Let_def
  by (auto simp: bind_Some_iff same_rest_refl dest: st_insn_rest poison_insns_rest patch_mem_rest patch_ldimm64_rest
      split: if_split_asm)

lemma cand_loop_set:
  "cand_loop fuel kind s is cands j targ = Some r \<Longrightarrow>
     (case r of Inl (err, cs) \<Rightarrow> set cs \<subseteq> set cands | Inr (cs, j', t) \<Rightarrow> set cs \<subseteq> set cands)"
proof (induction "is" arbitrary: cands j targ)
  case (Cons i "is")
  obtain c where c: "rd cands i = Some c" "c \<in> set cands"
    using Cons.prems by (auto simp: bind_Some_iff rd_def split: if_splits)
  have sub: "set (cands[j := c]) \<subseteq> set cands" using c(2) by (simp add: set_update_subsetI)
  obtain e cs d where m: "spec_match fuel s (fst c) (snd c) = Some (e, cs)" "dump_spec cs = Some d"
    using Cons.prems(1) c by (auto simp: bind_Some_iff)
  have step: "case r of Inl (err, cs) \<Rightarrow> set cs \<subseteq> set cands | Inr (cs, j', t) \<Rightarrow> set cs \<subseteq> set cands"
    if "cand_loop fuel kind s is cands' j' targ' = Some r" "set cands' \<subseteq> set cands" for cands' j' targ'
    using Cons.IH [OF that(1)] that(2) by (auto split: sum.splits)
  consider "e < 0" | "e = 0" | "0 < e" by linarith
  then show ?case
  proof cases
    case 3
    then obtain x where x: "calc_relo kind s (Some cs) = Some x"
      using Cons.prems c m by (auto simp: bind_Some_iff)
    show ?thesis
    proof (cases x)
      case (Inr res)
      show ?thesis
      proof (cases "j = 0")
        case True
        then show ?thesis using Cons.prems c m 3 x Inr sub by (intro step) simp_all
      next
        case False
        then obtain t where t: "targ = Some t" using Cons.prems c m 3 x Inr by (cases targ) auto
        show ?thesis
        proof (cases "bit_offset cs = bit_offset (snd t) \<and> poison res = poison (fst t) \<and> new_val res = new_val (fst t)")
          case True
          then show ?thesis using Cons.prems c m 3 x Inr False t sub by (intro step) (simp_all add: split_beta)
        next
          case ne: False
          then show ?thesis using Cons.prems c m 3 x Inr False t by (auto simp: split_beta split: if_split_asm)
        qed
      qed
    qed (use Cons.prems c m 3 x in auto)
  qed (use Cons.prems c m step in auto)
qed auto

lemma apply_relo_insn_frame:
  assumes "apply_relo_insn fuel xs relo local_btf cands = Some (err, ys, cs)"
  shows "same_rest xs ys" "set cs \<subseteq> set cands"
proof -
  have fin: "same_rest xs ys \<and> cs = cands'" if "finish_relo xs res cands' = Some (err, ys, cs)" for res cands'
    using that by (auto simp: finish_relo_def bind_Some_iff dest: patch_insn_rest)
  have resolved: "same_rest xs ys \<and> set cs \<subseteq> set cands"
    if run: "apply_resolved fuel xs kind s cands = Some (err, ys, cs)" for kind s
  proof -
    obtain r where r: "cand_loop fuel kind s [0..<length cands] cands 0 None = Some r"
      using run by (auto simp: apply_resolved_def bind_Some_iff)
    show ?thesis
    proof (cases r)
      case (Inl p)
      then show ?thesis using run r cand_loop_set [OF r] same_rest_refl
        by (cases p) (auto simp: apply_resolved_def)
    next
      case (Inr p)
      obtain cs' j t where p: "p = (cs', j, t)" by (cases p)
      have sub: "set (take j cs') \<subseteq> set cands" "set cs' \<subseteq> set cands"
        using cand_loop_set [OF r] Inr p set_take_subset [of j cs'] by auto
      show ?thesis
      proof (cases "j = 0")
        case True
        then obtain x where x: "calc_relo kind s None = Some x"
          using run r Inr p by (auto simp: apply_resolved_def bind_Some_iff)
        show ?thesis using run r Inr p True x sub same_rest_refl fin
          by (cases x) (auto simp: apply_resolved_def)
      next
        case False
        then obtain res where "finish_relo xs res (take j cs') = Some (err, ys, cs)"
          using run r Inr p by (auto simp: apply_resolved_def bind_Some_iff)
        then show ?thesis using fin sub by blast
      qed
    qed
  qed
  have early: "same_rest xs ys \<and> set cs \<subseteq> set cands" if "ys = xs" "cs = cands"
    using that same_rest_refl by simp
  obtain t name where t: "btf_type_by_id local_btf (cr_type_id relo) = Some t"
    "btf_name_by_offset local_btf (unat (name_off t)) = Some name"
    using assms by (auto simp: apply_relo_insn_def bind_Some_iff)
  have "same_rest xs ys \<and> set cs \<subseteq> set cands"
  proof (cases "name = None")
    case False
    then obtain str where str: "btf_name_by_offset local_btf (unat (cr_access_str_off relo)) = Some str"
      using assms t by (auto simp: apply_relo_insn_def bind_Some_iff)
    show ?thesis
    proof (cases "str = None \<or> str = Some []")
      case False
      then obtain parsed where p: "parse_spec local_btf (cr_type_id relo) (the str) (cr_kind relo) = Some parsed"
        using assms t \<open>name \<noteq> None\<close> str by (auto simp: apply_relo_insn_def bind_Some_iff)
      then show ?thesis
        using assms t \<open>name \<noteq> None\<close> str False resolved fin early
        by (cases parsed) (auto simp: apply_relo_insn_def bind_Some_iff split: if_split_asm)
    qed (use assms t str early \<open>name \<noteq> None\<close> in \<open>auto simp: apply_relo_insn_def\<close>)
  qed (use assms t early in \<open>auto simp: apply_relo_insn_def\<close>)
  then show "same_rest xs ys" "set cs \<subseteq> set cands" by simp_all
qed

section \<open>The cache holds the candidates of each type\<close>

interpretation cand_keys: hash_contract bpf_core_hash_fn bpf_core_equal_fn
  by unfold_locales (auto simp: bpf_core_hash_fn_def bpf_core_equal_fn_def)

text \<open>
  The cache is a well-formed map with the right functions and unique keys; different types have
  different lists, and the list of a type has candidates of that type only.
\<close>

definition cache_ok :: "core_env \<Rightarrow> btf \<Rightarrow> relo_state \<Rightarrow> bool" where
  "cache_ok env local_btf st \<longleftrightarrow>
     hm_ok (rs_cache st) \<and> hm_unique (rs_cache st) \<and> hash_fn (rs_cache st) = bpf_core_hash_fn \<and>
     equal_fn (rs_cache st) = bpf_core_equal_fn \<and>
     (\<forall>k h. hashmap_find (rs_cache st) k = Some h \<longrightarrow> h < length (rs_lists st) \<and>
        (\<exists>cs. env_cands env local_btf k = Some (Inr cs) \<and> set (rs_lists st ! h) \<subseteq> set cs) \<and>
        (\<forall>k'. hashmap_find (rs_cache st) k' = Some h \<longrightarrow> k' = k))"

lemma cache_ok_new: "cache_ok env local_btf \<lparr>rs_cache = hashmap_init bpf_core_hash_fn bpf_core_equal_fn, rs_lists = []\<rparr>"
  by (simp add: cache_ok_def hashmap_init_def hm_ok_def hm_unique_def entries_def hashmap_find_def hashmap_find_entry_def)

lemma cache_ok_update:
  assumes "cache_ok env local_btf st" "hashmap_find (rs_cache st) k = Some h"
    and "set cs \<subseteq> set (rs_lists st ! h)"
  shows "cache_ok env local_btf (st\<lparr>rs_lists := (rs_lists st)[h := cs]\<rparr>)"
proof -
  have "h' < length (rs_lists st) \<and>
      (\<exists>cs'. env_cands env local_btf k' = Some (Inr cs') \<and> set ((rs_lists st)[h := cs] ! h') \<subseteq> set cs') \<and>
      (\<forall>k''. hashmap_find (rs_cache st) k'' = Some h' \<longrightarrow> k'' = k')"
    if "hashmap_find (rs_cache st) k' = Some h'" for k' h'
  proof (cases "h' = h")
    case True
    then have "k' = k" using assms(1,2) that unfolding cache_ok_def by metis
    moreover obtain cs0 where "h < length (rs_lists st)" "env_cands env local_btf k = Some (Inr cs0)"
      "set (rs_lists st ! h) \<subseteq> set cs0" "\<forall>k'. hashmap_find (rs_cache st) k' = Some h \<longrightarrow> k' = k"
      using assms(1,2) unfolding cache_ok_def by blast
    ultimately show ?thesis using True assms(3) by auto
  next
    case False
    then have "(rs_lists st)[h := cs] ! h' = rs_lists st ! h'" by simp
    then show ?thesis using assms(1) that unfolding cache_ok_def by metis
  qed
  then show ?thesis using assms(1) unfolding cache_ok_def by simp
qed

lemma get_cands_ok:
  assumes "cache_ok env local_btf st" "cap_bits (rs_cache st) < 64"
    and "get_cands env relo local_btf st = Some (Inr (h, st'))"
  shows "cache_ok env local_btf st' \<and> (\<forall>h'. h = Some h' \<longrightarrow> hashmap_find (rs_cache st') (cr_type_id relo) = Some h')"
proof (cases "cr_kind relo = BPF_CORE_TYPE_ID_LOCAL \<or> hashmap_find (rs_cache st) (cr_type_id relo) \<noteq> None")
  case True
  have "st' = st \<and> (cr_kind relo = BPF_CORE_TYPE_ID_LOCAL \<and> h = None \<or>
      h = hashmap_find (rs_cache st) (cr_type_id relo))"
  proof (cases "cr_kind relo = BPF_CORE_TYPE_ID_LOCAL")
    case False
    then obtain h' where "hashmap_find (rs_cache st) (cr_type_id relo) = Some h'" using True by auto
    then show ?thesis using False assms(3) by (simp add: get_cands_def)
  qed (use assms(3) in \<open>simp add: get_cands_def\<close>)
  then show ?thesis using assms(1) by auto
next
  case False
  let ?k = "cr_type_id relo"
  let ?n = "length (rs_lists st)"
  obtain cs old cache where new: "env_cands env local_btf ?k = Some (Inr cs)"
    "hashmap_insert (ce_buckets_ok env) (ce_entry_ok env) (rs_cache st) ?k ?n HASHMAP_SET = (0, old, cache)"
    "h = Some ?n" "st' = \<lparr>rs_cache = cache, rs_lists = rs_lists st @ [cs]\<rparr>"
  proof -
    note that' = that
    obtain r where r: "env_cands env local_btf ?k = Some r"
      using False assms(3) by (auto simp: get_cands_def bind_Some_iff)
    obtain cs where "r = Inr cs" using False assms(3) r by (cases r) (auto simp: get_cands_def)
    moreover obtain e old cache where
      "hashmap_insert (ce_buckets_ok env) (ce_entry_ok env) (rs_cache st) ?k ?n HASHMAP_SET = (e, old, cache)"
      by (rule prod_cases3)
    ultimately show thesis
      using False assms(3) r by (intro that' [of cs old cache]) (auto simp: get_cands_def split: if_split_asm)
  qed
  have m: "hm_ok (rs_cache st)" "hash_fn (rs_cache st) = bpf_core_hash_fn" "equal_fn (rs_cache st) = bpf_core_equal_fn"
    "hm_unique (rs_cache st)" using assms(1) by (simp_all add: cache_ok_def)
  note inv = cand_keys.insert_invariant [OF m(1-3) assms(2) new(2)]
  have find: "hashmap_find cache k = (if ?k = k then Some ?n else hashmap_find (rs_cache st) k)" for k
    using cand_keys.insert_lookup(1) [OF m assms(2) new(2), of k] by (simp add: bpf_core_equal_fn_def)
  have old: "h' < ?n \<and> (\<exists>cs. env_cands env local_btf k = Some (Inr cs) \<and> set (rs_lists st ! h') \<subseteq> set cs) \<and>
      (\<forall>k'. hashmap_find (rs_cache st) k' = Some h' \<longrightarrow> k' = k)"
    if "hashmap_find (rs_cache st) k = Some h'" for k h'
    using assms(1) that by (simp add: cache_ok_def)
  have "h' < Suc ?n \<and> (\<exists>cs'. env_cands env local_btf k = Some (Inr cs') \<and> set ((rs_lists st @ [cs]) ! h') \<subseteq> set cs') \<and>
      (\<forall>k'. hashmap_find cache k' = Some h' \<longrightarrow> k' = k)" if "hashmap_find cache k = Some h'" for k h'
  proof (cases "?k = k")
    case True
    then have "h' = ?n" using that find by simp
    moreover have "k' = k" if "hashmap_find cache k' = Some ?n" for k'
      using that old [of k' ?n] True by (auto simp: find split: if_split_asm)
    ultimately show ?thesis using True new(1) by simp
  next
    case False
    then have h': "hashmap_find (rs_cache st) k = Some h'" using that find by simp
    have "k' = k" if "hashmap_find cache k' = Some h'" for k'
      using that old [OF h'] by (auto simp: find split: if_split_asm)
    then show ?thesis using old [OF h'] by (simp add: nth_append)
  qed
  moreover have "hm_unique cache" by (rule inv(5) [OF m(4)]) simp
  ultimately have "cache_ok env local_btf \<lparr>rs_cache = cache, rs_lists = rs_lists st @ [cs]\<rparr>"
    using inv(1-3) unfolding cache_ok_def by simp
  moreover have "hashmap_find cache ?k = Some ?n" unfolding find by simp
  ultimately show ?thesis unfolding new(3,4) by simp
qed

lemma apply_relo_insn_length:
  assumes "apply_relo_insn fuel (drop i xs) relo local_btf cands = Some (err, ys, cs)" "i < length xs"
  shows "length (take i xs @ ys) = length xs"
    and "j < i \<or> i + 2 \<le> j \<Longrightarrow> j < length xs \<Longrightarrow> (take i xs @ ys) ! j = xs ! j"
proof -
  have rest: "length ys = length xs - i" "drop 2 ys = drop (2 + i) xs"
    using apply_relo_insn_frame(1) [OF assms(1)] by (simp_all add: same_rest_def)
  then show "length (take i xs @ ys) = length xs" using assms(2) by simp
  show "(take i xs @ ys) ! j = xs ! j" if j: "j < i \<or> i + 2 \<le> j" "j < length xs"
  proof (cases "j < i")
    case True
    then show ?thesis using assms(2) by (simp add: nth_append)
  next
    case False
    then have ij: "i + 2 \<le> j" using j by simp
    have "ys ! (j - i) = drop 2 ys ! (j - i - 2)"
      using ij j rest(1) assms(2) by (subst nth_drop) (simp_all add: numeral_2_eq_2 Suc_diff_Suc)
    also have "\<dots> = xs ! (2 + i + (j - i - 2))" using ij j by (simp only: rest(2)) (rule nth_drop, simp)
    also have "2 + i + (j - i - 2) = j" using ij by simp
    finally show ?thesis using False assms(2) by (simp add: nth_append)
  qed
qed

lemma bpf_core_apply_relo_cases:
  assumes "bpf_core_apply_relo fuel env prog relo local_btf st = Some (err, prog', st')"
  obtains (idle) "prog' = prog" "st' = st"
    | (recorded) relos where "prog' = prog\<lparr>p_core_relos := relos\<rparr>" "st' = st"
    | (applied) idx h st1 cs insns cs' where
        "idx = unat (cr_insn_off relo) div 8 - p_sec_insn_off prog" "idx < length (p_insns prog)"
        "get_cands env relo local_btf st = Some (Inr (h, st1))"
        "(case h of None \<Rightarrow> Some [] | Some h \<Rightarrow> rd (rs_lists st1) h) = Some cs"
        "apply_relo_insn fuel (drop idx (p_insns prog)) relo local_btf cs = Some (err, insns, cs')"
        "prog' = prog\<lparr>p_insns := take idx (p_insns prog) @ insns\<rparr>"
        "st' = (case h of None \<Rightarrow> st1 | Some h \<Rightarrow> st1\<lparr>rs_lists := (rs_lists st1)[h := cs']\<rparr>)"
proof -
  note T = that
  let ?idx = "int (unat (cr_insn_off relo) div 8) - int (p_sec_insn_off prog)"
  note run = assms [unfolded bpf_core_apply_relo_def Let_def]
  show thesis
  proof (cases "unat (cr_insn_off relo) mod 8 \<noteq> 0 \<or> ?idx < 0 \<or> ?idx \<ge> int (length (p_insns prog))")
    case True
    then show thesis using run by (intro T(1)) (simp_all split: if_split_asm)
  next
    case False
    define idx where "idx = nat ?idx"
    have idx: "idx = unat (cr_insn_off relo) div 8 - p_sec_insn_off prog" "idx < length (p_insns prog)"
      using False by (auto simp: idx_def)
    note run1 = run [unfolded if_not_P [OF False [unfolded de_Morgan_disj, THEN conjunct1]]
        if_not_P [OF False [unfolded de_Morgan_disj, THEN conjunct2, folded de_Morgan_disj]] idx_def [symmetric]]
    then obtain p where p: "type_by_id local_btf (cr_type_id relo) = Some p" by (auto simp: bind_Some_iff)
    show thesis
    proof (cases p)
      case None
      then show thesis using run1 p by (intro T(1)) simp_all
    next
      case (Some t)
      then obtain nm where nm: "btf_name_by_offset local_btf (unat (name_off t)) = Some nm"
        using run1 p by (auto simp: bind_Some_iff)
      consider "nm = None" | "nm \<noteq> None" "ce_gen_loader env" | "nm \<noteq> None" "\<not> ce_gen_loader env" by blast
      then show thesis
      proof cases
        case 1
        then show thesis using run1 p Some nm by (intro T(1)) simp_all
      next
        case 2
        then show thesis using run1 p Some nm T(1,2)
          by (cases "ce_record_ok env") (auto simp: bind_Some_iff record_relo_core_def)
      next
        case 3
        then obtain r where r: "get_cands env relo local_btf st = Some r"
          using run1 p Some nm by (auto simp: bind_Some_iff)
        show thesis
        proof (cases r)
          case (Inl e)
          then show thesis using run1 p Some nm 3 r by (intro T(1)) simp_all
        next
          case (Inr q)
          obtain h st1 where q: "q = (h, st1)" by (cases q)
          have fin: "(case h of None \<Rightarrow> Some [] | Some h \<Rightarrow> rd (rs_lists st1) h) \<bind>
              (\<lambda>cs. apply_relo_insn fuel (drop idx (p_insns prog)) relo local_btf cs \<bind>
                (\<lambda>(err, insns, cs). Some (err, prog\<lparr>p_insns := take idx (p_insns prog) @ insns\<rparr>,
                   case h of None \<Rightarrow> st1 | Some h \<Rightarrow> st1\<lparr>rs_lists := (rs_lists st1)[h := cs]\<rparr>))) =
              Some (err, prog', st')"
            using run1 p Some nm 3 r Inr q by simp
          then obtain cs insns cs' where
            "(case h of None \<Rightarrow> Some [] | Some h \<Rightarrow> rd (rs_lists st1) h) = Some cs"
            "apply_relo_insn fuel (drop idx (p_insns prog)) relo local_btf cs = Some (err, insns, cs')"
            "prog' = prog\<lparr>p_insns := take idx (p_insns prog) @ insns\<rparr>"
            "st' = (case h of None \<Rightarrow> st1 | Some h \<Rightarrow> st1\<lparr>rs_lists := (rs_lists st1)[h := cs']\<rparr>)"
            unfolding bind_Some_iff by auto
          from T(3) [OF idx r [unfolded Inr q] this] show thesis .
        qed
      qed
    qed
  qed
qed

text \<open>
  C21: applying a relocation keeps the cache of candidates right: it stays a well-formed map
  with one entry per type, the entries of different types have different lists, and each list
  has candidates of its type only, although the list of the type is narrowed in place to the
  candidates that matched. Nothing of the program changes but the recorded relocations and
  the two instructions at the relocated place.
\<close>

theorem apply_relo_cache:
  assumes "cache_ok env local_btf st" "cap_bits (rs_cache st) < 64"
    and "bpf_core_apply_relo fuel env prog relo local_btf st = Some (err, prog', st')"
  shows "cache_ok env local_btf st' \<and>
    (\<exists>insns relos. prog' = prog\<lparr>p_insns := insns, p_core_relos := relos\<rparr> \<and>
       length insns = length (p_insns prog) \<and>
       (let n = unat (cr_insn_off relo) div 8 - p_sec_insn_off prog
         in \<forall>j < length insns. j < n \<or> n + 2 \<le> j \<longrightarrow> insns ! j = p_insns prog ! j))"
  using assms(3)
proof (cases rule: bpf_core_apply_relo_cases)
  case idle
  then show ?thesis using assms(1) by (intro conjI exI [of _ "p_insns prog"] exI [of _ "p_core_relos prog"]) auto
next
  case (recorded relos)
  then show ?thesis using assms(1) by (intro conjI exI [of _ "p_insns prog"] exI [of _ relos]) auto
next
  case (applied idx h st1 cs insns cs')
  note got = get_cands_ok [OF assms(1,2) applied(3)]
  have "cache_ok env local_btf st'"
  proof (cases h)
    case None
    then show ?thesis using got applied(7) by simp
  next
    case (Some i)
    then have "rs_lists st1 ! i = cs" using applied(4) by (auto simp: rd_def split: if_split_asm)
    then show ?thesis using got Some applied(7) apply_relo_insn_frame(2) [OF applied(5)]
        cache_ok_update [of env local_btf st1 "cr_type_id relo" i cs'] by simp
  qed
  then show ?thesis
    using applied(6) apply_relo_insn_length [OF applied(5,2)]
    by (intro conjI exI [of _ "take idx (p_insns prog) @ insns"] exI [of _ "p_core_relos prog"])
      (simp_all add: applied(1) [symmetric] Let_def)
qed

section \<open>Witnesses\<close>

definition relo_env :: core_env where
  "relo_env = \<lparr>ce_gen_loader = False, ce_vmlinux = relo_btf, ce_override = None, ce_modules = Inr [], ce_list_ok = True,
     ce_grow_ok = (\<lambda>_. True), ce_buckets_ok = True, ce_entry_ok = True, ce_record_ok = True\<rparr>"

definition relo_prog :: core_prog where
  "relo_prog = \<lparr>p_sec_name = [], p_sec_idx = 1, p_sec_insn_off = 0, p_sec_insn_cnt = 1, p_insns = [mov_insn 1],
     p_load = True, p_core_relos = []\<rparr>"

definition relo_init :: relo_state where
  "relo_init = \<lparr>rs_cache = hashmap_init bpf_core_hash_fn bpf_core_equal_fn, rs_lists = []\<rparr>"



lemma relo_env_cands: "env_cands relo_env relo_btf 1 = Some (Inr [(relo_btf, 1), (relo_btf, 2)])"
proof -
  have same: "same_essential_name [115] [115]" by code_simp
  have upt: "[Suc 0..<4] = [Suc 0, 2, 3]" by (simp add: upt_rec)
  show ?thesis
    by (simp add: env_cands_def relo_env_def find_cands_def type_at_def type_by_id_def relo_btf_types upt same
        relo_btf_types(1,4) [unfolded One_nat_def] mk_type_def btf_kind_def)
qed

lemma relo_insert: "\<exists>cache. hashmap_insert True True (hashmap_init bpf_core_hash_fn bpf_core_equal_fn) (1::nat) (0::nat)
    HASHMAP_SET = (0, None, cache)"
proof -
  have "fst (hashmap_insert True True (hashmap_init bpf_core_hash_fn bpf_core_equal_fn) (1::nat) (0::nat) HASHMAP_SET) = 0
    \<and> fst (snd (hashmap_insert True True (hashmap_init bpf_core_hash_fn bpf_core_equal_fn) (1::nat) (0::nat) HASHMAP_SET)) = None"
   by code_simp
  then show ?thesis by (cases "hashmap_insert True True (hashmap_init bpf_core_hash_fn bpf_core_equal_fn) (1::nat) (0::nat) HASHMAP_SET") auto
qed

lemma relo_find: "hashmap_find (hashmap_init bpf_core_hash_fn bpf_core_equal_fn) k = None"
  by (simp add: hashmap_find_def hashmap_init_def hashmap_find_entry_def)

lemma relo_prog_run:
  "\<exists>st'. bpf_core_apply_relo 1 relo_env relo_prog type_exists_relo relo_btf relo_init = Some (0, relo_prog, st') \<and>
     rs_lists st' = [[(relo_btf, 1), (relo_btf, 2)]]"
proof -
  obtain cache where ins: "hashmap_insert True True (hashmap_init bpf_core_hash_fn bpf_core_equal_fn) (1::nat) (0::nat)
    HASHMAP_SET = (0, None, cache)" using relo_insert by blast
  have cands: "get_cands relo_env type_exists_relo relo_btf relo_init =
    Some (Inr (Some 0, \<lparr>rs_cache = cache, rs_lists = [[(relo_btf, 1), (relo_btf, 2)]]\<rparr>))"
    using ins relo_env_cands
    by (simp add: get_cands_def relo_init_def relo_find type_exists_relo_def relo_kind_defs) (simp add: relo_env_def)
  show ?thesis using cands relo_btf_run(2)
   by (simp add: bpf_core_apply_relo_def relo_prog_def type_exists_relo_def type_by_id_def relo_btf_types relo_btf_types(1,4) [unfolded One_nat_def]
    mk_type_def rd_def) (simp add: relo_env_def)
qed

lemma apply_relo_cache_witness:
  "\<exists>st'. bpf_core_apply_relo 1 relo_env relo_prog type_exists_relo relo_btf relo_init = Some (0, relo_prog, st') \<and>
     rs_lists st' = [[(relo_btf, 1), (relo_btf, 2)]] \<and> cache_ok relo_env relo_btf st'"
proof -
  obtain st' where run: "bpf_core_apply_relo 1 relo_env relo_prog type_exists_relo relo_btf relo_init = Some (0, relo_prog, st')"
    and lists: "rs_lists st' = [[(relo_btf, 1), (relo_btf, 2)]]" using relo_prog_run by blast
  have ok: "cache_ok relo_env relo_btf relo_init" unfolding relo_init_def by (rule cache_ok_new)
  have cap: "cap_bits (rs_cache relo_init) < 64" by (simp add: relo_init_def hashmap_init_def)
  from apply_relo_cache [OF ok cap run] show ?thesis using run lists by blast
qed

definition two_progs :: "core_prog list" where
  "two_progs = [relo_prog, relo_prog\<lparr>p_sec_insn_off := 1, p_sec_insn_cnt := 3\<rparr>]"

lemma find_prog_by_sec_insn_correct_witness: "find_prog_by_sec_insn two_progs 1 2 = Some (Some 1)"
proof -
  have sorted: "sorted_wrt prog_before two_progs" and "two_progs \<noteq> []"
    by (simp_all add: two_progs_def prog_before_def relo_prog_def)
  with find_prog_by_sec_insn_correct [OF sorted, of 1 2] obtain r where r: "find_prog_by_sec_insn two_progs 1 2 = Some r"
    "\<And>i. r = Some i \<longleftrightarrow> i < length two_progs \<and> p_sec_idx (two_progs ! i) = 1 \<and> prog_contains_insn (two_progs ! i) 2" by auto
  have "r = Some 1" by (simp add: r(2) two_progs_def relo_prog_def prog_contains_insn_def)
  then show ?thesis using r(1) by simp
qed

end
