(* ===== verification/XskRing.thy ===== *)
theory XskRing
  imports Prelude
begin

text \<open>
  The rings an AF_XDP socket shares with the kernel: \<^verbatim>\<open>libbpf/src/xsk.h\<close>.

  A ring is an array of \<open>2\<^sup>k\<close> descriptors with a producer and a consumer counter, 32-bit and
  free-running; \<open>ring_mem\<close> is that shared memory, \<open>xsk_ring\<close> the user's view of it with its cached
  copies of the two counters. Loads and stores of the counters are atomic steps (the barriers
  of the header order them); what happens between two of them is up to the other side, which
  is why the two sides are steps of a relation.
\<close>

section \<open>Rings\<close>

record xsk_ring =
  cached_prod :: u32
  cached_cons :: u32
  ring_mask :: u32
  ring_size :: u32

record 'd ring_mem =
  producer :: u32
  consumer :: u32
  descs :: "'d list"
  ring_flags :: u32

definition XDP_RING_NEED_WAKEUP :: u32 where [c_consts]: "XDP_RING_NEED_WAKEUP = 1"
definition XSK_UNALIGNED_BUF_OFFSET_SHIFT :: nat where [c_consts]: "XSK_UNALIGNED_BUF_OFFSET_SHIFT = 48"
definition XSK_UNALIGNED_BUF_ADDR_MASK :: u64 where
  "XSK_UNALIGNED_BUF_ADDR_MASK = push_bit XSK_UNALIGNED_BUF_OFFSET_SHIFT 1 - 1"

text \<open>The position in the array of the descriptor a counter value stands for.\<close>

definition ring_slot :: "xsk_ring \<Rightarrow> u32 \<Rightarrow> nat" where
  "ring_slot r idx = unat (idx AND ring_mask r)"

definition xsk_ring_prod_needs_wakeup :: "'d ring_mem \<Rightarrow> u32" where
  "xsk_ring_prod_needs_wakeup m = ring_flags m AND XDP_RING_NEED_WAKEUP"

definition xsk_prod_nb_free :: "xsk_ring \<Rightarrow> 'd ring_mem \<Rightarrow> u32 \<Rightarrow> u32 \<times> xsk_ring" where
  "xsk_prod_nb_free r m nb =
     (let free_entries = cached_cons r - cached_prod r
       in if free_entries \<ge> nb then (free_entries, r)
          else let r = r\<lparr>cached_cons := consumer m\<rparr>;
                   r = r\<lparr>cached_cons := cached_cons r + ring_size r\<rparr>
                in (cached_cons r - cached_prod r, r))"

definition xsk_cons_nb_avail :: "xsk_ring \<Rightarrow> 'd ring_mem \<Rightarrow> u32 \<Rightarrow> u32 \<times> xsk_ring" where
  "xsk_cons_nb_avail r m nb =
     (let entries = cached_prod r - cached_cons r;
          (entries, r) = (if entries = 0
                          then let r = r\<lparr>cached_prod := producer m\<rparr> in (cached_prod r - cached_cons r, r)
                          else (entries, r))
       in (if entries > nb then nb else entries, r))"

text \<open>The number of entries, and what is stored through \<open>idx\<close>, if anything.\<close>

definition xsk_ring_prod_reserve :: "xsk_ring \<Rightarrow> 'd ring_mem \<Rightarrow> u32 \<Rightarrow> u32 \<times> u32 option \<times> xsk_ring" where
  "xsk_ring_prod_reserve r m nb =
     (let (free_entries, r) = xsk_prod_nb_free r m nb
       in if free_entries < nb then (0, None, r)
          else (nb, Some (cached_prod r), r\<lparr>cached_prod := cached_prod r + nb\<rparr>))"

definition xsk_ring_prod_submit :: "'d ring_mem \<Rightarrow> u32 \<Rightarrow> 'd ring_mem" where
  "xsk_ring_prod_submit m nb = m\<lparr>producer := producer m + nb\<rparr>"

definition xsk_ring_cons_peek :: "xsk_ring \<Rightarrow> 'd ring_mem \<Rightarrow> u32 \<Rightarrow> u32 \<times> u32 option \<times> xsk_ring" where
  "xsk_ring_cons_peek cons m nb =
     (let (entries, cons) = xsk_cons_nb_avail cons m nb
       in if entries > 0
          then (entries, Some (cached_cons cons), cons\<lparr>cached_cons := cached_cons cons + entries\<rparr>)
          else (entries, None, cons))"

definition xsk_ring_cons_cancel :: "xsk_ring \<Rightarrow> u32 \<Rightarrow> xsk_ring" where
  "xsk_ring_cons_cancel cons nb = cons\<lparr>cached_cons := cached_cons cons - nb\<rparr>"

definition xsk_ring_cons_release :: "'d ring_mem \<Rightarrow> u32 \<Rightarrow> 'd ring_mem" where
  "xsk_ring_cons_release m nb = m\<lparr>consumer := consumer m + nb\<rparr>"

text \<open>Addresses of unaligned chunks: an offset in the top 16 bits.\<close>

definition xsk_umem_extract_addr :: "u64 \<Rightarrow> u64" where
  "xsk_umem_extract_addr addr = addr AND XSK_UNALIGNED_BUF_ADDR_MASK"

definition xsk_umem_extract_offset :: "u64 \<Rightarrow> u64" where
  "xsk_umem_extract_offset addr = drop_bit XSK_UNALIGNED_BUF_OFFSET_SHIFT addr"

definition xsk_umem_add_offset_to_addr :: "u64 \<Rightarrow> u64" where
  "xsk_umem_add_offset_to_addr addr = xsk_umem_extract_addr addr + xsk_umem_extract_offset addr"

section \<open>Counters and slots\<close>

definition ring_ok :: "xsk_ring \<Rightarrow> 'd ring_mem \<Rightarrow> bool" where
  "ring_ok r m \<longleftrightarrow> (\<exists>k \<le> 31. ring_size r = 2 ^ k) \<and> ring_mask r = ring_size r - 1 \<and>
     length (descs m) = unat (ring_size r)"

text \<open>The entries of \<open>n\<close> consecutive counter values.\<close>

definition window :: "xsk_ring \<Rightarrow> 'd ring_mem \<Rightarrow> u32 \<Rightarrow> nat \<Rightarrow> 'd list" where
  "window r m p n = map (\<lambda>i. descs m ! ring_slot r (p + of_nat i)) [0..<n]"

lemma length_window [simp]: "length (window r m p n) = n"
  by (simp add: window_def)

lemma window_0 [simp]: "window r m p 0 = []"
  by (simp add: window_def)

lemma window_Suc: "window r m p (Suc n) = window r m p n @ [descs m ! ring_slot r (p + of_nat n)]"
  by (simp add: window_def)

lemma window_append: "window r m p (a + b) = window r m p a @ window r m (p + of_nat a) b"
  by (induction b) (simp_all add: window_Suc add.assoc)

lemma window_cong:
  "ring_mask r' = ring_mask r \<Longrightarrow> descs m' = descs m \<Longrightarrow> window r' m' p n = window r m p n"
  by (simp add: window_def ring_slot_def)

lemma ring_slot_mod:
  assumes "ring_ok r m"
  shows "ring_slot r (p + of_nat i) = (unat p + i) mod unat (ring_size r)"
proof -
  obtain k where k: "k \<le> 31" "ring_size r = 2 ^ k" "ring_mask r = 2 ^ k - 1"
    using assms by (auto simp: ring_ok_def)
  have "ring_size r = of_nat (2 ^ k)" using k(2) by simp
  moreover have "(2 :: nat) ^ k < 2 ^ 32" using k(1) by (intro power_strict_increasing) simp_all
  ultimately have size: "unat (ring_size r) = 2 ^ k"
    using k(1) by (simp only: unsigned_of_nat) (simp add: take_bit_nat_eq_self)
  have "p + of_nat i AND ring_mask r = take_bit k (p + of_nat i)"
    using k by (simp add: take_bit_eq_mask mask_eq_exp_minus_1)
  then have "ring_slot r (p + of_nat i) = unat (p + of_nat i) mod 2 ^ k"
    by (simp only: ring_slot_def unsigned_take_bit_eq) (simp add: take_bit_eq_mod)
  also have "\<dots> = (unat p + i) mod 2 ^ 32 mod 2 ^ k" by (simp add: unat_word_ariths unsigned_of_nat take_bit_eq_mod mod_simps)
  also have "(2 :: nat) ^ k dvd 2 ^ 32" using k(1) by (intro le_imp_power_dvd) simp
  then have "(unat p + i) mod 2 ^ 32 mod 2 ^ k = (unat p + i) mod 2 ^ k" by (rule mod_mod_cancel)
  finally show ?thesis using size by simp
qed

lemma ring_slot_less: "ring_ok r m \<Longrightarrow> ring_slot r p < length (descs m)"
  using ring_slot_mod [of r m p 0] by (auto simp: ring_ok_def unat_gt_0)

text \<open>Counter values less than a whole ring apart have different slots.\<close>

lemma ring_slot_inj:
  assumes "ring_ok r m" "i < unat (ring_size r)" "j < unat (ring_size r)"
    and "ring_slot r (p + of_nat i) = ring_slot r (p + of_nat j)"
  shows "i = j"
proof -
  have eq: "(unat p + i) mod unat (ring_size r) = (unat p + j) mod unat (ring_size r)"
    using assms(4) by (simp add: ring_slot_mod [OF assms(1)])
  have "x = y" if "x \<le> y" "y < n" "(c + x) mod n = (c + y) mod n" for c x y n :: nat
  proof -
    have "n dvd y - x" using that by (metis add_diff_cancel_left mod_eq_dvd_iff_nat nat_add_left_cancel_le)
    moreover have "y - x < n" using that by simp
    ultimately show ?thesis using that(1) by (auto dest: nat_dvd_not_less)
  qed
  from this [of i j] this [of j i] show ?thesis using eq assms(2,3) by (metis nat_le_linear)
qed

lemma window_write:
  assumes "ring_ok r m" "n \<le> k" "k < unat (ring_size r)"
  shows "window r (m\<lparr>descs := (descs m)[ring_slot r (p + of_nat k) := d]\<rparr>) p n = window r m p n"
proof -
  have "(descs m)[ring_slot r (p + of_nat k) := d] ! ring_slot r (p + of_nat i) =
      descs m ! ring_slot r (p + of_nat i)" if "i < n" for i
    using ring_slot_inj [OF assms(1), of k i p] that assms(2,3) by (intro nth_list_update_neq) auto
  then show ?thesis by (simp add: window_def)
qed

section \<open>Setting up a ring\<close>

text \<open>
  What \<^verbatim>\<open>xsk_socket__create_shared\<close> and \<^verbatim>\<open>xsk_create_umem_rings\<close> put into the user's view, \<open>m\<close> being the
  memory they have mapped. The latter do not write all of the cached counters.
\<close>

definition rx_ring_init :: "u32 \<Rightarrow> 'd ring_mem \<Rightarrow> xsk_ring" where
  "rx_ring_init n m = \<lparr>cached_prod = producer m, cached_cons = consumer m, ring_mask = n - 1, ring_size = n\<rparr>"

definition tx_ring_init :: "u32 \<Rightarrow> 'd ring_mem \<Rightarrow> xsk_ring" where
  "tx_ring_init n m = \<lparr>cached_prod = producer m, cached_cons = consumer m + n, ring_mask = n - 1, ring_size = n\<rparr>"

definition fill_ring_init :: "u32 \<Rightarrow> xsk_ring \<Rightarrow> xsk_ring" where
  "fill_ring_init n fill = fill\<lparr>ring_mask := n - 1, ring_size := n, cached_cons := n\<rparr>"

definition comp_ring_init :: "u32 \<Rightarrow> xsk_ring \<Rightarrow> xsk_ring" where
  "comp_ring_init n r = r\<lparr>ring_mask := n - 1, ring_size := n\<rparr>"

lemma ring_size_bound: "ring_ok r m \<Longrightarrow> 0 < unat (ring_size r) \<and> unat (ring_size r) < 2 ^ 32"
  using unsigned_less [of "ring_size r"] ring_slot_less [of r m 0] by (simp add: ring_ok_def)

text \<open>A ring as the kernel hands it out.\<close>

definition fresh_ring :: "u32 \<Rightarrow> 'd ring_mem \<Rightarrow> bool" where
  "fresh_ring n m \<longleftrightarrow> (\<exists>k \<le> 31. n = 2 ^ k) \<and> length (descs m) = unat n \<and> producer m = consumer m"

end
