(* ===== verification/Channel.thy ===== *)
theory Channel
  imports Main
begin

text \<open>
  A bounded first-in first-out channel between two parties, the specification of the rings, and
  what it takes for a transition system to implement it. In flight are the entries that have
  been sent and not been taken; the receiver may give the last entries it took back.
\<close>

record 'd channel =
  in_flight :: "'d list"
  taken :: "'d list"

inductive channel_step :: "nat \<Rightarrow> 'd channel \<Rightarrow> 'd list \<Rightarrow> 'd channel \<Rightarrow> bool" for cap where
  quiet: "channel_step cap c [] c"
| send: "length (in_flight c) + length xs \<le> cap \<Longrightarrow>
     channel_step cap c xs (c\<lparr>in_flight := in_flight c @ xs\<rparr>)"
| take_entries: "in_flight c = xs @ q \<Longrightarrow>
     channel_step cap c [] (c\<lparr>in_flight := q, taken := taken c @ xs\<rparr>)"
| give_back: "taken c = ys @ xs \<Longrightarrow> length (in_flight c) + length xs \<le> cap \<Longrightarrow>
     channel_step cap c [] (c\<lparr>in_flight := xs @ in_flight c, taken := ys\<rparr>)"

inductive_cases channel_stepE: "channel_step cap c xs c'"

text \<open>Runs, with all that has been sent on the way.\<close>

inductive channel_run :: "nat \<Rightarrow> 'd channel \<Rightarrow> 'd list \<Rightarrow> 'd channel \<Rightarrow> bool" for cap where
  refl: "channel_run cap c [] c"
| step: "channel_run cap c xs c' \<Longrightarrow> channel_step cap c' ys c'' \<Longrightarrow> channel_run cap c (xs @ ys) c''"

text \<open>Nothing is lost, reordered or made up, and never more than the capacity is in flight.\<close>

lemma channel_run_fifo:
  "channel_run cap c xs c' \<Longrightarrow> taken c' @ in_flight c' = taken c @ in_flight c @ xs"
proof (induction rule: channel_run.induct)
  case (step c xs c' ys c'')
  from step.hyps(2) have "taken c'' @ in_flight c'' = taken c' @ in_flight c' @ ys"
    by (rule channel_stepE) auto
  then show ?case using step.IH by (metis append.assoc)
qed simp

lemma channel_run_bound:
  "channel_run cap c xs c' \<Longrightarrow> length (in_flight c) \<le> cap \<Longrightarrow> length (in_flight c') \<le> cap"
proof (induction rule: channel_run.induct)
  case (step c xs c' ys c'')
  from step.hyps(2) show ?case by (rule channel_stepE) (use step.IH [OF step.prems] in auto)
qed simp

text \<open>Runs of a system whose steps are labelled with what they send.\<close>

inductive runs :: "('s \<Rightarrow> 'd list \<Rightarrow> 's \<Rightarrow> bool) \<Rightarrow> 's \<Rightarrow> 'd list \<Rightarrow> 's \<Rightarrow> bool" for step where
  refl: "runs step s [] s"
| step: "runs step s xs t \<Longrightarrow> step t ys u \<Longrightarrow> runs step s (xs @ ys) u"

lemma runs_single: "step s xs t \<Longrightarrow> runs step s xs t"
  using runs.step [OF runs.refl, of step s xs t] by simp

text \<open>
  A system implements a channel when its steps keep its invariant and are steps of the channel.
\<close>

locale channel_system =
  fixes step :: "'s \<Rightarrow> 'd list \<Rightarrow> 's \<Rightarrow> bool" and inv :: "'s \<Rightarrow> bool" and cap :: "'s \<Rightarrow> nat"
    and chan :: "'s \<Rightarrow> 'd channel"
  assumes step_inv: "inv s \<Longrightarrow> step s xs t \<Longrightarrow> inv t"
    and step_cap: "inv s \<Longrightarrow> step s xs t \<Longrightarrow> cap t = cap s"
    and step_chan: "inv s \<Longrightarrow> step s xs t \<Longrightarrow> channel_step (cap s) (chan s) xs (chan t)"
    and inv_bound: "inv s \<Longrightarrow> length (in_flight (chan s)) \<le> cap s"
begin

lemma run_inv: "runs step s xs t \<Longrightarrow> inv s \<Longrightarrow> inv t \<and> cap t = cap s"
  by (induction rule: runs.induct) (auto dest: step_inv step_cap)

lemma run_refines: "runs step s xs t \<Longrightarrow> inv s \<Longrightarrow> channel_run (cap s) (chan s) xs (chan t)"
proof (induction rule: runs.induct)
  case (step s xs t ys u)
  then show ?case using run_inv [OF step.hyps(1) step.prems] step_chan channel_run.step by metis
qed (rule channel_run.refl)

lemma run_fifo:
  assumes "runs step s xs t" "inv s"
  shows "taken (chan t) @ in_flight (chan t) = taken (chan s) @ in_flight (chan s) @ xs"
    and "length (in_flight (chan t)) \<le> cap s"
  using channel_run_fifo [OF run_refines [OF assms]]
    channel_run_bound [OF run_refines [OF assms] inv_bound [OF assms(2)]] by simp_all

end

end
