(* ===== verification/XskProd.thy ===== *)
theory XskProd
  imports XskRing Channel
begin

text \<open>
  The rings the user produces for (transmit and fill): every run of the user's operations and the
  kernel's is one of a bounded channel.
\<close>

section \<open>The transmit and the fill ring\<close>

text \<open>
  The user produces, the kernel consumes. \<open>kernel_got\<close> records what the kernel has taken. The user
  may reserve, write the descriptors it has reserved, and submit them in order; the kernel takes
  the next descriptor and advances the consumer counter, as \<^verbatim>\<open>net/xdp/xsk_queue.h\<close> documents.
\<close>

record 'd prod_sys =
  p_ring :: xsk_ring
  p_mem :: "'d ring_mem"
  kernel_got :: "'d list"

abbreviation unsent :: "'d prod_sys \<Rightarrow> nat" where
  "unsent s \<equiv> unat (cached_prod (p_ring s) - producer (p_mem s))"

definition kernel_take :: "'d prod_sys \<Rightarrow> 'd prod_sys" where
  "kernel_take s =
     (if consumer (p_mem s) = producer (p_mem s) then s
      else s\<lparr>p_mem := (p_mem s)\<lparr>consumer := consumer (p_mem s) + 1\<rparr>,
             kernel_got := kernel_got s @ [descs (p_mem s) ! ring_slot (p_ring s) (consumer (p_mem s))]\<rparr>)"

inductive prod_step :: "'d prod_sys \<Rightarrow> 'd list \<Rightarrow> 'd prod_sys \<Rightarrow> bool" where
  reserve: "xsk_ring_prod_reserve (p_ring s) (p_mem s) nb = (n, idx, r) \<Longrightarrow>
     prod_step s [] (s\<lparr>p_ring := r\<rparr>)"
| write_desc: "k < unsent s \<Longrightarrow> i = ring_slot (p_ring s) (producer (p_mem s) + of_nat k) \<Longrightarrow>
     prod_step s [] (s\<lparr>p_mem := (p_mem s)\<lparr>descs := (descs (p_mem s))[i := d]\<rparr>\<rparr>)"
| submit: "unat nb \<le> unsent s \<Longrightarrow>
     prod_step s (window (p_ring s) (p_mem s) (producer (p_mem s)) (unat nb))
       (s\<lparr>p_mem := xsk_ring_prod_submit (p_mem s) nb\<rparr>)"
| kernel: "prod_step s [] (kernel_take s)"

inductive_cases prod_stepE: "prod_step s xs t"

text \<open>
  The counters in order: the consumer the user last saw, the consumer, the producer, what is
  reserved, what the user knows to be free; all within one round of the ring.
\<close>

definition prod_inv :: "'d prod_sys \<Rightarrow> bool" where
  "prod_inv s \<longleftrightarrow> ring_ok (p_ring s) (p_mem s) \<and>
     (\<exists>a b c f. a + b + c + f = unat (ring_size (p_ring s)) \<and>
        consumer (p_mem s) = cached_cons (p_ring s) - ring_size (p_ring s) + of_nat a \<and>
        producer (p_mem s) = consumer (p_mem s) + of_nat b \<and>
        cached_prod (p_ring s) = producer (p_mem s) + of_nat c)"

definition prod_chan :: "'d prod_sys \<Rightarrow> 'd channel" where
  "prod_chan s = \<lparr>in_flight = window (p_ring s) (p_mem s) (consumer (p_mem s))
      (unat (producer (p_mem s) - consumer (p_mem s))), taken = kernel_got s\<rparr>"

text \<open>What every step has to keep.\<close>

definition prod_ok :: "'d prod_sys \<Rightarrow> 'd list \<Rightarrow> 'd prod_sys \<Rightarrow> bool" where
  "prod_ok s xs t \<longleftrightarrow> prod_inv t \<and> ring_size (p_ring t) = ring_size (p_ring s) \<and>
     channel_step (unat (ring_size (p_ring s))) (prod_chan s) xs (prod_chan t)"

lemma prod_invE:
  assumes "prod_inv s"
  obtains a b c f where "ring_ok (p_ring s) (p_mem s)" "a + b + c + f = unat (ring_size (p_ring s))"
    "consumer (p_mem s) = cached_cons (p_ring s) - ring_size (p_ring s) + of_nat a"
    "producer (p_mem s) = consumer (p_mem s) + of_nat b" "cached_prod (p_ring s) = producer (p_mem s) + of_nat c"
    "unat (producer (p_mem s) - consumer (p_mem s)) = b" "unsent s = c" "0 < unat (ring_size (p_ring s))"
proof -
  note T = that
  obtain a b c f where I: "ring_ok (p_ring s) (p_mem s)" "a + b + c + f = unat (ring_size (p_ring s))"
    "consumer (p_mem s) = cached_cons (p_ring s) - ring_size (p_ring s) + of_nat a"
    "producer (p_mem s) = consumer (p_mem s) + of_nat b" "cached_prod (p_ring s) = producer (p_mem s) + of_nat c"
    using assms unfolding prod_inv_def by blast
  note B = ring_size_bound [OF I(1)]
  have "unat (producer (p_mem s) - consumer (p_mem s)) = b" using I(2,4) B by (simp add: of_nat_unat_u32)
  moreover have "unsent s = c" using I(2,5) B by (simp add: of_nat_unat_u32)
  ultimately show thesis by (rule T [OF I]) (use B in simp)
qed

lemma prod_invI:
  assumes "ring_ok (p_ring s) (p_mem s)" "a + b + c + f = unat (ring_size (p_ring s))"
    and "consumer (p_mem s) = cached_cons (p_ring s) - ring_size (p_ring s) + of_nat a"
    and "producer (p_mem s) = consumer (p_mem s) + of_nat b"
    and "cached_prod (p_ring s) = producer (p_mem s) + of_nat c"
  shows "prod_inv s"
  using assms unfolding prod_inv_def by blast

text \<open>What reserving does, in terms of the counters.\<close>

lemma reserve_result:
  assumes "ring_ok r m" "a + b + c + f = unat (ring_size r)"
    and "consumer m = cached_cons r - ring_size r + of_nat a" "producer m = consumer m + of_nat b"
    and "cached_prod r = producer m + of_nat c"
  obtains cc a' f' where "a' + f' = a + f" "consumer m = cc - ring_size r + of_nat a'"
    "xsk_ring_prod_reserve r m nb =
      (if unat nb \<le> a + f then (nb, Some (cached_prod r), r\<lparr>cached_cons := cc, cached_prod := cached_prod r + nb\<rparr>)
       else (0, None, r\<lparr>cached_cons := cc\<rparr>))"
    "unat nb \<le> a + f \<Longrightarrow> unat nb \<le> f'"
proof -
  note T = that
  note B = ring_size_bound [OF assms(1)]
  have size: "ring_size r = of_nat (a + b + c + f)" unfolding assms(2) by simp
  have cons: "cached_cons r = consumer m - of_nat a + ring_size r" using assms(3) by (simp add: algebra_simps)
  have f: "cached_cons r - cached_prod r = of_nat f" using assms(4,5) size cons by (simp add: algebra_simps)
  have af: "consumer m + ring_size r - cached_prod r = of_nat (a + f)"
    using assms(4,5) size by (simp add: algebra_simps)
  have le: "nb \<le> of_nat n \<longleftrightarrow> unat nb \<le> n" if "n \<le> a + f" for n
    using that B assms(2) by (simp add: word_le_nat_alt of_nat_unat_u32)
  show thesis
  proof (cases "unat nb \<le> f")
    case True
    then have "xsk_ring_prod_reserve r m nb = (nb, Some (cached_prod r), r\<lparr>cached_prod := cached_prod r + nb\<rparr>)"
      using le [of f] f by (simp add: xsk_ring_prod_reserve_def xsk_prod_nb_free_def not_less)
    then show thesis using True assms(3) by (intro T [of a f "cached_cons r"]) simp_all
  next
    case False
    then have "xsk_ring_prod_reserve r m nb =
      (if unat nb \<le> a + f then (nb, Some (cached_prod r), r\<lparr>cached_cons := consumer m + ring_size r, cached_prod := cached_prod r + nb\<rparr>)
       else (0, None, r\<lparr>cached_cons := consumer m + ring_size r\<rparr>))"
      using le [of f] le [of "a + f"] f af
      by (auto simp: xsk_ring_prod_reserve_def xsk_prod_nb_free_def Let_def not_less)
    then show thesis by (intro T [of 0 "a + f" "consumer m + ring_size r"]) simp_all
  qed
qed

lemma reserve_ok:
  assumes "prod_inv s" "xsk_ring_prod_reserve (p_ring s) (p_mem s) nb = (n, idx, r)"
  shows "prod_ok s [] (s\<lparr>p_ring := r\<rparr>)"
proof -
  obtain a b c f where I: "ring_ok (p_ring s) (p_mem s)" "a + b + c + f = unat (ring_size (p_ring s))"
    "consumer (p_mem s) = cached_cons (p_ring s) - ring_size (p_ring s) + of_nat a"
    "producer (p_mem s) = consumer (p_mem s) + of_nat b" "cached_prod (p_ring s) = producer (p_mem s) + of_nat c"
    using assms(1) by (rule prod_invE)
  obtain cc a' f' where R: "a' + f' = a + f" "consumer (p_mem s) = cc - ring_size (p_ring s) + of_nat a'"
    "xsk_ring_prod_reserve (p_ring s) (p_mem s) nb =
      (if unat nb \<le> a + f
       then (nb, Some (cached_prod (p_ring s)), (p_ring s)\<lparr>cached_cons := cc, cached_prod := cached_prod (p_ring s) + nb\<rparr>)
       else (0, None, (p_ring s)\<lparr>cached_cons := cc\<rparr>))" "unat nb \<le> a + f \<Longrightarrow> unat nb \<le> f'"
    using reserve_result [OF I] by blast
  have "prod_inv (s\<lparr>p_ring := r\<rparr>) \<and> ring_mask r = ring_mask (p_ring s) \<and> ring_size r = ring_size (p_ring s)"
  proof (cases "unat nb \<le> a + f")
    case True
    then have r: "r = (p_ring s)\<lparr>cached_cons := cc, cached_prod := cached_prod (p_ring s) + nb\<rparr>"
      using R(3) assms(2) by simp
    have "prod_inv (s\<lparr>p_ring := r\<rparr>)"
      by (rule prod_invI [of _ a' b "c + unat nb" "f' - unat nb"])
        (use r I R(1,2) R(4) [OF True] in \<open>simp_all add: ring_ok_def\<close>)
    then show ?thesis using r by simp
  next
    case False
    then have r: "r = (p_ring s)\<lparr>cached_cons := cc\<rparr>" using R(3) assms(2) by simp
    have "prod_inv (s\<lparr>p_ring := r\<rparr>)"
      by (rule prod_invI [of _ a' b c f']) (use r I R(1,2) in \<open>simp_all add: ring_ok_def\<close>)
    then show ?thesis using r by simp
  qed
  moreover from this have "prod_chan (s\<lparr>p_ring := r\<rparr>) = prod_chan s"
    using window_cong [of r "p_ring s" "p_mem s" "p_mem s"] by (simp add: prod_chan_def)
  ultimately show ?thesis by (simp add: prod_ok_def channel_step.quiet)
qed

lemma write_desc_ok:
  assumes "prod_inv s" "k < unsent s" "i = ring_slot (p_ring s) (producer (p_mem s) + of_nat k)"
  shows "prod_ok s [] (s\<lparr>p_mem := (p_mem s)\<lparr>descs := (descs (p_mem s))[i := d]\<rparr>\<rparr>)"
proof -
  let ?t = "s\<lparr>p_mem := (p_mem s)\<lparr>descs := (descs (p_mem s))[i := d]\<rparr>\<rparr>"
  obtain a b c f where I: "ring_ok (p_ring s) (p_mem s)" "a + b + c + f = unat (ring_size (p_ring s))"
    "consumer (p_mem s) = cached_cons (p_ring s) - ring_size (p_ring s) + of_nat a"
    "producer (p_mem s) = consumer (p_mem s) + of_nat b" "cached_prod (p_ring s) = producer (p_mem s) + of_nat c"
    and b: "unat (producer (p_mem s) - consumer (p_mem s)) = b" and c: "unsent s = c"
    using assms(1) by (rule prod_invE)
  have "prod_inv ?t" by (rule prod_invI [of _ a b c f]) (use I in \<open>simp_all add: ring_ok_def\<close>)
  moreover have "window (p_ring s) (p_mem ?t) (consumer (p_mem s)) b = window (p_ring s) (p_mem s) (consumer (p_mem s)) b"
    using window_write [OF I(1), of b "b + k" "consumer (p_mem s)" d] assms(2,3) c I(2,4) by (simp add: add.assoc)
  then have "prod_chan ?t = prod_chan s" using b by (simp add: prod_chan_def)
  ultimately show ?thesis by (simp add: prod_ok_def channel_step.quiet)
qed

lemma submit_ok:
  assumes "prod_inv s" "unat nb \<le> unsent s"
  shows "prod_ok s (window (p_ring s) (p_mem s) (producer (p_mem s)) (unat nb))
    (s\<lparr>p_mem := xsk_ring_prod_submit (p_mem s) nb\<rparr>)"
proof -
  let ?t = "s\<lparr>p_mem := xsk_ring_prod_submit (p_mem s) nb\<rparr>"
  let ?xs = "window (p_ring s) (p_mem s) (producer (p_mem s)) (unat nb)"
  obtain a b c f where I: "ring_ok (p_ring s) (p_mem s)" "a + b + c + f = unat (ring_size (p_ring s))"
    "consumer (p_mem s) = cached_cons (p_ring s) - ring_size (p_ring s) + of_nat a"
    "producer (p_mem s) = consumer (p_mem s) + of_nat b" "cached_prod (p_ring s) = producer (p_mem s) + of_nat c"
    and b: "unat (producer (p_mem s) - consumer (p_mem s)) = b" and c: "unsent s = c"
    using assms(1) by (rule prod_invE)
  have inv: "prod_inv ?t"
    by (rule prod_invI [of _ a "b + unat nb" "c - unat nb" f])
      (use I assms(2) c in \<open>simp_all add: ring_ok_def xsk_ring_prod_submit_def\<close>)
  have "producer (p_mem ?t) - consumer (p_mem ?t) = of_nat (b + unat nb)"
    using I(4) by (simp add: xsk_ring_prod_submit_def)
  moreover have "b + unat nb < 2 ^ 32" using ring_size_bound [OF I(1)] I(2) assms(2) c by simp
  ultimately have "unat (producer (p_mem ?t) - consumer (p_mem ?t)) = b + unat nb" by (simp only: of_nat_unat_u32)
  then have "prod_chan ?t = (prod_chan s)\<lparr>in_flight := in_flight (prod_chan s) @ ?xs\<rparr>"
    using b I(4) window_append [of "p_ring s" "p_mem s" "consumer (p_mem s)" b "unat nb"]
      window_cong [of "p_ring s" "p_ring s" "p_mem ?t" "p_mem s"]
    by (simp add: prod_chan_def xsk_ring_prod_submit_def)
  moreover have "length (in_flight (prod_chan s)) + length ?xs \<le> unat (ring_size (p_ring s))"
    using b c assms(2) I(2) by (simp add: prod_chan_def)
  ultimately show ?thesis
    using inv channel_step.send [of "prod_chan s" ?xs] by (simp add: prod_ok_def)
qed

lemma kernel_take_ok:
  assumes "prod_inv s"
  shows "prod_ok s [] (kernel_take s)"
proof (cases "consumer (p_mem s) = producer (p_mem s)")
  case True
  then show ?thesis using assms by (simp add: kernel_take_def prod_ok_def channel_step.quiet)
next
  case False
  let ?t = "kernel_take s"
  let ?d = "descs (p_mem s) ! ring_slot (p_ring s) (consumer (p_mem s))"
  have t: "?t = s\<lparr>p_mem := (p_mem s)\<lparr>consumer := consumer (p_mem s) + 1\<rparr>, kernel_got := kernel_got s @ [?d]\<rparr>"
    using False by (simp add: kernel_take_def)
  obtain a b c f where I: "ring_ok (p_ring s) (p_mem s)" "a + b + c + f = unat (ring_size (p_ring s))"
    "consumer (p_mem s) = cached_cons (p_ring s) - ring_size (p_ring s) + of_nat a"
    "producer (p_mem s) = consumer (p_mem s) + of_nat b" "cached_prod (p_ring s) = producer (p_mem s) + of_nat c"
    and b: "unat (producer (p_mem s) - consumer (p_mem s)) = b" and c: "unsent s = c"
    using assms(1) by (rule prod_invE)
  obtain b' where b': "b = Suc b'" using False I(4) by (cases b) auto
  have inv: "prod_inv ?t"
    by (rule prod_invI [of _ "Suc a" b' c f]) (use t I b' in \<open>simp_all add: ring_ok_def\<close>)
  have "producer (p_mem ?t) - consumer (p_mem ?t) = of_nat b'" using t I(4) b' by simp
  moreover have "b' < 2 ^ 32" using ring_size_bound [OF I(1)] I(2) b' by simp
  ultimately have "unat (producer (p_mem ?t) - consumer (p_mem ?t)) = b'" by (simp only: of_nat_unat_u32)
  moreover have "in_flight (prod_chan s) = [?d] @ window (p_ring s) (p_mem s) (consumer (p_mem s) + 1) b'"
    using b b' window_append [of "p_ring s" "p_mem s" "consumer (p_mem s)" 1 b'] by (simp add: prod_chan_def window_Suc)
  ultimately have "in_flight (prod_chan s) = [?d] @ in_flight (prod_chan ?t)"
    "prod_chan ?t = (prod_chan s)\<lparr>in_flight := in_flight (prod_chan ?t), taken := taken (prod_chan s) @ [?d]\<rparr>"
    using t window_cong [of "p_ring s" "p_ring s" "p_mem ?t" "p_mem s"] by (simp_all add: prod_chan_def)
  from channel_step.take_entries [OF this(1)] this(2) inv show ?thesis using t by (simp add: prod_ok_def)
qed

lemma prod_step_ok: "prod_inv s \<Longrightarrow> prod_step s xs t \<Longrightarrow> prod_ok s xs t"
  by (erule prod_stepE) (auto intro: reserve_ok write_desc_ok submit_ok kernel_take_ok)

lemma prod_inv_bound: "prod_inv s \<Longrightarrow> length (in_flight (prod_chan s)) \<le> unat (ring_size (p_ring s))"
  by (erule prod_invE) (simp add: prod_chan_def)

interpretation prod_ring: channel_system prod_step prod_inv "\<lambda>s. unat (ring_size (p_ring s))" prod_chan
  by unfold_locales (auto dest: prod_step_ok simp: prod_ok_def prod_inv_bound)

section \<open>From a new socket\<close>

definition prod_start :: "u32 \<Rightarrow> 'd ring_mem \<Rightarrow> 'd prod_sys" where
  "prod_start n m = \<lparr>p_ring = tx_ring_init n m, p_mem = m, kernel_got = []\<rparr>"

lemma prod_start_inv: "fresh_ring n m \<Longrightarrow> prod_inv (prod_start n m)"
  by (rule prod_invI [of _ 0 0 0 "unat n"]) (auto simp: fresh_ring_def prod_start_def tx_ring_init_def ring_ok_def)

lemma prod_start_chan: "fresh_ring n m \<Longrightarrow> prod_chan (prod_start n m) = \<lparr>in_flight = [], taken = []\<rparr>"
  by (simp add: prod_chan_def prod_start_def fresh_ring_def)

text \<open>A fill ring is set up like a transmit ring, when the caller has cleared the structure.\<close>

lemma fill_ring_init_cleared:
  "producer m = 0 \<Longrightarrow> consumer m = 0 \<Longrightarrow> cached_prod fill = 0 \<Longrightarrow> fill_ring_init n fill = tx_ring_init n m"
  by (simp add: fill_ring_init_def tx_ring_init_def)

text \<open>
  C8: whatever the user and the kernel do on a transmit ring, and however often the 32-bit
  counters wrap around: the kernel gets the descriptors in the order the user submitted them, each
  once and as the user wrote it; those it has not got yet are in the ring, and with the reserved
  ones they never exceed its size.
\<close>

theorem tx_ring_fifo:
  assumes "fresh_ring n m" "runs prod_step (prod_start n m) xs t"
  shows "kernel_got t @ window (p_ring t) (p_mem t) (consumer (p_mem t))
      (unat (producer (p_mem t) - consumer (p_mem t))) = xs \<and>
    unat (producer (p_mem t) - consumer (p_mem t)) + unsent t \<le> unat n"
proof -
  note start = prod_start_inv [OF assms(1)] prod_start_chan [OF assms(1)]
  have "taken (prod_chan t) @ in_flight (prod_chan t) = xs"
    using prod_ring.run_fifo(1) [OF assms(2) start(1)] start(2) by simp
  moreover have "prod_inv t" "unat (ring_size (p_ring t)) = unat n"
    using prod_ring.run_inv [OF assms(2) start(1)] by (simp_all add: prod_start_def tx_ring_init_def)
  then have "unat (producer (p_mem t) - consumer (p_mem t)) + unsent t \<le> unat n"
    by (auto elim!: prod_invE)
  ultimately show ?thesis by (simp add: prod_chan_def)
qed

section \<open>The user is not blocked\<close>

text \<open>Reserving succeeds exactly when there is room, although the user sees an old consumer.\<close>

lemma reserve_iff_room:
  assumes "prod_inv s"
  shows "fst (xsk_ring_prod_reserve (p_ring s) (p_mem s) nb) =
      (if unat nb + unsent s + unat (producer (p_mem s) - consumer (p_mem s)) \<le> unat (ring_size (p_ring s)) then nb else 0)"
    and "nb \<noteq> 0 \<Longrightarrow> fst (xsk_ring_prod_reserve (p_ring s) (p_mem s) nb) = nb \<Longrightarrow>
      fst (snd (xsk_ring_prod_reserve (p_ring s) (p_mem s) nb)) = Some (cached_prod (p_ring s))"
proof -
  obtain a b c f where I: "ring_ok (p_ring s) (p_mem s)" "a + b + c + f = unat (ring_size (p_ring s))"
    "consumer (p_mem s) = cached_cons (p_ring s) - ring_size (p_ring s) + of_nat a"
    "producer (p_mem s) = consumer (p_mem s) + of_nat b" "cached_prod (p_ring s) = producer (p_mem s) + of_nat c"
    and bc: "unat (producer (p_mem s) - consumer (p_mem s)) = b" "unsent s = c"
    using assms by (rule prod_invE)
  obtain cc a' f' where R: "xsk_ring_prod_reserve (p_ring s) (p_mem s) nb =
      (if unat nb \<le> a + f
       then (nb, Some (cached_prod (p_ring s)), (p_ring s)\<lparr>cached_cons := cc, cached_prod := cached_prod (p_ring s) + nb\<rparr>)
       else (0, None, (p_ring s)\<lparr>cached_cons := cc\<rparr>))"
    using reserve_result [OF I] by blast
  have "unat nb \<le> a + f \<longleftrightarrow> unat nb + unsent s + unat (producer (p_mem s) - consumer (p_mem s)) \<le> unat (ring_size (p_ring s))"
    using bc I(2) by auto
  then show "fst (xsk_ring_prod_reserve (p_ring s) (p_mem s) nb) =
      (if unat nb + unsent s + unat (producer (p_mem s) - consumer (p_mem s)) \<le> unat (ring_size (p_ring s)) then nb else 0)"
    unfolding R by simp
  show "nb \<noteq> 0 \<Longrightarrow> fst (xsk_ring_prod_reserve (p_ring s) (p_mem s) nb) = nb \<Longrightarrow>
      fst (snd (xsk_ring_prod_reserve (p_ring s) (p_mem s) nb)) = Some (cached_prod (p_ring s))"
    unfolding R by (simp split: if_splits)
qed

lemma kernel_drains:
  "producer (p_mem s) = consumer (p_mem s) + of_nat b \<Longrightarrow> b < 2 ^ 32 \<Longrightarrow>
     consumer (p_mem ((kernel_take ^^ b) s)) = producer (p_mem s) \<and>
     producer (p_mem ((kernel_take ^^ b) s)) = producer (p_mem s) \<and> p_ring ((kernel_take ^^ b) s) = p_ring s"
proof (induction b arbitrary: s)
  case (Suc b)
  have "(of_nat (Suc b) :: u32) \<noteq> 0"
    using of_nat_unat_u32 [OF Suc.prems(2)] by (metis nat.distinct(1) unsigned_0)
  then have ne: "consumer (p_mem s) \<noteq> producer (p_mem s)" using Suc.prems(1) by (metis add_cancel_right_right)
  then have "producer (p_mem (kernel_take s)) = producer (p_mem s)" "p_ring (kernel_take s) = p_ring s"
    "producer (p_mem (kernel_take s)) = consumer (p_mem (kernel_take s)) + of_nat b"
    using Suc.prems(1) by (simp_all add: kernel_take_def)
  then show ?case using Suc.IH [of "kernel_take s"] Suc.prems(2) by (simp only: funpow_Suc_right comp_apply)
qed simp

text \<open>
  C10: a user of a transmit ring is never blocked for good: at any point of any run, a number of
  entries that fits the ring beside those still reserved can be reserved after the kernel has
  taken finitely many, at most what the ring holds, and the entries follow those reserved before.
\<close>

theorem tx_ring_progress:
  assumes "fresh_ring n m" "runs prod_step (prod_start n m) xs t" "0 < nb" "unat nb + unsent t \<le> unat n"
  shows "\<exists>j \<le> unat n. \<exists>r. xsk_ring_prod_reserve (p_ring ((kernel_take ^^ j) t)) (p_mem ((kernel_take ^^ j) t)) nb =
    (nb, Some (cached_prod (p_ring t)), r)"
proof -
  have inv: "prod_inv t" "unat (ring_size (p_ring t)) = unat n"
    using prod_ring.run_inv [OF assms(2) prod_start_inv [OF assms(1)]]
    by (simp_all add: prod_start_def tx_ring_init_def)
  obtain a b c f where I: "ring_ok (p_ring t) (p_mem t)" "a + b + c + f = unat (ring_size (p_ring t))"
    "producer (p_mem t) = consumer (p_mem t) + of_nat b" using inv(1) by (rule prod_invE)
  let ?u = "(kernel_take ^^ b) t"
  have u: "consumer (p_mem ?u) = producer (p_mem t)" "producer (p_mem ?u) = producer (p_mem t)" "p_ring ?u = p_ring t"
    using kernel_drains [OF I(3)] ring_size_bound [OF I(1)] I(2) by simp_all
  have "prod_inv ((kernel_take ^^ j) t)" for j
    by (induction j) (use inv(1) kernel_take_ok in \<open>auto simp: prod_ok_def\<close>)
  note room = reserve_iff_room [OF this [of b], of nb]
  have "fst (xsk_ring_prod_reserve (p_ring ?u) (p_mem ?u) nb) = nb"
    using room(1) assms(4) inv(2) u by simp
  moreover from this have "fst (snd (xsk_ring_prod_reserve (p_ring ?u) (p_mem ?u) nb)) = Some (cached_prod (p_ring t))"
    using room(2) assms(3) u(3) by simp
  ultimately have "xsk_ring_prod_reserve (p_ring ?u) (p_mem ?u) nb =
    (nb, Some (cached_prod (p_ring t)), snd (snd (xsk_ring_prod_reserve (p_ring ?u) (p_mem ?u) nb)))"
    by (metis prod.collapse)
  moreover have "b \<le> unat n" using I(2) inv(2) by simp
  ultimately show ?thesis by blast
qed

section \<open>Witnesses\<close>

text \<open>A ring of two descriptors whose counters are about to wrap around.\<close>

definition wrapping_mem :: "nat ring_mem" where
  "wrapping_mem = \<lparr>producer = 0xFFFFFFFF, consumer = 0xFFFFFFFF, descs = [0, 0], ring_flags = 0\<rparr>"

definition after_reserve :: "nat prod_sys" where
  "after_reserve = \<lparr>p_ring = \<lparr>cached_prod = 1, cached_cons = 1, ring_mask = 1, ring_size = 2\<rparr>,
     p_mem = wrapping_mem, kernel_got = []\<rparr>"

definition after_submit :: "nat prod_sys" where
  "after_submit = after_reserve\<lparr>p_mem := wrapping_mem\<lparr>producer := 1\<rparr>\<rparr>"

lemma wrapping_fresh: "fresh_ring 2 wrapping_mem"
  by (auto simp: fresh_ring_def wrapping_mem_def intro!: exI [of _ 1])

lemma wrapping_run: "runs prod_step (prod_start 2 wrapping_mem) [0, 0] after_submit"
proof -
  have "prod_step (prod_start 2 wrapping_mem) [] ((prod_start 2 wrapping_mem)\<lparr>p_ring := p_ring after_reserve\<rparr>)"
    by (rule prod_step.reserve [where nb = 2])
      (simp add: prod_start_def tx_ring_init_def wrapping_mem_def after_reserve_def xsk_ring_prod_reserve_def
        xsk_prod_nb_free_def)
  also have "(prod_start 2 wrapping_mem)\<lparr>p_ring := p_ring after_reserve\<rparr> = after_reserve"
    by (simp add: prod_start_def after_reserve_def)
  finally have one: "prod_step (prod_start 2 wrapping_mem) [] after_reserve" .
  have two: "unat (2 :: u32) = 2" "(0xFFFFFFFF + 2 :: u32) = 1" by simp_all
  have "prod_step after_reserve (window (p_ring after_reserve) (p_mem after_reserve) (producer (p_mem after_reserve)) (unat (2 :: u32)))
      (after_reserve\<lparr>p_mem := xsk_ring_prod_submit (p_mem after_reserve) 2\<rparr>)"
    by (rule prod_step.submit) (simp add: after_reserve_def wrapping_mem_def)
  also have "window (p_ring after_reserve) (p_mem after_reserve) (producer (p_mem after_reserve)) (unat (2 :: u32)) = [0, 0]"
    unfolding two by (simp add: after_reserve_def wrapping_mem_def window_def ring_slot_def numeral_2_eq_2)
  also have "after_reserve\<lparr>p_mem := xsk_ring_prod_submit (p_mem after_reserve) 2\<rparr> = after_submit"
    by (simp only: after_submit_def after_reserve_def wrapping_mem_def xsk_ring_prod_submit_def two prod_sys.simps ring_mem.simps)
  finally have "prod_step after_reserve [0, 0] after_submit" .
  from runs.step [OF runs_single [of prod_step, OF one] this] show ?thesis by simp
qed

lemma tx_ring_fifo_witness:
  "runs prod_step (prod_start 2 wrapping_mem) [0, 0] after_submit \<and>
   kernel_got after_submit @ window (p_ring after_submit) (p_mem after_submit) 0xFFFFFFFF 2 = [0, 0]"
  using tx_ring_fifo [OF wrapping_fresh wrapping_run] wrapping_run
  by (simp add: after_submit_def after_reserve_def wrapping_mem_def)

lemma tx_ring_progress_witness:
  "\<exists>j \<le> 2. \<exists>r. xsk_ring_prod_reserve (p_ring ((kernel_take ^^ j) after_submit)) (p_mem ((kernel_take ^^ j) after_submit)) 2 =
    (2, Some 1, r)"
  using tx_ring_progress [OF wrapping_fresh wrapping_run, of 2]
  by (simp add: after_submit_def after_reserve_def wrapping_mem_def)

end
