(* ===== verification/XskCons.thy ===== *)
theory XskCons
  imports XskRing Channel
begin

text \<open>
  The rings the user consumes from (receive and completion): every run of the kernel's and the
  user's operations is one of a bounded channel, and what the user holds is not overwritten.
\<close>

record 'd cons_sys =
  c_ring :: xsk_ring
  c_mem :: "'d ring_mem"
  user_got :: "'d list"

abbreviation held :: "'d cons_sys \<Rightarrow> nat" where
  "held s \<equiv> unat (cached_cons (c_ring s) - consumer (c_mem s))"

text \<open>
  The user reads the entries from the index that peeking gives, may cancel the last of them, and
  releases the first ones. The kernel puts a descriptor into the ring if that is not full.
\<close>

definition kernel_put :: "'d \<Rightarrow> 'd cons_sys \<Rightarrow> 'd cons_sys" where
  "kernel_put d s =
     s\<lparr>c_mem := (c_mem s)\<lparr>descs := (descs (c_mem s))[ring_slot (c_ring s) (producer (c_mem s)) := d],
                         producer := producer (c_mem s) + 1\<rparr>\<rparr>"

inductive cons_step :: "'d cons_sys \<Rightarrow> 'd list \<Rightarrow> 'd cons_sys \<Rightarrow> bool" where
  peek: "xsk_ring_cons_peek (c_ring s) (c_mem s) nb = (n, idx, r) \<Longrightarrow>
     cons_step s [] (s\<lparr>c_ring := r, user_got := user_got s @
       (case idx of None \<Rightarrow> [] | Some i \<Rightarrow> window r (c_mem s) i (unat n))\<rparr>)"
| cancel: "unat nb \<le> held s \<Longrightarrow>
     cons_step s [] (s\<lparr>c_ring := xsk_ring_cons_cancel (c_ring s) nb,
       user_got := take (length (user_got s) - unat nb) (user_got s)\<rparr>)"
| release: "unat nb \<le> held s \<Longrightarrow> cons_step s [] (s\<lparr>c_mem := xsk_ring_cons_release (c_mem s) nb\<rparr>)"
| kernel: "producer (c_mem s) - consumer (c_mem s) < ring_size (c_ring s) \<Longrightarrow>
     cons_step s [d] (kernel_put d s)"

inductive_cases cons_stepE: "cons_step s xs t"

text \<open>
  The counters in order: the consumer, what the user has peeked at, the producer as the user last
  saw it, the producer. The last entries the user has read are those it holds.
\<close>

definition cons_inv :: "'d cons_sys \<Rightarrow> bool" where
  "cons_inv s \<longleftrightarrow> ring_ok (c_ring s) (c_mem s) \<and>
     (\<exists>a b c got. a + b + c \<le> unat (ring_size (c_ring s)) \<and>
        cached_cons (c_ring s) = consumer (c_mem s) + of_nat a \<and>
        cached_prod (c_ring s) = cached_cons (c_ring s) + of_nat b \<and>
        producer (c_mem s) = cached_prod (c_ring s) + of_nat c \<and>
        user_got s = got @ window (c_ring s) (c_mem s) (consumer (c_mem s)) a)"

definition cons_chan :: "'d cons_sys \<Rightarrow> 'd channel" where
  "cons_chan s = \<lparr>in_flight = window (c_ring s) (c_mem s) (cached_cons (c_ring s))
      (unat (producer (c_mem s) - cached_cons (c_ring s))), taken = user_got s\<rparr>"

definition cons_ok :: "'d cons_sys \<Rightarrow> 'd list \<Rightarrow> 'd cons_sys \<Rightarrow> bool" where
  "cons_ok s xs t \<longleftrightarrow> cons_inv t \<and> ring_size (c_ring t) = ring_size (c_ring s) \<and>
     channel_step (unat (ring_size (c_ring s))) (cons_chan s) xs (cons_chan t)"

lemma cons_invE:
  assumes "cons_inv s"
  obtains a b c got where "ring_ok (c_ring s) (c_mem s)" "a + b + c \<le> unat (ring_size (c_ring s))"
    "cached_cons (c_ring s) = consumer (c_mem s) + of_nat a" "cached_prod (c_ring s) = cached_cons (c_ring s) + of_nat b"
    "producer (c_mem s) = cached_prod (c_ring s) + of_nat c"
    "user_got s = got @ window (c_ring s) (c_mem s) (consumer (c_mem s)) a"
    "held s = a" "unat (producer (c_mem s) - cached_cons (c_ring s)) = b + c" "unat (ring_size (c_ring s)) < 2 ^ 32"
proof -
  note T = that
  obtain a b c got where I: "ring_ok (c_ring s) (c_mem s)" "a + b + c \<le> unat (ring_size (c_ring s))"
    "cached_cons (c_ring s) = consumer (c_mem s) + of_nat a" "cached_prod (c_ring s) = cached_cons (c_ring s) + of_nat b"
    "producer (c_mem s) = cached_prod (c_ring s) + of_nat c"
    "user_got s = got @ window (c_ring s) (c_mem s) (consumer (c_mem s)) a"
    using assms unfolding cons_inv_def by blast
  note B = ring_size_bound [OF I(1)]
  have "held s = a" using I(2,3) B by (simp add: of_nat_unat_u32)
  moreover have "producer (c_mem s) - cached_cons (c_ring s) = of_nat (b + c)" using I(4,5) by simp
  then have "unat (producer (c_mem s) - cached_cons (c_ring s)) = b + c"
    using of_nat_unat_u32 [of "b + c"] I(2) B by simp
  ultimately show thesis by (rule T [OF I]) (use B in simp)
qed

lemma cons_invI:
  assumes "ring_ok (c_ring s) (c_mem s)" "a + b + c \<le> unat (ring_size (c_ring s))"
    and "cached_cons (c_ring s) = consumer (c_mem s) + of_nat a"
    and "cached_prod (c_ring s) = cached_cons (c_ring s) + of_nat b"
    and "producer (c_mem s) = cached_prod (c_ring s) + of_nat c"
    and "user_got s = got @ window (c_ring s) (c_mem s) (consumer (c_mem s)) a"
  shows "cons_inv s"
  using assms unfolding cons_inv_def by blast

text \<open>What peeking does, in terms of the counters.\<close>

lemma peek_result:
  assumes "ring_ok r m" "a + b + c \<le> unat (ring_size r)"
    and "cached_prod r = cached_cons r + of_nat b" "producer m = cached_prod r + of_nat c"
  obtains b' c' where "b' + c' = b + c" "b \<le> b'" "b = 0 \<Longrightarrow> c' = 0"
    "xsk_ring_cons_peek r m nb = (let n = min b' (unat nb)
       in (of_nat n, if n > 0 then Some (cached_cons r) else None,
           r\<lparr>cached_prod := cached_cons r + of_nat b', cached_cons := cached_cons r + of_nat n\<rparr>))"
proof -
  note T = that
  note B = ring_size_bound [OF assms(1)]
  have peek: "xsk_ring_cons_peek r m nb = (let n = min b' (unat nb)
       in (of_nat n, if n > 0 then Some (cached_cons r) else None,
           r\<lparr>cached_prod := cached_cons r + of_nat b', cached_cons := cached_cons r + of_nat n\<rparr>))"
    if avail: "xsk_cons_nb_avail r m nb = (if of_nat b' > nb then nb else of_nat b', r\<lparr>cached_prod := cached_cons r + of_nat b'\<rparr>)"
      and b': "b' \<le> b + c" for b'
  proof -
    have lt: "b' < 2 ^ 32" using b' B assms(2) by simp
    have "(if of_nat b' > nb then nb else of_nat b') = of_nat (min b' (unat nb))"
      using lt by (simp add: word_less_nat_alt of_nat_unat_u32 min_def)
    moreover have "(of_nat (min b' (unat nb)) :: u32) > 0 \<longleftrightarrow> min b' (unat nb) > 0"
      using lt by (simp add: word_less_nat_alt of_nat_unat_u32 del: of_nat_min)
    ultimately show ?thesis using avail by (simp add: xsk_ring_cons_peek_def Let_def del: of_nat_min)
  qed
  have b: "(of_nat b :: u32) = 0 \<longleftrightarrow> b = 0" using B assms(2) of_nat_unat_u32 [of b] by force
  show thesis
  proof (cases "b = 0")
    case True
    have "xsk_cons_nb_avail r m nb = (if of_nat (b + c) > nb then nb else of_nat (b + c), r\<lparr>cached_prod := cached_cons r + of_nat (b + c)\<rparr>)"
      using True assms(3,4) by (simp add: xsk_cons_nb_avail_def Let_def)
    from peek [OF this] show thesis using True by (intro T [of "b + c" 0]) simp_all
  next
    case False
    have "r = r\<lparr>cached_prod := cached_cons r + of_nat b\<rparr>" using assms(3) by simp
    then have "xsk_cons_nb_avail r m nb = (if of_nat b > nb then nb else of_nat b, r\<lparr>cached_prod := cached_cons r + of_nat b\<rparr>)"
      using False b assms(3) by (simp add: xsk_cons_nb_avail_def Let_def)
    from peek [OF this] show thesis using False by (intro T [of b c]) simp_all
  qed
qed

lemma peek_ok:
  assumes "cons_inv s" "xsk_ring_cons_peek (c_ring s) (c_mem s) nb = (n, idx, r)"
  shows "cons_ok s [] (s\<lparr>c_ring := r, user_got := user_got s @
       (case idx of None \<Rightarrow> [] | Some i \<Rightarrow> window r (c_mem s) i (unat n))\<rparr>)"
proof -
  obtain a b c got where I: "ring_ok (c_ring s) (c_mem s)" "a + b + c \<le> unat (ring_size (c_ring s))"
    "cached_cons (c_ring s) = consumer (c_mem s) + of_nat a" "cached_prod (c_ring s) = cached_cons (c_ring s) + of_nat b"
    "producer (c_mem s) = cached_prod (c_ring s) + of_nat c"
    "user_got s = got @ window (c_ring s) (c_mem s) (consumer (c_mem s)) a"
    and u: "unat (producer (c_mem s) - cached_cons (c_ring s)) = b + c" and B: "unat (ring_size (c_ring s)) < 2 ^ 32"
    using assms(1) by (rule cons_invE)
  obtain b' c' where P: "b' + c' = b + c" "xsk_ring_cons_peek (c_ring s) (c_mem s) nb = (let n = min b' (unat nb)
       in (of_nat n, if n > 0 then Some (cached_cons (c_ring s)) else None,
           (c_ring s)\<lparr>cached_prod := cached_cons (c_ring s) + of_nat b', cached_cons := cached_cons (c_ring s) + of_nat n\<rparr>))"
    using peek_result [OF I(1,2,4,5)] by blast
  define k where "k = min b' (unat nb)"
  let ?t = "s\<lparr>c_ring := r, user_got := user_got s @ (case idx of None \<Rightarrow> [] | Some i \<Rightarrow> window r (c_mem s) i (unat n))\<rparr>"
  have k: "k \<le> b'" "unat (of_nat k :: u32) = k" using P(1) I(2) B by (simp_all add: k_def of_nat_unat_u32 del: of_nat_min)
  have r: "n = of_nat k" "idx = (if k > 0 then Some (cached_cons (c_ring s)) else None)"
    "r = (c_ring s)\<lparr>cached_prod := cached_cons (c_ring s) + of_nat b', cached_cons := cached_cons (c_ring s) + of_nat k\<rparr>"
    using P(2) assms(2) by (simp_all add: k_def Let_def del: of_nat_min)
  have win: "window r m p j = window (c_ring s) m p j" for m :: "'a ring_mem" and p j
    using r(3) by (intro window_cong) simp_all
  have got: "user_got ?t = user_got s @ window (c_ring s) (c_mem s) (cached_cons (c_ring s)) k"
    using r(1,2) k(2) win by simp
  have "window (c_ring s) (c_mem s) (consumer (c_mem s)) (a + k) =
      window (c_ring s) (c_mem s) (consumer (c_mem s)) a @ window (c_ring s) (c_mem s) (cached_cons (c_ring s)) k"
    by (simp only: window_append I(3))
  then have "user_got ?t = got @ window r (c_mem s) (consumer (c_mem s)) (a + k)" using got I(6) win by simp
  moreover have sum: "(of_nat b + of_nat c :: u32) = of_nat b' + of_nat c'" by (metis P(1) of_nat_add)
  ultimately have inv: "cons_inv ?t"
    by (intro cons_invI [of _ "a + k" "b' - k" c' got]) (use r(3) I P(1) k(1) in \<open>simp_all add: ring_ok_def\<close>)
  have eq: "producer (c_mem s) - cached_cons r = of_nat (b + c - k)"
    using I(4,5) r(3) k(1) P(1) by simp
  have "unat (producer (c_mem s) - cached_cons r) = b + c - k"
    unfolding eq using I(2) B by (intro of_nat_unat_u32) simp
  moreover have "window (c_ring s) (c_mem s) (cached_cons (c_ring s)) (k + (b + c - k)) =
      window (c_ring s) (c_mem s) (cached_cons (c_ring s)) k @ window (c_ring s) (c_mem s) (cached_cons (c_ring s) + of_nat k) (b + c - k)"
    by (rule window_append)
  then have "in_flight (cons_chan s) = window (c_ring s) (c_mem s) (cached_cons (c_ring s)) k @
      window (c_ring s) (c_mem s) (cached_cons (c_ring s) + of_nat k) (b + c - k)"
    using u k(1) P(1) by (simp add: cons_chan_def)
  from channel_step.take_entries [OF this]
  have "channel_step (unat (ring_size (c_ring s))) (cons_chan s) []
     ((cons_chan s)\<lparr>in_flight := window (c_ring s) (c_mem s) (cached_cons (c_ring s) + of_nat k) (b + c - k),
        taken := taken (cons_chan s) @ window (c_ring s) (c_mem s) (cached_cons (c_ring s)) k\<rparr>)" .
  ultimately show ?thesis using inv got r(3) win by (simp add: cons_ok_def cons_chan_def)
qed

lemma cancel_ok:
  assumes "cons_inv s" "unat nb \<le> held s"
  shows "cons_ok s [] (s\<lparr>c_ring := xsk_ring_cons_cancel (c_ring s) nb,
       user_got := take (length (user_got s) - unat nb) (user_got s)\<rparr>)"
proof -
  let ?t = "s\<lparr>c_ring := xsk_ring_cons_cancel (c_ring s) nb,
       user_got := take (length (user_got s) - unat nb) (user_got s)\<rparr>"
  let ?w = "window (c_ring s) (c_mem s)"
  obtain a b c got where I: "ring_ok (c_ring s) (c_mem s)" "a + b + c \<le> unat (ring_size (c_ring s))"
    "cached_cons (c_ring s) = consumer (c_mem s) + of_nat a" "cached_prod (c_ring s) = cached_cons (c_ring s) + of_nat b"
    "producer (c_mem s) = cached_prod (c_ring s) + of_nat c" "user_got s = got @ ?w (consumer (c_mem s)) a"
    and u: "held s = a" "unat (producer (c_mem s) - cached_cons (c_ring s)) = b + c"
    and B: "unat (ring_size (c_ring s)) < 2 ^ 32"
    using assms(1) by (rule cons_invE)
  have nb: "unat nb \<le> a" using assms(2) u(1) by simp
  have win: "window (xsk_ring_cons_cancel (c_ring s) nb) m p j = window (c_ring s) m p j" for m :: "'a ring_mem" and p j
    by (intro window_cong) (simp_all add: xsk_ring_cons_cancel_def)
  have cc: "cached_cons (c_ring s) - nb = consumer (c_mem s) + of_nat (a - unat nb)" using I(3) nb by simp
  have "?w (consumer (c_mem s)) (a - unat nb + unat nb) =
      ?w (consumer (c_mem s)) (a - unat nb) @ ?w (consumer (c_mem s) + of_nat (a - unat nb)) (unat nb)"
    by (rule window_append)
  then have got: "user_got s = (got @ ?w (consumer (c_mem s)) (a - unat nb)) @ ?w (cached_cons (c_ring s) - nb) (unat nb)"
    using I(6) nb unfolding cc by simp
  then have got': "user_got ?t = got @ ?w (consumer (c_mem s)) (a - unat nb)" by simp
  have inv: "cons_inv ?t"
    by (intro cons_invI [of _ "a - unat nb" "b + unat nb" c got])
      (use I got' nb in \<open>simp_all add: ring_ok_def xsk_ring_cons_cancel_def window_def ring_slot_def\<close>)
  have eq: "producer (c_mem s) - (cached_cons (c_ring s) - nb) = of_nat (unat nb + (b + c))"
    using I(4,5) by simp
  have "unat (producer (c_mem s) - (cached_cons (c_ring s) - nb)) = unat nb + (b + c)"
    unfolding eq using I(2) B nb by (intro of_nat_unat_u32) simp
  moreover have "?w (cached_cons (c_ring s) - nb) (unat nb + (b + c)) =
      ?w (cached_cons (c_ring s) - nb) (unat nb) @ ?w (cached_cons (c_ring s)) (b + c)"
    by (subst window_append) simp
  moreover have "taken (cons_chan s) = user_got ?t @ ?w (cached_cons (c_ring s) - nb) (unat nb)"
    using got got' by (simp add: cons_chan_def)
  then have "channel_step (unat (ring_size (c_ring s))) (cons_chan s) []
     ((cons_chan s)\<lparr>in_flight := ?w (cached_cons (c_ring s) - nb) (unat nb) @ in_flight (cons_chan s), taken := user_got ?t\<rparr>)"
    by (rule channel_step.give_back) (use I(2) nb u(2) in \<open>simp add: cons_chan_def\<close>)
  ultimately show ?thesis
    using inv win u(2) by (simp add: cons_ok_def cons_chan_def xsk_ring_cons_cancel_def)
qed

lemma release_ok:
  assumes "cons_inv s" "unat nb \<le> held s"
  shows "cons_ok s [] (s\<lparr>c_mem := xsk_ring_cons_release (c_mem s) nb\<rparr>)"
proof -
  let ?t = "s\<lparr>c_mem := xsk_ring_cons_release (c_mem s) nb\<rparr>"
  let ?w = "window (c_ring s) (c_mem s)"
  obtain a b c got where I: "ring_ok (c_ring s) (c_mem s)" "a + b + c \<le> unat (ring_size (c_ring s))"
    "cached_cons (c_ring s) = consumer (c_mem s) + of_nat a" "cached_prod (c_ring s) = cached_cons (c_ring s) + of_nat b"
    "producer (c_mem s) = cached_prod (c_ring s) + of_nat c" "user_got s = got @ ?w (consumer (c_mem s)) a"
    and u: "held s = a"
    using assms(1) by (rule cons_invE)
  have nb: "unat nb \<le> a" using assms(2) u by simp
  have win: "window (c_ring s) (xsk_ring_cons_release (c_mem s) nb) p j = ?w p j" for p j
    by (intro window_cong) (simp_all add: xsk_ring_cons_release_def)
  have "?w (consumer (c_mem s)) (unat nb + (a - unat nb)) = ?w (consumer (c_mem s)) (unat nb) @ ?w (consumer (c_mem s) + nb) (a - unat nb)"
    by (subst window_append) simp
  then have "user_got s = (got @ ?w (consumer (c_mem s)) (unat nb)) @ ?w (consumer (c_mem s) + nb) (a - unat nb)"
    using I(6) nb by simp
  then have "cons_inv ?t"
    by (intro cons_invI [of _ "a - unat nb" b c "got @ ?w (consumer (c_mem s)) (unat nb)"])
      (use I nb win in \<open>simp_all add: ring_ok_def xsk_ring_cons_release_def\<close>)
  moreover have "cons_chan ?t = cons_chan s" using win by (simp add: cons_chan_def) (simp add: xsk_ring_cons_release_def)
  ultimately show ?thesis by (simp add: cons_ok_def channel_step.quiet)
qed

lemma kernel_put_ok:
  assumes "cons_inv s" "producer (c_mem s) - consumer (c_mem s) < ring_size (c_ring s)"
  shows "cons_ok s [d] (kernel_put d s)"
proof -
  let ?t = "kernel_put d s"
  let ?w = "window (c_ring s) (c_mem s)"
  obtain a b c got where I: "ring_ok (c_ring s) (c_mem s)" "a + b + c \<le> unat (ring_size (c_ring s))"
    "cached_cons (c_ring s) = consumer (c_mem s) + of_nat a" "cached_prod (c_ring s) = cached_cons (c_ring s) + of_nat b"
    "producer (c_mem s) = cached_prod (c_ring s) + of_nat c" "user_got s = got @ ?w (consumer (c_mem s)) a"
    and u: "unat (producer (c_mem s) - cached_cons (c_ring s)) = b + c" and B: "unat (ring_size (c_ring s)) < 2 ^ 32"
    using assms(1) by (rule cons_invE)
  have prod: "producer (c_mem s) = consumer (c_mem s) + of_nat (a + b + c)" using I(3-5) by simp
  then have "producer (c_mem s) - consumer (c_mem s) = of_nat (a + b + c)" by simp
  then have room: "a + b + c < unat (ring_size (c_ring s))"
    using assms(2) I(2) B of_nat_unat_u32 [of "a + b + c"] by (simp add: word_less_nat_alt)
  define m where "m = (c_mem s)\<lparr>descs := (descs (c_mem s))[ring_slot (c_ring s) (producer (c_mem s)) := d]\<rparr>"
  have t: "?t = s\<lparr>c_mem := m\<lparr>producer := producer (c_mem s) + 1\<rparr>\<rparr>" by (simp add: kernel_put_def m_def)
  have win: "window (c_ring s) (m\<lparr>producer := x\<rparr>) p j = window (c_ring s) m p j" for x p j
    by (intro window_cong) simp_all
  have old: "window (c_ring s) m (consumer (c_mem s)) j = ?w (consumer (c_mem s)) j" if "j \<le> a + b + c" for j
    unfolding m_def prod by (rule window_write [OF I(1) that room])
  have prod': "producer (c_mem s) = cached_cons (c_ring s) + of_nat (b + c)" using I(4,5) by simp
  have old': "window (c_ring s) m (cached_cons (c_ring s)) (b + c) = ?w (cached_cons (c_ring s)) (b + c)"
    unfolding m_def prod' by (rule window_write [OF I(1)]) (use room in simp_all)
  have new: "descs m ! ring_slot (c_ring s) (producer (c_mem s)) = d"
    using ring_slot_less [OF I(1)] by (simp add: m_def)
  have inv: "cons_inv ?t"
    by (intro cons_invI [of _ a b "Suc c" got])
      (use t I room old [of a] win in \<open>simp_all add: ring_ok_def, simp_all add: m_def\<close>)
  have eq: "producer (c_mem ?t) - cached_cons (c_ring ?t) = of_nat (Suc (b + c))" using t prod' by simp
  have "unat (producer (c_mem ?t) - cached_cons (c_ring ?t)) = Suc (b + c)"
    unfolding eq using room B by (intro of_nat_unat_u32) simp
  then have "cons_chan ?t = (cons_chan s)\<lparr>in_flight := in_flight (cons_chan s) @ [d]\<rparr>"
    using t u win old' new prod' by (simp add: cons_chan_def window_Suc)
  moreover have "length (in_flight (cons_chan s)) + length [d] \<le> unat (ring_size (c_ring s))"
    using u room by (simp add: cons_chan_def)
  ultimately show ?thesis
    using inv t channel_step.send [of "cons_chan s" "[d]"] by (simp add: cons_ok_def)
qed

lemma cons_step_ok: "cons_inv s \<Longrightarrow> cons_step s xs t \<Longrightarrow> cons_ok s xs t"
  by (erule cons_stepE) (auto intro: peek_ok cancel_ok release_ok kernel_put_ok)

lemma cons_inv_bound: "cons_inv s \<Longrightarrow> length (in_flight (cons_chan s)) \<le> unat (ring_size (c_ring s))"
  by (erule cons_invE) (simp add: cons_chan_def)

interpretation cons_ring: channel_system cons_step cons_inv "\<lambda>s. unat (ring_size (c_ring s))" cons_chan
  by unfold_locales (auto dest: cons_step_ok simp: cons_ok_def cons_inv_bound)

section \<open>From a new socket\<close>

definition cons_start :: "u32 \<Rightarrow> 'd ring_mem \<Rightarrow> 'd cons_sys" where
  "cons_start n m = \<lparr>c_ring = rx_ring_init n m, c_mem = m, user_got = []\<rparr>"

lemma cons_start_inv: "fresh_ring n m \<Longrightarrow> cons_inv (cons_start n m)"
  by (rule cons_invI [of _ 0 0 0 "[]"]) (auto simp: fresh_ring_def cons_start_def rx_ring_init_def ring_ok_def)

lemma cons_start_chan: "fresh_ring n m \<Longrightarrow> cons_chan (cons_start n m) = \<lparr>in_flight = [], taken = []\<rparr>"
  by (simp add: cons_chan_def cons_start_def rx_ring_init_def fresh_ring_def)

lemma cons_run_inv:
  assumes "fresh_ring n m" "runs cons_step (cons_start n m) xs t"
  shows "cons_inv t" "unat (ring_size (c_ring t)) = unat n"
    "user_got t @ in_flight (cons_chan t) = xs"
  using cons_ring.run_inv [OF assms(2) cons_start_inv [OF assms(1)]]
    cons_ring.run_fifo(1) [OF assms(2) cons_start_inv [OF assms(1)]] cons_start_chan [OF assms(1)]
  by (simp_all add: cons_start_def rx_ring_init_def) (simp add: cons_chan_def)

text \<open>
  C9: whatever the kernel and the user do on a receive ring, and however often the counters wrap
  around: the user reads the descriptors in the order the kernel put them, each once (those it
  cancels again later), the unread ones are in the ring, and those the user has read and not
  released are still there unchanged.
\<close>

theorem rx_ring_fifo:
  assumes "fresh_ring n m" "runs cons_step (cons_start n m) xs t"
  shows "user_got t @ window (c_ring t) (c_mem t) (cached_cons (c_ring t))
      (unat (producer (c_mem t) - cached_cons (c_ring t))) = xs \<and>
    (\<exists>released. user_got t = released @ window (c_ring t) (c_mem t) (consumer (c_mem t)) (held t)) \<and>
    held t + unat (producer (c_mem t) - cached_cons (c_ring t)) \<le> unat n"
proof -
  note run = cons_run_inv [OF assms]
  obtain a b c got where "a + b + c \<le> unat (ring_size (c_ring t))" "held t = a"
    "user_got t = got @ window (c_ring t) (c_mem t) (consumer (c_mem t)) a"
    "unat (producer (c_mem t) - cached_cons (c_ring t)) = b + c" using run(1) by (rule cons_invE)
  then show ?thesis using run(2,3) by (auto simp: cons_chan_def)
qed

text \<open>
  A user of a receive ring does not miss what the kernel has put: as long as there are unread
  descriptors, peeking gives at least one and from the first unread on, never more than there
  are or were asked for; it gives none when all have been read.
\<close>

theorem rx_peek_progress:
  assumes "fresh_ring n m" "runs cons_step (cons_start n m) xs t" "0 < nb"
  shows "let unread = unat (producer (c_mem t) - cached_cons (c_ring t));
             (k, idx, r) = xsk_ring_cons_peek (c_ring t) (c_mem t) nb
    in (if unread = 0 then k = 0 \<and> idx = None
        else 0 < k \<and> k \<le> nb \<and> unat k \<le> unread \<and> idx = Some (cached_cons (c_ring t))) \<and>
       (cached_prod (c_ring t) = cached_cons (c_ring t) \<longrightarrow> unat k = min unread (unat nb))"
proof -
  obtain a b c got where I: "ring_ok (c_ring t) (c_mem t)" "a + b + c \<le> unat (ring_size (c_ring t))"
    "cached_prod (c_ring t) = cached_cons (c_ring t) + of_nat b" "producer (c_mem t) = cached_prod (c_ring t) + of_nat c"
    and u: "unat (producer (c_mem t) - cached_cons (c_ring t)) = b + c" and B: "unat (ring_size (c_ring t)) < 2 ^ 32"
    using cons_run_inv(1) [OF assms(1,2)] by (rule cons_invE)
  obtain b' c' where P: "b' + c' = b + c" "b \<le> b'" "b = 0 \<Longrightarrow> c' = 0"
    "xsk_ring_cons_peek (c_ring t) (c_mem t) nb = (let k = min b' (unat nb)
       in (of_nat k, if k > 0 then Some (cached_cons (c_ring t)) else None,
           (c_ring t)\<lparr>cached_prod := cached_cons (c_ring t) + of_nat b', cached_cons := cached_cons (c_ring t) + of_nat k\<rparr>))"
    using peek_result [OF I] by blast
  define k where "k = min b' (unat nb)"
  have k: "unat (of_nat k :: u32) = k" using P(1) I(2) B by (intro of_nat_unat_u32) (simp add: k_def)
  have nb: "0 < unat nb" using assms(3) by (simp add: word_less_nat_alt)
  have none: "k = 0 \<Longrightarrow> b + c = 0" using P(1-3) nb by (auto simp: k_def min_def split: if_splits)
  have "b = 0" if "cached_prod (c_ring t) = cached_cons (c_ring t)"
    using that I(2,3) B of_nat_unat_u32 [of b] by force
  then show ?thesis
    using P(1-3) k none nb u unfolding P(4) k_def [symmetric] Let_def
    by (auto simp: word_less_nat_alt word_le_nat_alt k_def [symmetric] simp del: of_nat_min) (auto simp: k_def)
qed

section \<open>Witnesses\<close>

definition wrapping_rx :: "nat ring_mem" where
  "wrapping_rx = \<lparr>producer = 0xFFFFFFFF, consumer = 0xFFFFFFFF, descs = [0, 0], ring_flags = 0\<rparr>"

lemma wrapping_rx_fresh: "fresh_ring 2 wrapping_rx"
  by (auto simp: fresh_ring_def wrapping_rx_def intro!: exI [of _ 1])

definition after_put :: "nat cons_sys" where
  "after_put = kernel_put 8 (kernel_put 7 (cons_start 2 wrapping_rx))"

lemma after_put_eq: "after_put =
    \<lparr>c_ring = \<lparr>cached_prod = 0xFFFFFFFF, cached_cons = 0xFFFFFFFF, ring_mask = 1, ring_size = 2\<rparr>,
     c_mem = \<lparr>producer = 1, consumer = 0xFFFFFFFF, descs = [8, 7], ring_flags = 0\<rparr>, user_got = []\<rparr>"
  by (simp add: after_put_def kernel_put_def cons_start_def rx_ring_init_def wrapping_rx_def ring_slot_def)

lemma after_put_run: "runs cons_step (cons_start 2 wrapping_rx) [7, 8] after_put"
proof -
  have one: "cons_step (cons_start 2 wrapping_rx) [7] (kernel_put 7 (cons_start 2 wrapping_rx))"
    by (rule cons_step.kernel) (simp add: cons_start_def rx_ring_init_def wrapping_rx_def)
  have "cons_step (kernel_put 7 (cons_start 2 wrapping_rx)) [8] after_put"
    unfolding after_put_def
    by (rule cons_step.kernel) (simp add: kernel_put_def cons_start_def rx_ring_init_def wrapping_rx_def word_less_nat_alt)
  from runs.step [OF runs_single [of cons_step, OF one] this] show ?thesis by simp
qed

lemma rx_ring_fifo_witness:
  "runs cons_step (cons_start 2 wrapping_rx) [7, 8] after_put \<and>
   window (c_ring after_put) (c_mem after_put) 0xFFFFFFFF 2 = [7, 8]"
proof -
  have "user_got after_put = []" "cached_cons (c_ring after_put) = 0xFFFFFFFF"
    "unat (producer (c_mem after_put) - cached_cons (c_ring after_put)) = 2" by (simp_all add: after_put_eq)
  then show ?thesis
    using rx_ring_fifo [OF wrapping_rx_fresh after_put_run, THEN conjunct1] after_put_run by (simp only: append_Nil)
qed

lemma rx_peek_progress_witness: "fst (xsk_ring_cons_peek (c_ring after_put) (c_mem after_put) 5) = 2"
proof -
  obtain k idx r where k: "xsk_ring_cons_peek (c_ring after_put) (c_mem after_put) 5 = (k, idx, r)"
    by (rule prod_cases3)
  have "unat k = unat (2 :: u32)"
    using rx_peek_progress [OF wrapping_rx_fresh after_put_run, of 5] k by (simp add: after_put_eq)
  then show ?thesis using k by (simp only: word_unat_eq_iff fst_conv)
qed

end
