(* ===== verification/BtfFile.thy ===== *)
theory BtfFile
  imports Btf
begin

text \<open>
  BTF as bytes: parsing and checking (\<^verbatim>\<open>btf_new\<close> of \<^verbatim>\<open>libbpf/src/btf.c\<close>) and writing
  (\<^verbatim>\<open>btf_get_raw_data\<close>), in both byte orders.

  Data is a list of bytes; a pointer into it is a position. Parsing swaps data of the other byte
  order in place, so the bytes are part of the result. The host is little-endian.
\<close>

section \<open>The header\<close>

record btf_header =
  magic :: u16
  version :: u8
  hdr_flags :: u8
  hdr_len :: u32
  type_off :: u32
  type_len :: u32
  str_off :: u32
  str_len :: u32

definition BTF_MAGIC :: u16 where [c_consts]: "BTF_MAGIC = 0xEB9F"
definition BTF_MAX_NR_TYPES :: nat where [c_consts]: "BTF_MAX_NR_TYPES = 0x7fffffff"
definition BTF_MAX_STR_OFFSET :: u32 where [c_consts]: "BTF_MAX_STR_OFFSET = 0x7fffffff"

abbreviation (input) hdr_size :: nat where "hdr_size \<equiv> 24"

definition hdr_bytes :: "btf_header \<Rightarrow> u8 list" where
  "hdr_bytes h = bytes16 (magic h) @ [version h, hdr_flags h] @ word_bytes (hdr_len h) @
     word_bytes (type_off h) @ word_bytes (type_len h) @ word_bytes (str_off h) @ word_bytes (str_len h)"

definition ld_hdr :: "u8 list \<Rightarrow> btf_header option" where
  "ld_hdr raw = do {
     m \<leftarrow> rd16 raw 0; v \<leftarrow> rd raw 2; f \<leftarrow> rd raw 3; hl \<leftarrow> rd32 raw 4;
     to \<leftarrow> rd32 raw 8; tl \<leftarrow> rd32 raw 12; so \<leftarrow> rd32 raw 16; sl \<leftarrow> rd32 raw 20;
     Some \<lparr>magic = m, version = v, hdr_flags = f, hdr_len = hl, type_off = to, type_len = tl,
           str_off = so, str_len = sl\<rparr>
   }"

definition btf_bswap_hdr :: "btf_header \<Rightarrow> btf_header" where
  "btf_bswap_hdr h = h\<lparr>magic := bswap16 (magic h), hdr_len := bswap32 (hdr_len h),
     type_off := bswap32 (type_off h), type_len := bswap32 (type_len h),
     str_off := bswap32 (str_off h), str_len := bswap32 (str_len h)\<rparr>"

text \<open>
  \<^verbatim>\<open>btf_parse_hdr\<close>: the result, whether the data is in the other byte order, and the data with its
  header swapped if so. The sums of offsets and lengths are computed without overflow, as
  \<^verbatim>\<open>long long\<close>.
\<close>

definition btf_check_hdr :: "nat \<Rightarrow> btf_header \<Rightarrow> int" where
  "btf_check_hdr raw_size h =
     (if raw_size < unat (hdr_len h) then - EINVAL
      else let meta_left = raw_size - unat (hdr_len h)
       in if meta_left < unat (str_off h) + unat (str_len h) then - EINVAL
          else if unat (type_off h) + unat (type_len h) > unat (str_off h) then - EINVAL
          else if type_off h mod 4 \<noteq> 0 then - EINVAL
          else 0)"

definition btf_parse_hdr :: "u8 list \<Rightarrow> (int \<times> bool \<times> u8 list) option" where
  "btf_parse_hdr raw =
     (if length raw < hdr_size then Some (- EINVAL, False, raw)
      else do {
        h \<leftarrow> ld_hdr raw;
        if magic h = bswap16 BTF_MAGIC then
          if bswap32 (hdr_len h) \<noteq> 24 then Some (- ENOTSUP, True, raw)
          else do {
            let h = btf_bswap_hdr h;
            raw \<leftarrow> wr raw 0 (hdr_bytes h);
            Some (btf_check_hdr (length raw) h, True, raw)
          }
        else if magic h \<noteq> BTF_MAGIC then Some (- EINVAL, False, raw)
        else Some (btf_check_hdr (length raw) h, False, raw)
      })"

text \<open>\<^verbatim>\<open>btf_parse_str_sec\<close>; \<open>start\<close> is the position of the string section.\<close>

definition btf_parse_str_sec :: "bool \<Rightarrow> btf_header \<Rightarrow> u8 list \<Rightarrow> nat \<Rightarrow> int option" where
  "btf_parse_str_sec has_base h raw start =
     (if has_base \<and> str_len h = 0 then Some 0
      else if str_len h = 0 \<or> str_len h - 1 > BTF_MAX_STR_OFFSET then Some (- EINVAL)
      else do {
        e \<leftarrow> rd raw (start + unat (str_len h) - 1);
        if e \<noteq> 0 then Some (- EINVAL)
        else do {
          c \<leftarrow> rd raw start;
          Some (if \<not> has_base \<and> c \<noteq> 0 then - EINVAL else 0)
        }
      })"

section \<open>Types\<close>

text \<open>The header of the type at a position; its further words are not looked at here.\<close>

definition type_hdr_at :: "u8 list \<Rightarrow> nat \<Rightarrow> btf_type option" where
  "type_hdr_at raw p = do {
     n \<leftarrow> rd32 raw p; i \<leftarrow> rd32 raw (p + 4); s \<leftarrow> rd32 raw (p + 8);
     Some \<lparr>name_off = n, info = i, size_type = s, extra = []\<rparr>
   }"

definition swap32_at :: "u8 list \<Rightarrow> nat \<Rightarrow> u8 list option" where
  "swap32_at raw p = do { w \<leftarrow> rd32 raw p; wr raw p (word_bytes (bswap32 w)) }"

fun swap_words :: "u8 list \<Rightarrow> nat \<Rightarrow> nat \<Rightarrow> u8 list option" where
  "swap_words raw p 0 = Some raw"
| "swap_words raw p (Suc n) = do { raw \<leftarrow> swap32_at raw p; swap_words raw (p + 4) n }"

definition btf_bswap_type_base :: "u8 list \<Rightarrow> nat \<Rightarrow> u8 list option" where
  "btf_bswap_type_base raw p = do {
     raw \<leftarrow> swap32_at raw p; raw \<leftarrow> swap32_at raw (p + 4); swap32_at raw (p + 8)
   }"

text \<open>\<^verbatim>\<open>btf_bswap_type_rest\<close>: the words of every member, parameter and so on, one after the other.\<close>

definition btf_bswap_type_rest :: "u8 list \<Rightarrow> nat \<Rightarrow> (int \<times> u8 list) option" where
  "btf_bswap_type_rest raw p = do {
     t \<leftarrow> type_hdr_at raw p;
     (let k = btf_kind t; vlen = btf_vlen t; words = (\<lambda>n. map_option (Pair 0) (swap_words raw (p + 12) n))
       in if k \<in> {BTF_KIND_FWD, BTF_KIND_CONST, BTF_KIND_VOLATILE, BTF_KIND_RESTRICT, BTF_KIND_PTR,
             BTF_KIND_TYPEDEF, BTF_KIND_FUNC, BTF_KIND_FLOAT, BTF_KIND_TYPE_TAG} then Some (0, raw)
     else if k = BTF_KIND_INT then words 1
     else if k = BTF_KIND_ENUM then words (vlen * 2)
     else if k = BTF_KIND_ARRAY then words 3
     else if k \<in> {BTF_KIND_STRUCT, BTF_KIND_UNION} then words (vlen * 3)
     else if k = BTF_KIND_FUNC_PROTO then words (vlen * 2)
     else if k = BTF_KIND_VAR then words 1
     else if k = BTF_KIND_DATASEC then words (vlen * 3)
     else if k = BTF_KIND_DECL_TAG then words 1
     else Some (- EINVAL, raw))
   }"

text \<open>The table of the positions of the types; a full one grows.\<close>

definition btf_add_type_idx_entry :: "bool \<Rightarrow> nat list \<Rightarrow> nat \<Rightarrow> nat \<Rightarrow> int \<times> nat list" where
  "btf_add_type_idx_entry realloc_ok type_offs nr_types off =
     (case libbpf_add_mem realloc_ok 0 type_offs nr_types BTF_MAX_NR_TYPES 1 of
        None \<Rightarrow> (- ENOMEM, type_offs)
      | Some offs \<Rightarrow> (0, offs[nr_types := off]))"

lemma btf_type_size_pos: "btf_type_size t < 0 \<or> 12 \<le> btf_type_size t"
  by (simp add: btf_type_size_def Let_def)

text \<open>
  The loop of \<^verbatim>\<open>btf_parse_type_sec\<close>, the section starting at \<open>td\<close> and \<open>next\<close> relative to it. The
  function \<open>allocs\<close> says whether the table can grow for the n-th type.
\<close>

function parse_types :: "(nat \<Rightarrow> bool) \<Rightarrow> bool \<Rightarrow> nat \<Rightarrow> nat \<Rightarrow> nat \<Rightarrow> u8 list \<Rightarrow> nat list \<Rightarrow> nat \<Rightarrow>
    (int \<times> u8 list \<times> nat list \<times> nat) option" where
  "parse_types allocs swapped td tlen next raw offs nr =
     (if next + 12 \<le> tlen then do {
        raw \<leftarrow> (if swapped then btf_bswap_type_base raw (td + next) else Some raw);
        t \<leftarrow> type_hdr_at raw (td + next);
        let type_size = btf_type_size t;
        if type_size < 0 then Some (type_size, raw, offs, nr)
        else if int next + type_size > int tlen then Some (- EINVAL, raw, offs, nr)
        else do {
          (err, raw) \<leftarrow> (if swapped then btf_bswap_type_rest raw (td + next) else Some (0, raw));
          if err \<noteq> 0 then Some (- EINVAL, raw, offs, nr)
          else let (err, offs) = btf_add_type_idx_entry (allocs nr) offs nr next
            in if err \<noteq> 0 then Some (err, raw, offs, nr)
               else parse_types allocs swapped td tlen (next + nat type_size) raw offs (nr + 1)
        }
      }
      else if next \<noteq> tlen then Some (- EINVAL, raw, offs, nr)
      else Some (0, raw, offs, nr))"
  by pat_completeness auto

termination
proof (relation "measure (\<lambda>(allocs, swapped, td, tlen, next, raw, offs, nr). tlen - next)", goal_cases)
  case (2 allocs swapped td tlen nxt raw offs nr raw' t sz x err raw'' y err' offs')
  then have "12 \<le> sz" using btf_type_size_pos [of t] by simp
  then show ?case using 2(1) by simp
qed simp

declare parse_types.simps [simp del]

section \<open>Objects\<close>

text \<open>
  A parsed object: its data, swapped to the host's order, the header, the positions of the two
  sections in the data, and the table of types, whose entries are relative to their section.
\<close>

record btf_obj =
  o_raw :: "u8 list"
  o_hdr :: btf_header
  o_types :: nat
  o_strs :: nat
  o_offs :: "nat list"
  o_nr :: nat
  o_swapped :: bool

definition btf_new :: "bool \<Rightarrow> bool \<Rightarrow> (nat \<Rightarrow> bool) \<Rightarrow> u8 list \<Rightarrow> bool \<Rightarrow> (int + btf_obj) option" where
  "btf_new calloc_ok malloc_ok allocs data has_base =
     (if \<not> calloc_ok \<or> \<not> malloc_ok then Some (Inl (- ENOMEM))
      else do {
        (err, swapped, raw) \<leftarrow> btf_parse_hdr data;
        if err \<noteq> 0 then Some (Inl err)
        else do {
          h \<leftarrow> ld_hdr raw;
          let strs = unat (hdr_len h) + unat (str_off h);
          let types = unat (hdr_len h) + unat (type_off h);
          err \<leftarrow> btf_parse_str_sec has_base h raw strs;
          if err \<noteq> 0 then Some (Inl err)
          else do {
            (err, raw, offs, nr) \<leftarrow> parse_types allocs swapped types (unat (type_len h)) 0 raw [] 0;
            if err \<noteq> 0 then Some (Inl err)
            else Some (Inr \<lparr>o_raw = raw, o_hdr = h, o_types = types, o_strs = strs, o_offs = offs,
                            o_nr = nr, o_swapped = swapped\<rparr>)
          }
        }
      })"

text \<open>The identifiers and string offsets of an object follow those of its base.\<close>

definition obj_start_id :: "btf option \<Rightarrow> nat" where
  "obj_start_id base = (case base of None \<Rightarrow> 1 | Some b \<Rightarrow> btf_type_cnt b)"

definition obj_start_str_off :: "btf option \<Rightarrow> nat" where
  "obj_start_str_off base = (case base of None \<Rightarrow> 0 | Some b \<Rightarrow> length (btf_strs b))"

text \<open>All the words of the type at a position, and \<^verbatim>\<open>btf_type_by_id\<close> in memory.\<close>

fun ld_words :: "u8 list \<Rightarrow> nat \<Rightarrow> nat \<Rightarrow> u32 list option" where
  "ld_words raw p 0 = Some []"
| "ld_words raw p (Suc n) = do { w \<leftarrow> rd32 raw p; ws \<leftarrow> ld_words raw (p + 4) n; Some (w # ws) }"

definition ld_type :: "u8 list \<Rightarrow> nat \<Rightarrow> btf_type option" where
  "ld_type raw p = do {
     t \<leftarrow> type_hdr_at raw p;
     ws \<leftarrow> ld_words raw (p + 12) (nat (btf_type_size t - 12) div 4);
     Some (t\<lparr>extra := ws\<rparr>)
   }"

definition obj_type_by_id :: "btf option \<Rightarrow> btf_obj \<Rightarrow> nat \<Rightarrow> btf_type option" where
  "obj_type_by_id base obj type_id =
     (if type_id = 0 then Some btf_void
      else if type_id < obj_start_id base then
        (case base of None \<Rightarrow> None | Some b \<Rightarrow> btf_type_by_id b type_id)
      else do {
        off \<leftarrow> rd (take (o_nr obj) (o_offs obj)) (type_id - obj_start_id base);
        ld_type (o_raw obj) (o_types obj + off)
      })"

definition obj_strings :: "btf_obj \<Rightarrow> u8 list" where
  "obj_strings obj = take (unat (str_len (o_hdr obj))) (drop (o_strs obj) (o_raw obj))"

section \<open>Writing\<close>

text \<open>
  \<^verbatim>\<open>btf_get_raw_data\<close> when no data is cached: \<open>hdr_mem\<close> is the memory of the header, \<open>types_data\<close> and
  \<open>strs\<close> that of the sections. The inner \<open>None\<close> is the NULL it returns.
\<close>

fun swap_types :: "u8 list \<Rightarrow> nat \<Rightarrow> nat list \<Rightarrow> (bool \<times> u8 list) option" where
  "swap_types data p [] = Some (True, data)"
| "swap_types data p (off # offs) = do {
     (err, data) \<leftarrow> btf_bswap_type_rest data (p + off);
     if err \<noteq> 0 then Some (False, data)
     else do {
       data \<leftarrow> btf_bswap_type_base data (p + off);
       swap_types data p offs
     }
   }"

definition btf_get_raw_data :: "bool \<Rightarrow> bool \<Rightarrow> u8 list \<Rightarrow> u8 list \<Rightarrow> nat list \<Rightarrow> nat \<Rightarrow> u8 list \<Rightarrow>
    u8 list option option" where
  "btf_get_raw_data calloc_ok swap_endian hdr_mem types_data offs nr strs = do {
     h \<leftarrow> ld_hdr hdr_mem;
     if \<not> calloc_ok then Some None
     else if length hdr_mem < unat (hdr_len h) \<or> length types_data < unat (type_len h) \<or>
             length strs < unat (str_len h) \<or> length offs < nr then None
     else do {
       let data = replicate (unat (hdr_len h + type_len h + str_len h)) 0;
       data \<leftarrow> wr data 0 (take (unat (hdr_len h)) hdr_mem);
       data \<leftarrow> (if swap_endian then do { h \<leftarrow> ld_hdr data; wr data 0 (hdr_bytes (btf_bswap_hdr h)) }
               else Some data);
       let p = unat (hdr_len h);
       data \<leftarrow> wr data p (take (unat (type_len h)) types_data);
       (ok, data) \<leftarrow> (if swap_endian then swap_types data p (take nr offs) else Some (True, data));
       if \<not> ok then Some None
       else do {
         data \<leftarrow> wr data (p + unat (type_len h)) (take (unat (str_len h)) strs);
         Some (Some data)
       }
     }
   }"

section \<open>Words in memory\<close>

definition words_bytes :: "u32 list \<Rightarrow> u8 list" where
  "words_bytes ws = concat (map word_bytes ws)"

definition type_words :: "btf_type \<Rightarrow> u32 list" where
  "type_words t = [name_off t, info t, size_type t] @ extra t"

definition types_bytes :: "btf_type list \<Rightarrow> u8 list" where
  "types_bytes ts = words_bytes (concat (map type_words ts))"

fun type_positions :: "nat \<Rightarrow> btf_type list \<Rightarrow> nat list" where
  "type_positions p [] = []"
| "type_positions p (t # ts) = p # type_positions (p + 4 * length (type_words t)) ts"

lemma words_bytes_simps [simp]:
  "words_bytes [] = []" "words_bytes (w # ws) = word_bytes w @ words_bytes ws"
  "words_bytes (ws @ vs) = words_bytes ws @ words_bytes vs"
  by (simp_all add: words_bytes_def)

lemma length_words_bytes [simp]: "length (words_bytes ws) = 4 * length ws"
  by (induction ws) simp_all

lemma types_bytes_simps [simp]:
  "types_bytes [] = []" "types_bytes (t # ts) = words_bytes (type_words t) @ types_bytes ts"
  "types_bytes (ts @ us) = types_bytes ts @ types_bytes us"
  by (simp_all add: types_bytes_def)

lemma length_type_words: "type_ok t \<Longrightarrow> int (4 * length (type_words t)) = btf_type_size t"
  by (simp add: type_ok_def type_words_def)

lemma words_of_bytes: "length bs = 4 * n \<Longrightarrow> \<exists>ws. length ws = n \<and> bs = words_bytes ws"
proof (induction n arbitrary: bs)
  case (Suc n)
  then obtain a b c d rest where bs: "bs = a # b # c # d # rest" "length rest = 4 * n"
    by (auto simp: length_Suc_conv numeral_eq_Suc)
  from Suc.IH [OF bs(2)] obtain ws where "length ws = n" "rest = words_bytes ws" by blast
  then show ?case using bs(1) by (intro exI [of _ "le32 a b c d # ws"]) (simp add: word_bytes_le32)
qed simp

lemma ld_words_at: "ld_words (pre @ words_bytes ws @ post) (length pre) (length ws) = Some ws"
proof (induction ws arbitrary: pre)
  case (Cons w ws)
  then show ?case using rd32_word_at [of pre _ w "words_bytes ws @ post"] Cons.IH [of "pre @ word_bytes w"] by simp
qed simp

lemma swap_words_at:
  "swap_words (pre @ words_bytes ws @ post) (length pre) (length ws) = Some (pre @ words_bytes (map bswap32 ws) @ post)"
proof (induction ws arbitrary: pre)
  case (Cons w ws)
  have "swap32_at (pre @ word_bytes w @ words_bytes ws @ post) (length pre) =
      Some (pre @ word_bytes (bswap32 w) @ words_bytes ws @ post)"
    by (simp add: swap32_at_def rd32_word_at wr_append)
  then show ?case using Cons.IH [of "pre @ word_bytes (bswap32 w)"] by simp
qed simp

lemma rd32_words_at:
  "i < length ws \<Longrightarrow> rd32 (pre @ words_bytes ws @ post) (length pre + 4 * i) = Some (ws ! i)"
proof (induction ws arbitrary: pre i)
  case (Cons w ws)
  show ?case
  proof (cases i)
    case 0
    then show ?thesis using rd32_word_at [of pre _ w "words_bytes ws @ post"] by simp
  next
    case (Suc j)
    then show ?thesis using Cons.IH [of j "pre @ word_bytes w"] Cons.prems by (simp add: add.assoc)
  qed
qed simp

section \<open>One type in memory\<close>

lemma kind_extra [simp]: "btf_kind (t\<lparr>extra := ws\<rparr>) = btf_kind t" "btf_vlen (t\<lparr>extra := ws\<rparr>) = btf_vlen t"
  by (simp_all add: btf_kind_def btf_vlen_def)

lemma btf_type_size_extra [simp]: "btf_type_size (t\<lparr>extra := ws\<rparr>) = btf_type_size t"
  by (simp add: btf_type_size_def)

lemma type_hdr_at_words:
  "type_hdr_at (pre @ words_bytes (n # i # s # ws) @ post) (length pre) =
     Some \<lparr>name_off = n, info = i, size_type = s, extra = []\<rparr>"
  using rd32_words_at [of 0 "n # i # s # ws" pre post] rd32_words_at [of 1 "n # i # s # ws" pre post]
    rd32_words_at [of 2 "n # i # s # ws" pre post]
  by (simp add: type_hdr_at_def del: words_bytes_simps)

lemma type_hdr_at_type: "type_hdr_at (pre @ words_bytes (type_words t) @ post) (length pre) = Some (t\<lparr>extra := []\<rparr>)"
  unfolding type_words_def append_Cons append_Nil type_hdr_at_words by simp

lemma ld_type_at:
  assumes "type_ok t"
  shows "ld_type (pre @ words_bytes (type_words t) @ post) (length pre) = Some t"
proof -
  have "nat (btf_type_size t - 12) div 4 = length (extra t)" using assms by (simp add: type_ok_def)
  moreover have "ld_words (pre @ words_bytes (type_words t) @ post) (length pre + 12) (length (extra t)) = Some (extra t)"
    using ld_words_at [of "pre @ words_bytes [name_off t, info t, size_type t]" "extra t" post]
    by (simp add: type_words_def)
  ultimately show ?thesis by (simp add: ld_type_def type_hdr_at_type)
qed

text \<open>
  Swapping the words of a type behind its header, in the host's order: the case distinction of
  \<^verbatim>\<open>btf_bswap_type_rest\<close> runs in parallel with that of \<^verbatim>\<open>btf_type_size\<close>.
\<close>

lemma if_parallel: "(c \<Longrightarrow> R a a') \<Longrightarrow> (\<not> c \<Longrightarrow> R b b') \<Longrightarrow> R (if c then a else b) (if c then a' else b')"
  by simp

lemma btf_bswap_type_rest_size:
  assumes "type_hdr_at raw p = Some t"
  shows "btf_bswap_type_rest raw p =
    (if btf_type_size t < 0 then Some (- EINVAL, raw)
     else map_option (Pair 0) (swap_words raw (p + 12) (nat (btf_type_size t - 12) div 4)))"
proof -
  define R where "R = (\<lambda>(sz :: int) r. r = (if sz < 0 then Some (- EINVAL, raw)
     else map_option (Pair 0) (swap_words raw (p + 12) (nat (sz - 12) div 4))))"
  have words: "R (12 + vlen * k) r" if "r = map_option (Pair 0) (swap_words raw (p + 12) (nat vlen * (nat k div 4)))"
    "0 \<le> vlen" "4 dvd k" "0 \<le> k" for vlen k r
    using that mult_nonneg_nonneg [of vlen k] by (auto simp: R_def nat_mult_distrib div_mult_swap not_less)
  have "R (btf_type_size t) (btf_bswap_type_rest raw p)"
    unfolding btf_bswap_type_rest_def btf_type_size_def assms Let_def Option.bind.bind_lunit
    by (intro if_parallel [of _ R] words) (simp_all add: R_def)
  then show ?thesis by (simp add: R_def)
qed

lemma btf_bswap_type_rest_at:
  assumes "btf_type_size t = 12 + 4 * int (length ws)"
  shows "btf_bswap_type_rest (pre @ words_bytes ([name_off t, info t, size_type t] @ ws) @ post) (length pre) =
    Some (0, pre @ words_bytes ([name_off t, info t, size_type t] @ map bswap32 ws) @ post)"
proof -
  let ?raw = "pre @ words_bytes ([name_off t, info t, size_type t] @ ws) @ post"
  have "type_hdr_at ?raw (length pre) = Some (t\<lparr>extra := []\<rparr>)"
    unfolding append_Cons append_Nil type_hdr_at_words by simp
  moreover have "swap_words ?raw (length pre + 12) (length ws) =
      Some (pre @ words_bytes ([name_off t, info t, size_type t] @ map bswap32 ws) @ post)"
    using swap_words_at [of "pre @ words_bytes [name_off t, info t, size_type t]" ws post] by simp
  moreover have "nat (btf_type_size t - 12) div 4 = length ws" using assms by simp
  ultimately show ?thesis using assms by (simp add: btf_bswap_type_rest_size del: words_bytes_simps)
qed

lemma btf_bswap_type_base_at:
  "btf_bswap_type_base (pre @ words_bytes ([a, b, c] @ ws) @ post) (length pre) =
     Some (pre @ words_bytes (map bswap32 [a, b, c] @ ws) @ post)"
  using swap_words_at [of pre "[a, b, c]" "words_bytes ws @ post"]
  by (simp add: btf_bswap_type_base_def numeral_eq_Suc bind_assoc)

section \<open>Parsing the type section\<close>

lemma btf_type_size_form: "btf_type_size t < 0 \<or> (\<exists>k. btf_type_size t = 12 + 4 * int k)"
proof -
  have "4 dvd btf_type_size t - 12" if "0 \<le> btf_type_size t"
    using that by (simp add: btf_type_size_def Let_def split: if_split_asm)
  moreover have "0 \<le> btf_type_size t - 12" if "0 \<le> btf_type_size t" using that btf_type_size_pos [of t] by simp
  ultimately show ?thesis by (metis add_diff_cancel_left' diff_add_cancel dvdE int_nat_eq linorder_not_less
        mult.commute nat_0_le zero_le_mult_iff zero_less_numeral)
qed

lemma add_type_idx_entry:
  assumes "btf_add_type_idx_entry r offs nr p = (e, offs')" "nr \<le> length offs"
  shows "e = 0 \<and> nr < length offs' \<and> take (Suc nr) offs' = take nr offs @ [p] \<or> e = - ENOMEM \<and> offs' = offs"
proof (cases "libbpf_add_mem r 0 offs nr BTF_MAX_NR_TYPES 1")
  case None
  then show ?thesis using assms(1) by (simp add: btf_add_type_idx_entry_def)
next
  case (Some d)
  note G = libbpf_add_mem_Some(1) [OF Some] libbpf_add_mem_take [OF Some assms(2)]
  have "take (Suc nr) (d[nr := p]) = take nr d @ [p]" using G(1) by (simp add: take_Suc_conv_app_nth)
  then show ?thesis using assms(1) Some G by (auto simp: btf_add_type_idx_entry_def)
qed

lemma add_type_idx_entry_fails:
  "btf_add_type_idx_entry r offs nr p = (e, offs') \<Longrightarrow> e \<noteq> 0 \<Longrightarrow> BTF_MAX_NR_TYPES < nr + 1 \<or> \<not> r"
  using libbpf_add_mem_None [of r 0 offs nr BTF_MAX_NR_TYPES 1]
  by (auto simp: btf_add_type_idx_entry_def split: option.splits)

lemma add_type_idx_entry_ok:
  "nr < BTF_MAX_NR_TYPES \<Longrightarrow> fst (btf_add_type_idx_entry True offs nr p) = 0"
  using libbpf_add_mem_None [of True 0 offs nr BTF_MAX_NR_TYPES 1]
  by (auto simp: btf_add_type_idx_entry_def split: option.split)

text \<open>One round on arbitrary bytes: an error, or a well-formed type is accepted and put into the table.\<close>

lemma parse_types_round:
  assumes "td + tlen \<le> length raw" "next + 12 \<le> tlen" "nr \<le> length offs"
  obtains (bad) e raw' where "parse_types allocs sw td tlen next raw offs nr = Some (e, raw', offs, nr)" "e < 0"
      "length raw' = length raw"
  | (good) t offs' where "type_ok t" "next + 4 * length (type_words t) \<le> tlen"
      "parse_types allocs sw td tlen next raw offs nr =
         parse_types allocs sw td tlen (next + 4 * length (type_words t))
           (take (td + next) raw @ words_bytes (type_words t) @ drop (td + next + 4 * length (type_words t)) raw)
           offs' (nr + 1)"
      "nr < length offs'" "take (Suc nr) offs' = take nr offs @ [next]"
proof -
  note T = that
  define pre where "pre = take (td + next) raw"
  have pre: "length pre = td + next" using assms(1,2) by (simp add: pre_def)
  obtain hw where hw: "length hw = 3" "take 12 (drop (td + next) raw) = words_bytes hw"
    using words_of_bytes [of "take 12 (drop (td + next) raw)" 3] assms(1,2) by auto
  define rest where "rest = drop (td + next + 12) raw"
  have raw: "raw = pre @ words_bytes hw @ rest"
    unfolding pre_def rest_def hw(2) [symmetric] by (metis add.commute append_take_drop_id drop_drop)
  define hw' where "hw' = (if sw then map bswap32 hw else hw)"
  have "length hw' = 3" using hw(1) by (simp add: hw'_def)
  then obtain n i s where nis: "hw' = [n, i, s]" by (auto simp: length_Suc_conv numeral_eq_Suc)
  define t where "t = \<lparr>name_off = n, info = i, size_type = s, extra = []\<rparr>"
  define raw1 where "raw1 = pre @ words_bytes ([n, i, s] @ []) @ rest"
  have base: "(if sw then btf_bswap_type_base raw (td + next) else Some raw) = Some raw1"
  proof (cases sw)
    case True
    obtain a b c where "hw = [a, b, c]" using hw(1) by (auto simp: length_Suc_conv numeral_eq_Suc)
    then show ?thesis using True btf_bswap_type_base_at [of pre a b c "[]" rest] raw pre nis
      by (simp add: raw1_def hw'_def)
  qed (use raw nis in \<open>simp add: raw1_def hw'_def\<close>)
  have hdr: "type_hdr_at raw1 (td + next) = Some t"
    using type_hdr_at_words [of pre n i s "[]" rest] pre by (simp add: raw1_def t_def)
  have len1: "length raw1 = length raw" unfolding raw1_def raw using hw(1) by simp
  note step = parse_types.simps [of allocs sw td tlen "next" raw offs nr]
  show thesis
  proof (cases "btf_type_size t < 0 \<or> int next + btf_type_size t > int tlen")
    case True
    then have "\<exists>e < 0. parse_types allocs sw td tlen next raw offs nr = Some (e, raw1, offs, nr)"
      using assms(2) base hdr by (auto simp: step)
    then show thesis using T(1) len1 by blast
  next
    case False
    then obtain k where k: "btf_type_size t = 12 + 4 * int k" using btf_type_size_form [of t] by auto
    then have fits: "next + 12 + 4 * k \<le> tlen" using False by simp
    obtain ws where ws: "length ws = k" "take (4 * k) rest = words_bytes ws"
      using words_of_bytes [of "take (4 * k) rest" k] fits assms(1) by (auto simp: rest_def)
    define post where "post = drop (4 * k) rest"
    have rest: "rest = words_bytes ws @ post" unfolding post_def ws(2) [symmetric] by simp
    define t' where "t' = t\<lparr>extra := (if sw then map bswap32 ws else ws)\<rparr>"
    have t': "type_ok t'" "type_words t' = [n, i, s] @ (if sw then map bswap32 ws else ws)"
      using k ws(1) by (simp_all add: t'_def type_ok_def type_words_def) (simp_all add: t_def)
    then have t'k: "4 * length (type_words t') = 12 + 4 * k" using ws(1) by simp
    define raw2 where "raw2 = pre @ words_bytes (type_words t') @ post"
    have rst: "(if sw then btf_bswap_type_rest raw1 (td + next) else Some (0, raw1)) = Some (0, raw2)"
      using btf_bswap_type_rest_at [of t ws pre post] k ws(1) pre rest t'(2)
      by (simp add: raw1_def raw2_def t_def)
    have post: "post = drop (td + next + 4 * length (type_words t')) raw"
      unfolding t'k post_def rest_def by (simp add: algebra_simps)
    obtain e offs' where idx: "btf_add_type_idx_entry (allocs nr) offs nr next = (e, offs')" by (cases "btf_add_type_idx_entry (allocs nr) offs nr next")
    have run: "parse_types allocs sw td tlen next raw offs nr =
      (if e \<noteq> 0 then Some (e, raw2, offs', nr)
       else parse_types allocs sw td tlen (next + 4 * length (type_words t')) raw2 offs' (nr + 1))"
      using assms(2) False base hdr rst idx k t'k by (simp add: step nat_add_distrib nat_mult_distrib)
    have len2: "length raw2 = length raw" using len1 rest t'k ws(1) by (simp add: raw1_def raw2_def)
    show thesis
    proof (cases "e = 0")
      case True
      then show thesis using run idx add_type_idx_entry [OF idx assms(3)] t' t'k fits
        by (intro T(2) [of t' offs']) (simp_all add: raw2_def pre_def post)
    next
      case False
      then show thesis using run add_type_idx_entry [OF idx assms(3)] len2 by (intro T(1) [of e raw2]) auto
    qed
  qed
qed

lemma parse_types_cases:
  assumes "td + tlen \<le> length raw" "next \<le> tlen" "nr \<le> length offs"
  shows "(\<exists>e raw' offs' nr'. e < 0 \<and> parse_types allocs sw td tlen next raw offs nr = Some (e, raw', offs', nr')) \<or>
    (\<exists>ts offs'. list_all type_ok ts \<and> next + length (types_bytes ts) = tlen \<and>
       parse_types allocs sw td tlen next raw offs nr =
         Some (0, take (td + next) raw @ types_bytes ts @ drop (td + tlen) raw, offs', nr + length ts) \<and>
       nr + length ts \<le> length offs' \<and> take (nr + length ts) offs' = take nr offs @ type_positions next ts)"
    (is "?bad next raw offs nr \<or> ?good next raw offs nr")
  using assms
proof (induction "tlen - next" arbitrary: "next" raw offs nr rule: less_induct)
  case less
  show ?case
  proof (cases "next + 12 \<le> tlen")
    case False
    then show ?thesis using less.prems
      by (cases "next = tlen") (auto simp: parse_types.simps intro!: exI [of _ "[] :: btf_type list"])
  next
    case True
    show ?thesis
    proof (cases rule: parse_types_round [OF less.prems(1) True less.prems(3), of allocs sw, case_names bad good])
      case (good t offs1)
      define next1 where "next1 = next + 4 * length (type_words t)"
      define raw1 where "raw1 = take (td + next) raw @ words_bytes (type_words t) @ drop (td + next1) raw"
      have n1: "next < next1" "next1 \<le> tlen" using good(2) by (simp_all add: next1_def type_words_def)
      have r1: "length raw1 = length raw" "take (td + next1) raw1 = take (td + next) raw @ words_bytes (type_words t)"
        "drop (td + tlen) raw1 = drop (td + tlen) raw"
        using n1 less.prems(1) by (simp_all add: raw1_def next1_def add.commute)
      have run: "parse_types allocs sw td tlen next raw offs nr = parse_types allocs sw td tlen next1 raw1 offs1 (nr + 1)"
        using good(3) by (simp add: next1_def raw1_def add.assoc)
      have "?bad next1 raw1 offs1 (nr + 1) \<or> ?good next1 raw1 offs1 (nr + 1)"
        using less.hyps [of next1 raw1 "nr + 1" offs1] n1 r1(1) less.prems(1) good(4) by simp
      then show ?thesis
      proof
        assume "?good next1 raw1 offs1 (nr + 1)"
        then obtain ts offs' where ts: "list_all type_ok ts" "next1 + length (types_bytes ts) = tlen"
          "parse_types allocs sw td tlen next1 raw1 offs1 (nr + 1) =
            Some (0, take (td + next1) raw1 @ types_bytes ts @ drop (td + tlen) raw1, offs', nr + 1 + length ts)"
          "nr + 1 + length ts \<le> length offs'"
          "take (nr + 1 + length ts) offs' = take (nr + 1) offs1 @ type_positions next1 ts" by blast
        then have "?good next raw offs nr"
          using good(1,5) run r1 by (intro exI [of _ "t # ts"] exI [of _ offs']) (simp add: next1_def)
        then show ?thesis ..
      qed (simp add: run)
    qed blast
  qed
qed

lemma ld_type_positions:
  assumes "list_all type_ok ts" "i < length ts"
  shows "ld_type (pre @ types_bytes ts @ post) (length pre + type_positions 0 ts ! i) = Some (ts ! i)"
proof -
  have "ld_type (pre @ types_bytes ts @ post) (length pre - p + type_positions p ts ! i) = Some (ts ! i)"
    if "list_all type_ok ts" "i < length ts" "p \<le> length pre" for p pre ts i
    using that
  proof (induction ts arbitrary: p pre i)
    case (Cons t ts)
    show ?case
    proof (cases i)
      case 0
      then show ?thesis using Cons.prems ld_type_at [of t pre "types_bytes ts @ post"] by simp
    next
      case (Suc j)
      then show ?thesis
        using Cons.prems Cons.IH [of j "p + 4 * length (type_words t)" "pre @ words_bytes (type_words t)"] by simp
    qed
  qed simp
  from this [OF assms, of 0 pre] show ?thesis by simp
qed

lemma length_type_positions [simp]: "length (type_positions p ts) = length ts"
  by (induction ts arbitrary: p) simp_all

section \<open>What parsing accepts\<close>

text \<open>An object's types and strings, as the queries of the library see them.\<close>

definition obj_btf :: "btf option \<Rightarrow> btf_obj \<Rightarrow> btf_type list \<Rightarrow> btf" where
  "obj_btf base obj ts = Btf base (obj_start_id base) ts (obj_start_str_off base) (obj_strings obj) 0"

lemma obj_type_by_id_types:
  assumes "o_raw obj = pre @ types_bytes ts @ post" "length pre = o_types obj" "list_all type_ok ts"
    "o_nr obj = length ts" "take (o_nr obj) (o_offs obj) = type_positions 0 ts"
  shows "obj_type_by_id base obj i = btf_type_by_id (obj_btf base obj ts) i"
proof -
  have "(do { off \<leftarrow> rd (type_positions 0 ts) k; ld_type (o_raw obj) (o_types obj + off) }) = rd ts k" for k
    using ld_type_positions [OF assms(3), of k pre post] assms(1,2) by (cases "k < length ts") simp_all
  then show ?thesis using assms(4,5) by (simp add: obj_type_by_id_def obj_btf_def)
qed

lemma length_hdr_bytes [simp]: "length (hdr_bytes h) = 24"
  by (simp add: hdr_bytes_def)

lemma rd_bytes_at:
  "length pre = i \<Longrightarrow> rd16 (pre @ bytes16 w @ post) i = Some w" "length pre = i \<Longrightarrow> rd (pre @ x # post) i = Some x"
  using rd16_append [of pre "bytes16 w @ post" 0]
  by (auto simp: bytes16_def rd16_Some le16_lo8_hi8 nth_append)

lemma ld_hdr_bytes: "ld_hdr (hdr_bytes h @ rest) = Some h"
proof -
  let ?p = "bytes16 (magic h) @ [version h, hdr_flags h]"
  have "rd16 (hdr_bytes h @ rest) 0 = Some (magic h)" "rd (hdr_bytes h @ rest) 2 = Some (version h)"
    "rd (hdr_bytes h @ rest) 3 = Some (hdr_flags h)"
    using rd_bytes_at(1) [of "[]" 0 "magic h"] by (simp_all add: hdr_bytes_def rd_def bytes16_def)
  moreover have "rd32 (hdr_bytes h @ rest) 4 = Some (hdr_len h)" "rd32 (hdr_bytes h @ rest) 8 = Some (type_off h)"
    "rd32 (hdr_bytes h @ rest) 12 = Some (type_len h)" "rd32 (hdr_bytes h @ rest) 16 = Some (str_off h)"
    "rd32 (hdr_bytes h @ rest) 20 = Some (str_len h)"
    using rd32_word_at [of ?p 4] rd32_word_at [of "?p @ word_bytes (hdr_len h)" 8]
      rd32_word_at [of "?p @ word_bytes (hdr_len h) @ word_bytes (type_off h)" 12]
      rd32_word_at [of "?p @ word_bytes (hdr_len h) @ word_bytes (type_off h) @ word_bytes (type_len h)" 16]
      rd32_word_at [of "?p @ word_bytes (hdr_len h) @ word_bytes (type_off h) @ word_bytes (type_len h) @
        word_bytes (str_off h)" 20]
    by (simp_all add: hdr_bytes_def)
  ultimately show ?thesis by (simp add: ld_hdr_def)
qed

lemma ld_hdr_defined:
  assumes "24 \<le> length raw" obtains h where "ld_hdr raw = Some h"
  using assms by (simp add: ld_hdr_def rd16_Some rd32_Some)

lemma btf_bswap_hdr_twice [simp]: "btf_bswap_hdr (btf_bswap_hdr h) = h"
  by (simp add: btf_bswap_hdr_def)

lemma wr_hdr: "wr (hdr_bytes h @ rest) 0 (hdr_bytes h') = Some (hdr_bytes h' @ rest)"
  using wr_append [of "[]" 0 "hdr_bytes h" "hdr_bytes h'" rest] by simp

text \<open>The header that was accepted: both sections lie within the data, the types before the strings.\<close>

lemma btf_check_hdr_ok:
  "btf_check_hdr n h = 0 \<longleftrightarrow> unat (hdr_len h) + unat (str_off h) + unat (str_len h) \<le> n \<and>
     unat (type_off h) + unat (type_len h) \<le> unat (str_off h) \<and> type_off h mod 4 = 0"
  by (auto simp: btf_check_hdr_def Let_def c_consts)

lemma btf_check_hdr_neg: "btf_check_hdr n h \<le> 0"
  by (simp add: btf_check_hdr_def Let_def c_consts)

lemma magic_swapped [simp]: "bswap16 BTF_MAGIC \<noteq> BTF_MAGIC" "BTF_MAGIC \<noteq> bswap16 BTF_MAGIC"
  by code_simp+

lemma btf_parse_hdr_cases:
  obtains (bad) e sw raw where "btf_parse_hdr data = Some (e, sw, raw)" "e < 0"
  | (good) sw raw h where "btf_parse_hdr data = Some (0, sw, raw)" "ld_hdr raw = Some h"
      "btf_check_hdr (length raw) h = 0" "length raw = length data" "magic h = BTF_MAGIC"
proof -
  note T = that
  show thesis
  proof (cases "length data < 24")
    case True
    then show thesis by (intro T(1) [of "- EINVAL" False data]) (simp_all add: btf_parse_hdr_def c_consts)
  next
    case False
    then obtain h where h: "ld_hdr data = Some h" using ld_hdr_defined [of data] by auto
    show thesis
    proof (cases "magic h = bswap16 BTF_MAGIC \<and> bswap32 (hdr_len h) = 24")
      case True
      let ?h = "btf_bswap_hdr h"
      have w: "wr data 0 (hdr_bytes ?h) = Some (hdr_bytes ?h @ drop 24 data)" using False by (simp add: wr_def)
      have p: "btf_parse_hdr data = Some (btf_check_hdr (length data) ?h, True, hdr_bytes ?h @ drop 24 data)"
        using False h True w by (simp add: btf_parse_hdr_def Let_def)
      have g: "magic ?h = BTF_MAGIC" "length (hdr_bytes ?h @ drop 24 data) = length data"
        using True False by (simp_all add: btf_bswap_hdr_def)
      show thesis
      proof (cases "btf_check_hdr (length data) ?h = 0")
        case True
        show thesis by (rule T(2) [OF _ ld_hdr_bytes _ g(2,1)]) (simp_all only: p g(2) True)
      qed (use p btf_check_hdr_neg [of "length data" ?h] T(1) in force)
    next
      case other: False
      show thesis
      proof (cases "magic h = BTF_MAGIC")
        case True
        then have "btf_parse_hdr data = Some (btf_check_hdr (length data) h, False, data)"
          using False h by (simp add: btf_parse_hdr_def)
        then show thesis using T(2) [of False data h] T(1) True h btf_check_hdr_neg [of "length data" h]
          by (cases "btf_check_hdr (length data) h = 0") simp_all
      next
        case bad: False
        show thesis
        proof (cases "magic h = bswap16 BTF_MAGIC")
          case True
          then show thesis using False h other by (intro T(1) [of "- ENOTSUP" True data]) (simp_all add: btf_parse_hdr_def c_consts)
        next
          case no: False
          then show thesis using False h bad by (intro T(1) [of "- EINVAL" False data]) (simp_all add: btf_parse_hdr_def c_consts)
        qed
      qed
    qed
  qed
qed

lemma btf_parse_str_sec_value:
  assumes "start + unat (str_len h) \<le> length raw" "str_len h \<noteq> 0"
  shows "btf_parse_str_sec base h raw start =
    Some (if BTF_MAX_STR_OFFSET < str_len h - 1 \<or> raw ! (start + unat (str_len h) - 1) \<noteq> 0 \<or> \<not> base \<and> raw ! start \<noteq> 0
          then - EINVAL else 0)"
proof -
  have "0 < unat (str_len h)" using assms(2) by (simp add: unat_gt_0)
  then show ?thesis using assms by (simp add: btf_parse_str_sec_def)
qed

lemma btf_parse_str_sec_cases:
  assumes "start + unat (str_len h) \<le> length raw"
  obtains (bad) e where "btf_parse_str_sec base h raw start = Some e" "e < 0"
  | (good) "btf_parse_str_sec base h raw start = Some 0" "str_len h = 0 \<or> raw ! (start + unat (str_len h) - 1) = 0"
proof (cases "str_len h = 0")
  case True
  then show ?thesis using that by (cases base) (simp_all add: btf_parse_str_sec_def c_consts)
next
  case False
  from btf_parse_str_sec_value [OF assms this, of base] that show ?thesis
    by (simp add: c_consts split: if_splits)
qed

text \<open>What \<^verbatim>\<open>btf_new\<close> leaves in an object it returns.\<close>

lemma btf_new_cases:
  obtains (bad) e where "btf_new c m allocs data base = Some (Inl e)" "e < 0"
  | (good) obj ts pre post where "btf_new c m allocs data base = Some (Inr obj)" "list_all type_ok ts"
      "o_raw obj = pre @ types_bytes ts @ post" "length pre = o_types obj" "o_nr obj = length ts"
      "take (o_nr obj) (o_offs obj) = type_positions 0 ts" "obj_strings obj = [] \<or> last (obj_strings obj) = 0"
proof (cases "c \<and> m")
  case False
  then show ?thesis by (intro that(1)) (auto simp: btf_new_def c_consts)
next
  case alloc: True
  note T = that
  show ?thesis
  proof (cases rule: btf_parse_hdr_cases [of data, case_names bad good])
    case (bad e sw raw)
    then show ?thesis using alloc by (intro T(1) [of e]) (simp_all add: btf_new_def)
  next
    case (good sw raw h)
    define td st tlen where "td = unat (hdr_len h) + unat (type_off h)"
      and "st = unat (hdr_len h) + unat (str_off h)" and "tlen = unat (type_len h)"
    note new = btf_new_def td_def [symmetric] st_def [symmetric] tlen_def [symmetric] Let_def
    have l: "td + tlen \<le> st" "st + unat (str_len h) \<le> length raw"
      using good(3) by (simp_all add: btf_check_hdr_ok td_def st_def tlen_def)
    show ?thesis
    proof (cases rule: btf_parse_str_sec_cases [of st h raw base, case_names lens bad good])
      case (bad e)
      then show ?thesis using alloc good by (intro T(1) [of e]) (simp_all add: new)
    next
      case str: good
      have "td + tlen \<le> length raw" using l by simp
      from parse_types_cases [OF this, of 0 0 "[]" allocs sw, simplified] show ?thesis
      proof (elim disjE exE conjE, goal_cases)
        case (1 e raw' offs' nr')
        then show ?thesis using alloc good str by (intro T(1) [of e]) (simp_all add: new)
      next
        case (2 ts offs')
        define raw' where "raw' = take td raw @ types_bytes ts @ drop (td + tlen) raw"
        define obj where "obj = \<lparr>o_raw = raw', o_hdr = h, o_types = td, o_strs = st, o_offs = offs',
          o_nr = length ts, o_swapped = sw\<rparr>"
        have "drop st raw' = drop st raw" using l 2(2) by (simp add: raw'_def)
        then have "obj_strings obj = take (unat (str_len h)) (drop st raw)" by (simp add: obj_strings_def obj_def)
        then have "obj_strings obj = [] \<or> last (obj_strings obj) = 0"
          using str(2) l(2) by (auto simp: last_conv_nth)
        moreover have "btf_new c m allocs data base = Some (Inr obj)"
          using alloc good str 2(3) by (simp add: new obj_def raw'_def)
        ultimately show ?thesis using l 2
          by (intro T(2) [of obj ts "take td raw" "drop (td + tlen) raw"]) (simp_all add: obj_def raw'_def)
      qed
    qed (use l in simp_all)
  qed
qed

text \<open>
  C27: On any bytes at all, \<^verbatim>\<open>btf_new\<close> reads only within its data and either answers with an error
  or returns well-formed BTF: every identifier below the number of types resolves to a type with
  all its words in the data, and the string section is empty or ends with a NUL.
\<close>

theorem btf_new_sound:
  assumes "case base of None \<Rightarrow> True | Some b \<Rightarrow> btf_ok b \<and> base_btf b = None"
  shows "(\<exists>e. e < 0 \<and> btf_new c m allocs data (base \<noteq> None) = Some (Inl e)) \<or>
    (\<exists>obj ts. btf_new c m allocs data (base \<noteq> None) = Some (Inr obj) \<and> o_nr obj = length ts \<and>
       btf_ok (obj_btf base obj ts) \<and>
       (\<forall>i. obj_type_by_id base obj i = btf_type_by_id (obj_btf base obj ts) i))"
proof (cases rule: btf_new_cases [of c m allocs data "base \<noteq> None", case_names bad good])
  case (good obj ts pre post)
  have "start_str_off b = 0" if "base = Some b" for b using assms that by (cases b) simp
  then have "btf_ok (obj_btf base obj ts)"
    using assms good(2,7) by (auto simp: obj_btf_def obj_start_id_def obj_start_str_off_def str_end_def split: option.splits)
  then show ?thesis using good obj_type_by_id_types [OF good(3,4,2,5,6)] by blast
qed blast

section \<open>Reading what was written\<close>

text \<open>A word as it stands in a file of the host's or of the other byte order.\<close>

definition file_word :: "bool \<Rightarrow> u32 \<Rightarrow> u32" where
  "file_word swap w = (if swap then bswap32 w else w)"

lemma file_word_simps [simp]: "file_word True = bswap32" "file_word False = (\<lambda>w. w)"
  by (simp_all add: file_word_def fun_eq_iff)

definition file_types :: "bool \<Rightarrow> btf_type list \<Rightarrow> u8 list" where
  "file_types swap ts = words_bytes (map (file_word swap) (concat (map type_words ts)))"

lemma file_types_simps [simp]:
  "file_types swap [] = []" "file_types swap (t # ts) = words_bytes (map (file_word swap) (type_words t)) @ file_types swap ts"
  by (simp_all add: file_types_def)

lemma length_file_types [simp]: "length (file_types swap ts) = length (types_bytes ts)"
  by (simp add: file_types_def types_bytes_def)

lemma file_types_native [simp]: "file_types False ts = types_bytes ts"
  by (simp add: file_types_def types_bytes_def)

lemma swap_types_at:
  assumes "list_all type_ok ts" "p \<le> length pre"
  shows "swap_types (pre @ types_bytes ts @ post) p (type_positions (length pre - p) ts) =
    Some (True, pre @ file_types True ts @ post)"
  using assms
proof (induction ts arbitrary: pre)
  case (Cons t ts)
  let ?ws = "type_words t"
  have rest: "btf_bswap_type_rest (pre @ words_bytes ?ws @ post) (length pre) =
      Some (0, pre @ words_bytes ([name_off t, info t, size_type t] @ map bswap32 (extra t)) @ post)" for post
    using btf_bswap_type_rest_at [of t "extra t" pre post] Cons.prems(1) by (simp add: type_ok_def type_words_def)
  have base: "btf_bswap_type_base (pre @ words_bytes ([name_off t, info t, size_type t] @ map bswap32 (extra t)) @ post)
      (length pre) = Some (pre @ words_bytes (map bswap32 ?ws) @ post)" for post
    using btf_bswap_type_base_at [of pre "name_off t" "info t" "size_type t" "map bswap32 (extra t)" post]
    by (simp add: type_words_def)
  have step: "swap_types (pre @ words_bytes ?ws @ post) p ((length pre - p) # offs) =
      swap_types (pre @ words_bytes (map bswap32 ?ws) @ post) p offs" for post offs
    using rest [of post] base [of post] Cons.prems(2) by (simp del: words_bytes_simps)
  define pre1 where "pre1 = pre @ words_bytes (map bswap32 ?ws)"
  have "swap_types (pre1 @ types_bytes ts @ post) p (type_positions (length pre1 - p) ts) =
      Some (True, pre1 @ file_types True ts @ post)"
    using Cons.prems by (intro Cons.IH) (simp_all add: pre1_def)
  moreover have "length pre1 - p = length pre - p + 4 * length ?ws" using Cons.prems(2) by (simp add: pre1_def)
  ultimately show ?case by (simp add: step pre1_def del: swap_types.simps)
qed simp

lemma parse_types_type:
  assumes "type_ok t" "length pre = td + next" "next + 4 * length (type_words t) \<le> tlen"
    "btf_add_type_idx_entry (allocs nr) offs nr next = (0, offs')"
  shows "parse_types allocs sw td tlen next (pre @ words_bytes (map (file_word sw) (type_words t)) @ post) offs nr =
    parse_types allocs sw td tlen (next + 4 * length (type_words t)) (pre @ words_bytes (type_words t) @ post) offs' (nr + 1)"
proof -
  define ws where "ws = map (file_word sw) (extra t)"
  define raw1 where "raw1 = pre @ words_bytes ([name_off t, info t, size_type t] @ ws) @ post"
  define raw0 where "raw0 = pre @ words_bytes (map (file_word sw) (type_words t)) @ post"
  have words: "map (file_word sw) (type_words t) = map (file_word sw) [name_off t, info t, size_type t] @ ws"
    by (simp add: type_words_def ws_def)
  have base: "(if sw then btf_bswap_type_base raw0 (td + next) else Some raw0) = Some raw1"
    using btf_bswap_type_base_at [of pre "bswap32 (name_off t)" "bswap32 (info t)" "bswap32 (size_type t)" ws post] assms(2)
    unfolding raw0_def words by (cases sw) (simp_all add: raw1_def)
  have hdr: "type_hdr_at raw1 (td + next) = Some (t\<lparr>extra := []\<rparr>)"
    using type_hdr_at_words [of pre "name_off t" "info t" "size_type t" ws post] assms(2) by (simp add: raw1_def)
  have size: "btf_type_size t = 12 + 4 * int (length (extra t))" using assms(1) by (simp add: type_ok_def)
  have rest: "(if sw then btf_bswap_type_rest raw1 (td + next) else Some (0, raw1)) =
      Some (0, pre @ words_bytes (type_words t) @ post)"
    using btf_bswap_type_rest_at [of t ws pre post] assms(2) size
    by (cases sw) (simp_all add: raw1_def type_words_def ws_def comp_def del: words_bytes_simps)
  have len: "length (type_words t) = 3 + length (extra t)" by (simp add: type_words_def)
  have "next + 12 + 4 * length (extra t) \<le> tlen" using assms(3) len by simp
  then show ?thesis unfolding raw0_def [symmetric]
    using base hdr rest assms(4) size
    by (simp add: parse_types.simps [of allocs sw td tlen "next" raw0] nat_add_distrib nat_mult_distrib len)
qed

lemma parse_types_file:
  assumes "list_all type_ok ts" "length pre = td + next" "next + length (types_bytes ts) = tlen"
    "nr \<le> length offs" "nr + length ts \<le> BTF_MAX_NR_TYPES"
  shows "\<exists>offs'. parse_types (\<lambda>_. True) sw td tlen next (pre @ file_types sw ts @ post) offs nr =
      Some (0, pre @ types_bytes ts @ post, offs', nr + length ts) \<and>
    take (nr + length ts) offs' = take nr offs @ type_positions next ts"
  using assms
proof (induction ts arbitrary: pre "next" offs nr)
  case (Cons t ts)
  obtain e offs1 where idx: "btf_add_type_idx_entry True offs nr next = (e, offs1)" by fastforce
  then have e: "e = 0" using add_type_idx_entry_ok [of nr offs "next"] Cons.prems(5) by simp
  let ?pre = "pre @ words_bytes (type_words t)"
  have "parse_types (\<lambda>_. True) sw td tlen next (pre @ file_types sw (t # ts) @ post) offs nr =
      parse_types (\<lambda>_. True) sw td tlen (next + 4 * length (type_words t)) (?pre @ file_types sw ts @ post) offs1 (nr + 1)"
    using parse_types_type [of t pre td "next" tlen "\<lambda>_. True" nr offs offs1 sw "file_types sw ts @ post"] Cons.prems idx e
    by simp
  moreover have "nr < length offs1 \<and> take (Suc nr) offs1 = take nr offs @ [next]"
    using add_type_idx_entry [OF idx Cons.prems(4)] e by (simp add: c_consts)
  ultimately show ?case
    using Cons.IH [of ?pre "next + 4 * length (type_words t)" "nr + 1" offs1] Cons.prems by auto
qed (auto simp: parse_types.simps)

text \<open>The header of an object that holds the given sections, one after the other.\<close>

definition file_hdr :: "u8 \<Rightarrow> u8 \<Rightarrow> btf_type list \<Rightarrow> u8 list \<Rightarrow> btf_header" where
  "file_hdr v f ts strs = \<lparr>magic = BTF_MAGIC, version = v, hdr_flags = f, hdr_len = 24, type_off = 0,
     type_len = of_nat (length (types_bytes ts)), str_off = of_nat (length (types_bytes ts)),
     str_len = of_nat (length strs)\<rparr>"

definition file_ok :: "btf_type list \<Rightarrow> u8 list \<Rightarrow> bool" where
  "file_ok ts strs \<longleftrightarrow> list_all type_ok ts \<and> 24 + length (types_bytes ts) + length strs < 2 ^ 32 \<and>
     length strs \<le> 2 ^ 31 \<and> strs \<noteq> [] \<and> hd strs = 0 \<and> last strs = 0"

definition file_data :: "bool \<Rightarrow> btf_header \<Rightarrow> btf_type list \<Rightarrow> u8 list \<Rightarrow> u8 list" where
  "file_data swap h ts strs = hdr_bytes (if swap then btf_bswap_hdr h else h) @ file_types swap ts @ strs"

lemma file_hdr_lengths:
  assumes "file_ok ts strs"
  shows "unat (type_len (file_hdr v f ts strs)) = length (types_bytes ts)"
    "unat (str_off (file_hdr v f ts strs)) = length (types_bytes ts)"
    "unat (str_len (file_hdr v f ts strs)) = length strs"
    "unat (hdr_len (file_hdr v f ts strs)) = 24" "type_off (file_hdr v f ts strs) = 0"
    "magic (file_hdr v f ts strs) = BTF_MAGIC"
    "unat (hdr_len (file_hdr v f ts strs) + type_len (file_hdr v f ts strs) + str_len (file_hdr v f ts strs)) =
       24 + length (types_bytes ts) + length strs"
proof -
  have "of_nat (24 + length (types_bytes ts) + length strs) =
      hdr_len (file_hdr v f ts strs) + type_len (file_hdr v f ts strs) + str_len (file_hdr v f ts strs)"
    by (simp add: file_hdr_def)
  moreover have "unat (of_nat (24 + length (types_bytes ts) + length strs) :: u32) = 24 + length (types_bytes ts) + length strs"
    using assms by (intro of_nat_unat_u32) (simp add: file_ok_def)
  ultimately show "unat (hdr_len (file_hdr v f ts strs) + type_len (file_hdr v f ts strs) + str_len (file_hdr v f ts strs)) =
       24 + length (types_bytes ts) + length strs" by simp
qed (use assms in \<open>simp_all add: file_hdr_def file_ok_def of_nat_unat_u32\<close>)

lemma btf_get_raw_data_file:
  fixes v f :: u8
  assumes "file_ok ts strs"
  defines "h \<equiv> file_hdr v f ts strs"
  shows "btf_get_raw_data True swap (hdr_bytes h) (types_bytes ts) (type_positions 0 ts) (length ts) strs =
    Some (Some (file_data swap h ts strs))"
proof -
  note len = file_hdr_lengths [OF assms(1), of v f, folded h_def]
  define sec where "sec = replicate (length (types_bytes ts)) (0 :: u8)"
  define end0 where "end0 = replicate (length strs) (0 :: u8)"
  define hb where "hb = hdr_bytes (if swap then btf_bswap_hdr h else h)"
  define z where "z = replicate 24 (0 :: u8)"
  have zero: "replicate (unat (hdr_len h + type_len h + str_len h)) 0 = z @ sec @ end0"
    unfolding len(7) by (simp add: z_def sec_def end0_def replicate_add [symmetric] add.assoc)
  have 1: "wr (z @ sec @ end0) 0 (hdr_bytes h) = Some (hdr_bytes h @ sec @ end0)"
    using wr_append [of "[]" 0 z "hdr_bytes h" "sec @ end0"] by (simp add: z_def)
  have lhb: "length hb = 24" by (simp add: hb_def)
  have 3: "wr (hb @ sec @ end0) 24 (types_bytes ts) = Some (hb @ types_bytes ts @ end0)"
    by (rule wr_append) (simp_all add: lhb sec_def)
  have 4: "(if swap then swap_types (hb @ types_bytes ts @ end0) 24 (type_positions 0 ts)
      else Some (True, hb @ types_bytes ts @ end0)) = Some (True, hb @ file_types swap ts @ end0)"
    using swap_types_at [of ts 24 hb end0] assms(1) lhb by (simp add: file_ok_def)
  have 5: "wr (hb @ file_types swap ts @ end0) (24 + length (types_bytes ts)) strs = Some (hb @ file_types swap ts @ strs)"
    using wr_append [of "hb @ file_types swap ts" "24 + length (types_bytes ts)" end0 strs "[]"] lhb
    by (simp add: end0_def)
  have hd: "ld_hdr (hdr_bytes h) = Some h" using ld_hdr_bytes [of h "[]"] by simp
  show ?thesis
    using 1 3 4 5 by (cases swap) (simp_all add: btf_get_raw_data_def hd zero len(1,3,4) ld_hdr_bytes wr_hdr file_data_def hb_def)
qed

lemma btf_new_file:
  fixes v f :: u8
  assumes "file_ok ts strs"
  defines "h \<equiv> file_hdr v f ts strs"
  shows "\<exists>offs. btf_new True True (\<lambda>_. True) (file_data swap h ts strs) False =
      Some (Inr \<lparr>o_raw = hdr_bytes h @ types_bytes ts @ strs, o_hdr = h, o_types = 24,
        o_strs = 24 + length (types_bytes ts), o_offs = offs, o_nr = length ts, o_swapped = swap\<rparr>) \<and>
    take (length ts) offs = type_positions 0 ts"
proof -
  note len = file_hdr_lengths [OF assms(1), of v f, folded h_def]
  have hl: "hdr_len h = 24" by (simp add: h_def file_hdr_def)
  have check: "btf_check_hdr (24 + length (types_bytes ts) + length strs) h = 0"
    by (simp add: btf_check_hdr_ok len)
  have swapped: "magic (btf_bswap_hdr h) = bswap16 BTF_MAGIC" "hdr_len (btf_bswap_hdr h) = bswap32 24"
    using hl len(6) by (simp_all add: btf_bswap_hdr_def)
  have parse: "btf_parse_hdr (file_data swap h ts strs) = Some (0, swap, hdr_bytes h @ file_types swap ts @ strs)"
    using check hl len(6)
    by (cases swap) (simp_all add: btf_parse_hdr_def file_data_def ld_hdr_bytes wr_hdr swapped Let_def add.assoc)
  have strs: "btf_parse_str_sec False h (hdr_bytes h @ file_types swap ts @ strs) (24 + length (types_bytes ts)) = Some 0"
  proof -
    have "str_len h \<noteq> 0" using assms(1) len(3) by (auto simp: file_ok_def)
    have l31: "length strs \<le> 2 ^ 31" using assms(1) by (simp add: file_ok_def)
    obtain n where n: "length strs = Suc n" using assms(1) by (cases strs) (simp_all add: file_ok_def)
    have "unat (str_len h - 1) = length strs - 1"
      using len(3) \<open>str_len h \<noteq> 0\<close> by (simp add: unat_minus_one)
    then have "\<not> BTF_MAX_STR_OFFSET < str_len h - 1"
      using l31 by (simp add: word_less_nat_alt c_consts)
    moreover have "strs ! 0 = 0" "strs ! (length strs - 1) = 0" "0 < length strs"
      using assms(1) by (auto simp: file_ok_def hd_conv_nth last_conv_nth)
    ultimately show ?thesis
      using n \<open>str_len h \<noteq> 0\<close> by (subst btf_parse_str_sec_value) (simp_all add: len nth_append add.assoc)
  qed
  have "12 * length ts \<le> length (types_bytes ts)"
    by (induction ts) (simp_all add: type_words_def)
  then have "0 + length ts \<le> BTF_MAX_NR_TYPES" using assms(1) by (simp add: file_ok_def c_consts)
  from parse_types_file [of ts "hdr_bytes h" 24 0 _ 0 "[]", OF _ _ refl _ this, of swap strs] assms(1)
  obtain offs where "parse_types (\<lambda>_. True) swap 24 (length (types_bytes ts)) 0 (hdr_bytes h @ file_types swap ts @ strs) [] 0 =
      Some (0, hdr_bytes h @ types_bytes ts @ strs, offs, length ts)" "take (length ts) offs = type_positions 0 ts"
    by (auto simp: file_ok_def)
  then show ?thesis
    by (intro exI [of _ offs]) (simp add: btf_new_def parse ld_hdr_bytes len strs Let_def)
qed

lemma btf_new_sound_witness:
  "let base = Btf None 1 [\<lparr>name_off = 1, info = 0x01000000, size_type = 4, extra = [0x01000020]\<rparr>] 0 [0, 0x69, 0] 0;
       data = [0xeb, 0x9f, 1, 0] @ concat (map word_bytes (map bswap32 [24, 0, 12, 12, 0, 0, 0x02000000, 1]))
    in (\<exists>e. e < 0 \<and> btf_new True True (\<lambda>_. True) data True = Some (Inl e)) \<or>
      (\<exists>obj ts. btf_new True True (\<lambda>_. True) data True = Some (Inr obj) \<and> o_nr obj = length ts \<and>
         btf_ok (obj_btf (Some base) obj ts) \<and>
         (\<forall>i. obj_type_by_id (Some base) obj i = btf_type_by_id (obj_btf (Some base) obj ts) i))"
  using btf_new_sound [of "Some (Btf None 1 [\<lparr>name_off = 1, info = 0x01000000, size_type = 4, extra = [0x01000020]\<rparr>] 0
      [0, 0x69, 0] 0)" True True "\<lambda>_. True"
      "[0xeb, 0x9f, 1, 0] @ concat (map word_bytes (map bswap32 [24, 0, 12, 12, 0, 0, 0x02000000, 1]))"]
  by (simp add: Let_def type_ok_def btf_type_size_def btf_kind_def c_consts)

text \<open>Reading what was written.\<close>

lemma file_roundtrip:
  fixes v f :: u8
  assumes "file_ok ts strs"
  defines "h \<equiv> file_hdr v f ts strs"
  shows "\<exists>data obj. btf_get_raw_data True swap (hdr_bytes h) (types_bytes ts) (type_positions 0 ts) (length ts) strs =
      Some (Some data) \<and>
    btf_new True True (\<lambda>_. True) data False = Some (Inr obj) \<and> o_swapped obj = swap \<and> o_hdr obj = h \<and>
    o_nr obj = length ts \<and> obj_strings obj = strs \<and>
    (\<forall>i. obj_type_by_id None obj i = btf_type_by_id (Btf None 1 ts 0 strs 0) i)"
proof -
  note len = file_hdr_lengths [OF assms(1), of v f, folded h_def]
  obtain offs where offs: "take (length ts) offs = type_positions 0 ts"
    "btf_new True True (\<lambda>_. True) (file_data swap h ts strs) False =
      Some (Inr \<lparr>o_raw = hdr_bytes h @ types_bytes ts @ strs, o_hdr = h, o_types = 24,
        o_strs = 24 + length (types_bytes ts), o_offs = offs, o_nr = length ts, o_swapped = swap\<rparr>)"
      (is "_ = Some (Inr ?obj)")
    using btf_new_file [OF assms(1), of swap v f] by (auto simp: h_def)
  have strs: "obj_strings ?obj = strs" by (simp add: obj_strings_def len)
  have "obj_type_by_id None ?obj i = btf_type_by_id (obj_btf None ?obj ts) i" for i
    using assms(1) offs(1)
    by (intro obj_type_by_id_types [of _ "hdr_bytes h" _ strs]) (simp_all add: file_ok_def)
  then show ?thesis
    using offs(2) btf_get_raw_data_file [OF assms(1), of swap v f] strs
    by (intro exI [of _ "file_data swap h ts strs"] exI [of _ ?obj])
      (simp add: h_def obj_btf_def obj_start_id_def obj_start_str_off_def)
qed

text \<open>
  C28: BTF without a base, with a canonical header (24 bytes, the type section directly behind it and the strings directly
  behind the types, as \<^verbatim>\<open>btf_new_empty\<close> makes it), well-formed types, a string section that starts and ends with a NUL and sections
  within the limits of the format, written by \<^verbatim>\<open>btf_get_raw_data\<close> in the byte order of the host or in the other one, is
  parsed by \<^verbatim>\<open>btf_new\<close> back to an object with the same header, strings and types, under the same
  identifiers, that remembers which byte order the data had; all allocations succeed. (For a header with a gap in
  front of the types or between the sections the data written does not match its header.)
\<close>

theorem btf_raw_data_roundtrip:
  fixes v f :: u8
  assumes "file_ok ts strs"
  defines "h \<equiv> file_hdr v f ts strs"
  shows "\<exists>data obj. btf_get_raw_data True swap (hdr_bytes h) (types_bytes ts) (type_positions 0 ts) (length ts) strs =
      Some (Some data) \<and>
    btf_new True True (\<lambda>_. True) data False = Some (Inr obj) \<and> o_swapped obj = swap \<and> o_hdr obj = h \<and>
    o_nr obj = length ts \<and> obj_strings obj = strs \<and>
    (\<forall>i. obj_type_by_id None obj i = btf_type_by_id (Btf None 1 ts 0 strs 0) i)"
  using assms(1) unfolding h_def by (rule file_roundtrip)

lemma btf_raw_data_roundtrip_witness:
  "let ts = [\<lparr>name_off = 1, info = 0x01000000, size_type = 4, extra = [0x01000020]\<rparr>,
             \<lparr>name_off = 0, info = 0x02000000, size_type = 1, extra = []\<rparr>]; strs = [0, 0x69, 0];
       h = file_hdr 1 0 ts strs
    in \<exists>data obj. btf_get_raw_data True True (hdr_bytes h) (types_bytes ts) (type_positions 0 ts) (length ts) strs =
        Some (Some data) \<and>
      btf_new True True (\<lambda>_. True) data False = Some (Inr obj) \<and> o_swapped obj = True \<and> o_hdr obj = h \<and>
      o_nr obj = length ts \<and> obj_strings obj = strs \<and>
      (\<forall>i. obj_type_by_id None obj i = btf_type_by_id (Btf None 1 ts 0 strs 0) i)"
  unfolding Let_def
  by (rule btf_raw_data_roundtrip)
    (simp add: file_ok_def type_ok_def btf_type_size_def btf_kind_def type_words_def c_consts)

end
