(* ===== verification/BtfMem.thy ===== *)
theory BtfMem
  imports BtfFile Strset
begin

text \<open>
  A \<^verbatim>\<open>struct btf\<close> in memory (\<^verbatim>\<open>libbpf/src/btf.c\<close>): how it is made modifiable, and how strings are
  looked up in it and added to it.

  An object is parsed as one block of memory and split into header, types and a string set
  before the first modification. Split BTF has a base; the model is the list of the objects, an
  object before its base. The copies that \<^verbatim>\<open>btf__raw_data\<close> caches are left out.
\<close>

section \<open>The state\<close>

datatype btf_mem =
  Whole "u8 list" nat nat  \<comment> \<open>the data and the positions of types and strings in it\<close>
| Regions "u8 list" "u8 list" strset  \<comment> \<open>header bytes behind the known fields, types, strings\<close>

record wbtf =
  w_hdr :: btf_header
  w_mem :: btf_mem
  w_offs :: "nat list"
  w_nr :: nat
  w_start_id :: nat
  w_start_str_off :: nat

text \<open>Which allocations succeed.\<close>

record alloc_ok =
  ok_hdr :: bool
  ok_types :: bool
  ok_set :: "bool \<times> bool \<times> bool"
  ok_index :: "nat \<Rightarrow> bool \<times> bool"
  ok_find :: bool
  ok_str :: "bool \<times> bool \<times> bool"
  ok_type_mem :: bool
  ok_idx :: bool

definition rd_bytes :: "u8 list \<Rightarrow> nat \<Rightarrow> nat \<Rightarrow> u8 list option" where
  "rd_bytes raw p n = (if p + n \<le> length raw then Some (take n (drop p raw)) else None)"

text \<open>
  The object \<^verbatim>\<open>btf_new\<close> returns, and \<^verbatim>\<open>btf_new_empty\<close>; the base is given by the number of its
  types and the length of its string section.
\<close>

definition of_obj :: "btf option \<Rightarrow> btf_obj \<Rightarrow> wbtf" where
  "of_obj base obj = \<lparr>w_hdr = o_hdr obj, w_mem = Whole (o_raw obj) (o_types obj) (o_strs obj),
     w_offs = o_offs obj, w_nr = o_nr obj, w_start_id = obj_start_id base,
     w_start_str_off = obj_start_str_off base\<rparr>"

definition btf_new_empty :: "bool \<Rightarrow> bool \<Rightarrow> (nat \<times> nat) option \<Rightarrow> int + wbtf" where
  "btf_new_empty calloc_ok data_ok base =
     (if \<not> calloc_ok \<or> \<not> data_ok then Inl (- ENOMEM)
      else let h = \<lparr>magic = BTF_MAGIC, version = 1, hdr_flags = 0, hdr_len = 24, type_off = 0,
                    type_len = 0, str_off = 0, str_len = (if base = None then 1 else 0)\<rparr>
       in Inr \<lparr>w_hdr = h, w_mem = Whole (hdr_bytes h @ (if base = None then [0] else [])) 24 24,
               w_offs = [], w_nr = 0,
               w_start_id = (case base of None \<Rightarrow> 1 | Some (cnt, len) \<Rightarrow> cnt),
               w_start_str_off = (case base of None \<Rightarrow> 0 | Some (cnt, len) \<Rightarrow> len)\<rparr>)"

text \<open>
  \<^verbatim>\<open>btf_ensure_modifiable\<close>. The header's copy has \<^verbatim>\<open>hdr_len\<close> bytes: for less than 24 of them the
  accesses to its fields that follow are outside of it.
\<close>

definition btf_ensure_modifiable :: "alloc_ok \<Rightarrow> wbtf \<Rightarrow> (int \<times> wbtf) option" where
  "btf_ensure_modifiable a w =
     (case w_mem w of
        Regions _ _ _ \<Rightarrow> Some (0, w)
      | Whole raw types strs \<Rightarrow>
          if \<not> ok_hdr a \<or> \<not> ok_types a then Some (- ENOMEM, w)
          else do {
            hdr \<leftarrow> rd_bytes raw 0 (unat (hdr_len (w_hdr w)));
            td \<leftarrow> rd_bytes raw types (unat (type_len (w_hdr w)));
            sd \<leftarrow> rd_bytes raw strs (unat (str_len (w_hdr w)));
            ss \<leftarrow> (case ok_set a of (c, h, m) \<Rightarrow>
                     strset_new c h m (ok_index a) (unat BTF_MAX_STR_OFFSET) (Some sd));
            case ss of
              Inl err \<Rightarrow> Some (err, w)
            | Inr ss \<Rightarrow>
                if length hdr < hdr_size then None
                else Some (0, w\<lparr>w_mem := Regions (drop hdr_size hdr) td ss\<rparr>)
          })"

text \<open>
  \<^verbatim>\<open>btf__find_str\<close> and \<^verbatim>\<open>btf__add_str\<close>. The offset returned is an \<^verbatim>\<open>int\<close>; a sum that overflows is
  undefined.
\<close>

definition str_result :: "nat \<Rightarrow> int \<Rightarrow> int option" where
  "str_result start off = (if int start + off < 2 ^ 31 then Some (int start + off) else None)"

fun btf_find_str :: "(nat \<Rightarrow> alloc_ok) \<Rightarrow> wbtf list \<Rightarrow> u8 list \<Rightarrow> (int \<times> wbtf list) option" where
  "btf_find_str al [] s = None"
| "btf_find_str al (w # bases) s = do {
     (off, bases) \<leftarrow> (if bases = [] then Some (- ENOENT, []) else btf_find_str al bases s);
     if bases \<noteq> [] \<and> off \<noteq> - ENOENT then Some (off, w # bases)
     else do {
       (err, w) \<leftarrow> btf_ensure_modifiable (al (length bases)) w;
       if err \<noteq> 0 then Some (- ENOMEM, w # bases)
       else case w_mem w of
              Whole _ _ _ \<Rightarrow> None
            | Regions hdr td ss \<Rightarrow> do {
                (off, ss) \<leftarrow> strset_find_str (ok_find (al (length bases))) ss s;
                let w = w\<lparr>w_mem := Regions hdr td ss\<rparr>;
                if off < 0 then Some (off, w # bases)
                else do { r \<leftarrow> str_result (w_start_str_off w) off; Some (r, w # bases) }
              }
     }
   }"

definition btf_add_str :: "(nat \<Rightarrow> alloc_ok) \<Rightarrow> wbtf list \<Rightarrow> u8 list \<Rightarrow> (int \<times> wbtf list) option" where
  "btf_add_str al ws s =
     (case ws of
        [] \<Rightarrow> None
      | w # bases \<Rightarrow> do {
          (off, bases) \<leftarrow> (if bases = [] then Some (- ENOENT, []) else btf_find_str al bases s);
          if bases \<noteq> [] \<and> off \<noteq> - ENOENT then Some (off, w # bases)
          else do {
            (err, w) \<leftarrow> btf_ensure_modifiable (al (length bases)) w;
            if err \<noteq> 0 then Some (- ENOMEM, w # bases)
            else case w_mem w of
                   Whole _ _ _ \<Rightarrow> None
                 | Regions hdr td ss \<Rightarrow> do {
                     (off, ss) \<leftarrow> (case ok_str (al (length bases)) of (r, c, m) \<Rightarrow>
                                     strset_add_str r c m ss s);
                     let w = w\<lparr>w_mem := Regions hdr td ss\<rparr>;
                     if off < 0 then Some (off, w # bases)
                     else do {
                       let w = w\<lparr>w_hdr := (w_hdr w)\<lparr>str_len := of_nat (strset_data_size ss)\<rparr>\<rparr>;
                       r \<leftarrow> str_result (w_start_str_off w) off;
                       Some (r, w # bases)
                     }
                   }
          }
        })"

section \<open>What the state stands for\<close>

text \<open>The strings of a section.\<close>

fun split_strs :: "u8 list \<Rightarrow> u8 list list" where
  "split_strs [] = []"
| "split_strs (c # cs) =
     (if c = 0 then [] # split_strs cs
      else case split_strs cs of [] \<Rightarrow> [] | x # xs \<Rightarrow> (c # x) # xs)"

lemma split_strs_prefix: "0 \<notin> set x \<Longrightarrow> split_strs (x @ 0 # cs) = x # split_strs cs"
  by (induction x) auto

lemma split_str_bytes [simp]: "\<forall>x \<in> set L. 0 \<notin> set x \<Longrightarrow> split_strs (str_bytes L) = L"
  by (induction L) (simp_all add: split_strs_prefix)

lemma split_strs_clean: "x \<in> set (split_strs cs) \<Longrightarrow> 0 \<notin> set x"
  by (induction cs arbitrary: x) (auto split: list.splits if_splits)

lemma str_bytes_split: "cs = [] \<or> last cs = 0 \<Longrightarrow> str_bytes (split_strs cs) = cs"
proof (induction cs)
  case (Cons c cs)
  show ?case
  proof (cases "c = 0")
    case True
    then show ?thesis using Cons by (cases cs) simp_all
  next
    case False
    then have "cs \<noteq> []" "last cs = 0" using Cons.prems by (auto split: if_splits)
    then have IH: "str_bytes (split_strs cs) = cs" using Cons.IH by simp
    show ?thesis
    proof (cases "split_strs cs")
      case Nil
      then show ?thesis using IH \<open>cs \<noteq> []\<close> by simp
    next
      case (Cons x xs)
      then show ?thesis using IH False by simp
    qed
  qed
qed simp

text \<open>The offset of a string in a section, and in BTF or its base, whichever comes first.\<close>

definition own_offset :: "nat \<Rightarrow> u8 list \<Rightarrow> u8 list \<Rightarrow> nat option" where
  "own_offset so strs s = (if s \<in> set (split_strs strs) then Some (so + string_offset (split_strs strs) s) else None)"

fun str_offset :: "btf \<Rightarrow> u8 list \<Rightarrow> nat option" where
  "str_offset (Btf base si ts so strs ps) s =
     (case base of
        None \<Rightarrow> own_offset so strs s
      | Some b \<Rightarrow> (case str_offset b s of None \<Rightarrow> own_offset so strs s | Some off \<Rightarrow> Some off))"

definition mem_rep :: "btf_header \<Rightarrow> btf_mem \<Rightarrow> btf_type list \<Rightarrow> u8 list list \<Rightarrow> bool" where
  "mem_rep h mem ts L \<longleftrightarrow>
     (case mem of
        Whole raw types strs \<Rightarrow>
          unat (hdr_len h) \<le> length raw \<and>
          rd_bytes raw types (length (types_bytes ts)) = Some (types_bytes ts) \<and>
          rd_bytes raw strs (length (str_bytes L)) = Some (str_bytes L)
      | Regions hdr td ss \<Rightarrow>
          length hdr = unat (hdr_len h) - 24 \<and>
          rd_bytes td 0 (length (types_bytes ts)) = Some (types_bytes ts) \<and> length td < 2 ^ 32 \<and>
          strset_rep ss L \<and> strs_data_max_len ss = unat BTF_MAX_STR_OFFSET \<and>
          length (strs_data ss) < 2 ^ 31)"

definition wbtf_rep :: "wbtf \<Rightarrow> nat \<Rightarrow> nat \<Rightarrow> btf_type list \<Rightarrow> u8 list \<Rightarrow> bool" where
  "wbtf_rep w si so ts strs \<longleftrightarrow>
     w_start_id w = si \<and> w_start_str_off w = so \<and> w_nr w = length ts \<and>
     length ts \<le> length (w_offs w) \<and> take (length ts) (w_offs w) = type_positions 0 ts \<and>
     unat (hdr_len (w_hdr w)) \<ge> 24 \<and> unat (type_len (w_hdr w)) = length (types_bytes ts) \<and>
     unat (str_len (w_hdr w)) = length strs \<and> length strs < 2 ^ 31 \<and>
     mem_rep (w_hdr w) (w_mem w) ts (split_strs strs)"

fun chain_rep :: "wbtf list \<Rightarrow> btf \<Rightarrow> bool" where
  "chain_rep [] b \<longleftrightarrow> False"
| "chain_rep (w # ws) (Btf base si ts so strs ps) \<longleftrightarrow>
     (case base of None \<Rightarrow> ws = [] | Some b \<Rightarrow> chain_rep ws b) \<and> wbtf_rep w si so ts strs"

section \<open>When memory runs out\<close>

text \<open>
  All allocations succeed; a string of some bytes still fits into the string sections of an object
  and its base; and what it takes for a string to be refused: an allocation that fails or a full section.
\<close>

definition all_ok :: "alloc_ok \<Rightarrow> bool" where
  "all_ok a \<longleftrightarrow> ok_hdr a \<and> ok_types a \<and> ok_set a = (True, True, True) \<and> (\<forall>off. ok_index a off = (True, True)) \<and>
     ok_find a \<and> ok_str a = (True, True, True) \<and> ok_type_mem a \<and> ok_idx a"

fun strs_room :: "btf \<Rightarrow> nat \<Rightarrow> bool" where
  "strs_room (Btf base si ts so strs ps) n \<longleftrightarrow> length strs + n \<le> unat BTF_MAX_STR_OFFSET \<and>
     (case base of None \<Rightarrow> True | Some b \<Rightarrow> strs_room b n)"

definition lacks :: "(nat \<Rightarrow> alloc_ok) \<Rightarrow> nat \<Rightarrow> btf \<Rightarrow> nat \<Rightarrow> bool" where
  "lacks al k b n \<longleftrightarrow> (\<exists>i < k. \<not> all_ok (al i)) \<or> \<not> strs_room b n"

lemma lacks_alloc: "\<not> all_ok (al i) \<Longrightarrow> i < k \<Longrightarrow> lacks al k b n"
  by (auto simp: lacks_def)

lemma lacks_base: "lacks al k b n \<Longrightarrow> lacks al (Suc k) (Btf (Some b) si ts so strs ps) n"
  by (auto simp: lacks_def less_Suc_eq)

lemma lacks_str: "unat BTF_MAX_STR_OFFSET < length strs + n \<Longrightarrow> lacks al k (Btf base si ts so strs ps) n"
  by (simp add: lacks_def)

section \<open>Strings\<close>

lemma unat_less_u32: "unat (w :: u32) < 2 ^ 32"
  using unsigned_less [of w] by simp

lemma rd_bytes_eq: "rd_bytes raw p n = Some x \<longleftrightarrow> p + n \<le> length raw \<and> x = take n (drop p raw)"
  by (auto simp: rd_bytes_def)

lemma strset_new_data:
  assumes "strset_new c h m al lim (Some data) = Some (Inr ss)"
  shows "strs_data ss = data"
proof -
  obtain r where "strset_index al data 0 (hashmap_init (strset_hash_fn []) (strset_equal_fn [])) = Some r"
    using assms by (auto simp: strset_new_def hashmap_new_def bind_Some_iff split: if_splits)
  then show ?thesis using assms
    by (cases r) (auto simp: strset_new_def hashmap_new_def split: if_splits)
qed

lemma ensure_modifiable_cases:
  assumes "wbtf_rep w si so ts strs" "strs = [] \<or> last strs = 0"
  obtains (oom) "btf_ensure_modifiable a w = Some (- ENOMEM, w)" "\<not> all_ok a"
  | (good) hdr td ss where "btf_ensure_modifiable a w = Some (0, w\<lparr>w_mem := Regions hdr td ss\<rparr>)"
      "wbtf_rep (w\<lparr>w_mem := Regions hdr td ss\<rparr>) si so ts strs"
proof (cases "w_mem w")
  case (Regions hdr td ss)
  then have eq: "w\<lparr>w_mem := Regions hdr td ss\<rparr> = w" by (cases w) simp
  show thesis by (rule good [of hdr td ss]) (simp_all only: eq assms(1), simp add: btf_ensure_modifiable_def Regions)
next
  case (Whole raw types strp)
  note R = assms(1) [unfolded wbtf_rep_def mem_rep_def Whole btf_mem.case rd_bytes_eq]
  define hdr where "hdr = take (unat (hdr_len (w_hdr w))) raw"
  have rds: "rd_bytes raw 0 (unat (hdr_len (w_hdr w))) = Some hdr"
    "rd_bytes raw types (unat (type_len (w_hdr w))) = Some (types_bytes ts)"
    "rd_bytes raw strp (unat (str_len (w_hdr w))) = Some strs"
    using R assms(2) by (simp_all add: rd_bytes_def hdr_def str_bytes_split)
  have hlen: "length hdr = unat (hdr_len (w_hdr w))" using R by (simp add: hdr_def)
  obtain c h m where al: "ok_set a = (c, h, m)" by (metis prod_cases3)
  obtain res where res: "strset_new c h m (ok_index a) (unat BTF_MAX_STR_OFFSET) (Some strs) = Some res"
    "case res of Inl err \<Rightarrow> err = - ENOMEM \<and> \<not> (c \<and> h \<and> m \<and> (\<forall>off. ok_index a off = (True, True)))
      | Inr s \<Rightarrow> strset_rep s (split_strs strs) \<and> strs_data_max_len s = unat BTF_MAX_STR_OFFSET"
    using strset_new_rep [of "split_strs strs" "Some strs" c h m "ok_index a" "unat BTF_MAX_STR_OFFSET"] assms(2) R
    by (auto simp: str_bytes_split split_strs_clean)
  show thesis
  proof (cases "ok_hdr a \<and> ok_types a")
    case False
    then show thesis using oom Whole by (auto simp: btf_ensure_modifiable_def all_ok_def)
  next
    case True
    show thesis
    proof (cases res)
      case (Inl err)
      moreover have "\<not> all_ok a" using res(2) Inl al by (auto simp: all_ok_def)
      ultimately show thesis using oom Whole True rds al res by (simp add: btf_ensure_modifiable_def)
    next
      case (Inr ss)
      have "length (types_bytes ts) < 2 ^ 32" using R unat_less_u32 [of "type_len (w_hdr w)"] by simp
      moreover have "strs_data ss = strs" by (rule strset_new_data) (use res(1) Inr in simp)
      ultimately show thesis using good [of "drop 24 hdr" "types_bytes ts" ss] Whole True rds al res Inr R hlen
        by (simp add: btf_ensure_modifiable_def wbtf_rep_def mem_rep_def rd_bytes_def)
    qed
  qed
qed

lemma strset_add_str_frame:
  assumes "strset_add_str m c a ss x = Some (r, ss')"
  shows "strs_data_max_len ss' = strs_data_max_len ss \<and>
    length (strs_data ss') \<le> max (length (strs_data ss)) (strs_data_max_len ss)"
proof (cases "libbpf_add_mem m 0 (strs_data ss) (strs_data_len ss) (strs_data_max_len ss) (length x + 1)")
  case None
  then show ?thesis using assms by (simp add: strset_add_str_def strset_add_str_mem_def)
next
  case (Some d)
  have "length d \<le> max (length (strs_data ss)) (strs_data_max_len ss)"
    using Some by (auto simp: libbpf_add_mem_def Let_def split: if_splits)
  moreover obtain data where data: "wr d (strs_data_len ss) (x @ [0]) = Some data"
    using assms Some by (auto simp: strset_add_str_def strset_add_str_mem_def bind_Some_iff Let_def)
  moreover obtain err old h where "hashmap_insert c a (with_ctx data (strs_hash ss)) (strs_data_len ss)
      (strs_data_len ss) HASHMAP_ADD = (err, old, h)" by (metis prod_cases3)
  ultimately show ?thesis using assms Some length_wr [OF data]
    by (auto simp: strset_add_str_def strset_add_str_mem_def Let_def split: if_splits)
qed

lemma strset_find_str_frame:
  assumes "strset_find_str m ss x = Some (r, ss')"
  shows "strs_data_max_len ss' = strs_data_max_len ss \<and>
    length (strs_data ss') \<le> max (length (strs_data ss)) (strs_data_max_len ss)"
proof (cases "libbpf_add_mem m 0 (strs_data ss) (strs_data_len ss) (strs_data_max_len ss) (length x + 1)")
  case None
  then show ?thesis using assms by (simp add: strset_find_str_def strset_add_str_mem_def)
next
  case (Some d)
  have "length d \<le> max (length (strs_data ss)) (strs_data_max_len ss)"
    using Some by (auto simp: libbpf_add_mem_def Let_def split: if_splits)
  then show ?thesis using assms Some
    by (auto simp: strset_find_str_def strset_add_str_mem_def bind_Some_iff Let_def
        dest!: length_wr split: option.splits)
qed

text \<open>A string is where its offset says.\<close>

lemma string_offset_less: "s \<in> set L \<Longrightarrow> string_offset L s < length (str_bytes L)"
  by (induction L) (auto simp: string_offset_le)

lemma str_offset_resolves:
  "btf_ok b \<Longrightarrow> str_offset b s = Some off \<Longrightarrow> off < str_end b \<and> str_by_offset b off = Some (Some s)"
proof (induction b arbitrary: off rule: btf_ok.induct)
  case (1 base start types so strs ps)
  have own: "off < so + length strs \<and> str_by_offset (Btf base start types so strs ps) off = Some (Some s)"
    if "s \<in> set (split_strs strs)" "off = so + string_offset (split_strs strs) s"
  proof -
    have strs: "str_bytes (split_strs strs) = strs" using 1(2) by (simp add: str_bytes_split)
    have clean: "\<forall>x \<in> set (split_strs strs). 0 \<notin> set x" by (simp add: split_strs_clean)
    have at: "str_at strs (string_offset (split_strs strs) s) = s"
      using str_at_bytes [OF that(1) clean, of "[]"] strs by simp
    have less: "string_offset (split_strs strs) s < length strs"
      using string_offset_less [OF that(1)] strs by simp
    then have "0 \<in> set (drop (string_offset (split_strs strs) s) strs)"
      using 1(2) last_in_set [of "drop (string_offset (split_strs strs) s) strs"] by (auto simp: last_drop)
    then show ?thesis using that(2) less at by simp
  qed
  show ?case
  proof (cases base)
    case None
    then show ?thesis using own 1(3) by (auto simp: own_offset_def str_end_def split: if_splits)
  next
    case (Some b)
    show ?thesis
    proof (cases "str_offset b s")
      case None
      then show ?thesis using own 1(3) Some by (auto simp: own_offset_def str_end_def split: if_splits)
    next
      case (Some o')
      then show ?thesis using 1 \<open>base = Some b\<close> by (fastforce simp: str_end_def)
    qed
  qed
qed

lemma ENOENT_neg: "- ENOENT < 0" "- ENOMEM < 0" "ENOMEM \<noteq> 0" "ENOMEM \<noteq> ENOENT" by (simp_all add: c_consts)

lemma regions_rep_strings:
  assumes "wbtf_rep (w\<lparr>w_mem := Regions hdr td ss\<rparr>) si so ts strs" "strset_rep ss' L"
    "strs_data_max_len ss' = strs_data_max_len ss"
    "length (strs_data ss') \<le> max (length (strs_data ss)) (strs_data_max_len ss)"
  shows "wbtf_rep (w\<lparr>w_mem := Regions hdr td ss', w_hdr := (w_hdr w)\<lparr>str_len := of_nat (length (str_bytes L))\<rparr>\<rparr>)
      si so ts (str_bytes L)"
    "length (str_bytes L) < 2 ^ 31"
proof -
  have L: "\<forall>x \<in> set L. 0 \<notin> set x" "length (str_bytes L) \<le> length (strs_data ss')"
    using assms(2) by (simp_all add: strset_rep_def)
  have "length (strs_data ss') < 2 ^ 31"
    using assms(1,4) by (auto simp: wbtf_rep_def mem_rep_def c_consts)
  then show small: "length (str_bytes L) < 2 ^ 31" using L(2) by simp
  then show "wbtf_rep (w\<lparr>w_mem := Regions hdr td ss', w_hdr := (w_hdr w)\<lparr>str_len := of_nat (length (str_bytes L))\<rparr>\<rparr>)
      si so ts (str_bytes L)"
    using assms L(1) \<open>length (strs_data ss') < 2 ^ 31\<close>
    by (simp add: wbtf_rep_def mem_rep_def of_nat_unat_u32)
qed

lemma word_of_nat_unat_eq: "unat (w :: u32) = n \<Longrightarrow> w = of_nat n"
  by auto

lemma same_str_len:
  assumes "wbtf_rep w si so ts strs"
  shows "w\<lparr>w_mem := m, w_hdr := (w_hdr w)\<lparr>str_len := of_nat (length strs)\<rparr>\<rparr> = w\<lparr>w_mem := m\<rparr>"
proof -
  have "str_len (w_hdr w) = of_nat (length strs)"
    by (rule word_of_nat_unat_eq) (use assms in \<open>simp add: wbtf_rep_def\<close>)
  then show ?thesis by (cases w; cases "w_hdr w") simp
qed

text \<open>How looking up a string ends, first in the base and then in the object itself.\<close>

definition finds :: "(nat \<Rightarrow> alloc_ok) \<Rightarrow> wbtf list \<Rightarrow> btf \<Rightarrow> u8 list \<Rightarrow> bool" where
  "finds al ws b s \<longleftrightarrow> (\<exists>r ws'. btf_find_str al ws s = Some (r, ws') \<and> chain_rep ws' b \<and> length ws' = length ws \<and>
     (r = - ENOMEM \<and> lacks al (length ws) b (length s + 1) \<or>
      r = (case str_offset b s of None \<Rightarrow> - ENOENT | Some off \<Rightarrow> int off)))"

lemma base_lookup:
  assumes "chain_rep (w # bases) (Btf base si ts so strs ps)" "\<And>b0. base = Some b0 \<Longrightarrow> finds al bases b0 s"
  obtains (base) r0 bases' where
      "(if bases = [] then Some (- ENOENT, []) else btf_find_str al bases s) = Some (r0, bases')"
      "length bases' = length bases" "chain_rep (w # bases') (Btf base si ts so strs ps)" "bases' \<noteq> []" "r0 \<noteq> - ENOENT"
      "r0 = - ENOMEM \<and> lacks al (Suc (length bases)) (Btf base si ts so strs ps) (length s + 1) \<or>
       (\<exists>off. str_offset (Btf base si ts so strs ps) s = Some off \<and> r0 = int off)"
  | (own) r0 bases' where
      "(if bases = [] then Some (- ENOENT, []) else btf_find_str al bases s) = Some (r0, bases')"
      "length bases' = length bases" "chain_rep (w # bases') (Btf base si ts so strs ps)" "\<not> (bases' \<noteq> [] \<and> r0 \<noteq> - ENOENT)"
      "str_offset (Btf base si ts so strs ps) s = own_offset so strs s"
proof (cases base)
  case None
  then show thesis using assms(1) own by simp
next
  case (Some b0)
  then have "bases \<noteq> []" using assms(1) by auto
  obtain r ws' where find: "btf_find_str al bases s = Some (r, ws')" "chain_rep ws' b0" "length ws' = length bases"
    "r = - ENOMEM \<and> lacks al (length bases) b0 (length s + 1) \<or>
     r = (case str_offset b0 s of None \<Rightarrow> - ENOENT | Some off \<Rightarrow> int off)"
    using assms(2) [OF Some] by (auto simp: finds_def)
  have ws': "ws' \<noteq> []" using find(2) by auto
  have chain: "chain_rep (w # ws') (Btf base si ts so strs ps)" using assms(1) Some find(2) by simp
  show thesis
  proof (cases "r = - ENOENT")
    case True
    then have "str_offset b0 s = None" using find(4) ENOENT_neg by (auto split: option.splits)
    then show thesis using own [of r ws'] find chain True Some \<open>bases \<noteq> []\<close> by simp
  next
    case False
    then have "r = - ENOMEM \<and> lacks al (Suc (length bases)) (Btf base si ts so strs ps) (length s + 1) \<or>
        (\<exists>off. str_offset (Btf base si ts so strs ps) s = Some off \<and> r = int off)"
      using find(4) Some lacks_base by (auto split: option.splits)
    then show thesis using base [of r ws'] find chain False ws' \<open>bases \<noteq> []\<close> by simp
  qed
qed

lemma btf_find_str_result:
  assumes "chain_rep ws b" "btf_ok b" "0 \<notin> set s" "str_end b < 2 ^ 31"
  shows "finds al ws b s"
  using assms
proof (induction ws arbitrary: b)
  case (Cons w bases)
  obtain base si ts so strs ps where b: "b = Btf base si ts so strs ps" by (cases b)
  have w: "wbtf_rep w si so ts strs" and strs: "strs = [] \<or> last strs = 0" using Cons.prems(1,2) b by simp_all
  have IH: "finds al bases b0 s" if "base = Some b0" for b0
    using Cons.IH [of b0] Cons.prems b that by (simp add: str_end_def)
  show ?case
  proof (cases rule: base_lookup [OF Cons.prems(1) [unfolded b] IH, case_names base_ok base own])
    case (base r0 bases')
    then show ?thesis by (auto simp: finds_def b)
  next
    case (own r0 bases')
    let ?al = "al (length bases')"
    show ?thesis
    proof (cases rule: ensure_modifiable_cases [OF w strs, of ?al, case_names oom good])
      case oom
      then show ?thesis using own(1-4) ENOENT_neg oom(2) lacks_alloc [of al "length bases'" "length (w # bases)"] by (auto simp: finds_def b)
    next
      case (good hdr td ss)
      have rep: "strset_rep ss (split_strs strs)" and small: "length (str_bytes (split_strs strs)) < 2 ^ 31"
        using good(2) strs by (simp_all add: wbtf_rep_def mem_rep_def str_bytes_split)
      obtain r1 ss' where find: "strset_find_str (ok_find ?al) ss s = Some (r1, ss')" "strset_rep ss' (split_strs strs)"
        "r1 = (if s \<in> set (split_strs strs) then int (string_offset (split_strs strs) s) else - ENOENT) \<or>
         r1 = - ENOMEM \<and> lacks al (length (w # bases)) b (length s + 1)"
      proof -
        have "strs_data_max_len ss = unat BTF_MAX_STR_OFFSET" "strs_data_len ss = length strs"
          using good(2) rep strs by (simp_all add: wbtf_rep_def mem_rep_def strset_rep_def str_bytes_split)
        then have "lacks al (length (w # bases)) b (length s + 1)"
          if "strs_data_max_len ss < strs_data_len ss + (length s + 1) \<or> \<not> ok_find ?al"
          using that own(2) b lacks_str [of strs "length s + 1"] lacks_alloc [of al "length bases'" "length (w # bases)"]
          by (auto simp: all_ok_def)
        then show thesis using that strset_find_str_result [OF rep Cons.prems(3) small, of "ok_find ?al"] by blast
      qed
      have "wbtf_rep (w\<lparr>w_mem := Regions hdr td ss'\<rparr>) si so ts strs"
        using regions_rep_strings(1) [OF good(2) find(2)] strset_find_str_frame [OF find(1)] same_str_len [OF w] strs
        by (simp add: str_bytes_split)
      then have chain: "chain_rep (w\<lparr>w_mem := Regions hdr td ss'\<rparr> # bases') b" using own(3) b by simp
      have so: "w_start_str_off w = so" using w by (simp add: wbtf_rep_def)
      show ?thesis
      proof (cases "r1 < 0")
        case True
        then show ?thesis using own good(1) find(1,3) chain
          by (auto simp: finds_def b own_offset_def split: if_splits)
      next
        case False
        then have in_set: "s \<in> set (split_strs strs)" "r1 = int (string_offset (split_strs strs) s)"
          using find(3) ENOENT_neg by (auto split: if_splits)
        have off: "str_offset b s = Some (so + string_offset (split_strs strs) s)"
          using own(5) in_set(1) by (simp add: b own_offset_def)
        have "str_result so r1 = Some (int (so + string_offset (split_strs strs) s))"
          using str_offset_resolves [OF Cons.prems(2) off] Cons.prems(4) by (simp add: str_result_def in_set(2))
        then show ?thesis using own good(1) find(1) chain False so off
          unfolding finds_def by (auto simp add: in_set(2) simp del: str_offset.simps)
      qed
    qed
  qed simp
qed simp

text \<open>Adding a string: the offset of the string, and the BTF with the string in it.\<close>

fun add_string :: "btf \<Rightarrow> u8 list \<Rightarrow> btf" where
  "add_string (Btf base si ts so strs ps) s = Btf base si ts so (strs @ s @ [0]) ps"

definition intern :: "btf \<Rightarrow> u8 list \<Rightarrow> nat \<times> btf" where
  "intern b s = (case str_offset b s of Some off \<Rightarrow> (off, b) | None \<Rightarrow> (str_end b, add_string b s))"

lemma add_string_ok: "btf_ok b \<Longrightarrow> btf_ok (add_string b s)"
  by (cases b) simp

lemma intern_ok: "btf_ok b \<Longrightarrow> btf_ok (snd (intern b s))"
  by (simp add: intern_def add_string_ok split: option.split)

lemma split_strs_snoc:
  assumes "strs = [] \<or> last strs = 0" "0 \<notin> set s"
  shows "split_strs (strs @ s @ [0]) = split_strs strs @ [s]"
  using split_str_bytes [of "split_strs strs @ [s]"] assms by (auto simp: str_bytes_split split_strs_clean)

lemma intern_resolves:
  assumes "btf_ok b" "0 \<notin> set s"
  shows "str_by_offset (snd (intern b s)) (fst (intern b s)) = Some (Some s)"
proof (cases "str_offset b s")
  case None
  obtain base si ts so strs ps where b: "b = Btf base si ts so strs ps" by (cases b)
  have "s \<notin> set (split_strs strs)" using None b by (auto simp: own_offset_def split: option.splits if_splits)
  then have "string_offset (split_strs strs @ [s]) s = length strs"
    using assms(1) b by (simp add: string_offset_append str_bytes_split)
  moreover have "str_offset (add_string b s) s = Some (so + string_offset (split_strs strs @ [s]) s)"
    using None assms b by (auto simp: own_offset_def split_strs_snoc split: option.splits)
  ultimately have "str_offset (add_string b s) s = Some (str_end b)" by (simp add: b str_end_def)
  then show ?thesis using None str_offset_resolves [OF add_string_ok [OF assms(1)]] by (simp add: intern_def)
next
  case (Some off)
  then show ?thesis using str_offset_resolves [OF assms(1) Some] by (simp add: intern_def)
qed

lemma btf_add_str_result:
  assumes "chain_rep ws b" "btf_ok b" "0 \<notin> set s" "str_end b < 2 ^ 31"
  shows "\<exists>r ws'. btf_add_str al ws s = Some (r, ws') \<and> length ws' = length ws \<and>
    (r = - ENOMEM \<and> lacks al (length ws) b (length s + 1) \<and> chain_rep ws' b \<or>
     r = int (fst (intern b s)) \<and> chain_rep ws' (snd (intern b s)))"
proof (cases ws)
  case (Cons w bases)
  obtain base si ts so strs ps where b: "b = Btf base si ts so strs ps" by (cases b)
  have w: "wbtf_rep w si so ts strs" and strs: "strs = [] \<or> last strs = 0" using assms(1,2) b Cons by simp_all
  have base_finds: "finds al bases b0 s" if "base = Some b0" for b0
    using btf_find_str_result [of bases b0 s al] assms b Cons that by (simp add: str_end_def)
  show ?thesis
  proof (cases rule: base_lookup [OF assms(1) [unfolded b Cons] base_finds, case_names base_ok base own])
    case (base r0 bases')
    then show ?thesis by (auto simp: btf_add_str_def b Cons intern_def)
  next
    case (own r0 bases')
    let ?al = "al (length bases')"
    show ?thesis
    proof (cases rule: ensure_modifiable_cases [OF w strs, of ?al, case_names oom good])
      case oom
      then show ?thesis using own(1-4) ENOENT_neg oom(2) lacks_alloc [of al "length bases'" "length ws"] by (auto simp: btf_add_str_def Cons b)
    next
      case (good hdr td ss)
      have rep: "strset_rep ss (split_strs strs)" and small: "length (str_bytes (split_strs strs)) < 2 ^ 31"
        using good(2) strs by (simp_all add: wbtf_rep_def mem_rep_def str_bytes_split)
      obtain r c m where ok: "ok_str ?al = (r, c, m)" by (metis prod_cases3)
      obtain r1 ss' where add: "strset_add_str r c m ss s = Some (r1, ss')"
        "r1 = int (string_offset (split_strs strs) s) \<and>
           strset_rep ss' (if s \<in> set (split_strs strs) then split_strs strs else split_strs strs @ [s]) \<or>
         r1 = - ENOMEM \<and> lacks al (length ws) b (length s + 1) \<and> strset_rep ss' (split_strs strs)"
      proof -
        have "strs_data_max_len ss = unat BTF_MAX_STR_OFFSET" "length (str_bytes (split_strs strs @ [s])) = length strs + (length s + 1)"
          using good(2) strs by (simp_all add: wbtf_rep_def mem_rep_def str_bytes_split)
        then have "lacks al (length ws) b (length s + 1)"
          if "strs_data_max_len ss < length (str_bytes (split_strs strs @ [s])) \<or> \<not> (r \<and> c \<and> m)"
          using that own(2) b ok Cons lacks_str [of strs "length s + 1"] lacks_alloc [of al "length bases'" "length ws"]
          by (auto simp: all_ok_def)
        then show thesis using that strset_add_str_outcome [OF rep assms(3) small, of r c m] by blast
      qed
      note frame = strset_add_str_frame [OF add(1), THEN conjunct1] strset_add_str_frame [OF add(1), THEN conjunct2]
      have so: "w_start_str_off w = so" using w by (simp add: wbtf_rep_def)
      from add(2) show ?thesis
      proof (elim disjE conjE, goal_cases)
        case 2
        have "wbtf_rep (w\<lparr>w_mem := Regions hdr td ss'\<rparr>) si so ts strs"
          using regions_rep_strings(1) [OF good(2) 2(3) frame] same_str_len [OF w] strs by (simp add: str_bytes_split)
        then show ?thesis using own(1-4) good(1) add(1) ok 2(1,2) ENOENT_neg by (auto simp: btf_add_str_def Cons b)
      next
        case 1
        define L' where "L' = (if s \<in> set (split_strs strs) then split_strs strs else split_strs strs @ [s])"
        have size: "strset_data_size ss' = length (str_bytes L')"
          using 1(2) by (simp add: strset_data_size_def strset_rep_def L'_def)
        note rep' = regions_rep_strings [OF good(2) 1(2) [folded L'_def] frame]
        have snd: "snd (intern b s) = Btf base si ts so (str_bytes L') ps"
          using own(5) strs by (simp add: intern_def b own_offset_def L'_def str_bytes_split del: str_offset.simps)
        have fst: "fst (intern b s) = so + string_offset (split_strs strs) s"
          using own(5) strs string_offset_absent [of s "split_strs strs"]
          by (simp add: intern_def b own_offset_def str_end_def str_bytes_split del: str_offset.simps)
        have "so + string_offset (split_strs strs) s \<le> str_end b"
          using string_offset_le [of "split_strs strs" s] strs by (simp add: str_end_def b str_bytes_split)
        then have "str_result so r1 = Some (int (fst (intern b s)))"
          using assms(4) 1(1) fst by (simp add: str_result_def)
        then show ?thesis using own(1-4) good(1) add(1) ok rep'(1) size snd so 1(1)
          by (auto simp: btf_add_str_def Cons)
      qed
    qed
  qed simp
qed (use assms in simp)

text \<open>Adding a string to a modifiable object leaves its types where they are.\<close>

lemma btf_find_str_length: "btf_find_str al ws s = Some (r, ws') \<Longrightarrow> length ws' = length ws"
proof (induction ws arbitrary: r ws')
  case (Cons w bases)
  obtain r0 bases' where pre: "(if bases = [] then Some (- ENOENT, []) else btf_find_str al bases s) = Some (r0, bases')"
    using Cons.prems by (cases "if bases = [] then Some (- ENOENT, []) else btf_find_str al bases s") auto
  then have "length bases' = length bases" using Cons.IH by (auto split: if_splits)
  then show ?case using Cons.prems unfolding btf_find_str.simps(2) pre
    by (auto simp: bind_Some_iff Let_def split: if_split_asm btf_mem.split_asm)
qed simp

lemma btf_add_str_regions:
  assumes "btf_add_str al (w # bases) s = Some (r, ws')" "w_mem w = Regions hdr td ss"
  obtains bases' ss' n where "ws' = w\<lparr>w_mem := Regions hdr td ss', w_hdr := (w_hdr w)\<lparr>str_len := n\<rparr>\<rparr> # bases'"
    "length bases' = length bases"
proof -
  obtain r0 bases' where pre: "(if bases = [] then Some (- ENOENT, []) else btf_find_str al bases s) = Some (r0, bases')"
    using assms(1) by (cases "if bases = [] then Some (- ENOENT, []) else btf_find_str al bases s") (auto simp: btf_add_str_def)
  then have len: "length bases' = length bases" using btf_find_str_length by (auto split: if_splits)
  have same: "w\<lparr>w_mem := Regions hdr td ss', w_hdr := (w_hdr w)\<lparr>str_len := str_len (w_hdr w)\<rparr>\<rparr> = w\<lparr>w_mem := Regions hdr td ss'\<rparr>" for ss'
    by simp
  have same': "w\<lparr>w_mem := Regions hdr td ss\<rparr> = w" using assms(2) by (cases w) simp
  obtain rc c m where al: "ok_str (al (length bases')) = (rc, c, m)" by (metis prod_cases3)
  have run: "Some (r, ws') = (if bases' \<noteq> [] \<and> r0 \<noteq> - ENOENT then Some (r0, w # bases')
      else do {
        (off, ss) \<leftarrow> strset_add_str rc c m ss s;
        if off < 0 then Some (off, w\<lparr>w_mem := Regions hdr td ss\<rparr> # bases')
        else do {
          r \<leftarrow> str_result (w_start_str_off w) off;
          Some (r, w\<lparr>w_mem := Regions hdr td ss, w_hdr := (w_hdr w)\<lparr>str_len := of_nat (strset_data_size ss)\<rparr>\<rparr> # bases')
        }
      })"
    using assms unfolding btf_add_str_def list.case pre by (simp add: btf_ensure_modifiable_def al Let_def cong: if_cong)
  have "\<exists>ss' n. ws' = w\<lparr>w_mem := Regions hdr td ss', w_hdr := (w_hdr w)\<lparr>str_len := n\<rparr>\<rparr> # bases'"
  proof (cases "bases' \<noteq> [] \<and> r0 \<noteq> - ENOENT")
    case True
    then have "ws' = w # bases'" using run by simp
    then show ?thesis using same'
      by (intro exI [of _ ss] exI [of _ "str_len (w_hdr w)"]) simp
  next
    case False
    then obtain off ss' where add: "strset_add_str rc c m ss s = Some (off, ss')"
      using run by (cases "strset_add_str rc c m ss s") auto
    show ?thesis
    proof (cases "off < 0")
      case True
      then have "ws' = w\<lparr>w_mem := Regions hdr td ss'\<rparr> # bases'" using run False add by auto
      then show ?thesis by (intro exI [of _ ss'] exI [of _ "str_len (w_hdr w)"]) simp
    next
      case nonneg: False
      have "ws' = w\<lparr>w_mem := Regions hdr td ss', w_hdr := (w_hdr w)\<lparr>str_len := of_nat (strset_data_size ss')\<rparr>\<rparr> # bases'"
        using run False add nonneg by (cases "str_result (w_start_str_off w) off") auto
      then show ?thesis by blast
    qed
  qed
  then show thesis using that len by blast
qed

end
