(* ===== verification/BtfAdd.thy ===== *)
theory BtfAdd
  imports BtfMem
begin

text \<open>
  Building BTF: the functions \<^verbatim>\<open>btf__add_*\<close> of \<^verbatim>\<open>libbpf/src/btf.c\<close>, on a \<^verbatim>\<open>struct btf\<close> in memory.
  Strings that may be NULL are optional values; the strings are given without their terminators.
\<close>

section \<open>Adding a type\<close>

definition BTF_INT_CHAR :: u32 where [c_consts]: "BTF_INT_CHAR = 2"
definition BTF_INT_BOOL :: u32 where [c_consts]: "BTF_INT_BOOL = 4"
definition BTF_FWD_STRUCT :: nat where [c_consts]: "BTF_FWD_STRUCT = 0"
definition BTF_FWD_UNION :: nat where [c_consts]: "BTF_FWD_UNION = 1"
definition BTF_FWD_ENUM :: nat where [c_consts]: "BTF_FWD_ENUM = 2"
definition BTF_FUNC_STATIC :: nat where [c_consts]: "BTF_FUNC_STATIC = 0"
definition BTF_FUNC_GLOBAL :: nat where [c_consts]: "BTF_FUNC_GLOBAL = 1"
definition BTF_FUNC_EXTERN :: nat where [c_consts]: "BTF_FUNC_EXTERN = 2"
definition BTF_VAR_STATIC :: int where [c_consts]: "BTF_VAR_STATIC = 0"
definition BTF_VAR_GLOBAL_ALLOCATED :: int where [c_consts]: "BTF_VAR_GLOBAL_ALLOCATED = 1"
definition BTF_VAR_GLOBAL_EXTERN :: int where [c_consts]: "BTF_VAR_GLOBAL_EXTERN = 2"

definition btf_type_info :: "nat \<Rightarrow> nat \<Rightarrow> bool \<Rightarrow> u32" where
  "btf_type_info kind vlen kflag = push_bit 31 (of_bool kflag) OR push_bit 24 (of_nat kind) OR of_nat vlen"

definition btf_is_union :: "btf_type \<Rightarrow> bool" where "btf_is_union t \<longleftrightarrow> btf_kind t = BTF_KIND_UNION"
definition btf_is_func_proto :: "btf_type \<Rightarrow> bool" where "btf_is_func_proto t \<longleftrightarrow> btf_kind t = BTF_KIND_FUNC_PROTO"
definition btf_is_datasec :: "btf_type \<Rightarrow> bool" where "btf_is_datasec t \<longleftrightarrow> btf_kind t = BTF_KIND_DATASEC"

text \<open>Room for \<open>add_sz\<close> more bytes behind the types; whether there is some is the first result.\<close>

definition btf_add_type_mem :: "alloc_ok \<Rightarrow> wbtf \<Rightarrow> nat \<Rightarrow> (bool \<times> wbtf) option" where
  "btf_add_type_mem a w add_sz =
     (case w_mem w of
        Whole _ _ _ \<Rightarrow> None
      | Regions hdr td ss \<Rightarrow>
          (case libbpf_add_mem (ok_type_mem a) 0 td (unat (type_len (w_hdr w))) (2 ^ 32 - 1) add_sz of
             None \<Rightarrow> Some (False, w)
           | Some td \<Rightarrow> Some (True, w\<lparr>w_mem := Regions hdr td ss\<rparr>)))"

text \<open>Storing words at a position of the types.\<close>

definition put_words :: "wbtf \<Rightarrow> nat \<Rightarrow> u32 list \<Rightarrow> wbtf option" where
  "put_words w p ws =
     (case w_mem w of
        Whole _ _ _ \<Rightarrow> None
      | Regions hdr td ss \<Rightarrow> do { td \<leftarrow> wr td p (words_bytes ws); Some (w\<lparr>w_mem := Regions hdr td ss\<rparr>) })"

definition grow_types :: "wbtf \<Rightarrow> nat \<Rightarrow> wbtf" where
  "grow_types w add_sz = w\<lparr>w_hdr := (w_hdr w)\<lparr>type_len := type_len (w_hdr w) + of_nat add_sz,
     str_off := str_off (w_hdr w) + of_nat add_sz\<rparr>\<rparr>"

definition btf_commit_type :: "alloc_ok \<Rightarrow> wbtf \<Rightarrow> nat \<Rightarrow> int \<times> wbtf" where
  "btf_commit_type a w data_sz =
     (let (err, offs) = btf_add_type_idx_entry (ok_idx a) (w_offs w) (w_nr w) (unat (type_len (w_hdr w)))
       in if err \<noteq> 0 then (err, w\<lparr>w_offs := offs\<rparr>)
          else (int (w_start_id w + w_nr w),
                (grow_types w data_sz)\<lparr>w_offs := offs, w_nr := w_nr w + 1\<rparr>))"

text \<open>A name that may be NULL or empty, which then has the offset 0.\<close>

definition name_offset :: "(nat \<Rightarrow> alloc_ok) \<Rightarrow> wbtf list \<Rightarrow> u8 list option \<Rightarrow> (int \<times> wbtf list) option" where
  "name_offset al ws name =
     (case name of
        None \<Rightarrow> Some (0, ws)
      | Some s \<Rightarrow> if s = [] then Some (0, ws) else btf_add_str al ws s)"

text \<open>
  The steps every function that adds something goes through once its arguments are checked:
  making the object modifiable, making room, adding the name. The result is an error or the
  offset of the name.
\<close>

definition btf_prepare :: "(nat \<Rightarrow> alloc_ok) \<Rightarrow> wbtf list \<Rightarrow> u8 list option \<Rightarrow> nat \<Rightarrow> (int \<times> wbtf list) option" where
  "btf_prepare al ws name add_sz =
     (case ws of
        [] \<Rightarrow> None
      | w # bases \<Rightarrow> do {
          let a = al (length bases);
          (err, w) \<leftarrow> btf_ensure_modifiable a w;
          if err \<noteq> 0 then Some (- ENOMEM, w # bases)
          else do {
            (ok, w) \<leftarrow> btf_add_type_mem a w add_sz;
            if \<not> ok then Some (- ENOMEM, w # bases) else name_offset al (w # bases) name
          }
        })"

text \<open>Adding a type; \<open>body\<close> gives its words for the offset of its name.\<close>

definition btf_append ::
  "(nat \<Rightarrow> alloc_ok) \<Rightarrow> wbtf list \<Rightarrow> u8 list option \<Rightarrow> nat \<Rightarrow> (u32 \<Rightarrow> u32 list) \<Rightarrow> (int \<times> wbtf list) option" where
  "btf_append al ws name add_sz body = do {
     (name_off, ws) \<leftarrow> btf_prepare al ws name add_sz;
     if name_off < 0 then Some (name_off, ws)
     else do {
       w \<leftarrow> put_words (hd ws) (unat (type_len (w_hdr (hd ws)))) (body (word_of_int name_off));
       let (r, w) = btf_commit_type (al (length (tl ws))) w add_sz;
       Some (r, w # tl ws)
     }
   }"

definition no_name :: "u8 list option \<Rightarrow> bool" where
  "no_name name \<longleftrightarrow> name = None \<or> name = Some []"

definition btf_add_int :: "(nat \<Rightarrow> alloc_ok) \<Rightarrow> wbtf list \<Rightarrow> u8 list option \<Rightarrow> u64 \<Rightarrow> int \<Rightarrow> (int \<times> wbtf list) option" where
  "btf_add_int al ws name byte_sz encoding =
     (if no_name name then Some (- EINVAL, ws)
      else if byte_sz = 0 \<or> byte_sz AND (byte_sz - 1) \<noteq> 0 \<or> byte_sz > 16 then Some (- EINVAL, ws)
      else if word_of_int encoding AND NOT (BTF_INT_SIGNED OR BTF_INT_CHAR OR BTF_INT_BOOL) \<noteq> 0
      then Some (- EINVAL, ws)
      else btf_append al ws name (12 + 4) (\<lambda>off.
             [off, btf_type_info BTF_KIND_INT 0 False, ucast byte_sz,
              push_bit 24 (word_of_int encoding) OR ucast (byte_sz * 8)]))"

definition btf_add_float :: "(nat \<Rightarrow> alloc_ok) \<Rightarrow> wbtf list \<Rightarrow> u8 list option \<Rightarrow> u64 \<Rightarrow> (int \<times> wbtf list) option" where
  "btf_add_float al ws name byte_sz =
     (if no_name name then Some (- EINVAL, ws)
      else if byte_sz \<noteq> 2 \<and> byte_sz \<noteq> 4 \<and> byte_sz \<noteq> 8 \<and> byte_sz \<noteq> 12 \<and> byte_sz \<noteq> 16 then Some (- EINVAL, ws)
      else btf_append al ws name 12 (\<lambda>off. [off, btf_type_info BTF_KIND_FLOAT 0 False, ucast byte_sz]))"

definition validate_type_id :: "int \<Rightarrow> int" where
  "validate_type_id type_id = (if type_id < 0 \<or> type_id > int BTF_MAX_NR_TYPES then - EINVAL else 0)"

definition btf_add_ref_kind :: "(nat \<Rightarrow> alloc_ok) \<Rightarrow> wbtf list \<Rightarrow> nat \<Rightarrow> u8 list option \<Rightarrow> int \<Rightarrow>
    (int \<times> wbtf list) option" where
  "btf_add_ref_kind al ws kind name ref_type_id =
     (if validate_type_id ref_type_id \<noteq> 0 then Some (- EINVAL, ws)
      else btf_append al ws name 12 (\<lambda>off. [off, btf_type_info kind 0 False, word_of_int ref_type_id]))"

definition btf_add_ptr :: "(nat \<Rightarrow> alloc_ok) \<Rightarrow> wbtf list \<Rightarrow> int \<Rightarrow> (int \<times> wbtf list) option" where
  "btf_add_ptr al ws ref_type_id = btf_add_ref_kind al ws BTF_KIND_PTR None ref_type_id"

definition btf_add_array :: "(nat \<Rightarrow> alloc_ok) \<Rightarrow> wbtf list \<Rightarrow> int \<Rightarrow> int \<Rightarrow> u32 \<Rightarrow> (int \<times> wbtf list) option" where
  "btf_add_array al ws index_type_id elem_type_id nr_elems =
     (if validate_type_id index_type_id \<noteq> 0 \<or> validate_type_id elem_type_id \<noteq> 0 then Some (- EINVAL, ws)
      else btf_append al ws None (12 + 12) (\<lambda>off.
             [off, btf_type_info BTF_KIND_ARRAY 0 False, 0,
              word_of_int elem_type_id, word_of_int index_type_id, nr_elems]))"

definition btf_add_composite :: "(nat \<Rightarrow> alloc_ok) \<Rightarrow> wbtf list \<Rightarrow> nat \<Rightarrow> u8 list option \<Rightarrow> u32 \<Rightarrow>
    (int \<times> wbtf list) option" where
  "btf_add_composite al ws kind name bytes_sz =
     btf_append al ws name 12 (\<lambda>off. [off, btf_type_info kind 0 False, bytes_sz])"

definition btf_add_struct :: "(nat \<Rightarrow> alloc_ok) \<Rightarrow> wbtf list \<Rightarrow> u8 list option \<Rightarrow> u32 \<Rightarrow> (int \<times> wbtf list) option" where
  "btf_add_struct al ws name byte_sz = btf_add_composite al ws BTF_KIND_STRUCT name byte_sz"

definition btf_add_union :: "(nat \<Rightarrow> alloc_ok) \<Rightarrow> wbtf list \<Rightarrow> u8 list option \<Rightarrow> u32 \<Rightarrow> (int \<times> wbtf list) option" where
  "btf_add_union al ws name byte_sz = btf_add_composite al ws BTF_KIND_UNION name byte_sz"

definition btf_add_enum :: "(nat \<Rightarrow> alloc_ok) \<Rightarrow> wbtf list \<Rightarrow> u8 list option \<Rightarrow> u32 \<Rightarrow> (int \<times> wbtf list) option" where
  "btf_add_enum al ws name byte_sz =
     (if byte_sz = 0 \<or> byte_sz AND (byte_sz - 1) \<noteq> 0 \<or> byte_sz > 8 then Some (- EINVAL, ws)
      else btf_append al ws name 12 (\<lambda>off. [off, btf_type_info BTF_KIND_ENUM 0 False, byte_sz]))"

text \<open>The information word of the type with an identifier is replaced.\<close>

definition set_type_info :: "wbtf list \<Rightarrow> int \<Rightarrow> u32 \<Rightarrow> wbtf list option" where
  "set_type_info ws type_id new_info =
     (case ws of
        [] \<Rightarrow> None
      | w # bases \<Rightarrow> do {
          off \<leftarrow> rd (take (w_nr w) (w_offs w)) (nat type_id - w_start_id w);
          w \<leftarrow> put_words w (off + 4) [new_info];
          Some (w # bases)
        })"

definition btf_add_fwd :: "(nat \<Rightarrow> alloc_ok) \<Rightarrow> wbtf list \<Rightarrow> u8 list option \<Rightarrow> nat \<Rightarrow> (int \<times> wbtf list) option" where
  "btf_add_fwd al ws name fwd_kind =
     (if no_name name then Some (- EINVAL, ws)
      else if fwd_kind = BTF_FWD_STRUCT \<or> fwd_kind = BTF_FWD_UNION then do {
        (type_id, ws) \<leftarrow> btf_add_ref_kind al ws BTF_KIND_FWD name 0;
        if type_id \<le> 0 then Some (type_id, ws)
        else do {
          ws \<leftarrow> set_type_info ws type_id (btf_type_info BTF_KIND_FWD 0 (fwd_kind = BTF_FWD_UNION));
          Some (type_id, ws)
        }
      }
      else if fwd_kind = BTF_FWD_ENUM then btf_add_enum al ws name 4
      else Some (- EINVAL, ws))"

definition btf_add_typedef :: "(nat \<Rightarrow> alloc_ok) \<Rightarrow> wbtf list \<Rightarrow> u8 list option \<Rightarrow> int \<Rightarrow> (int \<times> wbtf list) option" where
  "btf_add_typedef al ws name ref_type_id =
     (if no_name name then Some (- EINVAL, ws) else btf_add_ref_kind al ws BTF_KIND_TYPEDEF name ref_type_id)"

definition btf_add_volatile :: "(nat \<Rightarrow> alloc_ok) \<Rightarrow> wbtf list \<Rightarrow> int \<Rightarrow> (int \<times> wbtf list) option" where
  "btf_add_volatile al ws ref_type_id = btf_add_ref_kind al ws BTF_KIND_VOLATILE None ref_type_id"

definition btf_add_const :: "(nat \<Rightarrow> alloc_ok) \<Rightarrow> wbtf list \<Rightarrow> int \<Rightarrow> (int \<times> wbtf list) option" where
  "btf_add_const al ws ref_type_id = btf_add_ref_kind al ws BTF_KIND_CONST None ref_type_id"

definition btf_add_restrict :: "(nat \<Rightarrow> alloc_ok) \<Rightarrow> wbtf list \<Rightarrow> int \<Rightarrow> (int \<times> wbtf list) option" where
  "btf_add_restrict al ws ref_type_id = btf_add_ref_kind al ws BTF_KIND_RESTRICT None ref_type_id"

definition btf_add_type_tag :: "(nat \<Rightarrow> alloc_ok) \<Rightarrow> wbtf list \<Rightarrow> u8 list option \<Rightarrow> int \<Rightarrow> (int \<times> wbtf list) option" where
  "btf_add_type_tag al ws val ref_type_id =
     (if no_name val then Some (- EINVAL, ws) else btf_add_ref_kind al ws BTF_KIND_TYPE_TAG val ref_type_id)"

definition btf_add_func :: "(nat \<Rightarrow> alloc_ok) \<Rightarrow> wbtf list \<Rightarrow> u8 list option \<Rightarrow> nat \<Rightarrow> int \<Rightarrow> (int \<times> wbtf list) option" where
  "btf_add_func al ws name linkage proto_type_id =
     (if no_name name then Some (- EINVAL, ws)
      else if linkage \<noteq> BTF_FUNC_STATIC \<and> linkage \<noteq> BTF_FUNC_GLOBAL \<and> linkage \<noteq> BTF_FUNC_EXTERN
      then Some (- EINVAL, ws)
      else do {
        (type_id, ws) \<leftarrow> btf_add_ref_kind al ws BTF_KIND_FUNC name proto_type_id;
        if type_id > 0 then do {
          ws \<leftarrow> set_type_info ws type_id (btf_type_info BTF_KIND_FUNC linkage False);
          Some (type_id, ws)
        }
        else Some (type_id, ws)
      })"

definition btf_add_func_proto :: "(nat \<Rightarrow> alloc_ok) \<Rightarrow> wbtf list \<Rightarrow> int \<Rightarrow> (int \<times> wbtf list) option" where
  "btf_add_func_proto al ws ret_type_id =
     (if validate_type_id ret_type_id \<noteq> 0 then Some (- EINVAL, ws)
      else btf_append al ws None 12 (\<lambda>off. [off, btf_type_info BTF_KIND_FUNC_PROTO 0 False, word_of_int ret_type_id]))"

definition btf_add_var :: "(nat \<Rightarrow> alloc_ok) \<Rightarrow> wbtf list \<Rightarrow> u8 list option \<Rightarrow> int \<Rightarrow> int \<Rightarrow> (int \<times> wbtf list) option" where
  "btf_add_var al ws name linkage type_id =
     (if no_name name then Some (- EINVAL, ws)
      else if linkage \<noteq> BTF_VAR_STATIC \<and> linkage \<noteq> BTF_VAR_GLOBAL_ALLOCATED \<and> linkage \<noteq> BTF_VAR_GLOBAL_EXTERN
      then Some (- EINVAL, ws)
      else if validate_type_id type_id \<noteq> 0 then Some (- EINVAL, ws)
      else btf_append al ws name (12 + 4) (\<lambda>off.
             [off, btf_type_info BTF_KIND_VAR 0 False, word_of_int type_id, word_of_int linkage]))"

definition btf_add_datasec :: "(nat \<Rightarrow> alloc_ok) \<Rightarrow> wbtf list \<Rightarrow> u8 list option \<Rightarrow> u32 \<Rightarrow> (int \<times> wbtf list) option" where
  "btf_add_datasec al ws name byte_sz =
     (if no_name name then Some (- EINVAL, ws)
      else btf_append al ws name 12 (\<lambda>off. [off, btf_type_info BTF_KIND_DATASEC 0 False, byte_sz]))"

definition btf_add_decl_tag :: "(nat \<Rightarrow> alloc_ok) \<Rightarrow> wbtf list \<Rightarrow> u8 list option \<Rightarrow> int \<Rightarrow> int \<Rightarrow> (int \<times> wbtf list) option" where
  "btf_add_decl_tag al ws val ref_type_id component_idx =
     (if no_name val \<or> component_idx < - 1 then Some (- EINVAL, ws)
      else if validate_type_id ref_type_id \<noteq> 0 then Some (- EINVAL, ws)
      else btf_append al ws val (12 + 4) (\<lambda>off.
             [off, btf_type_info BTF_KIND_DECL_TAG 0 False, word_of_int ref_type_id, word_of_int component_idx]))"

section \<open>Adding to the last type\<close>

text \<open>The header of the last type, with its position in the types.\<close>

definition btf_last_type :: "wbtf \<Rightarrow> (btf_type \<times> nat) option" where
  "btf_last_type w = do {
     off \<leftarrow> rd (take (w_nr w) (w_offs w)) (w_nr w - 1);
     t \<leftarrow> (case w_mem w of
            Whole raw types strs \<Rightarrow> type_hdr_at raw (types + off)
          | Regions hdr td ss \<Rightarrow> type_hdr_at td off);
     Some (t, off)
   }"

text \<open>
  Adding a member, enumerator, parameter or variable to the last type; \<open>upd\<close> gives its new
  information word.
\<close>

definition btf_extend ::
  "(nat \<Rightarrow> alloc_ok) \<Rightarrow> wbtf list \<Rightarrow> u8 list option \<Rightarrow> nat \<Rightarrow> (u32 \<Rightarrow> u32 list) \<Rightarrow> (btf_type \<Rightarrow> u32) \<Rightarrow>
     (int \<times> wbtf list) option" where
  "btf_extend al ws name add_sz body upd = do {
     (name_off, ws) \<leftarrow> btf_prepare al ws name add_sz;
     if name_off < 0 then Some (name_off, ws)
     else do {
       w \<leftarrow> put_words (hd ws) (unat (type_len (w_hdr (hd ws)))) (body (word_of_int name_off));
       (t, off) \<leftarrow> btf_last_type w;
       w \<leftarrow> put_words w (off + 4) [upd t];
       Some (0, grow_types w add_sz # tl ws)
     }
   }"

definition btf_type_inc_vlen :: "btf_type \<Rightarrow> u32" where
  "btf_type_inc_vlen t = btf_type_info (btf_kind t) (btf_vlen t + 1) (btf_kflag t)"

text \<open>The last type is looked at only when there is one; \<open>ok\<close> is the check of its kind.\<close>

definition check_last :: "wbtf list \<Rightarrow> (btf_type \<Rightarrow> bool) \<Rightarrow> bool option" where
  "check_last ws ok =
     (case ws of
        [] \<Rightarrow> None
      | w # bases \<Rightarrow>
          if w_nr w = 0 then Some False else do { (t, off) \<leftarrow> btf_last_type w; Some (ok t) })"

definition btf_add_field :: "(nat \<Rightarrow> alloc_ok) \<Rightarrow> wbtf list \<Rightarrow> u8 list option \<Rightarrow> int \<Rightarrow> u32 \<Rightarrow> u32 \<Rightarrow>
    (int \<times> wbtf list) option" where
  "btf_add_field al ws name type_id bit_offset bit_size = do {
     composite \<leftarrow> check_last ws btf_is_composite;
     if \<not> composite then Some (- EINVAL, ws)
     else if validate_type_id type_id \<noteq> 0 then Some (- EINVAL, ws)
     else do {
       let is_bitfield = (bit_size \<noteq> 0 \<or> bit_offset mod 8 \<noteq> 0);
       is_union \<leftarrow> check_last ws btf_is_union;
       if is_bitfield \<and> (bit_size = 0 \<or> bit_size > 255 \<or> bit_offset > 0xffffff) then Some (- EINVAL, ws)
       else if is_union \<and> bit_offset \<noteq> 0 then Some (- EINVAL, ws)
       else btf_extend al ws name 12
              (\<lambda>off. [off, word_of_int type_id, bit_offset OR push_bit 24 bit_size])
              (\<lambda>t. btf_type_info (btf_kind t) (btf_vlen t + 1) (is_bitfield \<or> btf_kflag t))
     }
   }"

definition btf_add_enum_value :: "(nat \<Rightarrow> alloc_ok) \<Rightarrow> wbtf list \<Rightarrow> u8 list option \<Rightarrow> int \<Rightarrow> (int \<times> wbtf list) option" where
  "btf_add_enum_value al ws name val = do {
     is_enum \<leftarrow> check_last ws btf_is_enum;
     if \<not> is_enum then Some (- EINVAL, ws)
     else if no_name name then Some (- EINVAL, ws)
     else if val < - (2 ^ 31) \<or> val > 2 ^ 32 - 1 then Some (- E2BIG, ws)
     else btf_extend al ws name 8 (\<lambda>off. [off, word_of_int val]) btf_type_inc_vlen
   }"

definition btf_add_func_param :: "(nat \<Rightarrow> alloc_ok) \<Rightarrow> wbtf list \<Rightarrow> u8 list option \<Rightarrow> int \<Rightarrow> (int \<times> wbtf list) option" where
  "btf_add_func_param al ws name type_id =
     (if validate_type_id type_id \<noteq> 0 then Some (- EINVAL, ws)
      else do {
        is_proto \<leftarrow> check_last ws btf_is_func_proto;
        if \<not> is_proto then Some (- EINVAL, ws)
        else btf_extend al ws name 8 (\<lambda>off. [off, word_of_int type_id]) btf_type_inc_vlen
      })"

definition btf_add_datasec_var_info :: "(nat \<Rightarrow> alloc_ok) \<Rightarrow> wbtf list \<Rightarrow> int \<Rightarrow> u32 \<Rightarrow> u32 \<Rightarrow> (int \<times> wbtf list) option" where
  "btf_add_datasec_var_info al ws var_type_id off byte_sz = do {
     is_datasec \<leftarrow> check_last ws btf_is_datasec;
     if \<not> is_datasec then Some (- EINVAL, ws)
     else if validate_type_id var_type_id \<noteq> 0 then Some (- EINVAL, ws)
     else btf_extend al ws None 12 (\<lambda>_. [word_of_int var_type_id, off, byte_sz]) btf_type_inc_vlen
   }"

end
