(* ===== verification/BtfBuild.thy ===== *)
theory BtfBuild
  imports BtfAdd
begin

text \<open>What the functions \<^verbatim>\<open>btf__add_*\<close> do to the types and strings of an object.\<close>

section \<open>Information words\<close>

lemma bit_of_nat_u32: "bit (of_nat n :: u32) i \<longleftrightarrow> i < 32 \<and> bit n i"
  by (simp add: bit_of_nat_iff_bit [where 'a = nat] bit_simps)

lemma bit_small_nat: "n < 2 ^ k \<Longrightarrow> k \<le> i \<Longrightarrow> \<not> bit (n :: nat) i"
  by (metis bit_take_bit_iff leD take_bit_nat_eq_self)

lemma btf_type_info_fields:
  assumes "info t = btf_type_info k v f" "k < 32" "v < 65536"
  shows "btf_kind t = k" "btf_vlen t = v" "btf_kflag t = f"
proof -
  have k: "i < 5" if "bit k i" for i using bit_small_nat [of k 5 i] assms(2) that by (auto simp flip: not_le)
  have v: "i < 16" if "bit v i" for i using bit_small_nat [of v 16 i] assms(3) that by (auto simp flip: not_le)
  have masks: "(0x1f :: u32) = mask 5" "(0xffff :: u32) = mask 16" by (simp_all add: mask_eq_exp_minus_1)
  have "drop_bit 24 (info t) AND 0x1f = of_nat k"
    unfolding masks using k v by (intro bit_word_eqI) (force simp: assms(1) btf_type_info_def bit_simps bit_of_nat_u32)
  then show "btf_kind t = k" using assms(2) by (simp add: btf_kind_def of_nat_unat_u32)
  have "info t AND 0xffff = of_nat v"
    unfolding masks using k v by (intro bit_word_eqI) (force simp: assms(1) btf_type_info_def bit_simps bit_of_nat_u32)
  then show "btf_vlen t = v" using assms(3) by (simp add: btf_vlen_def of_nat_unat_u32)
  have "drop_bit 31 (info t) = of_bool f"
    using k v by (intro bit_word_eqI) (force simp: assms(1) btf_type_info_def bit_simps bit_of_nat_u32)
  then show "btf_kflag t = f" by (simp add: btf_kflag_def)
qed

section \<open>What a change does\<close>

text \<open>The name of a thing that is added, with its offset; no name and the empty name have the offset 0.\<close>

definition intern_opt :: "btf \<Rightarrow> u8 list option \<Rightarrow> nat \<times> btf" where
  "intern_opt b name =
     (case name of None \<Rightarrow> (0, b) | Some s \<Rightarrow> if s = [] then (0, b) else intern b s)"

fun with_types :: "(btf_type list \<Rightarrow> btf_type list) \<Rightarrow> btf \<Rightarrow> btf" where
  "with_types f (Btf base si ts so strs ps) = Btf base si (f ts) so strs ps"

definition name_clean :: "u8 list option \<Rightarrow> bool" where
  "name_clean name \<longleftrightarrow> (case name of None \<Rightarrow> True | Some s \<Rightarrow> 0 \<notin> set s)"

lemma intern_types:
  "btf_types (snd (intern b s)) = btf_types b" "btf_types (snd (intern_opt b name)) = btf_types b"
  "start_id (snd (intern b s)) = start_id b" "start_id (snd (intern_opt b name)) = start_id b"
proof -
  have *: "btf_types (add_string b s) = btf_types b \<and> start_id (add_string b s) = start_id b" for s by (cases b) simp
  then show "btf_types (snd (intern b s)) = btf_types b" "start_id (snd (intern b s)) = start_id b"
    by (simp_all add: intern_def split: option.split)
  from * show "btf_types (snd (intern_opt b name)) = btf_types b" "start_id (snd (intern_opt b name)) = start_id b"
    by (simp_all add: intern_opt_def intern_def split: option.split)
qed

lemma intern_opt_ok: "btf_ok b \<Longrightarrow> btf_ok (snd (intern_opt b name))"
  by (simp add: intern_opt_def intern_ok split: option.split)

lemma intern_opt_less:
  assumes "btf_ok b" "str_end b < 2 ^ 31"
  shows "fst (intern_opt b name) < 2 ^ 31"
proof -
  have "off < str_end b" if "str_offset b s = Some off" for s off using str_offset_resolves [OF assms(1) that] by simp
  then show ?thesis using assms(2)
    by (fastforce simp: intern_opt_def intern_def split: option.split)
qed

text \<open>
  What it takes for a request to run out of memory: an allocation that fails, a name that the string
  sections have no room for, types that would reach 4 GiB, or as many types as there can be.
\<close>

definition name_size :: "u8 list option \<Rightarrow> nat" where
  "name_size name = (case name of None \<Rightarrow> 0 | Some s \<Rightarrow> length s + 1)"

definition short :: "(nat \<Rightarrow> alloc_ok) \<Rightarrow> nat \<Rightarrow> btf \<Rightarrow> u8 list option \<Rightarrow> nat \<Rightarrow> bool" where
  "short al k b name n \<longleftrightarrow> lacks al k b (name_size name) \<or>
     2 ^ 32 - 1 < length (types_bytes (btf_types b)) + n \<or> BTF_MAX_NR_TYPES < length (btf_types b) + 1"

lemma short_lacks: "lacks al k b (name_size name) \<Longrightarrow> short al k b name n"
  by (simp add: short_def)

lemma short_alloc: "\<not> all_ok (al i) \<Longrightarrow> i < k \<Longrightarrow> short al k b name n"
  by (simp add: short_def lacks_alloc)

lemma name_offset_result:
  assumes "chain_rep ws b" "btf_ok b" "name_clean name" "str_end b < 2 ^ 31"
  shows "\<exists>r ws'. name_offset al ws name = Some (r, ws') \<and> length ws' = length ws \<and>
    (r = - ENOMEM \<and> lacks al (length ws) b (name_size name) \<and> chain_rep ws' b \<or>
     r = int (fst (intern_opt b name)) \<and> chain_rep ws' (snd (intern_opt b name)))"
proof (cases "name = None \<or> name = Some []")
  case True
  then show ?thesis using assms(1) by (auto simp: name_offset_def intern_opt_def)
next
  case False
  then obtain s where "name = Some s" "s \<noteq> []" by auto
  then show ?thesis using btf_add_str_result [OF assms(1,2) _ assms(4), of s al] assms(3)
    by (simp add: name_offset_def intern_opt_def name_clean_def name_size_def)
qed

lemma name_offset_regions:
  assumes "name_offset al (w # bases) name = Some (r, ws')" "w_mem w = Regions hdr td ss"
  obtains bases' ss' n where "ws' = w\<lparr>w_mem := Regions hdr td ss', w_hdr := (w_hdr w)\<lparr>str_len := n\<rparr>\<rparr> # bases'"
    "length bases' = length bases"
proof (cases "name = None \<or> name = Some []")
  case True
  then have "ws' = w # bases" using assms(1) by (auto simp: name_offset_def)
  moreover have "w\<lparr>w_mem := Regions hdr td ss, w_hdr := (w_hdr w)\<lparr>str_len := str_len (w_hdr w)\<rparr>\<rparr> = w"
    using assms(2) by (cases w) simp
  ultimately show ?thesis using that [of "str_len (w_hdr w)" ss bases] by simp
next
  case False
  then obtain s where "name = Some s" "s \<noteq> []" by auto
  then have "btf_add_str al (w # bases) s = Some (r, ws')" using assms(1) by (simp add: name_offset_def)
  from btf_add_str_regions [OF this assms(2)] that show ?thesis by blast
qed

section \<open>Room for a change\<close>

text \<open>Headers that differ only in the lengths of the sections, which stay one behind the other.\<close>

definition same_layout :: "btf_header \<Rightarrow> btf_header \<Rightarrow> bool" where
  "same_layout h h' \<longleftrightarrow>
     h'\<lparr>type_len := 0, str_off := 0, str_len := 0\<rparr> = h\<lparr>type_len := 0, str_off := 0, str_len := 0\<rparr> \<and>
     str_off h' - type_len h' = str_off h - type_len h"

lemma same_layout_refl: "same_layout h h" by (simp add: same_layout_def)

lemma same_layout_trans: "same_layout h h' \<Longrightarrow> same_layout h' h'' \<Longrightarrow> same_layout h h''"
  by (simp add: same_layout_def)

lemma same_layout_str_len: "same_layout h (h\<lparr>str_len := n\<rparr>)" by (cases h) (simp add: same_layout_def)

lemma same_layout_grow: "same_layout (w_hdr w) (w_hdr (grow_types w n))"
  by (cases "w_hdr w") (simp add: same_layout_def grow_types_def)

lemma add_type_mem_cases:
  assumes "wbtf_rep w si so ts strs" "w_mem w = Regions hdr td ss"
  obtains (oom) "btf_add_type_mem a w n = Some (False, w)" "2 ^ 32 - 1 < length (types_bytes ts) + n \<or> \<not> all_ok a"
  | (room) td' where "btf_add_type_mem a w n = Some (True, w\<lparr>w_mem := Regions hdr td' ss\<rparr>)"
      "wbtf_rep (w\<lparr>w_mem := Regions hdr td' ss\<rparr>) si so ts strs" "unat (type_len (w_hdr w)) + n \<le> length td'"
proof (cases "libbpf_add_mem (ok_type_mem a) 0 td (unat (type_len (w_hdr w))) (2 ^ 32 - 1) n")
  case None
  then have "2 ^ 32 - 1 < length (types_bytes ts) + n \<or> \<not> all_ok a"
    using assms(1) libbpf_add_mem_None [of "ok_type_mem a" 0 td "unat (type_len (w_hdr w))" "2 ^ 32 - 1" n]
    by (auto simp: wbtf_rep_def all_ok_def)
  then show thesis using None oom assms(2) by (simp add: btf_add_type_mem_def)
next
  case (Some td')
  note G = libbpf_add_mem_Some [OF Some]
  have td: "rd_bytes td 0 (length (types_bytes ts)) = Some (types_bytes ts)" "length td < 2 ^ 32"
    using assms by (simp_all add: wbtf_rep_def mem_rep_def)
  have "length td' < 2 ^ 32"
    using Some td(2) by (auto simp: libbpf_add_mem_def Let_def split: if_splits)
  moreover have "rd_bytes td' 0 (length (types_bytes ts)) = Some (types_bytes ts)"
    using td(1) G(2) libbpf_add_mem_take [OF Some, of "length (types_bytes ts)"] by (simp add: rd_bytes_eq)
  ultimately have "wbtf_rep (w\<lparr>w_mem := Regions hdr td' ss\<rparr>) si so ts strs"
    using assms by (simp add: wbtf_rep_def mem_rep_def)
  then show thesis using room [of td'] assms(2) Some G(1) by (simp add: btf_add_type_mem_def)
qed

lemma btf_prepare_cases:
  assumes "chain_rep ws b" "btf_ok b" "name_clean name" "str_end b < 2 ^ 31"
  obtains (oom) ws' where "btf_prepare al ws name n = Some (- ENOMEM, ws')" "chain_rep ws' b" "length ws' = length ws"
      "short al (length ws) b name n"
  | (ready) w bases hdr td ss where
      "btf_prepare al ws name n = Some (int (fst (intern_opt b name)), w # bases)" "Suc (length bases) = length ws"
      "chain_rep (w # bases) (snd (intern_opt b name))"
      "w_mem w = Regions hdr td ss" "unat (type_len (w_hdr w)) + n \<le> length td"
      "same_layout (w_hdr (hd ws)) (w_hdr w)"
proof (cases ws)
  case (Cons w bases)
  note T = that
  obtain base si ts so strs ps where b: "b = Btf base si ts so strs ps" by (cases b)
  have w: "wbtf_rep w si so ts strs" and strs: "strs = [] \<or> last strs = 0" using assms(1,2) b Cons by simp_all
  have len: "length (x # bases) = length ws" for x using Cons by simp
  let ?a = "al (length bases)"
  show thesis
  proof (cases rule: ensure_modifiable_cases [OF w strs, of ?a, case_names oom good])
    case oom
    then have "short al (length ws) b name n" using short_alloc [of al "length bases" "length ws" b name n] Cons by simp
    then show thesis using T(1) [of "w # bases"] assms(1) Cons ENOENT_neg oom(1) by (simp add: btf_prepare_def)
  next
    case (good hdr td ss)
    define w1 where "w1 = w\<lparr>w_mem := Regions hdr td ss\<rparr>"
    have w1: "wbtf_rep w1 si so ts strs" "w_mem w1 = Regions hdr td ss" "btf_ensure_modifiable ?a w = Some (0, w1)"
      using good by (simp_all add: w1_def)
    have chain: "chain_rep (x # bases) b" if "wbtf_rep x si so ts strs" for x using assms(1) that b Cons by simp
    show thesis
    proof (cases rule: add_type_mem_cases [OF w1(1,2), of ?a n, case_names oom room])
      case oom
      then have "short al (length ws) b name n" using short_alloc [of al "length bases" "length ws" b name n] Cons
        by (auto simp: short_def b)
      then show thesis using T(1) [of "w1 # bases"] chain [OF w1(1)] Cons w1(3) oom(1) by (simp add: btf_prepare_def)
    next
      case (room td')
      define w2 where "w2 = w1\<lparr>w_mem := Regions hdr td' ss\<rparr>"
      have w2: "w_mem w2 = Regions hdr td' ss" by (simp add: w2_def)
      have run: "btf_prepare al ws name n = name_offset al (w2 # bases) name"
        using w1(3) room(1) Cons by (simp add: btf_prepare_def w2_def)
      obtain r ws' where res: "name_offset al (w2 # bases) name = Some (r, ws')" "length ws' = length ws"
        "r = - ENOMEM \<and> lacks al (length ws) b (name_size name) \<and> chain_rep ws' b \<or>
         r = int (fst (intern_opt b name)) \<and> chain_rep ws' (snd (intern_opt b name))"
        using name_offset_result [OF chain [OF room(2)] assms(2-4), of al] len by (auto simp: w2_def)
      obtain bases' ss' m where ws': "ws' = w2\<lparr>w_mem := Regions hdr td' ss', w_hdr := (w_hdr w2)\<lparr>str_len := m\<rparr>\<rparr> # bases'"
        "length bases' = length bases"
        using name_offset_regions [OF res(1) w2] by blast
      from res(3) show thesis
        using T(1) [of ws'] T(2) [of "hd ws'" bases' hdr td' ss'] run res(1,2) ws' room(3)
          same_layout_str_len short_lacks [of al "length ws" b name n] by (auto simp: w2_def w1_def Cons)
    qed
  qed
qed (use assms in simp)

section \<open>Adding a type\<close>

lemma put_words_at_end:
  assumes "w_mem w = Regions hdr td ss" "take n td = bs" "length bs = n" "n + 4 * length vs \<le> length td"
  obtains td' where "put_words w n vs = Some (w\<lparr>w_mem := Regions hdr td' ss\<rparr>)" "length td' = length td"
    "take (n + 4 * length vs) td' = bs @ words_bytes vs"
proof -
  have "wr td n (words_bytes vs) = Some (bs @ words_bytes vs @ drop (n + 4 * length vs) td)"
    using assms(2-4) by (simp add: wr_def)
  then show thesis using that [of "bs @ words_bytes vs @ drop (n + 4 * length vs) td"] assms
    by (simp add: put_words_def)
qed

lemma grow_types_mem: "grow_types (w\<lparr>w_mem := m\<rparr>) n = (grow_types w n)\<lparr>w_mem := m\<rparr>"
  by (cases w) (simp add: grow_types_def)

lemma type_positions_snoc: "type_positions p (ts @ [t]) = type_positions p ts @ [p + length (types_bytes ts)]"
  by (induction ts arbitrary: p) simp_all

definition modifiable :: "wbtf \<Rightarrow> bool" where
  "modifiable w \<longleftrightarrow> (case w_mem w of Whole _ _ _ \<Rightarrow> False | Regions _ _ _ \<Rightarrow> True)"

text \<open>An object whose types have grown by some bytes.\<close>

lemma grown_rep:
  assumes "wbtf_rep w si so ts strs" "w_mem w = Regions hdr td0 ss" "length td = length td0"
    "take (length (types_bytes ts')) td = types_bytes ts'" "length (types_bytes ts') = length (types_bytes ts) + n"
    "length (types_bytes ts') \<le> length td" "length ts' \<le> length offs" "take (length ts') offs = type_positions 0 ts'"
  shows "wbtf_rep ((grow_types w n)\<lparr>w_mem := Regions hdr td ss, w_offs := offs, w_nr := length ts'\<rparr>) si so ts' strs"
proof -
  have R: "unat (type_len (w_hdr w)) = length (types_bytes ts)" "length td0 < 2 ^ 32"
    using assms(1,2) by (simp_all add: wbtf_rep_def mem_rep_def)
  have "type_len (w_hdr w) = of_nat (length (types_bytes ts))" by (rule word_of_nat_unat_eq [OF R(1)])
  then have "type_len (w_hdr w) + of_nat n = of_nat (length (types_bytes ts'))" by (simp add: assms(5))
  then have "unat (type_len (w_hdr w) + of_nat n) = length (types_bytes ts')"
    using assms(3,6) R(2) by (simp add: of_nat_unat_u32)
  then show ?thesis using assms by (simp add: wbtf_rep_def mem_rep_def grow_types_def rd_bytes_def)
qed

lemma btf_append_result:
  assumes "chain_rep ws b" "btf_ok b" "name_clean name" "str_end b < 2 ^ 31"
    "\<And>off. body off = type_words (t off)" "\<And>off. length (type_words (t off)) = k" "n = 4 * k"
  shows "\<exists>r ws'. btf_append al ws name n body = Some (r, ws') \<and> length ws' = length ws \<and>
    (r = - ENOMEM \<and> short al (length ws) b name n \<and> (chain_rep ws' b \<or> chain_rep ws' (snd (intern_opt b name))) \<or>
     r = int (btf_type_cnt b) \<and> modifiable (hd ws') \<and> same_layout (w_hdr (hd ws)) (w_hdr (hd ws')) \<and>
       chain_rep ws' (with_types (\<lambda>ts. ts @ [t (of_nat (fst (intern_opt b name)))]) (snd (intern_opt b name))))"
proof (cases rule: btf_prepare_cases [OF assms(1-4), of al n, case_names oom ready])
  case (oom ws')
  then show ?thesis using ENOENT_neg by (simp add: btf_append_def)
next
  case (ready w bases hdr td ss)
  define off where "off = fst (intern_opt b name)"
  define b1 where "b1 = snd (intern_opt b name)"
  obtain base si ts so strs ps where b1: "b1 = Btf base si ts so strs ps" by (cases b1)
  have w: "wbtf_rep w si so ts strs" using ready(3) b1 by (simp add: b1_def)
  define p where "p = length (types_bytes ts)"
  have p: "unat (type_len (w_hdr w)) = p" "take p td = types_bytes ts" "length ts \<le> length (w_offs w)"
    "take (length ts) (w_offs w) = type_positions 0 ts" "w_nr w = length ts" "w_start_id w = si"
    using w ready(4) by (auto simp: wbtf_rep_def mem_rep_def p_def rd_bytes_eq)
  let ?t = "t (of_nat off)"
  have vs: "body (word_of_int (int off)) = type_words ?t" "length (type_words ?t) = k" using assms(5,6) by simp_all
  obtain td' where put: "put_words w p (type_words ?t) = Some (w\<lparr>w_mem := Regions hdr td' ss\<rparr>)" "length td' = length td"
    "take (p + 4 * k) td' = types_bytes ts @ words_bytes (type_words ?t)"
    using put_words_at_end [OF ready(4) p(2), of "type_words ?t"] ready(5) p(1) vs(2) assms(7) by (auto simp: p_def)
  define w1 where "w1 = w\<lparr>w_mem := Regions hdr td' ss\<rparr>"
  obtain e offs where idx: "btf_add_type_idx_entry (ok_idx (al (length bases))) (w_offs w) (length ts) p = (e, offs)" by fastforce
  have run: "btf_append al ws name n body = Some (if e \<noteq> 0 then (e, w1\<lparr>w_offs := offs\<rparr> # bases)
      else (int (si + length ts), (grow_types w1 n)\<lparr>w_offs := offs, w_nr := length ts + 1\<rparr> # bases))"
    using ready(1) put(1) vs(1) p idx by (simp add: btf_append_def btf_commit_type_def off_def w1_def Let_def)
  have cnt: "btf_type_cnt b = si + length ts"
    using intern_types(2,4) [of b name] b1 by (simp add: btf_type_cnt_def flip: b1_def)
  from add_type_idx_entry [OF idx p(3)] show ?thesis
  proof (elim disjE conjE)
    assume e: "e = - ENOMEM" "offs = w_offs w"
    have "BTF_MAX_NR_TYPES < length ts + 1 \<or> \<not> all_ok (al (length bases))"
      using add_type_idx_entry_fails [OF idx] e(1) ENOENT_neg by (auto simp: all_ok_def)
    moreover have "btf_types b = ts" using intern_types(2) [of b name] b1 by (simp flip: b1_def)
    ultimately have short: "short al (length ws) b name n"
      using short_alloc [of al "length bases" "length ws" b name n] ready(2) by (auto simp: short_def)
    have "take p td' = types_bytes ts" using arg_cong [OF put(3), of "take p"] by (simp add: p_def min_def)
    then have "wbtf_rep w1 si so ts strs"
      using w ready(4) put(2) by (auto simp: w1_def wbtf_rep_def mem_rep_def rd_bytes_eq p_def)
    then have "chain_rep (w1 # bases) b1" using ready(3) b1 by (simp add: b1_def)
    then show ?thesis using run e ready(2) ENOENT_neg short by (simp add: b1_def w1_def)
  next
    assume e: "e = 0" "length ts < length offs" "take (Suc (length ts)) offs = take (length ts) (w_offs w) @ [p]"
    have "wbtf_rep ((grow_types w n)\<lparr>w_mem := Regions hdr td' ss, w_offs := offs, w_nr := length (ts @ [?t])\<rparr>) si so (ts @ [?t]) strs"
      using w ready(4,5) put(2,3) e p vs(2) assms(7)
      by (intro grown_rep) (simp_all add: type_positions_snoc p_def)
    then have "chain_rep ((grow_types w n)\<lparr>w_mem := Regions hdr td' ss, w_offs := offs, w_nr := length ts + 1\<rparr> # bases)
        (with_types (\<lambda>ts. ts @ [?t]) b1)"
      using ready(3) b1 by (simp add: b1_def)
    then show ?thesis using run e(1) ready(2) cnt same_layout_trans [OF ready(6) same_layout_grow [of w n]]
      by (simp add: w1_def grow_types_mem off_def b1_def modifiable_def)
  qed
qed

section \<open>Changing the last type\<close>

lemma put_info_word:
  assumes "w_mem w = Regions hdr td ss" "take n td = bs @ words_bytes (x # y # rest)" "length bs = p"
  obtains td' where "put_words w (p + 4) [z] = Some (w\<lparr>w_mem := Regions hdr td' ss\<rparr>)" "length td' = length td"
    "take n td' = bs @ words_bytes (x # z # rest)"
proof -
  define post where "post = drop n td"
  have td: "td = (bs @ word_bytes x) @ word_bytes y @ words_bytes rest @ post"
    using assms(2) append_take_drop_id [of n td] by (simp add: post_def)
  have "wr td (p + 4) (word_bytes z) = Some ((bs @ word_bytes x) @ word_bytes z @ words_bytes rest @ post)"
    unfolding td using assms(3) by (intro wr_append) simp_all
  moreover have "length (words_bytes rest) + length bs + 8 = min n (length td)" using arg_cong [OF assms(2), of length] by simp
  then have "n = length bs + 8 + length (words_bytes rest) \<or> post = []" by (auto simp: post_def min_def split: if_splits)
  then have "take n (bs @ word_bytes x @ word_bytes z @ words_bytes rest @ post) = bs @ word_bytes x @ word_bytes z @ words_bytes rest"
    using assms(2) by (auto simp: post_def)
  ultimately show thesis
    using that [of "bs @ word_bytes x @ word_bytes z @ words_bytes rest @ post"] assms(1) td
    by (simp add: put_words_def)
qed

lemma last_position:
  assumes "take (length ts) offs = type_positions 0 ts" "ts = us @ [t]"
  shows "rd (take (length ts) offs) (length us) = Some (length (types_bytes us))"
  unfolding assms(1) by (simp add: assms(2) type_positions_snoc nth_append)

lemma set_type_info_last:
  assumes "chain_rep (w # bases) (Btf base si (us @ [t]) so strs ps)" "modifiable w"
  obtains w' where "set_type_info (w # bases) (int (si + length us)) i = Some (w' # bases)"
    "chain_rep (w' # bases) (Btf base si (us @ [t\<lparr>info := i\<rparr>]) so strs ps)" "w_hdr w' = w_hdr w" "modifiable w'"
proof -
  obtain hdr td ss where m: "w_mem w = Regions hdr td ss" using assms(2) by (auto simp: modifiable_def split: btf_mem.splits)
  have w: "wbtf_rep w si so (us @ [t]) strs" using assms(1) by simp
  define n where "n = length (types_bytes (us @ [t]))"
  have td: "take n td = types_bytes us @ words_bytes (name_off t # info t # size_type t # extra t)" "n \<le> length td"
    using w m by (auto simp: wbtf_rep_def mem_rep_def rd_bytes_eq n_def type_words_def)
  obtain td' where put: "put_words w (length (types_bytes us) + 4) [i] = Some (w\<lparr>w_mem := Regions hdr td' ss\<rparr>)"
    "length td' = length td" "take n td' = types_bytes us @ words_bytes (name_off t # i # size_type t # extra t)"
    using put_info_word [OF m td(1) refl] by blast
  have len: "length (types_bytes (us @ [t\<lparr>info := i\<rparr>])) = n" "type_positions 0 (us @ [t\<lparr>info := i\<rparr>]) = type_positions 0 (us @ [t])"
    by (simp_all add: n_def type_words_def type_positions_snoc)
  have R: "take (length (us @ [t])) (w_offs w) = type_positions 0 (us @ [t])" "w_nr w = length (us @ [t])" "w_start_id w = si"
    using w by (simp_all add: wbtf_rep_def)
  have "rd (take (w_nr w) (w_offs w)) (nat (int (si + length us)) - w_start_id w) = Some (length (types_bytes us))"
    using last_position [OF R(1) refl] unfolding R(2,3) nat_int by simp
  then have "set_type_info (w # bases) (int (si + length us)) i = Some (w\<lparr>w_mem := Regions hdr td' ss\<rparr> # bases)"
    using put(1) by (simp add: set_type_info_def del: of_nat_add)
  moreover have "wbtf_rep (w\<lparr>w_mem := Regions hdr td' ss\<rparr>) si so (us @ [t\<lparr>info := i\<rparr>]) strs"
    using w m put(2,3) td(2) len unfolding n_def
    by (simp add: wbtf_rep_def mem_rep_def rd_bytes_eq type_words_def)
  ultimately show thesis using that assms(1) by (simp add: modifiable_def)
qed

lemma btf_last_type_result:
  assumes "wbtf_rep w si so ts strs" "ts = us @ [t]"
  shows "btf_last_type w = Some (t\<lparr>extra := []\<rparr>, length (types_bytes us))"
proof -
  have R: "take (length ts) (w_offs w) = type_positions 0 ts" "w_nr w = length ts" using assms(1) by (simp_all add: wbtf_rep_def)
  have hdr: "type_hdr_at raw (p + length (types_bytes us)) = Some (t\<lparr>extra := []\<rparr>)"
    if "rd_bytes raw p (length (types_bytes ts)) = Some (types_bytes ts)" for raw p
  proof -
    define pre post where "pre = take p raw" and "post = drop (p + length (types_bytes ts)) raw"
    have "raw = pre @ types_bytes ts @ post" "length pre = p"
      using that append_take_drop_id [of "length (types_bytes ts)" "drop p raw"]
      by (auto simp: rd_bytes_eq pre_def post_def add.commute)
    then have "raw = (pre @ types_bytes us) @ words_bytes (type_words t) @ post" by (simp add: assms(2))
    then show ?thesis using type_hdr_at_type [of "pre @ types_bytes us" t post] \<open>length pre = p\<close> by simp
  qed
  have "(case w_mem w of Whole raw types strs \<Rightarrow> type_hdr_at raw (types + length (types_bytes us))
      | Regions hdr td ss \<Rightarrow> type_hdr_at td (length (types_bytes us))) = Some (t\<lparr>extra := []\<rparr>)"
    using assms(1) hdr hdr [of _ 0] by (auto simp: wbtf_rep_def mem_rep_def split: btf_mem.splits)
  then show ?thesis unfolding btf_last_type_def using last_position [OF R(1) assms(2)] R(2) assms(2) by simp
qed

lemma check_last_result:
  assumes "chain_rep ws b" "\<And>t vs. ok (t\<lparr>extra := vs\<rparr>) = ok t"
  shows "check_last ws ok = Some (btf_types b \<noteq> [] \<and> ok (last (btf_types b)))"
proof (cases ws)
  case (Cons w bases)
  obtain base si ts so strs ps where b: "b = Btf base si ts so strs ps" by (cases b)
  have w: "wbtf_rep w si so ts strs" using assms(1) Cons b by simp
  show ?thesis
  proof (cases ts rule: rev_cases)
    case Nil
    then show ?thesis using w by (simp add: check_last_def Cons b wbtf_rep_def)
  next
    case (snoc us t)
    then have "w_nr w \<noteq> 0" using w by (simp add: wbtf_rep_def)
    then show ?thesis using btf_last_type_result [OF w snoc] assms(2) snoc by (simp add: check_last_def Cons b)
  qed
qed (use assms in simp)

definition extend_last :: "u32 \<Rightarrow> u32 list \<Rightarrow> btf_type list \<Rightarrow> btf_type list" where
  "extend_last i vs ts = butlast ts @ [(last ts)\<lparr>info := i, extra := extra (last ts) @ vs\<rparr>]"

lemma btf_extend_result:
  assumes "chain_rep ws b" "btf_ok b" "name_clean name" "str_end b < 2 ^ 31" "btf_types b \<noteq> []"
    "\<And>off. length (body off) = k" "n = 4 * k" "\<And>t vs. upd (t\<lparr>extra := vs\<rparr>) = upd t"
  shows "\<exists>r ws'. btf_extend al ws name n body upd = Some (r, ws') \<and> length ws' = length ws \<and>
    (r = - ENOMEM \<and> short al (length ws) b name n \<and> chain_rep ws' b \<or>
     r = 0 \<and> modifiable (hd ws') \<and> same_layout (w_hdr (hd ws)) (w_hdr (hd ws')) \<and>
       chain_rep ws' (with_types (extend_last (upd (last (btf_types b))) (body (of_nat (fst (intern_opt b name)))))
       (snd (intern_opt b name))))"
proof (cases rule: btf_prepare_cases [OF assms(1-4), of al n, case_names oom ready])
  case (oom ws')
  then show ?thesis using ENOENT_neg by (simp add: btf_extend_def)
next
  case (ready w bases hdr td ss)
  define off where "off = fst (intern_opt b name)"
  define b1 where "b1 = snd (intern_opt b name)"
  obtain base si ts so strs ps where b1: "b1 = Btf base si ts so strs ps" by (cases b1)
  have ts: "btf_types b = ts" using intern_types(2) [of b name] b1 by (simp flip: b1_def)
  obtain us t where ut: "ts = us @ [t]" using assms(5) ts by (cases ts rule: rev_cases) auto
  have w: "wbtf_rep w si so ts strs" using ready(3) b1 by (simp add: b1_def)
  define p where "p = length (types_bytes ts)"
  have p: "unat (type_len (w_hdr w)) = p" "take p td = types_bytes ts" "length ts \<le> length (w_offs w)"
    "take (length ts) (w_offs w) = type_positions 0 ts" "w_nr w = length ts"
    using w ready(4) by (auto simp: wbtf_rep_def mem_rep_def p_def rd_bytes_eq)
  define vs where "vs = body (word_of_int (int off))"
  have vs: "length vs = k" "body (of_nat off) = vs" using assms(6) by (simp_all add: vs_def)
  obtain td1 where put: "put_words w p vs = Some (w\<lparr>w_mem := Regions hdr td1 ss\<rparr>)" "length td1 = length td"
    "take (p + 4 * k) td1 = types_bytes ts @ words_bytes vs"
    using put_words_at_end [OF ready(4) p(2), of vs] ready(5) p(1) vs(1) assms(7) by (auto simp: p_def)
  define w1 where "w1 = w\<lparr>w_mem := Regions hdr td1 ss\<rparr>"
  have "take p td1 = types_bytes ts" using arg_cong [OF put(3), of "take p"] by (simp add: p_def min_def)
  then have w1: "wbtf_rep w1 si so ts strs"
    using w ready(4) put(2) by (auto simp: w1_def wbtf_rep_def mem_rep_def rd_bytes_eq p_def)
  note last = btf_last_type_result [OF w1 ut]
  define i where "i = upd t"
  have i: "upd (t\<lparr>extra := []\<rparr>) = i" using assms(8) by (simp add: i_def)
  have m1: "w_mem w1 = Regions hdr td1 ss" by (simp add: w1_def)
  have "take (p + 4 * k) td1 = types_bytes us @ words_bytes (name_off t # info t # size_type t # extra t @ vs)"
    using put(3) ut by (simp add: type_words_def)
  from put_info_word [OF m1 this refl] obtain td2 where
    put2: "put_words w1 (length (types_bytes us) + 4) [i] = Some (w1\<lparr>w_mem := Regions hdr td2 ss\<rparr>)" "length td2 = length td1"
    "take (p + 4 * k) td2 = types_bytes us @ words_bytes (name_off t # i # size_type t # extra t @ vs)" by blast
  define ts' where "ts' = us @ [t\<lparr>info := i, extra := extra t @ vs\<rparr>]"
  define w2 where "w2 = grow_types (w1\<lparr>w_mem := Regions hdr td2 ss\<rparr>) n"
  have run: "btf_extend al ws name n body upd = Some (0, w2 # bases)"
    using ready(1) put(1) p(1) last put2(1) i vs
    by (simp add: btf_extend_def off_def [symmetric] w2_def w1_def [symmetric])
  have len: "length (types_bytes ts') = length (types_bytes ts) + n" "type_positions 0 ts' = type_positions 0 ts"
    "length ts' = length ts" using vs(1) assms(7) by (simp_all add: ts'_def ut type_words_def type_positions_snoc)
  have td2: "take (length (types_bytes ts')) td2 = types_bytes ts'"
    unfolding len(1) assms(7) using put2(3) by (simp add: p_def ts'_def type_words_def)
  have "wbtf_rep ((grow_types w n)\<lparr>w_mem := Regions hdr td2 ss, w_offs := w_offs w, w_nr := length ts'\<rparr>) si so ts' strs"
    using w ready(4,5) put(2) put2(2) td2 p len(1-3) by (intro grown_rep) (simp_all add: p_def)
  moreover have "(grow_types w n)\<lparr>w_mem := Regions hdr td2 ss, w_offs := w_offs w, w_nr := length ts'\<rparr> = w2"
    using p(5) len(3) by (cases w) (simp add: w2_def w1_def grow_types_def)
  ultimately have "chain_rep (w2 # bases) (with_types (extend_last i vs) b1)"
    using ready(3) b1 by (simp add: b1_def extend_last_def ut ts'_def)
  moreover have "same_layout (w_hdr (hd ws)) (w_hdr w2)"
    using same_layout_trans [OF ready(6) same_layout_grow [of w n]] by (simp add: w2_def w1_def grow_types_mem)
  moreover have "modifiable w2" by (simp add: w2_def grow_types_mem modifiable_def)
  ultimately show ?thesis using run ready(2) ts ut vs by (simp add: b1_def off_def i_def)
qed

section \<open>The requests\<close>

text \<open>A call of one of the functions with its arguments.\<close>

datatype btf_req =
  Add_int "u8 list option" u64 int
| Add_float "u8 list option" u64
| Add_ptr int
| Add_array int int u32
| Add_struct "u8 list option" u32
| Add_union "u8 list option" u32
| Add_field "u8 list option" int u32 u32
| Add_enum "u8 list option" u32
| Add_enum_value "u8 list option" int
| Add_fwd "u8 list option" nat
| Add_typedef "u8 list option" int
| Add_volatile int
| Add_const int
| Add_restrict int
| Add_type_tag "u8 list option" int
| Add_func "u8 list option" nat int
| Add_func_proto int
| Add_func_param "u8 list option" int
| Add_var "u8 list option" int int
| Add_datasec "u8 list option" u32
| Add_datasec_var_info int u32 u32
| Add_decl_tag "u8 list option" int int

fun btf_request :: "(nat \<Rightarrow> alloc_ok) \<Rightarrow> wbtf list \<Rightarrow> btf_req \<Rightarrow> (int \<times> wbtf list) option" where
  "btf_request al ws (Add_int name bsz enc) = btf_add_int al ws name bsz enc"
| "btf_request al ws (Add_float name bsz) = btf_add_float al ws name bsz"
| "btf_request al ws (Add_ptr i) = btf_add_ptr al ws i"
| "btf_request al ws (Add_array i e n) = btf_add_array al ws i e n"
| "btf_request al ws (Add_struct name bsz) = btf_add_struct al ws name bsz"
| "btf_request al ws (Add_union name bsz) = btf_add_union al ws name bsz"
| "btf_request al ws (Add_field name i off bits) = btf_add_field al ws name i off bits"
| "btf_request al ws (Add_enum name bsz) = btf_add_enum al ws name bsz"
| "btf_request al ws (Add_enum_value name v) = btf_add_enum_value al ws name v"
| "btf_request al ws (Add_fwd name k) = btf_add_fwd al ws name k"
| "btf_request al ws (Add_typedef name i) = btf_add_typedef al ws name i"
| "btf_request al ws (Add_volatile i) = btf_add_volatile al ws i"
| "btf_request al ws (Add_const i) = btf_add_const al ws i"
| "btf_request al ws (Add_restrict i) = btf_add_restrict al ws i"
| "btf_request al ws (Add_type_tag name i) = btf_add_type_tag al ws name i"
| "btf_request al ws (Add_func name l i) = btf_add_func al ws name l i"
| "btf_request al ws (Add_func_proto i) = btf_add_func_proto al ws i"
| "btf_request al ws (Add_func_param name i) = btf_add_func_param al ws name i"
| "btf_request al ws (Add_var name l i) = btf_add_var al ws name l i"
| "btf_request al ws (Add_datasec name bsz) = btf_add_datasec al ws name bsz"
| "btf_request al ws (Add_datasec_var_info i off bsz) = btf_add_datasec_var_info al ws i off bsz"
| "btf_request al ws (Add_decl_tag name i c) = btf_add_decl_tag al ws name i c"

text \<open>
  What a request asks for: an error, or a name and a change, either a new type or more words for
  the last one and its new information word, both depending on the offset of the name.
\<close>

datatype effect =
  NewType "u32 \<Rightarrow> btf_type"
| LastType u32 "u32 \<Rightarrow> u32 list"

definition new_type :: "nat \<Rightarrow> nat \<Rightarrow> bool \<Rightarrow> u32 \<Rightarrow> u32 list \<Rightarrow> effect" where
  "new_type k v f st ex = NewType (\<lambda>off. \<lparr>name_off = off, info = btf_type_info k v f, size_type = st, extra = ex\<rparr>)"

definition last_is :: "btf_type list \<Rightarrow> nat list \<Rightarrow> bool" where
  "last_is ts ks \<longleftrightarrow> ts \<noteq> [] \<and> btf_kind (last ts) \<in> set ks"

definition id_ok :: "int \<Rightarrow> bool" where
  "id_ok i \<longleftrightarrow> 0 \<le> i \<and> i \<le> 0x7fffffff"

definition is_bitfield :: "u32 \<Rightarrow> u32 \<Rightarrow> bool" where
  "is_bitfield off bits \<longleftrightarrow> bits \<noteq> 0 \<or> off mod 8 \<noteq> 0"

definition field_ok :: "btf_type \<Rightarrow> u32 \<Rightarrow> u32 \<Rightarrow> bool" where
  "field_ok t off bits \<longleftrightarrow>
     (is_bitfield off bits \<longrightarrow> 0 < bits \<and> bits < 256 \<and> off < 0x1000000) \<and>
     (btf_kind t = BTF_KIND_UNION \<longrightarrow> off = 0)"

definition asks :: "bool \<Rightarrow> u8 list option \<Rightarrow> effect \<Rightarrow> int + (u8 list option \<times> effect)" where
  "asks ok name eff = (if ok then Inr (name, eff) else Inl (- EINVAL))"

fun request_effect :: "btf_type list \<Rightarrow> btf_req \<Rightarrow> int + (u8 list option \<times> effect)" where
  "request_effect ts (Add_int name bsz enc) =
     asks (\<not> no_name name \<and> bsz \<in> {1, 2, 4, 8, 16} \<and> word_of_int enc < (8 :: u32)) name
       (new_type BTF_KIND_INT 0 False (ucast bsz) [push_bit 24 (word_of_int enc) OR ucast (bsz * 8)])"
| "request_effect ts (Add_float name bsz) =
     asks (\<not> no_name name \<and> bsz \<in> {2, 4, 8, 12, 16}) name (new_type BTF_KIND_FLOAT 0 False (ucast bsz) [])"
| "request_effect ts (Add_ptr i) = asks (id_ok i) None (new_type BTF_KIND_PTR 0 False (word_of_int i) [])"
| "request_effect ts (Add_array i e n) =
     asks (id_ok i \<and> id_ok e) None (new_type BTF_KIND_ARRAY 0 False 0 [word_of_int e, word_of_int i, n])"
| "request_effect ts (Add_struct name bsz) = asks True name (new_type BTF_KIND_STRUCT 0 False bsz [])"
| "request_effect ts (Add_union name bsz) = asks True name (new_type BTF_KIND_UNION 0 False bsz [])"
| "request_effect ts (Add_field name i off bits) =
     asks (last_is ts [BTF_KIND_STRUCT, BTF_KIND_UNION] \<and> id_ok i \<and> field_ok (last ts) off bits) name
       (LastType (btf_type_info (btf_kind (last ts)) (btf_vlen (last ts) + 1) (is_bitfield off bits \<or> btf_kflag (last ts)))
         (\<lambda>n. [n, word_of_int i, off OR push_bit 24 bits]))"
| "request_effect ts (Add_enum name bsz) =
     asks (bsz \<in> {1, 2, 4, 8}) name (new_type BTF_KIND_ENUM 0 False bsz [])"
| "request_effect ts (Add_enum_value name v) =
     (if last_is ts [BTF_KIND_ENUM] \<and> \<not> no_name name \<and> (v < - (2 ^ 31) \<or> 2 ^ 32 \<le> v) then Inl (- E2BIG)
      else asks (last_is ts [BTF_KIND_ENUM] \<and> \<not> no_name name) name
        (LastType (btf_type_inc_vlen (last ts)) (\<lambda>n. [n, word_of_int v])))"
| "request_effect ts (Add_fwd name k) =
     (if k = BTF_FWD_ENUM then asks (\<not> no_name name) name (new_type BTF_KIND_ENUM 0 False 4 [])
      else asks (\<not> no_name name \<and> k \<in> {BTF_FWD_STRUCT, BTF_FWD_UNION}) name
        (new_type BTF_KIND_FWD 0 (k = BTF_FWD_UNION) 0 []))"
| "request_effect ts (Add_typedef name i) =
     asks (\<not> no_name name \<and> id_ok i) name (new_type BTF_KIND_TYPEDEF 0 False (word_of_int i) [])"
| "request_effect ts (Add_volatile i) = asks (id_ok i) None (new_type BTF_KIND_VOLATILE 0 False (word_of_int i) [])"
| "request_effect ts (Add_const i) = asks (id_ok i) None (new_type BTF_KIND_CONST 0 False (word_of_int i) [])"
| "request_effect ts (Add_restrict i) = asks (id_ok i) None (new_type BTF_KIND_RESTRICT 0 False (word_of_int i) [])"
| "request_effect ts (Add_type_tag name i) =
     asks (\<not> no_name name \<and> id_ok i) name (new_type BTF_KIND_TYPE_TAG 0 False (word_of_int i) [])"
| "request_effect ts (Add_func name l i) =
     asks (\<not> no_name name \<and> l \<in> {BTF_FUNC_STATIC, BTF_FUNC_GLOBAL, BTF_FUNC_EXTERN} \<and> id_ok i) name
       (new_type BTF_KIND_FUNC l False (word_of_int i) [])"
| "request_effect ts (Add_func_proto i) = asks (id_ok i) None (new_type BTF_KIND_FUNC_PROTO 0 False (word_of_int i) [])"
| "request_effect ts (Add_func_param name i) =
     asks (last_is ts [BTF_KIND_FUNC_PROTO] \<and> id_ok i) name
       (LastType (btf_type_inc_vlen (last ts)) (\<lambda>n. [n, word_of_int i]))"
| "request_effect ts (Add_var name l i) =
     asks (\<not> no_name name \<and> l \<in> {BTF_VAR_STATIC, BTF_VAR_GLOBAL_ALLOCATED, BTF_VAR_GLOBAL_EXTERN} \<and> id_ok i) name
       (new_type BTF_KIND_VAR 0 False (word_of_int i) [word_of_int l])"
| "request_effect ts (Add_datasec name bsz) = asks (\<not> no_name name) name (new_type BTF_KIND_DATASEC 0 False bsz [])"
| "request_effect ts (Add_datasec_var_info i off bsz) =
     asks (last_is ts [BTF_KIND_DATASEC] \<and> id_ok i) None
       (LastType (btf_type_inc_vlen (last ts)) (\<lambda>n. [word_of_int i, off, bsz]))"
| "request_effect ts (Add_decl_tag name i c) =
     asks (\<not> no_name name \<and> - 1 \<le> c \<and> id_ok i) name
       (new_type BTF_KIND_DECL_TAG 0 False (word_of_int i) [word_of_int c])"

text \<open>The BTF after a change, and what the function returns.\<close>

definition effect_types :: "effect \<Rightarrow> u32 \<Rightarrow> btf_type list \<Rightarrow> btf_type list" where
  "effect_types eff off =
     (case eff of NewType t \<Rightarrow> (\<lambda>ts. ts @ [t off]) | LastType i vs \<Rightarrow> extend_last i (vs off))"

definition effect_on :: "btf \<Rightarrow> u8 list option \<Rightarrow> effect \<Rightarrow> btf" where
  "effect_on b name eff = with_types (effect_types eff (of_nat (fst (intern_opt b name)))) (snd (intern_opt b name))"

definition effect_ret :: "btf \<Rightarrow> effect \<Rightarrow> int" where
  "effect_ret b eff = (case eff of NewType _ \<Rightarrow> int (btf_type_cnt b) | LastType _ _ \<Rightarrow> 0)"

text \<open>The bytes a change adds to the types.\<close>

definition effect_size :: "effect \<Rightarrow> nat" where
  "effect_size eff = 4 * (case eff of NewType t \<Rightarrow> length (type_words (t 0)) | LastType i vs \<Rightarrow> length (vs 0))"

text \<open>
  How a call ends that carries out a change: the change is made, or memory has run out, for a
  reason, and nothing but the name has been added.
\<close>

definition performs :: "(nat \<Rightarrow> alloc_ok) \<Rightarrow> wbtf list \<Rightarrow> btf \<Rightarrow> u8 list option \<Rightarrow> effect \<Rightarrow>
    (int \<times> wbtf list) option \<Rightarrow> bool" where
  "performs al ws b name eff res \<longleftrightarrow>
     (\<exists>r ws'. res = Some (r, ws') \<and> length ws' = length ws \<and>
       (r = - ENOMEM \<and> short al (length ws) b name (effect_size eff) \<and>
          (chain_rep ws' b \<or> chain_rep ws' (snd (intern_opt b name))) \<or>
        r = effect_ret b eff \<and> modifiable (hd ws') \<and> same_layout (w_hdr (hd ws)) (w_hdr (hd ws')) \<and> chain_rep ws' (effect_on b name eff)))"

definition req_clean :: "btf_type list \<Rightarrow> btf_req \<Rightarrow> bool" where
  "req_clean ts req \<longleftrightarrow> (case request_effect ts req of Inl _ \<Rightarrow> True | Inr (name, eff) \<Rightarrow> name_clean name)"

definition fulfils :: "(nat \<Rightarrow> alloc_ok) \<Rightarrow> wbtf list \<Rightarrow> btf \<Rightarrow> btf_req \<Rightarrow> bool" where
  "fulfils al ws b req \<longleftrightarrow>
     (case request_effect (btf_types b) req of
        Inl e \<Rightarrow> btf_request al ws req = Some (e, ws)
      | Inr (name, eff) \<Rightarrow> performs al ws b name eff (btf_request al ws req))"

section \<open>Every request does what it asks for\<close>

definition state_ok :: "wbtf list \<Rightarrow> btf \<Rightarrow> bool" where
  "state_ok ws b \<longleftrightarrow> chain_rep ws b \<and> btf_ok b \<and> str_end b < 2 ^ 31"

lemma fulfilsI:
  assumes "request_effect (btf_types b) req = asks good name eff" "req_clean (btf_types b) req"
    "\<not> good \<Longrightarrow> btf_request al ws req = Some (- EINVAL, ws)"
    "good \<Longrightarrow> name_clean name \<Longrightarrow> performs al ws b name eff (btf_request al ws req)"
  shows "fulfils al ws b req"
  using assms by (simp add: fulfils_def asks_def req_clean_def split: if_splits)

lemma performs_new:
  assumes "state_ok ws b" "name_clean name" "n = 12 + 4 * length ex" "body = (\<lambda>off. [off, btf_type_info k v f, st] @ ex)"
  shows "performs al ws b name (new_type k v f st ex) (btf_append al ws name n body)"
  using btf_append_result [of ws b name body "\<lambda>off. \<lparr>name_off = off, info = btf_type_info k v f, size_type = st, extra = ex\<rparr>"
      "3 + length ex" n al] assms
  by (auto simp: performs_def state_ok_def new_type_def effect_on_def effect_types_def effect_ret_def type_words_def effect_size_def)

lemma performs_last:
  assumes "state_ok ws b" "name_clean name" "btf_types b \<noteq> []" "\<And>off. length (vs off) = k" "n = 4 * k"
    "\<And>t ex. upd (t\<lparr>extra := ex\<rparr>) = upd t" "i = upd (last (btf_types b))"
  shows "performs al ws b name (LastType i vs) (btf_extend al ws name n vs upd)"
  using btf_extend_result [of ws b name vs k n upd al] assms
  by (auto simp: performs_def state_ok_def effect_on_def effect_types_def effect_ret_def effect_size_def)

lemma performs_ref:
  assumes "state_ok ws b" "name_clean name" "id_ok i"
  shows "performs al ws b name (new_type k 0 False (word_of_int i) []) (btf_add_ref_kind al ws k name i)"
  using assms by (auto simp: btf_add_ref_kind_def validate_type_id_def id_ok_def c_consts intro!: performs_new)

lemma ref_bad: "\<not> id_ok i \<Longrightarrow> btf_add_ref_kind al ws k name i = Some (- EINVAL, ws)"
  by (auto simp: btf_add_ref_kind_def validate_type_id_def id_ok_def c_consts)

lemma validate_iff: "validate_type_id i = 0 \<longleftrightarrow> id_ok i"
  by (auto simp: validate_type_id_def id_ok_def c_consts)

text \<open>Adding a type and then replacing its information word.\<close>

lemma performs_new_info:
  assumes "state_ok ws b" "name_clean name" "id_ok i"
    and res: "res = do {
      (type_id, ws) \<leftarrow> btf_add_ref_kind al ws k name i;
      if type_id \<le> 0 then Some (type_id, ws)
      else do { ws \<leftarrow> set_type_info ws type_id (btf_type_info k v f); Some (type_id, ws) }
    }"
  shows "performs al ws b name (new_type k v f (word_of_int i) []) res"
proof -
  obtain r ws' where run: "btf_add_ref_kind al ws k name i = Some (r, ws')" "length ws' = length ws"
    "r = - ENOMEM \<and> short al (length ws) b name (effect_size (new_type k v f (word_of_int i) [])) \<and>
       (chain_rep ws' b \<or> chain_rep ws' (snd (intern_opt b name))) \<or>
     r = int (btf_type_cnt b) \<and> same_layout (w_hdr (hd ws)) (w_hdr (hd ws')) \<and> modifiable (hd ws') \<and>
       chain_rep ws' (effect_on b name (new_type k 0 False (word_of_int i) []))"
    using btf_append_result [of ws b name "\<lambda>off. [off, btf_type_info k 0 False, word_of_int i]"
        "\<lambda>off. \<lparr>name_off = off, info = btf_type_info k 0 False, size_type = word_of_int i, extra = []\<rparr>" 3 12 al] assms
    by (auto simp: btf_add_ref_kind_def validate_iff state_ok_def type_words_def effect_on_def effect_types_def new_type_def effect_size_def)
  have pos: "0 < btf_type_cnt b" using assms(1) btf_ok_start [of b] by (simp add: state_ok_def btf_type_cnt_def)
  from run(3) show ?thesis
  proof (elim disjE conjE)
    assume r: "r = int (btf_type_cnt b)" "same_layout (w_hdr (hd ws)) (w_hdr (hd ws'))" "modifiable (hd ws')"
      "chain_rep ws' (effect_on b name (new_type k 0 False (word_of_int i) []))"
    obtain base si ts so strs ps where b1: "snd (intern_opt b name) = Btf base si ts so strs ps"
      by (cases "snd (intern_opt b name)")
    have cnt: "btf_type_cnt b = si + length ts"
      using intern_types(2,4) [of b name] b1 by (simp add: btf_type_cnt_def)
    obtain w bases where ws': "ws' = w # bases" using r(4) by (cases ws') auto
    define t where "t = \<lparr>name_off = of_nat (fst (intern_opt b name)), info = btf_type_info k 0 False,
      size_type = word_of_int i, extra = []\<rparr>"
    have "chain_rep (w # bases) (Btf base si (ts @ [t]) so strs ps)"
      using r(4) ws' b1 by (simp add: effect_on_def effect_types_def new_type_def t_def)
    from set_type_info_last [OF this, of "btf_type_info k v f"] r(3) ws' obtain w' where
      w': "set_type_info (w # bases) (int (si + length ts)) (btf_type_info k v f) = Some (w' # bases)"
      "chain_rep (w' # bases) (Btf base si (ts @ [t\<lparr>info := btf_type_info k v f\<rparr>]) so strs ps)" "w_hdr w' = w_hdr w" "modifiable w'" by auto
    have r': "\<not> r \<le> 0" "r = int (si + length ts)" using r(1) pos by (linarith, simp add: cnt)
    then have "res = Some (r, w' # bases)" using w'(1) by (auto simp: res run(1) ws' simp del: of_nat_add)
    moreover have "chain_rep (w' # bases) (effect_on b name (new_type k v f (word_of_int i) []))"
      using w'(2) b1 by (simp add: effect_on_def effect_types_def new_type_def t_def)
    ultimately show ?thesis using r(1,2) w'(3,4) ws' run(2)
      by (simp add: performs_def effect_ret_def new_type_def)
  qed (use run(1,2) ENOENT_neg in \<open>auto simp: performs_def res\<close>)
qed

text \<open>The checks of the C code as sets of values.\<close>

lemma power_of_2_u64:
  fixes w :: u64
  shows "w = 0 \<or> w AND (w - 1) \<noteq> 0 \<or> w > 16 \<longleftrightarrow> w \<notin> {1, 2, 4, 8, 16}"
proof (cases "w \<le> 16")
  case True
  then have "unat w \<le> 16" by (simp add: word_le_nat_alt)
  then have "unat w \<in> {..16}" by simp
  also have "{..16} = set [0..<17]" by auto
  finally have "w \<in> set (map of_nat [0..<17])" by (metis image_eqI list.set_map of_nat_unat ucast_id)
  then show ?thesis by (simp add: upt_rec) auto
qed auto

lemma power_of_2_u32:
  fixes w :: u32
  shows "w = 0 \<or> w AND (w - 1) \<noteq> 0 \<or> w > 8 \<longleftrightarrow> w \<notin> {1, 2, 4, 8}"
proof (cases "w \<le> 8")
  case True
  then have "unat w \<le> 8" by (simp add: word_le_nat_alt)
  then have "unat w \<in> {..8}" by simp
  also have "{..8} = set [0..<9]" by auto
  finally have "w \<in> set (map of_nat [0..<9])" by (metis image_eqI list.set_map of_nat_unat ucast_id)
  then show ?thesis by (simp add: upt_rec) auto
qed auto

lemma int_encoding_bits: "w AND NOT (BTF_INT_SIGNED OR BTF_INT_CHAR OR BTF_INT_BOOL) = 0 \<longleftrightarrow> w < 8"
proof -
  have "BTF_INT_SIGNED OR BTF_INT_CHAR OR BTF_INT_BOOL = mask 3" by (simp add: c_consts mask_eq_exp_minus_1)
  moreover have "w AND NOT (mask 3) = 0 \<longleftrightarrow> take_bit 3 w = w"
    by (auto simp: bit_eq_iff bit_simps)
  moreover have "take_bit 3 w = w \<longleftrightarrow> w < 8"
    by (simp add: word_unat_eq_iff unsigned_take_bit_eq take_bit_nat_eq_self_iff word_less_nat_alt)
  ultimately show ?thesis by simp
qed

lemma fulfils_int:
  assumes "state_ok ws b" "req_clean (btf_types b) (Add_int name n enc)"
  shows "fulfils al ws b (Add_int name n enc)"
proof (rule fulfilsI [OF request_effect.simps(1) assms(2)])
  let ?good = "\<not> no_name name \<and> n \<in> {1, 2, 4, 8, 16} \<and> word_of_int enc < (8 :: u32)"
  have eq: "btf_request al ws (Add_int name n enc) = (if ?good then btf_append al ws name (12 + 4) (\<lambda>off.
      [off, btf_type_info BTF_KIND_INT 0 False, ucast n, push_bit 24 (word_of_int enc) OR ucast (n * 8)])
      else Some (- EINVAL, ws))"
    unfolding btf_request.simps btf_add_int_def power_of_2_u64 int_encoding_bits by (simp cong: if_cong)
  show "btf_request al ws (Add_int name n enc) = Some (- EINVAL, ws)" if "\<not> ?good"
    unfolding eq if_not_P [OF that] ..
  show "performs al ws b name (new_type BTF_KIND_INT 0 False (ucast n) [push_bit 24 (word_of_int enc) OR ucast (n * 8)])
      (btf_request al ws (Add_int name n enc))" if "?good" "name_clean name"
    unfolding eq if_P [OF that(1)] by (rule performs_new [OF assms(1) that(2)]) simp_all
qed

lemma fulfils_new:
  assumes "state_ok ws b"
  shows "req_clean (btf_types b) (Add_float name n) \<Longrightarrow> fulfils al ws b (Add_float name n)"
    "req_clean (btf_types b) (Add_array i e m) \<Longrightarrow> fulfils al ws b (Add_array i e m)"
    "req_clean (btf_types b) (Add_struct name m) \<Longrightarrow> fulfils al ws b (Add_struct name m)"
    "req_clean (btf_types b) (Add_union name m) \<Longrightarrow> fulfils al ws b (Add_union name m)"
    "req_clean (btf_types b) (Add_func_proto i) \<Longrightarrow> fulfils al ws b (Add_func_proto i)"
    "req_clean (btf_types b) (Add_var name l i) \<Longrightarrow> fulfils al ws b (Add_var name l i)"
    "req_clean (btf_types b) (Add_datasec name m) \<Longrightarrow> fulfils al ws b (Add_datasec name m)"
    "req_clean (btf_types b) (Add_decl_tag name i c) \<Longrightarrow> fulfils al ws b (Add_decl_tag name i c)"
  by (rule fulfilsI, rule request_effect.simps, assumption;
      auto simp: btf_add_float_def btf_add_array_def btf_add_struct_def btf_add_union_def btf_add_composite_def
        btf_add_func_proto_def btf_add_var_def btf_add_datasec_def btf_add_decl_tag_def validate_iff
        intro!: performs_new [OF assms])+

lemma fulfils_ref:
  assumes "state_ok ws b"
  shows "req_clean (btf_types b) (Add_ptr i) \<Longrightarrow> fulfils al ws b (Add_ptr i)"
    "req_clean (btf_types b) (Add_typedef name i) \<Longrightarrow> fulfils al ws b (Add_typedef name i)"
    "req_clean (btf_types b) (Add_volatile i) \<Longrightarrow> fulfils al ws b (Add_volatile i)"
    "req_clean (btf_types b) (Add_const i) \<Longrightarrow> fulfils al ws b (Add_const i)"
    "req_clean (btf_types b) (Add_restrict i) \<Longrightarrow> fulfils al ws b (Add_restrict i)"
    "req_clean (btf_types b) (Add_type_tag name i) \<Longrightarrow> fulfils al ws b (Add_type_tag name i)"
  by (rule fulfilsI, rule request_effect.simps, assumption;
      auto simp: btf_add_ptr_def btf_add_typedef_def btf_add_volatile_def btf_add_const_def btf_add_restrict_def
        btf_add_type_tag_def ref_bad intro!: performs_ref [OF assms])+

lemma add_enum_performs:
  assumes "state_ok ws b"
  shows "n \<notin> {1, 2, 4, 8} \<Longrightarrow> btf_add_enum al ws name n = Some (- EINVAL, ws)"
    "n \<in> {1, 2, 4, 8} \<Longrightarrow> name_clean name \<Longrightarrow>
       performs al ws b name (new_type BTF_KIND_ENUM 0 False n []) (btf_add_enum al ws name n)"
  unfolding btf_add_enum_def power_of_2_u32 by (simp, auto intro!: performs_new [OF assms])

lemma fulfils_enum:
  assumes "state_ok ws b" "req_clean (btf_types b) (Add_enum name n)"
  shows "fulfils al ws b (Add_enum name n)"
  by (rule fulfilsI [OF request_effect.simps(8) assms(2)]; unfold btf_request.simps)
    (rule add_enum_performs [OF assms(1)]; assumption)+

lemma fulfils_fwd:
  assumes "state_ok ws b" "req_clean (btf_types b) (Add_fwd name k)"
  shows "fulfils al ws b (Add_fwd name k)"
proof (cases "k = BTF_FWD_ENUM")
  case True
  then have "request_effect (btf_types b) (Add_fwd name k) = asks (\<not> no_name name) name (new_type BTF_KIND_ENUM 0 False 4 [])"
    by simp
  then show ?thesis using assms(2)
    by (rule fulfilsI) (use True add_enum_performs(2) [OF assms(1), of 4 name] in \<open>auto simp: btf_add_fwd_def c_consts\<close>)
next
  case False
  then have eff: "request_effect (btf_types b) (Add_fwd name k) =
      asks (\<not> no_name name \<and> k \<in> {BTF_FWD_STRUCT, BTF_FWD_UNION}) name (new_type BTF_KIND_FWD 0 (k = BTF_FWD_UNION) 0 [])"
    by simp
  show ?thesis
  proof (rule fulfilsI [OF eff assms(2)])
    assume bad: "\<not> (\<not> no_name name \<and> k \<in> {BTF_FWD_STRUCT, BTF_FWD_UNION})"
    then show "btf_request al ws (Add_fwd name k) = Some (- EINVAL, ws)" using False by (auto simp: btf_add_fwd_def)
  next
    assume good: "\<not> no_name name \<and> k \<in> {BTF_FWD_STRUCT, BTF_FWD_UNION}" "name_clean name"
    have "performs al ws b name (new_type BTF_KIND_FWD 0 (k = BTF_FWD_UNION) (word_of_int 0) []) (btf_request al ws (Add_fwd name k))"
      by (rule performs_new_info [OF assms(1) good(2), of 0 _ al]) (use good(1) in \<open>auto simp: id_ok_def btf_add_fwd_def\<close>)
    then show "performs al ws b name (new_type BTF_KIND_FWD 0 (k = BTF_FWD_UNION) 0 []) (btf_request al ws (Add_fwd name k))" by simp
  qed
qed

lemma fulfils_func:
  assumes "state_ok ws b" "req_clean (btf_types b) (Add_func name l i)"
  shows "fulfils al ws b (Add_func name l i)"
proof (rule fulfilsI [OF request_effect.simps(16) assms(2)])
  let ?good = "\<not> no_name name \<and> l \<in> {BTF_FUNC_STATIC, BTF_FUNC_GLOBAL, BTF_FUNC_EXTERN} \<and> id_ok i"
  show "btf_request al ws (Add_func name l i) = Some (- EINVAL, ws)" if "\<not> ?good"
    using that ref_bad [of i al ws BTF_KIND_FUNC name] by (auto simp: btf_add_func_def c_consts)
  show "performs al ws b name (new_type BTF_KIND_FUNC l False (word_of_int i) []) (btf_request al ws (Add_func name l i))"
    if "?good" "name_clean name"
  proof (rule performs_new_info [OF assms(1) that(2)])
    show "btf_request al ws (Add_func name l i) = do {
      (type_id, ws) \<leftarrow> btf_add_ref_kind al ws BTF_KIND_FUNC name i;
      if type_id \<le> 0 then Some (type_id, ws)
      else do { ws \<leftarrow> set_type_info ws type_id (btf_type_info BTF_KIND_FUNC l False); Some (type_id, ws) }
    }" using that(1) by (cases "btf_add_ref_kind al ws BTF_KIND_FUNC name i") (auto simp: btf_add_func_def)
  qed (use that(1) in simp)
qed

lemma check_last_kind:
  assumes "state_ok ws b" "\<And>t. ok t \<longleftrightarrow> btf_kind t \<in> set ks"
  shows "check_last ws ok = Some (last_is (btf_types b) ks)"
  using check_last_result [of ws b ok] assms by (simp add: state_ok_def last_is_def)

lemma upd_extra [simp]:
  "btf_type_inc_vlen (t\<lparr>extra := vs\<rparr>) = btf_type_inc_vlen t" "btf_kflag (t\<lparr>extra := vs\<rparr>) = btf_kflag t"
  by (simp_all add: btf_type_inc_vlen_def btf_kflag_def)

lemma fulfils_field:
  assumes "state_ok ws b" "req_clean (btf_types b) (Add_field name i off bits)"
  shows "fulfils al ws b (Add_field name i off bits)"
proof (rule fulfilsI [OF request_effect.simps(7) assms(2)])
  let ?t = "last (btf_types b)"
  let ?good = "last_is (btf_types b) [BTF_KIND_STRUCT, BTF_KIND_UNION] \<and> id_ok i \<and> field_ok ?t off bits"
  have last: "check_last ws btf_is_composite = Some (last_is (btf_types b) [BTF_KIND_STRUCT, BTF_KIND_UNION])"
    "check_last ws btf_is_union = Some (last_is (btf_types b) [BTF_KIND_UNION])"
    by (rule check_last_kind [OF assms(1)]; auto simp: btf_is_composite_def btf_is_union_def)+
  have bits: "bits < 256 \<longleftrightarrow> \<not> 255 < bits" "off < 0x1000000 \<longleftrightarrow> \<not> 0xffffff < off"
    by (simp_all add: word_less_nat_alt) arith+
  have good: "?good \<longleftrightarrow> last_is (btf_types b) [BTF_KIND_STRUCT, BTF_KIND_UNION] \<and> id_ok i \<and>
      \<not> (is_bitfield off bits \<and> (bits = 0 \<or> 255 < bits \<or> 0xffffff < off)) \<and>
      \<not> (last_is (btf_types b) [BTF_KIND_UNION] \<and> off \<noteq> 0)"
    by (auto simp: field_ok_def last_is_def bits word_gt_0)
  have eq: "btf_request al ws (Add_field name i off bits) = (if ?good then btf_extend al ws name 12
      (\<lambda>n. [n, word_of_int i, off OR push_bit 24 bits])
      (\<lambda>t. btf_type_info (btf_kind t) (btf_vlen t + 1) (is_bitfield off bits \<or> btf_kflag t)) else Some (- EINVAL, ws))"
    unfolding btf_request.simps btf_add_field_def last validate_iff good Let_def is_bitfield_def [symmetric] by auto
  show "btf_request al ws (Add_field name i off bits) = Some (- EINVAL, ws)" if "\<not> ?good"
    unfolding eq if_not_P [OF that] ..
  show "performs al ws b name (LastType (btf_type_info (btf_kind ?t) (btf_vlen ?t + 1) (is_bitfield off bits \<or> btf_kflag ?t))
      (\<lambda>n. [n, word_of_int i, off OR push_bit 24 bits])) (btf_request al ws (Add_field name i off bits))"
    if "?good" "name_clean name"
    unfolding eq if_P [OF that(1)]
    by (rule performs_last [OF assms(1) that(2), of _ 3]) (use that(1) in \<open>auto simp: last_is_def\<close>)
qed

lemma fulfils_last:
  assumes "state_ok ws b"
  shows "req_clean (btf_types b) (Add_func_param name i) \<Longrightarrow> fulfils al ws b (Add_func_param name i)"
    "req_clean (btf_types b) (Add_datasec_var_info i off m) \<Longrightarrow> fulfils al ws b (Add_datasec_var_info i off m)"
    "req_clean (btf_types b) (Add_enum_value name v) \<Longrightarrow> fulfils al ws b (Add_enum_value name v)"
proof -
  have last: "check_last ws btf_is_func_proto = Some (last_is (btf_types b) [BTF_KIND_FUNC_PROTO])"
    "check_last ws btf_is_datasec = Some (last_is (btf_types b) [BTF_KIND_DATASEC])"
    "check_last ws btf_is_enum = Some (last_is (btf_types b) [BTF_KIND_ENUM])"
    by (rule check_last_kind [OF assms]; auto simp: btf_is_func_proto_def btf_is_datasec_def btf_is_enum_def)+
  have ne: "btf_types b \<noteq> []" if "last_is (btf_types b) ks" for ks using that by (simp add: last_is_def)
  show "fulfils al ws b (Add_func_param name i)" if "req_clean (btf_types b) (Add_func_param name i)"
    by (rule fulfilsI [OF request_effect.simps(18) that])
      (auto simp: btf_add_func_param_def last validate_iff intro!: performs_last [OF assms, of _ _ 2] ne)
  show "fulfils al ws b (Add_datasec_var_info i off m)" if "req_clean (btf_types b) (Add_datasec_var_info i off m)"
    by (rule fulfilsI [OF request_effect.simps(21) that])
      (auto simp: btf_add_datasec_var_info_def last validate_iff intro!: performs_last [OF assms, of _ _ 3] ne)
  show "fulfils al ws b (Add_enum_value name v)" if c: "req_clean (btf_types b) (Add_enum_value name v)"
  proof (cases "last_is (btf_types b) [BTF_KIND_ENUM] \<and> \<not> no_name name \<and> (v < - (2 ^ 31) \<or> 2 ^ 32 \<le> v)")
    case True
    then show ?thesis by (auto simp: fulfils_def btf_add_enum_value_def last)
  next
    case False
    have eff: "request_effect (btf_types b) (Add_enum_value name v) = asks (last_is (btf_types b) [BTF_KIND_ENUM] \<and> \<not> no_name name) name
        (LastType (btf_type_inc_vlen (last (btf_types b))) (\<lambda>n. [n, word_of_int v]))"
      unfolding request_effect.simps if_not_P [OF False] ..
    show ?thesis
      by (rule fulfilsI [OF eff c])
        (use False in \<open>auto simp: btf_add_enum_value_def last intro!: performs_last [OF assms, of _ _ 2] ne\<close>)
  qed
qed

lemma request_fulfilled:
  assumes "state_ok ws b" "req_clean (btf_types b) req"
  shows "fulfils al ws b req"
  using assms
  by (cases req) (simp_all add: fulfils_int fulfils_new fulfils_ref fulfils_enum fulfils_fwd fulfils_func
      fulfils_field fulfils_last)

end
