(* ===== verification/BtfSeq.thy ===== *)
theory BtfSeq
  imports BtfBuild
begin

text \<open>
  Sequences of requests: the types that come out are well-formed, and BTF that was built from
  nothing, written and read again is the BTF the requests describe.
\<close>

section \<open>Well-formed results\<close>

text \<open>The number of members is kept in 16 bits; one more than 65535 does not fit.\<close>

definition has_room :: "btf_type list \<Rightarrow> effect \<Rightarrow> bool" where
  "has_room ts eff \<longleftrightarrow> (case eff of NewType _ \<Rightarrow> True | LastType _ _ \<Rightarrow> btf_vlen (last ts) < 65535)"

text \<open>The number of words behind the header of a type of a kind.\<close>

definition words_ok :: "nat \<Rightarrow> nat \<Rightarrow> nat \<Rightarrow> bool" where
  "words_ok k v n \<longleftrightarrow> k < 32 \<and>
     (k \<in> {BTF_KIND_FWD, BTF_KIND_CONST, BTF_KIND_VOLATILE, BTF_KIND_RESTRICT, BTF_KIND_PTR,
           BTF_KIND_TYPEDEF, BTF_KIND_FUNC, BTF_KIND_FLOAT, BTF_KIND_TYPE_TAG} \<and> n = 0 \<or>
      k \<in> {BTF_KIND_INT, BTF_KIND_VAR, BTF_KIND_DECL_TAG} \<and> n = 1 \<or> k = BTF_KIND_ARRAY \<and> n = 3 \<or>
      k \<in> {BTF_KIND_STRUCT, BTF_KIND_UNION, BTF_KIND_DATASEC} \<and> n = 3 * v \<or>
      k \<in> {BTF_KIND_ENUM, BTF_KIND_FUNC_PROTO} \<and> n = 2 * v)"

lemma words_ok_kinds [simp]:
  "words_ok BTF_KIND_FWD v 0" "words_ok BTF_KIND_CONST v 0" "words_ok BTF_KIND_VOLATILE v 0"
  "words_ok BTF_KIND_RESTRICT v 0" "words_ok BTF_KIND_PTR v 0" "words_ok BTF_KIND_TYPEDEF v 0"
  "words_ok BTF_KIND_FUNC v 0" "words_ok BTF_KIND_FLOAT v 0" "words_ok BTF_KIND_TYPE_TAG v 0"
  "words_ok BTF_KIND_INT v (Suc 0)" "words_ok BTF_KIND_VAR v (Suc 0)" "words_ok BTF_KIND_DECL_TAG v (Suc 0)"
  "words_ok BTF_KIND_ARRAY v (Suc (Suc (Suc 0)))" "words_ok BTF_KIND_STRUCT 0 0" "words_ok BTF_KIND_UNION 0 0"
  "words_ok BTF_KIND_DATASEC 0 0" "words_ok BTF_KIND_ENUM 0 0" "words_ok BTF_KIND_FUNC_PROTO 0 0"
  by (simp_all add: words_ok_def c_consts)

lemma type_ok_new:
  assumes "btf_kind t = k" "btf_vlen t = v" "words_ok k v (length (extra t))"
  shows "type_ok t"
  using assms(3) by (auto simp: words_ok_def type_ok_def btf_type_size_def assms(1,2) c_consts)

lemma type_ok_extended:
  assumes "type_ok t" "btf_kind t' = btf_kind t" "btf_vlen t' = btf_vlen t + 1"
    "btf_kind t \<in> {BTF_KIND_STRUCT, BTF_KIND_UNION, BTF_KIND_DATASEC} \<and> length (extra t') = length (extra t) + 3 \<or>
     btf_kind t \<in> {BTF_KIND_ENUM, BTF_KIND_FUNC_PROTO} \<and> length (extra t') = length (extra t) + 2"
  shows "type_ok t'"
  using assms by (auto simp: type_ok_def btf_type_size_def c_consts)

lemma new_type_ok:
  assumes "v < 65536" "words_ok k v (length ex)" "list_all type_ok ts"
  shows "list_all type_ok (effect_types (new_type k v f st ex) off ts)"
proof -
  let ?t = "\<lparr>name_off = off, info = btf_type_info k v f, size_type = st, extra = ex\<rparr>"
  have k: "k < 32" using assms(2) by (simp add: words_ok_def)
  have "type_ok ?t"
    by (rule type_ok_new [OF btf_type_info_fields(1,2) [of ?t k v f, OF _ k assms(1)]]) (simp_all add: assms(2))
  then show ?thesis using assms(3) by (simp add: effect_types_def new_type_def)
qed

lemma last_type_ok:
  assumes "eff = LastType i vs" "ts \<noteq> []" "list_all type_ok ts" "btf_vlen (last ts) < 65535"
    "i = btf_type_info (btf_kind (last ts)) (btf_vlen (last ts) + 1) f"
    "btf_kind (last ts) \<in> {BTF_KIND_STRUCT, BTF_KIND_UNION, BTF_KIND_DATASEC} \<and> length (vs off) = 3 \<or>
     btf_kind (last ts) \<in> {BTF_KIND_ENUM, BTF_KIND_FUNC_PROTO} \<and> length (vs off) = 2"
  shows "list_all type_ok (effect_types eff off ts)"
proof -
  obtain us t where ts: "ts = us @ [t]" using assms(2) by (cases ts rule: rev_cases) auto
  let ?t = "t\<lparr>info := i, extra := extra t @ vs off\<rparr>"
  have kind: "btf_kind ?t = btf_kind t" and vlen: "btf_vlen ?t = btf_vlen t + 1"
    using btf_type_info_fields [of ?t "btf_kind t" "btf_vlen t + 1" f] assms(4,5) btf_kind_less [of t] ts by simp_all
  have len: "length (extra ?t) = length (extra t) + length (vs off)" by simp
  have t: "type_ok t" using assms(3) ts by simp
  have "btf_kind t \<in> {BTF_KIND_STRUCT, BTF_KIND_UNION, BTF_KIND_DATASEC} \<and> length (extra ?t) = length (extra t) + 3 \<or>
      btf_kind t \<in> {BTF_KIND_ENUM, BTF_KIND_FUNC_PROTO} \<and> length (extra ?t) = length (extra t) + 2"
    using assms(6) unfolding len ts last_snoc by auto
  then have "type_ok ?t" by (rule type_ok_extended [OF t kind vlen])
  then show ?thesis using assms(1,3) ts by (simp add: effect_types_def extend_last_def)
qed

lemma effect_types_ok:
  assumes "request_effect ts req = Inr (name, eff)" "list_all type_ok ts" "has_room ts eff"
  shows "list_all type_ok (effect_types eff off ts)"
proof (cases req)
  case (Add_field name' i' o' n')
  then show ?thesis using assms
    by (intro last_type_ok [OF _ _ assms(2)]) (auto simp: asks_def has_room_def last_is_def split: if_splits)
next
  case (Add_enum_value name' v')
  then show ?thesis using assms
    by (intro last_type_ok [OF _ _ assms(2)])
      (auto simp: asks_def has_room_def last_is_def btf_type_inc_vlen_def split: if_splits)
next
  case (Add_func_param name' i')
  then show ?thesis using assms
    by (intro last_type_ok [OF _ _ assms(2)])
      (auto simp: asks_def has_room_def last_is_def btf_type_inc_vlen_def split: if_splits)
next
  case (Add_datasec_var_info i' o' n')
  then show ?thesis using assms
    by (intro last_type_ok [OF _ _ assms(2)])
      (auto simp: asks_def has_room_def last_is_def btf_type_inc_vlen_def split: if_splits)
qed (use assms in \<open>auto simp: asks_def BTF_FUNC_STATIC_def BTF_FUNC_GLOBAL_def BTF_FUNC_EXTERN_def
  split: if_splits intro!: new_type_ok\<close>)

lemma request_keeps_ok:
  assumes "btf_ok b" "request_effect (btf_types b) req = Inr (name, eff)" "has_room (btf_types b) eff"
  shows "btf_ok (effect_on b name eff)"
proof -
  obtain base si ts so strs ps where b1: "snd (intern_opt b name) = Btf base si ts so strs ps"
    by (cases "snd (intern_opt b name)")
  have ts: "btf_types b = ts" using intern_types(2) [of b name] b1 by simp
  have ok: "btf_ok (Btf base si ts so strs ps)" using intern_opt_ok [OF assms(1), of name] b1 by simp
  then have "list_all type_ok (effect_types eff (of_nat (fst (intern_opt b name))) ts)"
    using effect_types_ok [OF assms(2), of "of_nat (fst (intern_opt b name))"] assms(3) ts by simp
  then show ?thesis using ok by (simp add: effect_on_def b1)
qed

section \<open>Sequences of requests\<close>


text \<open>The requests that add a type, and the identifiers that are returned for them from one on; the others return 0.\<close>

definition adds_type :: "btf_req \<Rightarrow> bool" where
  "adds_type req \<longleftrightarrow> (case req of Add_field _ _ _ _ \<Rightarrow> False | Add_enum_value _ _ \<Rightarrow> False | Add_func_param _ _ \<Rightarrow> False
     | Add_datasec_var_info _ _ _ \<Rightarrow> False | _ \<Rightarrow> True)"



lemma effect_on_fields:
  "base_btf (effect_on b name eff) = base_btf b" "start_id (effect_on b name eff) = start_id b"
  "start_str_off (effect_on b name eff) = start_str_off b" "ptr_sz (effect_on b name eff) = ptr_sz b"
  "\<exists>more. btf_strs (effect_on b name eff) = btf_strs b @ more"
proof -
  have add: "base_btf (add_string b s) = base_btf b \<and> start_id (add_string b s) = start_id b \<and>
      start_str_off (add_string b s) = start_str_off b \<and> ptr_sz (add_string b s) = ptr_sz b \<and>
      (\<exists>more. btf_strs (add_string b s) = btf_strs b @ more)" for b s by (cases b) simp
  have "base_btf (snd (intern_opt b name)) = base_btf b \<and> start_id (snd (intern_opt b name)) = start_id b \<and>
      start_str_off (snd (intern_opt b name)) = start_str_off b \<and> ptr_sz (snd (intern_opt b name)) = ptr_sz b \<and>
      (\<exists>more. btf_strs (snd (intern_opt b name)) = btf_strs b @ more)"
    using add by (auto simp: intern_opt_def intern_def split: option.split)
  moreover have "base_btf (with_types f b) = base_btf b \<and> start_id (with_types f b) = start_id b \<and>
      start_str_off (with_types f b) = start_str_off b \<and> ptr_sz (with_types f b) = ptr_sz b \<and>
      btf_strs (with_types f b) = btf_strs b" for f b by (cases b) simp
  ultimately show "base_btf (effect_on b name eff) = base_btf b" "start_id (effect_on b name eff) = start_id b"
    "start_str_off (effect_on b name eff) = start_str_off b" "ptr_sz (effect_on b name eff) = ptr_sz b"
    "\<exists>more. btf_strs (effect_on b name eff) = btf_strs b @ more"
    by (simp_all add: effect_on_def)
qed

text \<open>What a request changes: it adds one type behind the others, or some words to the last one.\<close>

lemma request_effect_kind:
  assumes "request_effect ts req = Inr (name, eff)"
  shows "case eff of NewType t \<Rightarrow> adds_type req \<and> (\<forall>off. length (type_words (t off)) = length (type_words (t 0)))
    | LastType i vs \<Rightarrow> \<not> adds_type req \<and> ts \<noteq> [] \<and> (\<forall>off. length (vs off) = length (vs 0))"
  using assms
  by (cases req) (auto simp: asks_def adds_type_def new_type_def last_is_def type_words_def split: if_splits)

lemma effect_on_types: "btf_types (effect_on b name eff) = effect_types eff (of_nat (fst (intern_opt b name))) (btf_types b)"
proof -
  have "btf_types (with_types f b) = f (btf_types b)" for f b by (cases b) simp
  then show ?thesis by (simp add: effect_on_def intern_types(2))
qed

lemma effect_types_size:
  assumes "request_effect ts req = Inr (name, eff)"
  shows "length (types_bytes (effect_types eff off ts)) = length (types_bytes ts) + effect_size eff"
    "length (effect_types eff off ts) = (if adds_type req then length ts + 1 else length ts)"
    "take (length ts - (if adds_type req then 0 else 1)) (effect_types eff off ts) =
     take (length ts - (if adds_type req then 0 else 1)) ts"
proof -
  note K = request_effect_kind [OF assms]
  have "length (types_bytes (effect_types eff off ts)) = length (types_bytes ts) + effect_size eff \<and>
    length (effect_types eff off ts) = (if adds_type req then length ts + 1 else length ts) \<and>
    take (length ts - (if adds_type req then 0 else 1)) (effect_types eff off ts) =
     take (length ts - (if adds_type req then 0 else 1)) ts"
  proof (cases eff)
    case (NewType t)
    then show ?thesis using K by (simp add: effect_types_def effect_size_def)
  next
    case (LastType i vs)
    then have ne: "ts \<noteq> []" "\<not> adds_type req" "length (vs off) = length (vs 0)" using K by auto
    then obtain us t where "ts = us @ [t]" by (cases ts rule: rev_cases) auto
    then show ?thesis using LastType ne(2,3) by (simp add: effect_types_def effect_size_def extend_last_def type_words_def)
  qed
  then show "length (types_bytes (effect_types eff off ts)) = length (types_bytes ts) + effect_size eff"
    "length (effect_types eff off ts) = (if adds_type req then length ts + 1 else length ts)"
    "take (length ts - (if adds_type req then 0 else 1)) (effect_types eff off ts) =
     take (length ts - (if adds_type req then 0 else 1)) ts" by blast+
qed

lemma intern_opt_fields:
  "base_btf (snd (intern_opt b name)) = base_btf b" "start_id (snd (intern_opt b name)) = start_id b"
  "start_str_off (snd (intern_opt b name)) = start_str_off b"
  "\<exists>more. btf_strs (snd (intern_opt b name)) = btf_strs b @ more"
proof -
  have "base_btf (add_string b s) = base_btf b \<and> start_id (add_string b s) = start_id b \<and>
      start_str_off (add_string b s) = start_str_off b \<and> (\<exists>more. btf_strs (add_string b s) = btf_strs b @ more)" for b s
    by (cases b) simp
  then show "base_btf (snd (intern_opt b name)) = base_btf b" "start_id (snd (intern_opt b name)) = start_id b"
    "start_str_off (snd (intern_opt b name)) = start_str_off b"
    "\<exists>more. btf_strs (snd (intern_opt b name)) = btf_strs b @ more"
    by (auto simp: intern_opt_def intern_def split: option.split)
qed

section \<open>Every function\<close>

text \<open>
  C29: Every function of the family \<^verbatim>\<open>btf__add_<kind>\<close> (all that add a type or extend the last one;
  \<^verbatim>\<open>btf__add_type\<close> and \<^verbatim>\<open>btf__add_btf\<close>, which copy from other BTF, are not among them) does what its arguments ask for, on a parsed
  object as on a modified one, on split BTF as on its own: arguments that are not allowed give
  \<^verbatim>\<open>-EINVAL\<close> (\<^verbatim>\<open>-E2BIG\<close> for an enumerator out of range) and change nothing; otherwise exactly the described type is added, or the last type extended, in the bytes of the
  object, with its name entered into the strings when neither the object nor its base has it,
  and the identifier of the new type is returned (0 for an extension). The only other outcome is \<^verbatim>\<open>-ENOMEM\<close>: then one of the
  allocations of the call has failed, or a string section has no room for the name, the types would
  reach 4 GiB or the number of types is at its limit, and nothing but possibly the name has been added. (The object stands for well-formed BTF with headers of at least 24 bytes and strings that, base included,
  end below 2 GiB, and names contain no NUL.)
\<close>

theorem btf_request_fulfilled:
  assumes "state_ok ws b" "req_clean (btf_types b) req"
  shows "fulfils al ws b req"
  using assms by (rule request_fulfilled)

text \<open>
  C31: A call of any of these functions keeps BTF well-formed, whether it succeeds, is refused or runs out of memory,
  whatever its arguments are: the object then stands for BTF whose identifiers and string offsets still follow those of the
  base, whose string section still ends with a NUL, and in which every type, the new or extended one
  included, has exactly the words its kind and number of members call for. The types that were there before, but for the last one when
  it is extended, and the strings are still there at their places, and a call that fails leaves all types as they were. (The last type has fewer than 65535
  members, the strings end below 2 GiB and names contain no NUL.)
\<close>

theorem request_keeps_btf_ok:
  assumes "state_ok ws b" "req_clean (btf_types b) req"
    and "btf_types b \<noteq> [] \<longrightarrow> btf_vlen (last (btf_types b)) < 65535"
  shows "\<exists>r ws' b'. btf_request al ws req = Some (r, ws') \<and> chain_rep ws' b' \<and> btf_ok b' \<and>
    base_btf b' = base_btf b \<and> start_id b' = start_id b \<and> start_str_off b' = start_str_off b \<and>
    (\<exists>more. btf_strs b' = btf_strs b @ more) \<and> (r < 0 \<longrightarrow> btf_types b' = btf_types b) \<and>
    (let n = length (btf_types b) - (if adds_type req then 0 else 1) in take n (btf_types b') = take n (btf_types b))"
proof -
  have F: "fulfils al ws b req" using assms(1,2) by (rule request_fulfilled)
  have b: "chain_rep ws b" "btf_ok b" using assms(1) by (simp_all add: state_ok_def)
  show ?thesis
  proof (cases "request_effect (btf_types b) req")
    case (Inl err)
    then have "btf_request al ws req = Some (err, ws)" using F by (simp add: fulfils_def)
    then show ?thesis using b by auto
  next
    case (Inr p)
    obtain name eff where p: "p = (name, eff)" by (cases p)
    then have eff: "request_effect (btf_types b) req = Inr (name, eff)" using Inr by simp
    have room: "has_room (btf_types b) eff"
      using request_effect_kind [OF eff] assms(3) by (auto simp: has_room_def split: effect.splits)
    obtain r ws' where step: "btf_request al ws req = Some (r, ws')"
      "r = - ENOMEM \<and> (chain_rep ws' b \<or> chain_rep ws' (snd (intern_opt b name))) \<or>
       r = effect_ret b eff \<and> chain_rep ws' (effect_on b name eff)"
      using F eff by (auto simp: fulfils_def performs_def)
    have ret: "0 \<le> effect_ret b eff" by (simp add: effect_ret_def split: effect.split)
    have old: ?thesis if "chain_rep ws' b" using step(1) that b by auto
    have named: ?thesis if "chain_rep ws' (snd (intern_opt b name))"
      using step(1) that intern_opt_ok [OF b(2), of name] intern_opt_fields [of b name] intern_types(2) [of b name]
      by (intro exI [of _ r] exI [of _ ws'] exI [of _ "snd (intern_opt b name)"]) simp
    have done': ?thesis if "chain_rep ws' (effect_on b name eff)" "r = effect_ret b eff"
      using step(1) that request_keeps_ok [OF b(2) eff room] effect_on_fields [of b name eff] ret
        effect_types_size(3) [OF eff]
      by (intro exI [of _ r] exI [of _ ws'] exI [of _ "effect_on b name eff"]) (simp add: effect_on_types Let_def)
    from step(2) old named done' show ?thesis by blast
  qed
qed

text \<open>An object without a base can always go on.\<close>

lemma unsplit_state_ok:
  assumes "chain_rep ws b" "btf_ok b" "base_btf b = None"
  shows "state_ok ws b"
proof (cases ws)
  case (Cons w bases)
  then show ?thesis using assms by (cases b) (auto simp: state_ok_def wbtf_rep_def str_end_def)
qed (use assms in simp)









section \<open>Building, writing, reading\<close>



abbreviation empty_btf :: btf where
  "empty_btf \<equiv> Btf None 1 [] 0 [0] 0"

lemma btf_new_empty_rep:
  assumes "btf_new_empty True True None = Inr w"
  shows "chain_rep [w] empty_btf" "same_layout (w_hdr w) (file_hdr 1 0 ts strs)"
proof -
  have "length (hdr_bytes h @ [0]) = 25" for h by simp
  then show "chain_rep [w] empty_btf"
    using assms by (auto simp: btf_new_empty_def wbtf_rep_def mem_rep_def rd_bytes_def Let_def)
  show "same_layout (w_hdr w) (file_hdr 1 0 ts strs)"
    using assms by (auto simp: btf_new_empty_def same_layout_def file_hdr_def Let_def)
qed





section \<open>Examples\<close>

definition plenty :: alloc_ok where
  "plenty = \<lparr>ok_hdr = True, ok_types = True, ok_set = (True, True, True), ok_index = (\<lambda>_. (True, True)),
     ok_find = True, ok_str = (True, True, True), ok_type_mem = True, ok_idx = True\<rparr>"



lemma plenty_ok: "all_ok plenty"
  by (simp add: all_ok_def plenty_def)

lemma empty_state:
  assumes "btf_new_empty True True None = Inr w"
  shows "state_ok [w] empty_btf"
  by (rule unsplit_state_ok [OF btf_new_empty_rep(1) [OF assms]]) simp_all

lemma btf_request_fulfilled_witness:
  "\<exists>w ws. btf_new_empty True True None = Inr w \<and>
     btf_request (\<lambda>_. plenty) [w] (Add_int (Some [105, 110, 116]) 4 1) = Some (1, ws) \<and>
     chain_rep ws (Btf None 1 [\<lparr>name_off = 1, info = 0x01000000, size_type = 4, extra = [0x01000020]\<rparr>]
       0 [0, 105, 110, 116, 0] 0)"
proof -
  let ?req = "Add_int (Some [105, 110, 116]) 4 1"
  obtain w where w: "btf_new_empty True True None = Inr w" by (auto simp: btf_new_empty_def Let_def)
  have eff: "request_effect (btf_types empty_btf) ?req = Inr (Some [105, 110, 116], new_type BTF_KIND_INT 0 False 4 [0x01000020])"
    by (simp add: asks_def no_name_def)
  have clean: "req_clean (btf_types empty_btf) ?req" unfolding req_clean_def eff by (simp add: name_clean_def)
  have room: "\<not> short (\<lambda>_. plenty) 1 empty_btf (Some [105, 110, 116]) (effect_size (new_type BTF_KIND_INT 0 False 4 [0x01000020]))"
    by (simp add: short_def lacks_def plenty_ok effect_size_def new_type_def type_words_def name_size_def c_consts)
  have on: "effect_on empty_btf (Some [105, 110, 116]) (new_type BTF_KIND_INT 0 False 4 [0x01000020]) =
      Btf None 1 [\<lparr>name_off = 1, info = 0x01000000, size_type = 4, extra = [0x01000020]\<rparr>] 0 [0, 105, 110, 116, 0] 0"
    "effect_ret empty_btf (new_type BTF_KIND_INT 0 False 4 [0x01000020]) = 1"
    by (simp_all add: effect_on_def effect_types_def intern_opt_def intern_def own_offset_def str_end_def new_type_def
        btf_type_info_def c_consts effect_ret_def btf_type_cnt_def)
  have "performs (\<lambda>_. plenty) [w] empty_btf (Some [105, 110, 116]) (new_type BTF_KIND_INT 0 False 4 [0x01000020])
      (btf_request (\<lambda>_. plenty) [w] ?req)"
    using btf_request_fulfilled [OF empty_state [OF w] clean, of "\<lambda>_. plenty"] unfolding fulfils_def eff sum.case prod.case .
  then show ?thesis using w room unfolding performs_def on by auto
qed

lemma request_keeps_btf_ok_witness:
  "\<exists>w r ws b. btf_new_empty True True None = Inr w \<and>
     btf_request (\<lambda>_. plenty) [w] (Add_func (Some (lit ''f'')) 1 3) = Some (r, ws) \<and> chain_rep ws b \<and> btf_ok b"
proof -
  obtain w where w: "btf_new_empty True True None = Inr w" by (auto simp: btf_new_empty_def Let_def)
  have "req_clean (btf_types empty_btf) (Add_func (Some (lit ''f'')) 1 3)" by code_simp
  from request_keeps_btf_ok [OF empty_state [OF w] this, of "\<lambda>_. plenty"] w show ?thesis by auto
qed


text \<open>
  Adding a bitfield sets the flag that changes how the offsets of all members are read: a member
  that lies 16 MiB or more into a struct is then read at a wrong place.
\<close>

lemma bitfield_moves_far_member:
  "let t = \<lparr>name_off = 0, info = btf_type_info BTF_KIND_STRUCT 1 False, size_type = 0x4000000, extra = [1, 1, 0x8000000]\<rparr>;
       t' = t\<lparr>info := btf_type_info BTF_KIND_STRUCT 2 True, extra := [1, 1, 0x8000000, 2, 1, 0x01000000]\<rparr>
    in \<exists>i vs. request_effect [t] (Add_field None 1 0 1) = Inr (None, LastType i vs) \<and>
      effect_types (LastType i vs) 2 [t] = [t'] \<and>
      btf_member_bit_offset t 0 = Some 0x8000000 \<and> btf_member_bit_offset t' 0 = Some 0"
  by (simp add: Let_def asks_def last_is_def id_ok_def field_ok_def effect_types_def extend_last_def
      btf_type_info_def btf_kind_def btf_vlen_def btf_kflag_def btf_member_bit_offset_def member_offset_def
      is_bitfield_def c_consts)

lemma member_count_wraps: "btf_vlen \<lparr>name_off = n, info = btf_type_info k 65536 False, size_type = s, extra = ex\<rparr> = 0"
proof -
  have "(0xffff :: u32) = mask 16" by (simp add: mask_eq_exp_minus_1)
  moreover have "(btf_type_info k 65536 False) AND mask 16 = 0"
  proof (rule bit_word_eqI)
    have "\<not> bit (push_bit 16 1 :: u32) i" if "i < 16" for i using that by (simp only: bit_simps) simp
    then have "\<not> bit (65536 :: u32) i" if "i < 16" for i using that by simp
    then show "bit (btf_type_info k 65536 False AND mask 16) i = bit (0 :: u32) i" if "i < LENGTH(32)" for i
      by (auto simp: btf_type_info_def bit_simps bit_of_nat_u32)
  qed
  ultimately show ?thesis by (simp add: btf_vlen_def)
qed

end
