(* ===== verification/ProgElf.thy ===== *)
theory ProgElf
  imports CoreObject
begin

text \<open>
  The programs of an object file and their relocations, \<^verbatim>\<open>libbpf/src/libbpf.c\<close>: how the function
  symbols of a section become programs (\<^verbatim>\<open>bpf_object__add_programs\<close>, \<^verbatim>\<open>bpf_object__init_prog\<close>), and
  how the relocation records of the file become the descriptors that the linking of the programs
  works on (\<^verbatim>\<open>bpf_object__collect_prog_relos\<close>, \<^verbatim>\<open>bpf_program__record_reloc\<close>).

  The symbols and relocation records are given as \<^verbatim>\<open>libelf\<close> decodes them: a string the file does
  not have, or a record it cannot read, is \<open>None\<close>. A pointer to a program is its index. The result
  \<open>None\<close> of an operation is an access outside its memory.
\<close>

section \<open>Data\<close>

abbreviation (input) STT_NOTYPE :: nat where "STT_NOTYPE \<equiv> 0"
abbreviation (input) STT_FUNC :: nat where "STT_FUNC \<equiv> 2"
abbreviation (input) STT_SECTION :: nat where "STT_SECTION \<equiv> 3"
abbreviation (input) STB_LOCAL :: nat where "STB_LOCAL \<equiv> 0"
abbreviation (input) STB_GLOBAL :: nat where "STB_GLOBAL \<equiv> 1"
abbreviation (input) STB_WEAK :: nat where "STB_WEAK \<equiv> 2"
abbreviation (input) STV_INTERNAL :: nat where "STV_INTERNAL \<equiv> 1"
abbreviation (input) STV_HIDDEN :: nat where "STV_HIDDEN \<equiv> 2"
abbreviation (input) SHN_UNDEF :: nat where "SHN_UNDEF \<equiv> 0"
abbreviation (input) SHN_LORESERVE :: nat where "SHN_LORESERVE \<equiv> 0xff00"

record elf_sym =
  sy_name :: "u8 list option"
  sy_type :: nat
  sy_bind :: nat
  sy_visibility :: nat
  sy_shndx :: nat
  sy_value :: u64
  sy_size :: u64

record elf_rel =
  r_offset :: u64
  r_sym :: nat

datatype reloc_type = RELO_LD64 | RELO_CALL | RELO_DATA | RELO_EXTERN_VAR | RELO_EXTERN_FUNC
  | RELO_SUBPROG_ADDR | RELO_CORE

text \<open>\<open>rd_sym_off\<close> holds the bits of the signed field.\<close>

record reloc_desc =
  rd_type :: reloc_type
  rd_insn_idx :: nat
  rd_map_idx :: nat
  rd_sym_off :: u32

text \<open>A record of \<^verbatim>\<open>.BTF.ext\<close>: its instruction offset and the bytes after it.\<close>

type_synonym info_rec = "u32 \<times> u8 list"

record program = core_prog +
  p_name :: "u8 list"
  p_mark_btf_static :: bool
  p_sub_insn_off :: nat
  p_relos :: "reloc_desc list"
  p_func_info :: "info_rec list option"
  p_func_info_rec_size :: nat
  p_line_info :: "info_rec list option"
  p_line_info_rec_size :: nat

datatype sec_type = SEC_UNUSED | SEC_RELO | SEC_BSS | SEC_DATA | SEC_RODATA
datatype libbpf_map_type = LIBBPF_MAP_UNSPEC | LIBBPF_MAP_DATA | LIBBPF_MAP_BSS | LIBBPF_MAP_RODATA
  | LIBBPF_MAP_KCONFIG
datatype extern_type = EXT_UNKNOWN | EXT_KCFG | EXT_KSYM

record obj_map =
  om_libbpf_type :: libbpf_map_type
  om_sec_idx :: nat
  om_sec_offset :: u64
  om_fd :: u32
  om_skipped :: bool

record extern_desc =
  ex_type :: extern_type
  ex_sym_idx :: nat
  ex_is_set :: bool
  kcfg_data_off :: u32
  ksym_addr :: u64
  ksym_kernel_btf_obj_fd :: u32
  ksym_kernel_btf_id :: u32
  ksym_type_id :: u32
  ksym_btf_fd_idx :: u16

record prog_obj =
  ob_text_shndx :: nat
  ob_sec_cnt :: nat
  ob_secs :: "sec_type list"
  ob_symbols_shndx :: int
  ob_maps_shndx :: int
  ob_btf_maps_shndx :: int
  ob_syms :: "elf_sym list"
  ob_maps :: "obj_map list"
  ob_externs :: "extern_desc list"
  ob_kconfig_map_idx :: nat
  ob_gen_loader :: bool

definition LIBBPF_ERRNO__FORMAT :: int where [c_consts]: "LIBBPF_ERRNO__FORMAT = 4001"
definition LIBBPF_ERRNO__RELOC :: int where [c_consts]: "LIBBPF_ERRNO__RELOC = 4005"
definition BPF_PSEUDO_CALL :: "4 word" where [c_consts]: "BPF_PSEUDO_CALL = 1"
definition BPF_PSEUDO_FUNC :: "4 word" where [c_consts]: "BPF_PSEUDO_FUNC = 4"

section \<open>Instructions\<close>

definition BPF_OP :: "u8 \<Rightarrow> u8" where "BPF_OP c = c AND 0xf0"

definition insn_is_subprog_call :: "bpf_insn \<Rightarrow> bool" where
  "insn_is_subprog_call insn \<longleftrightarrow>
     BPF_CLASS (i_code insn) = BPF_JMP \<and> BPF_OP (i_code insn) = BPF_CALL \<and>
     BPF_SRC (i_code insn) = BPF_K \<and> src_reg insn = BPF_PSEUDO_CALL \<and> dst_reg insn = 0 \<and> i_off insn = 0"

definition is_call_insn :: "bpf_insn \<Rightarrow> bool" where
  "is_call_insn insn \<longleftrightarrow> i_code insn = BPF_JMP OR BPF_CALL"

definition insn_is_pseudo_func :: "bpf_insn \<Rightarrow> bool" where
  "insn_is_pseudo_func insn \<longleftrightarrow> is_ldimm64_insn insn \<and> src_reg insn = BPF_PSEUDO_FUNC"

text \<open>\<^verbatim>\<open>struct bpf_insn\<close> in memory.\<close>

definition insn_of_bytes :: "u8 list \<Rightarrow> bpf_insn" where
  "insn_of_bytes b =
     \<lparr>i_code = b ! 0, dst_reg = ucast (b ! 1), src_reg = ucast (drop_bit 4 (b ! 1)),
      i_off = le16 (b ! 2) (b ! 3), i_imm = le32 (b ! 4) (b ! 5) (b ! 6) (b ! 7)\<rparr>"

definition copy_insns :: "u8 list \<Rightarrow> nat \<Rightarrow> nat \<Rightarrow> bpf_insn list option" where
  "copy_insns data off n =
     (if off + n \<le> length data
      then Some (map (\<lambda>i. insn_of_bytes (drop (off + 8 * i) data)) [0..<n div 8]) else None)"

section \<open>Programs from the symbols of a section\<close>

text \<open>
  \<^verbatim>\<open>bpf_object__init_prog\<close>: the new program, or the error on the left. \<open>alloc_ok\<close> says whether its
  names and instructions can be allocated; \<open>insn_data\<close> is the offset of the code in \<open>data\<close>.
\<close>

definition init_prog :: "bool \<Rightarrow> u8 list \<Rightarrow> nat \<Rightarrow> u8 list \<Rightarrow> u64 \<Rightarrow> u8 list \<Rightarrow> u64 \<Rightarrow> (int + program) option" where
  "init_prog alloc_ok name sec_idx sec_name sec_off data insn_data_sz =
     (if insn_data_sz = 0 \<or> insn_data_sz mod 8 \<noteq> 0 \<or> sec_off mod 8 \<noteq> 0 then Some (Inl (- EINVAL))
      else if \<not> alloc_ok then Some (Inl (- ENOMEM))
      else do {
        insns \<leftarrow> copy_insns data (unat sec_off) (unat insn_data_sz);
        Some (Inr \<lparr>p_sec_name = sec_name, p_sec_idx = sec_idx,
          p_sec_insn_off = unat (sec_off div 8), p_sec_insn_cnt = unat (insn_data_sz div 8),
          p_insns = insns, p_load = True, p_core_relos = [], p_name = name, p_mark_btf_static = False,
          p_sub_insn_off = 0, p_relos = [], p_func_info = None, p_func_info_rec_size = 0,
          p_line_info = None, p_line_info_rec_size = 0\<rparr>)
      })"

text \<open>
  \<^verbatim>\<open>bpf_object__add_programs\<close>: the result and the programs of the object. \<open>grow_ok\<close> and \<open>alloc_ok\<close> say
  for each number of programs so far whether the array can be enlarged and the program allocated.
\<close>

fun add_programs :: "(nat \<Rightarrow> bool) \<Rightarrow> (nat \<Rightarrow> bool) \<Rightarrow> nat \<Rightarrow> u8 list \<Rightarrow> u8 list \<Rightarrow> nat \<Rightarrow> elf_sym list \<Rightarrow> program list \<Rightarrow>
    (int \<times> program list) option" where
  "add_programs grow_ok alloc_ok text_shndx data sec_name sec_idx [] progs = Some (0, progs)"
| "add_programs grow_ok alloc_ok text_shndx data sec_name sec_idx (esym # syms) progs =
     (if sy_shndx esym \<noteq> sec_idx \<or> sy_type esym \<noteq> STT_FUNC
      then add_programs grow_ok alloc_ok text_shndx data sec_name sec_idx syms progs
      else case sy_name esym of
        None \<Rightarrow> Some (- LIBBPF_ERRNO__FORMAT, progs)
      | Some name \<Rightarrow>
          if sy_value esym + sy_size esym > of_nat (length data) then Some (- LIBBPF_ERRNO__FORMAT, progs)
          else if sec_idx \<noteq> text_shndx \<and> sy_bind esym = STB_LOCAL then Some (- ENOTSUP, progs)
          else if \<not> grow_ok (length progs) then Some (- ENOMEM, progs)
          else do {
            r \<leftarrow> init_prog (alloc_ok (length progs)) name sec_idx sec_name (sy_value esym) data (sy_size esym);
            case r of
              Inl err \<Rightarrow> Some (err, progs)
            | Inr prog \<Rightarrow>
                let static = sy_bind esym \<noteq> STB_LOCAL \<and>
                      (sy_visibility esym = STV_HIDDEN \<or> sy_visibility esym = STV_INTERNAL)
                 in add_programs grow_ok alloc_ok text_shndx data sec_name sec_idx syms
                      (progs @ [prog\<lparr>p_mark_btf_static := static\<rparr>])
          })"

section \<open>Relocation descriptors\<close>

definition sym_is_extern :: "elf_sym \<Rightarrow> bool" where
  "sym_is_extern esym \<longleftrightarrow>
     sy_shndx esym = SHN_UNDEF \<and> (sy_bind esym = STB_GLOBAL \<or> sy_bind esym = STB_WEAK) \<and>
     sy_type esym = STT_NOTYPE"

definition sym_is_subprog :: "elf_sym \<Rightarrow> nat \<Rightarrow> bool" where
  "sym_is_subprog esym text_shndx \<longleftrightarrow>
     (if sy_shndx esym \<noteq> text_shndx then False
      else if sy_bind esym = STB_LOCAL \<and> sy_type esym = STT_SECTION then True
      else sy_bind esym = STB_GLOBAL \<and> sy_type esym = STT_FUNC)"

definition shndx_is_data :: "prog_obj \<Rightarrow> nat \<Rightarrow> bool option" where
  "shndx_is_data obj shndx = do {
     t \<leftarrow> rd (ob_secs obj) shndx;
     Some (t = SEC_BSS \<or> t = SEC_DATA \<or> t = SEC_RODATA)
   }"

definition shndx_is_maps :: "prog_obj \<Rightarrow> nat \<Rightarrow> bool" where
  "shndx_is_maps obj shndx \<longleftrightarrow> int shndx = ob_maps_shndx obj \<or> int shndx = ob_btf_maps_shndx obj"

definition section_to_libbpf_map_type :: "prog_obj \<Rightarrow> nat \<Rightarrow> libbpf_map_type option" where
  "section_to_libbpf_map_type obj shndx =
     (if int shndx = ob_symbols_shndx obj then Some LIBBPF_MAP_KCONFIG
      else do {
        t \<leftarrow> rd (ob_secs obj) shndx;
        Some (case t of
          SEC_BSS \<Rightarrow> LIBBPF_MAP_BSS
        | SEC_DATA \<Rightarrow> LIBBPF_MAP_DATA
        | SEC_RODATA \<Rightarrow> LIBBPF_MAP_RODATA
        | _ \<Rightarrow> LIBBPF_MAP_UNSPEC)
      })"

text \<open>A loop that looks for the first element: its index, or the length of the list.\<close>

fun first_idx :: "('a \<Rightarrow> bool) \<Rightarrow> 'a list \<Rightarrow> nat" where
  "first_idx P [] = 0"
| "first_idx P (x # xs) = (if P x then 0 else Suc (first_idx P xs))"

text \<open>
  \<^verbatim>\<open>bpf_program__record_reloc\<close>: the descriptor, or the error on the left. For an extern and for a
  call the code does not write \<^verbatim>\<open>map_idx\<close>, which nothing reads then; it is 0 here.
\<close>

definition extern_reloc :: "prog_obj \<Rightarrow> bpf_insn \<Rightarrow> nat \<Rightarrow> nat \<Rightarrow> int + reloc_desc" where
  "extern_reloc obj insn insn_idx sym_idx =
     (let i = first_idx (\<lambda>ext. ex_sym_idx ext = sym_idx) (ob_externs obj)
       in if i \<ge> length (ob_externs obj) then Inl (- LIBBPF_ERRNO__RELOC)
          else Inr \<lparr>rd_type = (if is_call_insn insn then RELO_EXTERN_FUNC else RELO_EXTERN_VAR),
                    rd_insn_idx = insn_idx, rd_map_idx = 0, rd_sym_off = of_nat i\<rparr>)"

definition call_reloc :: "prog_obj \<Rightarrow> bpf_insn \<Rightarrow> nat \<Rightarrow> elf_sym \<Rightarrow> int + reloc_desc" where
  "call_reloc obj insn insn_idx esym =
     (if src_reg insn \<noteq> BPF_PSEUDO_CALL then Inl (- LIBBPF_ERRNO__RELOC)
      else if sy_shndx esym = 0 \<or> sy_shndx esym \<noteq> ob_text_shndx obj then Inl (- LIBBPF_ERRNO__RELOC)
      else if sy_value esym mod 8 \<noteq> 0 then Inl (- LIBBPF_ERRNO__RELOC)
      else Inr \<lparr>rd_type = RELO_CALL, rd_insn_idx = insn_idx, rd_map_idx = 0,
                rd_sym_off = ucast (sy_value esym)\<rparr>)"

definition map_reloc :: "prog_obj \<Rightarrow> nat \<Rightarrow> elf_sym \<Rightarrow> (int + reloc_desc) option" where
  "map_reloc obj insn_idx esym = do {
     t \<leftarrow> section_to_libbpf_map_type obj (sy_shndx esym);
     if t = LIBBPF_MAP_UNSPEC then
       if \<not> shndx_is_maps obj (sy_shndx esym) then Some (Inl (- LIBBPF_ERRNO__RELOC))
       else let i = first_idx (\<lambda>m. om_libbpf_type m = t \<and> om_sec_idx m = sy_shndx esym \<and>
                                    om_sec_offset m = sy_value esym) (ob_maps obj)
             in Some (if i \<ge> length (ob_maps obj) then Inl (- LIBBPF_ERRNO__RELOC)
                      else Inr \<lparr>rd_type = RELO_LD64, rd_insn_idx = insn_idx, rd_map_idx = i, rd_sym_off = 0\<rparr>)
     else do {
       data \<leftarrow> shndx_is_data obj (sy_shndx esym);
       if \<not> data then Some (Inl (- LIBBPF_ERRNO__RELOC))
       else let i = first_idx (\<lambda>m. om_libbpf_type m = t \<and> om_sec_idx m = sy_shndx esym) (ob_maps obj)
             in Some (if i \<ge> length (ob_maps obj) then Inl (- LIBBPF_ERRNO__RELOC)
                      else Inr \<lparr>rd_type = RELO_DATA, rd_insn_idx = insn_idx, rd_map_idx = i,
                                rd_sym_off = ucast (sy_value esym)\<rparr>)
     }
   }"

definition record_reloc :: "prog_obj \<Rightarrow> bpf_insn list \<Rightarrow> nat \<Rightarrow> elf_sym \<Rightarrow> nat \<Rightarrow> (int + reloc_desc) option" where
  "record_reloc obj insns insn_idx esym sym_idx = do {
     insn \<leftarrow> rd insns insn_idx;
     if \<not> is_call_insn insn \<and> \<not> is_ldimm64_insn insn then Some (Inl (- LIBBPF_ERRNO__RELOC))
     else if sym_is_extern esym then Some (extern_reloc obj insn insn_idx sym_idx)
     else if is_call_insn insn then Some (call_reloc obj insn insn_idx esym)
     else if sy_shndx esym = 0 \<or> sy_shndx esym \<ge> SHN_LORESERVE then Some (Inl (- LIBBPF_ERRNO__RELOC))
     else if sym_is_subprog esym (ob_text_shndx obj) then
       Some (if sy_value esym mod 8 \<noteq> 0 \<or> (scast (i_imm insn) :: u64) mod 8 \<noteq> 0
             then Inl (- LIBBPF_ERRNO__RELOC)
             else Inr \<lparr>rd_type = RELO_SUBPROG_ADDR, rd_insn_idx = insn_idx, rd_map_idx = 0,
                       rd_sym_off = ucast (sy_value esym)\<rparr>)
     else map_reloc obj insn_idx esym
   }"

text \<open>The program of an object that has an instruction of a section.\<close>

definition prog_by_sec_insn :: "program list \<Rightarrow> nat \<Rightarrow> nat \<Rightarrow> nat option option" where
  "prog_by_sec_insn progs = find_prog_by_sec_insn (map core_prog.truncate progs)"

text \<open>
  \<^verbatim>\<open>bpf_object__collect_prog_relos\<close>: the loop over the relocation records of a section, whose
  contents have \<open>d_size\<close> bytes. \<open>alloc_ok\<close> says for each record, by the number of those behind it,
  whether its descriptor can be allocated.
\<close>

fun collect_relos :: "(nat \<Rightarrow> bool) \<Rightarrow> prog_obj \<Rightarrow> nat \<Rightarrow> u64 \<Rightarrow> elf_rel option list \<Rightarrow> program list \<Rightarrow>
    (int \<times> program list) option" where
  "collect_relos alloc_ok obj sec_idx d_size [] progs = Some (0, progs)"
| "collect_relos alloc_ok obj sec_idx d_size (None # rels) progs = Some (- LIBBPF_ERRNO__FORMAT, progs)"
| "collect_relos alloc_ok obj sec_idx d_size (Some rel # rels) progs =
     (case rd (ob_syms obj) (r_sym rel) of
        None \<Rightarrow> Some (- LIBBPF_ERRNO__FORMAT, progs)
      | Some esym \<Rightarrow>
          if sy_shndx esym \<ge> ob_sec_cnt obj then Some (- LIBBPF_ERRNO__FORMAT, progs)
          else if r_offset rel mod 8 \<noteq> 0 \<or> r_offset rel \<ge> d_size then Some (- LIBBPF_ERRNO__FORMAT, progs)
          else let insn_idx = unat (ucast (r_offset rel div 8) :: u32)
            in do {
              p \<leftarrow> prog_by_sec_insn progs sec_idx insn_idx;
              case p of
                None \<Rightarrow> collect_relos alloc_ok obj sec_idx d_size rels progs
              | Some i \<Rightarrow>
                  if \<not> alloc_ok (length rels) then Some (- ENOMEM, progs)
                  else do {
                    let prog = progs ! i;
                    r \<leftarrow> record_reloc obj (p_insns prog) (insn_idx - p_sec_insn_off prog) esym (r_sym rel);
                    case r of
                      Inl err \<Rightarrow> Some (err, progs)
                    | Inr relo \<Rightarrow>
                        collect_relos alloc_ok obj sec_idx d_size rels
                          (progs[i := prog\<lparr>p_relos := p_relos prog @ [relo]\<rparr>])
                  }
            })"

definition collect_prog_relos :: "(nat \<Rightarrow> bool) \<Rightarrow> bool \<Rightarrow> prog_obj \<Rightarrow> nat \<Rightarrow> u64 \<Rightarrow> elf_rel option list \<Rightarrow> program list \<Rightarrow>
    (int \<times> program list) option" where
  "collect_prog_relos alloc_ok names_ok obj sec_idx d_size rels progs =
     (if sec_idx \<ge> ob_sec_cnt obj then Some (- EINVAL, progs)
      else if \<not> names_ok then Some (- EINVAL, progs)
      else collect_relos alloc_ok obj sec_idx d_size rels progs)"

section \<open>What the programs of a section are\<close>

definition is_func :: "nat \<Rightarrow> elf_sym \<Rightarrow> bool" where
  "is_func sec_idx esym \<longleftrightarrow> sy_shndx esym = sec_idx \<and> sy_type esym = STT_FUNC"

text \<open>The program a function symbol stands for.\<close>

definition sym_prog :: "u8 list \<Rightarrow> u8 list \<Rightarrow> nat \<Rightarrow> elf_sym \<Rightarrow> program" where
  "sym_prog data sec_name sec_idx esym =
     (let off = unat (sy_value esym) div 8; cnt = unat (sy_size esym) div 8
       in \<lparr>p_sec_name = sec_name, p_sec_idx = sec_idx, p_sec_insn_off = off, p_sec_insn_cnt = cnt,
           p_insns = map (\<lambda>i. insn_of_bytes (drop (8 * (off + i)) data)) [0..<cnt], p_load = True,
           p_core_relos = [], p_name = the (sy_name esym),
           p_mark_btf_static = (sy_bind esym \<noteq> STB_LOCAL \<and>
             (sy_visibility esym = STV_HIDDEN \<or> sy_visibility esym = STV_INTERNAL)),
           p_sub_insn_off = 0, p_relos = [], p_func_info = None, p_func_info_rec_size = 0,
           p_line_info = None, p_line_info_rec_size = 0\<rparr>)"

text \<open>The symbols that make a correct program of a section.\<close>

definition func_ok :: "nat \<Rightarrow> u8 list \<Rightarrow> nat \<Rightarrow> elf_sym \<Rightarrow> bool" where
  "func_ok text_shndx data sec_idx esym \<longleftrightarrow>
     sy_name esym \<noteq> None \<and> (sec_idx = text_shndx \<or> sy_bind esym \<noteq> STB_LOCAL) \<and>
     0 < unat (sy_size esym) \<and> unat (sy_size esym) mod 8 = 0 \<and> unat (sy_value esym) mod 8 = 0 \<and>
     unat (sy_value esym) + unat (sy_size esym) \<le> length data"

lemma word64_mod_8 [simp]: "(x :: u64) mod 8 = 0 \<longleftrightarrow> unat x mod 8 = 0"
proof -
  have "unat (x mod 8) = unat x mod 8" by (simp add: unat_mod)
  then show ?thesis by (metis unat_eq_0)
qed

lemma word64_div_8 [simp]: "unat ((x :: u64) div 8) = unat x div 8"
  by (simp add: unat_div)

lemma init_prog_result:
  assumes "unat (sy_value esym) + unat (sy_size esym) \<le> length data"
  shows "init_prog alloc_ok (the (sy_name esym)) sec_idx sec_name (sy_value esym) data (sy_size esym) =
    Some (if sy_size esym = 0 \<or> unat (sy_size esym) mod 8 \<noteq> 0 \<or> unat (sy_value esym) mod 8 \<noteq> 0 then Inl (- EINVAL)
          else if \<not> alloc_ok then Inl (- ENOMEM)
          else Inr ((sym_prog data sec_name sec_idx esym)\<lparr>p_mark_btf_static := False\<rparr>))"
proof -
  have "8 * (unat (sy_value esym) div 8) = unat (sy_value esym)" if "unat (sy_value esym) mod 8 = 0"
    using that by (simp add: mult_div_mod_eq [symmetric] minus_mod_eq_mult_div [symmetric])
  then show ?thesis using assms
    by (simp add: init_prog_def copy_insns_def sym_prog_def Let_def distrib_left)
qed

lemma u64_sum_le:
  assumes "unat (a :: u64) + unat b < 2 ^ 64" "n < 2 ^ 64"
  shows "a + b > of_nat n \<longleftrightarrow> unat a + unat b > n"
proof -
  have "unat (a + b) = unat a + unat b" using assms(1) by (simp add: unat_word_ariths)
  moreover have "unat (of_nat n :: u64) = n" using assms(2) by (simp add: unat_of_nat)
  ultimately show ?thesis by (simp add: word_less_nat_alt)
qed

lemma add_programs_outcome:
  assumes "length data < 2 ^ 64"
    "\<forall>esym \<in> set syms. is_func sec_idx esym \<longrightarrow> unat (sy_value esym) + unat (sy_size esym) < 2 ^ 64"
  shows "\<exists>err fs rest. filter (is_func sec_idx) syms = fs @ rest \<and>
    add_programs grow_ok alloc_ok text_shndx data sec_name sec_idx syms progs =
      Some (err, progs @ map (sym_prog data sec_name sec_idx) fs) \<and>
    (\<forall>esym \<in> set fs. func_ok text_shndx data sec_idx esym) \<and>
    (err = 0 \<longleftrightarrow> rest = []) \<and> 
    (let n = length progs + length fs
      in grow_ok n \<and> alloc_ok n \<and> rest \<noteq> [] \<longrightarrow> \<not> func_ok text_shndx data sec_idx (hd rest))"
  using assms(2)
proof (induction syms arbitrary: progs)
  case Nil
  then show ?case by simp
next
  case (Cons esym syms)
  note IH = Cons.IH
  have rest: "\<forall>esym \<in> set syms. is_func sec_idx esym \<longrightarrow> unat (sy_value esym) + unat (sy_size esym) < 2 ^ 64"
    using Cons.prems by simp
  let ?stop = "\<lambda>err. add_programs grow_ok alloc_ok text_shndx data sec_name sec_idx (esym # syms) progs =
      Some (err, progs) \<and> err \<noteq> 0 \<and> (grow_ok (length progs) \<and> alloc_ok (length progs) \<longrightarrow> \<not> func_ok text_shndx data sec_idx esym)"
  show ?case
  proof (cases "is_func sec_idx esym")
    case False
    then have "add_programs grow_ok alloc_ok text_shndx data sec_name sec_idx (esym # syms) progs =
      add_programs grow_ok alloc_ok text_shndx data sec_name sec_idx syms progs" by (simp add: is_func_def)
    then show ?thesis using IH [OF rest, of progs] False by simp
  next
    case True
    have stopped: ?thesis if "?stop err" for err
      using that True by (intro exI [of _ err] exI [of _ "[]"] exI [of _ "filter (is_func sec_idx) (esym # syms)"]) simp
    have sum: "sy_value esym + sy_size esym > of_nat (length data) \<longleftrightarrow>
        unat (sy_value esym) + unat (sy_size esym) > length data"
      using Cons.prems True assms(1) by (intro u64_sum_le) auto
    note step = True [unfolded is_func_def] sum
    consider (name) "sy_name esym = None" | (big) "\<not> unat (sy_value esym) + unat (sy_size esym) \<le> length data"
      | (static) "sec_idx \<noteq> text_shndx" "sy_bind esym = STB_LOCAL" | (ok) name where "sy_name esym = Some name"
        "unat (sy_value esym) + unat (sy_size esym) \<le> length data" "\<not> (sec_idx \<noteq> text_shndx \<and> sy_bind esym = STB_LOCAL)"
      by fastforce
    then show ?thesis
    proof cases
      case name
      then show ?thesis using step by (intro stopped) (auto simp: func_ok_def c_consts)
    next
      case big
      then show ?thesis using step
        by (intro stopped [of "if sy_name esym = None then - LIBBPF_ERRNO__FORMAT else - LIBBPF_ERRNO__FORMAT"])
          (auto simp: func_ok_def c_consts split: option.split)
    next
      case static
      then show ?thesis using step
        by (intro stopped [of "if sy_name esym = None \<or> unat (sy_value esym) + unat (sy_size esym) > length data
            then - LIBBPF_ERRNO__FORMAT else - ENOTSUP"]) (auto simp: func_ok_def c_consts split: option.split)
    next
      case ok
      note init = init_prog_result [OF ok(2), of "alloc_ok (length progs)" sec_idx sec_name]
      show ?thesis
      proof (cases "grow_ok (length progs) \<and> alloc_ok (length progs) \<and> func_ok text_shndx data sec_idx esym")
        case False
        then show ?thesis using step ok init
          by (intro stopped [of "if \<not> grow_ok (length progs) then - ENOMEM else if sy_size esym = 0 \<or> unat (sy_size esym) mod 8 \<noteq> 0
              \<or> unat (sy_value esym) mod 8 \<noteq> 0 then - EINVAL else - ENOMEM"])
            (auto simp: func_ok_def c_consts unat_gt_0)
      next
        case True
        then have "add_programs grow_ok alloc_ok text_shndx data sec_name sec_idx (esym # syms) progs =
            add_programs grow_ok alloc_ok text_shndx data sec_name sec_idx syms
              (progs @ [sym_prog data sec_name sec_idx esym])"
          using step ok init by (auto simp: func_ok_def Let_def sym_prog_def)
        moreover from IH [OF rest, of "progs @ [sym_prog data sec_name sec_idx esym]"] obtain err fs rest' where
          "filter (is_func sec_idx) syms = fs @ rest'"
          "add_programs grow_ok alloc_ok text_shndx data sec_name sec_idx syms (progs @ [sym_prog data sec_name sec_idx esym]) =
             Some (err, (progs @ [sym_prog data sec_name sec_idx esym]) @ map (sym_prog data sec_name sec_idx) fs)"
          "\<forall>esym \<in> set fs. func_ok text_shndx data sec_idx esym" "err = 0 \<longleftrightarrow> rest' = []"
          "let n = length (progs @ [sym_prog data sec_name sec_idx esym]) + length fs
             in grow_ok n \<and> alloc_ok n \<and> rest' \<noteq> [] \<longrightarrow> \<not> func_ok text_shndx data sec_idx (hd rest')" by blast
        ultimately show ?thesis using True \<open>is_func sec_idx esym\<close>
          by (intro exI [of _ err] exI [of _ "esym # fs"] exI [of _ rest']) simp
      qed
    qed
  qed
qed

section \<open>What the descriptors are\<close>

text \<open>A descriptor that fits the instruction it is for and refers to what the object has.\<close>

definition relo_ok :: "prog_obj \<Rightarrow> bpf_insn list \<Rightarrow> reloc_desc \<Rightarrow> bool" where
  "relo_ok obj insns r \<longleftrightarrow> rd_insn_idx r < length insns \<and>
     (let insn = insns ! rd_insn_idx r
       in case rd_type r of
            RELO_LD64 \<Rightarrow> is_ldimm64_insn insn \<and> rd_map_idx r < length (ob_maps obj)
          | RELO_DATA \<Rightarrow> is_ldimm64_insn insn \<and> rd_map_idx r < length (ob_maps obj)
          | RELO_EXTERN_VAR \<Rightarrow> is_ldimm64_insn insn \<and> unat (rd_sym_off r) < length (ob_externs obj)
          | RELO_EXTERN_FUNC \<Rightarrow> is_call_insn insn \<and> unat (rd_sym_off r) < length (ob_externs obj)
          | RELO_SUBPROG_ADDR \<Rightarrow> is_ldimm64_insn insn
          | RELO_CALL \<Rightarrow> is_call_insn insn \<and> src_reg insn = BPF_PSEUDO_CALL
          | RELO_CORE \<Rightarrow> True)"

definition prog_ok :: "prog_obj \<Rightarrow> program \<Rightarrow> bool" where
  "prog_ok obj p \<longleftrightarrow> 0 < p_sec_insn_cnt p \<and> p_sec_insn_cnt p = length (p_insns p) \<and>
     (\<forall>r \<in> set (p_relos p). relo_ok obj (p_insns p) r)"

definition obj_ok :: "prog_obj \<Rightarrow> bool" where
  "obj_ok obj \<longleftrightarrow> ob_sec_cnt obj \<le> length (ob_secs obj) \<and> length (ob_externs obj) < 2 ^ 31"

text \<open>Two programs that differ in their descriptors only.\<close>

definition same_code :: "program \<Rightarrow> program \<Rightarrow> bool" where
  "same_code p q \<longleftrightarrow> q = p\<lparr>p_relos := p_relos q\<rparr>"

lemma same_code_refl [simp]: "same_code p p"
  by (simp add: same_code_def)

lemma same_code_trans: "same_code p q \<Longrightarrow> same_code q r \<Longrightarrow> same_code p r"
  by (cases p, cases q, cases r) (simp add: same_code_def)

lemma same_code_truncate: "same_code p q \<Longrightarrow> core_prog.truncate q = core_prog.truncate p"
  by (cases p, cases q) (simp add: same_code_def core_prog.defs)

lemma first_idx_less: "first_idx P xs < length xs \<Longrightarrow> P (xs ! first_idx P xs)"
  by (induction xs) auto

lemma map_reloc_ok:
  assumes "obj_ok obj" "sy_shndx esym < ob_sec_cnt obj" "insn_idx < length insns" "is_ldimm64_insn (insns ! insn_idx)"
  shows "\<exists>r. map_reloc obj insn_idx esym = Some r \<and> (\<forall>relo. r = Inr relo \<longrightarrow> relo_ok obj insns relo)"
  using assms
  by (auto simp: map_reloc_def section_to_libbpf_map_type_def shndx_is_data_def obj_ok_def rd_def relo_ok_def Let_def)

lemma record_reloc_ok:
  assumes "obj_ok obj" "sy_shndx esym < ob_sec_cnt obj" "insn_idx < length insns"
  shows "\<exists>r. record_reloc obj insns insn_idx esym sym_idx = Some r \<and>
    (\<forall>relo. r = Inr relo \<longrightarrow> relo_ok obj insns relo)"
proof -
  let ?insn = "insns ! insn_idx"
  have externs: "unat (of_nat i :: u32) = i" if "i < length (ob_externs obj)" for i
    using that assms(1) by (intro of_nat_unat_u32) (simp add: obj_ok_def)
  consider (invalid) "\<not> is_call_insn ?insn" "\<not> is_ldimm64_insn ?insn"
    | (extern) "is_call_insn ?insn \<or> is_ldimm64_insn ?insn" "sym_is_extern esym"
    | (call) "is_call_insn ?insn" "\<not> sym_is_extern esym"
    | (load) "\<not> is_call_insn ?insn" "is_ldimm64_insn ?insn" "\<not> sym_is_extern esym" by blast
  then show ?thesis
  proof cases
    case extern
    then show ?thesis using assms externs
      by (auto simp: record_reloc_def extern_reloc_def Let_def rd_def relo_ok_def)
  next
    case call
    then show ?thesis using assms by (auto simp: record_reloc_def call_reloc_def rd_def relo_ok_def)
  next
    case load
    from map_reloc_ok [OF assms load(2)] show ?thesis using load assms
      by (auto simp: record_reloc_def rd_def relo_ok_def)
  qed (use assms in \<open>auto simp: record_reloc_def rd_def\<close>)
qed

lemma prog_by_sec_insn_result:
  assumes "sorted_wrt prog_before (map core_prog.truncate progs)" "progs \<noteq> []"
  shows "\<exists>r. prog_by_sec_insn progs s k = Some r \<and>
    (\<forall>i. r = Some i \<longleftrightarrow> i < length progs \<and> p_sec_idx (progs ! i) = s \<and> p_sec_insn_off (progs ! i) \<le> k \<and>
       k < p_sec_insn_off (progs ! i) + p_sec_insn_cnt (progs ! i))"
proof -
  have "map core_prog.truncate progs \<noteq> []" using assms(2) by simp
  from find_prog_by_sec_insn_result [OF assms(1) this, of s k] obtain r where
    r: "find_prog_by_sec_insn (map core_prog.truncate progs) s k = Some r"
    "\<And>i. r = Some i \<longleftrightarrow> i < length (map core_prog.truncate progs) \<and> p_sec_idx (map core_prog.truncate progs ! i) = s \<and>
       prog_contains_insn (map core_prog.truncate progs ! i) k" by blast
  have "r = Some i \<longleftrightarrow> i < length progs \<and> p_sec_idx (progs ! i) = s \<and> p_sec_insn_off (progs ! i) \<le> k \<and>
       k < p_sec_insn_off (progs ! i) + p_sec_insn_cnt (progs ! i)" for i
    using r(2) [of i] by (cases "i < length progs") (simp_all add: prog_contains_insn_def core_prog.defs)
  then show ?thesis using r(1) by (auto simp: prog_by_sec_insn_def)
qed

lemma add_relo_ok:
  assumes "prog_ok obj p" "relo_ok obj (p_insns p) relo"
  shows "prog_ok obj (p\<lparr>p_relos := p_relos p @ [relo]\<rparr>)"
  using assms by (auto simp: prog_ok_def)

lemma list_all2_update_right: "list_all2 P xs ys \<Longrightarrow> i < length xs \<Longrightarrow> P (xs ! i) y \<Longrightarrow> list_all2 P xs (ys[i := y])"
  by (metis list_all2_update_cong list_update_id)

lemma collect_relos_valid:
  assumes "rd (ob_syms obj) (r_sym r) = Some esym" "\<not> sy_shndx esym \<ge> ob_sec_cnt obj"
    "\<not> (r_offset r mod 8 \<noteq> 0 \<or> r_offset r \<ge> d_size)"
  shows "collect_relos alloc_ok obj sec_idx d_size (Some r # rels) progs =
    (let insn_idx = unat (ucast (r_offset r div 8) :: u32)
      in do {
        p \<leftarrow> prog_by_sec_insn progs sec_idx insn_idx;
        case p of
          None \<Rightarrow> collect_relos alloc_ok obj sec_idx d_size rels progs
        | Some i \<Rightarrow>
            if \<not> alloc_ok (length rels) then Some (- ENOMEM, progs)
            else do {
              res \<leftarrow> record_reloc obj (p_insns (progs ! i)) (insn_idx - p_sec_insn_off (progs ! i)) esym (r_sym r);
              case res of
                Inl err \<Rightarrow> Some (err, progs)
              | Inr relo \<Rightarrow>
                  collect_relos alloc_ok obj sec_idx d_size rels
                    (progs[i := (progs ! i)\<lparr>p_relos := p_relos (progs ! i) @ [relo]\<rparr>])
            }
      })"
  by (simp only: collect_relos.simps assms option.case if_False Let_def)

lemma collect_relos_continue:
  assumes "obj_ok obj" "sorted_wrt prog_before (map core_prog.truncate progs)" "progs \<noteq> []"
    "\<forall>p \<in> set progs. prog_ok obj p"
    "rd (ob_syms obj) (r_sym r) = Some esym" "\<not> sy_shndx esym \<ge> ob_sec_cnt obj"
    "\<not> (r_offset r mod 8 \<noteq> 0 \<or> r_offset r \<ge> d_size)"
  obtains (stop) err where "collect_relos alloc_ok obj sec_idx d_size (Some r # rels) progs = Some (err, progs)"
  | (skip) "collect_relos alloc_ok obj sec_idx d_size (Some r # rels) progs = collect_relos alloc_ok obj sec_idx d_size rels progs"
  | (added) i relo where "i < length progs" "relo_ok obj (p_insns (progs ! i)) relo"
      "collect_relos alloc_ok obj sec_idx d_size (Some r # rels) progs =
        collect_relos alloc_ok obj sec_idx d_size rels
          (progs[i := (progs ! i)\<lparr>p_relos := p_relos (progs ! i) @ [relo]\<rparr>])"
proof -
  let ?k = "unat (ucast (r_offset r div 8) :: u32)"
  note step = collect_relos_valid [OF assms(5-7), of alloc_ok sec_idx rels progs]
  from prog_by_sec_insn_result [OF assms(2,3), of sec_idx ?k] obtain p where
    p: "prog_by_sec_insn progs sec_idx ?k = Some p"
    "\<forall>i. p = Some i \<longleftrightarrow> i < length progs \<and> p_sec_idx (progs ! i) = sec_idx \<and>
      p_sec_insn_off (progs ! i) \<le> ?k \<and> ?k < p_sec_insn_off (progs ! i) + p_sec_insn_cnt (progs ! i)" by blast
  show thesis
  proof (cases p)
    case None
    show thesis by (rule skip, unfold step) (simp only: Let_def p(1) None bind.bind_lunit option.case)
  next
    case (Some i)
    note at = iffD1 [OF spec [OF p(2), of i] Some]
    then have i: "i < length progs" by (rule conjunct1)
    have idx: "?k - p_sec_insn_off (progs ! i) < p_sec_insn_cnt (progs ! i)" using at by (elim conjE) (rule less_diff_conv2 [THEN iffD2], simp_all add: add.commute)
    have "?k - p_sec_insn_off (progs ! i) < length (p_insns (progs ! i))"
      using assms(4) nth_mem [OF i] idx by (metis prog_ok_def)
    from record_reloc_ok [OF assms(1) _ this, of esym "r_sym r"] assms(6) obtain res where
      res: "record_reloc obj (p_insns (progs ! i)) (?k - p_sec_insn_off (progs ! i)) esym (r_sym r) = Some res"
      "\<forall>relo. res = Inr relo \<longrightarrow> relo_ok obj (p_insns (progs ! i)) relo" by (auto simp: not_le)
    note step = step [simplified Let_def, unfolded p(1) bind.bind_lunit Some option.case, unfolded res(1) bind.bind_lunit]
    show thesis
    proof (cases "alloc_ok (length rels)")
      case False
      show thesis by (rule stop, unfold step) (simp only: False not_False_eq_True if_True)
    next
      case True
      show thesis
      proof (cases res)
        case (Inl err)
        show thesis by (rule stop, unfold step) (simp only: True Inl not_True_eq_False if_False sum.case)
      next
        case (Inr relo)
        show thesis
          by (rule added [OF i], use res(2) Inr in blast, unfold step) (simp only: True Inr not_True_eq_False if_False sum.case)
      qed
    qed
  qed
qed

lemma collect_relos_step:
  assumes "obj_ok obj" "sorted_wrt prog_before (map core_prog.truncate progs)" "progs \<noteq> []"
    "\<forall>p \<in> set progs. prog_ok obj p"
  obtains (stop) err where "collect_relos alloc_ok obj sec_idx d_size (rel # rels) progs = Some (err, progs)"
  | (skip) "collect_relos alloc_ok obj sec_idx d_size (rel # rels) progs = collect_relos alloc_ok obj sec_idx d_size rels progs"
  | (added) i relo where "i < length progs" "relo_ok obj (p_insns (progs ! i)) relo"
      "collect_relos alloc_ok obj sec_idx d_size (rel # rels) progs =
        collect_relos alloc_ok obj sec_idx d_size rels
          (progs[i := (progs ! i)\<lparr>p_relos := p_relos (progs ! i) @ [relo]\<rparr>])"
proof -
  consider (unread) "rel = None" | (unknown) r where "rel = Some r" "rd (ob_syms obj) (r_sym r) = None"
    | (undefined) r esym where "rel = Some r" "rd (ob_syms obj) (r_sym r) = Some esym" "sy_shndx esym \<ge> ob_sec_cnt obj"
    | (offset) r esym where "rel = Some r" "rd (ob_syms obj) (r_sym r) = Some esym" "\<not> sy_shndx esym \<ge> ob_sec_cnt obj"
        "r_offset r mod 8 \<noteq> 0 \<or> r_offset r \<ge> d_size"
    | (valid) r esym where "rel = Some r" "rd (ob_syms obj) (r_sym r) = Some esym" "\<not> sy_shndx esym \<ge> ob_sec_cnt obj"
        "\<not> (r_offset r mod 8 \<noteq> 0 \<or> r_offset r \<ge> d_size)"
    by (cases rel; cases "rd (ob_syms obj) (r_sym (the rel))") (metis option.sel)+
  then show thesis
  proof cases
    case (valid r esym)
    from collect_relos_continue [OF assms valid(2-4)] valid(1) show thesis using stop skip added by metis
  qed (rule stop, simp only: collect_relos.simps option.case if_True if_False)+
qed

lemma collect_relos_outcome:
  assumes "obj_ok obj" "sorted_wrt prog_before (map core_prog.truncate progs)" "progs \<noteq> []"
    "\<forall>p \<in> set progs. prog_ok obj p"
  shows "\<exists>err progs'. collect_relos alloc_ok obj sec_idx d_size rels progs = Some (err, progs') \<and>
    list_all2 same_code progs progs' \<and> (\<forall>p \<in> set progs'. prog_ok obj p)"
  using assms(2-4)
proof (induction rels arbitrary: progs)
  case Nil
  then show ?case by (simp add: list_all2_refl)
next
  case (Cons rel rels)
  have same: "list_all2 same_code progs progs" by (simp add: list_all2_refl)
  from assms(1) Cons.prems show ?case
  proof (cases rule: collect_relos_step [where alloc_ok = alloc_ok and sec_idx = sec_idx and d_size = d_size
      and rel = rel and rels = rels])
    case stop
    then show ?thesis using same Cons.prems(3) by blast
  next
    case skip
    then show ?thesis using Cons.IH [OF Cons.prems] by simp
  next
    case (added i relo)
    let ?p = "(progs ! i)\<lparr>p_relos := p_relos (progs ! i) @ [relo]\<rparr>"
    let ?progs = "progs[i := ?p]"
    have code: "same_code (progs ! i) ?p" by (simp add: same_code_def)
    then have upd: "list_all2 same_code progs ?progs" using same added(1) by (simp add: list_all2_update_right)
    have trunc: "map core_prog.truncate ?progs = map core_prog.truncate progs"
      using same_code_truncate [OF code] added(1) by (simp add: map_update list_update_same_conv)
    have "prog_ok obj (progs ! i)" using added(1) Cons.prems(3) by simp
    from add_relo_ok [OF this added(2)]
    have "\<forall>p \<in> set ?progs. prog_ok obj p"
      using Cons.prems(3) set_update_subset_insert [of progs i ?p] by blast
    from Cons.IH [OF _ _ this] trunc Cons.prems(1,2) obtain err progs' where
      "collect_relos alloc_ok obj sec_idx d_size rels ?progs = Some (err, progs')"
      "list_all2 same_code ?progs progs'" "\<forall>p \<in> set progs'. prog_ok obj p" by auto
    moreover from list_all2_trans [OF same_code_trans upd this(2)] have "list_all2 same_code progs progs'" .
    ultimately show ?thesis using added(3) by simp
  qed
qed

section \<open>Properties\<close>

text \<open>
  C18: the programs of a section are its function symbols in order, each with the instructions
  decoded from its part of the section, up to the first symbol that has no name, lies outside the
  section or between instructions, or is local to a section that is not \<^verbatim>\<open>.text\<close>; only then, or
  when an allocation fails, an error is returned. No symbol's value and size may add up to more
  than 64 bits.
\<close>

theorem section_programs:
  assumes "length data < 2 ^ 64"
    "\<forall>esym \<in> set syms. is_func sec_idx esym \<longrightarrow> unat (sy_value esym) + unat (sy_size esym) < 2 ^ 64"
  shows "\<exists>err fs rest. filter (is_func sec_idx) syms = fs @ rest \<and>
    add_programs grow_ok alloc_ok text_shndx data sec_name sec_idx syms progs =
      Some (err, progs @ map (sym_prog data sec_name sec_idx) fs) \<and>
    (\<forall>esym \<in> set fs. func_ok text_shndx data sec_idx esym) \<and>
    (err = 0 \<longleftrightarrow> rest = []) \<and> 
    (let n = length progs + length fs
      in grow_ok n \<and> alloc_ok n \<and> rest \<noteq> [] \<longrightarrow> \<not> func_ok text_shndx data sec_idx (hd rest))"
  by (rule add_programs_outcome [OF assms])

definition func_sym :: "u8 list \<Rightarrow> nat \<Rightarrow> u64 \<Rightarrow> u64 \<Rightarrow> elf_sym" where
  "func_sym name sec_idx off n =
     \<lparr>sy_name = Some name, sy_type = STT_FUNC, sy_bind = STB_GLOBAL, sy_visibility = 0, sy_shndx = sec_idx,
      sy_value = off, sy_size = n\<rparr>"

definition three_insns :: "u8 list" where
  "three_insns = [0x85, 0x10, 0, 0, 0xff, 0xff, 0xff, 0xff, 0x95, 0, 0, 0, 0, 0, 0, 0, 0x95, 0, 0, 0, 0, 0, 0, 0]"

lemma section_programs_witness:
  "add_programs (\<lambda>_. True) (\<lambda>_. True) 1 three_insns [0x78] 3 [func_sym [0x61] 3 0 16, func_sym [0x62] 1 0 8, func_sym [0x63] 3 16 8] [] =
     Some (0, map (sym_prog three_insns [0x78] 3) [func_sym [0x61] 3 0 16, func_sym [0x63] 3 16 8])"
proof -
  let ?a = "func_sym [0x61] 3 0 16" and ?b = "func_sym [0x62] 1 0 8" and ?c = "func_sym [0x63] 3 16 8"
  have "length three_insns < 2 ^ 64"
    "\<forall>esym \<in> set [?a, ?b, ?c]. is_func 3 esym \<longrightarrow> unat (sy_value esym) + unat (sy_size esym) < 2 ^ 64"
    by (simp_all add: three_insns_def func_sym_def is_func_def)
  from section_programs [OF this, of "\<lambda>_. True" "\<lambda>_. True" 1 "[0x78]" "[]"] obtain err fs rest where
    fs: "filter (is_func 3) [?a, ?b, ?c] = fs @ rest" and
    run: "add_programs (\<lambda>_. True) (\<lambda>_. True) 1 three_insns [0x78] 3 [?a, ?b, ?c] [] = Some (err, [] @ map (sym_prog three_insns [0x78] 3) fs)" and
    err: "err = 0 \<longleftrightarrow> rest = []" and bad: "rest \<noteq> [] \<longrightarrow> \<not> func_ok 1 three_insns 3 (hd rest)" by auto
  have "fs @ rest = [?a, ?c]" using fs by (simp add: is_func_def func_sym_def)
  moreover have "func_ok 1 three_insns 3 ?a" "func_ok 1 three_insns 3 ?c"
    by (simp_all add: func_ok_def func_sym_def three_insns_def)
  ultimately have "rest = []" using bad by (cases fs) (auto simp: append_eq_Cons_conv Cons_eq_append_conv)
  then show ?thesis using run err \<open>fs @ rest = [?a, ?c]\<close> by simp
qed

text \<open>
  The sum of a symbol's value and size can wrap: the symbol passes the check and the instructions
  are read from in front of the section.
\<close>

lemma symbol_end_wraps:
  "sy_value (func_sym [0x61] 3 (- 8) 8) + sy_size (func_sym [0x61] 3 (- 8) 8) = 0"
  "add_programs (\<lambda>_. True) (\<lambda>_. True) 1 three_insns [0x78] 3 [func_sym [0x61] 3 (- 8) 8] [] = None"
  by (simp_all add: func_sym_def init_prog_def copy_insns_def three_insns_def)

text \<open>
  C17: in an object with at least one program, whose programs are in the order of \<^verbatim>\<open>cmp_progs\<close> without overlap, are not empty
  and have only such descriptors so far (and with fewer than \<open>2\<^sup>3\<^sup>1\<close> externs): whatever the symbols and the relocation
  records of a section hold, collecting them reads no memory outside its bounds and changes
  nothing of the programs but their descriptors, and every descriptor recorded is for an
  instruction of its program that can take it, and refers to a map or extern that the object has.
\<close>

theorem collected_relos_ok:
  assumes "obj_ok obj" "sorted_wrt prog_before (map core_prog.truncate progs)" "progs \<noteq> []"
    "\<forall>p \<in> set progs. prog_ok obj p"
  shows "\<exists>err progs'. collect_prog_relos alloc_ok names_ok obj sec_idx d_size rels progs = Some (err, progs') \<and>
    list_all2 same_code progs progs' \<and> (\<forall>p \<in> set progs'. prog_ok obj p)"
proof (cases "sec_idx \<ge> ob_sec_cnt obj \<or> \<not> names_ok")
  case True
  then have "\<exists>err. collect_prog_relos alloc_ok names_ok obj sec_idx d_size rels progs = Some (err, progs)"
    by (auto simp: collect_prog_relos_def)
  then show ?thesis using assms(4) list_all2_refl [of same_code progs] same_code_refl by blast
next
  case False
  then show ?thesis using collect_relos_outcome [OF assms] by (simp add: collect_prog_relos_def)
qed

definition call_obj :: prog_obj where
  "call_obj = \<lparr>ob_text_shndx = 1, ob_sec_cnt = 4, ob_secs = [SEC_UNUSED, SEC_UNUSED, SEC_UNUSED, SEC_UNUSED],
     ob_symbols_shndx = 2, ob_maps_shndx = - 1, ob_btf_maps_shndx = - 1, ob_syms = [func_sym [0x66] 1 0 8],
     ob_maps = [], ob_externs = [], ob_kconfig_map_idx = 0, ob_gen_loader = False\<rparr>"

definition call_relo :: reloc_desc where
  "call_relo = \<lparr>rd_type = RELO_CALL, rd_insn_idx = 0, rd_map_idx = 0, rd_sym_off = 0\<rparr>"

lemma collect_call_relo:
  "collect_prog_relos (\<lambda>_. True) True call_obj 3 16 [Some \<lparr>r_offset = 0, r_sym = 0\<rparr>]
     [sym_prog three_insns [0x78] 3 (func_sym [0x61] 3 0 16)] =
   Some (0, [(sym_prog three_insns [0x78] 3 (func_sym [0x61] 3 0 16))\<lparr>p_relos := [call_relo]\<rparr>])"
proof -
  let ?p = "sym_prog three_insns [0x78] 3 (func_sym [0x61] 3 0 16)"
  have "prog_by_sec_insn [?p] 3 0 = Some (Some 0)"
    by (simp add: prog_by_sec_insn_def find_prog_by_sec_insn_def find_prog_loop.simps rd_def core_prog.defs
        prog_contains_insn_def sym_prog_def func_sym_def)
  moreover have "rd (p_insns ?p) 0 = Some \<lparr>i_code = 0x85, dst_reg = 0, src_reg = 1, i_off = 0, i_imm = 0xffffffff\<rparr>"
    by (simp add: sym_prog_def func_sym_def rd_def insn_of_bytes_def three_insns_def le16_def le32_def)
  ultimately show ?thesis
    by (simp add: collect_prog_relos_def call_obj_def rd_def record_reloc_def is_call_insn_def sym_is_extern_def
        call_reloc_def call_relo_def func_sym_def sym_prog_def c_consts Let_def)
qed

lemma collected_relos_ok_witness:
  "prog_ok call_obj ((sym_prog three_insns [0x78] 3 (func_sym [0x61] 3 0 16))\<lparr>p_relos := [call_relo]\<rparr>)"
proof -
  let ?p = "sym_prog three_insns [0x78] 3 (func_sym [0x61] 3 0 16)"
  have "obj_ok call_obj" "sorted_wrt prog_before (map core_prog.truncate [?p])" "[?p] \<noteq> []"
    "\<forall>p \<in> set [?p]. prog_ok call_obj p"
    by (simp_all add: obj_ok_def call_obj_def prog_ok_def sym_prog_def func_sym_def)
  from collected_relos_ok [OF this, of "\<lambda>_. True" True 3 16 "[Some \<lparr>r_offset = 0, r_sym = 0\<rparr>]"] show ?thesis
    unfolding collect_call_relo by auto
qed

text \<open>Without any program, the first record that passes the checks makes the search read through NULL.\<close>

lemma collect_relos_no_programs:
  assumes "rd (ob_syms obj) (r_sym r) = Some esym" "\<not> sy_shndx esym \<ge> ob_sec_cnt obj"
    "\<not> (r_offset r mod 8 \<noteq> 0 \<or> r_offset r \<ge> d_size)"
  shows "collect_relos alloc_ok obj sec_idx d_size (Some r # rels) [] = None"
  unfolding collect_relos_valid [OF assms]
  by (simp add: prog_by_sec_insn_def find_prog_by_sec_insn_def find_prog_loop.simps)

end
