(* ===== verification/ProgRelo.thy ===== *)
theory ProgRelo
  imports ProgElf
begin

text \<open>
  Linking the programs of an object, \<^verbatim>\<open>libbpf/src/libbpf.c\<close>: the functions a program calls are
  appended to its instructions and the calls are made relative to where they end up
  (\<^verbatim>\<open>bpf_object__reloc_code\<close>), the debug records follow them (\<^verbatim>\<open>adjust_prog_btf_ext_info\<close>), and
  references to maps and externs get their values (\<^verbatim>\<open>bpf_object__relocate_data\<close>).

  The programs are a list, a pointer to one is its index; \<open>m\<close> is the program that is going to be
  loaded and \<open>p\<close> the one whose instructions are looked at. Sums of \<^verbatim>\<open>int\<close> are taken to wrap. What
  the surroundings give, the debug information and which allocations succeed, is a record.
\<close>

section \<open>Debug records\<close>

text \<open>A part of \<^verbatim>\<open>.BTF.ext\<close>: sections with the offset of their name and their records.\<close>

record btf_ext_info =
  ei_rec_size :: nat
  ei_secs :: "(nat \<times> info_rec list) list"

record link_env =
  le_btf :: btf
  le_ext :: "(btf_ext_info \<times> btf_ext_info) option"
  le_info_ok :: "nat \<Rightarrow> bool"
  le_insns_ok :: "nat \<Rightarrow> bool"
  le_relos_ok :: "nat \<Rightarrow> bool"

text \<open>
  The records of a section that are copied: the positions of \<^verbatim>\<open>copy_start\<close> and \<^verbatim>\<open>copy_end\<close> after the
  loop, which stops at the first record behind the program.
\<close>

fun copy_range :: "nat \<Rightarrow> nat \<Rightarrow> nat \<Rightarrow> info_rec list \<Rightarrow> (nat \<times> nat) option \<Rightarrow> (nat \<times> nat) option" where
  "copy_range off cnt i [] rng = rng"
| "copy_range off cnt i (rec # recs) rng =
     (let insn_off = unat (fst rec) div 8
       in if insn_off < off then copy_range off cnt (i + 1) recs rng
          else if insn_off \<ge> off + cnt then rng
          else copy_range off cnt (i + 1) recs
                 (Some (case rng of None \<Rightarrow> i | Some (s, e) \<Rightarrow> s, i + 1)))"

definition adjust_rec :: "program \<Rightarrow> info_rec \<Rightarrow> info_rec" where
  "adjust_rec prog rec =
     (of_nat (unat (fst rec) div 8) + (of_nat (p_sub_insn_off prog) - of_nat (p_sec_insn_off prog)), snd rec)"

text \<open>
  \<^verbatim>\<open>adjust_prog_btf_ext_info\<close>: the result, the records of the main program and their size. The loop
  over the sections returns at the first with the name of the program's section.
\<close>

fun adjust_info :: "link_env \<Rightarrow> program \<Rightarrow> nat \<Rightarrow> (nat \<times> info_rec list) list \<Rightarrow> info_rec list option \<times> nat \<Rightarrow>
    (int \<times> info_rec list option \<times> nat) option" where
  "adjust_info env prog rec_size [] prog_info = Some (- ENOENT, prog_info)"
| "adjust_info env prog rec_size ((sec_name_off, recs) # secs) prog_info = do {
     sec_name \<leftarrow> btf_name_by_offset (le_btf env) sec_name_off;
     case sec_name of
       None \<Rightarrow> Some (- EINVAL, prog_info)
     | Some sec_name \<Rightarrow>
         if sec_name \<noteq> p_sec_name prog then adjust_info env prog rec_size secs prog_info
         else case copy_range (p_sec_insn_off prog) (p_sec_insn_cnt prog) 0 recs None of
           None \<Rightarrow> Some (- ENOENT, prog_info)
         | Some (s, e) \<Rightarrow>
             let old = (case fst prog_info of None \<Rightarrow> [] | Some old \<Rightarrow> old);
                 new = take (e - s) (drop s recs)
              in if \<not> le_info_ok env (length old + length new) then Some (- ENOMEM, prog_info)
                 else Some (0, Some (old @ map (adjust_rec prog) new), rec_size)
   }"

text \<open>
  One of the two halves of \<^verbatim>\<open>reloc_prog_func_and_line_info\<close>: \<open>None\<close> in the first component means
  that the function goes on. \<open>is_main\<close> says that the program is the main program itself.
\<close>

definition reloc_info :: "link_env \<Rightarrow> btf_ext_info \<Rightarrow> bool \<Rightarrow> program \<Rightarrow> info_rec list option \<times> nat \<Rightarrow>
    (int option \<times> info_rec list option \<times> nat) option" where
  "reloc_info env ext_info is_main prog prog_info =
     (if \<not> is_main \<and> fst prog_info = None then Some (None, prog_info)
      else do {
        (err, prog_info) \<leftarrow> adjust_info env prog (ei_rec_size ext_info) (ei_secs ext_info) prog_info;
        Some (if err \<noteq> 0 \<and> (err \<noteq> - ENOENT \<or> fst prog_info \<noteq> None) then Some err else None, prog_info)
      })"

definition reloc_prog_info :: "link_env \<Rightarrow> nat \<Rightarrow> nat \<Rightarrow> program list \<Rightarrow> (int \<times> program list) option" where
  "reloc_prog_info env m p progs =
     (case le_ext env of
        None \<Rightarrow> Some (0, progs)
      | Some (func_ext, line_ext) \<Rightarrow> do {
          let main = progs ! m;
          (err, func) \<leftarrow> reloc_info env func_ext (m = p) (progs ! p) (p_func_info main, p_func_info_rec_size main);
          let main = main\<lparr>p_func_info := fst func, p_func_info_rec_size := snd func\<rparr>;
          case err of
            Some err \<Rightarrow> Some (err, progs[m := main])
          | None \<Rightarrow> do {
              (err, lines) \<leftarrow> reloc_info env line_ext (m = p) (progs ! p) (p_line_info main, p_line_info_rec_size main);
              let main = main\<lparr>p_line_info := fst lines, p_line_info_rec_size := snd lines\<rparr>;
              Some (case err of Some err \<Rightarrow> err | None \<Rightarrow> 0, progs[m := main])
            }
        })"

section \<open>Calls\<close>

definition cmp_relo_by_insn_idx :: "nat \<Rightarrow> reloc_desc \<Rightarrow> int" where
  "cmp_relo_by_insn_idx insn_idx relo =
     (if insn_idx = rd_insn_idx relo then 0 else if insn_idx < rd_insn_idx relo then - 1 else 1)"

text \<open>The binary search of the C library, between two positions.\<close>

function bsearch_relo :: "nat \<Rightarrow> reloc_desc list \<Rightarrow> nat \<Rightarrow> nat \<Rightarrow> reloc_desc option" where
  "bsearch_relo key relos l u =
     (if l < u then
        let idx = (l + u) div 2; c = cmp_relo_by_insn_idx key (relos ! idx)
         in if c < 0 then bsearch_relo key relos l idx
            else if c > 0 then bsearch_relo key relos (idx + 1) u
            else Some (relos ! idx)
      else None)"
  by pat_completeness auto

termination
  by (relation "measure (\<lambda>(key, relos, l, u). u - l)") (auto simp: Let_def)

declare bsearch_relo.simps [simp del]

definition find_prog_insn_relo :: "reloc_desc list \<Rightarrow> nat \<Rightarrow> reloc_desc option" where
  "find_prog_insn_relo relos insn_idx =
     (if relos = [] then None else bsearch_relo insn_idx relos 0 (length relos))"

text \<open>\<^verbatim>\<open>append_subprog_relos\<close>, for the main program \<open>m\<close> and the subprogram \<open>s\<close>.\<close>

definition shift_relo :: "nat \<Rightarrow> reloc_desc \<Rightarrow> reloc_desc" where
  "shift_relo off r = r\<lparr>rd_insn_idx := rd_insn_idx r + off\<rparr>"

definition append_subprog_relos :: "link_env \<Rightarrow> nat \<Rightarrow> nat \<Rightarrow> program list \<Rightarrow> int \<times> program list" where
  "append_subprog_relos env m s progs =
     (let main = progs ! m; sub = progs ! s
       in if m = s then (0, progs)
          else if \<not> le_relos_ok env (length (p_relos main) + length (p_relos sub)) then (- ENOMEM, progs)
          else (0, progs[m := main\<lparr>p_relos := p_relos main @ map (shift_relo (p_sub_insn_off sub)) (p_relos sub)\<rparr>]))"

text \<open>
  The instruction of \<^verbatim>\<open>.text\<close> that an instruction refers to, by its descriptor if it has one; an
  error on the left.
\<close>

definition sub_insn_idx :: "program \<Rightarrow> nat \<Rightarrow> bpf_insn \<Rightarrow> reloc_desc option \<Rightarrow> int + u64" where
  "sub_insn_idx prog insn_idx insn relo =
     (case relo of
        Some relo \<Rightarrow>
          if rd_type relo = RELO_CALL
          then Inr ((scast (rd_sym_off relo) :: u64) div 8 + scast (i_imm insn) + 1)
          else Inr ((scast (rd_sym_off relo + i_imm insn) :: u64) div 8)
      | None \<Rightarrow>
          if insn_is_pseudo_func insn then Inl (- LIBBPF_ERRNO__RELOC)
          else Inr (of_nat (p_sec_insn_off prog) + of_nat insn_idx + scast (i_imm insn) + 1))"

text \<open>
  The first half of a round of the loop of \<^verbatim>\<open>bpf_object__reloc_code\<close>: the subprogram that an
  instruction refers to, none when the instruction is left as it is, or an error on the left.
\<close>

definition callee :: "prog_obj \<Rightarrow> program list \<Rightarrow> nat \<Rightarrow> nat \<Rightarrow> bpf_insn \<Rightarrow> (int + nat option) option" where
  "callee obj progs p insn_idx insn =
     (if \<not> insn_is_subprog_call insn \<and> \<not> insn_is_pseudo_func insn then Some (Inr None)
      else let relo = find_prog_insn_relo (p_relos (progs ! p)) insn_idx; type = map_option rd_type relo
       in if type = Some RELO_EXTERN_FUNC then Some (Inr None)
          else if relo \<noteq> None \<and> type \<noteq> Some RELO_CALL \<and> type \<noteq> Some RELO_SUBPROG_ADDR
          then Some (Inl (- LIBBPF_ERRNO__RELOC))
          else case sub_insn_idx (progs ! p) insn_idx insn relo of
            Inl err \<Rightarrow> Some (Inl err)
          | Inr k \<Rightarrow> do {
              s \<leftarrow> prog_by_sec_insn progs (ob_text_shndx obj) (unat k);
              Some (case s of None \<Rightarrow> Inl (- LIBBPF_ERRNO__RELOC) | Some s \<Rightarrow> Inr (Some s))
            })"

text \<open>
  Appending a subprogram that the main program does not have yet: the number of instructions of
  the main program is set before \<^verbatim>\<open>memcpy\<close> reads that of the subprogram. \<open>rc\<close> is the recursive call.
\<close>

definition append_subprog :: "(nat \<Rightarrow> program list \<Rightarrow> (int \<times> program list) option) \<Rightarrow> link_env \<Rightarrow> nat \<Rightarrow> nat \<Rightarrow>
    program list \<Rightarrow> (int \<times> program list) option" where
  "append_subprog rc env m s progs =
     (let off = length (p_insns (progs ! m));
          progs = progs[s := (progs ! s)\<lparr>p_sub_insn_off := off\<rparr>];
          main = progs ! m; sub = progs ! s;
          new_cnt = length (p_insns main) + length (p_insns sub);
          copied = (if s = m then new_cnt else length (p_insns sub))
       in if \<not> le_insns_ok env new_cnt then Some (- ENOMEM, progs)
          else if off + copied > new_cnt then None
          else let progs = progs[m := main\<lparr>p_insns := p_insns main @ p_insns sub\<rparr>];
                   (err, progs) = append_subprog_relos env m s progs
                in if err \<noteq> 0 then Some (err, progs) else rc s progs)"

text \<open>One round of the loop; the instruction is read again after the memory may have moved.\<close>

definition set_imm :: "nat \<Rightarrow> nat \<Rightarrow> nat \<Rightarrow> nat \<Rightarrow> program list \<Rightarrow> (int \<times> program list) option" where
  "set_imm m p s insn_idx progs =
     (let main = progs ! m; off = p_sub_insn_off (progs ! p) + insn_idx
       in do {
         insn \<leftarrow> rd (p_insns main) off;
         let imm = of_nat (p_sub_insn_off (progs ! s)) - of_nat off - 1;
         Some (0, progs[m := main\<lparr>p_insns := (p_insns main)[off := insn\<lparr>i_imm := imm\<rparr>]\<rparr>])
       })"

definition reloc_insn :: "(nat \<Rightarrow> program list \<Rightarrow> (int \<times> program list) option) \<Rightarrow> link_env \<Rightarrow> prog_obj \<Rightarrow> nat \<Rightarrow>
    nat \<Rightarrow> nat \<Rightarrow> program list \<Rightarrow> (int \<times> program list) option" where
  "reloc_insn rc env obj m p insn_idx progs = do {
     insn \<leftarrow> rd (p_insns (progs ! m)) (p_sub_insn_off (progs ! p) + insn_idx);
     r \<leftarrow> callee obj progs p insn_idx insn;
     case r of
       Inl err \<Rightarrow> Some (err, progs)
     | Inr None \<Rightarrow> Some (0, progs)
     | Inr (Some s) \<Rightarrow> do {
         (err, progs) \<leftarrow> (if p_sub_insn_off (progs ! s) = 0 then append_subprog rc env m s progs
                          else Some (0, progs));
         if err \<noteq> 0 then Some (err, progs) else set_imm m p s insn_idx progs
       }
   }"

fun reloc_insns :: "(nat \<Rightarrow> program list \<Rightarrow> (int \<times> program list) option) \<Rightarrow> link_env \<Rightarrow> prog_obj \<Rightarrow> nat \<Rightarrow>
    nat \<Rightarrow> nat list \<Rightarrow> program list \<Rightarrow> (int \<times> program list) option" where
  "reloc_insns rc env obj m p [] progs = Some (0, progs)"
| "reloc_insns rc env obj m p (i # is) progs = do {
     (err, progs) \<leftarrow> reloc_insn rc env obj m p i progs;
     if err \<noteq> 0 then Some (err, progs) else reloc_insns rc env obj m p is progs
   }"

text \<open>\<^verbatim>\<open>bpf_object__reloc_code\<close>; the fuel bounds the depth of the recursion.\<close>

primrec reloc_code :: "nat \<Rightarrow> link_env \<Rightarrow> prog_obj \<Rightarrow> nat \<Rightarrow> nat \<Rightarrow> program list \<Rightarrow> (int \<times> program list) option" where
  "reloc_code 0 env obj m p progs = None"
| "reloc_code (Suc fuel) env obj m p progs = do {
     (err, progs) \<leftarrow> reloc_prog_info env m p progs;
     if err \<noteq> 0 then Some (err, progs)
     else reloc_insns (reloc_code fuel env obj m) env obj m p [0..<p_sec_insn_cnt (progs ! p)] progs
   }"

definition prog_is_subprog :: "prog_obj \<Rightarrow> program list \<Rightarrow> program \<Rightarrow> bool" where
  "prog_is_subprog obj progs prog \<longleftrightarrow> p_sec_idx prog = ob_text_shndx obj \<and> length progs > 1"

definition reset_subprogs :: "prog_obj \<Rightarrow> program list \<Rightarrow> program list" where
  "reset_subprogs obj progs =
     map (\<lambda>p. if prog_is_subprog obj progs p then p\<lparr>p_sub_insn_off := 0\<rparr> else p) progs"

definition relocate_calls :: "nat \<Rightarrow> link_env \<Rightarrow> prog_obj \<Rightarrow> nat \<Rightarrow> program list \<Rightarrow> (int \<times> program list) option" where
  "relocate_calls fuel env obj m progs = reloc_code fuel env obj m m (reset_subprogs obj progs)"

end
