(* ===== verification/ProgLink.thy ===== *)
theory ProgLink
  imports ProgRelo
begin

text \<open>
  What linking the calls of a main program achieves: the layout of the programs that have been put
  into it, the instructions that refer to a program, and the run of \<^verbatim>\<open>bpf_object__reloc_code\<close> as a
  depth-first walk over the calls, in which programs not yet placed are placed once.
\<close>

section \<open>Where the programs end up\<close>

abbreviation (input) code :: "program list \<Rightarrow> nat \<Rightarrow> bpf_insn list" where
  "code P q \<equiv> p_insns (P ! q)"

text \<open>The length of the programs in the order \<open>ord\<close>, and the position of one of them.\<close>

fun placed_len :: "program list \<Rightarrow> nat list \<Rightarrow> nat" where
  "placed_len P [] = 0"
| "placed_len P (q # ord) = length (code P q) + placed_len P ord"

fun pos :: "program list \<Rightarrow> nat list \<Rightarrow> nat \<Rightarrow> nat" where
  "pos P [] q = 0"
| "pos P (x # ord) q = (if x = q then 0 else length (code P x) + pos P ord q)"

lemma total_append [simp]: "placed_len P (ord @ new) = placed_len P ord + placed_len P new"
  by (induction ord) auto

lemma pos_append [simp]: "q \<in> set ord \<Longrightarrow> pos P (ord @ new) q = pos P ord q"
  by (induction ord) auto

lemma pos_append_new [simp]: "q \<notin> set ord \<Longrightarrow> pos P (ord @ new) q = placed_len P ord + pos P new q"
  by (induction ord) auto

lemma pos_bound: "q \<in> set ord \<Longrightarrow> pos P ord q + length (code P q) \<le> placed_len P ord"
  by (induction ord) auto

lemma pos_less: "q \<in> set ord \<Longrightarrow> i < length (code P q) \<Longrightarrow> pos P ord q + i < placed_len P ord"
  using pos_bound [of q ord P] by linarith

lemma pos_disjoint:
  assumes "q \<in> set ord" "q' \<in> set ord" "q \<noteq> q'" "i < length (code P q)" "i' < length (code P q')"
  shows "pos P ord q + i \<noteq> pos P ord q' + i'"
  using assms
proof (induction ord)
  case (Cons x ord)
  then show ?case using pos_bound [of q ord P] pos_bound [of q' ord P] by (auto split: if_splits)
qed simp

lemma pos_zero:
  assumes "ord \<noteq> []" "0 < length (code P (hd ord))" "q \<in> set ord"
  shows "pos P ord q = 0 \<longleftrightarrow> q = hd ord"
  using assms by (cases ord) auto

text \<open>The descriptors of the programs, each for where its program is.\<close>

definition placed_relos :: "program list \<Rightarrow> nat list \<Rightarrow> reloc_desc list" where
  "placed_relos P ord = concat (map (\<lambda>q. map (shift_relo (pos P ord q)) (p_relos (P ! q))) ord)"

text \<open>The programs that can be part of the main program \<open>m\<close>: itself and those of \<^verbatim>\<open>.text\<close>.\<close>

definition inlinable :: "prog_obj \<Rightarrow> program list \<Rightarrow> nat \<Rightarrow> nat set" where
  "inlinable obj P m = {q. q < length P \<and> (q = m \<or> p_sec_idx (P ! q) = ob_text_shndx obj)}"

text \<open>The state after the programs of \<open>ord\<close> have been put one after the other into the first of them.\<close>

definition linking :: "prog_obj \<Rightarrow> program list \<Rightarrow> nat list \<Rightarrow> program list \<Rightarrow> bool" where
  "linking obj P ord progs \<longleftrightarrow> ord \<noteq> [] \<and> length progs = length P \<and> distinct ord \<and> set ord \<subseteq> inlinable obj P (hd ord) \<and>
     (\<forall>i < length P. p_sec_idx (progs ! i) = p_sec_idx (P ! i) \<and> p_sec_insn_off (progs ! i) = p_sec_insn_off (P ! i) \<and>
        p_sec_insn_cnt (progs ! i) = p_sec_insn_cnt (P ! i) \<and> p_load (progs ! i) = p_load (P ! i) \<and>
        p_sub_insn_off (progs ! i) = (if i \<in> set ord then pos P ord i else 0) \<and>
        (i \<noteq> hd ord \<longrightarrow> p_insns (progs ! i) = p_insns (P ! i) \<and> p_relos (progs ! i) = p_relos (P ! i))) \<and>
     length (p_insns (progs ! hd ord)) = placed_len P ord \<and>
     p_relos (progs ! hd ord) = placed_relos P ord"

text \<open>What is needed of the programs before.\<close>

definition linkable :: "prog_obj \<Rightarrow> program list \<Rightarrow> nat \<Rightarrow> bool" where
  "linkable obj P m \<longleftrightarrow> m < length P \<and> sorted_wrt prog_before (map core_prog.truncate P) \<and>
     p_sec_idx (P ! m) \<noteq> ob_text_shndx obj \<and>
     (\<forall>q \<in> inlinable obj P m. 0 < p_sec_insn_cnt (P ! q) \<and> p_sec_insn_cnt (P ! q) = length (p_insns (P ! q)) \<and>
        sorted_wrt (<) (map rd_insn_idx (p_relos (P ! q))) \<and>
        (\<forall>r \<in> set (p_relos (P ! q)). rd_insn_idx r < p_sec_insn_cnt (P ! q)))"

lemma linking_same:
  assumes "linking obj P ord progs" "i < length P"
  shows "p_sec_idx (progs ! i) = p_sec_idx (P ! i)" "p_sec_insn_off (progs ! i) = p_sec_insn_off (P ! i)"
    "p_sec_insn_cnt (progs ! i) = p_sec_insn_cnt (P ! i)"
    "p_sub_insn_off (progs ! i) = (if i \<in> set ord then pos P ord i else 0)"
    "i \<noteq> hd ord \<Longrightarrow> p_insns (progs ! i) = p_insns (P ! i)"
    "i \<noteq> hd ord \<Longrightarrow> p_relos (progs ! i) = p_relos (P ! i)"
    "p_load (progs ! i) = p_load (P ! i)"
  using assms by (auto simp: linking_def)

lemma linking_length:
  assumes "linking obj P ord progs"
  shows "length progs = length P" "length (p_insns (progs ! hd ord)) = placed_len P ord" "ord \<noteq> []" "distinct ord"
    "p_relos (progs ! hd ord) = placed_relos P ord" "q \<in> set ord \<Longrightarrow> q < length P" "hd ord < length P" "length ord \<le> length P"
    "q \<in> set ord \<Longrightarrow> q \<in> inlinable obj P (hd ord)"
proof -
  show "length progs = length P" "length (p_insns (progs ! hd ord)) = placed_len P ord" "ord \<noteq> []" "distinct ord"
    "p_relos (progs ! hd ord) = placed_relos P ord" and inl: "q \<in> set ord \<Longrightarrow> q \<in> inlinable obj P (hd ord)" for q
    using assms by (auto simp: linking_def)
  then show sub: "q \<in> set ord \<Longrightarrow> q < length P" for q using inl [of q] by (simp add: inlinable_def)
  from sub [of "hd ord"] show "hd ord < length P" using \<open>ord \<noteq> []\<close> by simp
  have "card (set ord) \<le> card {..<length P}" using sub by (intro card_mono) auto
  then show "length ord \<le> length P" using \<open>distinct ord\<close> by (simp add: distinct_card)
qed

lemma inlinable_main: "linkable obj P m \<Longrightarrow> m \<in> inlinable obj P m"
  by (simp add: linkable_def inlinable_def)

lemma inlinable_less: "q \<in> inlinable obj P m \<Longrightarrow> q < length P"
  by (simp add: inlinable_def)

lemma linkable_prog:
  assumes "linkable obj P m" "q \<in> inlinable obj P m"
  shows "0 < length (code P q)" "p_sec_insn_cnt (P ! q) = length (code P q)"
    "sorted_wrt (<) (map rd_insn_idx (p_relos (P ! q)))" "r \<in> set (p_relos (P ! q)) \<Longrightarrow> rd_insn_idx r < length (code P q)"
proof -
  have ok: "0 < p_sec_insn_cnt (P ! q) \<and> p_sec_insn_cnt (P ! q) = length (code P q) \<and>
      sorted_wrt (<) (map rd_insn_idx (p_relos (P ! q))) \<and> (\<forall>r \<in> set (p_relos (P ! q)). rd_insn_idx r < p_sec_insn_cnt (P ! q))"
    using assms unfolding linkable_def by blast
  then show cnt: "p_sec_insn_cnt (P ! q) = length (code P q)" by blast
  show "0 < length (code P q)" using ok cnt by linarith
  show "sorted_wrt (<) (map rd_insn_idx (p_relos (P ! q)))" using ok by blast
  show "rd_insn_idx r < length (code P q)" if "r \<in> set (p_relos (P ! q))" using ok cnt that by metis
qed

section \<open>The search for a descriptor\<close>

lemma bsearch_relo_sound:
  "bsearch_relo key relos l u = Some r \<Longrightarrow> \<exists>k. l \<le> k \<and> k < u \<and> r = relos ! k \<and> rd_insn_idx r = key"
proof (induction key relos l u rule: bsearch_relo.induct)
  case (1 key relos l u)
  let ?i = "(l + u) div 2"
  from 1(3) have "l < u" by (simp add: bsearch_relo.simps [of key relos l u] split: if_splits)
  then have i: "l \<le> ?i" "?i < u" by auto
  consider "key < rd_insn_idx (relos ! ?i)" | "rd_insn_idx (relos ! ?i) < key" | "key = rd_insn_idx (relos ! ?i)" by linarith
  then show ?case
  proof cases
    case 1
    then have "\<exists>k \<ge> l. k < ?i \<and> r = relos ! k \<and> rd_insn_idx r = key" using "1.prems" "1.IH"(1) \<open>l < u\<close>
      by (simp add: bsearch_relo.simps [of key relos l u] cmp_relo_by_insn_idx_def Let_def)
    then show ?thesis using i less_trans by blast
  next
    case 2
    then have "\<exists>k \<ge> ?i + 1. k < u \<and> r = relos ! k \<and> rd_insn_idx r = key" using "1.prems" "1.IH"(2) \<open>l < u\<close>
      by (simp add: bsearch_relo.simps [of key relos l u] cmp_relo_by_insn_idx_def Let_def)
    then obtain k where "?i + 1 \<le> k" "k < u" "r = relos ! k" "rd_insn_idx r = key" by blast
    then show ?thesis using i by (intro exI [of _ k]) simp
  next
    case 3
    have "bsearch_relo key relos l u = Some (relos ! ?i)"
      by (subst bsearch_relo.simps) (simp add: \<open>l < u\<close> 3 cmp_relo_by_insn_idx_def Let_def)
    then have "r = relos ! ?i" using "1.prems" by simp
    then show ?thesis using i 3 by blast
  qed
qed

lemma bsearch_relo_complete:
  assumes "sorted_wrt (<) (map rd_insn_idx relos)" "u \<le> length relos" "l \<le> k" "k < u"
  shows "bsearch_relo (rd_insn_idx (relos ! k)) relos l u = Some (relos ! k)"
  using assms(2-4)
proof (induction "u - l" arbitrary: l u rule: less_induct)
  case less
  let ?i = "(l + u) div 2"
  have i: "l \<le> ?i" "?i < u" "l < u" using less.prems by auto
  note unfold = bsearch_relo.simps [of "rd_insn_idx (relos ! k)" relos l u]
  have mono: "rd_insn_idx (relos ! a) < rd_insn_idx (relos ! b)" if "a < b" "b < length relos" for a b
    using sorted_wrt_nth_less [OF assms(1), of a b] that by simp
  consider "k < ?i" | "?i < k" | "k = ?i" by linarith
  then show ?case
  proof cases
    case 1
    then have "rd_insn_idx (relos ! k) < rd_insn_idx (relos ! ?i)" using mono i less.prems(1) by simp
    moreover have "bsearch_relo (rd_insn_idx (relos ! k)) relos l ?i = Some (relos ! k)"
      using 1 i less.prems by (intro less.hyps) auto
    ultimately show ?thesis using i(3) unfold by (simp add: cmp_relo_by_insn_idx_def Let_def)
  next
    case 2
    then have "rd_insn_idx (relos ! ?i) < rd_insn_idx (relos ! k)" using mono i less.prems by simp
    moreover have "bsearch_relo (rd_insn_idx (relos ! k)) relos (?i + 1) u = Some (relos ! k)"
      using 2 i less.prems by (intro less.hyps) auto
    ultimately show ?thesis using i(3) unfold by (simp add: cmp_relo_by_insn_idx_def Let_def)
  next
    case 3
    then show ?thesis using i(3) unfold by (simp add: cmp_relo_by_insn_idx_def Let_def)
  qed
qed

text \<open>In sorted descriptors the one for an instruction is found if there is one.\<close>

lemma find_prog_insn_relo_iff:
  assumes "sorted_wrt (<) (map rd_insn_idx relos)"
  shows "find_prog_insn_relo relos i = Some r \<longleftrightarrow> r \<in> set relos \<and> rd_insn_idx r = i"
proof
  assume "find_prog_insn_relo relos i = Some r"
  then show "r \<in> set relos \<and> rd_insn_idx r = i"
    by (auto simp: find_prog_insn_relo_def split: if_splits dest!: bsearch_relo_sound)
next
  assume "r \<in> set relos \<and> rd_insn_idx r = i"
  then obtain k where "k < length relos" "r = relos ! k" "rd_insn_idx r = i" by (auto simp: in_set_conv_nth)
  then show "find_prog_insn_relo relos i = Some r"
    using bsearch_relo_complete [OF assms le_refl, of 0 k] by (auto simp: find_prog_insn_relo_def)
qed

lemma find_prog_insn_relo_append:
  assumes "sorted_wrt (<) (map rd_insn_idx (relos @ new))" "\<forall>r \<in> set new. i < rd_insn_idx r"
  shows "find_prog_insn_relo (relos @ new) i = find_prog_insn_relo relos i"
proof -
  have "sorted_wrt (<) (map rd_insn_idx relos)" using assms(1) by (simp add: sorted_wrt_append)
  then have "find_prog_insn_relo (relos @ new) i = Some r \<longleftrightarrow> find_prog_insn_relo relos i = Some r" for r
    using assms by (simp only: find_prog_insn_relo_iff) auto
  then show ?thesis by (metis not_None_eq)
qed

lemma shift_relo_0 [simp]: "shift_relo 0 r = r"
  by (simp add: shift_relo_def)

lemma rd_insn_idx_shift [simp]: "rd_insn_idx (shift_relo off r) = rd_insn_idx r + off"
  by (simp add: shift_relo_def)

lemma placed_relos_snoc:
  assumes "s \<notin> set ord"
  shows "placed_relos P (ord @ [s]) = placed_relos P ord @ map (shift_relo (placed_len P ord)) (p_relos (P ! s))"
proof -
  have same: "map (\<lambda>q. map (shift_relo (pos P (ord @ [s]) q)) (p_relos (P ! q))) ord =
      map (\<lambda>q. map (shift_relo (pos P ord q)) (p_relos (P ! q))) ord" by (rule map_cong) simp_all
  then show ?thesis unfolding placed_relos_def map_append concat_append by (simp only: same) (simp add: assms)
qed

lemma placed_relos_sorted:
  assumes "linkable obj P m" "distinct ord" "set ord \<subseteq> inlinable obj P m"
  shows "sorted_wrt (<) (map rd_insn_idx (placed_relos P ord)) \<and> (\<forall>r \<in> set (placed_relos P ord). rd_insn_idx r < placed_len P ord)"
  using assms(2,3)
proof (induction ord rule: rev_induct)
  case Nil
  then show ?case by (simp add: placed_relos_def)
next
  case (snoc s ord)
  then have s: "s \<in> inlinable obj P m" "s \<notin> set ord" and IH: "sorted_wrt (<) (map rd_insn_idx (placed_relos P ord))"
    "\<forall>r \<in> set (placed_relos P ord). rd_insn_idx r < placed_len P ord" by simp_all
  note prog = linkable_prog [OF assms(1) s(1)]
  have "sorted_wrt (<) (map (\<lambda>r. rd_insn_idx r + placed_len P ord) (p_relos (P ! s)))"
    using prog(3) by (simp add: sorted_wrt_map)
  then show ?case using IH prog(4) s(2)
    by (auto simp: placed_relos_snoc sorted_wrt_append o_def intro: trans_less_add1 trans_less_add2)
qed

lemma placed_relos_first:
  assumes "distinct (q # ord)"
  obtains new where "placed_relos P (q # ord) = p_relos (P ! q) @ new" "\<forall>r \<in> set new. length (code P q) \<le> rd_insn_idx r"
proof
  let ?new = "concat (map (\<lambda>s. map (shift_relo (pos P (q # ord) s)) (p_relos (P ! s))) ord)"
  have "map (shift_relo 0) xs = xs" for xs by (simp add: map_idI)
  then show "placed_relos P (q # ord) = p_relos (P ! q) @ ?new" by (simp add: placed_relos_def)
  show "\<forall>r \<in> set ?new. length (code P q) \<le> rd_insn_idx r"
    using assms(1) by (auto simp: trans_le_add1 trans_le_add2)
qed

section \<open>What a call refers to stays the same while programs are appended\<close>

text \<open>The search for the program of an instruction only looks at where the programs come from.\<close>

definition same_sections :: "program list \<Rightarrow> program list \<Rightarrow> bool" where
  "same_sections P P' \<longleftrightarrow> length P' = length P \<and>
     (\<forall>i < length P. p_sec_idx (P' ! i) = p_sec_idx (P ! i) \<and> p_sec_insn_off (P' ! i) = p_sec_insn_off (P ! i) \<and>
        p_sec_insn_cnt (P' ! i) = p_sec_insn_cnt (P ! i) \<and> p_load (P' ! i) = p_load (P ! i))"

lemma linking_sections: "linking obj P ord progs \<Longrightarrow> same_sections P progs"
  by (simp add: linking_def same_sections_def)

lemma same_sections_sorted:
  assumes "same_sections P P'" "sorted_wrt prog_before (map core_prog.truncate P)"
  shows "sorted_wrt prog_before (map core_prog.truncate P')"
proof -
  have "prog_before (core_prog.truncate (P ! i)) (core_prog.truncate (P ! j))" if "i < j" "j < length P" for i j
    using assms(2) that sorted_wrt_nth_less [of prog_before "map core_prog.truncate P" i j] by simp
  then have "prog_before (core_prog.truncate (P' ! i)) (core_prog.truncate (P' ! j))" if "i < j" "j < length P" for i j
    using that assms(1) by (simp add: prog_before_def core_prog.defs same_sections_def)
  then show ?thesis using assms(1) by (simp add: sorted_wrt_iff_nth_less same_sections_def)
qed

lemma prog_by_sec_insn_same:
  assumes "same_sections P P'" "sorted_wrt prog_before (map core_prog.truncate P)" "P \<noteq> []"
  shows "prog_by_sec_insn P' s k = prog_by_sec_insn P s k"
proof -
  note before = prog_by_sec_insn_result [OF assms(2,3), of s k]
  have "P' \<noteq> []" using assms(1,3) by (auto simp: same_sections_def)
  note after = prog_by_sec_insn_result [OF same_sections_sorted [OF assms(1,2)] this, of s k]
  from before obtain r where r: "prog_by_sec_insn P s k = Some r" "\<forall>i. r = Some i \<longleftrightarrow> i < length P \<and> p_sec_idx (P ! i) = s \<and>
      p_sec_insn_off (P ! i) \<le> k \<and> k < p_sec_insn_off (P ! i) + p_sec_insn_cnt (P ! i)" by blast
  from after obtain r' where r': "prog_by_sec_insn P' s k = Some r'" "\<forall>i. r' = Some i \<longleftrightarrow> i < length P' \<and> p_sec_idx (P' ! i) = s \<and>
      p_sec_insn_off (P' ! i) \<le> k \<and> k < p_sec_insn_off (P' ! i) + p_sec_insn_cnt (P' ! i)" by blast
  have "r' = Some i \<longleftrightarrow> r = Some i" for i
    using spec [OF r(2), of i] spec [OF r'(2), of i] assms(1) unfolding same_sections_def by metis
  then have "r' = r" by (metis not_None_eq)
  then show ?thesis using r(1) r'(1) by simp
qed

lemma prog_by_sec_insn_linking:
  assumes "linkable obj P m" "linking obj P ord progs"
  shows "prog_by_sec_insn progs s k = prog_by_sec_insn P s k"
  using assms(1) by (intro prog_by_sec_insn_same [OF linking_sections [OF assms(2)]]) (auto simp: linkable_def)

lemma find_relo_linking:
  assumes "linkable obj P m" "linking obj P ord progs" "q \<in> set ord" "i < length (code P q)" "hd ord = m"
  shows "find_prog_insn_relo (p_relos (progs ! q)) i = find_prog_insn_relo (p_relos (P ! q)) i"
proof (cases "q = hd ord")
  case False
  then show ?thesis using linking_same(6) [OF assms(2)] linking_length(6) [OF assms(2,3)] by simp
next
  case True
  then obtain ord' where ord: "ord = q # ord'" using linking_length(3) [OF assms(2)] by (cases ord) auto
  have dist: "distinct (q # ord')" "set (q # ord') \<subseteq> inlinable obj P m" using assms(2,5) ord by (auto simp: linking_def)
  obtain new where new: "placed_relos P (q # ord') = p_relos (P ! q) @ new" "\<forall>r \<in> set new. length (code P q) \<le> rd_insn_idx r"
    by (rule placed_relos_first [OF dist(1)])
  have "find_prog_insn_relo (p_relos (P ! q) @ new) i = find_prog_insn_relo (p_relos (P ! q)) i"
    using placed_relos_sorted [OF assms(1) dist] new assms(4) by (intro find_prog_insn_relo_append) auto
  then show ?thesis using linking_length(5) [OF assms(2)] new(1) by (simp add: ord)
qed

lemma callee_linking:
  assumes "linkable obj P m" "linking obj P ord progs" "q \<in> set ord" "i < length (code P q)" "hd ord = m"
  shows "callee obj progs q i insn = callee obj P q i insn"
proof -
  have "sub_insn_idx (progs ! q) i insn relo = sub_insn_idx (P ! q) i insn relo" for relo
    using linking_same(2) [OF assms(2) linking_length(6) [OF assms(2,3)]] by (simp add: sub_insn_idx_def split: option.split)
  then show ?thesis
    by (simp only: callee_def find_relo_linking [OF assms] prog_by_sec_insn_linking [OF assms(1,2)])
qed

text \<open>Every program that is called is one of \<^verbatim>\<open>.text\<close>, not the main program.\<close>

lemma callee_outcome:
  assumes "linkable obj P m"
  obtains (none) "callee obj P q i insn = Some (Inr None)"
  | (error) err where "callee obj P q i insn = Some (Inl err)" "err \<noteq> 0"
  | (sub) s where "callee obj P q i insn = Some (Inr (Some s))" "s \<in> inlinable obj P m" "s \<noteq> m"
proof -
  have "P \<noteq> []" "sorted_wrt prog_before (map core_prog.truncate P)" and m: "p_sec_idx (P ! m) \<noteq> ob_text_shndx obj"
    using assms(1) by (auto simp: linkable_def)
  note found = prog_by_sec_insn_result [OF this(2,1), of "ob_text_shndx obj"]
  let ?relo = "find_prog_insn_relo (p_relos (P ! q)) i"
  have "callee obj P q i insn = Some (Inr None) \<or> (\<exists>err. callee obj P q i insn = Some (Inl err) \<and> err \<noteq> 0) \<or>
      (\<exists>s. callee obj P q i insn = Some (Inr (Some s)) \<and> s \<in> inlinable obj P m \<and> s \<noteq> m)"
  proof (cases "sub_insn_idx (P ! q) i insn ?relo")
    case (Inl err)
    then have "err \<noteq> 0" by (auto simp: sub_insn_idx_def c_consts split: option.splits if_splits)
    then show ?thesis using Inl by (simp add: callee_def Let_def c_consts)
  next
    case (Inr k)
    from found [of "unat k"] obtain r where r: "prog_by_sec_insn P (ob_text_shndx obj) (unat k) = Some r"
      "\<forall>i. r = Some i \<longrightarrow> i < length P \<and> p_sec_idx (P ! i) = ob_text_shndx obj" by blast
    then show ?thesis using Inr m by (cases r) (auto simp: callee_def Let_def c_consts inlinable_def)
  qed
  then show thesis using none error sub by blast
qed

section \<open>One call\<close>

text \<open>An allocation fails, some call cannot be resolved, or there are debug records, which may not fit.\<close>

definition faulty :: "link_env \<Rightarrow> prog_obj \<Rightarrow> nat \<Rightarrow> program list \<Rightarrow> bool" where
  "faulty env obj m P \<longleftrightarrow> le_ext env \<noteq> None \<or> (\<exists>n. \<not> le_insns_ok env n) \<or> (\<exists>n. \<not> le_relos_ok env n) \<or>
     (\<exists>q \<in> inlinable obj P m. \<exists>i < length (code P q). \<exists>err. callee obj P q i (code P q ! i) = Some (Inl err))"

text \<open>The instruction \<open>i\<close> of program \<open>q\<close>, in \<open>insns\<close>, goes to the place of the program it refers to.\<close>

definition linked :: "prog_obj \<Rightarrow> program list \<Rightarrow> nat list \<Rightarrow> bpf_insn list \<Rightarrow> nat \<Rightarrow> nat \<Rightarrow> bool" where
  "linked obj P ord insns q i \<longleftrightarrow>
     (case callee obj P q i (code P q ! i) of
        Some (Inr (Some s)) \<Rightarrow> s \<in> set ord \<and>
          insns ! (pos P ord q + i) = (code P q ! i)\<lparr>i_imm := of_nat (pos P ord s) - of_nat (pos P ord q + i) - 1\<rparr>
      | _ \<Rightarrow> insns ! (pos P ord q + i) = code P q ! i)"

lemma linked_mono:
  assumes "linked obj P ord insns q i" "q \<in> set ord" "insns' ! (pos P ord q + i) = insns ! (pos P ord q + i)"
  shows "linked obj P (ord @ new) insns' q i"
  using assms by (auto simp: linked_def split: option.splits sum.splits)

text \<open>The instructions of the main program are replaced, or subprogram \<open>s\<close> is appended.\<close>

lemma linking_insns:
  assumes "linking obj P ord progs" "m = hd ord" "length insns = placed_len P ord"
  shows "linking obj P ord (progs[m := (progs ! m)\<lparr>p_insns := insns\<rparr>])"
  using assms linking_length(7) [OF assms(1)] by (auto simp: linking_def nth_list_update)

lemma linking_append:
  assumes "linking obj P ord progs" "m = hd ord" "s \<in> inlinable obj P m" "s \<notin> set ord"
  shows "linking obj P (ord @ [s])
    (progs[s := (progs ! s)\<lparr>p_sub_insn_off := placed_len P ord\<rparr>,
           m := (progs ! m)\<lparr>p_insns := p_insns (progs ! m) @ code P s,
                            p_relos := placed_relos P ord @ map (shift_relo (placed_len P ord)) (p_relos (P ! s))\<rparr>])"
proof -
  have s: "s < length P" by (rule inlinable_less [OF assms(3)])
  have m: "m < length P" "m \<noteq> s" "hd (ord @ [s]) = m" using linking_length(3,6,7) [OF assms(1)] assms(2,4) by auto
  note same = linking_same [OF assms(1), folded assms(2)]
  let ?progs = "progs[s := (progs ! s)\<lparr>p_sub_insn_off := placed_len P ord\<rparr>,
           m := (progs ! m)\<lparr>p_insns := p_insns (progs ! m) @ code P s,
                            p_relos := placed_relos P ord @ map (shift_relo (placed_len P ord)) (p_relos (P ! s))\<rparr>]"
  have len: "length progs = length P" by (rule linking_length(1) [OF assms(1)])
  have at: "?progs ! i = (if i = m then (progs ! m)\<lparr>p_insns := p_insns (progs ! m) @ code P s,
                            p_relos := placed_relos P ord @ map (shift_relo (placed_len P ord)) (p_relos (P ! s))\<rparr>
      else if i = s then (progs ! s)\<lparr>p_sub_insn_off := placed_len P ord\<rparr> else progs ! i)" if "i < length P" for i
    using that len m s by (simp add: nth_list_update)
  have "p_sec_idx (?progs ! i) = p_sec_idx (P ! i) \<and> p_sec_insn_off (?progs ! i) = p_sec_insn_off (P ! i) \<and>
        p_sec_insn_cnt (?progs ! i) = p_sec_insn_cnt (P ! i) \<and> p_load (?progs ! i) = p_load (P ! i) \<and>
        p_sub_insn_off (?progs ! i) = (if i \<in> set (ord @ [s]) then pos P (ord @ [s]) i else 0) \<and>
        (i \<noteq> m \<longrightarrow> p_insns (?progs ! i) = p_insns (P ! i) \<and> p_relos (?progs ! i) = p_relos (P ! i))" if "i < length P" for i
    using same [OF that] m assms(4) by (auto simp: at [OF that])
  moreover have "length (p_insns (?progs ! m)) = placed_len P (ord @ [s])"
    using linking_length(2) [OF assms(1), folded assms(2)] by (simp add: at [OF m(1)])
  moreover have "p_relos (?progs ! m) = placed_relos P (ord @ [s])"
    by (simp add: at [OF m(1)] placed_relos_snoc [OF assms(4)])
  moreover have "set (ord @ [s]) \<subseteq> inlinable obj P m" "distinct (ord @ [s])" "length ?progs = length P"
    using linking_length(4,9) [OF assms(1), folded assms(2)] assms(3,4) len by auto
  ultimately show ?thesis unfolding linking_def m(3) by simp
qed

lemma append_subprog_outcome:
  assumes "linking obj P ord progs" "m = hd ord" "s \<in> inlinable obj P m" "s \<notin> set ord"
  obtains (failed) err progs' where "append_subprog rc env m s progs = Some (err, progs')" "err \<noteq> 0" "faulty env obj m P"
  | (appended) progs' where "append_subprog rc env m s progs = rc s progs'" "linking obj P (ord @ [s]) progs'"
      "p_insns (progs' ! m) = p_insns (progs ! m) @ code P s"
proof -
  have s: "s < length P" by (rule inlinable_less [OF assms(3)])
  have m: "m < length P" "m \<noteq> s" using linking_length(3,7) [OF assms(1)] assms(2,4) by auto
  have len: "length progs = length P" by (rule linking_length(1) [OF assms(1)])
  have main: "length (p_insns (progs ! m)) = placed_len P ord" "p_relos (progs ! m) = placed_relos P ord"
    using linking_length(2,5) [OF assms(1)] assms(2) by simp_all
  have sub: "p_insns (progs ! s) = code P s" "p_relos (progs ! s) = p_relos (P ! s)"
    using linking_same(5,6) [OF assms(1) s] m(2) assms(2) by simp_all
  let ?n = "placed_len P ord + length (code P s)" and ?k = "length (placed_relos P ord) + length (p_relos (P ! s))"
  note eval = append_subprog_def append_subprog_relos_def Let_def nth_list_update len m s main sub
  show thesis
  proof (cases "le_insns_ok env ?n \<and> le_relos_ok env ?k")
    case False
    then have "faulty env obj m P" by (auto simp: faulty_def)
    moreover have "\<exists>progs'. append_subprog rc env m s progs = Some (- ENOMEM, progs')"
      using False m(2) m(2) [symmetric] by (auto simp: eval)
    ultimately show thesis using failed by auto
  next
    case True
    let ?progs = "progs[s := (progs ! s)\<lparr>p_sub_insn_off := placed_len P ord\<rparr>,
           m := (progs ! m)\<lparr>p_insns := p_insns (progs ! m) @ code P s,
                            p_relos := placed_relos P ord @ map (shift_relo (placed_len P ord)) (p_relos (P ! s))\<rparr>]"
    have "append_subprog rc env m s progs = rc s ?progs"
      using True m(2) m(2) [symmetric] by (simp add: eval)
    then show thesis using linking_append [OF assms] m len by (intro appended [of ?progs]) simp_all
  qed
qed

lemma set_imm_outcome:
  assumes "linking obj P ord progs" "m = hd ord" "q \<in> set ord" "s \<in> set ord" "i < length (code P q)"
  obtains progs' where "set_imm m q s i progs = Some (0, progs')" "linking obj P ord progs'"
    "p_insns (progs' ! m) = (p_insns (progs ! m))[pos P ord q + i :=
       (p_insns (progs ! m) ! (pos P ord q + i))\<lparr>i_imm := of_nat (pos P ord s) - of_nat (pos P ord q + i) - 1\<rparr>]"
proof -
  note len = linking_length [OF assms(1)]
  have m: "m < length P" using len(7) assms(2) by simp
  have off: "p_sub_insn_off (progs ! q) = pos P ord q" "p_sub_insn_off (progs ! s) = pos P ord s"
    using linking_same(4) [OF assms(1)] len(6) assms(3,4) by simp_all
  have "pos P ord q + i < placed_len P ord" by (rule pos_less [OF assms(3,5)])
  then have k: "pos P ord q + i < length (p_insns (progs ! m))" using len(2) assms(2) by simp
  let ?insns = "(p_insns (progs ! m))[pos P ord q + i :=
       (p_insns (progs ! m) ! (pos P ord q + i))\<lparr>i_imm := of_nat (pos P ord s) - of_nat (pos P ord q + i) - 1\<rparr>]"
  show thesis
  proof (rule that [of "progs[m := (progs ! m)\<lparr>p_insns := ?insns\<rparr>]"])
    show "set_imm m q s i progs = Some (0, progs[m := (progs ! m)\<lparr>p_insns := ?insns\<rparr>])"
      using k by (simp add: set_imm_def Let_def off rd_def)
    show "linking obj P ord (progs[m := (progs ! m)\<lparr>p_insns := ?insns\<rparr>])"
      using len(2) assms(2) by (intro linking_insns [OF assms(1,2)]) simp
    show "p_insns (progs[m := (progs ! m)\<lparr>p_insns := ?insns\<rparr>] ! m) = ?insns" using m len(1) by simp
  qed
qed

section \<open>The whole program\<close>

text \<open>
  How a run ends that links the instructions \<open>D\<close>, pairs of a program and an index: with an error,
  which has a reason, or with more programs appended, all of them linked, the instructions of \<open>D\<close>
  linked, and no other instruction changed.
\<close>

definition ends :: "link_env \<Rightarrow> prog_obj \<Rightarrow> program list \<Rightarrow> nat list \<Rightarrow> (nat \<times> nat) set \<Rightarrow> program list \<Rightarrow>
    (int \<times> program list) option \<Rightarrow> bool" where
  "ends env obj P ord D progs r \<longleftrightarrow>
     (\<exists>err progs'. r = Some (err, progs') \<and> (err \<noteq> 0 \<longrightarrow> faulty env obj (hd ord) P) \<and>
       (err = 0 \<longrightarrow> (\<exists>new. linking obj P (ord @ new) progs' \<and>
         (\<forall>k < placed_len P ord. (\<forall>(q, i) \<in> D. k \<noteq> pos P ord q + i) \<longrightarrow>
           p_insns (progs' ! hd ord) ! k = p_insns (progs ! hd ord) ! k) \<and>
         (\<forall>(q, i) \<in> D. linked obj P (ord @ new) (p_insns (progs' ! hd ord)) q i) \<and>
         (\<forall>q \<in> set new. \<forall>i < length (code P q). linked obj P (ord @ new) (p_insns (progs' ! hd ord)) q i))))"

definition places :: "program list \<Rightarrow> nat list \<Rightarrow> (nat \<times> nat) set \<Rightarrow> bool" where
  "places P ord D \<longleftrightarrow> (\<forall>(q, i) \<in> D. q \<in> set ord \<and> i < length (code P q))"

definition raw :: "program list \<Rightarrow> nat list \<Rightarrow> (nat \<times> nat) set \<Rightarrow> program list \<Rightarrow> bool" where
  "raw P ord D progs \<longleftrightarrow> (\<forall>(q, i) \<in> D. p_insns (progs ! hd ord) ! (pos P ord q + i) = code P q ! i)"

lemma endsI_error: "r = Some (err, progs') \<Longrightarrow> err \<noteq> 0 \<Longrightarrow> faulty env obj (hd ord) P \<Longrightarrow> ends env obj P ord D progs r"
  by (simp add: ends_def)

lemma endsI:
  assumes "r = Some (0, progs')" "linking obj P (ord @ new) progs'"
    "\<And>k. k < placed_len P ord \<Longrightarrow> \<forall>(q, i) \<in> D. k \<noteq> pos P ord q + i \<Longrightarrow>
       p_insns (progs' ! hd ord) ! k = p_insns (progs ! hd ord) ! k"
    "\<And>q i. (q, i) \<in> D \<Longrightarrow> linked obj P (ord @ new) (p_insns (progs' ! hd ord)) q i"
    "\<And>q i. q \<in> set new \<Longrightarrow> i < length (code P q) \<Longrightarrow> linked obj P (ord @ new) (p_insns (progs' ! hd ord)) q i"
  shows "ends env obj P ord D progs r"
  using assms by (auto simp: ends_def)

lemma endsE:
  assumes "ends env obj P ord D progs r"
  obtains (error) err progs' where "r = Some (err, progs')" "err \<noteq> 0" "faulty env obj (hd ord) P"
  | (good) progs' new where "r = Some (0, progs')" "linking obj P (ord @ new) progs'"
    "\<And>k. k < placed_len P ord \<Longrightarrow> \<forall>(q, i) \<in> D. k \<noteq> pos P ord q + i \<Longrightarrow>
       p_insns (progs' ! hd ord) ! k = p_insns (progs ! hd ord) ! k"
    "\<And>q i. (q, i) \<in> D \<Longrightarrow> linked obj P (ord @ new) (p_insns (progs' ! hd ord)) q i"
    "\<And>q i. q \<in> set new \<Longrightarrow> i < length (code P q) \<Longrightarrow> linked obj P (ord @ new) (p_insns (progs' ! hd ord)) q i"
proof -
  from assms obtain err progs' where r: "r = Some (err, progs')" "err \<noteq> 0 \<longrightarrow> faulty env obj (hd ord) P" and ok: "err = 0 \<longrightarrow>
      (\<exists>new. linking obj P (ord @ new) progs' \<and>
         (\<forall>k < placed_len P ord. (\<forall>(q, i) \<in> D. k \<noteq> pos P ord q + i) \<longrightarrow>
           p_insns (progs' ! hd ord) ! k = p_insns (progs ! hd ord) ! k) \<and>
         (\<forall>(q, i) \<in> D. linked obj P (ord @ new) (p_insns (progs' ! hd ord)) q i) \<and>
         (\<forall>q \<in> set new. \<forall>i < length (code P q). linked obj P (ord @ new) (p_insns (progs' ! hd ord)) q i))"
    unfolding ends_def by blast
  show thesis
  proof (cases "err = 0")
    case False
    then show thesis using error r by blast
  next
    case True
    with ok obtain new where new: "linking obj P (ord @ new) progs'"
      "\<forall>k < placed_len P ord. (\<forall>(q, i) \<in> D. k \<noteq> pos P ord q + i) \<longrightarrow>
         p_insns (progs' ! hd ord) ! k = p_insns (progs ! hd ord) ! k"
      "\<forall>(q, i) \<in> D. linked obj P (ord @ new) (p_insns (progs' ! hd ord)) q i"
      "\<forall>q \<in> set new. \<forall>i < length (code P q). linked obj P (ord @ new) (p_insns (progs' ! hd ord)) q i" by blast
    show thesis by (rule good [of progs' new]) (use r True new in auto)
  qed
qed

lemma places_less: "places P ord D \<Longrightarrow> (q, i) \<in> D \<Longrightarrow> pos P ord q + i < placed_len P ord"
  by (auto simp: places_def intro: pos_less)

lemma places_apart:
  assumes "places P ord D" "places P ord D'" "(q, i) \<in> D" "(q', i') \<in> D'" "(q, i) \<noteq> (q', i')"
  shows "pos P ord q + i \<noteq> pos P ord q' + i'"
proof (cases "q = q'")
  case False
  then show ?thesis using assms by (intro pos_disjoint) (auto simp: places_def)
qed (use assms(5) in simp)

lemma places_append: "places P ord D \<Longrightarrow> places P (ord @ new) D"
  by (auto simp: places_def)

lemma pos_places: "places P ord D \<Longrightarrow> (q, i) \<in> D \<Longrightarrow> pos P (ord @ new) q = pos P ord q"
  by (auto simp: places_def)

text \<open>Two runs one after the other.\<close>

lemma ends_seq:
  assumes first: "ends env obj P ord D progs r"
    and second: "\<And>progs' new. linking obj P (ord @ new) progs' \<Longrightarrow> raw P (ord @ new) D' progs' \<Longrightarrow>
        ends env obj P (ord @ new) D' progs' (f progs')"
    and D: "places P ord D" "places P ord D'" "D \<inter> D' = {}" and start: "raw P ord D' progs" "ord \<noteq> []"
  shows "ends env obj P ord (D \<union> D') progs (do { (err, progs) \<leftarrow> r; if err \<noteq> 0 then Some (err, progs) else f progs })"
  using first
proof (cases rule: endsE)
  case (error err progs')
  then show ?thesis by (intro endsI_error) auto
next
  case (good progs1 new)
  have hd [simp]: "hd (ord @ new) = hd ord" using start(2) by simp
  have apart: "pos P ord q + i \<noteq> pos P ord q' + i'" if "(q, i) \<in> D" "(q', i') \<in> D'" for q i q' i'
    using places_apart [OF D(1,2) that] that D(3) by blast
  have "raw P (ord @ new) D' progs1" unfolding raw_def
  proof (clarsimp simp: pos_places [OF D(2)])
    fix q i assume "(q, i) \<in> D'"
    then show "p_insns (progs1 ! hd ord) ! (pos P ord q + i) = code P q ! i"
      using good(3) [OF places_less [OF D(2) \<open>(q, i) \<in> D'\<close>]] apart start(1) by (fastforce simp: raw_def)
  qed
  from second [OF good(2) this] show ?thesis
  proof (cases rule: endsE)
    case (error err progs')
    then show ?thesis using good(1) by (intro endsI_error) auto
  next
    case then2: (good progs2 new2)
    have keep: "p_insns (progs2 ! hd ord) ! k = p_insns (progs1 ! hd ord) ! k"
      if "k < placed_len P (ord @ new)" "\<And>q i. (q, i) \<in> D' \<Longrightarrow> k \<noteq> pos P ord q + i" for k
      using then2(3) [OF that(1)] that(2) pos_places [OF D(2)] by fastforce
    show ?thesis
    proof (rule endsI [of _ progs2 _ _ _ "new @ new2"])
      show "(do { (err, progs) \<leftarrow> r; if err \<noteq> 0 then Some (err, progs) else f progs }) = Some (0, progs2)"
        using good(1) then2(1) by simp
      show "linking obj P (ord @ new @ new2) progs2" using then2(2) by simp
      show "p_insns (progs2 ! hd ord) ! k = p_insns (progs ! hd ord) ! k"
        if "k < placed_len P ord" "\<forall>(q, i) \<in> D \<union> D'. k \<noteq> pos P ord q + i" for k
        using keep [of k] good(3) [of k] that by fastforce
      show "linked obj P (ord @ new @ new2) (p_insns (progs2 ! hd ord)) q i" if "(q, i) \<in> D \<union> D'" for q i
      proof (cases "(q, i) \<in> D'")
        case False
        then have "(q, i) \<in> D" using that by simp
        then have "q \<in> set (ord @ new)" "pos P ord q + i < placed_len P (ord @ new)" "pos P (ord @ new) q = pos P ord q"
          using D(1) places_less [OF D(1)] by (auto simp: places_def intro: trans_less_add1)
        then show ?thesis
          using linked_mono [OF good(4) [OF \<open>(q, i) \<in> D\<close>], of "p_insns (progs2 ! hd ord)" new2] keep apart [OF \<open>(q, i) \<in> D\<close>]
          by simp
      qed (use then2(4) in simp)
      show "linked obj P (ord @ new @ new2) (p_insns (progs2 ! hd ord)) q i"
        if "q \<in> set (new @ new2)" "i < length (code P q)" for q i
      proof (cases "q \<in> set new2")
        case False
        then have q: "q \<in> set new" "q \<notin> set ord" using that linking_length(4) [OF good(2)] by auto
        then have "q \<in> set (ord @ new)" by simp
        have "pos P (ord @ new) q + i \<noteq> pos P ord q' + i'" if d: "(q', i') \<in> D'" for q' i'
        proof -
          have q': "q' \<in> set ord" "i' < length (code P q')" using D(2) d by (auto simp: places_def)
          then have "q \<noteq> q'" using q(2) by blast
          then show ?thesis
            using pos_disjoint [of q "ord @ new" q' i P i'] \<open>q \<in> set (ord @ new)\<close> \<open>i < _\<close> q' by (simp del: pos_append_new)
        qed
        then show ?thesis
          using linked_mono [OF good(5) [OF q(1) that(2)] \<open>q \<in> set (ord @ new)\<close>, of "p_insns (progs2 ! hd ord)" new2]
            keep [OF pos_less [OF \<open>q \<in> set (ord @ new)\<close> that(2)]] by simp
      qed (use then2(5) that in simp)
    qed
  qed
qed

text \<open>What a recursive call has to do: link all of a program that has been put in its place.\<close>

definition links :: "link_env \<Rightarrow> prog_obj \<Rightarrow> program list \<Rightarrow> nat \<Rightarrow> nat \<Rightarrow> (nat \<Rightarrow> program list \<Rightarrow> (int \<times> program list) option) \<Rightarrow> bool" where
  "links env obj P m n rc \<longleftrightarrow>
     (\<forall>ord progs q. linking obj P ord progs \<and> hd ord = m \<and> q \<in> set ord \<and> length P < length ord + n \<and>
        raw P ord ({q} \<times> {..<length (code P q)}) progs \<longrightarrow>
        ends env obj P ord ({q} \<times> {..<length (code P q)}) progs (rc q progs))"

lemma reloc_call_placed:
  assumes "linking obj P ord progs" "m = hd ord" "q \<in> set ord" "s \<in> set ord" "i < length (code P q)"
    "callee obj P q i (code P q ! i) = Some (Inr (Some s))" "raw P ord {(q, i)} progs"
  shows "ends env obj P ord {(q, i)} progs (set_imm m q s i progs)"
proof -
  obtain progs' where p: "set_imm m q s i progs = Some (0, progs')" "linking obj P ord progs'"
    "p_insns (progs' ! m) = (p_insns (progs ! m))[pos P ord q + i :=
       (p_insns (progs ! m) ! (pos P ord q + i))\<lparr>i_imm := of_nat (pos P ord s) - of_nat (pos P ord q + i) - 1\<rparr>]"
    by (rule set_imm_outcome [OF assms(1-5)])
  have k: "pos P ord q + i < length (p_insns (progs ! m))"
    using pos_less [OF assms(3,5)] linking_length(2) [OF assms(1)] assms(2) by simp
  show ?thesis
  proof (rule endsI [of _ progs' _ _ _ "[]"])
    show "linked obj P (ord @ []) (p_insns (progs' ! hd ord)) q' i'" if "(q', i') \<in> {(q, i)}" for q' i'
      using that p(3) k assms(4,6,7) by (simp add: linked_def raw_def assms(2) [symmetric])
  qed (use p assms(2) in auto)
qed

text \<open>Appending \<open>s\<close> first makes no difference to what is left to show.\<close>

lemma ends_extend:
  assumes "ends env obj P (ord @ [s]) ({s} \<times> {..<length (code P s)} \<union> D) progs1 r" "ord \<noteq> []" "s \<notin> set ord"
    "p_insns (progs1 ! hd ord) = p_insns (progs ! hd ord) @ code P s" "length (p_insns (progs ! hd ord)) = placed_len P ord"
    "places P ord D"
  shows "ends env obj P ord D progs r"
  using assms(1)
proof (cases rule: endsE)
  case (error err progs')
  then show ?thesis using assms(2) by (intro endsI_error) simp_all
next
  case (good progs' new)
  note good = good [unfolded hd_append2 [OF assms(2)] append_assoc append_Cons append_Nil]
  show ?thesis
  proof (rule endsI [of _ progs' _ _ _ "s # new", OF good(1,2)])
    show "p_insns (progs' ! hd ord) ! k = p_insns (progs ! hd ord) ! k"
      if "k < placed_len P ord" "\<forall>(q, i) \<in> D. k \<noteq> pos P ord q + i" for k
    proof -
      have "\<forall>(q, i) \<in> {s} \<times> {..<length (code P s)} \<union> D. k \<noteq> pos P (ord @ [s]) q + i"
        using that assms(3) by (auto simp: pos_places [OF assms(6)])
      then show ?thesis using good(3) [of k] that(1) assms(4,5) by (simp add: nth_append)
    qed
    show "linked obj P (ord @ s # new) (p_insns (progs' ! hd ord)) q i" if "(q, i) \<in> D" for q i
      using good(4) that by simp
    show "linked obj P (ord @ s # new) (p_insns (progs' ! hd ord)) q i"
      if "q \<in> set (s # new)" "i < length (code P q)" for q i
      using good(4,5) that by (cases "q = s") auto
  qed
qed

lemma reloc_call_new:
  assumes "linkable obj P m" "linking obj P ord progs" "hd ord = m" "q \<in> set ord" "i < length (code P q)"
    "length P < length ord + Suc n" "links env obj P m n rc" "raw P ord {(q, i)} progs"
    "s \<notin> set ord" "callee obj P q i (code P q ! i) = Some (Inr (Some s))" "s \<in> inlinable obj P m"
  shows "ends env obj P ord {(q, i)} progs
    (do { (err, progs) \<leftarrow> append_subprog rc env m s progs; if err \<noteq> 0 then Some (err, progs) else set_imm m q s i progs })"
  using assms(2) assms(3) [symmetric] assms(11,9)
proof (cases rule: append_subprog_outcome [where rc = rc and env = env and obj = obj])
  case (failed err progs')
  then show ?thesis using assms(3) by (intro endsI_error) auto
next
  case (appended progs1)
  note len = linking_length [OF assms(2), unfolded assms(3)]
  have hd [simp]: "hd (ord @ new) = m" for new using len(3) assms(3) by simp
  let ?D = "{s} \<times> {..<length (code P s)}"
  have "raw P (ord @ [s]) ?D progs1" using appended(3) len(2) assms(9) by (auto simp: raw_def nth_append)
  then have rec: "ends env obj P (ord @ [s]) ?D progs1 (rc s progs1)"
    using assms(6,7) appended(2) by (simp add: links_def)
  have k: "pos P ord q + i < placed_len P ord" by (rule pos_less [OF assms(4,5)])
  have placed: "places P ord {(q, i)}" using assms(4,5) by (simp add: places_def)
  have "ends env obj P (ord @ [s]) (?D \<union> {(q, i)}) progs1
      (do { (err, progs) \<leftarrow> rc s progs1; if err \<noteq> 0 then Some (err, progs) else set_imm m q s i progs })"
  proof (rule ends_seq [OF rec])
    show "ends env obj P ((ord @ [s]) @ new) {(q, i)} progs' (set_imm m q s i progs')"
      if "linking obj P ((ord @ [s]) @ new) progs'" "raw P ((ord @ [s]) @ new) {(q, i)} progs'" for progs' new
      using that assms(4,5,10) by (intro reloc_call_placed) auto
    show "raw P (ord @ [s]) {(q, i)} progs1"
      using assms(3,4,8) appended(3) len(2) k by (simp add: raw_def nth_append)
    show "?D \<inter> {(q, i)} = {}" using assms(4,9) by auto
  qed (use assms(4,5) in \<open>auto simp: places_def\<close>)
  from ends_extend [OF this len(3) assms(9) _ _ placed, unfolded assms(3), OF appended(3) len(2)]
  show ?thesis unfolding appended(1) .
qed

lemma reloc_insn_ends:
  assumes "linkable obj P m" "linking obj P ord progs" "hd ord = m" "q \<in> set ord" "i < length (code P q)"
    "length P < length ord + Suc n" "links env obj P m n rc" "raw P ord {(q, i)} progs"
  shows "ends env obj P ord {(q, i)} progs (reloc_insn rc env obj m q i progs)"
proof -
  note len = linking_length [OF assms(2), unfolded assms(3)]
  have off: "p_sub_insn_off (progs ! q) = pos P ord q" using linking_same(4) [OF assms(2)] len(6) assms(4) by simp
  have insn: "p_insns (progs ! m) ! (pos P ord q + i) = code P q ! i" using assms(8) by (simp add: raw_def assms(3))
  have "pos P ord q + i < length (p_insns (progs ! m))" using pos_less [OF assms(4,5)] len(2) by simp
  then have eval: "reloc_insn rc env obj m q i progs = do {
      r \<leftarrow> callee obj P q i (code P q ! i);
      case r of
        Inl err \<Rightarrow> Some (err, progs)
      | Inr None \<Rightarrow> Some (0, progs)
      | Inr (Some s) \<Rightarrow> do {
          (err, progs) \<leftarrow> (if p_sub_insn_off (progs ! s) = 0 then append_subprog rc env m s progs
                           else Some (0, progs));
          if err \<noteq> 0 then Some (err, progs) else set_imm m q s i progs
        }
    }" by (simp add: reloc_insn_def Let_def off rd_def insn callee_linking [OF assms(1,2,4,5,3)])
  from assms(1) show ?thesis
  proof (cases rule: callee_outcome [where q = q and i = i and insn = "code P q ! i"])
    case none
    then show ?thesis using eval assms(2,3) insn
      by (intro endsI [of _ progs _ _ _ "[]"]) (auto simp: linked_def)
  next
    case (error err)
    then have "faulty env obj m P" using len(9) [OF assms(4)] assms(5) by (auto simp: faulty_def)
    then show ?thesis using eval error assms(3) by (intro endsI_error) auto
  next
    case (sub s)
    note eval = eval [unfolded sub(1) bind.bind_lunit sum.case option.case]
    show ?thesis
    proof (cases "s \<in> set ord")
      case True
      then have "pos P ord s \<noteq> 0"
        using pos_zero [OF len(3) _ True] linkable_prog(1) [OF assms(1) inlinable_main [OF assms(1)]] assms(3) sub(3) by simp
      then have "p_sub_insn_off (progs ! s) \<noteq> 0" using linking_same(4) [OF assms(2) inlinable_less [OF sub(2)]] True by simp
      then show ?thesis
        using eval reloc_call_placed [OF assms(2) assms(3) [symmetric] assms(4) True assms(5) sub(1) assms(8)] by simp
    next
      case False
      then have "p_sub_insn_off (progs ! s) = 0" using linking_same(4) [OF assms(2) inlinable_less [OF sub(2)]] by simp
      then show ?thesis using reloc_call_new [OF assms False sub(1,2)] eval by simp
    qed
  qed
qed


lemma reloc_insns_ends:
  assumes "linkable obj P m" "links env obj P m n rc"
    "linking obj P ord progs" "hd ord = m" "q \<in> set ord" "length P < length ord + Suc n" "distinct is"
    "\<forall>i \<in> set is. i < length (code P q)" "raw P ord ({q} \<times> set is) progs"
  shows "ends env obj P ord ({q} \<times> set is) progs (reloc_insns rc env obj m q is progs)"
  using assms(3-)
proof (induction "is" arbitrary: ord progs)
  case Nil
  then show ?case by (intro endsI [of _ progs _ _ _ "[]"]) auto
next
  case (Cons i "is")
  have hd [simp]: "hd (ord @ new) = m" for new using linking_length(3) [OF Cons.prems(1)] Cons.prems(2) by simp
  have first: "ends env obj P ord {(q, i)} progs (reloc_insn rc env obj m q i progs)"
    using Cons.prems by (intro reloc_insn_ends [OF assms(1) _ _ _ _ _ assms(2)]) (auto simp: raw_def)
  have "ends env obj P ord ({(q, i)} \<union> {q} \<times> set is) progs
    (do { (err, progs) \<leftarrow> reloc_insn rc env obj m q i progs;
          if err \<noteq> 0 then Some (err, progs) else reloc_insns rc env obj m q is progs })"
  proof (rule ends_seq [OF first])
    show "ends env obj P (ord @ new) ({q} \<times> set is) progs' (reloc_insns rc env obj m q is progs')"
      if "linking obj P (ord @ new) progs'" "raw P (ord @ new) ({q} \<times> set is) progs'" for progs' new
      using that Cons.prems by (intro Cons.IH) auto
  qed (use Cons.prems linking_length(3) [OF Cons.prems(1)] in \<open>auto simp: places_def raw_def\<close>)
  moreover have "{(q, i)} \<union> {q} \<times> set is = {q} \<times> set (i # is)" by auto
  ultimately show ?case by simp
qed

text \<open>The names of the sections with debug records can be read.\<close>

definition ext_readable :: "link_env \<Rightarrow> bool" where
  "ext_readable env \<longleftrightarrow>
     (case le_ext env of None \<Rightarrow> True
      | Some (func_ext, line_ext) \<Rightarrow>
          \<forall>(off, recs) \<in> set (ei_secs func_ext) \<union> set (ei_secs line_ext). btf_name_by_offset (le_btf env) off \<noteq> None)"

lemma adjust_info_some:
  assumes "\<forall>(off, recs) \<in> set secs. btf_name_by_offset (le_btf env) off \<noteq> None"
  shows "\<exists>err inf. adjust_info env prog rec_size secs prog_info = Some (err, inf)"
  using assms
proof (induction secs)
  case (Cons sec secs)
  obtain off recs where sec: "sec = (off, recs)" by (cases sec)
  then obtain name where "btf_name_by_offset (le_btf env) off = Some name" using Cons.prems by auto
  then show ?case using Cons sec by (cases name) (auto simp: Let_def split: option.split)
qed simp

lemma reloc_info_some:
  assumes "\<forall>(off, recs) \<in> set (ei_secs ext). btf_name_by_offset (le_btf env) off \<noteq> None"
  shows "\<exists>err inf. reloc_info env ext is_main prog prog_info = Some (err, inf)"
  using adjust_info_some [OF assms, of prog "ei_rec_size ext" prog_info] by (auto simp: reloc_info_def)

lemma linking_main:
  assumes "linking obj P ord progs" "m = hd ord" "p_sec_idx main = p_sec_idx (progs ! m)"
    "p_sec_insn_off main = p_sec_insn_off (progs ! m)" "p_sec_insn_cnt main = p_sec_insn_cnt (progs ! m)"
    "p_load main = p_load (progs ! m)"
    "p_sub_insn_off main = p_sub_insn_off (progs ! m)" "p_insns main = p_insns (progs ! m)"
    "p_relos main = p_relos (progs ! m)"
  shows "linking obj P ord (progs[m := main])" "p_insns (progs[m := main] ! m) = p_insns (progs ! m)"
  using assms linking_length(7) [OF assms(1)] by (auto simp: linking_def nth_list_update)

lemma reloc_prog_info_outcome:
  assumes "linking obj P ord progs" "hd ord = m" "ext_readable env"
  obtains err progs' where "reloc_prog_info env m q progs = Some (err, progs')" "err \<noteq> 0 \<Longrightarrow> le_ext env \<noteq> None"
    "linking obj P ord progs'" "p_insns (progs' ! m) = p_insns (progs ! m)"
proof (cases "le_ext env")
  case None
  then show thesis using that [of 0 progs] assms(1) by (simp add: reloc_prog_info_def)
next
  case (Some ext)
  obtain func_ext line_ext where ext: "le_ext env = Some (func_ext, line_ext)" using Some by (cases ext) simp
  then have readable: "\<forall>(off, recs) \<in> set (ei_secs func_ext). btf_name_by_offset (le_btf env) off \<noteq> None"
    "\<forall>(off, recs) \<in> set (ei_secs line_ext). btf_name_by_offset (le_btf env) off \<noteq> None"
    using assms(3) by (auto simp: ext_readable_def)
  let ?main = "progs ! m"
  from reloc_info_some [OF readable(1)] obtain e1 f where
    f: "reloc_info env func_ext (m = q) (progs ! q) (p_func_info ?main, p_func_info_rec_size ?main) = Some (e1, f)" by blast
  let ?main1 = "?main\<lparr>p_func_info := fst f, p_func_info_rec_size := snd f\<rparr>"
  from reloc_info_some [OF readable(2)] obtain e2 l where
    l: "reloc_info env line_ext (m = q) (progs ! q) (p_line_info ?main1, p_line_info_rec_size ?main1) = Some (e2, l)" by blast
  let ?main2 = "?main1\<lparr>p_line_info := fst l, p_line_info_rec_size := snd l\<rparr>"
  have keep: "linking obj P ord (progs[m := main])" "p_insns (progs[m := main] ! m) = p_insns (progs ! m)"
    if "main = ?main1 \<or> main = ?main2" for main
    using that by (auto intro!: linking_main [OF assms(1) assms(2) [symmetric]])
  show thesis
  proof (cases e1)
    case (Some err)
    then show thesis using keep [of ?main1] f ext by (intro that [of err "progs[m := ?main1]"]) (auto simp: reloc_prog_info_def)
  next
    case None
    then show thesis using keep [of ?main2] f l ext
      by (intro that [of "case e2 of Some err \<Rightarrow> err | None \<Rightarrow> 0" "progs[m := ?main2]"]) (auto simp: reloc_prog_info_def)
  qed
qed

text \<open>The fuel has to be more than the number of programs that are not yet in the main one.\<close>

lemma reloc_code_links:
  assumes "linkable obj P m" "ext_readable env"
  shows "links env obj P m fuel (reloc_code fuel env obj m)"
proof (induction fuel)
  case 0
  show ?case unfolding links_def
  proof (intro allI impI, elim conjE)
    fix ord progs q assume "linking obj P ord progs" "length P < length ord + 0"
    then show "ends env obj P ord ({q} \<times> {..<length (code P q)}) progs (reloc_code 0 env obj m q progs)"
      using linking_length(8) [of obj P ord progs] by simp
  qed
next
  case (Suc fuel)
  show ?case unfolding links_def
  proof (intro allI impI, elim conjE)
    fix ord progs q
    assume start: "linking obj P ord progs" "hd ord = m" "q \<in> set ord" "length P < length ord + Suc fuel"
      "raw P ord ({q} \<times> {..<length (code P q)}) progs"
    let ?D = "{q} \<times> {..<length (code P q)}"
    obtain err progs1 where inf: "reloc_prog_info env m q progs = Some (err, progs1)" "err \<noteq> 0 \<Longrightarrow> le_ext env \<noteq> None"
      "linking obj P ord progs1" "p_insns (progs1 ! m) = p_insns (progs ! m)"
      by (rule reloc_prog_info_outcome [OF start(1,2) assms(2), where q = q]) blast
    show "ends env obj P ord ?D progs (reloc_code (Suc fuel) env obj m q progs)"
    proof (cases "err = 0")
      case False
      with inf have "faulty env obj m P" by (simp add: faulty_def)
      then show ?thesis using inf False start(2) by (intro endsI_error) auto
    next
      case True
      have q: "q < length P" by (rule linking_length(6) [OF start(1,3)])
      have cnt: "p_sec_insn_cnt (progs1 ! q) = length (code P q)"
        using linking_same(3) [OF inf(3) q] linkable_prog(2) [OF assms(1), of q] linking_length(9) [OF start(1,3)] start(2) by simp
      have D: "{q} \<times> set [0..<length (code P q)] = ?D" by auto
      have "raw P ord ?D progs1" using start(2,5) inf(4) by (simp add: raw_def)
      then have "ends env obj P ord ?D progs1
          (reloc_insns (reloc_code fuel env obj m) env obj m q [0..<length (code P q)] progs1)"
        using reloc_insns_ends [OF assms(1) Suc.IH inf(3) start(2-4), of "[0..<length (code P q)]"] D by auto
      then show ?thesis using inf(1,4) True start(2) cnt by (simp add: ends_def)
    qed
  qed
qed

section \<open>Linking a main program\<close>

text \<open>Before any program is linked no program has a place.\<close>

lemma linking_start:
  assumes "linkable obj P m" "\<forall>p \<in> set P. p_sub_insn_off p = 0"
  shows "linking obj P [m] P"
proof -
  have "map (shift_relo 0) xs = xs" for xs by (simp add: map_idI)
  then show ?thesis using assms by (simp add: linking_def linkable_def placed_relos_def inlinable_def)
qed

lemma reloc_code_outcome:
  assumes "linkable obj P m" "ext_readable env" "\<forall>p \<in> set P. p_sub_insn_off p = 0" "length P \<le> fuel"
  shows "\<exists>err progs. reloc_code fuel env obj m m P = Some (err, progs) \<and> (err \<noteq> 0 \<longrightarrow> faulty env obj m P) \<and>
    (err = 0 \<longrightarrow> (\<exists>subs. linking obj P (m # subs) progs \<and>
       (\<forall>q \<in> set (m # subs). \<forall>i < length (code P q). linked obj P (m # subs) (p_insns (progs ! m)) q i)))"
proof -
  have "raw P [m] ({m} \<times> {..<length (code P m)}) P" by (simp add: raw_def)
  then have "ends env obj P [m] ({m} \<times> {..<length (code P m)}) P (reloc_code fuel env obj m m P)"
    using reloc_code_links [OF assms(1,2), of fuel] linking_start [OF assms(1,3)] assms(4) by (simp add: links_def)
  then show ?thesis
  proof (cases rule: endsE)
    case (error err progs')
    then show ?thesis by auto
  next
    case (good progs' new)
    have "\<forall>q \<in> set (m # new). \<forall>i < length (code P q). linked obj P (m # new) (p_insns (progs' ! m)) q i"
      using good(4,5) by auto
    then show ?thesis using good(1,2) by auto
  qed
qed

text \<open>
  What is linked into \<open>m\<close> depends on the programs of \<^verbatim>\<open>.text\<close> and on \<open>m\<close> itself, not on other main
  programs nor on where subprograms have been put before.
\<close>

definition same_for :: "prog_obj \<Rightarrow> nat \<Rightarrow> program list \<Rightarrow> program list \<Rightarrow> bool" where
  "same_for obj m P P' \<longleftrightarrow> same_sections P P' \<and>
     (\<forall>q \<in> inlinable obj P m. p_insns (P' ! q) = p_insns (P ! q) \<and> p_relos (P' ! q) = p_relos (P ! q))"

lemma inlinable_same:
  assumes "same_sections P P'"
  shows "inlinable obj P' m = inlinable obj P m"
  using assms by (auto simp: inlinable_def same_sections_def)

lemma linkable_same:
  assumes "same_for obj m P P'" "linkable obj P m"
  shows "linkable obj P' m"
proof -
  have sec: "same_sections P P'" and m: "m < length P" and sorted: "sorted_wrt prog_before (map core_prog.truncate P)"
    and shndx: "p_sec_idx (P ! m) \<noteq> ob_text_shndx obj"
    using assms by (simp_all add: same_for_def linkable_def)
  have "0 < p_sec_insn_cnt (P' ! q) \<and> p_sec_insn_cnt (P' ! q) = length (p_insns (P' ! q)) \<and>
      sorted_wrt (<) (map rd_insn_idx (p_relos (P' ! q))) \<and>
      (\<forall>r \<in> set (p_relos (P' ! q)). rd_insn_idx r < p_sec_insn_cnt (P' ! q))" if q: "q \<in> inlinable obj P m" for q
    using linkable_prog [OF assms(2) q] assms(1) q inlinable_less [OF q] by (simp add: same_for_def same_sections_def)
  moreover have "m < length P'" "p_sec_idx (P' ! m) \<noteq> ob_text_shndx obj" using sec m shndx by (auto simp: same_sections_def)
  ultimately show ?thesis using same_sections_sorted [OF sec sorted] unfolding linkable_def inlinable_same [OF sec] by blast
qed

lemma callee_same:
  assumes "same_for obj m P P'" "linkable obj P m" "q \<in> inlinable obj P m"
  shows "callee obj P' q i insn = callee obj P q i insn"
proof -
  have sec: "same_sections P P'" using assms(1) by (simp add: same_for_def)
  have "p_relos (P' ! q) = p_relos (P ! q)" using assms(1,3) by (simp add: same_for_def)
  moreover have "sub_insn_idx (P' ! q) i insn relo = sub_insn_idx (P ! q) i insn relo" for relo
    using sec inlinable_less [OF assms(3)] by (simp add: sub_insn_idx_def same_sections_def split: option.split)
  moreover have "prog_by_sec_insn P' s k = prog_by_sec_insn P s k" for s k
    using assms(2) by (intro prog_by_sec_insn_same [OF sec]) (auto simp: linkable_def)
  ultimately show ?thesis by (simp only: callee_def)
qed

lemma placed_len_same: "same_for obj m P P' \<Longrightarrow> set ord \<subseteq> inlinable obj P m \<Longrightarrow> placed_len P' ord = placed_len P ord"
  by (induction ord) (auto simp: same_for_def)

lemma pos_same: "same_for obj m P P' \<Longrightarrow> set ord \<subseteq> inlinable obj P m \<Longrightarrow> pos P' ord q = pos P ord q"
  by (induction ord) (auto simp: same_for_def)

lemma placed_relos_same:
  assumes "same_for obj m P P'" "set ord \<subseteq> inlinable obj P m"
  shows "placed_relos P' ord = placed_relos P ord"
proof -
  have "p_relos (P' ! q) = p_relos (P ! q)" if "q \<in> set ord" for q using that assms by (auto simp: same_for_def)
  then show ?thesis by (simp add: placed_relos_def pos_same [OF assms] cong: map_cong)
qed

lemma linked_same:
  assumes "same_for obj m P P'" "linkable obj P m" "set ord \<subseteq> inlinable obj P m" "q \<in> set ord"
  shows "linked obj P' ord insns q i \<longleftrightarrow> linked obj P ord insns q i"
proof -
  have q: "q \<in> inlinable obj P m" using assms(3,4) by blast
  then have code: "code P' q = code P q" using assms(1) by (simp add: same_for_def)
  show ?thesis unfolding linked_def pos_same [OF assms(1,3)] callee_same [OF assms(1,2) q] code ..
qed

lemma reset_subprogs_nth:
  assumes "q < length P"
  shows "reset_subprogs obj P ! q = (P ! q)\<lparr>p_sub_insn_off :=
    if prog_is_subprog obj P (P ! q) then 0 else p_sub_insn_off (P ! q)\<rparr>"
  using assms by (simp add: reset_subprogs_def)

lemma length_reset_subprogs [simp]: "length (reset_subprogs obj P) = length P"
  by (simp add: reset_subprogs_def)

lemma reset_subprogs_same: "same_for obj m P (reset_subprogs obj P)"
  by (auto simp: same_for_def same_sections_def reset_subprogs_nth inlinable_def)

lemma faulty_same:
  assumes "same_for obj m P P'" "linkable obj P m" "faulty env obj m P'"
  shows "faulty env obj m P"
proof -
  have sec: "same_sections P P'" using assms(1) by (simp add: same_for_def)
  have "callee obj P' q i (code P' q ! i) = callee obj P q i (code P q ! i) \<and> code P' q = code P q"
    if "q \<in> inlinable obj P m" for q i
    using callee_same [OF assms(1,2) that] assms(1) that by (simp add: same_for_def)
  then show ?thesis using assms(3) unfolding faulty_def inlinable_same [OF sec] by metis
qed

text \<open>The instruction that a call at position \<open>off\<close> goes to.\<close>

definition call_target :: "nat \<Rightarrow> bpf_insn \<Rightarrow> int" where
  "call_target off insn = int off + 1 + sint (i_imm insn)"

lemma linked_target:
  assumes "linked obj P ord insns q i" "callee obj P q i (code P q ! i) = Some (Inr (Some s))"
    "placed_len P ord < 2 ^ 31" "q \<in> set ord" "i < length (code P q)"
  shows "call_target (pos P ord q + i) (insns ! (pos P ord q + i)) = int (pos P ord s)"
proof -
  have s: "s \<in> set ord" and imm: "i_imm (insns ! (pos P ord q + i)) = of_int (int (pos P ord s) - int (pos P ord q + i) - 1)"
    using assms(1,2) by (simp_all add: linked_def)
  have "pos P ord q + i < 2 ^ 31" "pos P ord s < 2 ^ 31"
    using pos_less [OF assms(4,5)] pos_bound [OF s, of P] assms(3) by linarith+
  then have "sint (of_int (int (pos P ord s) - int (pos P ord q + i) - 1) :: u32) = int (pos P ord s) - int (pos P ord q + i) - 1"
    by (intro sint_word_of_int_u32) auto
  then show ?thesis by (simp add: call_target_def imm)
qed

lemma relocate_calls_outcome:
  assumes "linkable obj P m" "ext_readable env" "length P \<le> fuel"
    "\<forall>p \<in> set P. \<not> prog_is_subprog obj P p \<longrightarrow> p_sub_insn_off p = 0"
  shows "\<exists>err progs. relocate_calls fuel env obj m P = Some (err, progs) \<and> (err \<noteq> 0 \<longrightarrow> faulty env obj m P) \<and>
    (err = 0 \<longrightarrow> (\<exists>subs. linking obj (reset_subprogs obj P) (m # subs) progs \<and> set (m # subs) \<subseteq> inlinable obj P m \<and>
       (\<forall>q \<in> set (m # subs). \<forall>i < length (code P q). linked obj P (m # subs) (p_insns (progs ! m)) q i)))"
proof -
  let ?P = "reset_subprogs obj P"
  note same = reset_subprogs_same [of obj m P]
  have sec: "same_sections P ?P" using same by (simp add: same_for_def)
  have "\<forall>p \<in> set ?P. p_sub_insn_off p = 0" using assms(4) by (auto simp: reset_subprogs_def)
  from reloc_code_outcome [OF linkable_same [OF same assms(1)] assms(2) this, of fuel] assms(3)
  obtain err progs where run: "relocate_calls fuel env obj m P = Some (err, progs)" "err \<noteq> 0 \<longrightarrow> faulty env obj m ?P"
    and linked: "err = 0 \<longrightarrow> (\<exists>subs. linking obj ?P (m # subs) progs \<and>
       (\<forall>q \<in> set (m # subs). \<forall>i < length (code ?P q). linked obj ?P (m # subs) (p_insns (progs ! m)) q i))"
    by (auto simp: relocate_calls_def)
  show ?thesis
  proof (cases "err = 0")
    case True
    with linked obtain subs where subs: "linking obj ?P (m # subs) progs"
      "\<forall>q \<in> set (m # subs). \<forall>i < length (code ?P q). linked obj ?P (m # subs) (p_insns (progs ! m)) q i" by blast
    have dom: "set (m # subs) \<subseteq> inlinable obj P m"
      using linking_length(9) [OF subs(1)] by (auto simp: inlinable_same [OF sec])
    have "linked obj P (m # subs) (p_insns (progs ! m)) q i" if "q \<in> set (m # subs)" "i < length (code P q)" for q i
    proof -
      have "q \<in> inlinable obj P m" using that(1) dom by blast
      then have "i < length (code ?P q)" using that(2) same by (simp add: same_for_def)
      then show ?thesis using bspec [OF subs(2) that(1)] linked_same [OF same assms(1) dom that(1)] by blast
    qed
    then show ?thesis using run(1) True subs(1) dom by blast
  next
    case False
    then show ?thesis using run faulty_same [OF same assms(1)] by blast
  qed
qed

text \<open>
  C15: linking the calls of a main program ends, without access outside of its memory, for programs
  as the earlier stages leave them: the main program exists and is not itself in
  \<^verbatim>\<open>.text\<close> (an object with a single program in \<^verbatim>\<open>.text\<close> that calls itself does overrun its memory, lemma
  \<open>self_call_overruns\<close>); the programs are in the order of \<open>cmp_progs\<close> and do not overlap; the main
  program and those of \<^verbatim>\<open>.text\<close> are not empty, have as many instructions as recorded, and their
  descriptors are in the order of their instructions, at most one for each, and within the
  program; no other program has been given a place as subprogram; the section names of the debug records
  can be read; and the depth of calls allowed for is at least the number of programs. When linking
  succeeds, the main program consists of its own code and that of subprograms, each once and one
  after the other, in which every instruction that refers to a subprogram, and only those, has
  been changed so that it goes to the start of that subprogram, which is there (the distance being
  counted in 32 bits, for less than \<open>2 ^ 31\<close> instructions in all); the code of all
  other programs is what it was. It fails only if an allocation does, a call cannot be resolved,
  or for the debug records.
\<close>

theorem relocate_calls_links:
  assumes "linkable obj P m" "ext_readable env" "length P \<le> fuel"
    "\<forall>p \<in> set P. \<not> prog_is_subprog obj P p \<longrightarrow> p_sub_insn_off p = 0"
  shows "\<exists>err progs. relocate_calls fuel env obj m P = Some (err, progs) \<and> (err \<noteq> 0 \<longrightarrow> faulty env obj m P) \<and>
    (err = 0 \<longrightarrow> (\<exists>subs. distinct (m # subs) \<and> set subs \<subseteq> inlinable obj P m \<and>
       length (p_insns (progs ! m)) = placed_len P (m # subs) \<and>
       (\<forall>q < length P. q \<noteq> m \<longrightarrow> p_insns (progs ! q) = p_insns (P ! q)) \<and>
       (\<forall>q \<in> set (m # subs). \<forall>i < length (code P q). linked obj P (m # subs) (p_insns (progs ! m)) q i \<and>
         (\<forall>s. callee obj P q i (code P q ! i) = Some (Inr (Some s)) \<and> placed_len P (m # subs) < 2 ^ 31 \<longrightarrow>
            call_target (pos P (m # subs) q + i) (p_insns (progs ! m) ! (pos P (m # subs) q + i)) = int (pos P (m # subs) s)))))"
proof -
  from relocate_calls_outcome [OF assms] obtain err progs where
    run: "relocate_calls fuel env obj m P = Some (err, progs)" "err \<noteq> 0 \<longrightarrow> faulty env obj m P"
    and ok: "err = 0 \<longrightarrow> (\<exists>subs. linking obj (reset_subprogs obj P) (m # subs) progs \<and> set (m # subs) \<subseteq> inlinable obj P m \<and>
       (\<forall>q \<in> set (m # subs). \<forall>i < length (code P q). linked obj P (m # subs) (p_insns (progs ! m)) q i))" by blast
  note same = reset_subprogs_same [of obj m P]
  show ?thesis
  proof (rule exI [of _ err], rule exI [of _ progs], intro conjI impI)
    show "relocate_calls fuel env obj m P = Some (err, progs)" by (rule run(1))
    show "faulty env obj m P" if "err \<noteq> 0" using run(2) that by blast
    assume "err = 0"
    with ok obtain subs where subs: "linking obj (reset_subprogs obj P) (m # subs) progs" "set (m # subs) \<subseteq> inlinable obj P m"
      "\<forall>q \<in> set (m # subs). \<forall>i < length (code P q). linked obj P (m # subs) (p_insns (progs ! m)) q i" by blast
    note len = linking_length(2,4) [OF subs(1), unfolded list.sel placed_len_same [OF same subs(2)]]
    have "p_insns (progs ! q) = p_insns (P ! q)" if "q < length P" "q \<noteq> m" for q
      using linking_same(5) [OF subs(1), of q] that by (simp add: reset_subprogs_nth)
    then show "\<exists>subs. distinct (m # subs) \<and> set subs \<subseteq> inlinable obj P m \<and>
       length (p_insns (progs ! m)) = placed_len P (m # subs) \<and>
       (\<forall>q < length P. q \<noteq> m \<longrightarrow> p_insns (progs ! q) = p_insns (P ! q)) \<and>
       (\<forall>q \<in> set (m # subs). \<forall>i < length (code P q). linked obj P (m # subs) (p_insns (progs ! m)) q i \<and>
         (\<forall>s. callee obj P q i (code P q ! i) = Some (Inr (Some s)) \<and> placed_len P (m # subs) < 2 ^ 31 \<longrightarrow>
            call_target (pos P (m # subs) q + i) (p_insns (progs ! m) ! (pos P (m # subs) q + i)) = int (pos P (m # subs) s)))"
      using len subs(2,3) linked_target by (intro exI [of _ subs] conjI) (blast | simp)+
  qed
qed

section \<open>An example, and an object that breaks the linker\<close>

text \<open>
  Two functions of \<^verbatim>\<open>.text\<close>, of which the first calls the second, and a main program that calls the
  first.
\<close>

definition call_insn :: "u32 \<Rightarrow> bpf_insn" where
  "call_insn imm = \<lparr>i_code = 0x85, dst_reg = 0, src_reg = 1, i_off = 0, i_imm = imm\<rparr>"

definition exit_insn :: bpf_insn where
  "exit_insn = \<lparr>i_code = 0x95, dst_reg = 0, src_reg = 0, i_off = 0, i_imm = 0\<rparr>"

definition mk_prog :: "nat \<Rightarrow> nat \<Rightarrow> bpf_insn list \<Rightarrow> reloc_desc list \<Rightarrow> program" where
  "mk_prog sec_idx off insns relos =
     \<lparr>p_sec_name = [], p_sec_idx = sec_idx, p_sec_insn_off = off, p_sec_insn_cnt = length insns, p_insns = insns,
      p_load = True, p_core_relos = [], p_name = [], p_mark_btf_static = False, p_sub_insn_off = 0,
      p_relos = relos, p_func_info = None, p_func_info_rec_size = 0, p_line_info = None, p_line_info_rec_size = 0\<rparr>"

definition calling_progs :: "program list" where
  "calling_progs = [mk_prog 1 0 [call_insn 1, exit_insn] [], mk_prog 1 2 [exit_insn] [],
     mk_prog 3 0 [call_insn (- 1), exit_insn] [call_relo]]"

definition no_debug :: link_env where
  "no_debug = \<lparr>le_btf = relo_btf, le_ext = None, le_info_ok = (\<lambda>_. True), le_insns_ok = (\<lambda>_. True), le_relos_ok = (\<lambda>_. True)\<rparr>"

lemma calling_progs_search:
  "prog_by_sec_insn calling_progs 1 0 = Some (Some 0)" "prog_by_sec_insn calling_progs 1 2 = Some (Some 1)"
  by (simp_all add: prog_by_sec_insn_def find_prog_by_sec_insn_def find_prog_loop.simps rd_def core_prog.defs not_behind_def
      prog_contains_insn_def calling_progs_def mk_prog_def)

lemma calling_progs_callee:
  "callee call_obj calling_progs 2 0 (call_insn (- 1)) = Some (Inr (Some 0))"
  "callee call_obj calling_progs 0 0 (call_insn 1) = Some (Inr (Some 1))"
  "callee call_obj calling_progs q i exit_insn = Some (Inr None)"
proof -
  have relos: "p_relos (calling_progs ! 2) = [call_relo]" "p_relos (calling_progs ! 0) = []" "p_sec_insn_off (calling_progs ! 0) = 0"
    by (simp_all add: calling_progs_def mk_prog_def)
  have insn: "insn_is_subprog_call (call_insn imm)" "\<not> insn_is_pseudo_func (call_insn imm)" for imm
    by (simp_all add: insn_is_subprog_call_def insn_is_pseudo_func_def is_ldimm64_insn_def call_insn_def BPF_CLASS_def
        BPF_OP_def BPF_SRC_def c_consts)
  have target: "sub_insn_idx prog 0 (call_insn (- 1)) (Some call_relo) = Inr 0"
    "p_sec_insn_off prog = 0 \<Longrightarrow> sub_insn_idx prog 0 (call_insn 1) None = Inr 2" for prog
    by (simp_all add: sub_insn_idx_def call_relo_def call_insn_def insn(2) [unfolded call_insn_def])
  have shndx: "ob_text_shndx call_obj = 1" by (simp add: call_obj_def)
  have "find_prog_insn_relo [call_relo] 0 = Some call_relo"
    by (simp add: find_prog_insn_relo_def bsearch_relo.simps cmp_relo_by_insn_idx_def call_relo_def)
  then show "callee call_obj calling_progs 2 0 (call_insn (- 1)) = Some (Inr (Some 0))"
    using calling_progs_search(1) target(1) shndx by (simp add: callee_def insn relos) (simp add: call_relo_def)
  show "callee call_obj calling_progs 0 0 (call_insn 1) = Some (Inr (Some 1))"
    using calling_progs_search(2) target(2) shndx by (simp add: callee_def insn relos find_prog_insn_relo_def)
  show "callee call_obj calling_progs q i exit_insn = Some (Inr None)"
    by (simp add: callee_def insn_is_subprog_call_def insn_is_pseudo_func_def is_ldimm64_insn_def exit_insn_def BPF_CLASS_def
        BPF_OP_def BPF_SRC_def c_consts)
qed

lemma calling_progs_insns:
  "q < 3 \<Longrightarrow> i < length (code calling_progs q) \<Longrightarrow>
     (q, i) = (2, 0) \<and> code calling_progs q ! i = call_insn (- 1) \<or>
     (q, i) = (0, 0) \<and> code calling_progs q ! i = call_insn 1 \<or> code calling_progs q ! i = exit_insn"
  by (auto simp: calling_progs_def mk_prog_def numeral_3_eq_3 numeral_2_eq_2 less_Suc_eq nth_Cons')

lemma calling_progs_not_faulty: "\<not> faulty no_debug call_obj 2 calling_progs"
proof -
  have "callee call_obj calling_progs q i (code calling_progs q ! i) \<noteq> Some (Inl err)"
    if "q < 3" "i < length (code calling_progs q)" for q i err
    using calling_progs_insns [OF that] calling_progs_callee by auto
  moreover have "q < 3" if "q \<in> inlinable call_obj calling_progs 2" for q
    using inlinable_less [OF that] by (simp add: calling_progs_def)
  ultimately show ?thesis unfolding faulty_def by (auto simp: no_debug_def)
qed

lemma relocate_calls_links_witness:
  "\<exists>progs subs. relocate_calls 3 no_debug call_obj 2 calling_progs = Some (0, progs) \<and> set subs = {0, 1} \<and>
     call_target 0 (p_insns (progs ! 2) ! 0) = int (pos calling_progs (2 # subs) 0) \<and>
     call_target (pos calling_progs (2 # subs) 0) (p_insns (progs ! 2) ! pos calling_progs (2 # subs) 0) =
       int (pos calling_progs (2 # subs) 1)"
proof -
  have ok: "linkable call_obj calling_progs 2" "ext_readable no_debug" "length calling_progs \<le> 3"
    "\<forall>p \<in> set calling_progs. \<not> prog_is_subprog call_obj calling_progs p \<longrightarrow> p_sub_insn_off p = 0"
    by (auto simp: linkable_def inlinable_def calling_progs_def mk_prog_def call_obj_def call_relo_def prog_before_def
        core_prog.defs ext_readable_def no_debug_def less_Suc_eq numeral_3_eq_3)
  have len: "length calling_progs = 3" by (simp add: calling_progs_def)
  from relocate_calls_links [OF ok] calling_progs_not_faulty obtain progs subs where
    run: "relocate_calls 3 no_debug call_obj 2 calling_progs = Some (0, progs)" "distinct (2 # subs)" "set subs \<subseteq> inlinable call_obj calling_progs 2" and
    linked: "\<forall>q \<in> set (2 # subs). \<forall>i < length (code calling_progs q).
       linked call_obj calling_progs (2 # subs) (p_insns (progs ! 2)) q i \<and>
       (\<forall>s. callee call_obj calling_progs q i (code calling_progs q ! i) = Some (Inr (Some s)) \<and>
          placed_len calling_progs (2 # subs) < 2 ^ 31 \<longrightarrow>
          call_target (pos calling_progs (2 # subs) q + i) (p_insns (progs ! 2) ! (pos calling_progs (2 # subs) q + i)) =
            int (pos calling_progs (2 # subs) s))"
    by blast
  have dom: "set subs \<subseteq> {..<3}" using run(3) inlinable_less [of _ call_obj calling_progs 2] by (auto simp: len)
  have main: "code calling_progs 2 = [call_insn (- 1), exit_insn]" "code calling_progs 0 = [call_insn 1, exit_insn]"
    "length (code calling_progs 1) = 1" by (simp_all add: calling_progs_def mk_prog_def)
  have "linked call_obj calling_progs (2 # subs) (p_insns (progs ! 2)) 2 0" using linked main(1) by simp
  then have sub0: "0 \<in> set subs" by (simp add: linked_def main calling_progs_callee)
  then have "linked call_obj calling_progs (2 # subs) (p_insns (progs ! 2)) 0 0" using linked main(2) by simp
  then have "1 \<in> set subs" by (simp add: linked_def main calling_progs_callee)
  then have subs: "set subs = {0, 1}" using sub0 run(2) dom by (auto simp: numeral_3_eq_3 numeral_2_eq_2 less_Suc_eq)
  have "length subs = 2" using run(2) subs distinct_card [of subs] by simp
  then obtain a b where "subs = [a, b]" by (auto simp: numeral_2_eq_2 length_Suc_conv)
  then have "placed_len calling_progs (2 # subs) = 5" using subs main by (auto simp: doubleton_eq_iff)
  then have len: "placed_len calling_progs (2 # subs) < 2 ^ 31" by simp
  have "call_target (pos calling_progs (2 # subs) 2 + 0) (p_insns (progs ! 2) ! (pos calling_progs (2 # subs) 2 + 0)) =
      int (pos calling_progs (2 # subs) 0)"
    using linked len main(1) calling_progs_callee(1) by (metis length_greater_0_conv list.discI list.set_intros(1) nth_Cons_0)
  moreover have "call_target (pos calling_progs (2 # subs) 0 + 0) (p_insns (progs ! 2) ! (pos calling_progs (2 # subs) 0 + 0)) =
      int (pos calling_progs (2 # subs) 1)"
    using linked len main(2) calling_progs_callee(2) sub0
    by (metis length_greater_0_conv list.discI list.set_intros(2) nth_Cons_0)
  ultimately show ?thesis using run(1) subs by (intro exI [of _ progs] exI [of _ subs]) simp
qed

text \<open>
  An object whose only program is in \<^verbatim>\<open>.text\<close> and calls itself: the program is taken for a
  subprogram of itself that has to be appended, and as its length has been changed before, more
  is copied than there is room for.
\<close>

lemma self_call_overruns:
  "relocate_calls (Suc fuel) no_debug call_obj 0 [mk_prog 1 0 [call_insn (- 1), exit_insn] []] = None"
proof -
  let ?P = "[mk_prog 1 0 [call_insn (- 1), exit_insn] []]"
  have "prog_by_sec_insn ?P 1 0 = Some (Some 0)"
    by (simp add: prog_by_sec_insn_def find_prog_by_sec_insn_def find_prog_loop.simps rd_def core_prog.defs
        prog_contains_insn_def mk_prog_def)
  moreover have "insn_is_subprog_call (call_insn (- 1))" "\<not> insn_is_pseudo_func (call_insn (- 1))"
    by (simp_all add: insn_is_subprog_call_def insn_is_pseudo_func_def is_ldimm64_insn_def call_insn_def BPF_CLASS_def
        BPF_OP_def BPF_SRC_def c_consts)
  ultimately have "callee call_obj ?P 0 0 (call_insn (- 1)) = Some (Inr (Some 0))"
    by (simp add: callee_def sub_insn_idx_def find_prog_insn_relo_def mk_prog_def)
      (simp add: call_obj_def call_insn_def)
  then show ?thesis
    by (simp add: relocate_calls_def reset_subprogs_def prog_is_subprog_def reloc_prog_info_def no_debug_def
        reloc_insn_def append_subprog_def rd_def upt_conv_Cons mk_prog_def Let_def)
qed
end
