(* ===== verification/ProgData.thy ===== *)
theory ProgData
  imports ProgLink
begin

text \<open>
  The last step of the relocation of an object, \<^verbatim>\<open>libbpf/src/libbpf.c\<close>: the references to maps, externs
  and kernel functions in the linked programs (\<^verbatim>\<open>bpf_object__relocate_data\<close>), and all of
  \<^verbatim>\<open>bpf_object__relocate\<close>.
\<close>

section \<open>References to data\<close>

definition BPF_PSEUDO_MAP_FD :: "4 word" where [c_consts]: "BPF_PSEUDO_MAP_FD = 1"
definition BPF_PSEUDO_MAP_IDX :: "4 word" where [c_consts]: "BPF_PSEUDO_MAP_IDX = 5"
definition BPF_PSEUDO_MAP_VALUE :: "4 word" where [c_consts]: "BPF_PSEUDO_MAP_VALUE = 2"
definition BPF_PSEUDO_MAP_IDX_VALUE :: "4 word" where [c_consts]: "BPF_PSEUDO_MAP_IDX_VALUE = 6"
definition BPF_PSEUDO_BTF_ID :: "4 word" where [c_consts]: "BPF_PSEUDO_BTF_ID = 3"
definition BPF_PSEUDO_KFUNC_CALL :: "4 word" where [c_consts]: "BPF_PSEUDO_KFUNC_CALL = 2"

text \<open>Changing an instruction in place.\<close>

definition upd_insn :: "nat \<Rightarrow> (bpf_insn \<Rightarrow> bpf_insn) \<Rightarrow> bpf_insn list \<Rightarrow> bpf_insn list option" where
  "upd_insn i f insns = do { insn \<leftarrow> rd insns i; Some (insns[i := f insn]) }"

definition ld_insn :: "4 word \<Rightarrow> u32 \<Rightarrow> bpf_insn \<Rightarrow> bpf_insn" where
  "ld_insn src imm insn = insn\<lparr>src_reg := src, i_imm := imm\<rparr>"

text \<open>A map as the kernel gets it: its index for a loader program, else its descriptor.\<close>

definition map_ref :: "prog_obj \<Rightarrow> nat \<Rightarrow> u32 option" where
  "map_ref obj idx =
     (if ob_gen_loader obj then Some (of_nat idx) else do { m \<leftarrow> rd (ob_maps obj) idx; Some (om_fd m) })"

definition relocate_ld64 :: "prog_obj \<Rightarrow> reloc_desc \<Rightarrow> bpf_insn list \<Rightarrow> (int \<times> bpf_insn list) option" where
  "relocate_ld64 obj relo insns = do {
     ref \<leftarrow> map_ref obj (rd_map_idx relo);
     insns \<leftarrow> upd_insn (rd_insn_idx relo)
                (ld_insn (if ob_gen_loader obj then BPF_PSEUDO_MAP_IDX else BPF_PSEUDO_MAP_FD) ref) insns;
     Some (0, insns)
   }"

definition relocate_data_ref :: "prog_obj \<Rightarrow> reloc_desc \<Rightarrow> bpf_insn list \<Rightarrow> (int \<times> bpf_insn list) option" where
  "relocate_data_ref obj relo insns = do {
     insn \<leftarrow> rd insns (rd_insn_idx relo);
     insns \<leftarrow> upd_insn (rd_insn_idx relo + 1) (\<lambda>i. i\<lparr>i_imm := i_imm insn + rd_sym_off relo\<rparr>) insns;
     skipped \<leftarrow> (if ob_gen_loader obj then Some False else do { m \<leftarrow> rd (ob_maps obj) (rd_map_idx relo); Some (om_skipped m) });
     if skipped then Some (- ENOTSUP, insns)
     else do {
       ref \<leftarrow> map_ref obj (rd_map_idx relo);
       insns \<leftarrow> upd_insn (rd_insn_idx relo)
                  (ld_insn (if ob_gen_loader obj then BPF_PSEUDO_MAP_IDX_VALUE else BPF_PSEUDO_MAP_VALUE) ref) insns;
       Some (0, insns)
     }
   }"

definition relocate_extern_var :: "prog_obj \<Rightarrow> reloc_desc \<Rightarrow> bpf_insn list \<Rightarrow> (int \<times> bpf_insn list) option" where
  "relocate_extern_var obj relo insns = do {
     ext \<leftarrow> rd (ob_externs obj) (unat (rd_sym_off relo));
     let i = rd_insn_idx relo;
     insns \<leftarrow> (if ex_type ext = EXT_KCFG then do {
                 ref \<leftarrow> map_ref obj (ob_kconfig_map_idx obj);
                 insns \<leftarrow> upd_insn i
                            (ld_insn (if ob_gen_loader obj then BPF_PSEUDO_MAP_IDX_VALUE else BPF_PSEUDO_MAP_VALUE) ref) insns;
                 upd_insn (i + 1) (\<lambda>insn. insn\<lparr>i_imm := kcfg_data_off ext\<rparr>) insns
               }
               else if ksym_type_id ext \<noteq> 0 \<and> ex_is_set ext then do {
                 insns \<leftarrow> upd_insn i (ld_insn BPF_PSEUDO_BTF_ID (ksym_kernel_btf_id ext)) insns;
                 upd_insn (i + 1) (\<lambda>insn. insn\<lparr>i_imm := ksym_kernel_btf_obj_fd ext\<rparr>) insns
               }
               else do {
                 insns \<leftarrow> upd_insn i (\<lambda>insn. insn\<lparr>i_imm := ucast (ksym_addr ext)\<rparr>) insns;
                 upd_insn (i + 1) (\<lambda>insn. insn\<lparr>i_imm := ucast (drop_bit 32 (ksym_addr ext))\<rparr>) insns
               });
     Some (0, insns)
   }"

definition relocate_extern_func :: "prog_obj \<Rightarrow> reloc_desc \<Rightarrow> bpf_insn list \<Rightarrow> (int \<times> bpf_insn list) option" where
  "relocate_extern_func obj relo insns = do {
     ext \<leftarrow> rd (ob_externs obj) (unat (rd_sym_off relo));
     insns \<leftarrow> upd_insn (rd_insn_idx relo)
                (\<lambda>insn. insn\<lparr>src_reg := BPF_PSEUDO_KFUNC_CALL,
                   i_imm := if ex_is_set ext then ksym_kernel_btf_id ext else 0,
                   i_off := if ex_is_set ext then ksym_btf_fd_idx ext else 0\<rparr>) insns;
     Some (0, insns)
   }"

definition relocate_one :: "prog_obj \<Rightarrow> reloc_desc \<Rightarrow> bpf_insn list \<Rightarrow> (int \<times> bpf_insn list) option" where
  "relocate_one obj relo insns =
     (case rd_type relo of
        RELO_LD64 \<Rightarrow> relocate_ld64 obj relo insns
      | RELO_DATA \<Rightarrow> relocate_data_ref obj relo insns
      | RELO_EXTERN_VAR \<Rightarrow> relocate_extern_var obj relo insns
      | RELO_EXTERN_FUNC \<Rightarrow> relocate_extern_func obj relo insns
      | RELO_SUBPROG_ADDR \<Rightarrow> do {
          insn \<leftarrow> rd insns (rd_insn_idx relo);
          Some (if src_reg insn \<noteq> BPF_PSEUDO_FUNC then - EINVAL else 0, insns)
        }
      | RELO_CALL \<Rightarrow> Some (0, insns)
      | RELO_CORE \<Rightarrow> Some (0, insns))"

fun relocate_data :: "prog_obj \<Rightarrow> reloc_desc list \<Rightarrow> bpf_insn list \<Rightarrow> (int \<times> bpf_insn list) option" where
  "relocate_data obj [] insns = Some (0, insns)"
| "relocate_data obj (relo # relos) insns = do {
     (err, insns) \<leftarrow> relocate_one obj relo insns;
     if err \<noteq> 0 then Some (err, insns) else relocate_data obj relos insns
   }"

section \<open>All of an object\<close>

text \<open>Marking the loads of function addresses, so that \<^verbatim>\<open>insn_is_pseudo_func\<close> recognises them.\<close>

fun mark_insns :: "reloc_desc list \<Rightarrow> bpf_insn list \<Rightarrow> bpf_insn list option" where
  "mark_insns [] insns = Some insns"
| "mark_insns (relo # relos) insns =
     (if rd_type relo = RELO_SUBPROG_ADDR then do {
        insns \<leftarrow> upd_insn (rd_insn_idx relo) (\<lambda>insn. insn\<lparr>src_reg := BPF_PSEUDO_FUNC\<rparr>) insns;
        mark_insns relos insns
      }
      else mark_insns relos insns)"

fun mark_progs :: "program list \<Rightarrow> program list option" where
  "mark_progs [] = Some []"
| "mark_progs (p # ps) = do {
     insns \<leftarrow> mark_insns (p_relos p) (p_insns p);
     ps \<leftarrow> mark_progs ps;
     Some (p\<lparr>p_insns := insns\<rparr> # ps)
   }"

text \<open>The programs that are linked for themselves.\<close>

definition is_main :: "prog_obj \<Rightarrow> program list \<Rightarrow> nat \<Rightarrow> bool" where
  "is_main obj progs i \<longleftrightarrow> \<not> prog_is_subprog obj progs (progs ! i) \<and> p_load (progs ! i)"

fun all_calls :: "nat \<Rightarrow> link_env \<Rightarrow> prog_obj \<Rightarrow> nat list \<Rightarrow> program list \<Rightarrow> (int \<times> program list) option" where
  "all_calls fuel env obj [] progs = Some (0, progs)"
| "all_calls fuel env obj (i # is) progs =
     (if \<not> is_main obj progs i then all_calls fuel env obj is progs
      else do {
        (err, progs) \<leftarrow> relocate_calls fuel env obj i progs;
        if err \<noteq> 0 then Some (err, progs) else all_calls fuel env obj is progs
      })"

fun all_data :: "prog_obj \<Rightarrow> nat list \<Rightarrow> program list \<Rightarrow> (int \<times> program list) option" where
  "all_data obj [] progs = Some (0, progs)"
| "all_data obj (i # is) progs =
     (if \<not> is_main obj progs i then all_data obj is progs
      else do {
        (err, insns) \<leftarrow> relocate_data obj (p_relos (progs ! i)) (p_insns (progs ! i));
        let progs = progs[i := (progs ! i)\<lparr>p_insns := insns\<rparr>];
        if err \<noteq> 0 then Some (err, progs) else all_data obj is progs
      })"

text \<open>
  The CO-RE part: what the object's own type information gives, \<open>None\<close> without it. The programs
  get the instructions that \<open>relocate_core\<close> leaves, and for a loader program the descriptors of
  the relocations it will do, in the order of \<^verbatim>\<open>cmp_relocs\<close>.
\<close>

record core_input =
  ci_fuel :: nat
  ci_env :: core_env
  ci_map_ok :: bool
  ci_targ :: "(int + btf) option"
  ci_btf :: btf
  ci_secs :: "(nat \<times> core_relo list) list"

primrec type_code :: "reloc_type \<Rightarrow> nat" where
  "type_code RELO_LD64 = 0" | "type_code RELO_CALL = 1" | "type_code RELO_DATA = 2"
| "type_code RELO_EXTERN_VAR = 3" | "type_code RELO_EXTERN_FUNC = 4" | "type_code RELO_SUBPROG_ADDR = 5"
| "type_code RELO_CORE = 6"

definition cmp_relocs :: "reloc_desc \<Rightarrow> reloc_desc \<Rightarrow> int" where
  "cmp_relocs a b =
     (if rd_insn_idx a \<noteq> rd_insn_idx b then if rd_insn_idx a < rd_insn_idx b then - 1 else 1
      else if type_code (rd_type a) \<noteq> type_code (rd_type b)
      then if type_code (rd_type a) < type_code (rd_type b) then - 1 else 1
      else 0)"

fun insert_reloc :: "reloc_desc \<Rightarrow> reloc_desc list \<Rightarrow> reloc_desc list" where
  "insert_reloc a [] = [a]"
| "insert_reloc a (b # bs) = (if cmp_relocs a b \<le> 0 then a # b # bs else b # insert_reloc a bs)"

definition sort_relos :: "reloc_desc list \<Rightarrow> reloc_desc list" where
  "sort_relos relos = foldr insert_reloc relos []"

definition core_desc :: "core_relo \<times> nat \<Rightarrow> reloc_desc" where
  "core_desc r = \<lparr>rd_type = RELO_CORE, rd_insn_idx = snd r, rd_map_idx = 0, rd_sym_off = 0\<rparr>"

definition core_stage :: "core_input option \<Rightarrow> prog_obj \<Rightarrow> program list \<Rightarrow> (int \<times> program list) option" where
  "core_stage core obj progs =
     (case core of
        None \<Rightarrow> Some (0, progs)
      | Some c \<Rightarrow> do {
          (err, cores) \<leftarrow> relocate_core (ci_fuel c) (ci_env c) (ci_map_ok c) (ci_targ c) (ci_btf c) (ci_secs c)
                            (map core_prog.truncate progs);
          let progs = map2 (\<lambda>p c. core_prog.extend c (core_prog.more p)) progs cores;
          Some (err,
            if err = 0 \<and> ob_gen_loader obj
            then map (\<lambda>p. p\<lparr>p_relos := sort_relos (p_relos p @ map core_desc (p_core_relos p))\<rparr>) progs
            else progs)
        })"

definition relocate :: "nat \<Rightarrow> link_env \<Rightarrow> prog_obj \<Rightarrow> core_input option \<Rightarrow> program list \<Rightarrow> (int \<times> program list) option" where
  "relocate fuel env obj core progs = do {
     (err, progs) \<leftarrow> core_stage core obj progs;
     if err \<noteq> 0 then Some (err, progs)
     else do {
       progs \<leftarrow> mark_progs progs;
       (err, progs) \<leftarrow> all_calls fuel env obj [0..<length progs] progs;
       if err \<noteq> 0 then Some (err, progs)
       else do {
         (err, progs) \<leftarrow> all_data obj [0..<length progs] progs;
         if err \<noteq> 0 then Some (err, progs)
         else Some (0, if ob_gen_loader obj then progs else map (\<lambda>p. p\<lparr>p_relos := []\<rparr>) progs)
       }
     }
   }"

section \<open>What the references become\<close>

text \<open>The instructions that a descriptor is about.\<close>

definition two_slots :: "reloc_desc \<Rightarrow> bool" where
  "two_slots r \<longleftrightarrow> rd_type r = RELO_DATA \<or> rd_type r = RELO_EXTERN_VAR"

definition slots :: "reloc_desc \<Rightarrow> nat set" where
  "slots r = (if rd_type r = RELO_CALL \<or> rd_type r = RELO_CORE then {}
     else if two_slots r then {rd_insn_idx r, rd_insn_idx r + 1} else {rd_insn_idx r})"

text \<open>The first instruction after the relocation, and the immediate of the second.\<close>

definition extern_of :: "prog_obj \<Rightarrow> reloc_desc \<Rightarrow> extern_desc" where
  "extern_of obj r = ob_externs obj ! unat (rd_sym_off r)"

definition typed_ksym :: "extern_desc \<Rightarrow> bool" where
  "typed_ksym ext \<longleftrightarrow> ksym_type_id ext \<noteq> 0 \<and> ex_is_set ext"

definition first_insn :: "prog_obj \<Rightarrow> reloc_desc \<Rightarrow> bpf_insn \<Rightarrow> bpf_insn" where
  "first_insn obj r insn =
     (let gen = ob_gen_loader obj; ext = extern_of obj r;
          value = ld_insn (if gen then BPF_PSEUDO_MAP_IDX_VALUE else BPF_PSEUDO_MAP_VALUE)
       in case rd_type r of
            RELO_LD64 \<Rightarrow> ld_insn (if gen then BPF_PSEUDO_MAP_IDX else BPF_PSEUDO_MAP_FD) (the (map_ref obj (rd_map_idx r))) insn
          | RELO_DATA \<Rightarrow> value (the (map_ref obj (rd_map_idx r))) insn
          | RELO_EXTERN_VAR \<Rightarrow>
              if ex_type ext = EXT_KCFG then value (the (map_ref obj (ob_kconfig_map_idx obj))) insn
              else if typed_ksym ext then ld_insn BPF_PSEUDO_BTF_ID (ksym_kernel_btf_id ext) insn
              else insn\<lparr>i_imm := ucast (ksym_addr ext)\<rparr>
          | RELO_EXTERN_FUNC \<Rightarrow>
              insn\<lparr>src_reg := BPF_PSEUDO_KFUNC_CALL, i_imm := if ex_is_set ext then ksym_kernel_btf_id ext else 0,
                   i_off := if ex_is_set ext then ksym_btf_fd_idx ext else 0\<rparr>
          | _ \<Rightarrow> insn)"

definition second_imm :: "prog_obj \<Rightarrow> reloc_desc \<Rightarrow> bpf_insn \<Rightarrow> u32" where
  "second_imm obj r insn =
     (let ext = extern_of obj r
       in if rd_type r = RELO_DATA then i_imm insn + rd_sym_off r
          else if ex_type ext = EXT_KCFG then kcfg_data_off ext
          else if typed_ksym ext then ksym_kernel_btf_obj_fd ext
          else ucast (drop_bit 32 (ksym_addr ext)))"

definition refer :: "prog_obj \<Rightarrow> reloc_desc \<Rightarrow> bpf_insn list \<Rightarrow> bpf_insn list" where
  "refer obj r insns =
     (let i = rd_insn_idx r; insn = insns ! i
       in if slots r = {} then insns
          else if two_slots r
          then insns[i := first_insn obj r insn, i + 1 := (insns ! (i + 1))\<lparr>i_imm := second_imm obj r insn\<rparr>]
          else insns[i := first_insn obj r insn])"

text \<open>
  What is needed for that: the instructions are there, so is what is referred to, and a load of a
  function's address has been marked.
\<close>

definition map_there :: "prog_obj \<Rightarrow> nat \<Rightarrow> bool" where
  "map_there obj idx \<longleftrightarrow> ob_gen_loader obj \<or> idx < length (ob_maps obj)"

definition ref_ok :: "prog_obj \<Rightarrow> bpf_insn list \<Rightarrow> reloc_desc \<Rightarrow> bool" where
  "ref_ok obj insns r \<longleftrightarrow> slots r \<subseteq> {..<length insns} \<and>
     (case rd_type r of
        RELO_LD64 \<Rightarrow> map_there obj (rd_map_idx r)
      | RELO_DATA \<Rightarrow> map_there obj (rd_map_idx r) \<and> (ob_gen_loader obj \<or> \<not> om_skipped (ob_maps obj ! rd_map_idx r))
      | RELO_EXTERN_VAR \<Rightarrow> unat (rd_sym_off r) < length (ob_externs obj) \<and>
          (ex_type (extern_of obj r) = EXT_KCFG \<longrightarrow> map_there obj (ob_kconfig_map_idx obj))
      | RELO_EXTERN_FUNC \<Rightarrow> unat (rd_sym_off r) < length (ob_externs obj)
      | RELO_SUBPROG_ADDR \<Rightarrow> src_reg (insns ! rd_insn_idx r) = BPF_PSEUDO_FUNC
      | _ \<Rightarrow> True)"

lemma map_there_ref: "map_there obj idx \<Longrightarrow> map_ref obj idx = Some (the (map_ref obj idx))"
  by (auto simp: map_there_def map_ref_def rd_def)

lemma upd_insn_some: "i < length insns \<Longrightarrow> upd_insn i f insns = Some (insns[i := f (insns ! i)])"
  by (simp add: upd_insn_def rd_def)

lemma relocate_one_refer:
  assumes "ref_ok obj insns r"
  shows "relocate_one obj r insns = Some (0, refer obj r insns)"
proof (cases "rd_type r")
  case RELO_LD64
  then have "map_there obj (rd_map_idx r)" and i: "rd_insn_idx r < length insns"
    using assms by (simp_all add: ref_ok_def slots_def two_slots_def)
  from map_there_ref [OF this(1)] obtain ref where "map_ref obj (rd_map_idx r) = Some ref" ..
  then show ?thesis using RELO_LD64 i
    by (simp add: relocate_one_def relocate_ld64_def upd_insn_def rd_def refer_def slots_def two_slots_def first_insn_def Let_def)
next
  case RELO_DATA
  then have there: "map_there obj (rd_map_idx r)" and skip: "ob_gen_loader obj \<or> \<not> om_skipped (ob_maps obj ! rd_map_idx r)"
    and i: "rd_insn_idx r < length insns" "rd_insn_idx r + 1 < length insns"
    using assms by (simp_all add: ref_ok_def slots_def two_slots_def)
  from map_there_ref [OF there] obtain ref where ref: "map_ref obj (rd_map_idx r) = Some ref" ..
  have "(if ob_gen_loader obj then Some False else do { m \<leftarrow> rd (ob_maps obj) (rd_map_idx r); Some (om_skipped m) }) = Some False"
    using there skip by (auto simp: map_there_def rd_def)
  then show ?thesis using RELO_DATA i ref
    by (simp add: relocate_one_def relocate_data_ref_def upd_insn_def rd_def refer_def slots_def two_slots_def first_insn_def
        second_imm_def list_update_swap Let_def)
next
  case RELO_EXTERN_VAR
  let ?ext = "extern_of obj r"
  from RELO_EXTERN_VAR have ext: "rd (ob_externs obj) (unat (rd_sym_off r)) = Some ?ext"
    and kcfg: "ex_type ?ext = EXT_KCFG \<Longrightarrow> map_there obj (ob_kconfig_map_idx obj)"
    and i: "rd_insn_idx r < length insns" "rd_insn_idx r + 1 < length insns"
    using assms by (simp_all add: ref_ok_def slots_def two_slots_def rd_def extern_of_def)
  note eval = RELO_EXTERN_VAR relocate_one_def relocate_extern_var_def ext upd_insn_some i refer_def slots_def
    two_slots_def first_insn_def second_imm_def Let_def typed_ksym_def
  show ?thesis
  proof (cases "ex_type ?ext = EXT_KCFG")
    case True
    from map_there_ref [OF kcfg [OF True]] obtain ref where "map_ref obj (ob_kconfig_map_idx obj) = Some ref" ..
    then show ?thesis using True i by (simp add: eval)
  qed (use i in \<open>simp add: eval\<close>)
next
  case RELO_EXTERN_FUNC
  then show ?thesis using assms
    by (simp add: ref_ok_def relocate_one_def relocate_extern_func_def upd_insn_def rd_def refer_def slots_def two_slots_def
        first_insn_def extern_of_def Let_def)
next
  case RELO_SUBPROG_ADDR
  then show ?thesis using assms
    by (simp add: ref_ok_def relocate_one_def rd_def refer_def slots_def two_slots_def first_insn_def Let_def)
qed (simp_all add: relocate_one_def refer_def slots_def)

lemma refer_other: "k \<notin> slots r \<Longrightarrow> refer obj r insns ! k = insns ! k"
  by (auto simp: refer_def slots_def Let_def two_slots_def)

lemma length_refer [simp]: "length (refer obj r insns) = length insns"
  by (simp add: refer_def Let_def)

lemma ref_ok_refer:
  assumes "ref_ok obj insns r" "slots r \<inter> slots s = {}"
  shows "ref_ok obj (refer obj s insns) r"
proof -
  have "refer obj s insns ! rd_insn_idx r = insns ! rd_insn_idx r" if "rd_type r = RELO_SUBPROG_ADDR"
    using assms(2) that by (intro refer_other) (auto simp: slots_def)
  then show ?thesis using assms(1) by (auto simp: ref_ok_def split: reloc_type.splits)
qed

text \<open>The instructions of a descriptor have been changed and nothing else has done it.\<close>

definition referred :: "prog_obj \<Rightarrow> bpf_insn list \<Rightarrow> bpf_insn list \<Rightarrow> reloc_desc \<Rightarrow> bool" where
  "referred obj insns insns' r \<longleftrightarrow>
     (let i = rd_insn_idx r
       in (slots r \<noteq> {} \<longrightarrow> insns' ! i = first_insn obj r (insns ! i)) \<and>
          (two_slots r \<longrightarrow> insns' ! (i + 1) = (insns ! (i + 1))\<lparr>i_imm := second_imm obj r (insns ! i)\<rparr>))"

lemma referred_refer: "ref_ok obj insns r \<Longrightarrow> referred obj insns (refer obj r insns) r"
  by (auto simp: referred_def refer_def Let_def ref_ok_def slots_def two_slots_def)

lemma referred_cong:
  assumes "\<And>k. k \<in> slots r \<Longrightarrow> insns1 ! k = insns ! k" "\<And>k. k \<in> slots r \<Longrightarrow> insns1' ! k = insns' ! k"
  shows "referred obj insns1 insns1' r \<longleftrightarrow> referred obj insns insns' r"
  using assms by (auto simp: referred_def slots_def two_slots_def Let_def)

lemma relocate_data_outcome:
  assumes "\<forall>r \<in> set relos. ref_ok obj insns r" "sorted_wrt (\<lambda>r s. slots r \<inter> slots s = {}) relos"
  shows "\<exists>insns'. relocate_data obj relos insns = Some (0, insns') \<and> length insns' = length insns \<and>
    (\<forall>k. (\<forall>r \<in> set relos. k \<notin> slots r) \<longrightarrow> insns' ! k = insns ! k) \<and> (\<forall>r \<in> set relos. referred obj insns insns' r)"
  using assms
proof (induction relos arbitrary: insns)
  case Nil
  then show ?case by simp
next
  case (Cons r relos)
  let ?insns = "refer obj r insns"
  have apart: "slots r \<inter> slots s = {}" if "s \<in> set relos" for s using Cons.prems(2) that by simp
  have "\<forall>s \<in> set relos. ref_ok obj ?insns s"
    using Cons.prems(1) apart by (intro ballI ref_ok_refer) auto
  with Cons.IH [of ?insns] Cons.prems(2) obtain insns' where rest: "relocate_data obj relos ?insns = Some (0, insns')"
    "length insns' = length insns" "\<And>k. \<forall>r \<in> set relos. k \<notin> slots r \<Longrightarrow> insns' ! k = ?insns ! k"
    "\<forall>s \<in> set relos. referred obj ?insns insns' s" by auto
  have "relocate_data obj (r # relos) insns = Some (0, insns')"
    using Cons.prems(1) rest(1) by (simp add: relocate_one_refer)
  moreover have "insns' ! k = insns ! k" if "\<forall>s \<in> set (r # relos). k \<notin> slots s" for k
    using that rest(3) [of k] refer_other [of k r obj insns] by simp
  moreover have "referred obj insns insns' s" if "s \<in> set (r # relos)" for s
  proof (cases "s = r")
    case True
    have "referred obj insns insns' r \<longleftrightarrow> referred obj insns ?insns r"
      using rest(3) apart by (intro referred_cong) auto
    then show ?thesis using referred_refer [of obj insns r] Cons.prems(1) True by simp
  next
    case False
    then have s: "s \<in> set relos" using that by simp
    have "referred obj ?insns insns' s \<longleftrightarrow> referred obj insns insns' s"
      using refer_other [of _ r obj insns] apart [OF s] by (intro referred_cong) auto
    then show ?thesis using rest(4) s by blast
  qed
  ultimately show ?case using rest(2) by blast
qed

end
