(* ===== verification/ProgObject.thy ===== *)
theory ProgObject
  imports ProgData
begin

text \<open>
  What the relocation of an object achieves, \<^verbatim>\<open>bpf_object__relocate\<close> of \<^verbatim>\<open>libbpf/src/libbpf.c\<close>: the calls
  are linked, then every reference to a map, an extern or a kernel function is resolved.
\<close>

section \<open>Linking all main programs\<close>

text \<open>A main program with what it calls linked into it, in terms of the programs \<open>P\<close> before.\<close>

definition main_linked :: "prog_obj \<Rightarrow> program list \<Rightarrow> nat \<Rightarrow> nat list \<Rightarrow> bpf_insn list \<Rightarrow> bool" where
  "main_linked obj P m subs insns \<longleftrightarrow>
     distinct (m # subs) \<and> set (m # subs) \<subseteq> inlinable obj P m \<and> length insns = placed_len P (m # subs) \<and>
     (\<forall>q \<in> set (m # subs). \<forall>i < length (code P q). linked obj P (m # subs) insns q i)"

definition calls_done :: "prog_obj \<Rightarrow> program list \<Rightarrow> nat set \<Rightarrow> program list \<Rightarrow> bool" where
  "calls_done obj P S progs \<longleftrightarrow> same_sections P progs \<and>
     (\<forall>q < length P. \<not> prog_is_subprog obj P (P ! q) \<longrightarrow> p_sub_insn_off (progs ! q) = 0) \<and>
     (\<forall>q < length P. q \<notin> S \<longrightarrow> p_insns (progs ! q) = p_insns (P ! q) \<and> p_relos (progs ! q) = p_relos (P ! q)) \<and>
     (\<forall>m \<in> S. \<exists>subs. main_linked obj P m subs (p_insns (progs ! m)) \<and> p_relos (progs ! m) = placed_relos P (m # subs))"

lemma same_sections_refl [simp]: "same_sections P P"
  by (simp add: same_sections_def)

lemma same_sections_trans: "same_sections P Q \<Longrightarrow> same_sections Q R \<Longrightarrow> same_sections P R"
  by (simp add: same_sections_def)

lemma prog_is_subprog_same:
  assumes "same_sections P progs" "i < length P"
  shows "prog_is_subprog obj progs (progs ! i) \<longleftrightarrow> prog_is_subprog obj P (P ! i)"
  using assms by (simp add: prog_is_subprog_def same_sections_def)

lemma is_main_same:
  assumes "same_sections P progs" "i < length P"
  shows "is_main obj progs i \<longleftrightarrow> is_main obj P i"
  using prog_is_subprog_same [OF assms] assms by (simp add: is_main_def same_sections_def)

text \<open>One more main program is linked.\<close>

lemma calls_done_step:
  assumes "calls_done obj P S progs" "m \<notin> S" "linkable obj P m" "\<forall>s \<in> S. p_sec_idx (P ! s) \<noteq> ob_text_shndx obj \<and> s < length P"
    "linking obj (reset_subprogs obj progs) (m # subs) progs'" "set (m # subs) \<subseteq> inlinable obj progs m"
    "\<forall>q \<in> set (m # subs). \<forall>i < length (code progs q). linked obj progs (m # subs) (p_insns (progs' ! m)) q i"
  shows "calls_done obj P (insert m S) progs'"
proof -
  have sec: "same_sections P progs" using assms(1) by (simp add: calls_done_def)
  have inl: "inlinable obj progs m = inlinable obj P m" by (rule inlinable_same [OF sec])
  have dom: "set (m # subs) \<subseteq> inlinable obj P m" using assms(6) by (simp add: inl)
  have same: "same_for obj m P progs"
    using assms(1,2,4) sec by (auto simp: same_for_def calls_done_def inlinable_def)
  have res: "same_for obj m progs (reset_subprogs obj progs)" by (rule reset_subprogs_same)
  note len = linking_length [OF assms(5), unfolded list.sel length_reset_subprogs]
  note after = linking_same [OF assms(5), unfolded list.sel length_reset_subprogs]
  have n: "length progs = length P" using sec by (simp add: same_sections_def)
  have sec': "same_sections P progs'"
    using sec linking_sections [OF assms(5)] res same_sections_trans by (meson same_for_def)
  have off: "p_sub_insn_off (progs' ! q) = 0" if "q < length P" "\<not> prog_is_subprog obj P (P ! q)" for q
  proof (cases "q \<in> set subs \<and> q \<noteq> m")
    case True
    then have "p_sec_idx (P ! q) = ob_text_shndx obj" "m < length P" using dom by (auto simp: inlinable_def)
    then show ?thesis using that True by (auto simp: prog_is_subprog_def)
  next
    case False
    then show ?thesis using after(4) [of q] that(1) n by auto
  qed
  have code: "p_insns (progs' ! q) = p_insns (progs ! q)" "p_relos (progs' ! q) = p_relos (progs ! q)"
    if "q < length P" "q \<noteq> m" for q using after(5,6) [of q] that n by (simp_all add: reset_subprogs_nth)
  have keep: "\<exists>subs. main_linked obj P s subs (p_insns (progs' ! s)) \<and> p_relos (progs' ! s) = placed_relos P (s # subs)"
    if "s \<in> S" for s
  proof -
    have s: "s < length P" "s \<noteq> m" using that assms(2,4) by auto
    show ?thesis unfolding code [OF s] using assms(1) that unfolding calls_done_def by blast
  qed
  have "placed_len (reset_subprogs obj progs) (m # subs) = placed_len P (m # subs)"
    using placed_len_same [OF res assms(6)] placed_len_same [OF same dom] by simp
  moreover have relos: "placed_relos (reset_subprogs obj progs) (m # subs) = placed_relos P (m # subs)"
    using placed_relos_same [OF res assms(6)] placed_relos_same [OF same dom] by simp
  moreover have "linked obj P (m # subs) (p_insns (progs' ! m)) q i" if "q \<in> set (m # subs)" "i < length (code P q)" for q i
  proof -
    have "code progs q = code P q" using same dom that(1) by (auto simp: same_for_def)
    then have "i < length (code progs q)" using that(2) by simp
    then have "linked obj progs (m # subs) (p_insns (progs' ! m)) q i" using assms(7) that(1) by blast
    then show ?thesis using linked_same [OF same assms(3) dom that(1)] by blast
  qed
  ultimately have "main_linked obj P m subs (p_insns (progs' ! m)) \<and> p_relos (progs' ! m) = placed_relos P (m # subs)"
    using len(2,4,5) dom by (simp add: main_linked_def)
  then show ?thesis using sec' off code keep assms(1) unfolding calls_done_def
    by (intro conjI) (simp | blast)+
qed

lemma all_calls_outcome:
  assumes "\<forall>m < length P. is_main obj P m \<longrightarrow> linkable obj P m" "ext_readable env" "length P \<le> fuel"
    "calls_done obj P S progs" "S \<subseteq> {m. m < length P \<and> is_main obj P m}" "set is \<subseteq> {..<length P} - S" "distinct is"
  shows "\<exists>err progs'. all_calls fuel env obj is progs = Some (err, progs') \<and>
    (err \<noteq> 0 \<longrightarrow> (\<exists>m < length P. is_main obj P m \<and> faulty env obj m P)) \<and>
    (err = 0 \<longrightarrow> calls_done obj P (S \<union> {m \<in> set is. is_main obj P m}) progs')"
  using assms(4-)
proof (induction "is" arbitrary: S progs)
  case Nil
  then show ?case by simp
next
  case (Cons m "is")
  have sec: "same_sections P progs" using Cons.prems(1) by (simp add: calls_done_def)
  have m: "m < length P" "m \<notin> S" using Cons.prems(3) by auto
  show ?case
  proof (cases "is_main obj P m")
    case False
    then have "\<not> is_main obj progs m" using is_main_same [OF sec m(1)] by simp
    moreover have "{k \<in> set (m # is). is_main obj P k} = {k \<in> set is. is_main obj P k}" using False by auto
    ultimately show ?thesis using Cons.IH [OF Cons.prems(1,2)] Cons.prems(3,4) by simp
  next
    case True
    then have main: "is_main obj progs m" using is_main_same [OF sec m(1)] by simp
    have link: "linkable obj P m" using assms(1) True m(1) by blast
    have S: "\<forall>s \<in> S. p_sec_idx (P ! s) \<noteq> ob_text_shndx obj \<and> s < length P"
      using assms(1) Cons.prems(2) by (auto simp: linkable_def)
    have same: "same_for obj m P progs"
      using Cons.prems(1) S m sec by (auto simp: same_for_def calls_done_def inlinable_def)
    have len: "length progs = length P" using sec by (simp add: same_sections_def)
    have "\<forall>p \<in> set progs. \<not> prog_is_subprog obj progs p \<longrightarrow> p_sub_insn_off p = 0"
      using Cons.prems(1) prog_is_subprog_same [OF sec] len by (auto simp: calls_done_def in_set_conv_nth)
    from relocate_calls_outcome [OF linkable_same [OF same link] assms(2) _ this, of fuel] assms(3) len
    obtain err progs1 where run: "relocate_calls fuel env obj m progs = Some (err, progs1)" "err \<noteq> 0 \<longrightarrow> faulty env obj m progs"
      and ok: "err = 0 \<longrightarrow> (\<exists>subs. linking obj (reset_subprogs obj progs) (m # subs) progs1 \<and>
        set (m # subs) \<subseteq> inlinable obj progs m \<and>
        (\<forall>q \<in> set (m # subs). \<forall>i < length (code progs q). linked obj progs (m # subs) (p_insns (progs1 ! m)) q i))" by auto
    show ?thesis
    proof (cases "err = 0")
      case False
      then have "faulty env obj m P" using run(2) faulty_same [OF same link] by blast
      then show ?thesis using run(1) main True m(1) False by auto
    next
      case True
      with ok obtain subs where subs: "linking obj (reset_subprogs obj progs) (m # subs) progs1"
        "set (m # subs) \<subseteq> inlinable obj progs m"
        "\<forall>q \<in> set (m # subs). \<forall>i < length (code progs q). linked obj progs (m # subs) (p_insns (progs1 ! m)) q i" by blast
      have step: "calls_done obj P (insert m S) progs1"
        by (rule calls_done_step [OF Cons.prems(1) m(2) link S subs])
      have "insert m S \<union> {k \<in> set is. is_main obj P k} = S \<union> {k \<in> set (m # is). is_main obj P k}"
        using \<open>is_main obj P m\<close> by auto
      moreover have "set is \<subseteq> {..<length P} - insert m S" "distinct is" using Cons.prems(3,4) by auto
      ultimately show ?thesis using Cons.IH [OF step] Cons.prems(2) \<open>is_main obj P m\<close> m(1) run(1) main True by auto
    qed
  qed
qed

section \<open>The references of a linked program\<close>

definition refs_ok :: "prog_obj \<Rightarrow> program list \<Rightarrow> nat \<Rightarrow> bool" where
  "refs_ok obj P q \<longleftrightarrow> (\<forall>r \<in> set (p_relos (P ! q)). ref_ok obj (code P q) r) \<and>
     sorted_wrt (\<lambda>r s. slots r \<inter> slots s = {}) (p_relos (P ! q))"

lemma slots_shift: "slots (shift_relo off r) = (\<lambda>i. i + off) ` slots r"
  by (auto simp: slots_def shift_relo_def two_slots_def)

lemma placed_relos_member:
  assumes "r \<in> set (placed_relos P ord)"
  obtains q r' where "q \<in> set ord" "r' \<in> set (p_relos (P ! q))" "r = shift_relo (pos P ord q) r'"
  using assms by (auto simp: placed_relos_def)

lemma placed_relos_slots:
  assumes "\<forall>q \<in> set ord. refs_ok obj P q" "distinct ord"
  shows "sorted_wrt (\<lambda>r s. slots r \<inter> slots s = {}) (placed_relos P ord) \<and>
    (\<forall>r \<in> set (placed_relos P ord). slots r \<subseteq> {..<placed_len P ord})"
  using assms
proof (induction ord rule: rev_induct)
  case Nil
  then show ?case by (simp add: placed_relos_def)
next
  case (snoc q ord)
  then have IH: "sorted_wrt (\<lambda>r s. slots r \<inter> slots s = {}) (placed_relos P ord)"
    "\<forall>r \<in> set (placed_relos P ord). slots r \<subseteq> {..<placed_len P ord}" and q: "q \<notin> set ord" "refs_ok obj P q" by simp_all
  let ?new = "map (shift_relo (placed_len P ord)) (p_relos (P ! q))"
  have "sorted_wrt (\<lambda>r s. (\<lambda>i. i + placed_len P ord) ` slots r \<inter> (\<lambda>i. i + placed_len P ord) ` slots s = {}) (p_relos (P ! q))"
    using q(2) by (auto simp: refs_ok_def elim!: sorted_wrt_mono_rel [rotated])
  then have "sorted_wrt (\<lambda>r s. slots r \<inter> slots s = {}) ?new" by (simp add: sorted_wrt_map slots_shift)
  moreover have new: "slots r \<subseteq> {placed_len P ord..<placed_len P (ord @ [q])}" if "r \<in> set ?new" for r
    using that q(2) by (force simp: refs_ok_def ref_ok_def slots_shift)
  moreover have "slots r \<inter> slots s = {}" if "r \<in> set (placed_relos P ord)" "s \<in> set ?new" for r s
    using bspec [OF IH(2) that(1)] new [OF that(2)] by fastforce
  moreover have "slots r \<subseteq> {..<placed_len P (ord @ [q])}" if "r \<in> set (placed_relos P ord)" for r
    using bspec [OF IH(2) that] by fastforce
  ultimately show ?case unfolding placed_relos_snoc [OF q(1)] sorted_wrt_append set_append
    using IH(1) by fastforce
qed

lemma linked_src_reg:
  assumes "linked obj P ord insns q i"
  shows "src_reg (insns ! (pos P ord q + i)) = src_reg (code P q ! i)"
  using assms by (auto simp: linked_def split: option.splits sum.splits)

lemma main_linked_refs:
  assumes "main_linked obj P m subs insns" "\<forall>q \<in> set (m # subs). refs_ok obj P q"
  shows "\<exists>insns'. relocate_data obj (placed_relos P (m # subs)) insns = Some (0, insns') \<and> length insns' = length insns \<and>
    (\<forall>k. (\<forall>r \<in> set (placed_relos P (m # subs)). k \<notin> slots r) \<longrightarrow> insns' ! k = insns ! k) \<and>
    (\<forall>r \<in> set (placed_relos P (m # subs)). referred obj insns insns' r)"
proof (rule relocate_data_outcome)
  have "distinct (m # subs)" and len: "length insns = placed_len P (m # subs)" using assms(1) by (simp_all add: main_linked_def)
  note slots = placed_relos_slots [OF assms(2) this(1)]
  then show "sorted_wrt (\<lambda>r s. slots r \<inter> slots s = {}) (placed_relos P (m # subs))" by blast
  show "\<forall>r \<in> set (placed_relos P (m # subs)). ref_ok obj insns r"
  proof
    fix r assume r: "r \<in> set (placed_relos P (m # subs))"
    then obtain q r' where q: "q \<in> set (m # subs)" "r' \<in> set (p_relos (P ! q))" "r = shift_relo (pos P (m # subs) q) r'"
      by (rule placed_relos_member)
    have ok: "ref_ok obj (code P q) r'" using assms(2) q(1,2) by (auto simp: refs_ok_def)
    have same: "rd_type r = rd_type r'" "rd_map_idx r = rd_map_idx r'" "rd_sym_off r = rd_sym_off r'"
      "extern_of obj r = extern_of obj r'" "rd_insn_idx r = pos P (m # subs) q + rd_insn_idx r'"
      using q(3) by (simp_all add: shift_relo_def extern_of_def)
    have "src_reg (insns ! rd_insn_idx r) = src_reg (code P q ! rd_insn_idx r')" if "rd_insn_idx r' < length (code P q)"
      using assms(1) q(1) that linked_src_reg unfolding main_linked_def same(5) by blast
    moreover have "rd_type r' = RELO_SUBPROG_ADDR \<Longrightarrow> rd_insn_idx r' < length (code P q)"
      using ok by (simp add: ref_ok_def slots_def two_slots_def)
    moreover have "slots r \<subseteq> {..<length insns}" using slots r len by simp
    ultimately show "ref_ok obj insns r" using ok unfolding ref_ok_def same(1-4) by (cases "rd_type r'") simp_all
  qed
qed


section \<open>The whole object\<close>

lemma all_data_outcome:
  assumes "\<forall>i \<in> set is. is_main obj progs i \<longrightarrow> relocate_data obj (p_relos (progs ! i)) (p_insns (progs ! i)) = Some (0, out i)"
    "distinct is" "set is \<subseteq> {..<length progs}"
  shows "\<exists>progs'. all_data obj is progs = Some (0, progs') \<and> length progs' = length progs \<and>
    (\<forall>i < length progs. progs' ! i = (if i \<in> set is \<and> is_main obj progs i then (progs ! i)\<lparr>p_insns := out i\<rparr> else progs ! i))"
  using assms
proof (induction "is" arbitrary: progs)
  case Nil
  then show ?case by simp
next
  case (Cons i "is")
  show ?case
  proof (cases "is_main obj progs i")
    case False
    with Cons.IH [of progs] Cons.prems obtain progs' where "all_data obj is progs = Some (0, progs')" "length progs' = length progs"
      "\<forall>k < length progs. progs' ! k = (if k \<in> set is \<and> is_main obj progs k then (progs ! k)\<lparr>p_insns := out k\<rparr> else progs ! k)" by auto
    then show ?thesis using False by auto
  next
    case True
    let ?progs = "progs[i := (progs ! i)\<lparr>p_insns := out i\<rparr>]"
    have main: "is_main obj ?progs k \<longleftrightarrow> is_main obj progs k" if "k < length progs" for k
      using that by (cases "k = i") (simp_all add: is_main_def prog_is_subprog_def)
    have "\<forall>k \<in> set is. is_main obj ?progs k \<longrightarrow> relocate_data obj (p_relos (?progs ! k)) (p_insns (?progs ! k)) = Some (0, out k)"
    proof
      fix k assume k: "k \<in> set is"
      then have "k \<noteq> i" "k < length progs" using Cons.prems(2,3) by auto
      then show "is_main obj ?progs k \<longrightarrow> relocate_data obj (p_relos (?progs ! k)) (p_insns (?progs ! k)) = Some (0, out k)"
        using Cons.prems(1) k main by simp
    qed
    with Cons.IH [of ?progs] Cons.prems(2,3) obtain progs' where rest: "all_data obj is ?progs = Some (0, progs')"
      "length progs' = length progs"
      "\<forall>k < length progs. progs' ! k = (if k \<in> set is \<and> is_main obj ?progs k then (?progs ! k)\<lparr>p_insns := out k\<rparr> else ?progs ! k)" by auto
    have "all_data obj (i # is) progs = Some (0, progs')" using Cons.prems(1) True rest(1) by (simp add: Let_def)
    moreover have "progs' ! k = (if k \<in> set (i # is) \<and> is_main obj progs k then (progs ! k)\<lparr>p_insns := out k\<rparr> else progs ! k)"
      if "k < length progs" for k
      using rest(3) that main [OF that] True Cons.prems(2) by (cases "k = i") auto
    ultimately show ?thesis using rest(2) by blast
  qed
qed

lemma calls_done_start:
  assumes "\<forall>p \<in> set P. \<not> prog_is_subprog obj P p \<longrightarrow> p_sub_insn_off p = 0"
  shows "calls_done obj P {} P"
  using assms by (auto simp: calls_done_def)

text \<open>What the relocation makes of a main program: what it calls is linked into it and everything referred to is set.\<close>

definition relocated :: "prog_obj \<Rightarrow> program list \<Rightarrow> nat \<Rightarrow> bpf_insn list \<Rightarrow> bool" where
  "relocated obj P m insns' \<longleftrightarrow>
     (\<exists>subs insns. main_linked obj P m subs insns \<and> length insns' = length insns \<and>
       (\<forall>k. (\<forall>r \<in> set (placed_relos P (m # subs)). k \<notin> slots r) \<longrightarrow> insns' ! k = insns ! k) \<and>
       (\<forall>r \<in> set (placed_relos P (m # subs)). referred obj insns insns' r))"

lemma set_upt_subset: "set [0..<n] \<subseteq> {..<n}"
  by auto

lemma all_data_relocated:
  assumes "calls_done obj P {m. m < length P \<and> is_main obj P m} progs" "\<forall>q < length P. refs_ok obj P q"
  shows "\<exists>progs'. all_data obj [0..<length progs] progs = Some (0, progs') \<and> length progs' = length P \<and>
    (\<forall>m < length P. if is_main obj P m then relocated obj P m (p_insns (progs' ! m)) else p_insns (progs' ! m) = p_insns (P ! m))"
proof -
  have sec: "same_sections P progs" using assms(1) by (simp add: calls_done_def)
  then have len: "length progs = length P" by (simp add: same_sections_def)
  have "\<exists>insns'. relocate_data obj (p_relos (progs ! m)) (p_insns (progs ! m)) = Some (0, insns') \<and> relocated obj P m insns'"
    if m: "m < length P" "is_main obj P m" for m
  proof -
    from assms(1) m obtain subs where subs: "main_linked obj P m subs (p_insns (progs ! m))"
      "p_relos (progs ! m) = placed_relos P (m # subs)" unfolding calls_done_def by blast
    have "\<forall>q \<in> set (m # subs). refs_ok obj P q"
      using subs(1) assms(2) inlinable_less unfolding main_linked_def by blast
    from main_linked_refs [OF subs(1) this] show ?thesis using subs unfolding relocated_def by metis
  qed
  then obtain out where out: "\<And>m. m < length P \<Longrightarrow> is_main obj P m \<Longrightarrow>
      relocate_data obj (p_relos (progs ! m)) (p_insns (progs ! m)) = Some (0, out m) \<and> relocated obj P m (out m)" by metis
  have "\<forall>i \<in> set [0..<length progs]. is_main obj progs i \<longrightarrow>
      relocate_data obj (p_relos (progs ! i)) (p_insns (progs ! i)) = Some (0, out i)"
    using out is_main_same [OF sec] len by auto
  from all_data_outcome [OF this distinct_upt set_upt_subset] obtain progs' where run: "all_data obj [0..<length progs] progs = Some (0, progs')"
    "length progs' = length progs" and at: "\<forall>i < length progs. progs' ! i =
      (if i \<in> set [0..<length progs] \<and> is_main obj progs i then (progs ! i)\<lparr>p_insns := out i\<rparr> else progs ! i)" by auto
  have "if is_main obj P m then relocated obj P m (p_insns (progs' ! m)) else p_insns (progs' ! m) = p_insns (P ! m)"
    if "m < length P" for m
    using at out [of m] is_main_same [OF sec that] that len assms(1) by (simp add: calls_done_def)
  then show ?thesis using run len by auto
qed

text \<open>
  C16: relocating an object whose CO-RE relocations succeed ends without access outside of its
  memory, if after them (1) the instructions that take the address of a function are in their programs,
  so that they can be marked, and every program that is going to be loaded
  fulfils what linking relies on (\<open>linkable\<close>: it is not in \<^verbatim>\<open>.text\<close>, the programs are in order and do not
  overlap, the ones to be linked are not empty, with their descriptors in order and within them);
  (2) every reference to a map, a variable or a kernel function has its instruction, and for a
  reference that needs both halves of a 64-bit load both of them, in its program, shares them with
  no other reference and refers to a map or extern that is there, and to one that has been created for data
  (\<open>refs_ok\<close>; recording a reference does not check the second half, and without it the immediate
  is written behind the program, lemma \<open>data_ref_overruns\<close>); (3) no program but those of \<^verbatim>\<open>.text\<close> has been given a place as
  subprogram, the section names of the debug records can be read, and the depth of calls allowed
  for is at least the number of programs. When it succeeds, every
  program that is going to be loaded has been linked on its own, whatever has been done for the
  others, and in the linked code exactly the references to maps, variables and kernel functions
  have been set to what they refer to; all other programs keep their code. It fails only if
  linking one of the programs does.
\<close>

theorem relocate_object:
  assumes "core_stage core obj P\<^sub>0 = Some (0, P\<^sub>1)" "mark_progs P\<^sub>1 = Some P"
    "\<forall>m < length P. is_main obj P m \<longrightarrow> linkable obj P m" "\<forall>q < length P. refs_ok obj P q"
    "\<forall>p \<in> set P. \<not> prog_is_subprog obj P p \<longrightarrow> p_sub_insn_off p = 0" "ext_readable env" "length P \<le> fuel"
  shows "\<exists>err progs. relocate fuel env obj core P\<^sub>0 = Some (err, progs) \<and>
    (err \<noteq> 0 \<longrightarrow> (\<exists>m < length P. is_main obj P m \<and> faulty env obj m P)) \<and>
    (err = 0 \<longrightarrow> length progs = length P \<and>
       (\<forall>m < length P. if is_main obj P m then relocated obj P m (p_insns (progs ! m)) else p_insns (progs ! m) = p_insns (P ! m)))"
proof -
  have upt: "set [0..<length P] \<subseteq> {..<length P} - {}" by auto
  from all_calls_outcome [OF assms(3,6,7) calls_done_start [OF assms(5)] empty_subsetI upt distinct_upt]
  obtain err progs where run: "all_calls fuel env obj [0..<length P] P = Some (err, progs)"
    "err \<noteq> 0 \<longrightarrow> (\<exists>m < length P. is_main obj P m \<and> faulty env obj m P)"
    and ok: "err = 0 \<longrightarrow> calls_done obj P ({} \<union> {m \<in> set [0..<length P]. is_main obj P m}) progs" by blast
  show ?thesis
  proof (cases "err = 0")
    case False
    then show ?thesis using assms(1,2) run by (simp add: relocate_def)
  next
    case True
    have "{} \<union> {m \<in> set [0..<length P]. is_main obj P m} = {m. m < length P \<and> is_main obj P m}" by auto
    with ok True have "calls_done obj P {m. m < length P \<and> is_main obj P m} progs" by simp
    from all_data_relocated [OF this assms(4)] obtain progs' where
      data: "all_data obj [0..<length progs] progs = Some (0, progs')" "length progs' = length P"
      "\<forall>m < length P. if is_main obj P m then relocated obj P m (p_insns (progs' ! m)) else p_insns (progs' ! m) = p_insns (P ! m)" by blast
    let ?final = "if ob_gen_loader obj then progs' else map (\<lambda>p. p\<lparr>p_relos := []\<rparr>) progs'"
    have "relocate fuel env obj core P\<^sub>0 = Some (0, ?final)"
      using assms(1,2) run(1) True data(1) by (simp add: relocate_def)
    moreover have "length ?final = length P" "\<forall>m < length P. p_insns (?final ! m) = p_insns (progs' ! m)"
      using data(2) by simp_all
    ultimately obtain progs2 where "relocate fuel env obj core P\<^sub>0 = Some (0, progs2)" "length progs2 = length P"
      "\<forall>m < length P. p_insns (progs2 ! m) = p_insns (progs' ! m)" by blast
    then show ?thesis using data(3) by simp
  qed
qed

lemma relocate_object_witness:
  "\<exists>progs. relocate 3 no_debug call_obj None calling_progs = Some (0, progs) \<and>
     relocated call_obj calling_progs 2 (p_insns (progs ! 2)) \<and> p_insns (progs ! 0) = code calling_progs 0"
proof -
  have len: "length calling_progs = 3" by (simp add: calling_progs_def)
  have main: "is_main call_obj calling_progs m \<longleftrightarrow> m = 2" if "m < 3" for m
    using that by (auto simp: is_main_def prog_is_subprog_def calling_progs_def mk_prog_def call_obj_def numeral_3_eq_3
        numeral_2_eq_2 less_Suc_eq)
  have link: "linkable call_obj calling_progs 2"
    by (auto simp: linkable_def inlinable_def calling_progs_def mk_prog_def call_obj_def call_relo_def prog_before_def
        core_prog.defs less_Suc_eq numeral_3_eq_3)
  have ok: "core_stage None call_obj calling_progs = Some (0, calling_progs)" "mark_progs calling_progs = Some calling_progs"
    "\<forall>m < length calling_progs. is_main call_obj calling_progs m \<longrightarrow> linkable call_obj calling_progs m"
    "\<forall>q < length calling_progs. refs_ok call_obj calling_progs q"
    "\<forall>p \<in> set calling_progs. \<not> prog_is_subprog call_obj calling_progs p \<longrightarrow> p_sub_insn_off p = 0"
    "ext_readable no_debug" "length calling_progs \<le> 3"
    using main link by (auto simp: len core_stage_def calling_progs_def mk_prog_def call_relo_def refs_ok_def ref_ok_def slots_def
        ext_readable_def no_debug_def less_Suc_eq numeral_3_eq_3)
  have sound: "\<not> (\<exists>m < length calling_progs. is_main call_obj calling_progs m \<and> faulty no_debug call_obj m calling_progs)"
    using main calling_progs_not_faulty by (auto simp: len)
  from relocate_object [OF ok] obtain err progs where run: "relocate 3 no_debug call_obj None calling_progs = Some (err, progs)"
    "err \<noteq> 0 \<longrightarrow> (\<exists>m < length calling_progs. is_main call_obj calling_progs m \<and> faulty no_debug call_obj m calling_progs)"
    "err = 0 \<longrightarrow> length progs = length calling_progs \<and> (\<forall>m < length calling_progs. if is_main call_obj calling_progs m
       then relocated call_obj calling_progs m (p_insns (progs ! m)) else p_insns (progs ! m) = code calling_progs m)" by blast
  have "err = 0" using run(2) sound by blast
  then have at: "\<forall>m < 3. if m = 2 then relocated call_obj calling_progs m (p_insns (progs ! m))
      else p_insns (progs ! m) = code calling_progs m" using run(3) main by (simp add: len)
  from spec [OF at, of 2] spec [OF at, of 0] show ?thesis using run(1) \<open>err = 0\<close> by simp
qed

text \<open>
  A 64-bit load is two instructions, but only the first is looked at when a descriptor is
  recorded: if it is the last of its program, setting the immediate of the second is a write
  behind the instructions.
\<close>

definition map_obj :: prog_obj where
  "map_obj = call_obj\<lparr>ob_maps := [\<lparr>om_libbpf_type = LIBBPF_MAP_DATA, om_sec_idx = 2, om_sec_offset = 0, om_fd = 7,
     om_skipped = False\<rparr>]\<rparr>"

lemma data_ref_overruns:
  assumes "is_ldimm64_insn insn" "p = mk_prog 3 0 [insn] [\<lparr>rd_type = RELO_DATA, rd_insn_idx = 0, rd_map_idx = 0, rd_sym_off = 0\<rparr>]"
  shows "prog_ok map_obj p" "relocate_data map_obj (p_relos p) (p_insns p) = None"
  using assms by (simp_all add: prog_ok_def relo_ok_def mk_prog_def map_obj_def relocate_one_def relocate_data_ref_def
      rd_def upd_insn_def)

end
