(* ===== verification/Ringbuf.thy ===== *)
theory Ringbuf
  imports Prelude
begin

text \<open>
  Consuming BPF ring buffers: \<^verbatim>\<open>libbpf/src/ringbuf.c\<close>.

  A ring buffer is an array of \<open>2\<^sup>k\<close> bytes with two free-running 64-bit positions, in memory that is
  shared with the kernel. The array is mapped twice in a row, so that a sample that wraps around
  its end can be read in one piece: reading at offset \<open>i\<close> gives byte \<open>i mod 2\<^sup>k\<close>, and reading at or
  behind \<open>rb_mapped\<close> is an access outside of the mapping.
\<close>

section \<open>The shared memory\<close>

record rb_mem =
  rb_data :: "u8 list"
  rb_mapped :: nat
  consumer_pos :: u64
  producer_pos :: u64

definition BPF_RINGBUF_BUSY_BIT :: u32 where [c_consts]: "BPF_RINGBUF_BUSY_BIT = 0x80000000"
definition BPF_RINGBUF_DISCARD_BIT :: u32 where [c_consts]: "BPF_RINGBUF_DISCARD_BIT = 0x40000000"
definition BPF_RINGBUF_HDR_SZ :: nat where [c_consts]: "BPF_RINGBUF_HDR_SZ = 8"
definition INT_MAX :: int where [c_consts]: "INT_MAX = 0x7FFFFFFF"

definition rb_bytes :: "rb_mem \<Rightarrow> nat \<Rightarrow> nat \<Rightarrow> u8 list option" where
  "rb_bytes m off n =
     (if off + n \<le> rb_mapped m then Some (map (\<lambda>j. rb_data m ! ((off + j) mod length (rb_data m))) [0..<n]) else None)"

definition rb_word :: "rb_mem \<Rightarrow> nat \<Rightarrow> u32 option" where
  "rb_word m off = do { bs \<leftarrow> rb_bytes m off 4; rd32 bs 0 }"

section \<open>Processing a ring\<close>

definition roundup_len :: "u32 \<Rightarrow> u32" where
  "roundup_len len =
     (let len = push_bit 2 len;
          len = drop_bit 2 len;
          len = len + of_nat BPF_RINGBUF_HDR_SZ
       in (len + 7) div 8 * 8)"

text \<open>
  The code of \<^verbatim>\<open>ringbuf_process_ring\<close> between two accesses to the shared memory, since the kernel may
  change it at any time: the load of the producer position, the load of a length, the
  callback, which reads a sample, the store of the consumer position. \<open>Ret\<close> is the end, with the value
  returned.
\<close>

datatype ring_pc =
    Load_prod
  | Load_len
  | Callback nat nat
  | Store
  | Store_err int
  | Ret int

record 'c ring_user =
  pc :: ring_pc
  cons_pos :: u64
  prod_pos :: u64
  got_new_data :: bool
  cnt :: int
  ctx :: 'c

definition ring_start :: "rb_mem \<Rightarrow> 'c \<Rightarrow> 'c ring_user" where
  "ring_start m c =
     \<lparr>pc = Load_prod, cons_pos = consumer_pos m, prod_pos = 0, got_new_data = False, cnt = 0, ctx = c\<rparr>"

definition load_len :: "u64 \<Rightarrow> rb_mem \<Rightarrow> 'c ring_user \<Rightarrow> 'c ring_user option" where
  "load_len msk m u =
     (if cons_pos u < prod_pos u then do {
        let len_ptr = unat (cons_pos u AND msk);
        len \<leftarrow> rb_word m len_ptr;
        Some (if len AND BPF_RINGBUF_BUSY_BIT \<noteq> 0 then u\<lparr>pc := Ret (cnt u)\<rparr>
              else u\<lparr>got_new_data := True, cons_pos := cons_pos u + scast (roundup_len len),
                     pc := if len AND BPF_RINGBUF_DISCARD_BIT = 0
                           then Callback (len_ptr + BPF_RINGBUF_HDR_SZ) (unat len) else Store\<rparr>)
      }
      else Some (u\<lparr>pc := if got_new_data u then Load_prod else Ret (cnt u)\<rparr>))"

definition call_back :: "('c \<Rightarrow> u8 list \<Rightarrow> 'c \<times> int) \<Rightarrow> nat \<Rightarrow> nat \<Rightarrow> rb_mem \<Rightarrow> 'c ring_user \<Rightarrow> 'c ring_user option" where
  "call_back sample_cb sample len m u = do {
     bs \<leftarrow> rb_bytes m sample len;
     let (c, err) = sample_cb (ctx u) bs;
     Some (if err < 0 then u\<lparr>ctx := c, pc := Store_err err\<rparr> else u\<lparr>ctx := c, cnt := cnt u + 1, pc := Store\<rparr>)
   }"

definition ring_next ::
    "u64 \<Rightarrow> ('c \<Rightarrow> u8 list \<Rightarrow> 'c \<times> int) \<Rightarrow> rb_mem \<Rightarrow> 'c ring_user \<Rightarrow> (rb_mem \<times> 'c ring_user) option" where
  "ring_next msk sample_cb m u =
     (case pc u of
        Load_prod \<Rightarrow> Some (m, u\<lparr>got_new_data := False, prod_pos := producer_pos m, pc := Load_len\<rparr>)
      | Load_len \<Rightarrow> do { u \<leftarrow> load_len msk m u; Some (m, u) }
      | Callback sample len \<Rightarrow> do { u \<leftarrow> call_back sample_cb sample len m u; Some (m, u) }
      | Store \<Rightarrow> Some (m\<lparr>consumer_pos := cons_pos u\<rparr>, u\<lparr>pc := Load_len\<rparr>)
      | Store_err err \<Rightarrow> Some (m\<lparr>consumer_pos := cons_pos u\<rparr>, u\<lparr>pc := Ret err\<rparr>)
      | Ret r \<Rightarrow> Some (m, u))"

text \<open>The whole function when the kernel leaves the memory alone; the loop has no bound of its own.\<close>

primrec ret_value :: "ring_pc \<Rightarrow> int option" where
  "ret_value Load_prod = None" | "ret_value Load_len = None" | "ret_value (Callback s n) = None"
| "ret_value Store = None" | "ret_value (Store_err e) = None" | "ret_value (Ret r) = Some r"

partial_function (option) ring_loop ::
    "u64 \<Rightarrow> ('c \<Rightarrow> u8 list \<Rightarrow> 'c \<times> int) \<Rightarrow> rb_mem \<Rightarrow> 'c ring_user \<Rightarrow> (int \<times> rb_mem \<times> 'c) option" where
  "ring_loop msk sample_cb m u =
     (case ret_value (pc u) of
        Some r \<Rightarrow> Some (r, m, ctx u)
      | None \<Rightarrow> do { (m, u) \<leftarrow> ring_next msk sample_cb m u; ring_loop msk sample_cb m u })"

definition ringbuf_process_ring ::
    "u64 \<Rightarrow> ('c \<Rightarrow> u8 list \<Rightarrow> 'c \<times> int) \<Rightarrow> rb_mem \<Rightarrow> 'c \<Rightarrow> (int \<times> rb_mem \<times> 'c) option" where
  "ringbuf_process_ring msk sample_cb m c = ring_loop msk sample_cb m (ring_start m c)"

section \<open>The records in a ring\<close>

text \<open>
  The kernel's side, as \<^verbatim>\<open>kernel/bpf/ringbuf.c\<close> documents it: a record is reserved with its length, its
  header marked busy, and later committed or discarded, in any order.
\<close>

datatype krec = Busy nat | Ready "u8 list" | Dropped nat

primrec rec_len :: "krec \<Rightarrow> nat" where
  "rec_len (Busy n) = n" | "rec_len (Ready xs) = length xs" | "rec_len (Dropped n) = n"

primrec rec_hdr :: "krec \<Rightarrow> u32" where
  "rec_hdr (Busy n) = of_nat n OR BPF_RINGBUF_BUSY_BIT"
| "rec_hdr (Ready xs) = of_nat (length xs)"
| "rec_hdr (Dropped n) = of_nat n OR BPF_RINGBUF_DISCARD_BIT"

definition rec_size :: "nat \<Rightarrow> nat" where
  "rec_size n = (n + BPF_RINGBUF_HDR_SZ + 7) div 8 * 8"

definition rec_pos :: "nat \<Rightarrow> krec list \<Rightarrow> nat \<Rightarrow> nat" where
  "rec_pos start recs i = start + (\<Sum>r \<leftarrow> take i recs. rec_size (rec_len r))"

definition ring_put :: "nat \<Rightarrow> u8 list \<Rightarrow> rb_mem \<Rightarrow> rb_mem" where
  "ring_put p xs m = m\<lparr>rb_data := map (\<lambda>i. let j = (i + length (rb_data m) - p mod length (rb_data m)) mod length (rb_data m)
       in if j < length xs then xs ! j else rb_data m ! i) [0..<length (rb_data m)]\<rparr>"

record 'c rb_sys =
  mem :: rb_mem
  user :: "'c ring_user"
  recs :: "krec list"

definition kernel_reserve :: "nat \<Rightarrow> u32 \<Rightarrow> 'c rb_sys \<Rightarrow> 'c rb_sys" where
  "kernel_reserve n pg_off s =
     s\<lparr>mem := (ring_put (unat (producer_pos (mem s))) (word_bytes (rec_hdr (Busy n)) @ word_bytes pg_off) (mem s))
                \<lparr>producer_pos := producer_pos (mem s) + of_nat (rec_size n)\<rparr>,
       recs := recs s @ [Busy n]\<rparr>"

definition kernel_commit :: "nat \<Rightarrow> nat \<Rightarrow> u8 list \<Rightarrow> 'c rb_sys \<Rightarrow> 'c rb_sys" where
  "kernel_commit start i xs s =
     (let p = rec_pos start (recs s) i
       in s\<lparr>mem := ring_put p (word_bytes (rec_hdr (Ready xs))) (ring_put (p + BPF_RINGBUF_HDR_SZ) xs (mem s)),
            recs := (recs s)[i := Ready xs]\<rparr>)"

definition kernel_discard :: "nat \<Rightarrow> nat \<Rightarrow> nat \<Rightarrow> 'c rb_sys \<Rightarrow> 'c rb_sys" where
  "kernel_discard start i n s =
     s\<lparr>mem := ring_put (rec_pos start (recs s) i) (word_bytes (rec_hdr (Dropped n))) (mem s),
       recs := (recs s)[i := Dropped n]\<rparr>"

text \<open>
  Runs of both sides. The kernel reserves only what is free according to the consumer position
  in memory, records of less than \<open>2\<^sup>3\<^sup>0\<close> bytes, and the positions do not wrap around.
\<close>

inductive rb_step :: "nat \<Rightarrow> u64 \<Rightarrow> ('c \<Rightarrow> u8 list \<Rightarrow> 'c \<times> int) \<Rightarrow> 'c rb_sys \<Rightarrow> 'c rb_sys \<Rightarrow> bool"
  for start msk sample_cb where
  consumer: "ring_next msk sample_cb (mem s) (user s) = Some (m, u) \<Longrightarrow>
     rb_step start msk sample_cb s (s\<lparr>mem := m, user := u\<rparr>)"
| again: "ret_value (pc (user s)) \<noteq> None \<Longrightarrow>
     rb_step start msk sample_cb s (s\<lparr>user := ring_start (mem s) (ctx (user s))\<rparr>)"
| reserve: "n < 2 ^ 30 \<Longrightarrow> unat (producer_pos (mem s)) + rec_size n - unat (consumer_pos (mem s)) \<le> unat msk \<Longrightarrow>
     unat (producer_pos (mem s)) + rec_size n < 2 ^ 64 \<Longrightarrow>
     rb_step start msk sample_cb s (kernel_reserve n pg_off s)"
| commit: "i < length (recs s) \<Longrightarrow> recs s ! i = Busy (length xs) \<Longrightarrow>
     rb_step start msk sample_cb s (kernel_commit start i xs s)"
| discard: "i < length (recs s) \<Longrightarrow> recs s ! i = Busy n \<Longrightarrow>
     rb_step start msk sample_cb s (kernel_discard start i n s)"

inductive_cases rb_stepE: "rb_step start msk sample_cb s t"

text \<open>What a consumer that is alone makes of the records from the first unread one on.\<close>

fun deliver :: "('c \<Rightarrow> u8 list \<Rightarrow> 'c \<times> int) \<Rightarrow> krec list \<Rightarrow> 'c \<Rightarrow> int \<Rightarrow> 'c \<times> int \<times> nat" where
  "deliver sample_cb [] c n = (c, n, 0)"
| "deliver sample_cb (Busy k # rs) c n = (c, n, 0)"
| "deliver sample_cb (Dropped k # rs) c n = (let (c, r, l) = deliver sample_cb rs c n in (c, r, Suc l))"
| "deliver sample_cb (Ready xs # rs) c n =
     (let (c, err) = sample_cb c xs
       in if err < 0 then (c, err, 1)
          else let (c, r, l) = deliver sample_cb rs c (n + 1) in (c, r, Suc l))"

text \<open>The samples of records, and their effect on the callback's context.\<close>

fun samples :: "krec list \<Rightarrow> u8 list list" where
  "samples [] = []"
| "samples (Ready xs # rs) = xs # samples rs"
| "samples (r # rs) = samples rs"

definition received :: "('c \<Rightarrow> u8 list \<Rightarrow> 'c \<times> int) \<Rightarrow> krec list \<Rightarrow> 'c \<Rightarrow> 'c" where
  "received sample_cb rs c = fold (\<lambda>xs c. fst (sample_cb c xs)) (samples rs) c"

definition busy :: "krec \<Rightarrow> bool" where
  "busy r \<longleftrightarrow> (\<exists>n. r = Busy n)"

section \<open>Lengths and positions\<close>

lemma shift_out_top: "drop_bit 2 (push_bit 2 len) = take_bit 30 (len :: u32)"
  by (rule bit_word_eqI) (auto simp: bit_simps)

lemma unat_take_bit_30: "unat (take_bit 30 len :: u32) = unat len mod 2 ^ 30"
  by (simp only: unsigned_take_bit_eq) (simp add: take_bit_eq_mod)

text \<open>
  The size of a record: the flags in the two top bits of its length are ignored, nothing wraps
  around, and the result is a positive multiple of 8 that holds the header and the sample.
\<close>

lemma unat_roundup_len: "unat (roundup_len len) = rec_size (unat len mod 2 ^ 30)"
proof -
  let ?n = "unat len mod 2 ^ 30"
  have n: "?n < 2 ^ 30" by simp
  have sum: "unat (take_bit 30 len + 8 + 7 :: u32) = ?n + 15"
    using n by (simp add: unat_word_ariths unat_take_bit_30)
  have d: "unat ((take_bit 30 len + 8 + 7 :: u32) div 8) = (?n + 15) div 8" by (simp only: unat_div_distrib sum) simp
  have "(?n + 15) div 8 * 8 \<le> ?n + 15" by (rule div_times_less_eq_dividend)
  also have "\<dots> < 2 ^ 32" using n by simp
  finally have "(?n + 15) div 8 * 8 < 2 ^ 32" .
  then have "unat ((take_bit 30 len + 8 + 7 :: u32) div 8 * 8) = (?n + 15) div 8 * 8"
    by (simp only: unat_word_ariths(2) d) simp
  then show ?thesis by (simp add: roundup_len_def shift_out_top BPF_RINGBUF_HDR_SZ_def rec_size_def)
qed

lemma rec_size_bounds: "n + 8 \<le> rec_size n" "rec_size n \<le> n + 15" "8 dvd rec_size n"
  by (auto simp: rec_size_def BPF_RINGBUF_HDR_SZ_def)

lemma unat_scast_roundup_len: "unat (scast (roundup_len len) :: u64) = rec_size (unat len mod 2 ^ 30)"
proof -
  have "unat len mod 2 ^ 30 < 2 ^ 30" by simp
  then have lt: "unat (roundup_len len) < 2 ^ 31"
    using rec_size_bounds(2) [of "unat len mod 2 ^ 30"] by (simp add: unat_roundup_len)
  have "roundup_len len = word_of_int (int (unat (roundup_len len)))" by simp
  moreover have "sint (word_of_int (int (unat (roundup_len len))) :: u32) = int (unat (roundup_len len))"
    proof (rule sint_word_of_int_u32)
    show "- (2 ^ 31) \<le> int (unat (roundup_len len))" by (rule order_trans [of _ 0]) (simp_all only: of_nat_0_le_iff, simp)
    show "int (unat (roundup_len len)) < 2 ^ 31" using lt by (simp only: of_nat_less_numeral_power_cancel_iff)
  qed
  ultimately have "sint (roundup_len len) = int (unat (roundup_len len))" by simp
  then have "(scast (roundup_len len) :: u64) = of_nat (unat (roundup_len len))" by (simp add: scast_eq)
  also have "unat (of_nat k :: u64) = k" if "k < 2 ^ 31" for k using that by (simp add: unsigned_of_nat take_bit_nat_eq_self)
  then have "unat (of_nat (unat (roundup_len len)) :: u64) = unat (roundup_len len)" using lt .
  finally show ?thesis by (simp add: unat_roundup_len)
qed

lemma rec_pos_0 [simp]: "rec_pos start rs 0 = start"
  by (simp add: rec_pos_def)

lemma rec_pos_Suc: "i < length rs \<Longrightarrow> rec_pos start rs (Suc i) = rec_pos start rs i + rec_size (rec_len (rs ! i))"
  by (simp add: rec_pos_def take_Suc_conv_app_nth)

lemma rec_pos_mono: "i \<le> j \<Longrightarrow> rec_pos start rs i \<le> rec_pos start rs j"
proof -
  assume "i \<le> j"
  then have "take j rs = take i rs @ take (j - i) (drop i rs)" by (simp flip: take_add)
  then show ?thesis by (simp add: rec_pos_def)
qed

lemma rec_pos_append: "i \<le> length rs \<Longrightarrow> rec_pos start (rs @ qs) i = rec_pos start rs i"
  by (simp add: rec_pos_def)

lemma rec_pos_update:
  assumes "rec_len r = rec_len (rs ! i)"
  shows "rec_pos start (rs[i := r]) j = rec_pos start rs j"
proof -
  have "map (\<lambda>r. rec_size (rec_len r)) (rs[i := r]) = map (\<lambda>r. rec_size (rec_len r)) rs"
    using assms by (intro nth_equalityI) (simp_all, metis nth_list_update_eq nth_list_update_neq)
  then show ?thesis unfolding rec_pos_def take_map [symmetric] by simp
qed

lemma rec_pos_end: "j < i \<Longrightarrow> i \<le> length rs \<Longrightarrow> rec_pos start rs j + rec_size (rec_len (rs ! j)) \<le> rec_pos start rs i"
  using rec_pos_Suc [of j rs start] rec_pos_mono [of "Suc j" i start rs] by simp

lemma rec_pos_less_iff:
  assumes "n \<le> length rs" "k \<le> length rs"
  shows "rec_pos start rs n < rec_pos start rs k \<longleftrightarrow> n < k"
proof
  assume "n < k"
  from rec_pos_end [OF this assms(2), of start] show "rec_pos start rs n < rec_pos start rs k"
    using rec_size_bounds(1) [of "rec_len (rs ! n)"] by simp
next
  assume "rec_pos start rs n < rec_pos start rs k"
  then show "n < k" using rec_pos_mono [of k n start rs] by (simp add: not_le [symmetric]) (metis not_le)
qed

section \<open>Bytes of the ring\<close>

definition byte_at :: "rb_mem \<Rightarrow> nat \<Rightarrow> u8" where
  "byte_at m p = rb_data m ! (p mod length (rb_data m))"

definition holds :: "rb_mem \<Rightarrow> nat \<Rightarrow> u8 list \<Rightarrow> bool" where
  "holds m p xs \<longleftrightarrow> (\<forall>j < length xs. byte_at m (p + j) = xs ! j)"

lemma length_ring_put [simp]: "length (rb_data (ring_put p xs m)) = length (rb_data m)"
  by (simp add: ring_put_def)

lemma ring_put_sel [simp]:
  "rb_mapped (ring_put p xs m) = rb_mapped m" "consumer_pos (ring_put p xs m) = consumer_pos m"
  "producer_pos (ring_put p xs m) = producer_pos m"
  by (simp_all add: ring_put_def)

lemma byte_at_put:
  assumes "rb_data m \<noteq> []"
  shows "byte_at (ring_put p xs m) q =
    (let j = (q mod length (rb_data m) + length (rb_data m) - p mod length (rb_data m)) mod length (rb_data m)
      in if j < length xs then xs ! j else byte_at m q)"
  using assms by (simp add: byte_at_def ring_put_def Let_def)

lemma ring_distance:
  fixes p q :: nat
  assumes "p \<le> q" "q < p + S"
  shows "(q mod S + S - p mod S) mod S = q - p"
proof -
  define a d where "a = p mod S" and "d = q - p"
  have S: "0 < S" "d < S" and a: "a < S" using assms by (simp_all add: a_def d_def)
  have "q = p + d" using assms(1) by (simp add: d_def)
  then have q: "q mod S = (a + d) mod S" by (simp add: a_def mod_add_left_eq)
  show ?thesis
  proof (cases "a + d < S")
    case True
    then show ?thesis using q S by (simp flip: a_def d_def)
  next
    case False
    then have "q mod S = a + d - S" using q S a by (simp add: mod_if)
    then show ?thesis using False S a by (simp flip: a_def d_def)
  qed
qed

lemma ring_distance_back:
  fixes p q :: nat
  assumes "q < p" "p \<le> q + S" "0 < S"
  shows "(q mod S + S - p mod S) mod S = (S - (p - q)) mod S"
proof -
  have "(q mod S + S - p mod S) mod S = ((q + S) mod S + S - p mod S) mod S" by simp
  also have "\<dots> = q + S - p" using assms ring_distance [of p "q + S" S] by simp
  finally show ?thesis using assms by simp
qed

lemma holds_put:
  assumes "length xs \<le> length (rb_data m)"
  shows "holds (ring_put p xs m) p xs"
proof (cases xs)
  case (Cons x ys)
  then have "rb_data m \<noteq> []" using assms by auto
  then show ?thesis using assms by (simp add: holds_def byte_at_put ring_distance Let_def)
qed (simp add: holds_def)

lemma holds_put_other:
  assumes "C \<le> p" "p + length xs \<le> C + length (rb_data m)" "C \<le> q" "q + length ys \<le> C + length (rb_data m)"
    "q + length ys \<le> p \<or> p + length xs \<le> q"
  shows "holds (ring_put p xs m) q ys \<longleftrightarrow> holds m q ys"
proof (cases "rb_data m = []")
  case True
  then have "length ys = 0" using assms(3,4) by (simp only: list.size)
  then show ?thesis by (simp add: holds_def)
next
  case False
  let ?S = "length (rb_data m)"
  have S: "0 < ?S" using False by simp
  have "byte_at (ring_put p xs m) (q + j) = byte_at m (q + j)" if "j < length ys" for j
  proof (cases "p \<le> q + j")
    case True
    then have "((q + j) mod ?S + ?S - p mod ?S) mod ?S = q + j - p" using assms(1-4) that by (intro ring_distance) auto
    moreover have "length xs \<le> q + j - p" using assms(5) True that by auto
    ultimately show ?thesis using False by (simp add: byte_at_put)
  next
    case before: False
    then have "((q + j) mod ?S + ?S - p mod ?S) mod ?S = (?S - (p - (q + j))) mod ?S"
      using assms(1-4) that S by (intro ring_distance_back) auto
    also have "\<dots> = ?S - (p - (q + j))" by (rule mod_less) (use before S in linarith)
    finally have "((q + j) mod ?S + ?S - p mod ?S) mod ?S = ?S - (p - (q + j))" .
    moreover have "length xs \<le> ?S - (p - (q + j))" using assms(1-4) before that by auto
    ultimately show ?thesis using False by (simp add: byte_at_put)
  qed
  then show ?thesis by (simp add: holds_def)
qed

lemma rb_bytes_holds:
  assumes "holds m p xs" "p mod length (rb_data m) + length xs \<le> rb_mapped m"
  shows "rb_bytes m (p mod length (rb_data m)) (length xs) = Some xs"
proof -
  have "map (\<lambda>j. rb_data m ! ((p mod length (rb_data m) + j) mod length (rb_data m))) [0..<length xs] = xs"
    using assms(1) by (intro nth_equalityI) (auto simp: holds_def byte_at_def mod_add_left_eq)
  then show ?thesis using assms(2) by (simp add: rb_bytes_def)
qed

end
