(* ===== verification/RingInv.thy ===== *)
theory RingInv
  imports Ringbuf
begin

text \<open>
  The invariant of a BPF ring buffer that the kernel fills and \<^verbatim>\<open>ringbuf_process_ring\<close> empties at the same
  time: every step of either side keeps it.
\<close>

section \<open>The invariant\<close>

text \<open>A ring of a size the kernel allows and that the mapping covers twice.\<close>

definition rb_ok :: "u64 \<Rightarrow> rb_mem \<Rightarrow> bool" where
  "rb_ok msk m \<longleftrightarrow> (\<exists>k. 3 \<le> k \<and> k \<le> 31 \<and> length (rb_data m) = 2 ^ k \<and> msk = 2 ^ k - 1) \<and>
     rb_mapped m = 2 * length (rb_data m)"

definition stored :: "rb_mem \<Rightarrow> nat \<Rightarrow> krec \<Rightarrow> bool" where
  "stored m p r \<longleftrightarrow> rec_len r < 2 ^ 30 \<and> holds m p (word_bytes (rec_hdr r)) \<and>
     (\<forall>xs. r = Ready xs \<longrightarrow> holds m (p + BPF_RINGBUF_HDR_SZ) xs)"

text \<open>
  From record \<open>m\<close> on the records are in memory, in one piece modulo the size of the ring; the first
  \<open>n\<close> have been handled by the consumer, which has not yet released record \<open>n - 1\<close> when it is about
  to store its position.
\<close>

definition pc_ok :: "nat \<Rightarrow> nat \<Rightarrow> nat \<Rightarrow> 'c rb_sys \<Rightarrow> bool" where
  "pc_ok start i n s \<longleftrightarrow>
     (case pc (user s) of
        Callback sample len \<Rightarrow> i = n \<and> n < length (recs s) \<and> (\<exists>xs. recs s ! n = Ready xs \<and> len = length xs) \<and>
          sample = rec_pos start (recs s) n mod length (rb_data (mem s)) + BPF_RINGBUF_HDR_SZ \<and>
          unat (cons_pos (user s)) = rec_pos start (recs s) (Suc n)
      | Store \<Rightarrow> n = Suc i \<and> unat (cons_pos (user s)) = rec_pos start (recs s) n
      | Store_err err \<Rightarrow> n = Suc i \<and> unat (cons_pos (user s)) = rec_pos start (recs s) n
      | _ \<Rightarrow> i = n \<and> unat (cons_pos (user s)) = rec_pos start (recs s) n)"

definition rb_inv ::
    "nat \<Rightarrow> u64 \<Rightarrow> ('c \<Rightarrow> u8 list \<Rightarrow> 'c \<times> int) \<Rightarrow> 'c \<Rightarrow> nat \<Rightarrow> nat \<Rightarrow> 'c rb_sys \<Rightarrow> bool" where
  "rb_inv start msk sample_cb c i n s \<longleftrightarrow>
     rb_ok msk (mem s) \<and> i \<le> n \<and> n \<le> length (recs s) \<and>
     unat (consumer_pos (mem s)) = rec_pos start (recs s) i \<and>
     unat (producer_pos (mem s)) = rec_pos start (recs s) (length (recs s)) \<and>
     rec_pos start (recs s) (length (recs s)) < rec_pos start (recs s) i + length (rb_data (mem s)) \<and>
     (\<forall>k. i \<le> k \<longrightarrow> k < length (recs s) \<longrightarrow> stored (mem s) (rec_pos start (recs s) k) (recs s ! k)) \<and>
     (\<forall>r \<in> set (take n (recs s)). \<not> busy r) \<and>
     ctx (user s) = received sample_cb (take n (recs s)) c \<and>
     unat (prod_pos (user s)) \<le> unat (producer_pos (mem s)) \<and> pc_ok start i n s"

lemma rb_invD:
  assumes "rb_inv start msk sample_cb c i n s"
  shows "rb_ok msk (mem s)" "i \<le> n" "n \<le> length (recs s)"
    "unat (consumer_pos (mem s)) = rec_pos start (recs s) i"
    "unat (producer_pos (mem s)) = rec_pos start (recs s) (length (recs s))"
    "rec_pos start (recs s) (length (recs s)) < rec_pos start (recs s) i + length (rb_data (mem s))"
    "\<And>k. i \<le> k \<Longrightarrow> k < length (recs s) \<Longrightarrow> stored (mem s) (rec_pos start (recs s) k) (recs s ! k)"
    "\<forall>r \<in> set (take n (recs s)). \<not> busy r" "ctx (user s) = received sample_cb (take n (recs s)) c"
    "unat (prod_pos (user s)) \<le> unat (producer_pos (mem s))" "pc_ok start i n s"
  using assms unfolding rb_inv_def by blast+

section \<open>The kernel's steps keep it\<close>

text \<open>
  A write inside of a record, or of the free space, between the consumer's position and one ring
  further, leaves all other records as they are.
\<close>

lemma stored_put:
  assumes "stored m q r" "C \<le> p" "p + length xs \<le> C + length (rb_data m)" "C \<le> q"
    "q + rec_size (rec_len r) \<le> C + length (rb_data m)" "q + rec_size (rec_len r) \<le> p \<or> p + length xs \<le> q"
  shows "stored (ring_put p xs m) q r"
proof -
  note size = rec_size_bounds(1) [of "rec_len r"]
  have "holds (ring_put p xs m) q (word_bytes (rec_hdr r)) \<longleftrightarrow> holds m q (word_bytes (rec_hdr r))"
    by (rule holds_put_other [of C]) (use assms size in auto)
  moreover have "holds (ring_put p xs m) (q + BPF_RINGBUF_HDR_SZ) ys \<longleftrightarrow> holds m (q + BPF_RINGBUF_HDR_SZ) ys" if "r = Ready ys" for ys
    by (rule holds_put_other [of C]) (use assms size that in \<open>auto simp: c_consts\<close>)
  ultimately show ?thesis using assms(1) by (auto simp: stored_def)
qed

lemma stored_head:
  assumes "rec_len r < 2 ^ 30" "\<forall>xs. r = Ready xs \<longrightarrow> holds m (p + BPF_RINGBUF_HDR_SZ) xs" "C \<le> p"
    "p + rec_size (rec_len r) \<le> C + length (rb_data m)" "length ys \<le> 4"
  shows "stored (ring_put p (word_bytes (rec_hdr r) @ ys) m) p r"
proof -
  note size = rec_size_bounds(1) [of "rec_len r"]
  have "holds (ring_put p (word_bytes (rec_hdr r) @ ys) m) p (word_bytes (rec_hdr r) @ ys)"
    using assms(3-5) size by (intro holds_put) auto
  then have "holds (ring_put p (word_bytes (rec_hdr r) @ ys) m) p (word_bytes (rec_hdr r))"
    unfolding holds_def by (metis length_append nth_append trans_less_add1)
  moreover have "holds (ring_put p (word_bytes (rec_hdr r) @ ys) m) (p + BPF_RINGBUF_HDR_SZ) xs" if "r = Ready xs" for xs
  proof -
    have "holds (ring_put p (word_bytes (rec_hdr r) @ ys) m) (p + BPF_RINGBUF_HDR_SZ) xs \<longleftrightarrow> holds m (p + BPF_RINGBUF_HDR_SZ) xs"
      by (rule holds_put_other [of C]) (use assms size that in \<open>auto simp: c_consts\<close>)
    then show ?thesis using assms(2) that by blast
  qed
  ultimately show ?thesis using assms(1) by (simp add: stored_def)
qed

lemma rb_ok_put [simp]: "rb_ok msk (ring_put p xs m) = rb_ok msk m"
  by (simp add: rb_ok_def)

lemma reserve_inv:
  assumes inv: "rb_inv start msk sample_cb c i n s" and len: "k < 2 ^ 30"
    and room: "unat (producer_pos (mem s)) + rec_size k - unat (consumer_pos (mem s)) \<le> unat msk"
    and wrap: "unat (producer_pos (mem s)) + rec_size k < 2 ^ 64"
  shows "rb_inv start msk sample_cb c i n (kernel_reserve k pg_off s)"
proof -
  note I = rb_invD [OF inv]
  let ?s = "kernel_reserve k pg_off s" and ?L = "length (recs s)"
  have recs: "recs ?s = recs s @ [Busy k]" "user ?s = user s" by (simp_all add: kernel_reserve_def)
  have mem: "mem ?s = (ring_put (unat (producer_pos (mem s))) (word_bytes (rec_hdr (Busy k)) @ word_bytes pg_off) (mem s))
      \<lparr>producer_pos := producer_pos (mem s) + of_nat (rec_size k)\<rparr>" by (simp add: kernel_reserve_def)
  have pos: "rec_pos start (recs ?s) j = rec_pos start (recs s) j" if "j \<le> ?L" for j
    using that by (simp add: recs rec_pos_append)
  have last: "rec_pos start (recs ?s) (Suc ?L) = rec_pos start (recs s) ?L + rec_size k"
    using rec_pos_Suc [of ?L "recs ?s" start] by (simp add: recs rec_pos_append)
  have "unat msk < length (rb_data (mem s))"
  proof -
    obtain b where b: "b \<le> 31" "length (rb_data (mem s)) = 2 ^ b" "msk = 2 ^ b - 1" using I(1) by (auto simp: rb_ok_def)
    have "(2 :: nat) ^ b < 2 ^ 64" using b(1) by (intro power_strict_increasing) simp_all
    then have "msk = of_nat (2 ^ b - 1)" "(2 :: nat) ^ b - 1 < 2 ^ 64" using b(3) by simp_all
    then have "unat msk = 2 ^ b - 1" by (simp only: unsigned_of_nat) (simp add: take_bit_nat_eq_self)
    then show ?thesis using b(2) by simp
  qed
  then have fits: "rec_pos start (recs s) ?L + rec_size k < rec_pos start (recs s) i + length (rb_data (mem s))"
    using room I(4,5) by simp
  have prod: "unat (producer_pos (mem ?s)) = rec_pos start (recs s) ?L + rec_size k"
    using wrap I(5) by (simp add: mem unat_word_ariths unsigned_of_nat take_bit_nat_eq_self)
  have sz: "length (rb_data (mem ?s)) = length (rb_data (mem s))" by (simp add: mem)
  have at: "stored (mem ?s) p r \<longleftrightarrow> stored (ring_put (unat (producer_pos (mem s)))
      (word_bytes (rec_hdr (Busy k)) @ word_bytes pg_off) (mem s)) p r" for p r
    by (simp add: mem stored_def holds_def byte_at_def)
  have "stored (mem ?s) (rec_pos start (recs ?s) j) (recs ?s ! j)" if "i \<le> j" "j < length (recs ?s)" for j
  proof (cases "j = ?L")
    case True
    have "rec_pos start (recs s) i \<le> rec_pos start (recs s) ?L" using I(2,3) by (intro rec_pos_mono) simp
    then have "stored (mem ?s) (unat (producer_pos (mem s))) (Busy k)"
      unfolding at using len fits I(5) by (intro stored_head [of _ _ _ "rec_pos start (recs s) i"]) simp_all
    then show ?thesis using True I(5) pos [of ?L] by (simp add: recs)
  next
    case False
    then have j: "j < ?L" using that(2) by (simp add: recs)
    note end_j = rec_pos_end [OF j order.refl, of start]
    have "rec_pos start (recs s) i \<le> rec_pos start (recs s) j" using that(1) by (rule rec_pos_mono)
    then have "stored (mem ?s) (rec_pos start (recs s) j) (recs s ! j)"
      unfolding at using I(7) [OF that(1) j] fits I(5) end_j rec_size_bounds(1) [of k]
      by (intro stored_put [of _ _ _ "rec_pos start (recs s) i"]) simp_all
    then show ?thesis using j pos [of j] by (simp add: recs nth_append)
  qed
  moreover have "pc_ok start i n ?s"
    using I(11) I(3) pos sz by (auto simp: pc_ok_def recs nth_append Suc_leI rec_pos_append split: ring_pc.splits)
  moreover have "rb_ok msk (mem ?s)" using I(1) by (simp add: mem rb_ok_def)
  moreover have "consumer_pos (mem ?s) = consumer_pos (mem s)" by (simp add: mem)
  ultimately show ?thesis unfolding rb_inv_def
    using I prod pos sz last fits wrap by (simp add: recs)
qed

text \<open>Committing and discarding both finish a busy record.\<close>

lemma finish_inv:
  assumes inv: "rb_inv start msk sample_cb c i n s" and k: "k < length (recs s)" "recs s ! k = Busy (rec_len r)" "\<not> busy r"
    and st: "recs t = (recs s)[k := r]" "user t = user s" "consumer_pos (mem t) = consumer_pos (mem s)"
      "producer_pos (mem t) = producer_pos (mem s)" "rb_ok msk (mem t)" "length (rb_data (mem t)) = length (rb_data (mem s))"
    and own: "stored (mem t) (rec_pos start (recs s) k) r"
    and others: "\<And>j. i \<le> j \<Longrightarrow> j < length (recs s) \<Longrightarrow> j \<noteq> k \<Longrightarrow> stored (mem t) (rec_pos start (recs s) j) (recs s ! j)"
  shows "rb_inv start msk sample_cb c i n t"
proof -
  note I = rb_invD [OF inv]
  have pos: "rec_pos start (recs t) j = rec_pos start (recs s) j" for j
    using k(2) by (simp add: st(1) rec_pos_update)
  have "n \<le> k"
  proof (rule ccontr)
    assume "\<not> n \<le> k"
    then have "recs s ! k \<in> set (take n (recs s))" using k(1) by (auto simp: in_set_conv_nth intro!: exI [of _ k])
    then show False using I(8) k(2) by (auto simp: busy_def)
  qed
  then have take: "take n (recs t) = take n (recs s)" by (simp add: st(1))
  have "stored (mem t) (rec_pos start (recs t) j) (recs t ! j)" if "i \<le> j" "j < length (recs t)" for j
    using own others [of j] that pos by (cases "j = k") (simp_all add: st(1))
  moreover have "pc_ok start i n t"
  proof (cases "pc (user s)")
    case (Callback sample len)
    then have "n \<noteq> k" using I(11) k(2) by (auto simp: pc_ok_def)
    then have "recs t ! n = recs s ! n" "length (recs t) = length (recs s)" by (simp_all add: st(1))
    then show ?thesis using I(11) Callback by (simp add: pc_ok_def pos st(2,6))
  qed (use I(11) in \<open>simp_all add: pc_ok_def pos st(2)\<close>)
  moreover have "length (recs t) = length (recs s)" by (simp add: st(1))
  ultimately show ?thesis unfolding rb_inv_def using I by (simp add: pos take st(2-6))
qed

lemma record_window:
  assumes "rb_inv start msk sample_cb c i n s" "i \<le> k" "k < length (recs s)"
  shows "rec_pos start (recs s) i \<le> rec_pos start (recs s) k"
    "rec_pos start (recs s) k + rec_size (rec_len (recs s ! k)) \<le> rec_pos start (recs s) i + length (rb_data (mem s))"
  using rb_invD(6) [OF assms(1)] rec_pos_mono [OF assms(2), of start "recs s"] rec_pos_end [OF assms(3) order.refl, of start]
  by simp_all

lemma records_apart:
  assumes "j < length rs" "k < length rs" "j \<noteq> k"
  shows "rec_pos start rs j + rec_size (rec_len (rs ! j)) \<le> rec_pos start rs k \<or>
    rec_pos start rs k + rec_size (rec_len (rs ! k)) \<le> rec_pos start rs j"
  using assms rec_pos_end [of j k rs start] rec_pos_end [of k j rs start] by (cases "j < k") auto

lemma busy_behind:
  assumes "rb_inv start msk sample_cb c i n s" "k < length (recs s)" "recs s ! k = Busy len"
  shows "i \<le> k"
proof (rule ccontr)
  assume "\<not> i \<le> k"
  then have "recs s ! k \<in> set (take n (recs s))"
    using assms(2) rb_invD(2) [OF assms(1)] by (auto simp: in_set_conv_nth intro!: exI [of _ k])
  then show False using rb_invD(8) [OF assms(1)] assms(3) by (auto simp: busy_def)
qed

lemma commit_inv:
  assumes inv: "rb_inv start msk sample_cb c i n s" and k: "k < length (recs s)" "recs s ! k = Busy (length xs)"
  shows "rb_inv start msk sample_cb c i n (kernel_commit start k xs s)"
proof -
  note I = rb_invD [OF inv]
  note ik = busy_behind [OF inv k]
  let ?p = "rec_pos start (recs s) k" and ?C = "rec_pos start (recs s) i"
  let ?m1 = "ring_put (?p + BPF_RINGBUF_HDR_SZ) xs (mem s)"
  let ?m = "ring_put ?p (word_bytes (rec_hdr (Ready xs))) ?m1"
  have mem: "mem (kernel_commit start k xs s) = ?m" by (simp add: kernel_commit_def Let_def)
  note win = record_window [OF inv ik k(1)] rec_size_bounds(1) [of "length xs"]
  have len: "length xs < 2 ^ 30" using I(7) [OF ik k(1)] k(2) by (simp add: stored_def)
  have "holds ?m1 (?p + BPF_RINGBUF_HDR_SZ) xs" using win k(2) by (intro holds_put) simp
  then have own: "stored ?m ?p (Ready xs)"
    using stored_head [of "Ready xs" ?m1 ?p ?C "[]"] win k(2) len by simp
  have "stored ?m (rec_pos start (recs s) j) (recs s ! j)" if j: "i \<le> j" "j < length (recs s)" "j \<noteq> k" for j
  proof -
    note win' = record_window [OF inv j(1,2)] records_apart [OF j(2) k(1) j(3), of start]
    have "stored ?m1 (rec_pos start (recs s) j) (recs s ! j)"
      by (rule stored_put [OF I(7) [OF j(1,2)], of ?C]) (use win win' k(2) in \<open>auto simp: c_consts\<close>)
    then show ?thesis by (rule stored_put [of _ _ _ ?C]) (use win win' k(2) in auto)
  qed
  then show ?thesis
    by (intro finish_inv [OF inv k(1), where r = "Ready xs"])
      (use k(2) I(1) own in \<open>simp_all add: mem busy_def, simp_all add: kernel_commit_def Let_def\<close>)
qed

lemma discard_inv:
  assumes inv: "rb_inv start msk sample_cb c i n s" and k: "k < length (recs s)" "recs s ! k = Busy len"
  shows "rb_inv start msk sample_cb c i n (kernel_discard start k len s)"
proof -
  note I = rb_invD [OF inv]
  note ik = busy_behind [OF inv k]
  let ?p = "rec_pos start (recs s) k" and ?C = "rec_pos start (recs s) i"
  let ?m = "ring_put ?p (word_bytes (rec_hdr (Dropped len))) (mem s)"
  have mem: "mem (kernel_discard start k len s) = ?m" by (simp add: kernel_discard_def)
  note win = record_window [OF inv ik k(1)] rec_size_bounds(1) [of len]
  have "len < 2 ^ 30" using I(7) [OF ik k(1)] k(2) by (simp add: stored_def)
  then have own: "stored ?m ?p (Dropped len)"
    using stored_head [of "Dropped len" "mem s" ?p ?C "[]"] win k(2) by simp
  have "stored ?m (rec_pos start (recs s) j) (recs s ! j)" if j: "i \<le> j" "j < length (recs s)" "j \<noteq> k" for j
    using record_window [OF inv j(1,2)] records_apart [OF j(2) k(1) j(3), of start] win k(2)
    by (intro stored_put [OF I(7) [OF j(1,2)], of ?C]) auto
  then show ?thesis
    by (intro finish_inv [OF inv k(1), where r = "Dropped len"])
      (use k(2) I(1) own in \<open>simp_all add: mem busy_def, simp_all add: kernel_discard_def\<close>)
qed

section \<open>The consumer's steps\<close>

lemma hdr_bits:
  assumes "rec_len r < 2 ^ 30"
  shows "rec_hdr r AND BPF_RINGBUF_BUSY_BIT \<noteq> 0 \<longleftrightarrow> busy r"
    "\<not> busy r \<Longrightarrow> rec_hdr r AND BPF_RINGBUF_DISCARD_BIT = 0 \<longleftrightarrow> (\<exists>xs. r = Ready xs)"
    "unat (rec_hdr r) mod 2 ^ 30 = rec_len r" "r = Ready xs \<Longrightarrow> unat (rec_hdr r) = length xs"
proof -
  let ?w = "of_nat (rec_len r) :: u32"
  have w: "unat ?w = rec_len r" using assms by (intro of_nat_unat_u32) simp
  then have "take_bit 30 ?w = ?w"
    using assms by (simp add: word_unat_eq_iff unat_take_bit_30)
  then have high: "\<not> bit ?w j" if "30 \<le> j" for j using that by (metis bit_take_bit_iff not_le)
  have exp: "BPF_RINGBUF_BUSY_BIT = 2 ^ 31" "BPF_RINGBUF_DISCARD_BIT = 2 ^ 30" by (simp_all add: c_consts)
  have off: "?w AND BPF_RINGBUF_BUSY_BIT = 0" "?w AND BPF_RINGBUF_DISCARD_BIT = 0"
    unfolding exp and_exp_eq_0_iff_not_bit using high by simp_all
  have flags: "take_bit 30 (rec_hdr r) = take_bit 30 ?w"
  proof (cases r)
    case (Busy k)
    have "take_bit 30 BPF_RINGBUF_BUSY_BIT = 0" by (simp add: c_consts)
    then show ?thesis using Busy by (simp add: take_bit_or)
  next
    case (Dropped k)
    have "take_bit 30 BPF_RINGBUF_DISCARD_BIT = 0" by (simp add: c_consts)
    then show ?thesis using Dropped by (simp add: take_bit_or)
  qed simp
  have self: "BPF_RINGBUF_BUSY_BIT \<noteq> 0" "BPF_RINGBUF_DISCARD_BIT \<noteq> 0"
    "BPF_RINGBUF_DISCARD_BIT AND BPF_RINGBUF_BUSY_BIT = 0" by (simp_all add: c_consts)
  show "rec_hdr r AND BPF_RINGBUF_BUSY_BIT \<noteq> 0 \<longleftrightarrow> busy r"
    using off self by (cases r) (simp_all add: busy_def bit.conj_disj_distrib2)
  show "\<not> busy r \<Longrightarrow> rec_hdr r AND BPF_RINGBUF_DISCARD_BIT = 0 \<longleftrightarrow> (\<exists>xs. r = Ready xs)"
    using off self by (cases r) (simp_all add: busy_def bit.conj_disj_distrib2)
  have "unat (take_bit 30 (rec_hdr r)) = unat (take_bit 30 ?w)" by (simp only: flags)
  then show "unat (rec_hdr r) mod 2 ^ 30 = rec_len r" using w assms by (simp add: unat_take_bit_30)
  show "r = Ready xs \<Longrightarrow> unat (rec_hdr r) = length xs" using w by simp
qed

lemma and_mask_mod:
  assumes "rb_ok msk m"
  shows "unat (p AND msk) = unat p mod length (rb_data m)"
proof -
  obtain b where b: "b \<le> 31" "length (rb_data m) = 2 ^ b" "msk = 2 ^ b - 1" using assms by (auto simp: rb_ok_def)
  then have "p AND msk = take_bit b p" by (simp add: take_bit_eq_mask mask_eq_exp_minus_1)
  then show ?thesis using b(2) by (simp only: unsigned_take_bit_eq) (simp add: take_bit_eq_mod)
qed

text \<open>What a record in memory looks like to the consumer.\<close>

lemma stored_word:
  assumes "rb_ok msk m" "stored m p r" "p = unat pos"
  shows "rb_word m (unat (pos AND msk)) = Some (rec_hdr r)"
proof -
  obtain b where "3 \<le> b" "length (rb_data m) = 2 ^ b" "rb_mapped m = 2 * length (rb_data m)"
    using assms(1) by (auto simp: rb_ok_def)
  moreover from this(1) have "(2 :: nat) ^ 3 \<le> 2 ^ b" by (rule power_increasing) simp
  moreover have "p mod 2 ^ b + 4 \<le> 2 * 2 ^ b" if "(8 :: nat) \<le> 2 ^ b" using mod_less_divisor [of "2 ^ b" p] that by linarith
  ultimately have "rb_bytes m (p mod length (rb_data m)) (length (word_bytes (rec_hdr r))) = Some (word_bytes (rec_hdr r))"
    using assms(2) by (intro rb_bytes_holds) (simp_all add: stored_def)
  then have "rb_bytes m (unat (pos AND msk)) 4 = Some (word_bytes (rec_hdr r))"
    using assms(3) and_mask_mod [OF assms(1)] by simp
  then show ?thesis using rd32_word_bytes_app [of _ "[]"] by (simp add: rb_word_def)
qed

lemma stored_sample:
  assumes "rb_ok msk m" "stored m p (Ready xs)" "rec_size (length xs) \<le> length (rb_data m)"
  shows "rb_bytes m (p mod length (rb_data m) + BPF_RINGBUF_HDR_SZ) (length xs) = Some xs"
proof -
  let ?S = "length (rb_data m)"
  have S: "rb_mapped m = 2 * ?S" "0 < ?S" using assms(1) by (auto simp: rb_ok_def)
  have "holds m (p + BPF_RINGBUF_HDR_SZ) xs" using assms(2) by (simp add: stored_def)
  then have "map (\<lambda>j. rb_data m ! ((p mod ?S + BPF_RINGBUF_HDR_SZ + j) mod ?S)) [0..<length xs] = xs"
    by (intro nth_equalityI) (auto simp: holds_def byte_at_def mod_add_left_eq add.assoc)
  moreover have "p mod ?S + BPF_RINGBUF_HDR_SZ + length xs \<le> rb_mapped m"
    using mod_less_divisor [OF S(2), of p] assms(3) rec_size_bounds(1) [of "length xs"] S(1) by (simp add: c_consts)
  ultimately show ?thesis by (simp add: rb_bytes_def)
qed

lemma received_snoc:
  "received f (rs @ [Ready xs]) c = fst (f (received f rs c) xs)" "received f (rs @ [Dropped k]) c = received f rs c"
proof -
  have "samples (rs @ qs) = samples rs @ samples qs" for qs
    by (induction rs rule: samples.induct) simp_all
  then show "received f (rs @ [Ready xs]) c = fst (f (received f rs c) xs)" "received f (rs @ [Dropped k]) c = received f rs c"
    by (simp_all add: received_def)
qed

lemma unat_add_u64: "unat (p :: u64) + k < 2 ^ 64 \<Longrightarrow> unat (p + of_nat k) = unat p + k"
  by (simp add: unat_word_ariths unsigned_of_nat take_bit_nat_eq_self)

lemma unat_lt_2_64: "unat (p :: u64) < 2 ^ 64"
proof -
  have "unat p < 2 ^ LENGTH(64)" by (rule unsigned_less)
  then show ?thesis by simp
qed

text \<open>
  A load of a length: with nothing new, or a busy record, the function ends or looks for more;
  else the consumer is past the record.
\<close>

lemma load_len_cases:
  assumes inv: "rb_inv start msk sample_cb c n n s" and pc: "pc (user s) = Load_len"
  obtains (none) "\<not> cons_pos (user s) < prod_pos (user s)"
      "load_len msk (mem s) (user s) = Some ((user s)\<lparr>pc := if got_new_data (user s) then Load_prod else Ret (cnt (user s))\<rparr>)"
  | (stop) "cons_pos (user s) < prod_pos (user s)" "n < length (recs s)" "busy (recs s ! n)"
      "load_len msk (mem s) (user s) = Some ((user s)\<lparr>pc := Ret (cnt (user s))\<rparr>)"
  | (skip) p k where "cons_pos (user s) < prod_pos (user s)" "n < length (recs s)" "recs s ! n = Dropped k"
      "unat p = rec_pos start (recs s) (Suc n)"
      "load_len msk (mem s) (user s) = Some ((user s)\<lparr>got_new_data := True, cons_pos := p, pc := Store\<rparr>)"
  | (sample) p xs where "cons_pos (user s) < prod_pos (user s)" "n < length (recs s)" "recs s ! n = Ready xs"
      "unat p = rec_pos start (recs s) (Suc n)"
      "load_len msk (mem s) (user s) = Some ((user s)\<lparr>got_new_data := True, cons_pos := p,
        pc := Callback (rec_pos start (recs s) n mod length (rb_data (mem s)) + BPF_RINGBUF_HDR_SZ) (length xs)\<rparr>)"
proof (cases "cons_pos (user s) < prod_pos (user s)")
  case False
  then show thesis by (intro none) (simp_all add: load_len_def)
next
  case True
  note I = rb_invD [OF inv]
  let ?r = "recs s ! n"
  have pos: "unat (cons_pos (user s)) = rec_pos start (recs s) n" using I(11) pc by (simp add: pc_ok_def)
  have "rec_pos start (recs s) n < rec_pos start (recs s) (length (recs s))"
    using True I(5,10) pos by (simp add: word_less_nat_alt)
  then have n: "n < length (recs s)" using rec_pos_less_iff [OF I(3) order.refl] by simp
  note st = I(7) [OF order.refl n]
  have len: "rec_len ?r < 2 ^ 30" using st by (simp add: stored_def)
  note bits = hdr_bits [OF len]
  note word = stored_word [OF I(1) st pos [symmetric]]
  have "unat (scast (roundup_len (rec_hdr ?r)) :: u64) = rec_size (rec_len ?r)"
    using unat_scast_roundup_len [of "rec_hdr ?r"] bits(3) by simp
  from arg_cong [OF this, of "of_nat :: nat \<Rightarrow> u64"]
  have "scast (roundup_len (rec_hdr ?r)) = (of_nat (rec_size (rec_len ?r)) :: u64)" by simp
  moreover have "unat (cons_pos (user s) + of_nat (rec_size (rec_len ?r))) = rec_pos start (recs s) (Suc n)"
  proof -
    have "rec_pos start (recs s) (Suc n) \<le> rec_pos start (recs s) (length (recs s))" using n by (intro rec_pos_mono) simp
    then have "unat (cons_pos (user s)) + rec_size (rec_len ?r) < 2 ^ 64"
      using I(5) pos rec_pos_Suc [OF n, of start] unat_lt_2_64 [of "producer_pos (mem s)"] by simp
    from unat_add_u64 [OF this] show ?thesis using pos rec_pos_Suc [OF n, of start] by simp
  qed
  ultimately have next_pos: "unat (cons_pos (user s) + scast (roundup_len (rec_hdr ?r))) = rec_pos start (recs s) (Suc n)" by simp
  show thesis
  proof (cases ?r)
    case (Busy k)
    then have "busy ?r" by (simp add: busy_def)
    then show thesis by (intro stop [OF True n]) (simp_all add: load_len_def True word bits(1) del: rec_hdr.simps)
  next
    case (Dropped k)
    then have "\<not> busy ?r" "\<nexists>xs. ?r = Ready xs" by (simp_all add: busy_def)
    then have "rec_hdr ?r AND BPF_RINGBUF_BUSY_BIT = 0" "rec_hdr ?r AND BPF_RINGBUF_DISCARD_BIT \<noteq> 0" using bits(1,2) by blast+
    then show thesis by (intro skip [OF True n Dropped next_pos]) (simp add: load_len_def True word)
  next
    case (Ready xs)
    then have "\<not> busy ?r" "\<exists>xs. ?r = Ready xs" by (simp_all add: busy_def)
    then have "rec_hdr ?r AND BPF_RINGBUF_BUSY_BIT = 0" "rec_hdr ?r AND BPF_RINGBUF_DISCARD_BIT = 0" using bits(1,2) by blast+
    then show thesis using bits(4) [OF Ready] word [unfolded and_mask_mod [OF I(1)] pos]
      by (intro sample [OF True n Ready next_pos]) (simp add: load_len_def True and_mask_mod [OF I(1)] pos)
  qed
qed

lemma take_Suc_snoc: "n < length xs \<Longrightarrow> take (Suc n) xs = take n xs @ [xs ! n]"
  by (simp add: take_Suc_conv_app_nth)

lemma ring_next_inv:
  assumes inv: "rb_inv start msk sample_cb c i n s"
  shows "\<exists>m u i' n'. ring_next msk sample_cb (mem s) (user s) = Some (m, u) \<and>
    rb_inv start msk sample_cb c i' n' (s\<lparr>mem := m, user := u\<rparr>)"
proof -
  note I = rb_invD [OF inv]
  show ?thesis
  proof (cases "pc (user s)")
    case Load_prod
    then have "ring_next msk sample_cb (mem s) (user s) =
        Some (mem s, (user s)\<lparr>got_new_data := False, prod_pos := producer_pos (mem s), pc := Load_len\<rparr>)"
      by (simp add: ring_next_def)
    moreover have "rb_inv start msk sample_cb c i n
        (s\<lparr>mem := mem s, user := (user s)\<lparr>got_new_data := False, prod_pos := producer_pos (mem s), pc := Load_len\<rparr>\<rparr>)"
      using inv Load_prod by (auto simp: rb_inv_def pc_ok_def)
    ultimately show ?thesis by blast
  next
    case Load_len
    then have "i = n" using I(11) by (simp add: pc_ok_def)
    with inv have inv': "rb_inv start msk sample_cb c n n s" by simp
    from inv' Load_len show ?thesis
    proof (cases rule: load_len_cases)
      case none
      then have "ring_next msk sample_cb (mem s) (user s) = Some (mem s, (user s)\<lparr>pc := if got_new_data (user s) then Load_prod else Ret (cnt (user s))\<rparr>)"
        using Load_len by (simp add: ring_next_def)
      moreover have "rb_inv start msk sample_cb c n n
          (s\<lparr>mem := mem s, user := (user s)\<lparr>pc := if got_new_data (user s) then Load_prod else Ret (cnt (user s))\<rparr>\<rparr>)"
        using inv' Load_len by (simp add: rb_inv_def pc_ok_def)
      ultimately show ?thesis by blast
    next
      case stop
      then have "ring_next msk sample_cb (mem s) (user s) = Some (mem s, (user s)\<lparr>pc := Ret (cnt (user s))\<rparr>)"
        using Load_len by (simp add: ring_next_def)
      moreover have "rb_inv start msk sample_cb c n n (s\<lparr>mem := mem s, user := (user s)\<lparr>pc := Ret (cnt (user s))\<rparr>\<rparr>)"
        using inv' Load_len by (simp add: rb_inv_def pc_ok_def)
      ultimately show ?thesis by blast
    next
      case (skip p k)
      let ?u = "(user s)\<lparr>got_new_data := True, cons_pos := p, pc := Store\<rparr>"
      have "ring_next msk sample_cb (mem s) (user s) = Some (mem s, ?u)" using skip Load_len by (simp add: ring_next_def)
      moreover have "rb_inv start msk sample_cb c n (Suc n) (s\<lparr>mem := mem s, user := ?u\<rparr>)"
        using inv' skip(2-4) by (auto simp: rb_inv_def pc_ok_def take_Suc_snoc received_snoc busy_def)
      ultimately show ?thesis by blast
    next
      case (sample p xs)
      let ?u = "(user s)\<lparr>got_new_data := True, cons_pos := p,
        pc := Callback (rec_pos start (recs s) n mod length (rb_data (mem s)) + BPF_RINGBUF_HDR_SZ) (length xs)\<rparr>"
      have "ring_next msk sample_cb (mem s) (user s) = Some (mem s, ?u)" using sample Load_len by (simp add: ring_next_def)
      moreover have "rb_inv start msk sample_cb c n n (s\<lparr>mem := mem s, user := ?u\<rparr>)"
        using inv' sample(2-4) by (simp add: rb_inv_def pc_ok_def)
      ultimately show ?thesis by blast
    qed
  next
    case (Callback smp len)
    then obtain xs where at: "i = n" "n < length (recs s)" "recs s ! n = Ready xs" "len = length xs"
      "smp = rec_pos start (recs s) n mod length (rb_data (mem s)) + BPF_RINGBUF_HDR_SZ"
      "unat (cons_pos (user s)) = rec_pos start (recs s) (Suc n)" using I(11) by (auto simp: pc_ok_def)
    have st: "stored (mem s) (rec_pos start (recs s) n) (Ready xs)" using I(7) [of n] at(1-3) by simp
    have "rec_size (length xs) \<le> length (rb_data (mem s))"
      using record_window(2) [OF inv, of n] at(1-3) rec_pos_mono [of i n start "recs s"] by simp
    note bytes = stored_sample [OF I(1) st this]
    obtain c' err where cb: "sample_cb (ctx (user s)) xs = (c', err)" by fastforce
    let ?u = "if err < 0 then (user s)\<lparr>ctx := c', pc := Store_err err\<rparr> else (user s)\<lparr>ctx := c', cnt := cnt (user s) + 1, pc := Store\<rparr>"
    have "ring_next msk sample_cb (mem s) (user s) = Some (mem s, ?u)"
      using Callback bytes cb at(4,5) by (simp add: ring_next_def call_back_def)
    moreover have "rb_inv start msk sample_cb c n (Suc n) (s\<lparr>mem := mem s, user := ?u\<rparr>)"
      using inv at cb by (auto simp: rb_inv_def pc_ok_def take_Suc_snoc received_snoc busy_def)
    ultimately show ?thesis by blast
  next
    case Store
    then have at: "n = Suc i" "unat (cons_pos (user s)) = rec_pos start (recs s) n" using I(11) by (simp_all add: pc_ok_def)
    have "rec_pos start (recs s) i \<le> rec_pos start (recs s) n" using at(1) by (intro rec_pos_mono) simp
    moreover have "stored (mem s\<lparr>consumer_pos := cons_pos (user s)\<rparr>) p r \<longleftrightarrow> stored (mem s) p r" for p r
      by (simp add: stored_def holds_def byte_at_def)
    moreover have "rb_ok msk (mem s\<lparr>consumer_pos := cons_pos (user s)\<rparr>)" using I(1) by (simp add: rb_ok_def)
    ultimately have "rb_inv start msk sample_cb c n n (s\<lparr>mem := (mem s)\<lparr>consumer_pos := cons_pos (user s)\<rparr>, user := (user s)\<lparr>pc := Load_len\<rparr>\<rparr>)"
      using I at by (simp add: rb_inv_def pc_ok_def)
    moreover have "ring_next msk sample_cb (mem s) (user s) =
        Some ((mem s)\<lparr>consumer_pos := cons_pos (user s)\<rparr>, (user s)\<lparr>pc := Load_len\<rparr>)" using Store by (simp add: ring_next_def)
    ultimately show ?thesis by blast
  next
    case (Store_err err)
    then have at: "n = Suc i" "unat (cons_pos (user s)) = rec_pos start (recs s) n" using I(11) by (simp_all add: pc_ok_def)
    have "rec_pos start (recs s) i \<le> rec_pos start (recs s) n" using at(1) by (intro rec_pos_mono) simp
    moreover have "stored (mem s\<lparr>consumer_pos := cons_pos (user s)\<rparr>) p r \<longleftrightarrow> stored (mem s) p r" for p r
      by (simp add: stored_def holds_def byte_at_def)
    moreover have "rb_ok msk (mem s\<lparr>consumer_pos := cons_pos (user s)\<rparr>)" using I(1) by (simp add: rb_ok_def)
    ultimately have "rb_inv start msk sample_cb c n n (s\<lparr>mem := (mem s)\<lparr>consumer_pos := cons_pos (user s)\<rparr>, user := (user s)\<lparr>pc := Ret err\<rparr>\<rparr>)"
      using I at by (simp add: rb_inv_def pc_ok_def)
    moreover have "ring_next msk sample_cb (mem s) (user s) =
        Some ((mem s)\<lparr>consumer_pos := cons_pos (user s)\<rparr>, (user s)\<lparr>pc := Ret err\<rparr>)" using Store_err by (simp add: ring_next_def)
    ultimately show ?thesis by blast
  next
    case (Ret r)
    then have "ring_next msk sample_cb (mem s) (user s) = Some (mem s, user s)" by (simp add: ring_next_def)
    moreover have "s\<lparr>mem := mem s, user := user s\<rparr> = s" by simp
    ultimately show ?thesis using inv by metis
  qed
qed

end
