(* ===== verification/RingRun.thy ===== *)
theory RingRun
  imports RingInv
begin

text \<open>
  What the invariant gives for all runs of the kernel and the consumer (\<^verbatim>\<open>libbpf/src/ringbuf.c\<close>), and the
  result of a call that the kernel does not interfere with.
\<close>

section \<open>All runs\<close>

definition rb_new :: "rb_mem \<Rightarrow> 'c \<Rightarrow> 'c rb_sys" where
  "rb_new m c = \<lparr>mem = m, user = ring_start m c, recs = []\<rparr>"

text \<open>An empty ring, at whatever position.\<close>

definition empty_ring :: "nat \<Rightarrow> u64 \<Rightarrow> rb_mem \<Rightarrow> bool" where
  "empty_ring start msk m \<longleftrightarrow> rb_ok msk m \<and> unat (consumer_pos m) = start \<and> producer_pos m = consumer_pos m"

lemma rb_ok_nonempty: "rb_ok msk m \<Longrightarrow> 0 < length (rb_data m)"
  by (auto simp: rb_ok_def)

lemma rb_new_inv: "empty_ring start msk m \<Longrightarrow> rb_inv start msk sample_cb c 0 0 (rb_new m c)"
  using rb_ok_nonempty by (auto simp: empty_ring_def rb_inv_def rb_new_def ring_start_def pc_ok_def received_def)

lemma again_inv:
  assumes "rb_inv start msk sample_cb c i n s" "ret_value (pc (user s)) \<noteq> None"
  shows "rb_inv start msk sample_cb c i n (s\<lparr>user := ring_start (mem s) (ctx (user s))\<rparr>)"
  using assms by (cases "pc (user s)") (auto simp: rb_inv_def pc_ok_def ring_start_def)

lemma rb_step_inv:
  assumes "rb_step start msk sample_cb s t" "rb_inv start msk sample_cb c i n s"
  shows "\<exists>i n. rb_inv start msk sample_cb c i n t"
  using assms(1)
proof (cases rule: rb_step.cases)
  case (consumer m u)
  then show ?thesis using ring_next_inv [OF assms(2)] by force
next
  case again
  then show ?thesis using again_inv [OF assms(2)] by blast
next
  case (reserve k pg_off)
  then show ?thesis using reserve_inv [OF assms(2)] by blast
next
  case (commit k xs)
  then show ?thesis using commit_inv [OF assms(2)] by blast
next
  case (discard k len)
  then show ?thesis using discard_inv [OF assms(2)] by blast
qed

lemma rb_run_inv:
  assumes "(rb_step start msk sample_cb)\<^sup>*\<^sup>* (rb_new m c) s" "empty_ring start msk m"
  shows "\<exists>i n. rb_inv start msk sample_cb c i n s"
  using assms(1)
proof (induction rule: rtranclp_induct)
  case base
  show ?case by (intro exI) (rule rb_new_inv [OF assms(2)])
next
  case (step s t)
  from step.IH obtain i n where "rb_inv start msk sample_cb c i n s" by blast
  then show ?case by (rule rb_step_inv [OF step.hyps(2)])
qed

lemma rb_inv_lag: "rb_inv start msk sample_cb c i n s \<Longrightarrow> n \<le> Suc i"
  using rb_invD(11) [of start msk sample_cb c i n s] by (auto simp: pc_ok_def split: ring_pc.splits)

text \<open>
  C11: whatever the kernel and the consumer do and however often the function is called: the
  callback is given the samples of the first records, in the order in which they were reserved and
  each once, leaving out discarded ones and never passing one that is still being written; the
  position released to the kernel is at most one record behind, and all records from there on are in
  memory as the kernel has written them.
\<close>

theorem ringbuf_delivers_in_order:
  assumes "empty_ring start msk m" "(rb_step start msk sample_cb)\<^sup>*\<^sup>* (rb_new m c) s"
  shows "\<exists>i n. i \<le> n \<and> n \<le> Suc i \<and> n \<le> length (recs s) \<and> (\<forall>r \<in> set (take n (recs s)). \<not> busy r) \<and>
    ctx (user s) = received sample_cb (take n (recs s)) c \<and> unat (consumer_pos (mem s)) = rec_pos start (recs s) i \<and>
    (\<forall>k. i \<le> k \<longrightarrow> k < length (recs s) \<longrightarrow> stored (mem s) (rec_pos start (recs s) k) (recs s ! k))"
proof -
  obtain i n where inv: "rb_inv start msk sample_cb c i n s" using rb_run_inv [OF assms(2,1)] by blast
  show ?thesis using rb_invD [OF inv] rb_inv_lag [OF inv] by blast
qed

text \<open>
  C13: no access is outside of the two mappings of the ring, so that no run of the consumer is stuck;
  what is between the positions never exceeds the ring, and a record's size computed from its
  header is a multiple of 8 that holds header and sample, at most \<open>2\<^sup>3\<^sup>0 + 8\<close>, whatever the header.
\<close>

theorem ringbuf_in_bounds:
  assumes "empty_ring start msk m" "(rb_step start msk sample_cb)\<^sup>*\<^sup>* (rb_new m c) s"
  shows "ring_next msk sample_cb (mem s) (user s) \<noteq> None \<and>
    unat (consumer_pos (mem s)) \<le> unat (cons_pos (user s)) \<and> unat (cons_pos (user s)) \<le> unat (producer_pos (mem s)) \<and>
    unat (producer_pos (mem s)) - unat (consumer_pos (mem s)) < length (rb_data (mem s)) \<and>
    (let len = unat (take_bit 30 hdr); size = unat (roundup_len hdr)
      in 8 dvd size \<and> len + 8 \<le> size \<and> size \<le> len + 15 \<and> size \<le> 2 ^ 30 + 8)"
proof -
  obtain i n where inv: "rb_inv start msk sample_cb c i n s" using rb_run_inv [OF assms(2,1)] by blast
  note I = rb_invD [OF inv]
  have "\<exists>k \<in> {n, Suc n}. k \<le> length (recs s) \<and> unat (cons_pos (user s)) = rec_pos start (recs s) k"
    using I(3,11) by (auto simp: pc_ok_def Suc_le_eq split: ring_pc.splits)
  then obtain k where "k \<in> {n, Suc n}" and k: "k \<le> length (recs s)" "unat (cons_pos (user s)) = rec_pos start (recs s) k" by blast
  then have "n \<le> k" by auto
  with k have "unat (consumer_pos (mem s)) \<le> unat (cons_pos (user s))" "unat (cons_pos (user s)) \<le> unat (producer_pos (mem s))"
    using I(2,4,5) rec_pos_mono [of i k] rec_pos_mono [of k "length (recs s)"] by simp_all
  moreover have "ring_next msk sample_cb (mem s) (user s) \<noteq> None" using ring_next_inv [OF inv] by force
  moreover have "unat (producer_pos (mem s)) - unat (consumer_pos (mem s)) < length (rb_data (mem s))"
    unfolding I(4,5) using I(6) rb_ok_nonempty [OF I(1)] by linarith
  moreover have "rec_size k \<le> 2 ^ 30 + 8" if "k < 2 ^ 30" for k
    using that by (simp add: rec_size_def BPF_RINGBUF_HDR_SZ_def)
  ultimately show ?thesis using rec_size_bounds [of "unat hdr mod 2 ^ 30"]
    by (simp add: unat_roundup_len unat_take_bit_30 del: dvd_imp_mod_0)
qed

section \<open>A call while the kernel is quiet\<close>

lemma ring_loop_step:
  "ret_value (pc u) = None \<Longrightarrow> ring_next msk f m u = Some (m', u') \<Longrightarrow> ring_loop msk f m u = ring_loop msk f m' u'"
  by (subst ring_loop.simps) simp

lemma ring_loop_ret: "pc u = Ret r \<Longrightarrow> ring_loop msk f m u = Some (r, m, ctx u)"
  by (subst ring_loop.simps) simp

lemma next_inv_at:
  assumes "rb_inv start msk f c i n s" "ring_next msk f (mem s) (user s) = Some (m, u)"
  shows "\<exists>i n. rb_inv start msk f c i n (s\<lparr>mem := m, user := u\<rparr>)"
  using ring_next_inv [OF assms(1)] assms(2) by auto

text \<open>Which record the consumer is at follows from its position.\<close>

lemma rb_inv_at:
  assumes "rb_inv start msk f c i n s" "pc (user s) = Load_len" "unat (cons_pos (user s)) = rec_pos start (recs s) k"
    "k \<le> length (recs s)"
  shows "i = k" "n = k"
proof -
  have at: "i = n" "unat (cons_pos (user s)) = rec_pos start (recs s) n"
    using rb_invD(11) [OF assms(1)] assms(2) by (simp_all add: pc_ok_def)
  then have "\<not> n < k" "\<not> k < n" using assms(3,4) rb_invD(3) [OF assms(1)] rec_pos_less_iff
    by (metis order_less_irrefl)+
  then show "i = k" "n = k" using at(1) by simp_all
qed

lemma u64_of_unat: "unat (p :: u64) = k \<Longrightarrow> of_nat k = p"
  by auto

text \<open>The state after a record: the consumer has stored its position.\<close>

definition past_record :: "nat \<Rightarrow> nat \<Rightarrow> 'c \<Rightarrow> int \<Rightarrow> 'c rb_sys \<Rightarrow> 'c rb_sys" where
  "past_record start n c k s =
     (let p = of_nat (rec_pos start (recs s) (Suc n))
       in s\<lparr>mem := (mem s)\<lparr>consumer_pos := p\<rparr>,
            user := (user s)\<lparr>cons_pos := p, got_new_data := True, pc := Load_len, ctx := c, cnt := k\<rparr>\<rparr>)"

lemma past_record_sel [simp]:
  "recs (past_record start n c k s) = recs s" "ctx (user (past_record start n c k s)) = c"
  "cnt (user (past_record start n c k s)) = k" "pc (user (past_record start n c k s)) = Load_len"
  "prod_pos (user (past_record start n c k s)) = prod_pos (user s)"
  "producer_pos (mem (past_record start n c k s)) = producer_pos (mem s)"
  "(mem (past_record start n c k s))\<lparr>consumer_pos := q\<rparr> = (mem s)\<lparr>consumer_pos := q\<rparr>"
  by (simp_all add: past_record_def Let_def)

lemma ring_loop_skip:
  assumes inv: "rb_inv start msk f c n n s" and pc: "pc (user s) = Load_len" "prod_pos (user s) = producer_pos (mem s)"
    and n: "n < length (recs s)" "recs s ! n = Dropped k"
  defines "t \<equiv> past_record start n (ctx (user s)) (cnt (user s)) s"
  shows "ring_loop msk f (mem s) (user s) = ring_loop msk f (mem t) (user t)" "rb_inv start msk f c (Suc n) (Suc n) t"
proof -
  have lt: "cons_pos (user s) < prod_pos (user s)"
    using rb_invD(5,11) [OF inv] pc n(1) rec_pos_less_iff [of n "recs s" "length (recs s)" start]
    by (simp add: word_less_nat_alt pc_ok_def)
  obtain p where p: "unat p = rec_pos start (recs s) (Suc n)"
    "load_len msk (mem s) (user s) = Some ((user s)\<lparr>got_new_data := True, cons_pos := p, pc := Store\<rparr>)"
    using inv pc(1) by (cases rule: load_len_cases) (use lt n in \<open>auto simp: busy_def\<close>)
  let ?u = "(user s)\<lparr>got_new_data := True, cons_pos := p, pc := Store\<rparr>"
  have t: "t = s\<lparr>mem := (mem s)\<lparr>consumer_pos := p\<rparr>, user := ?u\<lparr>pc := Load_len\<rparr>\<rparr>"
    using u64_of_unat [OF p(1)] by (simp add: t_def past_record_def Let_def)
  have one: "ring_next msk f (mem s) (user s) = Some (mem s, ?u)" using pc(1) p(2) by (simp add: ring_next_def)
  have two: "ring_next msk f (mem s) ?u = Some (mem t, user t)" by (simp add: t ring_next_def)
  show "ring_loop msk f (mem s) (user s) = ring_loop msk f (mem t) (user t)"
    using ring_loop_step [OF _ one] ring_loop_step [OF _ two] pc(1) by simp
  obtain i n' where "rb_inv start msk f c i n' (s\<lparr>mem := mem s, user := ?u\<rparr>)" using next_inv_at [OF inv one] by blast
  from next_inv_at [OF this, of "mem t" "user t"] two obtain i n' where "rb_inv start msk f c i n' t" by (auto simp: t)
  moreover from rb_inv_at [OF this, of "Suc n"] have "i = Suc n" "n' = Suc n" using p(1) n(1) by (simp_all add: t)
  ultimately show "rb_inv start msk f c (Suc n) (Suc n) t" by simp
qed

lemma ring_loop_sample:
  assumes inv: "rb_inv start msk f c n n s" and pc: "pc (user s) = Load_len" "prod_pos (user s) = producer_pos (mem s)"
    and n: "n < length (recs s)" "recs s ! n = Ready xs" and cb: "f (ctx (user s)) xs = (c', err)"
  defines "t \<equiv> past_record start n c' (cnt (user s) + 1) s"
  shows "err < 0 \<Longrightarrow> ring_loop msk f (mem s) (user s) =
      Some (err, (mem s)\<lparr>consumer_pos := of_nat (rec_pos start (recs s) (Suc n))\<rparr>, c')"
    "\<not> err < 0 \<Longrightarrow> ring_loop msk f (mem s) (user s) = ring_loop msk f (mem t) (user t)"
    "\<not> err < 0 \<Longrightarrow> rb_inv start msk f c (Suc n) (Suc n) t"
proof -
  have lt: "cons_pos (user s) < prod_pos (user s)"
    using rb_invD(5,11) [OF inv] pc n(1) rec_pos_less_iff [of n "recs s" "length (recs s)" start]
    by (simp add: word_less_nat_alt pc_ok_def)
  let ?off = "rec_pos start (recs s) n mod length (rb_data (mem s)) + BPF_RINGBUF_HDR_SZ"
  obtain p where p: "unat p = rec_pos start (recs s) (Suc n)" "load_len msk (mem s) (user s) =
      Some ((user s)\<lparr>got_new_data := True, cons_pos := p, pc := Callback ?off (length xs)\<rparr>)"
    using inv pc(1) by (cases rule: load_len_cases) (use lt n in \<open>auto simp: busy_def\<close>)
  let ?u = "(user s)\<lparr>got_new_data := True, cons_pos := p, pc := Callback ?off (length xs)\<rparr>"
  let ?v = "if err < 0 then ?u\<lparr>ctx := c', pc := Store_err err\<rparr> else ?u\<lparr>ctx := c', cnt := cnt (user s) + 1, pc := Store\<rparr>"
  note q = u64_of_unat [OF p(1)]
  have one: "ring_next msk f (mem s) (user s) = Some (mem s, ?u)" using pc(1) p(2) by (simp add: ring_next_def)
  have "stored (mem s) (rec_pos start (recs s) n) (Ready xs)" using rb_invD(7) [OF inv order.refl n(1)] n(2) by simp
  moreover have "rec_size (length xs) \<le> length (rb_data (mem s))" using record_window(2) [OF inv order.refl n(1)] n(2) by simp
  ultimately have "rb_bytes (mem s) ?off (length xs) = Some xs" by (rule stored_sample [OF rb_invD(1) [OF inv]])
  then have two: "ring_next msk f (mem s) ?u = Some (mem s, ?v)" using cb by (simp add: ring_next_def call_back_def)
  have upto: "ring_loop msk f (mem s) (user s) = ring_loop msk f (mem s) ?v"
    using ring_loop_step [OF _ one] ring_loop_step [OF _ two] pc(1) by simp
  show "ring_loop msk f (mem s) (user s) = Some (err, (mem s)\<lparr>consumer_pos := of_nat (rec_pos start (recs s) (Suc n))\<rparr>, c')" if "err < 0"
  proof -
    have "ring_next msk f (mem s) ?v = Some ((mem s)\<lparr>consumer_pos := p\<rparr>, ?v\<lparr>pc := Ret err\<rparr>)" using that by (simp add: ring_next_def)
    from ring_loop_step [OF _ this] show ?thesis using upto that q by (simp add: ring_loop_ret)
  qed
  assume ok: "\<not> err < 0"
  have t: "t = s\<lparr>mem := (mem s)\<lparr>consumer_pos := p\<rparr>, user := ?v\<lparr>pc := Load_len\<rparr>\<rparr>"
    using q ok by (simp add: t_def past_record_def Let_def)
  have three: "ring_next msk f (mem s) ?v = Some (mem t, user t)" using ok by (simp add: t ring_next_def)
  from ring_loop_step [OF _ this] show "ring_loop msk f (mem s) (user s) = ring_loop msk f (mem t) (user t)"
    using upto ok by simp
  obtain i n' where "rb_inv start msk f c i n' (s\<lparr>mem := mem s, user := ?u\<rparr>)" using next_inv_at [OF inv one] by blast
  from next_inv_at [OF this, of "mem s" ?v] two obtain i n' where "rb_inv start msk f c i n' (s\<lparr>user := ?v\<rparr>)" by auto
  from next_inv_at [OF this, of "mem t" "user t"] three obtain i n' where "rb_inv start msk f c i n' t" by (auto simp: t)
  moreover from rb_inv_at [OF this, of "Suc n"] have "i = Suc n" "n' = Suc n" using p(1) n(1) ok by (simp_all add: t)
  ultimately show "rb_inv start msk f c (Suc n) (Suc n) t" by simp
qed

text \<open>Nothing left to be read: the function ends, perhaps after having looked once more.\<close>

lemma ring_loop_end:
  assumes inv: "rb_inv start msk f c n n s" and pc: "pc (user s) = Load_len" "prod_pos (user s) = producer_pos (mem s)"
    and stop: "n < length (recs s) \<longrightarrow> busy (recs s ! n)"
  shows "ring_loop msk f (mem s) (user s) = Some (cnt (user s), mem s, ctx (user s))"
  using inv pc(1)
proof (cases rule: load_len_cases)
  case none
  have look: "ring_loop msk f (mem s) u = Some (cnt (user s), mem s, ctx (user s))"
    if "u = (user s)\<lparr>got_new_data := False, prod_pos := producer_pos (mem s), pc := Load_len\<rparr>" for u
  proof -
    have "\<not> cons_pos u < prod_pos u" using none(1) pc(2) that by simp
    then have "ring_next msk f (mem s) u = Some (mem s, u\<lparr>pc := Ret (cnt (user s))\<rparr>)"
      using that by (simp add: ring_next_def load_len_def)
    from ring_loop_step [OF _ this] show ?thesis using that by (simp add: ring_loop_ret)
  qed
  show ?thesis
  proof (cases "got_new_data (user s)")
    case True
    then have one: "ring_next msk f (mem s) (user s) = Some (mem s, (user s)\<lparr>pc := Load_prod\<rparr>)"
      using none pc(1) by (simp add: ring_next_def)
    have two: "ring_next msk f (mem s) ((user s)\<lparr>pc := Load_prod\<rparr>) =
        Some (mem s, (user s)\<lparr>got_new_data := False, prod_pos := producer_pos (mem s), pc := Load_len\<rparr>)"
      by (simp add: ring_next_def)
    show ?thesis using ring_loop_step [OF _ one] ring_loop_step [OF _ two] look pc(1) by simp
  next
    case False
    then have "user s = (user s)\<lparr>got_new_data := False, prod_pos := producer_pos (mem s), pc := Load_len\<rparr>"
      using pc by simp
    then show ?thesis by (rule look)
  qed
next
  case stop
  then have "ring_next msk f (mem s) (user s) = Some (mem s, (user s)\<lparr>pc := Ret (cnt (user s))\<rparr>)"
    using pc(1) by (simp add: ring_next_def)
  from ring_loop_step [OF _ this] show ?thesis using pc(1) by (simp add: ring_loop_ret)
qed (use stop in \<open>auto simp: busy_def\<close>)

definition delivered :: "nat \<Rightarrow> 'c rb_sys \<Rightarrow> nat \<Rightarrow> 'c \<times> int \<times> nat \<Rightarrow> (int \<times> rb_mem \<times> 'c) option" where
  "delivered start s n out = (case out of (c, r, l) \<Rightarrow>
     Some (r, (mem s)\<lparr>consumer_pos := of_nat (rec_pos start (recs s) (n + l))\<rparr>, c))"

lemma ring_loop_deliver:
  assumes "rb_inv start msk f c n n s" "pc (user s) = Load_len" "prod_pos (user s) = producer_pos (mem s)"
  shows "ring_loop msk f (mem s) (user s) = delivered start s n (deliver f (drop n (recs s)) (ctx (user s)) (cnt (user s)))"
  using assms
proof (induction "drop n (recs s)" arbitrary: n s)
  case Nil
  have "of_nat (rec_pos start (recs s) n) = consumer_pos (mem s)" using rb_invD(4) [OF Nil.prems(1)] by (rule u64_of_unat)
  moreover have "\<not> n < length (recs s)" using Nil.hyps by simp
  ultimately show ?case using ring_loop_end [OF Nil.prems] by (simp add: delivered_def flip: Nil.hyps)
next
  case (Cons r rs)
  have n: "n < length (recs s)" "recs s ! n = r" "drop (Suc n) (recs s) = rs"
    using Cons.hyps(2) by (metis drop_eq_Nil2 leI list.discI) (metis Cons.hyps(2) nth_via_drop, metis Cons.hyps(2) drop_Suc list.sel(3) tl_drop)
  have split: "drop n (recs s) = r # rs" by (rule Cons.hyps(2) [symmetric])
  show ?case
  proof (cases r)
    case (Busy k)
    have "of_nat (rec_pos start (recs s) n) = consumer_pos (mem s)" using rb_invD(4) [OF Cons.prems(1)] by (rule u64_of_unat)
    then show ?thesis using ring_loop_end [OF Cons.prems] n(2) Busy by (simp add: delivered_def split busy_def)
  next
    case (Dropped k)
    let ?t = "past_record start n (ctx (user s)) (cnt (user s)) s"
    note skip = ring_loop_skip [OF Cons.prems n(1) n(2) [unfolded Dropped]]
    have "ring_loop msk f (mem ?t) (user ?t) = delivered start ?t (Suc n) (deliver f (drop (Suc n) (recs ?t)) (ctx (user ?t)) (cnt (user ?t)))"
      by (rule Cons.hyps(1)) (use skip(2) Cons.prems(3) n(3) in simp_all)
    then show ?thesis using skip(1) by (simp add: delivered_def split Dropped n(3) split: prod.splits)
  next
    case (Ready xs)
    obtain c' err where cb: "f (ctx (user s)) xs = (c', err)" by fastforce
    let ?t = "past_record start n c' (cnt (user s) + 1) s"
    note one = ring_loop_sample [OF Cons.prems n(1) n(2) [unfolded Ready] cb]
    show ?thesis
    proof (cases "err < 0")
      case True
      then show ?thesis using one(1) cb by (simp add: delivered_def split Ready)
    next
      case False
      have "ring_loop msk f (mem ?t) (user ?t) = delivered start ?t (Suc n) (deliver f (drop (Suc n) (recs ?t)) (ctx (user ?t)) (cnt (user ?t)))"
        by (rule Cons.hyps(1)) (use one(3) [OF False] Cons.prems(3) n(3) in simp_all)
      then show ?thesis using one(2) [OF False] cb False by (simp add: delivered_def split Ready n(3) split: prod.splits)
    qed
  qed
qed


lemma deliver_stops:
  assumes "deliver f rs c k = (c', r, l)" "0 \<le> k"
  shows "l \<le> length rs" "0 \<le> r \<Longrightarrow> l < length rs \<Longrightarrow> busy (rs ! l)"
  using assms
  by (induction f rs c k arbitrary: c' r l rule: deliver.induct) (auto simp: busy_def Let_def split: prod.splits if_splits)

text \<open>
  C12: a call that the kernel does not interfere with ends, whatever the callback does. It gives the callback
  the samples from the first unread record on, up to the first record that is still being
  written or the first sample for which the callback returns an error; it returns that error, else
  the number of samples; and it stores the position behind the last record handled.
\<close>

theorem ringbuf_process_ring_outcome:
  assumes "empty_ring start msk m" "(rb_step start msk sample_cb)\<^sup>*\<^sup>* (rb_new m c) s" "pc (user s) = Ret ret"
  shows "\<exists>n. unat (consumer_pos (mem s)) = rec_pos start (recs s) n \<and> n \<le> length (recs s) \<and>
    (\<exists>c' r l. deliver sample_cb (drop n (recs s)) (ctx (user s)) 0 = (c', r, l) \<and>
      ringbuf_process_ring msk sample_cb (mem s) (ctx (user s)) =
        Some (r, (mem s)\<lparr>consumer_pos := of_nat (rec_pos start (recs s) (n + l))\<rparr>, c') \<and>
      (0 \<le> r \<and> n + l < length (recs s) \<longrightarrow> busy (recs s ! (n + l))))"
proof -
  obtain i n where inv: "rb_inv start msk sample_cb c i n s" using rb_run_inv [OF assms(2,1)] by blast
  have i: "i = n" using rb_invD(11) [OF inv] assms(3) by (simp add: pc_ok_def)
  let ?u = "(ring_start (mem s) (ctx (user s)))\<lparr>prod_pos := producer_pos (mem s), pc := Load_len\<rparr>"
  let ?s = "s\<lparr>user := ?u\<rparr>"
  have inv': "rb_inv start msk sample_cb c n n (s\<lparr>user := ring_start (mem s) (ctx (user s))\<rparr>)"
    using again_inv [OF inv] assms(3) i by simp
  have start: "ring_next msk sample_cb (mem s) (ring_start (mem s) (ctx (user s))) = Some (mem s, ?u)"
    by (simp add: ring_next_def ring_start_def)
  from next_inv_at [OF inv', of "mem s" ?u] start obtain j k where at: "rb_inv start msk sample_cb c j k ?s" by auto
  have "j = n" "k = n" using rb_inv_at [OF at, of n] rb_invD(3,4) [OF inv] i by (simp_all add: ring_start_def)
  with at have "rb_inv start msk sample_cb c n n ?s" by simp
  from ring_loop_deliver [OF this] have "ring_loop msk sample_cb (mem ?s) (user ?s) =
      delivered start ?s n (deliver sample_cb (drop n (recs ?s)) (ctx (user ?s)) (cnt (user ?s)))" by simp
  then have loop: "ringbuf_process_ring msk sample_cb (mem s) (ctx (user s)) =
      delivered start s n (deliver sample_cb (drop n (recs s)) (ctx (user s)) 0)"
    using ring_loop_step [OF _ start] by (simp add: ringbuf_process_ring_def delivered_def ring_start_def)
  obtain c' r l where out: "deliver sample_cb (drop n (recs s)) (ctx (user s)) 0 = (c', r, l)" by (rule prod_cases3)
  have "busy (recs s ! (n + l))" if "0 \<le> r" "n + l < length (recs s)"
    using deliver_stops(2) [OF out] that rb_invD(3) [OF inv] by (simp add: less_diff_conv add.commute)
  then show ?thesis using loop out rb_invD(3,4) [OF inv] i by (auto simp: delivered_def)
qed

section \<open>Witnesses\<close>

definition small_ring :: rb_mem where
  "small_ring = \<lparr>rb_data = replicate 32 0, rb_mapped = 64, consumer_pos = 0, producer_pos = 0\<rparr>"

definition log_cb :: "u8 list list \<Rightarrow> u8 list \<Rightarrow> u8 list list \<times> int" where
  "log_cb c xs = (c @ [xs], 0)"

text \<open>A call that finds the ring empty, then a record of three bytes.\<close>

definition idle_sys :: "u8 list list rb_sys" where
  "idle_sys = \<lparr>mem = small_ring, user = (ring_start small_ring [])\<lparr>pc := Ret 0\<rparr>, recs = []\<rparr>"

definition filled_sys :: "u8 list list rb_sys" where
  "filled_sys = kernel_commit 0 0 [1, 2, 3] (kernel_reserve 3 0 idle_sys)"

lemma small_ring_empty: "empty_ring 0 31 small_ring"
  by (auto simp: empty_ring_def rb_ok_def small_ring_def intro!: exI [of _ 5])

lemma filled_sys_run: "(rb_step 0 31 log_cb)\<^sup>*\<^sup>* (rb_new small_ring []) filled_sys"
proof -
  let ?S = "rb_step 0 31 log_cb"
  let ?u = "(ring_start small_ring ([] :: u8 list list))\<lparr>pc := Load_len\<rparr>"
  let ?s = "\<lparr>mem = small_ring, user = ?u, recs = []\<rparr>"
  have "?S (rb_new small_ring []) ((rb_new small_ring [])\<lparr>mem := small_ring, user := ?u\<rparr>)"
    by (rule rb_step.consumer) (simp add: ring_next_def rb_new_def ring_start_def small_ring_def)
  then have one: "?S (rb_new small_ring []) ?s" by (simp add: rb_new_def)
  have "?S ?s (?s\<lparr>mem := small_ring, user := ?u\<lparr>pc := Ret 0\<rparr>\<rparr>)"
    by (rule rb_step.consumer) (simp add: ring_next_def load_len_def ring_start_def small_ring_def)
  then have two: "?S ?s idle_sys" by (simp add: idle_sys_def)
  have three: "?S idle_sys (kernel_reserve 3 0 idle_sys)"
    by (rule rb_step.reserve) (simp_all add: idle_sys_def small_ring_def rec_size_def c_consts)
  have four: "?S (kernel_reserve 3 0 idle_sys) filled_sys" unfolding filled_sys_def
    by (rule rb_step.commit) (simp_all add: kernel_reserve_def idle_sys_def)
  show ?thesis using one two three four by (meson r_into_rtranclp rtranclp.rtrancl_into_rtrancl)
qed

lemma filled_sys_sel: "recs filled_sys = [Ready [1, 2, 3]]" "user filled_sys = (ring_start small_ring [])\<lparr>pc := Ret 0\<rparr>"
  "consumer_pos (mem filled_sys) = 0"
  by (simp_all add: filled_sys_def kernel_commit_def kernel_reserve_def idle_sys_def Let_def small_ring_def)

lemma filled_sys_pos: "rec_pos 0 [Ready [1, 2, 3]] n = (if n = 0 then 0 else 16)"
  by (cases n) (simp_all add: rec_pos_def rec_size_def c_consts)

lemma ringbuf_delivers_in_order_witness:
  "stored (mem filled_sys) 0 (Ready [1, 2, 3])"
proof -
  obtain i where "unat (consumer_pos (mem filled_sys)) = rec_pos 0 (recs filled_sys) i"
    "\<forall>k. i \<le> k \<longrightarrow> k < length (recs filled_sys) \<longrightarrow> stored (mem filled_sys) (rec_pos 0 (recs filled_sys) k) (recs filled_sys ! k)"
    using ringbuf_delivers_in_order [OF small_ring_empty filled_sys_run] by blast
  moreover from this(1) have "i = 0" unfolding filled_sys_sel filled_sys_pos by (simp split: if_splits)
  ultimately show ?thesis using filled_sys_pos [of 0] by (force simp: filled_sys_sel)
qed

lemma ringbuf_in_bounds_witness:
  "ring_next 31 log_cb (mem filled_sys) (user filled_sys) \<noteq> None \<and>
   unat (producer_pos (mem filled_sys)) - unat (consumer_pos (mem filled_sys)) < 32 \<and>
   16 \<le> unat (roundup_len 0xC0000008)"
proof -
  have "length (rb_data (mem filled_sys)) = 32"
    by (simp add: filled_sys_def kernel_commit_def kernel_reserve_def idle_sys_def Let_def small_ring_def)
  then show ?thesis using ringbuf_in_bounds [where hdr = "0xC0000008", OF small_ring_empty filled_sys_run] by (simp add: Let_def)
qed

lemma ringbuf_process_ring_outcome_witness:
  "\<exists>m. ringbuf_process_ring 31 log_cb (mem filled_sys) [] = Some (1, m, [[1, 2, 3]]) \<and> consumer_pos m = 16"
proof -
  have "pc (user filled_sys) = Ret 0" by (simp add: filled_sys_sel)
  from ringbuf_process_ring_outcome [OF small_ring_empty filled_sys_run this]
  obtain n c' r l where n: "unat (consumer_pos (mem filled_sys)) = rec_pos 0 (recs filled_sys) n"
    and out: "deliver log_cb (drop n (recs filled_sys)) (ctx (user filled_sys)) 0 = (c', r, l)"
      "ringbuf_process_ring 31 log_cb (mem filled_sys) (ctx (user filled_sys)) =
        Some (r, (mem filled_sys)\<lparr>consumer_pos := of_nat (rec_pos 0 (recs filled_sys) (n + l))\<rparr>, c')" by blast
  have "n = 0" using n unfolding filled_sys_sel filled_sys_pos by (simp split: if_splits)
  then have "c' = [[1, 2, 3]]" "r = 1" "l = 1" using out(1) by (auto simp: filled_sys_sel log_cb_def ring_start_def)
  then show ?thesis using out(2) \<open>n = 0\<close> by (simp add: filled_sys_sel filled_sys_pos ring_start_def)
qed

end
