(* ===== verification/RingSetup.thy ===== *)
theory RingSetup
  imports RingRun
begin

text \<open>
  Ring buffer managers, \<^verbatim>\<open>libbpf/src/ringbuf.c\<close>: setting rings up and tearing them down, with what is
  mapped into the process and which descriptors are open, and consuming all rings of a manager.
  Of what is freed only the mappings and the descriptors are modelled, not the heap.
\<close>

section \<open>Setting up\<close>

record ring =
  r_mask :: u64
  r_consumer :: "nat option"
  r_producer :: "nat option"
  r_map_fd :: int

record ring_buffer =
  events :: "nat list"
  rings :: "ring list"
  page_size :: nat
  epoll_fd :: int

record process =
  mapped :: "nat set"
  open_fds :: "int set"

definition BPF_MAP_TYPE_RINGBUF :: nat where [c_consts]: "BPF_MAP_TYPE_RINGBUF = 27"

definition munmap :: "nat \<Rightarrow> nat \<Rightarrow> process \<Rightarrow> process" where
  "munmap a len p = p\<lparr>mapped := mapped p - {a..<a + len}\<rparr>"

text \<open>
  The bytes mapped for the producer page and the data, \<^verbatim>\<open>2 * info.max_entries\<close> being a 32-bit
  product, and the bytes unmapped, where it is a 64-bit one.
\<close>

definition producer_len :: "nat \<Rightarrow> u32 \<Rightarrow> nat" where
  "producer_len page max_entries = page + unat (2 * max_entries)"

definition unmap_len :: "nat \<Rightarrow> u64 \<Rightarrow> nat" where
  "unmap_len page msk = page + unat (2 * (msk + 1))"

definition ringbuf_unmap_ring :: "ring_buffer \<Rightarrow> ring \<Rightarrow> process \<Rightarrow> ring \<times> process" where
  "ringbuf_unmap_ring rb r p =
     (let (r, p) = (case r_consumer r of None \<Rightarrow> (r, p)
                    | Some a \<Rightarrow> (r\<lparr>r_consumer := None\<rparr>, munmap a (page_size rb) p))
       in case r_producer r of None \<Rightarrow> (r, p)
          | Some a \<Rightarrow> (r\<lparr>r_producer := None\<rparr>, munmap a (unmap_len (page_size rb) (r_mask r)) p))"

text \<open>
  What the system answers while a ring is added: the map's type and size, the success of the two
  allocations, where memory is mapped (given what is mapped already and the length), and \<^verbatim>\<open>epoll_ctl\<close>.
\<close>

type_synonym mmap_call = "nat set \<Rightarrow> nat \<Rightarrow> int + nat"

record add_env =
  map_info :: "int + nat \<times> u32"
  rings_alloc :: bool
  events_alloc :: bool
  cons_mmap :: mmap_call
  prod_mmap :: mmap_call
  epoll_add :: "int option"

definition ring_buffer__add :: "add_env \<Rightarrow> int \<Rightarrow> ring_buffer \<Rightarrow> process \<Rightarrow> int \<times> ring_buffer \<times> process" where
  "ring_buffer__add env map_fd rb p =
     (case map_info env of
        Inl errno \<Rightarrow> (- errno, rb, p)
      | Inr (type, max_entries) \<Rightarrow>
          if type \<noteq> BPF_MAP_TYPE_RINGBUF then (- EINVAL, rb, p)
          else if \<not> rings_alloc env \<or> \<not> events_alloc env then (- ENOMEM, rb, p)
          else let r = \<lparr>r_mask = ucast (max_entries - 1), r_consumer = None, r_producer = None, r_map_fd = map_fd\<rparr>
            in case cons_mmap env (mapped p) (page_size rb) of
              Inl errno \<Rightarrow> (- errno, rb, p)
            | Inr a \<Rightarrow>
                let p = p\<lparr>mapped := mapped p \<union> {a..<a + page_size rb}\<rparr>;
                    r = r\<lparr>r_consumer := Some a\<rparr>;
                    len = producer_len (page_size rb) max_entries
                 in case prod_mmap env (mapped p) len of
                   Inl errno \<Rightarrow> (- errno, rb, snd (ringbuf_unmap_ring rb r p))
                 | Inr b \<Rightarrow>
                     let p = p\<lparr>mapped := mapped p \<union> {b..<b + len}\<rparr>;
                         r = r\<lparr>r_producer := Some b\<rparr>
                      in case epoll_add env of
                        Some errno \<Rightarrow> (- errno, rb, snd (ringbuf_unmap_ring rb r p))
                      | None \<Rightarrow> (0, rb\<lparr>rings := rings rb @ [r], events := events rb @ [length (rings rb)]\<rparr>, p))"

fun unmap_rings :: "ring_buffer \<Rightarrow> ring list \<Rightarrow> process \<Rightarrow> process" where
  "unmap_rings rb [] p = p"
| "unmap_rings rb (r # rs) p = unmap_rings rb rs (snd (ringbuf_unmap_ring rb r p))"

definition ring_buffer__free :: "ring_buffer option \<Rightarrow> process \<Rightarrow> process" where
  "ring_buffer__free rb p =
     (case rb of None \<Rightarrow> p
      | Some rb \<Rightarrow>
          let p = unmap_rings rb (rings rb) p
           in if epoll_fd rb \<ge> 0 then p\<lparr>open_fds := open_fds p - {epoll_fd rb}\<rparr> else p)"

definition ring_buffer__new ::
    "bool \<Rightarrow> bool \<Rightarrow> nat \<Rightarrow> int + int \<Rightarrow> add_env \<Rightarrow> int \<Rightarrow> process \<Rightarrow> (int + ring_buffer) \<times> process" where
  "ring_buffer__new opts_valid calloc_ok page epoll_create env map_fd p =
     (if \<not> opts_valid then (Inl EINVAL, p)
      else if \<not> calloc_ok then (Inl ENOMEM, p)
      else let rb = \<lparr>events = [], rings = [], page_size = page, epoll_fd = 0\<rparr>
        in case epoll_create of
          Inl errno \<Rightarrow> (Inl errno, ring_buffer__free (Some (rb\<lparr>epoll_fd := - 1\<rparr>)) p)
        | Inr fd \<Rightarrow>
            let rb = rb\<lparr>epoll_fd := fd\<rparr>;
                p = p\<lparr>open_fds := insert fd (open_fds p)\<rparr>;
                (err, rb, p) = ring_buffer__add env map_fd rb p
             in if err \<noteq> 0 then (Inl (- err), ring_buffer__free (Some rb) p) else (Inr rb, p))"

section \<open>Consuming\<close>

text \<open>A ring that is set up: its mask, its callback with the context, and the shared memory.\<close>

record 'c live_ring =
  l_mask :: u64
  l_cb :: "'c \<Rightarrow> u8 list \<Rightarrow> 'c \<times> int"
  l_ctx :: 'c
  l_mem :: rb_mem

fun process_rings :: "nat list \<Rightarrow> 'c live_ring list \<Rightarrow> int \<Rightarrow> (int \<times> 'c live_ring list) option" where
  "process_rings [] rs res = Some (if res > INT_MAX then INT_MAX else res, rs)"
| "process_rings (i # is) rs res = do {
     r \<leftarrow> rd rs i;
     (err, m, c) \<leftarrow> ringbuf_process_ring (l_mask r) (l_cb r) (l_mem r) (l_ctx r);
     let rs = rs[i := r\<lparr>l_mem := m, l_ctx := c\<rparr>];
     if err < 0 then Some (err, rs) else process_rings is rs (res + err)
   }"

definition ring_buffer__consume :: "'c live_ring list \<Rightarrow> (int \<times> 'c live_ring list) option" where
  "ring_buffer__consume rs = process_rings [0..<length rs] rs 0"

definition ring_buffer__poll :: "int + nat list \<Rightarrow> 'c live_ring list \<Rightarrow> (int \<times> 'c live_ring list) option" where
  "ring_buffer__poll epoll_wait rs =
     (case epoll_wait of Inl errno \<Rightarrow> Some (- errno, rs) | Inr ids \<Rightarrow> process_rings ids rs 0)"

section \<open>Nothing leaks\<close>

text \<open>\<^verbatim>\<open>mmap\<close> without an address chooses memory that is not mapped.\<close>

definition mmap_ok :: "mmap_call \<Rightarrow> bool" where
  "mmap_ok f \<longleftrightarrow> (\<forall>M len a. f M len = Inr a \<longrightarrow> {a..<a + len} \<inter> M = {})"

text \<open>A system that behaves like that, and a map that is smaller than 2 GiB if it is a ring.\<close>

definition add_env_ok :: "add_env \<Rightarrow> bool" where
  "add_env_ok env \<longleftrightarrow> mmap_ok (cons_mmap env) \<and> mmap_ok (prod_mmap env) \<and>
     (\<forall>type max_entries. map_info env = Inr (type, max_entries) \<longrightarrow> 0 < max_entries \<and> max_entries < 2 ^ 31) \<and>
     (\<forall>errno. map_info env = Inl errno \<longrightarrow> 0 < errno) \<and> (\<forall>errno. epoll_add env = Some errno \<longrightarrow> 0 < errno) \<and>
     (\<forall>M len errno. cons_mmap env M len = Inl errno \<longrightarrow> 0 < errno) \<and> (\<forall>M len errno. prod_mmap env M len = Inl errno \<longrightarrow> 0 < errno)"

fun add_rings :: "(add_env \<times> int) list \<Rightarrow> ring_buffer \<Rightarrow> process \<Rightarrow> ring_buffer \<times> process" where
  "add_rings [] rb p = (rb, p)"
| "add_rings ((env, fd) # es) rb p = (let (err, rb, p) = ring_buffer__add env fd rb p in add_rings es rb p)"

definition region :: "ring_buffer \<Rightarrow> ring \<Rightarrow> nat set" where
  "region rb r =
     (case r_consumer r of None \<Rightarrow> {} | Some a \<Rightarrow> {a..<a + page_size rb}) \<union>
     (case r_producer r of None \<Rightarrow> {} | Some b \<Rightarrow> {b..<b + unmap_len (page_size rb) (r_mask r)})"

definition mgr_ok :: "process \<Rightarrow> ring_buffer \<Rightarrow> process \<Rightarrow> bool" where
  "mgr_ok p0 rb p \<longleftrightarrow> mapped p = mapped p0 \<union> (\<Union>r \<in> set (rings rb). region rb r) \<and>
     (\<forall>r \<in> set (rings rb). region rb r \<inter> mapped p0 = {})"

lemma lens_agree:
  assumes "0 < max_entries" "max_entries < 2 ^ 31"
  shows "unmap_len page (ucast (max_entries - 1)) = producer_len page max_entries"
proof -
  have n: "0 < unat max_entries" "unat max_entries < 2 ^ 31"
    using assms by (simp_all add: word_less_nat_alt)
  have "unat (max_entries - 1) = unat max_entries - 1" using n(1) by (simp add: unat_minus_one word_gt_0 [symmetric] assms(1) unat_gt_0)
  then have "unat (ucast (max_entries - 1) + 1 :: u64) = unat max_entries"
    using n by (simp add: unat_word_ariths unsigned_ucast_eq take_bit_nat_eq_self)
  moreover have "unat (2 * y) = 2 * unat y" if "unat y < 2 ^ 31" for y :: u64
    using that by (simp add: unat_word_ariths(2))
  ultimately have "unat (2 * (ucast (max_entries - 1) + 1) :: u64) = 2 * unat max_entries" using n(2) by metis
  moreover have "unat (2 * max_entries) = 2 * unat max_entries" using n by (simp add: unat_word_ariths(2))
  ultimately show ?thesis by (simp add: unmap_len_def producer_len_def)
qed

lemma unmap_ring_mapped: "mapped (snd (ringbuf_unmap_ring rb r p)) = mapped p - region rb r"
  "open_fds (snd (ringbuf_unmap_ring rb r p)) = open_fds p"
  by (auto simp: ringbuf_unmap_ring_def region_def munmap_def Let_def split: option.splits)

lemma unmap_rings_mapped: "mapped (unmap_rings rb rs p) = mapped p - (\<Union>r \<in> set rs. region rb r)"
  "open_fds (unmap_rings rb rs p) = open_fds p"
  by (induction rs arbitrary: p) (auto simp: unmap_ring_mapped)

lemma region_simps [simp]:
  "region rb \<lparr>r_mask = k, r_consumer = None, r_producer = None, r_map_fd = fd\<rparr> = {}"
  "region rb \<lparr>r_mask = k, r_consumer = Some a, r_producer = None, r_map_fd = fd\<rparr> = {a..<a + page_size rb}"
  "region rb \<lparr>r_mask = k, r_consumer = Some a, r_producer = Some b, r_map_fd = fd\<rparr> =
     {a..<a + page_size rb} \<union> {b..<b + unmap_len (page_size rb) k}"
  by (simp_all add: region_def)

text \<open>Adding a ring changes nothing or adds one whose memory was not mapped before.\<close>

lemma add_outcome:
  assumes env: "add_env_ok env" and run: "ring_buffer__add env fd rb p = (err, rb', p')"
  shows "open_fds p' = open_fds p \<and>
    (err < 0 \<and> rb' = rb \<and> mapped p' = mapped p \<or>
     err = 0 \<and> (\<exists>r. rb' = rb\<lparr>rings := rings rb @ [r], events := events rb @ [length (rings rb)]\<rparr> \<and>
       region rb r \<inter> mapped p = {} \<and> mapped p' = mapped p \<union> region rb r))"
proof (cases "map_info env")
  case (Inl errno)
  then show ?thesis using assms by (auto simp: ring_buffer__add_def add_env_ok_def)
next
  case (Inr info)
  then obtain type max_entries where info: "map_info env = Inr (type, max_entries)" by (cases info) auto
  let ?bad = "type \<noteq> BPF_MAP_TYPE_RINGBUF \<or> \<not> rings_alloc env \<or> \<not> events_alloc env"
  let ?len = "producer_len (page_size rb) max_entries" and ?k = "ucast (max_entries - 1) :: u64"
  have len: "unmap_len (page_size rb) ?k = ?len" using env info by (intro lens_agree) (auto simp: add_env_ok_def)
  have fresh: "mmap_ok (cons_mmap env)" "mmap_ok (prod_mmap env)" using env by (simp_all add: add_env_ok_def)
  consider (bad) "?bad" | (no_map) errno where "\<not> ?bad" "cons_mmap env (mapped p) (page_size rb) = Inl errno"
    | (map) a where "\<not> ?bad" "cons_mmap env (mapped p) (page_size rb) = Inr a"
    by (cases "cons_mmap env (mapped p) (page_size rb)") auto
  then show ?thesis
  proof cases
    case bad
    then have "err = - EINVAL \<or> err = - ENOMEM" "rb' = rb" "p' = p"
      using run by (simp_all add: ring_buffer__add_def info split: if_splits)
    then show ?thesis by auto
  next
    case no_map
    then have "err = - errno" "rb' = rb" "p' = p" using run by (simp_all add: ring_buffer__add_def info)
    moreover have "0 < errno" using env no_map(2) unfolding add_env_ok_def by blast
    ultimately show ?thesis by simp
  next
    case a: (map a)
    let ?A = "{a..<a + page_size rb}"
    have A: "?A \<inter> mapped p = {}" using fresh(1) a(2) by (auto simp: mmap_ok_def)
    show ?thesis
    proof (cases "prod_mmap env (mapped p \<union> ?A) ?len")
      case (Inl errno)
      then have "err = - errno" "rb' = rb" "mapped p' = (mapped p \<union> ?A) - ?A" "open_fds p' = open_fds p"
        using run a by (auto simp: ring_buffer__add_def info Let_def unmap_ring_mapped)
      moreover have "0 < errno" using env Inl unfolding add_env_ok_def by blast
      ultimately show ?thesis using A by auto
    next
      case (Inr b)
      let ?B = "{b..<b + ?len}"
      have B: "?B \<inter> (mapped p \<union> ?A) = {}" using fresh(2) Inr unfolding mmap_ok_def by blast
      show ?thesis
      proof (cases "epoll_add env")
        case (Some errno)
        let ?r = "\<lparr>r_mask = ?k, r_consumer = Some a, r_producer = Some b, r_map_fd = fd\<rparr>"
        let ?p = "snd (ringbuf_unmap_ring rb ?r (p\<lparr>mapped := mapped p \<union> ?A \<union> ?B\<rparr>))"
        have "ring_buffer__add env fd rb p = (- errno, rb, ?p)" using a Inr Some by (simp add: ring_buffer__add_def info Let_def)
        then have eq: "err = - errno" "rb' = rb" "p' = ?p" unfolding run by (simp_all only: prod.inject)
        have "mapped p' = (mapped p \<union> ?A \<union> ?B) - (?A \<union> ?B)" "open_fds p' = open_fds p"
          unfolding eq unmap_ring_mapped by (simp_all add: len)
        moreover have "(mapped p \<union> ?A \<union> ?B) - (?A \<union> ?B) = mapped p" using A B by blast
        moreover have "0 < errno" using env Some unfolding add_env_ok_def by blast
        ultimately show ?thesis using eq(1,2) by simp
      next
        case None
        let ?r = "\<lparr>r_mask = ?k, r_consumer = Some a, r_producer = Some b, r_map_fd = fd\<rparr>"
        have "err = 0" "rb' = rb\<lparr>rings := rings rb @ [?r], events := events rb @ [length (rings rb)]\<rparr>"
          "mapped p' = mapped p \<union> ?A \<union> ?B" "open_fds p' = open_fds p"
          using run a Inr None by (auto simp: ring_buffer__add_def info Let_def)
        moreover have "region rb ?r = ?A \<union> ?B" by (simp add: len)
        ultimately show ?thesis using A B by blast
      qed
    qed
  qed
qed

lemma region_cong: "page_size rb' = page_size rb \<Longrightarrow> region rb' r = region rb r"
  unfolding region_def by (rule arg_cong2 [where f = "(\<union>)"]) (simp_all only:)

lemma add_mgr_ok:
  assumes "add_env_ok env" "mgr_ok p0 rb p" "ring_buffer__add env fd rb p = (err, rb', p')"
  shows "mgr_ok p0 rb' p'" "open_fds p' = open_fds p" "epoll_fd rb' = epoll_fd rb"
proof -
  note out = add_outcome [OF assms(1,3)]
  show "open_fds p' = open_fds p" by (rule conjunct1 [OF out])
  from conjunct2 [OF out] consider (kept) "rb' = rb" "mapped p' = mapped p"
    | (grown) r where "rb' = rb\<lparr>rings := rings rb @ [r], events := events rb @ [length (rings rb)]\<rparr>"
      "region rb r \<inter> mapped p = {}" "mapped p' = mapped p \<union> region rb r" by blast
  then have "mgr_ok p0 rb' p' \<and> epoll_fd rb' = epoll_fd rb"
  proof cases
    case kept
    then show ?thesis using assms(2) unfolding mgr_ok_def by simp
  next
    case (grown r)
    have reg: "region rb' q = region rb q" for q by (rule region_cong) (simp add: grown(1))
    have rs: "rings rb' = rings rb @ [r]" "epoll_fd rb' = epoll_fd rb" by (simp_all add: grown(1))
    have old: "mapped p = mapped p0 \<union> (\<Union>r \<in> set (rings rb). region rb r)" "\<forall>r \<in> set (rings rb). region rb r \<inter> mapped p0 = {}"
      using assms(2) unfolding mgr_ok_def by blast+
    have "mapped p' = mapped p0 \<union> (\<Union>r \<in> set (rings rb'). region rb' r)" unfolding grown(3) old(1) rs reg by auto
    moreover have "\<forall>r \<in> set (rings rb'). region rb' r \<inter> mapped p0 = {}" using old grown(2) unfolding rs reg by auto
    ultimately show ?thesis using rs(2) unfolding mgr_ok_def by blast
  qed
  then show "mgr_ok p0 rb' p'" "epoll_fd rb' = epoll_fd rb" by blast+
qed

lemma add_rings_ok:
  assumes "\<forall>(env, fd) \<in> set es. add_env_ok env" "mgr_ok p0 rb p" "add_rings es rb p = (rb', p')"
  shows "mgr_ok p0 rb' p' \<and> open_fds p' = open_fds p \<and> epoll_fd rb' = epoll_fd rb"
  using assms
proof (induction es arbitrary: rb p)
  case (Cons e es)
  obtain env fd where e: "e = (env, fd)" by (cases e)
  obtain err rb1 p1 where one: "ring_buffer__add env fd rb p = (err, rb1, p1)" by (rule prod_cases3)
  have "add_env_ok env" using Cons.prems(1) e by simp
  note ok = add_mgr_ok [OF this Cons.prems(2) one]
  have "add_rings es rb1 p1 = (rb', p')" using Cons.prems(3) one e by simp
  moreover have "\<forall>(env, fd) \<in> set es. add_env_ok env" using Cons.prems(1) by simp
  ultimately have "mgr_ok p0 rb' p' \<and> open_fds p' = open_fds p1 \<and> epoll_fd rb' = epoll_fd rb1" by (intro Cons.IH ok(1))
  then show ?case unfolding ok(2,3) .
qed simp

lemma free_mgr:
  assumes "mgr_ok p0 rb p"
  shows "mapped (ring_buffer__free (Some rb) p) = mapped p0"
    "open_fds (ring_buffer__free (Some rb) p) = open_fds p - (if epoll_fd rb \<ge> 0 then {epoll_fd rb} else {})"
  using assms by (auto simp: ring_buffer__free_def unmap_rings_mapped mgr_ok_def Let_def)

text \<open>
  C14: setting up rings leaks nothing, whichever call fails: a manager that could not be created leaves the
  process as it was, and so does freeing one after any number of rings, added with or
  without success: no page of it stays mapped, none of anything else is unmapped, and its
  epoll descriptor is closed. This is for maps of less than 2 GiB.
\<close>

theorem ring_buffer_no_leak:
  assumes "add_env_ok env" "\<forall>(env, fd) \<in> set es. add_env_ok env" "\<And>fd. epoll_create = Inr fd \<Longrightarrow> 0 \<le> fd \<and> fd \<notin> open_fds p"
    "\<And>errno. epoll_create = Inl errno \<Longrightarrow> 0 < errno"
  shows "case ring_buffer__new opts_valid calloc_ok page epoll_create env map_fd p of
      (Inl errno, p') \<Rightarrow> 0 < errno \<and> p' = p
    | (Inr rb, p1) \<Rightarrow> (case add_rings es rb p1 of (rb, p2) \<Rightarrow> ring_buffer__free (Some rb) p2 = p)"
proof (cases "opts_valid \<and> calloc_ok")
  case False
  then show ?thesis by (auto simp: ring_buffer__new_def)
next
  case alloc: True
  show ?thesis
  proof (cases epoll_create)
    case (Inl errno)
    then show ?thesis using alloc assms(4) by (simp add: ring_buffer__new_def ring_buffer__free_def)
  next
    case (Inr fd)
    let ?rb = "\<lparr>events = [], rings = [], page_size = page, epoll_fd = fd\<rparr>" and ?p = "p\<lparr>open_fds := insert fd (open_fds p)\<rparr>"
    obtain err rb1 p1 where add: "ring_buffer__add env map_fd ?rb ?p = (err, rb1, p1)" by (rule prod_cases3)
    have fd: "0 \<le> fd" "fd \<notin> open_fds p" using assms(3) [OF Inr] by simp_all
    have "mgr_ok p ?rb ?p" by (simp add: mgr_ok_def)
    note ok = add_mgr_ok [OF assms(1) this add]
    have undone: "ring_buffer__free (Some rb2) p2 = p"
      if "mgr_ok p rb2 p2" "open_fds p2 = open_fds ?p" "epoll_fd rb2 = fd" for rb2 p2
      using free_mgr [OF that(1)] that(2,3) fd by simp
    show ?thesis
    proof (cases "err = 0")
      case True
      then have new: "ring_buffer__new opts_valid calloc_ok page epoll_create env map_fd p = (Inr rb1, p1)"
        using alloc Inr add by (simp add: ring_buffer__new_def)
      obtain rb2 p2 where more_rings: "add_rings es rb1 p1 = (rb2, p2)" by fastforce
      from add_rings_ok [OF assms(2) ok(1) this] show ?thesis using undone ok(2,3) new more_rings by simp
    next
      case False
      then have "err < 0" using add_outcome [OF assms(1) add] by auto
      then show ?thesis using alloc Inr add undone [OF ok(1,2)] ok(3) by (simp add: ring_buffer__new_def)
    qed
  qed
qed

text \<open>With 2 GiB the 32-bit product is 0: no data is mapped, and 4 GiB too many are unmapped.\<close>

lemma two_gib_ring:
  "producer_len 4096 0x80000000 = 4096" "unmap_len 4096 (ucast (0x80000000 - 1 :: u32)) = 4096 + 2 ^ 32"
  by (simp_all add: producer_len_def unmap_len_def)

section \<open>All rings of a manager\<close>

text \<open>
  A round over all rings: each ring up to the first whose callback fails is processed, the rest is
  left alone, and the result is that error or the number of samples, at most \<^verbatim>\<open>INT_MAX\<close>.
\<close>

definition after_call :: "'c live_ring \<Rightarrow> int \<times> rb_mem \<times> 'c \<Rightarrow> 'c live_ring" where
  "after_call r out = r\<lparr>l_mem := fst (snd out), l_ctx := snd (snd out)\<rparr>"

lemma process_rings_outcome:
  assumes "\<forall>i < length rs. ringbuf_process_ring (l_mask (rs ! i)) (l_cb (rs ! i)) (l_mem (rs ! i)) (l_ctx (rs ! i)) = Some (out i)"
    "k \<le> length rs" "\<forall>i < k. 0 \<le> fst (out i)"
    "qs = map (\<lambda>i. if i < k then after_call (rs ! i) (out i) else rs ! i) [0..<length rs]"
  shows "\<exists>e res. process_rings [k..<length rs] qs (\<Sum>i < k. fst (out i)) =
      Some (res, map (\<lambda>i. if i < e then after_call (rs ! i) (out i) else rs ! i) [0..<length rs]) \<and> e \<le> length rs \<and>
    (if \<exists>i < length rs. fst (out i) < 0 then 0 < e \<and> res = fst (out (e - 1)) \<and> res < 0 \<and> (\<forall>i < e - 1. 0 \<le> fst (out i))
     else e = length rs \<and> res = min INT_MAX (\<Sum>i < length rs. fst (out i)))"
  using assms(2-4)
proof (induction "length rs - k" arbitrary: k qs)
  case 0
  then have "k = length rs" by simp
  then show ?case using 0 by (intro exI [of _ "length rs"]) (auto simp: min_def not_less)
next
  case (Suc d)
  then have k: "k < length rs" by simp
  obtain err m c where out: "out k = (err, m, c)" by (rule prod_cases3)
  have q: "rd qs k = Some (rs ! k)" using k Suc.prems(3) by simp
  let ?qs = "qs[k := after_call (rs ! k) (out k)]"
  have qs: "?qs = map (\<lambda>i. if i < Suc k then after_call (rs ! i) (out i) else rs ! i) [0..<length rs]"
    using Suc.prems(3) k by (intro nth_equalityI) (auto simp: nth_list_update less_Suc_eq)
  have step: "process_rings [k..<length rs] qs (\<Sum>i < k. fst (out i)) =
      (if err < 0 then Some (err, ?qs) else process_rings [Suc k..<length rs] ?qs ((\<Sum>i < k. fst (out i)) + err))"
    using k q assms(1) out by (simp add: upt_conv_Cons after_call_def)
  show ?case
  proof (cases "err < 0")
    case True
    then have "\<exists>i < length rs. fst (out i) < 0" using k out by (intro exI [of _ k]) simp
    then show ?thesis using True step qs out k Suc.prems(2) by (intro exI [of _ "Suc k"] exI [of _ err]) simp
  next
    case False
    then have "\<forall>i < Suc k. 0 \<le> fst (out i)" using Suc.prems(2) out by (auto simp: less_Suc_eq)
    from Suc.hyps(1) [OF _ _ this qs] show ?thesis using Suc.hyps(2) k False step out by simp
  qed
qed

lemma ring_buffer__consume_outcome:
  assumes "\<forall>i < length rs. ringbuf_process_ring (l_mask (rs ! i)) (l_cb (rs ! i)) (l_mem (rs ! i)) (l_ctx (rs ! i)) = Some (out i)"
  shows "\<exists>e res. ring_buffer__consume rs =
      Some (res, map (\<lambda>i. if i < e then after_call (rs ! i) (out i) else rs ! i) [0..<length rs]) \<and> e \<le> length rs \<and>
    (if \<exists>i < length rs. fst (out i) < 0 then 0 < e \<and> res = fst (out (e - 1)) \<and> res < 0 \<and> (\<forall>i < e - 1. 0 \<le> fst (out i))
     else e = length rs \<and> res = min INT_MAX (\<Sum>i < length rs. fst (out i)))"
  using process_rings_outcome [OF assms, of 0 rs] by (simp add: ring_buffer__consume_def map_nth)

section \<open>Witness\<close>

definition page_env :: add_env where
  "page_env = \<lparr>map_info = Inr (BPF_MAP_TYPE_RINGBUF, 4096), rings_alloc = True, events_alloc = True,
     cons_mmap = \<lambda>M len. if {4096..<4096 + len} \<inter> M = {} then Inr 4096 else Inl ENOMEM,
     prod_mmap = \<lambda>M len. if {65536..<65536 + len} \<inter> M = {} then Inr 65536 else Inl ENOMEM, epoll_add = None\<rparr>"

lemma page_env_ok: "add_env_ok page_env"
  by (auto simp: add_env_ok_def page_env_def mmap_ok_def split: if_splits)

lemma ring_buffer_no_leak_witness:
  "\<exists>rb p. ring_buffer__new True True 4096 (Inr 3) page_env 7 \<lparr>mapped = {}, open_fds = {}\<rparr> = (Inr rb, p) \<and>
     mapped p \<noteq> {} \<and> ring_buffer__free (Some rb) p = \<lparr>mapped = {}, open_fds = {}\<rparr>"
proof -
  let ?p = "\<lparr>mapped = {}, open_fds = {}\<rparr>"
  let ?new = "ring_buffer__new True True 4096 (Inr 3) page_env 7 ?p"
  have "\<exists>rb p. ?new = (Inr rb, p) \<and> 4096 \<in> mapped p"
    by (simp add: ring_buffer__new_def ring_buffer__add_def page_env_def Let_def)
  then obtain rb p where new: "?new = (Inr rb, p)" "4096 \<in> mapped p" by blast
  have "case ?new of (Inl errno, p') \<Rightarrow> 0 < errno \<and> p' = ?p
    | (Inr rb, p1) \<Rightarrow> (case add_rings [] rb p1 of (rb, p2) \<Rightarrow> ring_buffer__free (Some rb) p2 = ?p)"
    by (rule ring_buffer_no_leak) (simp_all add: page_env_ok)
  then show ?thesis using new by auto
qed

end
