(* ===== verification/Spec2Isabelle.thy ===== *)
theory Spec2Isabelle
  imports XdpPrograms Rewrite Jhash PinnedMaps Netlink Strset CorePath CoreObject XskProd XskCons BtfSeq ProgObject RingSetup
begin

text \<open>
  A verification library for the eBPF part of the SDN-CNI-Course repository: the XDP and TC
  programs of \<^verbatim>\<open>src/eBPF/eBPF_tutorial\<close> with the user-space code that configures and loads them,
  and the parts of libbpf they stand on, from the tutorial's copy (\<^verbatim>\<open>eBPF_tutorial/libbpf\<close>) and
  from the newer one (\<^verbatim>\<open>src/eBPF/libbpf\<close>).

  \<^bold>\<open>The program.\<close> A lesson is a kernel-side program, run by the kernel on every packet, and a
  user-side one. The kernel side moves a cursor over the packet with the parsers of
  \<^verbatim>\<open>common/parsing_helpers.h\<close>, may rewrite it with \<^verbatim>\<open>common/rewrite_helpers.h\<close>, counts in maps,
  and answers with an action code. The user side reads its command line
  (\<^verbatim>\<open>common_params.c\<close>) into a \<^verbatim>\<open>struct config\<close>, loads an object file through libbpf
  (\<^verbatim>\<open>bpf_prog_load_xattr\<close>), possibly with maps taken from pinned files (\<^verbatim>\<open>common_libbpf.c\<close>), and
  attaches a program of it to an interface (\<^verbatim>\<open>common_user_bpf_xdp.c\<close>), for which libbpf sends a
  netlink request and reads the answer (\<^verbatim>\<open>netlink.c\<close>, \<^verbatim>\<open>nlattr.c\<close>). Inside libbpf, loading a
  program means adapting it to the running kernel: the relocations recorded by the compiler are
  resolved against BTF type information (\<^verbatim>\<open>btf.c\<close>, \<^verbatim>\<open>relo_core.c\<close>), and the strings of BTF are
  kept in string sets (\<^verbatim>\<open>strset.c\<close>) over a generic hash map (\<^verbatim>\<open>hashmap.c\<close>).

  \<^bold>\<open>The theories\<close>, each with the files it models:

    \<^item> \<open>Prelude\<close>: C integer types, errno values, checked reads and writes of lists, byte order
      (\<^verbatim>\<open>headers/bpf_endian.h\<close>);
    \<^item> \<open>Packet\<close>, \<open>Parsing\<close>, \<open>Rewrite\<close>, \<open>XdpPrograms\<close>: packet memory, \<^verbatim>\<open>parsing_helpers.h\<close>,
      \<^verbatim>\<open>rewrite_helpers.h\<close>, and the kernel-side programs \<^verbatim>\<open>01_kern.c\<close> to \<^verbatim>\<open>06_kern.c\<close> with the
      statistics of \<^verbatim>\<open>xdp_stats_kern.h\<close>;
    \<^item> \<open>Jhash\<close>: \<^verbatim>\<open>headers/jhash.h\<close>;
    \<^item> \<open>Params\<close>: \<^verbatim>\<open>common_params.c\<close>, \<^verbatim>\<open>common_defines.h\<close>;
    \<^item> \<open>BpfObject\<close>, \<open>Loader\<close>, \<open>PinnedMaps\<close>: programs and maps of an object in \<^verbatim>\<open>libbpf.c\<close>,
      \<^verbatim>\<open>common_user_bpf_xdp.c\<close>, \<^verbatim>\<open>common_libbpf.c\<close>;
    \<^item> \<open>Nlattr\<close>, \<open>Netlink\<close>: \<^verbatim>\<open>nlattr.c\<close>, \<^verbatim>\<open>nlattr.h\<close>, \<^verbatim>\<open>netlink.c\<close>;
    \<^item> \<open>LinkKernel\<close>: the contract between the loader and \<^verbatim>\<open>netlink.c\<close>, and its proof for the model of
      \<^verbatim>\<open>bpf_set_link_xdp_fd\<close> on any kernel that answers as documented;
    \<^item> \<open>Hashmap\<close>, \<open>GrowArray\<close>, \<open>Strset\<close>: \<^verbatim>\<open>hashmap.c\<close>, \<^verbatim>\<open>hashmap.h\<close>, \<^verbatim>\<open>libbpf_add_mem\<close> of \<^verbatim>\<open>btf.c\<close>,
      \<^verbatim>\<open>strset.c\<close>;
    \<^item> \<open>Btf\<close>: the types of \<^verbatim>\<open>include/uapi/linux/btf.h\<close>, \<^verbatim>\<open>btf.h\<close> and the queries of \<^verbatim>\<open>btf.c\<close>;
    \<^item> \<open>CoreSpec\<close>, \<open>CorePath\<close>: the access specifications of \<^verbatim>\<open>relo_core.c\<close>, how they are parsed
      and matched, with the candidate search of \<^verbatim>\<open>libbpf.c\<close>, and what they mean;
    \<^item> \<open>CoreRelo\<close>, \<open>CoreApply\<close>, \<open>CoreObject\<close>: the rest of \<^verbatim>\<open>relo_core.c\<close>, the value of a relocation, the
      patching of an instruction and the agreement of all candidates, and the relocation of the
      programs of an object in \<^verbatim>\<open>libbpf.c\<close> with its cache of candidate lists;
    \<^item> \<open>ProgElf\<close>, \<open>ProgRelo\<close>, \<open>ProgLink\<close>, \<open>ProgData\<close>, \<open>ProgObject\<close>: the programs of an object file and
      their relocation descriptors, the linking of called functions into a program with the debug
      records, the references to data, and the order of it all (\<^verbatim>\<open>libbpf.c\<close>,
      \<^verbatim>\<open>libbpf_internal.h\<close>);
    \<^item> \<open>BtfFile\<close>: reading a BTF file in either byte order and giving its raw data, at the level of
      bytes (\<^verbatim>\<open>btf.c\<close>);
    \<^item> \<open>BtfMem\<close>, \<open>BtfAdd\<close>, \<open>BtfBuild\<close>, \<open>BtfSeq\<close>: \<^verbatim>\<open>struct btf\<close> in memory, the functions \<^verbatim>\<open>btf__add_*\<close>
      that build types in it, the requests they carry out, and sequences of them (\<^verbatim>\<open>btf.c\<close>);
    \<^item> \<open>Channel\<close>, \<open>XskRing\<close>, \<open>XskProd\<close>, \<open>XskCons\<close>: the shared rings of AF_XDP sockets (\<^verbatim>\<open>xsk.h\<close>, and
      their set-up in \<^verbatim>\<open>xsk.c\<close>) as step relations of the program and the kernel, over a bounded
      channel;
    \<^item> \<open>Ringbuf\<close>, \<open>RingInv\<close>, \<open>RingRun\<close>, \<open>RingSetup\<close>: BPF ring buffers (\<^verbatim>\<open>ringbuf.c\<close>), the consumer as
      the steps between its accesses to the shared memory, and managers of several rings.

  \<^bold>\<open>How code becomes definitions.\<close> A C function is a HOL function of the same name (a name that
  HOL uses gets a suffix; a lesson's own variant of a shared function gets the lesson's number).
  A struct is a record, an enum or a tagged union a datatype, an integer that can wrap a word of
  its width. State is passed in and returned. A loop is a function of its own, named after the
  function it belongs to. An access that C does not define (out of bounds, through NULL, an
  unterminated string) is \<open>None\<close>, so that \<open>f x = Some y\<close> says that \<open>f\<close> runs without one; a
  pointer that the code tests for NULL is a second option inside of that one. An error that the
  code returns is a value: its negative errno, or the left of a sum.

  Calls that leave the sources are parameters: the kernel (\<open>rtnl\<close>, \<open>get_id\<close>,
  \<^verbatim>\<open>bpf_xdp_adjust_head\<close>, the results of \<^verbatim>\<open>recv\<close>), the C library (\<^verbatim>\<open>getopt_long\<close>, which gives no
  result when it reads behind its table, \<^verbatim>\<open>if_nametoindex\<close>, the success of each allocation) and
  the ELF loader. What is assumed of them is a named hypothesis with the documented behaviour
  (\<open>rtnl_ok\<close>, \<open>get_id_ok\<close>, \<open>adjust_head_ok\<close>, \<open>arg_given\<close>). The loader's contract with
  \<^verbatim>\<open>bpf_set_link_xdp_fd\<close> is \<open>set_link_ok\<close>: a call that ends with an error may have changed the
  kernel, since the request is handled before its answer is read; \<open>netlink_set_link_ok\<close> proves it
  from \<open>rtnl_ok\<close>, and the witnesses of the loader run through it. Character arrays have the sizes
  of \<^verbatim>\<open>struct config\<close> (\<open>sized\<close>), and a copy that does not fit or a string that does not end in
  its array is \<open>None\<close>.

  \<^bold>\<open>What is shown.\<close>

    \<^item> Kernel side: no parser reads outside the packet, whatever its bytes; a frame built from
      given headers is parsed to them; pushing and popping a VLAN tag are inverse; each program
      computes the verdict and the counts of an abstract specification, and its counters stay
      consistent over any sequence of packets.
    \<^item> User side: exactly which command lines are rejected, provided \<^verbatim>\<open>getopt_long\<close> stays within the
      table, which the code does not end, and the invariant of the configuration; which program
      of an object is attached, and what attaching and detaching leave in the kernel, an answer
      that is lost included; which descriptors a pinned map ends up with.
    \<^item> Netlink: the request built decodes to the arguments; a well-formed attribute stream parses
      to its attributes; parsing arbitrary bytes is safe as long as the lengths are honest.
    \<^item> Hash map and string set: an insertion or deletion is one on an abstract map for every
      strategy and every outcome of allocation, growing keeps the invariant and reverses equal
      keys; a string set is a set of strings with stable offsets.
    \<^item> BTF and relocations: the size of a type is the one its structure gives; skipping modifiers
      ends; an access string is parsed to the path through nested types it stands for, and a
      match finds a path in the target, with its offset, whose accessors are the members of the
      local names; a load of a bitfield is patched so that the shifts leave the field's value;
      both halves of a 64-bit load are patched; an instruction is patched only if all candidates
      agree; the cache of an object never changes what a relocation finds.
    \<^item> Programs of an object: whatever the symbols of a section, the programs made of them cover
      disjoint parts of it, and the descriptors made of any relocation records stay in their
      programs and refer to what exists; linking gives each main program its own copy of every
      function it can reach, each call landing on its callee, and fails only for a stated fault;
      relocating the object links every program as if it were the only one and changes exactly
      the instructions that refer to something.
    \<^item> BTF files and types in memory: what the parser accepts is well formed, and writing what was
      read, without gaps and without a base, gives the same bytes; every call of a function that
      builds a type or a member of one appends what it describes, or answers with an error that the
      arguments or a failed allocation explain and changes nothing that can be seen; what was
      built is read back from the raw data under the identifiers returned.
    \<^item> AF_XDP rings: every entry the producer submits is consumed once and in order, nothing is
      overwritten, and with both sides willing a step is always possible.
    \<^item> BPF ring buffers: under any interleaving with the kernel, samples are delivered once and in the
      order of reservation and never while they are written, and nothing outside of the double
      mapping is read; an undisturbed call ends with a stated result; managers leak nothing.

  \<^bold>\<open>Interfaces.\<close> Where several operations share a contract it is a locale, interpreted on the
  model's definitions: \<open>header_parser\<close> and \<open>header_chain\<close> (a parser that is bounded by the packet,
  and two in a row), \<open>field_swap\<close>, \<open>packet_counter\<close> (a program that counts packets by a
  classification), and \<open>hash_contract\<close> (equal keys have equal hashes), which the hash map's
  lemmas assume and the string keys, the offsets of a string set and the type identifiers of the
  candidate cache provide; \<open>channel_system\<close> (a system whose steps are those of a bounded channel),
  which the transmit and the receive ring provide.

  \<^bold>\<open>Bounds.\<close> The VLAN loop has the two rounds of the code, size and type resolution the 32 rounds
  of \<^verbatim>\<open>MAX_RESOLVE_DEPTH\<close>. Skipping modifiers and comparing array types have no bound in the code
  and are partial functions, and so is the loop over a ring buffer (\<open>ringbuf_process_ring_outcome\<close>
  shows that it ends when the kernel adds nothing); \<open>skip_mods_and_typedefs_total\<close> shows when the first ends. The search
  for a member nests as deeply as the code allows, 64 levels, and gets 65 units of fuel, so it
  cannot run out; the comparison of function types nests without a bound in the code, and its
  fuel is an argument. The functions appended while a program is linked nest no deeper than there
  are programs, which is enough fuel; the fields of a program that the code has as \<^verbatim>\<open>int\<close> or
  \<^verbatim>\<open>size_t\<close> are natural numbers where nothing can wrap, and words where the code relies on it.

  \<^bold>\<open>Not modelled.\<close> Messages to the terminal and to the trace pipe. Decoding ELF files (symbols and
  relocation records are taken as libelf gives them) and collecting maps and externs, deduplication, merging and dumping of BTF, \<^verbatim>\<open>.BTF.ext\<close>, the static linker, the skeleton
  generator. The system call wrappers and feature probes, the set-up of AF_XDP sockets apart
  from their rings, perf buffers. The
  class, qdisc and filter dumps of \<^verbatim>\<open>netlink.c\<close>. The lessons' polling loops that only print.
  Shell scripts, the virtual machine tests and the generated headers.
\<close>

end
